(* ===== verification/Prelude.thy ===== *)
theory Prelude
  imports Main "HOL-Library.Word"
begin

text \<open>
  Shared vocabulary of the development: bytes and machine words, the error values that every
  fallible routine returns, bounds-checked reads and writes of C buffers, and the big-endian and
  little-endian integer layouts that the wire formats use, with their round-trip laws.

  C memory is modelled by the list of the bytes of the object a pointer points to. A read or a
  write outside of the object is undefined behaviour in C and the error \<open>Out_of_bounds\<close> here, so
  a theorem whose conclusion is \<open>Inr _\<close> also states that no access leaves its object.
\<close>

unbundle bit_operations_syntax

named_theorems buffer_simps
named_theorems wire_simps

type_synonym byte = "8 word"
type_synonym bytes = "byte list"
type_synonym u16 = "16 word"
type_synonym u32 = "32 word"
type_synonym u64 = "64 word"

section \<open>Errors and sequencing\<close>

text \<open>
  The ways a routine can fail: a Lua error raised with \<open>luaL_error\<close> (the source's message), a
  failed C \<open>assert\<close>, an access outside of an object or of a freed one, an allocation that fails
  (on which the program aborts), a loop that does not end, a read of a variable that was never written,
  and a pointer that a service gives to the runtime and that points to nothing.
\<close>

datatype err =
    Lua_error string
  | Assert_failed
  | Out_of_bounds
  | Out_of_memory
  | Diverges
  | Uninitialised
  | Bad_pointer

type_synonym 'a res = "err + 'a"

definition bind_r :: "'a res \<Rightarrow> ('a \<Rightarrow> 'b res) \<Rightarrow> 'b res" where
  "bind_r m k = (case m of Inl e \<Rightarrow> Inl e | Inr x \<Rightarrow> k x)"

lemma bind_r_simps [simp]:
  "bind_r (Inl e) k = Inl e"
  "bind_r (Inr x) k = k x"
  by (simp_all add: bind_r_def)

lemma bind_r_Inr_iff:
  "bind_r m k = Inr y \<longleftrightarrow> (\<exists>x. m = Inr x \<and> k x = Inr y)"
  by (cases m) auto

lemma bind_r_Inl_iff:
  "bind_r m k = Inl e \<longleftrightarrow> m = Inl e \<or> (\<exists>x. m = Inr x \<and> k x = Inl e)"
  by (cases m) auto

lemma bind_r_cong [fundef_cong]:
  "m = m' \<Longrightarrow> (\<And>x. m' = Inr x \<Longrightarrow> k x = k' x) \<Longrightarrow> bind_r m k = bind_r m' k'"
  by (cases m') auto

section \<open>C buffers\<close>

text \<open>The bytes of a string constant, without the final 0.\<close>

definition cstring :: "string \<Rightarrow> bytes" where
  "cstring s = map of_char s"

definition mem_read :: "bytes \<Rightarrow> nat \<Rightarrow> nat \<Rightarrow> bytes res" where
  "mem_read m off n =
     (if off + n \<le> length m then Inr (take n (drop off m)) else Inl Out_of_bounds)"

definition mem_write :: "bytes \<Rightarrow> nat \<Rightarrow> bytes \<Rightarrow> bytes res" where
  "mem_write m off bs =
     (if off + length bs \<le> length m
      then Inr (take off m @ bs @ drop (off + length bs) m) else Inl Out_of_bounds)"

lemma mem_read_Inr:
  "off + n \<le> length m \<Longrightarrow> mem_read m off n = Inr (take n (drop off m))"
  by (simp add: mem_read_def)

lemma mem_write_Inr:
  "off + length bs \<le> length m \<Longrightarrow>
     mem_write m off bs = Inr (take off m @ bs @ drop (off + length bs) m)"
  by (simp add: mem_write_def)

lemma mem_write_length:
  "mem_write m off bs = Inr m' \<Longrightarrow> length m' = length m"
  by (auto simp: mem_write_def split: if_splits)

text \<open>
  Writing and reading fields one after the other, as rewrite rules: a write behind a known prefix
  leaves the prefix alone, a write at offset 0 replaces the first bytes, and a read collects known
  prefixes. With \<open>buffer_simps\<close> the simplifier turns a sequence of writes into the concatenation
  of what was written, whatever the buffer held before.
\<close>

lemma mem_write_0 [buffer_simps]:
  "length bs \<le> length m \<Longrightarrow> mem_write m 0 bs = Inr (bs @ drop (length bs) m)"
  by (simp add: mem_write_def)

lemma mem_write_skip [buffer_simps]:
  "length pre \<le> off \<Longrightarrow>
     mem_write (pre @ rest) off bs = bind_r (mem_write rest (off - length pre) bs) (\<lambda>r. Inr (pre @ r))"
  by (auto simp: mem_write_def)

text \<open>A write right behind what is known of the buffer.\<close>

lemma mem_write_at:
  "off = length pre \<Longrightarrow> length bs \<le> length rest \<Longrightarrow>
     mem_write (pre @ rest) off bs = Inr ((pre @ bs) @ drop (length bs) rest)"
  by (simp add: mem_write_def)

lemma mem_write_Cons [buffer_simps]:
  "0 < off \<Longrightarrow> mem_write (x # rest) off bs = bind_r (mem_write rest (off - 1) bs) (\<lambda>r. Inr (x # r))"
  using mem_write_skip [of "[x]" off rest bs] by (simp add: Suc_le_eq)

lemma mem_read_0_0 [buffer_simps]: "mem_read m 0 0 = Inr []"
  by (simp add: mem_read_def)

lemma mem_read_self [buffer_simps]: "n = length m \<Longrightarrow> mem_read m 0 n = Inr m"
  by (simp add: mem_read_def)

lemma mem_read_skip [buffer_simps]:
  "length pre \<le> off \<Longrightarrow> mem_read (pre @ rest) off n = mem_read rest (off - length pre) n"
  by (auto simp: mem_read_def)

lemma mem_read_Cons [buffer_simps]:
  "0 < off \<Longrightarrow> mem_read (x # rest) off n = mem_read rest (off - 1) n"
  using mem_read_skip [of "[x]" off rest n] by (simp add: Suc_le_eq)

lemma mem_read_append [buffer_simps]:
  "length pre \<le> n \<Longrightarrow>
     mem_read (pre @ rest) 0 n = bind_r (mem_read rest 0 (n - length pre)) (\<lambda>r. Inr (pre @ r))"
  by (auto simp: mem_read_def)

lemma mem_read_Cons_0 [buffer_simps]:
  "0 < n \<Longrightarrow> mem_read (x # rest) 0 n = bind_r (mem_read rest 0 (n - 1)) (\<lambda>r. Inr (x # r))"
  using mem_read_append [of "[x]" n rest] by (simp add: Suc_le_eq)

lemma mem_read_length: "mem_read m off n = Inr bs \<Longrightarrow> length bs = n"
  by (auto simp: mem_read_def split: if_splits)

section \<open>Message types\<close>

text \<open>The types of messages and the flags of \<open>skynet_send\<close> (\<open>skynet-src/skynet.h\<close>).\<close>

definition PTYPE_TEXT :: u32 where "PTYPE_TEXT = 0"
definition PTYPE_CLIENT :: u32 where "PTYPE_CLIENT = 3"
definition PTYPE_SYSTEM :: u32 where "PTYPE_SYSTEM = 4"
definition PTYPE_HARBOR :: u32 where "PTYPE_HARBOR = 5"
definition PTYPE_SOCKET :: u32 where "PTYPE_SOCKET = 6"
definition PTYPE_ERROR :: u32 where "PTYPE_ERROR = 7"
definition PTYPE_TAG_DONTCOPY :: u32 where "PTYPE_TAG_DONTCOPY = 0x10000"
definition PTYPE_TAG_ALLOCSESSION :: u32 where "PTYPE_TAG_ALLOCSESSION = 0x20000"

text \<open>What the runtime tells the owner of a socket (\<open>skynet-src/skynet_socket.h\<close>).\<close>

definition SKYNET_SOCKET_TYPE_DATA :: int where "SKYNET_SOCKET_TYPE_DATA = 1"
definition SKYNET_SOCKET_TYPE_CONNECT :: int where "SKYNET_SOCKET_TYPE_CONNECT = 2"
definition SKYNET_SOCKET_TYPE_CLOSE :: int where "SKYNET_SOCKET_TYPE_CLOSE = 3"
definition SKYNET_SOCKET_TYPE_ACCEPT :: int where "SKYNET_SOCKET_TYPE_ACCEPT = 4"
definition SKYNET_SOCKET_TYPE_ERROR :: int where "SKYNET_SOCKET_TYPE_ERROR = 5"
definition SKYNET_SOCKET_TYPE_UDP :: int where "SKYNET_SOCKET_TYPE_UDP = 6"
definition SKYNET_SOCKET_TYPE_WARNING :: int where "SKYNET_SOCKET_TYPE_WARNING = 7"

record skynet_socket_message =
  ssm_type :: int
  ssm_id :: int
  ssm_ud :: int
  ssm_buffer :: "nat option"

section \<open>Machine integers\<close>

lemma unat_add_small:
  "unat a + unat b < 2 ^ LENGTH('a) \<Longrightarrow> unat (a + b :: 'a::len word) = unat a + unat b"
  by (simp add: unat_add_lem)

lemma unat_lt: "unat (w :: 'a::len word) < 2 ^ LENGTH('a)"
  by (rule unsigned_less)

lemma unat_of_nat_small:
  "n < 2 ^ LENGTH('a) \<Longrightarrow> unat (of_nat n :: 'a::len word) = n"
  by (simp add: unat_of_nat)

lemma unat_ucast_small:
  "unat w < 2 ^ LENGTH('b) \<Longrightarrow> unat (ucast (w :: 'a::len word) :: 'b::len word) = unat w"
  by (simp add: unsigned_ucast_eq take_bit_nat_eq_self)

lemma sint_small:
  assumes "unat w < 2 ^ (LENGTH('a) - 1)"
  shows "sint (w :: 'a::len word) = int (unat w)"
proof -
  have "int (unat w) < 2 ^ (LENGTH('a) - 1)"
    using assms by (metis of_nat_less_iff of_nat_numeral of_nat_power)
  moreover have "- (2 ^ (LENGTH('a) - Suc 0)) \<le> uint w"
    by (rule order_trans [of _ 0]) simp_all
  ultimately show ?thesis
    by (simp add: sint_uint signed_take_bit_int_eq_self)
qed

lemma unat_sint_nonneg:
  assumes "0 \<le> sint (w :: 'a::len word)"
  shows "unat w < 2 ^ (LENGTH('a) - 1)"
proof -
  have "\<not> bit w (LENGTH('a) - 1)"
    using assms by (simp add: sint_uint signed_take_bit_nonnegative_iff bit_uint_iff)
  then have "w = take_bit (LENGTH('a) - 1) w"
    by (intro bit_word_eqI) (auto simp: bit_take_bit_iff, metis One_nat_def Suc_pred len_gt_0 less_antisym)
  then have "unat w = take_bit (LENGTH('a) - 1) (unat w)"
    by (metis unsigned_take_bit_eq)
  then show ?thesis
    by (metis take_bit_nat_less_exp)
qed

section \<open>Integer layouts\<close>

text \<open>
  \<open>byte_at w i\<close> is the C expression \<open>(w >> 8*i) & 0xff\<close> stored into a \<open>uint8_t\<close>. The layouts are
  the little-endian and the big-endian sequence of these bytes; the readers are the C expressions
  \<open>b[0] | b[1] << 8 | ...\<close>.
\<close>

definition byte_at :: "'a::len word \<Rightarrow> nat \<Rightarrow> byte" where
  "byte_at w i = ucast (drop_bit (8 * i) w AND 0xff)"

definition le32 :: "u32 \<Rightarrow> bytes" where
  "le32 n = [byte_at n 0, byte_at n 1, byte_at n 2, byte_at n 3]"

definition le16 :: "u16 \<Rightarrow> bytes" where
  "le16 n = [byte_at n 0, byte_at n 1]"

definition le64 :: "u64 \<Rightarrow> bytes" where
  "le64 n = [byte_at n 0, byte_at n 1, byte_at n 2, byte_at n 3,
             byte_at n 4, byte_at n 5, byte_at n 6, byte_at n 7]"

definition be16 :: "u16 \<Rightarrow> bytes" where
  "be16 n = [byte_at n 1, byte_at n 0]"

definition be32 :: "u32 \<Rightarrow> bytes" where
  "be32 n = [byte_at n 3, byte_at n 2, byte_at n 1, byte_at n 0]"

definition be64 :: "u64 \<Rightarrow> bytes" where
  "be64 n = [byte_at n 7, byte_at n 6, byte_at n 5, byte_at n 4,
             byte_at n 3, byte_at n 2, byte_at n 1, byte_at n 0]"

fun of_le :: "bytes \<Rightarrow> 'a::len word" where
  "of_le [] = 0"
| "of_le (b # bs) = ucast b OR push_bit 8 (of_le bs)"

definition of_be :: "bytes \<Rightarrow> 'a::len word" where
  "of_be bs = of_le (rev bs)"

lemma length_layouts [simp]:
  "length (le32 n) = 4" "length (be16 m) = 2" "length (be32 n) = 4" "length (be64 k) = 8"
  "length (le16 m) = 2" "length (le64 k) = 8"
  by (simp_all add: le32_def be16_def be32_def be64_def le16_def le64_def)

lemma layouts_not_Nil [simp]:
  "le32 n \<noteq> []" "be16 m \<noteq> []" "be32 n \<noteq> []" "be64 k \<noteq> []"
  by (simp_all add: le32_def be16_def be32_def be64_def)

lemma bit_255 [bit_simps]: "bit (255 :: int) k \<longleftrightarrow> k < 8"
  using bit_mask_iff [of 8 k, where 'a = int] by (simp add: mask_eq_exp_minus_1)

lemma bit_byte_at [simp]:
  "bit (byte_at w i) k \<longleftrightarrow> k < 8 \<and> bit w (8 * i + k)"
proof -
  have "bit w (8 * i + k) \<Longrightarrow> k < LENGTH('a)"
    by (meson bit_imp_le_length le_add2 le_less_trans)
  then show ?thesis
    by (auto simp: byte_at_def bit_simps)
qed

lemma bit_of_le:
  "bit (of_le bs :: 'a::len word) k \<longleftrightarrow>
     k < LENGTH('a) \<and> k div 8 < length bs \<and> bit (bs ! (k div 8)) (k mod 8)"
proof (induction bs arbitrary: k)
  case Nil
  then show ?case by simp
next
  case (Cons b bs)
  show ?case
  proof (cases "k < 8")
    case True
    then show ?thesis by (auto simp: bit_simps)
  next
    case False
    then have "\<not> bit b k" by (auto dest: bit_imp_le_length)
    moreover have "k div 8 = Suc ((k - 8) div 8)" "k mod 8 = (k - 8) mod 8"
      using False by (simp_all add: le_div_geq le_mod_geq)
    ultimately show ?thesis
      using False by (auto simp: bit_simps Cons.IH)
  qed
qed

lemma of_le_bytes:
  assumes "LENGTH('a) \<le> 8 * n"
  shows "of_le (map (byte_at (w :: 'a::len word)) [0..<n]) = w"
proof (rule bit_word_eqI)
  fix k assume k: "k < LENGTH('a)"
  with assms have "k div 8 < n" by auto
  then show "bit (of_le (map (byte_at w) [0..<n]) :: 'a word) k = bit w k"
    using k by (simp add: bit_of_le)
qed

lemma upt_bytes:
  "[0..<2] = [0, 1 :: nat]" "[0..<4] = [0, 1, 2, 3 :: nat]"
  "[0..<8] = [0, 1, 2, 3, 4, 5, 6, 7 :: nat]"
  by code_simp+

lemma of_le_le32 [simp, wire_simps]: "of_le (le32 n) = n"
  using of_le_bytes [of 4 n] by (simp add: le32_def upt_bytes del: of_le.simps)

lemma of_le_le16 [simp, wire_simps]: "of_le (le16 n) = n"
  using of_le_bytes [of 2 n] by (simp add: le16_def upt_bytes del: of_le.simps)

lemma of_le_le64 [simp, wire_simps]: "of_le (le64 n) = n"
  using of_le_bytes [of 8 n] by (simp add: le64_def upt_bytes del: of_le.simps)

lemma of_be_be16 [simp, wire_simps]: "of_be (be16 n) = n"
  using of_le_bytes [of 2 n] by (simp add: of_be_def be16_def upt_bytes del: of_le.simps)

lemma of_be_be32 [simp, wire_simps]: "of_be (be32 n) = n"
  using of_le_bytes [of 4 n] by (simp add: of_be_def be32_def upt_bytes del: of_le.simps)

lemma of_be_be64 [simp, wire_simps]: "of_be (be64 n) = n"
  using of_le_bytes [of 8 n] by (simp add: of_be_def be64_def upt_bytes del: of_le.simps)

text \<open>Reading a field back from behind what was written before it.\<close>

lemma take_drop_field:
  "off = length pre \<Longrightarrow> n = length fld \<Longrightarrow> take n (drop off (pre @ fld @ rest)) = fld"
  by simp

lemma take_append_exact: "n = length xs \<Longrightarrow> take n (xs @ ys) = xs"
  by simp

lemma drop_append_exact: "n = length xs \<Longrightarrow> drop n (xs @ ys) = ys"
  by simp

section \<open>Frames\<close>

text \<open>A frame is a payload behind its 16-bit big-endian length; all cluster traffic is framed so.\<close>

definition frame :: "bytes \<Rightarrow> bytes" where
  "frame payload = be16 (of_nat (length payload)) @ payload"

lemma unframe: "drop 2 (frame x) = x"
  by (simp add: frame_def drop_append_exact)

end
