(* ===== verification/Beecluster.thy ===== *)
theory Beecluster
  imports Prelude
begin

text \<open>
  The cluster wire protocol, \<open>src/cpp/beecluster/lua-beecluster.c\<close>: packing of requests, pushes,
  traces and responses into length-prefixed frames, their unpacking, and the reassembly of
  multi-part messages. The Lua stack is modelled by the list of arguments a function reads and
  the list of values it returns; the C buffers by byte lists with checked accesses; the calls of
  \<open>skynet_free(msg)\<close> by a counter next to the result.
\<close>

section \<open>Lua values\<close>

text \<open>
  The values that cross the boundary. \<open>L_int\<close> is a Lua integer, \<open>L_float\<close> a Lua float by the bits
  of its IEEE double, \<open>L_ptr\<close> a light userdata by the bytes of the object it points to.
\<close>

datatype lval =
    L_nil
  | L_bool bool
  | L_int int
  | L_float u64
  | L_str bytes
  | L_ptr bytes
  | L_other

text \<open>
  \<open>lua_tointeger\<close> on numbers: an integral double in the range of a 64-bit integer converts, any other
  double gives 0.
\<close>

definition double_to_integer :: "u64 \<Rightarrow> int option" where
  "double_to_integer w =
     (let neg = bit w 63;
          ex = uint ((drop_bit 52 w) AND 0x7ff);
          frac = uint (w AND 0xfffffffffffff);
          m = (if ex = 0 then frac else 2 ^ 52 + frac);
          e = (if ex = 0 then - 1074 else ex - 1075);
          mag = (if ex = 0x7ff then None
                 else if m = 0 then Some 0
                 else if 0 \<le> e then (if e < 12 then Some (m * 2 ^ nat e) else None)
                 else if 2 ^ nat (- e) dvd m then Some (m div 2 ^ nat (- e)) else None)
      in case mag of None \<Rightarrow> None
         | Some v \<Rightarrow>
             (let r = (if neg then - v else v)
              in if - (2 ^ 63) \<le> r \<and> r < 2 ^ 63 then Some r else None))"

fun lua_tointeger :: "lval \<Rightarrow> int" where
  "lua_tointeger (L_int i) = i"
| "lua_tointeger (L_float w) = (case double_to_integer w of Some i \<Rightarrow> i | None \<Rightarrow> 0)"
| "lua_tointeger _ = 0"

fun is_number :: "lval \<Rightarrow> bool" where
  "is_number (L_int i) = True"
| "is_number (L_float w) = True"
| "is_number _ = False"

fun lua_tolstring :: "lval \<Rightarrow> bytes option" where
  "lua_tolstring (L_str s) = Some s"
| "lua_tolstring _ = None"

section \<open>Frame primitives\<close>

definition TEMP_LENGTH :: nat where
  "TEMP_LENGTH = 0x8200"

definition MULTI_PART :: u32 where
  "MULTI_PART = 0x8000"

definition fill_uint32 :: "bytes \<Rightarrow> nat \<Rightarrow> u32 \<Rightarrow> bytes res" where
  "fill_uint32 buf off n =
     mem_write buf off
       [ucast (n AND 0xff), ucast (drop_bit 8 n AND 0xff),
        ucast (drop_bit 16 n AND 0xff), ucast (drop_bit 24 n AND 0xff)]"

definition fill_header :: "bytes \<Rightarrow> u32 \<Rightarrow> bytes res" where
  "fill_header buf sz =
     (if sint sz < 0x10000
      then mem_write buf 0 [ucast (drop_bit 8 sz AND 0xff), ucast (sz AND 0xff)]
      else Inl Assert_failed)"

definition unpack_uint32 :: "bytes \<Rightarrow> nat \<Rightarrow> u32 res" where
  "unpack_uint32 buf off =
     bind_r (mem_read buf off 4) (\<lambda>b.
       Inr (ucast (b ! 0) OR push_bit 8 (ucast (b ! 1)) OR
            push_bit 16 (ucast (b ! 2)) OR push_bit 24 (ucast (b ! 3))))"

section \<open>Packing requests\<close>

definition packreq_number ::
  "bytes \<Rightarrow> lval \<Rightarrow> u32 \<Rightarrow> bytes \<Rightarrow> u32 \<Rightarrow> bool \<Rightarrow> (bytes \<times> nat) res" where
  "packreq_number buf arg1 session msg sz is_push =
     (let addr = (word_of_int (lua_tointeger arg1) :: u32) in
      if sz < MULTI_PART then
        bind_r (fill_header buf (sz + 9)) (\<lambda>buf.
        bind_r (mem_write buf 2 [0]) (\<lambda>buf.
        bind_r (fill_uint32 buf 3 addr) (\<lambda>buf.
        bind_r (fill_uint32 buf 7 (if is_push then 0 else session)) (\<lambda>buf.
        bind_r (mem_read msg 0 (unat sz)) (\<lambda>data.
        bind_r (mem_write buf 11 data) (\<lambda>buf.
        bind_r (mem_read buf 0 (unat (sz + 11))) (\<lambda>pkt.
        Inr (pkt, 0))))))))
      else
        (let part = unat ((sz - 1) div MULTI_PART + 1) in
         bind_r (fill_header buf 13) (\<lambda>buf.
         bind_r (mem_write buf 2 [if is_push then 0x41 else 1]) (\<lambda>buf.
         bind_r (fill_uint32 buf 3 addr) (\<lambda>buf.
         bind_r (fill_uint32 buf 7 session) (\<lambda>buf.
         bind_r (fill_uint32 buf 11 sz) (\<lambda>buf.
         bind_r (mem_read buf 0 15) (\<lambda>pkt.
         Inr (pkt, part)))))))))"

definition packreq_string ::
  "bytes \<Rightarrow> lval \<Rightarrow> u32 \<Rightarrow> bytes \<Rightarrow> u32 \<Rightarrow> bool \<Rightarrow> nat \<times> (bytes \<times> nat) res" where
  "packreq_string buf arg1 session msg sz is_push =
     (case lua_tolstring arg1 of
        None \<Rightarrow> (1, Inl (Lua_error ''name is not a string, it's a %s''))
      | Some name \<Rightarrow>
         (let namelen = length name in
          if namelen < 1 \<or> 255 < namelen then (1, Inl (Lua_error ''name is too long %s''))
          else (0,
            if sz < MULTI_PART then
              bind_r (fill_header buf (sz + 6 + of_nat namelen)) (\<lambda>buf.
              bind_r (mem_write buf 2 [0x80]) (\<lambda>buf.
              bind_r (mem_write buf 3 [of_nat namelen]) (\<lambda>buf.
              bind_r (mem_write buf 4 name) (\<lambda>buf.
              bind_r (fill_uint32 buf (4 + namelen) (if is_push then 0 else session)) (\<lambda>buf.
              bind_r (mem_read msg 0 (unat sz)) (\<lambda>data.
              bind_r (mem_write buf (8 + namelen) data) (\<lambda>buf.
              bind_r (mem_read buf 0 (unat sz + 8 + namelen)) (\<lambda>pkt.
              Inr (pkt, 0)))))))))
            else
              (let part = unat ((sz - 1) div MULTI_PART + 1) in
               bind_r (fill_header buf (10 + of_nat namelen)) (\<lambda>buf.
               bind_r (mem_write buf 2 [if is_push then 0xc1 else 0x81]) (\<lambda>buf.
               bind_r (mem_write buf 3 [of_nat namelen]) (\<lambda>buf.
               bind_r (mem_write buf 4 name) (\<lambda>buf.
               bind_r (fill_uint32 buf (4 + namelen) session) (\<lambda>buf.
               bind_r (fill_uint32 buf (8 + namelen) sz) (\<lambda>buf.
               bind_r (mem_read buf 0 (12 + namelen)) (\<lambda>pkt.
               Inr (pkt, part))))))))))))"

text \<open>The loop over the parts: \<open>n\<close> iterations are left, \<open>ptr\<close> is the offset into the message.\<close>

fun packreq_parts :: "nat \<Rightarrow> bytes \<Rightarrow> u32 \<Rightarrow> bytes \<Rightarrow> nat \<Rightarrow> u32 \<Rightarrow> bytes list res" where
  "packreq_parts 0 buf session msg ptr sz = Inr []"
| "packreq_parts (Suc n) buf session msg ptr sz =
     (let more = MULTI_PART < sz;
          s = (if more then MULTI_PART else sz)
      in bind_r (mem_write buf 2 [if more then 2 else 3]) (\<lambda>buf.
         bind_r (fill_header buf (s + 5)) (\<lambda>buf.
         bind_r (fill_uint32 buf 3 session) (\<lambda>buf.
         bind_r (mem_read msg ptr (unat s)) (\<lambda>data.
         bind_r (mem_write buf 7 data) (\<lambda>buf.
         bind_r (mem_read buf 0 (unat (s + 7))) (\<lambda>pkt.
         bind_r (packreq_parts n buf session msg (ptr + unat s) (sz - s)) (\<lambda>rest.
         Inr (pkt # rest)))))))))"

definition packreq_multi :: "bytes \<Rightarrow> u32 \<Rightarrow> bytes \<Rightarrow> u32 \<Rightarrow> bytes list res" where
  "packreq_multi buf session msg sz =
     (let part = (sz - 1) div MULTI_PART + 1
      in packreq_parts (unat part) buf session msg 0 sz)"

text \<open>
  \<open>packrequest\<close>: the message pointer may be NULL (\<open>None\<close>); \<open>session_arg\<close> and \<open>sz_arg\<close> are the Lua
  integers of the arguments 2 and 4, truncated to \<open>int\<close> and \<open>uint32_t\<close> as in C. \<open>buf\<close> and \<open>mbuf\<close> are
  the uninitialised stack buffers of the two packing routines. The result is the number of times
  the message is freed, and the returned values: the frame, the next session and, for a message
  sent in parts, the table of the parts.
\<close>

definition packrequest ::
  "bytes \<Rightarrow> bytes \<Rightarrow> lval \<Rightarrow> int \<Rightarrow> bytes option \<Rightarrow> int \<Rightarrow> bool \<Rightarrow>
     nat \<times> (bytes \<times> u32 \<times> bytes list option) res" where
  "packrequest buf mbuf arg1 session_arg msg_arg sz_arg is_push =
     (case msg_arg of
        None \<Rightarrow> (0, Inl (Lua_error ''Invalid request message''))
      | Some msg \<Rightarrow>
         (let sz = (word_of_int sz_arg :: u32);
              session = (word_of_int session_arg :: u32)
          in if sint session \<le> 0 then (1, Inl (Lua_error ''Invalid request session %d''))
             else
               (let (frees, r) =
                      (if is_number arg1 then (0, packreq_number buf arg1 session msg sz is_push)
                       else packreq_string buf arg1 session msg sz is_push)
                in case r of
                     Inl e \<Rightarrow> (frees, Inl e)
                   | Inr (pkt, multipak) \<Rightarrow>
                      (let new_session =
                             (if 0x7fffffff < session + 1 then 1 else session + 1)
                       in if multipak \<noteq> 0 then
                            (case packreq_multi mbuf session msg sz of
                               Inl e \<Rightarrow> (frees, Inl e)
                             | Inr parts \<Rightarrow> (frees + 1, Inr (pkt, new_session, Some parts)))
                          else (frees + 1, Inr (pkt, new_session, None))))))"

definition lpackrequest where
  "lpackrequest buf mbuf arg1 session_arg msg_arg sz_arg =
     packrequest buf mbuf arg1 session_arg msg_arg sz_arg False"

definition lpackpush where
  "lpackpush buf mbuf arg1 session_arg msg_arg sz_arg =
     packrequest buf mbuf arg1 session_arg msg_arg sz_arg True"

definition lpacktrace :: "bytes \<Rightarrow> bytes \<Rightarrow> bytes res" where
  "lpacktrace buf tag =
     (let sz = length tag in
      if 0x8000 < sz then Inl (Lua_error ''trace tag is too long : %d'')
      else bind_r (mem_write buf 2 [4]) (\<lambda>buf.
           bind_r (fill_header buf (of_nat (sz + 1))) (\<lambda>buf.
           bind_r (mem_write buf 3 tag) (\<lambda>buf.
           mem_read buf 0 (sz + 3)))))"

section \<open>Unpacking requests\<close>

text \<open>
  \<open>return_buffer\<close> copies \<open>sz\<close> bytes into a fresh object and pushes the pointer and the size. A
  negative size reaches \<open>memcpy\<close> as a huge \<open>size_t\<close>, which leaves every object.
\<close>

definition read_int :: "bytes \<Rightarrow> nat \<Rightarrow> int \<Rightarrow> bytes res" where
  "read_int buf off sz = (if sz < 0 then Inl Out_of_bounds else mem_read buf off (nat sz))"

definition return_buffer :: "bytes \<Rightarrow> nat \<Rightarrow> int \<Rightarrow> lval list res" where
  "return_buffer buf off sz =
     bind_r (read_int buf off sz) (\<lambda>data. Inr [L_ptr data, L_int sz])"

definition unpackreq_number :: "bytes \<Rightarrow> int \<Rightarrow> lval list res" where
  "unpackreq_number buf sz =
     (if sz < 9 then Inl (Lua_error ''Invalid cluster message (size=%d)'')
      else bind_r (unpack_uint32 buf 1) (\<lambda>address.
           bind_r (unpack_uint32 buf 5) (\<lambda>session.
           bind_r (return_buffer buf 9 (sz - 9)) (\<lambda>vs.
           Inr ([L_int (uint address), L_int (uint session)] @ vs @
                (if session = 0 then [L_nil, L_bool True] else []))))))"

definition unpackmreq_number :: "bytes \<Rightarrow> int \<Rightarrow> bool \<Rightarrow> lval list res" where
  "unpackmreq_number buf sz is_push =
     (if sz \<noteq> 13
      then Inl (Lua_error ''Invalid cluster message size %d (multi req must be 13)'')
      else bind_r (unpack_uint32 buf 1) (\<lambda>address.
           bind_r (unpack_uint32 buf 5) (\<lambda>session.
           bind_r (unpack_uint32 buf 9) (\<lambda>size.
           Inr [L_int (uint address), L_int (uint session), L_nil, L_int (uint size),
                L_bool True, L_bool is_push]))))"

definition unpackmreq_part :: "bytes \<Rightarrow> int \<Rightarrow> lval list res" where
  "unpackmreq_part buf sz =
     (if sz < 5 then Inl (Lua_error ''Invalid cluster multi part message'')
      else bind_r (mem_read buf 0 1) (\<lambda>ty.
           let padding = (ty ! 0 = 2) in
           bind_r (unpack_uint32 buf 1) (\<lambda>session.
           bind_r (return_buffer buf 5 (sz - 5)) (\<lambda>vs.
           Inr ([L_bool False, L_int (uint session)] @ vs @ [L_bool padding])))))"

definition unpacktrace :: "bytes \<Rightarrow> int \<Rightarrow> lval list res" where
  "unpacktrace buf sz = bind_r (read_int buf 1 (sz - 1)) (\<lambda>tag. Inr [L_str tag])"

text \<open>
  In the two string variants \<open>sz < namesz + 6\<close> compares an \<open>int\<close> with a \<open>size_t\<close>; \<open>sz\<close> is at least 2
  there, so the comparison is the one of the integers.
\<close>

definition unpackreq_string :: "bytes \<Rightarrow> int \<Rightarrow> lval list res" where
  "unpackreq_string buf sz =
     (if sz < 2 then Inl (Lua_error ''Invalid cluster message (size=%d)'')
      else bind_r (mem_read buf 1 1) (\<lambda>nb.
           let namesz = unat (nb ! 0) in
           if sz < int namesz + 6 then Inl (Lua_error ''Invalid cluster message (size=%d)'')
           else bind_r (mem_read buf 2 namesz) (\<lambda>name.
                bind_r (unpack_uint32 buf (namesz + 2)) (\<lambda>session.
                bind_r (return_buffer buf (2 + namesz + 4) (sz - int namesz - 6)) (\<lambda>vs.
                Inr ([L_str name, L_int (uint session)] @ vs @
                     (if session = 0 then [L_nil, L_bool True] else [])))))))"

definition unpackmreq_string :: "bytes \<Rightarrow> int \<Rightarrow> bool \<Rightarrow> lval list res" where
  "unpackmreq_string buf sz is_push =
     (if sz < 2 then Inl (Lua_error ''Invalid cluster message (size=%d)'')
      else bind_r (mem_read buf 1 1) (\<lambda>nb.
           let namesz = unat (nb ! 0) in
           if sz < int namesz + 10 then Inl (Lua_error ''Invalid cluster message (size=%d)'')
           else bind_r (mem_read buf 2 namesz) (\<lambda>name.
                bind_r (unpack_uint32 buf (namesz + 2)) (\<lambda>session.
                bind_r (unpack_uint32 buf (namesz + 6)) (\<lambda>size.
                Inr [L_str name, L_int (uint session), L_nil, L_int (uint size),
                     L_bool True, L_bool is_push])))))"

text \<open>
  \<open>lunpackrequest\<close> takes a light userdata with its size, or a string, whose length is truncated to
  \<open>int\<close>. The first byte selects the package type.
\<close>

datatype req_arg =
    Ptr_arg bytes int
  | Str_arg bytes

definition lunpackrequest :: "req_arg \<Rightarrow> lval list res" where
  "lunpackrequest arg =
     (let (msg, sz) =
            (case arg of
               Ptr_arg m n \<Rightarrow> (m, sint (word_of_int n :: u32))
             | Str_arg m \<Rightarrow> (m, sint (of_nat (length m) :: u32)))
      in if sz = 0 then Inl (Lua_error ''Invalid req package. size == 0'')
         else bind_r (mem_read msg 0 1) (\<lambda>t.
           let ty = t ! 0 in
           if ty = 0 then unpackreq_number msg sz
           else if ty = 1 then unpackmreq_number msg sz False
           else if ty = 0x41 then unpackmreq_number msg sz True
           else if ty = 2 \<or> ty = 3 then unpackmreq_part msg sz
           else if ty = 4 then unpacktrace msg sz
           else if ty = 0x80 then unpackreq_string msg sz
           else if ty = 0x81 then unpackmreq_string msg sz False
           else if ty = 0xc1 then unpackmreq_string msg sz True
           else Inl (Lua_error ''Invalid req package type %d'')))"

section \<open>Responses\<close>

datatype response =
    Single bytes
  | Multi "bytes list"

fun packresponse_parts :: "nat \<Rightarrow> bytes \<Rightarrow> u32 \<Rightarrow> bytes \<Rightarrow> nat \<Rightarrow> u64 \<Rightarrow> bytes list res" where
  "packresponse_parts 0 buf session msg ptr sz = Inr []"
| "packresponse_parts (Suc n) buf session msg ptr sz =
     (let more = 0x8000 < sz;
          s = (if more then 0x8000 else sz)
      in bind_r (mem_write buf 6 [if more then 3 else 4]) (\<lambda>buf.
         bind_r (fill_header buf (ucast s + 5)) (\<lambda>buf.
         bind_r (fill_uint32 buf 2 session) (\<lambda>buf.
         bind_r (mem_read msg ptr (unat s)) (\<lambda>data.
         bind_r (mem_write buf 7 data) (\<lambda>buf.
         bind_r (mem_read buf 0 (unat s + 7)) (\<lambda>pkt.
         bind_r (packresponse_parts n buf session msg (ptr + unat s) (sz - s)) (\<lambda>rest.
         Inr (pkt # rest)))))))))"

definition lpackresponse ::
  "bytes \<Rightarrow> bytes \<Rightarrow> int \<Rightarrow> bool \<Rightarrow> bytes \<Rightarrow> u64 \<Rightarrow> response res" where
  "lpackresponse buf mbuf session_arg ok msg sz =
     (let session = (word_of_int session_arg :: u32) in
      if ok \<and> 0x8000 < sz then
        (let part = unat ((sz - 1) div 0x8000 + 1) in
         bind_r (fill_header mbuf 9) (\<lambda>mbuf.
         bind_r (fill_uint32 mbuf 2 session) (\<lambda>mbuf.
         bind_r (mem_write mbuf 6 [2]) (\<lambda>mbuf.
         bind_r (fill_uint32 mbuf 7 (ucast sz)) (\<lambda>mbuf.
         bind_r (mem_read mbuf 0 11) (\<lambda>pkt.
         bind_r (packresponse_parts part mbuf session msg 0 sz) (\<lambda>rest.
         Inr (Multi (pkt # rest)))))))))
      else
        (let sz = (if \<not> ok \<and> 0x8000 < sz then 0x8000 else sz) in
         bind_r (fill_header buf (ucast sz + 5)) (\<lambda>buf.
         bind_r (fill_uint32 buf 2 session) (\<lambda>buf.
         bind_r (mem_write buf 6 [if ok then 1 else 0]) (\<lambda>buf.
         bind_r (mem_read msg 0 (unat sz)) (\<lambda>data.
         bind_r (mem_write buf 7 data) (\<lambda>buf.
         bind_r (mem_read buf 0 (unat sz + 7)) (\<lambda>pkt.
         Inr (Single pkt)))))))))"

definition lunpackresponse :: "bytes \<Rightarrow> lval list res" where
  "lunpackresponse buf =
     (let sz = length buf in
      if sz < 5 then Inr []
      else bind_r (unpack_uint32 buf 0) (\<lambda>session.
           bind_r (mem_read buf 4 1) (\<lambda>t.
           let ty = t ! 0 in
           if ty = 0 then
             bind_r (mem_read buf 5 (sz - 5)) (\<lambda>m.
               Inr [L_int (uint session), L_bool False, L_str m])
           else if ty = 1 \<or> ty = 4 then
             bind_r (mem_read buf 5 (sz - 5)) (\<lambda>m.
               Inr [L_int (uint session), L_bool True, L_str m])
           else if ty = 2 then
             (if sz \<noteq> 9 then Inr []
              else bind_r (unpack_uint32 buf 5) (\<lambda>size.
                Inr [L_int (uint session), L_bool True, L_int (uint size), L_bool True]))
           else if ty = 3 then
             bind_r (mem_read buf 5 (sz - 5)) (\<lambda>m.
               Inr [L_int (uint session), L_bool True, L_str m, L_bool True])
           else Inr [])))"

section \<open>Reassembly\<close>

text \<open>
  The table of the parts is a Lua sequence. \<open>lappend\<close> appends the announced size (when the pointer
  argument is nil) or the bytes behind the pointer, which it frees; the result carries the number
  of frees.
\<close>

fun lua_touserdata :: "lval \<Rightarrow> bytes option" where
  "lua_touserdata (L_ptr m) = Some m"
| "lua_touserdata _ = None"

text \<open>\<open>luaL_checkinteger\<close> raises an error where \<open>lua_tointeger\<close> gives 0.\<close>

definition luaL_checkinteger :: "lval \<Rightarrow> int res" where
  "luaL_checkinteger v =
     (case v of
        L_int i \<Rightarrow> Inr i
      | L_float w \<Rightarrow>
          (case double_to_integer w of Some i \<Rightarrow> Inr i | None \<Rightarrow> Inl (Lua_error ''number has no integer representation''))
      | _ \<Rightarrow> Inl (Lua_error ''number expected''))"

lemma luaL_checkinteger_int [simp]: "luaL_checkinteger (L_int i) = Inr i"
  by (simp add: luaL_checkinteger_def)

definition lappend :: "lval list \<Rightarrow> lval \<Rightarrow> lval \<Rightarrow> nat \<times> lval list res" where
  "lappend tbl arg2 arg3 =
     (if arg2 = L_nil then (0, Inr (if arg3 = L_nil then tbl else tbl @ [arg3]))
      else case lua_touserdata arg2 of
             None \<Rightarrow> (0, Inl (Lua_error ''Need lightuserdata''))
           | Some m \<Rightarrow>
              (case luaL_checkinteger arg3 of
                 Inl e \<Rightarrow> (0, Inl e)
               | Inr n \<Rightarrow>
                  (case read_int m 0 (sint (word_of_int n :: u32)) of
                     Inl e \<Rightarrow> (0, Inl e)
                   | Inr data \<Rightarrow> (1, Inr (tbl @ [L_str data])))))"

text \<open>
  \<open>skynet_malloc\<close> (\<open>src/3rd/skynet/skynet-src/malloc_hook.c\<close>) asks jemalloc for \<open>PREFIX_SIZE\<close> bytes more than
  its argument, in \<open>size_t\<close> arithmetic, and keeps its cookie in the last four bytes of the object, whose
  usable size is that of its size class (\<open>s2u_compute\<close> of jemalloc, for 64-bit pointers: classes from 8
  bytes on, a quantum of 16). A request of 2^63 bytes or more cannot be served and aborts the process. The
  result is the number of bytes before the cookie.
\<close>

definition PREFIX_SIZE :: u64 where
  "PREFIX_SIZE = 4"

fun lg_floor :: "nat \<Rightarrow> nat" where
  "lg_floor n = (if n \<le> 1 then 0 else Suc (lg_floor (n div 2)))"

declare lg_floor.simps [simp del]

definition s2u_compute :: "nat \<Rightarrow> nat" where
  "s2u_compute sz =
     (if sz \<le> 8 then 8
      else
        (let x = lg_floor (2 * sz - 1);
             lg_delta = (if x < 7 then 4 else x - 3);
             delta = 2 ^ lg_delta
         in (sz + (delta - 1)) div delta * delta))"

definition skynet_malloc :: "u64 \<Rightarrow> nat res" where
  "skynet_malloc sz =
     (let total = sz + PREFIX_SIZE in
      if 2 ^ 63 \<le> unat total then Inl Out_of_memory else Inr (s2u_compute (unat total) - 4))"

lemma round_up_ge: "0 < d \<Longrightarrow> n \<le> (n + (d - 1)) div d * (d :: nat)"
  using div_mult_mod_eq [of "n + (d - 1)" d] mod_less_divisor [of d "n + (d - 1)"] by linarith

lemma s2u_compute_ge: "n \<le> s2u_compute n"
proof (cases "n \<le> 8")
  case False
  show ?thesis unfolding s2u_compute_def Let_def if_not_P [OF False] by (rule round_up_ge) simp
qed (simp add: s2u_compute_def)

fun lconcat_loop :: "lval list \<Rightarrow> bytes \<Rightarrow> u32 \<Rightarrow> u32 \<Rightarrow> (bytes \<times> u32) option res" where
  "lconcat_loop (L_str str # rest) buff sz offset =
     (if (scast sz :: u64) < of_nat (length str) + scast offset then Inr None
      else if sint offset < 0 then Inl Out_of_bounds
      else bind_r (mem_write buff (unat offset) str) (\<lambda>buff.
           lconcat_loop rest buff sz (offset + of_nat (length str))))"
| "lconcat_loop _ buff sz offset = Inr (Some (buff, offset))"

definition lconcat :: "lval \<Rightarrow> lval list \<Rightarrow> lval list res" where
  "lconcat first rest =
     (if \<not> is_number first then Inr []
      else
        (let sz = (word_of_int (lua_tointeger first) :: u32) in
         bind_r (skynet_malloc (scast sz)) (\<lambda>cap.
         bind_r (lconcat_loop rest (replicate cap 0) sz 0) (\<lambda>r.
         case r of
           None \<Rightarrow> Inr []
         | Some (buff, offset) \<Rightarrow>
            (if offset \<noteq> sz then Inr [] else Inr [L_ptr (take (nat (sint sz)) buff), L_int (sint sz)])))))"

text \<open>A pointer is the bytes of the message it points to, whose size is the second result.\<close>

text \<open>The table argument as a Lua sequence: an empty table has nil at index 1.\<close>

fun lconcat_table :: "lval list \<Rightarrow> lval list res" where
  "lconcat_table [] = Inr []"
| "lconcat_table (first # rest) = lconcat first rest"

section \<open>Names\<close>

definition lisname :: "lval \<Rightarrow> bool" where
  "lisname arg =
     (case lua_tolstring arg of
        Some (c # _) \<Rightarrow> c = 0x40
      | _ \<Rightarrow> False)"

text \<open>
  \<open>char\<close> is signed: a byte from 0x80 on is negative, hence also at most a blank. \<open>hostname\<close> is what
  \<open>gethostname\<close> stored before the terminating NUL, \<open>None\<close> when it failed; \<open>fmt_pid\<close> is the decimal text
  of the process id.
\<close>

definition clean_char :: "byte \<Rightarrow> byte" where
  "clean_char c = (if sint c \<le> 0x20 then 0x5f else c)"

definition lnodename :: "bytes option \<Rightarrow> bytes \<Rightarrow> bytes" where
  "lnodename hostname fmt_pid =
     (case hostname of
        Some h \<Rightarrow> map clean_char h @ fmt_pid
      | None \<Rightarrow> [0x6e, 0x6f, 0x6e, 0x61, 0x6d, 0x65] @ fmt_pid)"

section \<open>The wire format\<close>

text \<open>
  The format that the comments of the source describe, as a datatype of packets and its encoding.
  A packet travels as a \<open>frame\<close>.
\<close>

datatype packet =
    Request u32 u32 bytes
  | Multi_request bool u32 u32 u32
  | Named_request bytes u32 bytes
  | Named_multi bool bytes u32 u32
  | Part bool u32 bytes
  | Trace bytes

fun encode :: "packet \<Rightarrow> bytes" where
  "encode (Request addr session data) = [0] @ le32 addr @ le32 session @ data"
| "encode (Multi_request push addr session sz) =
     [if push then 0x41 else 1] @ le32 addr @ le32 session @ le32 sz"
| "encode (Named_request name session data) =
     [0x80, of_nat (length name)] @ name @ le32 session @ data"
| "encode (Named_multi push name session sz) =
     [if push then 0xc1 else 0x81, of_nat (length name)] @ name @ le32 session @ le32 sz"
| "encode (Part fin session data) = [if fin then 3 else 2] @ le32 session @ data"
| "encode (Trace tag) = [4] @ tag"

fun values_of :: "packet \<Rightarrow> lval list" where
  "values_of (Request addr session data) =
     [L_int (uint addr), L_int (uint session), L_ptr data, L_int (int (length data))] @
     (if session = 0 then [L_nil, L_bool True] else [])"
| "values_of (Multi_request push addr session sz) =
     [L_int (uint addr), L_int (uint session), L_nil, L_int (uint sz), L_bool True, L_bool push]"
| "values_of (Named_request name session data) =
     [L_str name, L_int (uint session), L_ptr data, L_int (int (length data))] @
     (if session = 0 then [L_nil, L_bool True] else [])"
| "values_of (Named_multi push name session sz) =
     [L_str name, L_int (uint session), L_nil, L_int (uint sz), L_bool True, L_bool push]"
| "values_of (Part fin session data) =
     [L_bool False, L_int (uint session), L_ptr data, L_int (int (length data)), L_bool (\<not> fin)]"
| "values_of (Trace tag) = [L_str tag]"

section \<open>Primitives\<close>

lemma fill_uint32_eq [wire_simps]: "fill_uint32 buf off n = mem_write buf off (le32 n)"
  by (simp add: fill_uint32_def le32_def byte_at_def)

lemma fill_header_eq:
  assumes "unat sz = n" "n < 0x10000"
  shows "fill_header buf sz = mem_write buf 0 (be16 (of_nat n))"
proof -
  have "sint sz = int n"
    using assms sint_small [of sz] by simp
  moreover have "ucast (drop_bit 8 sz AND 0xff) = byte_at (ucast sz :: u16) 1"
    and "ucast (sz AND 0xff) = byte_at (ucast sz :: u16) 0"
    by (rule bit_word_eqI; auto simp: bit_simps)+
  ultimately show ?thesis
    using assms by (auto simp: fill_header_def be16_def)
qed

lemma unpack_uint32_eq [wire_simps]:
  "unpack_uint32 buf off = bind_r (mem_read buf off 4) (\<lambda>b. Inr (of_le b))"
proof (cases "mem_read buf off 4")
  case (Inr b)
  then have "length b = 4" by (rule mem_read_length)
  then obtain b0 b1 b2 b3 where "b = [b0, b1, b2, b3]"
    by (auto simp: length_Suc_conv numeral_eq_Suc)
  with Inr show ?thesis by (simp add: unpack_uint32_def)
qed (simp add: unpack_uint32_def)

lemma unat_MULTI_PART: "sz < MULTI_PART \<longleftrightarrow> unat sz < 0x8000"
  by (simp add: MULTI_PART_def word_less_nat_alt)

section \<open>Packing produces the wire format\<close>

text \<open>
  Under the precondition that the pointer argument points to at least \<open>sz\<close> bytes, every packing
  routine succeeds: no assertion fails, no access leaves its buffer, and the result is the frame
  of the packet, whatever the stack buffer held before.
\<close>

lemma take_read:
  assumes "n \<le> length msg"
  obtains data where "mem_read msg 0 n = Inr data" "length data = n" "take n msg = data"
  using assms that [of "take n msg"] by (simp add: mem_read_def min_absorb2)

lemmas pack_simps = wire_simps buffer_simps TEMP_LENGTH_def frame_def

lemma packreq_number_small:
  assumes "length buf = TEMP_LENGTH" "unat sz < 0x8000" "unat sz \<le> length msg"
  shows "packreq_number buf arg1 session msg sz push =
    Inr (frame (encode (Request (word_of_int (lua_tointeger arg1)) (if push then 0 else session)
                         (take (unat sz) msg))), 0)"
proof -
  have sz: "unat (sz + 9) = unat sz + 9" "unat (sz + 11) = unat sz + 11"
    using assms(2) by (simp_all add: unat_add_small)
  obtain data where data: "mem_read msg 0 (unat sz) = Inr data" "length data = unat sz"
    "take (unat sz) msg = data"
    using take_read [OF assms(3)] by blast
  have lt: "sz < MULTI_PART" using assms by (simp add: unat_MULTI_PART)
  note hd = fill_header_eq [OF sz(1)]
  show ?thesis
    using assms(1,2) sz data lt
    by (simp add: packreq_number_def hd pack_simps) (simp add: ac_simps)
qed

lemma packreq_number_large:
  assumes "length buf = TEMP_LENGTH" "0x8000 \<le> unat sz"
  shows "packreq_number buf arg1 session msg sz push =
    Inr (frame (encode (Multi_request push (word_of_int (lua_tointeger arg1)) session sz)),
         unat ((sz - 1) div MULTI_PART + 1))"
proof -
  have lt: "\<not> sz < MULTI_PART" using assms by (simp add: unat_MULTI_PART)
  have hd: "fill_header b 13 = mem_write b 0 (be16 13)" for b
    using fill_header_eq [of 13 13] by simp
  show ?thesis
    using assms(1) lt by (simp add: packreq_number_def hd pack_simps)
qed

lemma packreq_string_small:
  assumes "length buf = TEMP_LENGTH" "unat sz < 0x8000" "unat sz \<le> length msg"
    and "name \<noteq> []" "length name \<le> 255"
  shows "packreq_string buf (L_str name) session msg sz push =
    (0, Inr (frame (encode (Named_request name (if push then 0 else session)
                             (take (unat sz) msg))), 0))"
proof -
  have sz: "unat (sz + 6 + of_nat (length name)) = unat sz + 6 + length name"
    using assms by (simp add: unat_add_small unat_of_nat_small)
  obtain data where data: "mem_read msg 0 (unat sz) = Inr data" "length data = unat sz"
    "take (unat sz) msg = data"
    using take_read [OF assms(3)] by blast
  have lt: "sz < MULTI_PART" using assms by (simp add: unat_MULTI_PART)
  note hd = fill_header_eq [OF sz]
  show ?thesis
    using assms(1,2,4,5) sz data lt
    by (simp add: packreq_string_def hd pack_simps Let_def) (simp add: ac_simps)
qed

lemma packreq_string_large:
  assumes "length buf = TEMP_LENGTH" "0x8000 \<le> unat sz"
    and "name \<noteq> []" "length name \<le> 255"
  shows "packreq_string buf (L_str name) session msg sz push =
    (0, Inr (frame (encode (Named_multi push name session sz)),
             unat ((sz - 1) div MULTI_PART + 1)))"
proof -
  have lt: "\<not> sz < MULTI_PART" using assms by (simp add: unat_MULTI_PART)
  have sz: "unat (10 + of_nat (length name) :: u32) = 10 + length name"
    using assms by (simp add: unat_add_small unat_of_nat_small)
  note hd = fill_header_eq [OF sz]
  show ?thesis
    using assms(1,3,4) lt
    by (simp add: packreq_string_def hd pack_simps Let_def)
qed

lemma lpacktrace_frame:
  assumes "length buf = TEMP_LENGTH" "length tag \<le> 0x8000"
  shows "lpacktrace buf tag = Inr (frame (encode (Trace tag)))"
proof -
  have sz: "unat (of_nat (length tag + 1) :: u32) = length tag + 1"
    using assms by (simp add: unat_of_nat_small del: of_nat_add of_nat_Suc)
  have hd: "fill_header b (of_nat (length tag + 1)) = mem_write b 0 (be16 (of_nat (length tag + 1)))"
    for b using fill_header_eq [OF sz] assms(2) by simp
  have wr: "mem_write buf 2 [4] = Inr (take 2 buf @ [4] @ drop 3 buf)"
    using assms(1) by (simp add: mem_write_def TEMP_LENGTH_def)
  show ?thesis
    unfolding lpacktrace_def Let_def hd wr
    using assms by (simp add: pack_simps)
qed

text \<open>The parts of a large message.\<close>

function parts_of :: "u32 \<Rightarrow> bytes \<Rightarrow> packet list" where
  "parts_of session data =
     (if length data \<le> 0x8000 then [Part True session data]
      else Part False session (take 0x8000 data) # parts_of session (drop 0x8000 data))"
  by pat_completeness auto
termination
  by (relation "measure (\<lambda>(session, data). length data)") auto

declare parts_of.simps [simp del]

lemma packreq_part_step:
  assumes "length buf = TEMP_LENGTH" "0 < unat sz" "ptr + unat sz \<le> length msg"
  obtains buf' where "length buf' = TEMP_LENGTH"
    "packreq_parts (Suc n) buf session msg ptr sz =
      (let s = (if MULTI_PART < sz then MULTI_PART else sz) in
       bind_r (packreq_parts n buf' session msg (ptr + unat s) (sz - s)) (\<lambda>rest.
         Inr (frame (encode (Part (\<not> MULTI_PART < sz) session (take (unat s) (drop ptr msg)))) # rest)))"
proof -
  define s where "s = (if MULTI_PART < sz then MULTI_PART else sz)"
  have s: "unat s \<le> unat sz" "unat s \<le> 0x8000"
    by (auto simp: s_def MULTI_PART_def word_less_nat_alt)
  have sz: "unat (s + 5) = unat s + 5" "unat (s + 7) = unat s + 7"
    using s(2) by (simp_all add: unat_add_small)
  define data where "data = take (unat s) (drop ptr msg)"
  have data: "mem_read msg ptr (unat s) = Inr data" "length data = unat s"
    using assms(3) s by (auto simp: data_def mem_read_def)
  note hd = fill_header_eq [OF sz(1)]
  have *: "mem_write buf 2 [x] = Inr (take 2 buf @ [x] @ drop 3 buf)" for x
    using assms(1) by (simp add: mem_write_def TEMP_LENGTH_def)
  let ?buf' = "be16 (of_nat (unat s + 5)) @ (if MULTI_PART < sz then 2 else 3) # le32 session @ data @
                 drop (unat s + 7) buf"
  show ?thesis
  proof (rule that [of ?buf'])
    show "length ?buf' = TEMP_LENGTH"
      using assms(1) s data by (simp add: TEMP_LENGTH_def)
    show "packreq_parts (Suc n) buf session msg ptr sz =
      (let s = (if MULTI_PART < sz then MULTI_PART else sz) in
       bind_r (packreq_parts n ?buf' session msg (ptr + unat s) (sz - s)) (\<lambda>rest.
         Inr (frame (encode (Part (\<not> MULTI_PART < sz) session (take (unat s) (drop ptr msg)))) # rest)))"
      unfolding packreq_parts.simps Let_def s_def [symmetric] data_def [symmetric]
      using assms(1) s sz data
      by (simp add: * hd pack_simps) (simp add: ac_simps)
  qed
qed

lemma unat_part_count:
  assumes "0 < unat sz"
  shows "unat ((sz - 1) div MULTI_PART + 1) = (unat sz - 1) div 0x8000 + 1"
proof -
  have "unat (sz - 1) = unat sz - 1"
    using assms by (metis less_numeral_extra(3) unat_0 unat_minus_one)
  then have "unat ((sz - 1) div MULTI_PART) = (unat sz - 1) div 0x8000"
    by (simp add: unat_div_distrib MULTI_PART_def)
  moreover have "(unat sz - 1) div 0x8000 + 1 < 2 ^ 32"
    using unat_lt [of sz] by simp
  ultimately show ?thesis
    by (simp add: unat_add_small)
qed

lemma packreq_parts_frames:
  assumes "length buf = TEMP_LENGTH" "0 < unat sz" "ptr + unat sz \<le> length msg"
    and "n = (unat sz - 1) div 0x8000 + 1"
  shows "packreq_parts n buf session msg ptr sz =
    Inr (map (\<lambda>p. frame (encode p)) (parts_of session (take (unat sz) (drop ptr msg))))"
  using assms
proof (induction n arbitrary: buf ptr sz)
  case 0
  then show ?case by simp
next
  case (Suc n)
  obtain buf' where buf': "length buf' = TEMP_LENGTH" and
    step: "packreq_parts (Suc n) buf session msg ptr sz =
      (let s = (if MULTI_PART < sz then MULTI_PART else sz) in
       bind_r (packreq_parts n buf' session msg (ptr + unat s) (sz - s)) (\<lambda>rest.
         Inr (frame (encode (Part (\<not> MULTI_PART < sz) session (take (unat s) (drop ptr msg)))) # rest)))"
    using packreq_part_step [OF Suc.prems(1-3)] by blast
  show ?case
  proof (cases "MULTI_PART < sz")
    case False
    then have le: "unat sz \<le> 0x8000" by (simp add: MULTI_PART_def word_less_nat_alt)
    with Suc.prems have "n = 0" by simp
    with False le step show ?thesis by (simp add: parts_of.simps [of session "take _ _"] min_le_iff_disj)
  next
    case True
    then have gt: "0x8000 < unat sz" by (simp add: MULTI_PART_def word_less_nat_alt)
    have d: "unat (sz - MULTI_PART) = unat sz - 0x8000"
      using True by (simp add: unat_sub MULTI_PART_def less_imp_le)
    have n: "n = (unat sz - 0x8000 - 1) div 0x8000 + 1"
      using Suc.prems(4) gt by (simp add: le_div_geq)
    have "packreq_parts n buf' session msg (ptr + 0x8000) (sz - MULTI_PART) =
      Inr (map (\<lambda>p. frame (encode p)) (parts_of session (take (unat sz - 0x8000) (drop (ptr + 0x8000) msg))))"
      using Suc.IH [OF buf', of "sz - MULTI_PART" "ptr + 0x8000"] gt Suc.prems(3) n by (simp add: d)
    moreover have "drop 0x8000 (take (unat sz) (drop ptr msg)) = take (unat sz - 0x8000) (drop (ptr + 0x8000) msg)"
      by (simp add: drop_take add.commute)
    moreover have "take 0x8000 (take (unat sz) (drop ptr msg)) = take 0x8000 (drop ptr msg)"
      using gt by (simp add: min_absorb1)
    moreover have "unat MULTI_PART = 0x8000" by (simp add: MULTI_PART_def)
    ultimately show ?thesis
      using True step gt Suc.prems(3)
      by (simp add: parts_of.simps [of session "take (unat sz) (drop ptr msg)"])
  qed
qed
lemma packreq_multi_frames:
  assumes "length buf = TEMP_LENGTH" "0 < unat sz" "unat sz \<le> length msg"
  shows "packreq_multi buf session msg sz =
    Inr (map (\<lambda>p. frame (encode p)) (parts_of session (take (unat sz) msg)))"
  using packreq_parts_frames [OF assms(1,2), of 0 msg] assms(3)
  by (simp add: packreq_multi_def Let_def unat_part_count [OF assms(2)])

text \<open>
  The next session is positive as an \<open>int\<close> and never 0, the session of a push.
\<close>

definition next_session :: "u32 \<Rightarrow> u32" where
  "next_session session = (if 0x7fffffff < session + 1 then 1 else session + 1)"

text \<open>The packets that a request with the address \<open>arg1\<close> consists of.\<close>

fun request_packets :: "lval \<Rightarrow> u32 \<Rightarrow> bytes \<Rightarrow> bool \<Rightarrow> packet list" where
  "request_packets (L_str name) session data push =
     (if length data < 0x8000
      then [Named_request name (if push then 0 else session) data]
      else Named_multi push name session (of_nat (length data)) # parts_of session data)"
| "request_packets arg1 session data push =
     (if length data < 0x8000
      then [Request (word_of_int (lua_tointeger arg1)) (if push then 0 else session) data]
      else Multi_request push (word_of_int (lua_tointeger arg1)) session (of_nat (length data)) #
           parts_of session data)"

text \<open>
  The packets of the format comment in the source, which puts a message of exactly 0x8000 bytes into one
  frame; the code, which tests \<open>sz < MULTI_PART\<close>, sends it in parts.
\<close>

definition documented_packets :: "lval \<Rightarrow> u32 \<Rightarrow> bytes \<Rightarrow> bool \<Rightarrow> packet list" where
  "documented_packets arg1 session data push =
     (case arg1 of
        L_str name \<Rightarrow>
          (if length data \<le> 0x8000
           then [Named_request name (if push then 0 else session) data]
           else Named_multi push name session (of_nat (length data)) # parts_of session data)
      | _ \<Rightarrow>
          (if length data \<le> 0x8000
           then [Request (word_of_int (lua_tointeger arg1)) (if push then 0 else session) data]
           else Multi_request push (word_of_int (lua_tointeger arg1)) session (of_nat (length data)) # parts_of session data))"

lemma request_packets_documented:
  "length data \<noteq> 0x8000 \<Longrightarrow> request_packets arg1 session data push = documented_packets arg1 session data push"
  by (cases arg1) (auto simp: documented_packets_def)

definition addr_ok :: "lval \<Rightarrow> bool" where
  "addr_ok arg1 = (is_number arg1 \<or> (\<exists>name. arg1 = L_str name \<and> name \<noteq> [] \<and> length name \<le> 255))"

definition result_frames :: "bytes \<times> u32 \<times> bytes list option \<Rightarrow> bytes list" where
  "result_frames r = (case r of (pkt, _, parts) \<Rightarrow> pkt # (case parts of None \<Rightarrow> [] | Some ps \<Rightarrow> ps))"

lemma request_packets_number:
  "is_number arg1 \<Longrightarrow> request_packets arg1 session data push =
     (if length data < 0x8000
      then [Request (word_of_int (lua_tointeger arg1)) (if push then 0 else session) data]
      else Multi_request push (word_of_int (lua_tointeger arg1)) session (of_nat (length data)) #
           parts_of session data)"
  by (cases arg1) simp_all

text \<open>
  With a valid address, a positive session and \<open>sz\<close> readable bytes, packing succeeds, frees the
  message once and produces the frames of the request's packets.
\<close>

lemma packrequest_frames:
  fixes sz_arg :: int
  defines "sz \<equiv> (word_of_int sz_arg :: u32)"
  assumes buf: "length buf = TEMP_LENGTH" "length mbuf = TEMP_LENGTH"
    and addr: "addr_ok arg1"
    and session: "0 < sint (word_of_int session_arg :: u32)"
    and msg: "unat sz \<le> length msg"
  shows "\<exists>r. packrequest buf mbuf arg1 session_arg (Some msg) sz_arg push = (1, Inr r) \<and>
    result_frames r = map (\<lambda>p. frame (encode p))
      (request_packets arg1 (word_of_int session_arg) (take (unat sz) msg) push) \<and>
    fst (snd r) = next_session (word_of_int session_arg)"
proof -
  let ?s = "word_of_int session_arg :: u32"
  have s: "\<not> sint ?s \<le> 0" using session by simp
  have len: "length (take (unat sz) msg) = unat sz" using msg by simp
  have cnt: "0x8000 \<le> unat sz \<Longrightarrow> unat ((sz - 1) div MULTI_PART + 1) \<noteq> 0"
    using unat_part_count [of sz] by simp
  have multi: "0x8000 \<le> unat sz \<Longrightarrow> packreq_multi mbuf ?s msg sz =
      Inr (map (\<lambda>p. frame (encode p)) (parts_of ?s (take (unat sz) msg)))"
    using packreq_multi_frames [OF buf(2) _ msg] by simp
  show ?thesis
  proof (cases "is_number arg1")
    case num: True
    show ?thesis
    proof (cases "unat sz < 0x8000")
      case True
      then show ?thesis
        using packreq_number_small [OF buf(1) True msg, of arg1 ?s push] s len num
        by (simp add: packrequest_def sz_def [symmetric] Let_def request_packets_number
            result_frames_def next_session_def)
    next
      case False
      then have ge: "0x8000 \<le> unat sz" by simp
      show ?thesis
        using packreq_number_large [OF buf(1) ge, of arg1 ?s msg push] multi [OF ge] cnt [OF ge]
          s len num ge
        by (simp add: packrequest_def sz_def [symmetric] Let_def request_packets_number
            result_frames_def next_session_def)
    qed
  next
    case num: False
    then obtain name where name: "arg1 = L_str name" "name \<noteq> []" "length name \<le> 255"
      using addr by (auto simp: addr_ok_def)
    show ?thesis
    proof (cases "unat sz < 0x8000")
      case True
      then show ?thesis
        using packreq_string_small [OF buf(1) True msg name(2,3), of ?s push] s len name
        by (simp add: packrequest_def sz_def [symmetric] Let_def
            result_frames_def next_session_def)
    next
      case False
      then have ge: "0x8000 \<le> unat sz" by simp
      show ?thesis
        using packreq_string_large [OF buf(1) ge name(2,3), of ?s msg push] multi [OF ge] cnt [OF ge]
          s len name ge
        by (simp add: packrequest_def sz_def [symmetric] Let_def
            result_frames_def next_session_def)
    qed
  qed
qed

section \<open>Unpacking reads the wire format back\<close>

fun packet_ok :: "packet \<Rightarrow> bool" where
  "packet_ok (Request a s data) = (length data < 2 ^ 30)"
| "packet_ok (Multi_request p a s z) = True"
| "packet_ok (Named_request name s data) = (length name \<le> 255 \<and> length data < 2 ^ 30)"
| "packet_ok (Named_multi p name s z) = (length name \<le> 255)"
| "packet_ok (Part fin s data) = (length data < 2 ^ 30)"
| "packet_ok (Trace tag) = (length tag < 2 ^ 30)"

lemma sint_of_nat_small:
  "n < 2 ^ 31 \<Longrightarrow> sint (of_nat n :: u32) = int n"
  by (simp add: sint_small unat_of_nat_small)

lemma unat_name_len: "length name \<le> 255 \<Longrightarrow> unat (of_nat (length name) :: byte) = length name"
  by (rule unat_of_nat_small) simp

lemma uint_name_len:
  "length name \<le> 255 \<Longrightarrow> uint (of_nat (length name) :: byte) = int (length name)"
  by (simp add: uint_nat unat_name_len del: of_nat_unat)

lemmas unpack_simps = lunpackrequest_def wire_simps buffer_simps return_buffer_def read_int_def
  unpackreq_number_def unpackmreq_number_def unpackmreq_part_def unpacktrace_def
  unpackreq_string_def unpackmreq_string_def

lemma lunpackrequest_encode:
  assumes "packet_ok p"
  shows "lunpackrequest (Str_arg (encode p)) = Inr (values_of p)"
proof (cases p)
  case (Request addr session data)
  have "sint (of_nat (length (encode p)) :: u32) = int (length data) + 9"
    using assms Request sint_of_nat_small [of "length data + 9"] by (simp add: ac_simps)
  then show ?thesis using Request by (simp add: unpack_simps)
next
  case (Multi_request push addr session sz)
  have "sint (of_nat (length (encode p)) :: u32) = 13"
    using Multi_request sint_of_nat_small [of 13] by simp
  then show ?thesis using Multi_request by (simp add: unpack_simps)
next
  case (Named_request name session data)
  have "sint (of_nat (length (encode p)) :: u32) = int (length data) + int (length name) + 6"
    using assms Named_request sint_of_nat_small [of "length data + length name + 6"]
    by (simp add: ac_simps)
  then show ?thesis using Named_request assms
    by (simp add: unpack_simps unat_name_len uint_name_len Let_def)
next
  case (Named_multi push name session sz)
  have "sint (of_nat (length (encode p)) :: u32) = int (length name) + 10"
    using assms Named_multi sint_of_nat_small [of "length name + 10"]
    by (simp add: ac_simps)
  then show ?thesis using Named_multi assms
    by (simp add: unpack_simps unat_name_len uint_name_len Let_def)
next
  case (Part fin session data)
  have "sint (of_nat (length (encode p)) :: u32) = int (length data) + 5"
    using assms Part sint_of_nat_small [of "length data + 5"] by (simp add: ac_simps)
  then show ?thesis using Part by (simp add: unpack_simps Let_def)
next
  case (Trace tag)
  have "sint (of_nat (length (encode p)) :: u32) = int (length tag) + 1"
    using assms Trace sint_of_nat_small [of "length tag + 1"] by (simp add: ac_simps)
  then show ?thesis using Trace by (simp add: unpack_simps)
qed

text \<open>
  Whatever bytes arrive, unpacking stays inside the message: it returns 1, 4, 5 or 6 values or
  raises a Lua error.
\<close>

lemma mem_read_ok: "off + n \<le> length m \<Longrightarrow> \<exists>bs. mem_read m off n = Inr bs \<and> length bs = n"
  by (simp add: mem_read_def)

lemma unpack_uint32_ok: "off + 4 \<le> length m \<Longrightarrow> \<exists>w. unpack_uint32 m off = Inr w"
  by (simp add: unpack_uint32_eq mem_read_def)

lemma read_int_ok:
  assumes "0 \<le> sz" "int off + sz \<le> int (length m)"
  shows "\<exists>data. read_int m off sz = Inr data"
proof -
  have "off + nat sz \<le> length m" using assms by linarith
  then show ?thesis using assms(1) by (simp add: read_int_def mem_read_def)
qed

lemma return_buffer_ok:
  "0 \<le> sz \<Longrightarrow> int off + sz \<le> int (length m) \<Longrightarrow>
     \<exists>data. return_buffer m off sz = Inr [L_ptr data, L_int sz]"
  using read_int_ok [of sz off m] by (auto simp: return_buffer_def)

definition safe_result :: "lval list res \<Rightarrow> bool" where
  "safe_result r = (case r of Inl (Lua_error s) \<Rightarrow> True | Inl e \<Rightarrow> False
                     | Inr vs \<Rightarrow> length vs \<in> {1, 4, 5, 6})"

lemma safe_result_simps [simp]:
  "safe_result (Inl (Lua_error s))" "safe_result (Inr vs) = (length vs \<in> {1, 4, 5, 6})"
  by (simp_all add: safe_result_def)

lemma unpackreq_number_safe:
  assumes "sz = int (length m)"
  shows "safe_result (unpackreq_number m sz)"
proof (cases "sz < 9")
  case False
  then obtain a s d where "unpack_uint32 m 1 = Inr a" "unpack_uint32 m 5 = Inr s"
    "return_buffer m 9 (sz - 9) = Inr [L_ptr d, L_int (sz - 9)]"
    using assms unpack_uint32_ok [of 1 m] unpack_uint32_ok [of 5 m] return_buffer_ok [of "sz - 9" 9 m]
    by auto
  with False show ?thesis by (simp add: unpackreq_number_def)
qed (simp add: unpackreq_number_def)

lemma unpackmreq_number_safe:
  assumes "sz = int (length m)"
  shows "safe_result (unpackmreq_number m sz push)"
proof (cases "sz = 13")
  case True
  then obtain a s z where "unpack_uint32 m 1 = Inr a" "unpack_uint32 m 5 = Inr s"
    "unpack_uint32 m 9 = Inr z"
    using assms unpack_uint32_ok [of 1 m] unpack_uint32_ok [of 5 m] unpack_uint32_ok [of 9 m]
    by auto
  with True show ?thesis by (simp add: unpackmreq_number_def)
qed (simp add: unpackmreq_number_def)

lemma unpackmreq_part_safe:
  assumes "sz = int (length m)"
  shows "safe_result (unpackmreq_part m sz)"
proof (cases "sz < 5")
  case False
  then obtain t s d where "mem_read m 0 1 = Inr t" "unpack_uint32 m 1 = Inr s"
    "return_buffer m 5 (sz - 5) = Inr [L_ptr d, L_int (sz - 5)]"
    using assms mem_read_ok [of 0 1 m] unpack_uint32_ok [of 1 m] return_buffer_ok [of "sz - 5" 5 m]
    by auto
  with False show ?thesis by (simp add: unpackmreq_part_def Let_def)
qed (simp add: unpackmreq_part_def)

lemma unpacktrace_safe:
  assumes "sz = int (length m)" "sz \<noteq> 0"
  shows "safe_result (unpacktrace m sz)"
  using assms read_int_ok [of "sz - 1" 1 m] by (auto simp: unpacktrace_def)

lemma unpackreq_string_safe:
  assumes "sz = int (length m)"
  shows "safe_result (unpackreq_string m sz)"
proof (cases "sz < 2")
  case False
  then obtain nb where nb: "mem_read m 1 1 = Inr nb"
    using assms mem_read_ok [of 1 1 m] by auto
  let ?n = "unat (nb ! 0)"
  show ?thesis
  proof (cases "sz < int ?n + 6")
    case True
    with False nb show ?thesis by (simp add: unpackreq_string_def Let_def)
  next
    case ge: False
    then obtain a s d where "mem_read m 2 ?n = Inr a" "unpack_uint32 m (?n + 2) = Inr s"
      "return_buffer m (2 + ?n + 4) (sz - int ?n - 6) = Inr [L_ptr d, L_int (sz - int ?n - 6)]"
      using assms mem_read_ok [of 2 ?n m] unpack_uint32_ok [of "?n + 2" m]
        return_buffer_ok [of "sz - int ?n - 6" "2 + ?n + 4" m] by (auto simp del: of_nat_unat)
    with False ge nb show ?thesis
      by (simp add: unpackreq_string_def Let_def del: of_nat_unat)
  qed
qed (simp add: unpackreq_string_def)

lemma unpackmreq_string_safe:
  assumes "sz = int (length m)"
  shows "safe_result (unpackmreq_string m sz push)"
proof (cases "sz < 2")
  case False
  then obtain nb where nb: "mem_read m 1 1 = Inr nb"
    using assms mem_read_ok [of 1 1 m] by auto
  let ?n = "unat (nb ! 0)"
  show ?thesis
  proof (cases "sz < int ?n + 10")
    case True
    with False nb show ?thesis by (simp add: unpackmreq_string_def Let_def)
  next
    case ge: False
    then obtain a s z where "mem_read m 2 ?n = Inr a" "unpack_uint32 m (?n + 2) = Inr s"
      "unpack_uint32 m (?n + 6) = Inr z"
      using assms mem_read_ok [of 2 ?n m] unpack_uint32_ok [of "?n + 2" m]
        unpack_uint32_ok [of "?n + 6" m] by (auto simp del: of_nat_unat)
    with False ge nb show ?thesis
      by (simp add: unpackmreq_string_def Let_def del: of_nat_unat)
  qed
qed (simp add: unpackmreq_string_def)

lemma lunpackrequest_safe:
  assumes "length m < 2 ^ 31"
  shows "safe_result (lunpackrequest (Str_arg m))"
proof (cases m)
  case Nil
  then show ?thesis by (simp add: lunpackrequest_def)
next
  case (Cons t rest)
  then have sz: "sint (of_nat (length m) :: u32) = int (length m)" "int (length m) \<noteq> 0"
    using sint_of_nat_small [OF assms] by simp_all
  have "mem_read m 0 1 = Inr [t]"
    using Cons by (simp add: mem_read_def)
  then show ?thesis
    using sz unpackreq_number_safe [OF refl] unpackmreq_number_safe [OF refl]
      unpackmreq_part_safe [OF refl] unpacktrace_safe [OF refl] unpackreq_string_safe [OF refl]
      unpackmreq_string_safe [OF refl]
    by (simp add: lunpackrequest_def Let_def)
qed

section \<open>Reassembly restores the message\<close>

lemma unat_scast_small:
  assumes "unat (w :: u32) < 2 ^ 31"
  shows "unat (scast w :: u64) = unat w"
proof -
  have "scast w = (of_nat (unat w) :: u64)"
    using sint_small [of w] assms by (simp add: scast_eq del: of_nat_unat)
  then show ?thesis
    using unat_of_nat_small [of "unat w", where 'a = 64] assms by simp
qed
lemma concat_test:
  fixes sz offset :: u32
  assumes "unat sz < 2 ^ 31" "unat offset \<le> unat sz" "length str < 2 ^ 62"
  shows "(scast sz :: u64) < of_nat (length str) + scast offset \<longleftrightarrow> unat sz < length str + unat offset"
proof -
  have "unat offset < 2 ^ 31" using assms by simp
  then have "unat (of_nat (length str) + scast offset :: u64) = length str + unat offset"
    using assms(3) by (subst unat_add_small) (simp_all add: unat_of_nat_small unat_scast_small)
  then show ?thesis
    using assms(1) by (simp add: word_less_nat_alt unat_scast_small)
qed

lemma lconcat_loop_strings:
  assumes "unat sz < 2 ^ 31" "length pre = unat offset" "unat offset \<le> unat sz"
    and "unat sz \<le> length pre + length post" "\<forall>p \<in> set ps. length p < 2 ^ 62"
  shows "lconcat_loop (map L_str ps) (pre @ post) sz offset =
    (if unat offset + length (concat ps) \<le> unat sz
     then Inr (Some (pre @ concat ps @ drop (length (concat ps)) post,
                     offset + of_nat (length (concat ps))))
     else Inr None)"
  using assms
proof (induction ps arbitrary: pre post offset)
  case Nil
  then show ?case by simp
next
  case (Cons p ps)
  have test: "(scast sz :: u64) < of_nat (length p) + scast offset \<longleftrightarrow> unat sz < length p + unat offset"
    using concat_test [OF Cons.prems(1,3), of p] Cons.prems(5) by simp
  have off: "\<not> sint offset < 0"
    using Cons.prems(1,3) by (simp add: sint_small)
  show ?case
  proof (cases "unat sz < length p + unat offset")
    case True
    then show ?thesis using test by simp
  next
    case False
    let ?off = "offset + of_nat (length p) :: u32"
    have u: "unat ?off = unat offset + length p"
      using False Cons.prems(1) by (subst unat_add_small) (simp_all add: unat_of_nat_small)
    have fits: "length p \<le> length post" using False Cons.prems(2,4) by simp
    have wr: "mem_write (pre @ post) (unat offset) p = Inr ((pre @ p) @ drop (length p) post)"
      using Cons.prems(2) fits by (simp add: mem_write_def)
    have "lconcat_loop (map L_str ps) ((pre @ p) @ drop (length p) post) sz ?off =
      (if unat ?off + length (concat ps) \<le> unat sz
       then Inr (Some ((pre @ p) @ concat ps @ drop (length (concat ps)) (drop (length p) post),
                     ?off + of_nat (length (concat ps))))
       else Inr None)"
      using Cons.prems fits u False by (intro Cons.IH) auto
    then show ?thesis
      using False test off wr u by (simp add: ac_simps)
  qed
qed

lemma lconcat_strings:
  assumes "n < 2 ^ 31" "\<forall>p \<in> set ps. length p < 2 ^ 62"
  shows "lconcat (L_int (int n)) (map L_str ps) =
    (if length (concat ps) = n then Inr [L_ptr (concat ps), L_int (int n)] else Inr [])"
proof -
  let ?sz = "of_nat n :: u32"
  have sz: "unat ?sz = n" "sint ?sz = int n"
    using assms(1) by (simp_all add: unat_of_nat_small sint_of_nat_small)
  have "unat (scast ?sz + PREFIX_SIZE) = n + 4"
    using assms(1) sz by (subst unat_add_small) (simp_all add: unat_scast_small PREFIX_SIZE_def)
  then obtain c where cap: "skynet_malloc (scast ?sz) = Inr c" "n \<le> c"
    using assms(1) s2u_compute_ge [of "n + 4"] by (simp add: skynet_malloc_def)
  have loop: "lconcat_loop (map L_str ps) (replicate c 0) ?sz 0 =
    (if length (concat ps) \<le> n
     then Inr (Some (concat ps @ replicate (c - length (concat ps)) 0, of_nat (length (concat ps))))
     else Inr None)"
    using lconcat_loop_strings [of ?sz "[]" 0 "replicate c 0" ps] assms sz cap(2) by simp
  show ?thesis
  proof (cases "length (concat ps) \<le> n")
    case True
    then have "unat (of_nat (length (concat ps)) :: u32) = length (concat ps)"
      using assms(1) by (simp add: unat_of_nat_small)
    then have "of_nat (length (concat ps)) = ?sz \<longleftrightarrow> length (concat ps) = n"
      using sz(1) by metis
    with True show ?thesis
      using loop cap sz by (simp add: lconcat_def)
  next
    case False
    then show ?thesis using loop cap sz by (simp add: lconcat_def)
  qed
qed

section \<open>The response format\<close>

datatype rpacket =
    Resp_error u32 bytes
  | Resp_ok u32 bytes
  | Resp_begin u32 u32
  | Resp_part u32 bytes
  | Resp_end u32 bytes

fun encode_resp :: "rpacket \<Rightarrow> bytes" where
  "encode_resp (Resp_error session data) = le32 session @ [0] @ data"
| "encode_resp (Resp_ok session data) = le32 session @ [1] @ data"
| "encode_resp (Resp_begin session sz) = le32 session @ [2] @ le32 sz"
| "encode_resp (Resp_part session data) = le32 session @ [3] @ data"
| "encode_resp (Resp_end session data) = le32 session @ [4] @ data"

fun values_of_resp :: "rpacket \<Rightarrow> lval list" where
  "values_of_resp (Resp_error session data) = [L_int (uint session), L_bool False, L_str data]"
| "values_of_resp (Resp_ok session data) = [L_int (uint session), L_bool True, L_str data]"
| "values_of_resp (Resp_begin session sz) =
     [L_int (uint session), L_bool True, L_int (uint sz), L_bool True]"
| "values_of_resp (Resp_part session data) =
     [L_int (uint session), L_bool True, L_str data, L_bool True]"
| "values_of_resp (Resp_end session data) = [L_int (uint session), L_bool True, L_str data]"

lemma lunpackresponse_encode: "lunpackresponse (encode_resp r) = Inr (values_of_resp r)"
  by (cases r) (simp_all add: lunpackresponse_def wire_simps buffer_simps Let_def)

function resp_parts_of :: "u32 \<Rightarrow> bytes \<Rightarrow> rpacket list" where
  "resp_parts_of session data =
     (if length data \<le> 0x8000 then [Resp_end session data]
      else Resp_part session (take 0x8000 data) # resp_parts_of session (drop 0x8000 data))"
  by pat_completeness auto
termination
  by (relation "measure (\<lambda>(session, data). length data)") auto

declare resp_parts_of.simps [simp del]

lemma packresponse_part_step:
  assumes "length buf = TEMP_LENGTH" "0 < unat sz" "ptr + unat sz \<le> length msg"
  obtains buf' where "length buf' = TEMP_LENGTH"
    "packresponse_parts (Suc n) buf session msg ptr sz =
      (let s = (if 0x8000 < sz then 0x8000 else sz) in
       bind_r (packresponse_parts n buf' session msg (ptr + unat s) (sz - s)) (\<lambda>rest.
         Inr (frame (encode_resp ((if 0x8000 < sz then Resp_part else Resp_end) session
                (take (unat s) (drop ptr msg)))) # rest)))"
proof -
  define s where "s = (if 0x8000 < sz then 0x8000 else sz)"
  have s: "unat s \<le> unat sz" "unat s \<le> 0x8000"
    by (auto simp: s_def word_less_nat_alt)
  have u: "unat (ucast s :: u32) = unat s"
    using s(2) by (simp add: unat_ucast_small)
  then have sz: "unat (ucast s + 5 :: u32) = unat s + 5"
    using s(2) by (simp add: unat_add_small)
  define data where "data = take (unat s) (drop ptr msg)"
  have data: "mem_read msg ptr (unat s) = Inr data" "length data = unat s"
    using assms(3) s by (auto simp: data_def mem_read_def)
  note hd = fill_header_eq [OF sz]
  have *: "mem_write buf 6 [x] = Inr (take 6 buf @ [x] @ drop 7 buf)" for x
    using assms(1) by (simp add: mem_write_def TEMP_LENGTH_def)
  let ?buf' = "be16 (of_nat (unat s + 5)) @ le32 session @ (if 0x8000 < sz then 3 else 4) # data @
                 drop (unat s + 7) buf"
  show ?thesis
  proof (rule that [of ?buf'])
    show "length ?buf' = TEMP_LENGTH"
      using assms(1) s data by (simp add: TEMP_LENGTH_def)
    show "packresponse_parts (Suc n) buf session msg ptr sz =
      (let s = (if 0x8000 < sz then 0x8000 else sz) in
       bind_r (packresponse_parts n ?buf' session msg (ptr + unat s) (sz - s)) (\<lambda>rest.
         Inr (frame (encode_resp ((if 0x8000 < sz then Resp_part else Resp_end) session
                (take (unat s) (drop ptr msg)))) # rest)))"
      unfolding packresponse_parts.simps Let_def s_def [symmetric] data_def [symmetric]
      using assms(1) s sz data
      by (simp add: * hd pack_simps drop_Cons') (simp add: ac_simps)
  qed
qed

lemma unat_resp_count:
  assumes "0 < unat (sz :: u64)"
  shows "unat ((sz - 1) div 0x8000 + 1) = (unat sz - 1) div 0x8000 + 1"
proof -
  have "unat (sz - 1) = unat sz - 1"
    using assms by (metis less_numeral_extra(3) unat_0 unat_minus_one)
  then have "unat ((sz - 1) div 0x8000) = (unat sz - 1) div 0x8000"
    by (simp add: unat_div_distrib)
  moreover have "(unat sz - 1) div 0x8000 + 1 < 2 ^ 64"
    using unat_lt [of sz] by simp
  ultimately show ?thesis
    by (simp add: unat_add_small)
qed

lemma packresponse_parts_frames:
  assumes "length buf = TEMP_LENGTH" "0 < unat sz" "ptr + unat sz \<le> length msg"
    and "n = (unat sz - 1) div 0x8000 + 1"
  shows "packresponse_parts n buf session msg ptr sz =
    Inr (map (\<lambda>p. frame (encode_resp p)) (resp_parts_of session (take (unat sz) (drop ptr msg))))"
  using assms
proof (induction n arbitrary: buf ptr sz)
  case 0
  then show ?case by simp
next
  case (Suc n)
  obtain buf' where buf': "length buf' = TEMP_LENGTH" and
    step: "packresponse_parts (Suc n) buf session msg ptr sz =
      (let s = (if 0x8000 < sz then 0x8000 else sz) in
       bind_r (packresponse_parts n buf' session msg (ptr + unat s) (sz - s)) (\<lambda>rest.
         Inr (frame (encode_resp ((if 0x8000 < sz then Resp_part else Resp_end) session
                (take (unat s) (drop ptr msg)))) # rest)))"
    using packresponse_part_step [OF Suc.prems(1-3)] by blast
  show ?case
  proof (cases "0x8000 < sz")
    case False
    then have le: "unat sz \<le> 0x8000" by (simp add: word_less_nat_alt)
    with Suc.prems have "n = 0" by simp
    with False le step show ?thesis
      by (simp add: resp_parts_of.simps [of session "take _ _"] min_le_iff_disj)
  next
    case True
    then have gt: "0x8000 < unat sz" by (simp add: word_less_nat_alt)
    have d: "unat (sz - 0x8000) = unat sz - 0x8000"
      using True by (simp add: unat_sub less_imp_le)
    have n: "n = (unat sz - 0x8000 - 1) div 0x8000 + 1"
      using Suc.prems(4) gt by (simp add: le_div_geq)
    have "packresponse_parts n buf' session msg (ptr + 0x8000) (sz - 0x8000) =
      Inr (map (\<lambda>p. frame (encode_resp p))
        (resp_parts_of session (take (unat sz - 0x8000) (drop (ptr + 0x8000) msg))))"
      using Suc.IH [OF buf', of "sz - 0x8000" "ptr + 0x8000"] gt Suc.prems(3) n by (simp add: d)
    moreover have "drop 0x8000 (take (unat sz) (drop ptr msg)) = take (unat sz - 0x8000) (drop (ptr + 0x8000) msg)"
      by (simp add: drop_take add.commute)
    moreover have "take 0x8000 (take (unat sz) (drop ptr msg)) = take 0x8000 (drop ptr msg)"
      using gt by (simp add: min_absorb1)
    ultimately show ?thesis
      using True step gt Suc.prems(3)
      by (simp add: resp_parts_of.simps [of session "take (unat sz) (drop ptr msg)"])
  qed
qed

lemma lpackresponse_single:
  assumes "length buf = TEMP_LENGTH" "unat sz \<le> length msg" "\<not> (ok \<and> 0x8000 < sz)"
  shows "lpackresponse buf mbuf session_arg ok msg sz =
    Inr (Single (frame (encode_resp ((if ok then Resp_ok else Resp_error) (word_of_int session_arg)
                   (take (min (unat sz) 0x8000) msg)))))"
proof -
  define z where "z = (if \<not> ok \<and> 0x8000 < sz then 0x8000 else sz)"
  have z: "unat z = min (unat sz) 0x8000"
    using assms(3) by (auto simp: z_def word_less_nat_alt min_def)
  then have "unat (ucast z :: u32) = unat z"
    by (simp add: unat_ucast_small)
  then have hz: "unat (ucast z + 5 :: u32) = unat z + 5"
    using z by (simp add: unat_add_small)
  have "unat z \<le> length msg" using z assms(2) by simp
  then obtain data where data: "mem_read msg 0 (unat z) = Inr data" "length data = unat z"
    "take (unat z) msg = data"
    using take_read by blast
  note hd = fill_header_eq [OF hz]
  have "unat z \<le> 0x8000" using z by simp
  then have "lpackresponse buf mbuf session_arg ok msg sz =
    Inr (Single (frame (encode_resp ((if ok then Resp_ok else Resp_error) (word_of_int session_arg) data))))"
    unfolding lpackresponse_def Let_def z_def [symmetric]
    using assms(1,3) data
    by (simp add: hd pack_simps) (auto simp: ac_simps)
  then show ?thesis using data z by simp
qed

lemma lpackresponse_multi:
  assumes "length buf = TEMP_LENGTH" "length mbuf = TEMP_LENGTH" "unat sz \<le> length msg" "0x8000 < sz"
  shows "lpackresponse buf mbuf session_arg True msg sz =
    Inr (Multi (map (\<lambda>p. frame (encode_resp p))
      (Resp_begin (word_of_int session_arg) (ucast sz) #
       resp_parts_of (word_of_int session_arg) (take (unat sz) msg))))"
proof -
  have pos: "0 < unat sz" using assms(4) by (simp add: word_less_nat_alt)
  have hd: "fill_header b 9 = mem_write b 0 (be16 9)" for b
    using fill_header_eq [of 9 9] by simp
  let ?m = "be16 9 @ le32 (word_of_int session_arg) @ 2 # le32 (ucast sz) @ drop 11 mbuf"
  have len: "length ?m = TEMP_LENGTH"
    using assms(2) by (simp add: TEMP_LENGTH_def)
  show ?thesis
    unfolding lpackresponse_def Let_def
    using assms(2,4) packresponse_parts_frames [OF len pos _ refl, of 0 msg] assms(3)
      unat_resp_count [OF pos]
    by (simp add: hd pack_simps drop_Cons')
qed

section \<open>Chunks and their concatenation\<close>

text \<open>The payloads of the parts, as the receiver collects them, are chunks of the message.\<close>

fun chunk_of :: "packet \<Rightarrow> bytes" where
  "chunk_of (Part fin session data) = data"
| "chunk_of _ = []"

lemma concat_chunks: "concat (map chunk_of (parts_of session data)) = data"
proof (induction session data rule: parts_of.induct)
  case (1 session data)
  then show ?case
    by (subst parts_of.simps) simp
qed

lemma parts_shape:
  "p \<in> set (parts_of session data) \<Longrightarrow> \<exists>fin d. p = Part fin session d \<and> length d \<le> 0x8000"
proof (induction session data rule: parts_of.induct)
  case (1 session data)
  then show ?case
    by (subst (asm) (2) parts_of.simps) (auto split: if_splits)
qed

lemma values_of_resp_parts:
  "concat (map (\<lambda>p. case values_of_resp p ! 2 of L_str d \<Rightarrow> d | _ \<Rightarrow> []) (resp_parts_of session data)) = data
   \<and> (\<forall>p \<in> set (resp_parts_of session data).
        \<exists>d. values_of_resp p ! 2 = L_str d \<and> length d \<le> 0x8000)"
proof (induction session data rule: resp_parts_of.induct)
  case (1 session data)
  show ?case
  proof (cases "length data \<le> 0x8000")
    case True
    then show ?thesis by (simp add: resp_parts_of.simps [of session data])
  next
    case False
    with 1 show ?thesis by (simp add: resp_parts_of.simps [of session data])
  qed
qed

lemma length_encode_small:
  "p \<in> set (request_packets arg1 session data push) \<Longrightarrow> addr_ok arg1 \<Longrightarrow> length (encode p) < 0x10000"
proof -
  have parts: "q \<in> set (parts_of session data) \<Longrightarrow> length (encode q) \<le> 0x8005" for q
    using parts_shape [of q session data] by auto
  show "p \<in> set (request_packets arg1 session data push) \<Longrightarrow> addr_ok arg1 \<Longrightarrow> length (encode p) < 0x10000"
    by (cases arg1) (auto simp: addr_ok_def split: if_splits dest!: parts)
qed

section \<open>Properties\<close>

lemma next_session_pos:
  assumes "0 < sint s"
  shows "0 < sint (next_session s)"
proof -
  have "unat s < 2 ^ 31" using unat_sint_nonneg [of s] assms by simp
  then have u: "unat (s + 1) = unat s + 1" by (simp add: unat_add_small)
  show ?thesis
  proof (cases "0x7fffffff < s + 1")
    case True
    then show ?thesis by (simp add: next_session_def)
  next
    case False
    then have "unat (s + 1) < 2 ^ 31" by (simp add: word_less_nat_alt)
    then have "sint (s + 1) = int (unat s + 1)" using u sint_small [of "s + 1"] by simp
    then have "0 < sint (s + 1)" by (simp only: of_nat_0_less_iff)
    with False show ?thesis by (simp add: next_session_def)
  qed
qed

lemma values_of_resp_frame:
  assumes "p \<in> set (Resp_begin s z # resp_parts_of s data)"
  shows "values_of_resp p ! 0 = L_int (uint s) \<and> values_of_resp p ! 1 = L_bool True"
proof -
  have "q \<in> set (resp_parts_of s data) \<Longrightarrow> \<exists>d. q = Resp_part s d \<or> q = Resp_end s d" for q
  proof (induction s data rule: resp_parts_of.induct)
    case (1 s data)
    then show ?case by (subst (asm) (2) resp_parts_of.simps) (auto split: if_splits)
  qed
  then have "p = Resp_begin s z \<or> (\<exists>d. p = Resp_part s d \<or> p = Resp_end s d)"
    using assms by auto
  then show ?thesis by auto
qed

lemma resp_third_values:
  assumes "length data = n" "n < 2 ^ 31"
  shows "lconcat_table (map (\<lambda>p. values_of_resp p ! 2) (Resp_begin s (of_nat n) # resp_parts_of s data)) =
    Inr [L_ptr data, L_int (int n)]"
proof -
  define ds where "ds = map (\<lambda>p. case values_of_resp p ! 2 of L_str d \<Rightarrow> d | _ \<Rightarrow> []) (resp_parts_of s data)"
  have c: "concat ds = data" and shape: "\<forall>p \<in> set (resp_parts_of s data).
      \<exists>d. values_of_resp p ! 2 = L_str d \<and> length d \<le> 0x8000"
    using values_of_resp_parts [of s data] by (simp_all add: ds_def)
  have "map (\<lambda>p. values_of_resp p ! 2) (resp_parts_of s data) = map L_str ds"
    using shape by (auto simp: ds_def)
  moreover have "\<forall>d \<in> set ds. length d < 2 ^ 62"
    using shape by (auto simp: ds_def)
  moreover have "uint (of_nat n :: u32) = int n"
    using assms(2) unat_of_nat_small [of n, where 'a = 32] by (simp add: uint_nat del: of_nat_unat)
  ultimately show ?thesis
    using lconcat_strings [of n ds] assms c by simp
qed

text \<open>
  Packing frees the message exactly once, whatever the address, the session and the size are: on the error
  paths (session not positive, name missing, empty or too long) before the error is raised, and after
  the frames are built otherwise. (The exception is the null pointer, which raises before.)
\<close>

theorem packrequest_frees_once:
  assumes "length buf = TEMP_LENGTH" "length mbuf = TEMP_LENGTH"
    and "unat (word_of_int sz_arg :: u32) \<le> length msg"
  shows "fst (packrequest buf mbuf arg1 session_arg (Some msg) sz_arg push) = 1"
proof (cases "addr_ok arg1 \<and> 0 < sint (word_of_int session_arg :: u32)")
  case True
  then show ?thesis using packrequest_frames [OF assms(1,2) _ _ assms(3), of arg1 session_arg push] by auto
next
  case False
  then consider "sint (word_of_int session_arg :: u32) \<le> 0"
    | "\<not> is_number arg1" "lua_tolstring arg1 = None"
    | name where "arg1 = L_str name" "name = [] \<or> 255 < length name"
    by (cases arg1) (auto simp: addr_ok_def)
  then show ?thesis
    by cases (auto simp: packrequest_def packreq_string_def Let_def)
qed

theorem packrequest_frees_once_witness:
  "fst (packrequest (replicate TEMP_LENGTH 0) (replicate TEMP_LENGTH 0) (L_str []) 7 (Some [1, 2, 3]) 3 False) = 1"
  by (rule packrequest_frees_once) simp_all

text \<open>
  C4: The frames of a request are those of the format comment, each behind its 16-bit big-endian length, for
  every size but one: packing a message of \<open>sz\<close> bytes for a valid address and a positive session succeeds
  without leaving the stack buffers, the frames are those of \<open>request_packets\<close> in order, which are the
  documented ones unless the message has exactly 0x8000 bytes (then they are a multi-part header and one
  part, where the comment has one frame), every frame's header is the length of its payload, and the next
  session is positive again.
\<close>

theorem packrequest_wire_format:
  assumes "length buf = TEMP_LENGTH" "length mbuf = TEMP_LENGTH" "addr_ok arg1"
    and "0 < sint (word_of_int session_arg :: u32)"
    and "unat (word_of_int sz_arg :: u32) \<le> length msg"
  shows "\<exists>r. packrequest buf mbuf arg1 session_arg (Some msg) sz_arg push = (1, Inr r) \<and>
    result_frames r = map (\<lambda>p. frame (encode p)) (request_packets arg1 (word_of_int session_arg)
      (take (unat (word_of_int sz_arg :: u32)) msg) push) \<and>
    (unat (word_of_int sz_arg :: u32) \<noteq> 0x8000 \<longrightarrow>
      request_packets arg1 (word_of_int session_arg) (take (unat (word_of_int sz_arg :: u32)) msg) push =
      documented_packets arg1 (word_of_int session_arg) (take (unat (word_of_int sz_arg :: u32)) msg) push) \<and>
    (\<forall>f \<in> set (result_frames r). unat (of_be (take 2 f) :: u16) = length (drop 2 f)) \<and>
    0 < sint (fst (snd r))"
proof -
  obtain r where r: "packrequest buf mbuf arg1 session_arg (Some msg) sz_arg push = (1, Inr r)"
    "result_frames r = map (\<lambda>p. frame (encode p)) (request_packets arg1 (word_of_int session_arg)
      (take (unat (word_of_int sz_arg :: u32)) msg) push)"
    "fst (snd r) = next_session (word_of_int session_arg)"
    using packrequest_frames [OF assms] by blast
  have "unat (of_be (take 2 f) :: u16) = length (drop 2 f)" if "f \<in> set (result_frames r)" for f
  proof -
    from that r(2) obtain p where "f = frame (encode p)" "length (encode p) < 0x10000"
      using length_encode_small [OF _ assms(3)] by auto
    then show ?thesis by (simp add: frame_def take_append_exact unat_of_nat_small)
  qed
  moreover have "0 < sint (next_session (word_of_int session_arg))"
    by (rule next_session_pos [OF assms(4)])
  ultimately show ?thesis using r request_packets_documented assms(5) by auto
qed

theorem packrequest_wire_format_witness:
  "\<exists>r. packrequest (replicate TEMP_LENGTH 0) (replicate TEMP_LENGTH 0) (L_str [0x40, 0x61]) 7
      (Some [1, 2, 3]) 3 False = (1, Inr r) \<and>
    result_frames r = map (\<lambda>p. frame (encode p)) (request_packets (L_str [0x40, 0x61])
      (word_of_int 7) (take (unat (word_of_int 3 :: u32)) [1, 2, 3]) False) \<and>
    (unat (word_of_int 3 :: u32) \<noteq> 0x8000 \<longrightarrow>
      request_packets (L_str [0x40, 0x61]) (word_of_int 7) (take (unat (word_of_int 3 :: u32)) [1, 2, 3]) False =
      documented_packets (L_str [0x40, 0x61]) (word_of_int 7) (take (unat (word_of_int 3 :: u32)) [1, 2, 3]) False) \<and>
    (\<forall>f \<in> set (result_frames r). unat (of_be (take 2 f) :: u16) = length (drop 2 f)) \<and>
    0 < sint (fst (snd r))"
  by (rule packrequest_wire_format) (simp_all add: addr_ok_def)

text \<open>The size at which the code and the comment differ.\<close>

lemma boundary_travels_in_parts:
  assumes "length buf = TEMP_LENGTH" "length mbuf = TEMP_LENGTH" "is_number arg1"
    and "0 < sint (word_of_int session_arg :: u32)" "length msg = 0x8000"
  shows "\<exists>r rest. packrequest buf mbuf arg1 session_arg (Some msg) 0x8000 push = (1, Inr r) \<and>
    result_frames r = frame (encode (Multi_request push (word_of_int (lua_tointeger arg1)) (word_of_int session_arg) 0x8000)) # rest \<and>
    documented_packets arg1 (word_of_int session_arg) msg push =
      [Request (word_of_int (lua_tointeger arg1)) (if push then 0 else word_of_int session_arg) msg]"
proof -
  have a: "addr_ok arg1" "unat (word_of_int 0x8000 :: u32) \<le> length msg" using assms(3,5) by (simp_all add: addr_ok_def)
  from packrequest_frames [OF assms(1,2) a(1) assms(4) a(2), of push] show ?thesis
    using assms(3,5) by (cases arg1) (auto simp: documented_packets_def)
qed

text \<open>
  C7: Unpacking a request is memory safe on every input: whatever bytes a peer sends (up to the 2^31 - 1
  bytes an \<open>int\<close> can count), \<open>lunpackrequest\<close> reads inside the message only; it returns 1, 4, 5 or 6
  values or raises a Lua error.
\<close>

theorem lunpackrequest_memory_safe:
  assumes "length m < 2 ^ 31"
  shows "(\<exists>s. lunpackrequest (Str_arg m) = Inl (Lua_error s)) \<or>
    (\<exists>vs. lunpackrequest (Str_arg m) = Inr vs \<and> length vs \<in> {1, 4, 5, 6})"
  using lunpackrequest_safe [OF assms]
  by (auto simp: safe_result_def split: sum.splits err.splits)

theorem lunpackrequest_memory_safe_witness:
  "(\<exists>s. lunpackrequest (Str_arg [0x80, 0xff, 1]) = Inl (Lua_error s)) \<or>
    (\<exists>vs. lunpackrequest (Str_arg [0x80, 0xff, 1]) = Inr vs \<and> length vs \<in> {1, 4, 5, 6})"
  by (rule lunpackrequest_memory_safe) simp

text \<open>
  C16: A response that succeeds and is larger than a part arrives unchanged: the frames of the multi-part
  response, unpacked one by one, all carry the session and \<open>ok\<close>, and the third values of the results, in
  order, are a table that \<open>lconcat\<close> accepts and turns back into the message and its size.
\<close>

theorem response_multi_roundtrip:
  assumes "length buf = TEMP_LENGTH" "length mbuf = TEMP_LENGTH"
    and "unat sz \<le> length msg" "0x8000 < sz" "unat sz < 2 ^ 31"
  shows "\<exists>fs vss. lpackresponse buf mbuf session_arg True msg sz = Inr (Multi fs) \<and>
    map (\<lambda>f. lunpackresponse (drop 2 f)) fs = map Inr vss \<and>
    (\<forall>vs \<in> set vss. vs ! 0 = L_int (uint (word_of_int session_arg :: u32)) \<and> vs ! 1 = L_bool True) \<and>
    lconcat_table (map (\<lambda>vs. vs ! 2) vss) = Inr [L_ptr (take (unat sz) msg), L_int (int (unat sz))]"
proof -
  let ?s = "word_of_int session_arg :: u32" and ?data = "take (unat sz) msg"
  define ps where "ps = Resp_begin ?s (of_nat (unat sz)) # resp_parts_of ?s ?data"
  have len: "length ?data = unat sz" using assms(3) by simp
  have "lpackresponse buf mbuf session_arg True msg sz = Inr (Multi (map (\<lambda>p. frame (encode_resp p)) ps))"
    using lpackresponse_multi [OF assms(1-4), of session_arg] by (simp add: ps_def)
  moreover have "map (\<lambda>f. lunpackresponse (drop 2 f)) (map (\<lambda>p. frame (encode_resp p)) ps) =
      map Inr (map values_of_resp ps)"
    by (simp add: unframe lunpackresponse_encode)
  moreover have "\<forall>vs \<in> set (map values_of_resp ps). vs ! 0 = L_int (uint ?s) \<and> vs ! 1 = L_bool True"
    using values_of_resp_frame unfolding ps_def by auto
  moreover have "lconcat_table (map (\<lambda>vs. vs ! 2) (map values_of_resp ps)) =
      Inr [L_ptr ?data, L_int (int (unat sz))]"
    using resp_third_values [OF len assms(5), of ?s] by (simp add: ps_def comp_def)
  ultimately show ?thesis by blast
qed

theorem response_multi_roundtrip_witness:
  "\<exists>fs vss. lpackresponse (replicate TEMP_LENGTH 0) (replicate TEMP_LENGTH 0) 9 True
      (replicate 0x8001 7) 0x8001 = Inr (Multi fs) \<and>
    map (\<lambda>f. lunpackresponse (drop 2 f)) fs = map Inr vss \<and>
    (\<forall>vs \<in> set vss. vs ! 0 = L_int (uint (word_of_int 9 :: u32)) \<and> vs ! 1 = L_bool True) \<and>
    lconcat_table (map (\<lambda>vs. vs ! 2) vss) =
      Inr [L_ptr (take (unat (0x8001 :: u64)) (replicate 0x8001 7)), L_int (int (unat (0x8001 :: u64)))]"
  by (rule response_multi_roundtrip) simp_all

text \<open>
  A response that fits into one frame arrives unchanged, and an error response is cut to 0x8000
  bytes: unpacking the frame gives the session, the flag and the message.
\<close>

theorem response_single_roundtrip:
  assumes "length buf = TEMP_LENGTH" "unat sz \<le> length msg" "\<not> (ok \<and> 0x8000 < sz)"
  shows "\<exists>f. lpackresponse buf mbuf session_arg ok msg sz = Inr (Single f) \<and>
    lunpackresponse (drop 2 f) = Inr [L_int (uint (word_of_int session_arg :: u32)), L_bool ok,
      L_str (take (min (unat sz) 0x8000) msg)]"
  using lpackresponse_single [OF assms, of mbuf session_arg]
  by (simp add: unframe lunpackresponse_encode)

theorem response_single_roundtrip_witness:
  "\<exists>f. lpackresponse (replicate TEMP_LENGTH 0) (replicate TEMP_LENGTH 0) 9 False [0x65, 0x72] 2 = Inr (Single f) \<and>
    lunpackresponse (drop 2 f) = Inr [L_int (uint (word_of_int 9 :: u32)), L_bool False,
      L_str (take (min (unat (2 :: u64)) 0x8000) [0x65, 0x72])]"
  by (rule response_single_roundtrip) simp_all

text \<open>
  \<open>lconcat\<close> accepts a table of parts exactly when the parts add up to the announced size (below 2^31): it
  returns their concatenation then, and nothing when they are too short or too long; it never writes
  outside of the buffer it allocated.
\<close>

theorem lconcat_checks_total:
  assumes "n < 2 ^ 31" "\<forall>p \<in> set ps. length p < 2 ^ 62"
  shows "lconcat_table (L_int (int n) # map L_str ps) =
    (if length (concat ps) = n then Inr [L_ptr (concat ps), L_int (int n)] else Inr [])"
  using lconcat_strings [OF assms] by simp

theorem lconcat_checks_total_witness:
  "lconcat_table (L_int (int 3) # map L_str [[1, 2], [3]]) =
    (if length (concat [[1, 2], [3 :: byte]]) = 3 then Inr [L_ptr (concat [[1, 2], [3]]), L_int (int 3)] else Inr [])"
  by (rule lconcat_checks_total) simp_all

text \<open>
  C20: An announced size of 0xffffffff, which a peer can send in a multi-part header, defeats the check: it
  becomes the \<open>int\<close> -1, \<open>skynet_malloc\<close> wraps around to a request of three bytes, an object of eight of
  which the last four are the cookie, and since the test \<open>s + offset > sz\<close> is done on \<open>size_t\<close> the first
  part is copied whatever its length: a part of more than four bytes is written over the cookie or behind
  the object.
\<close>

theorem lconcat_negative_size_overflows:
  assumes "4 < length part"
  shows "lconcat_table [L_int 0xffffffff, L_str part] = Inl Out_of_bounds"
proof -
  have "unat (- 1 + PREFIX_SIZE) = 3" by (simp add: PREFIX_SIZE_def)
  moreover have "(scast (0xffffffff :: u32) :: u64) = - 1" by simp
  moreover have "\<not> (- 1 :: u64) < w" for w by simp
  ultimately show ?thesis using assms
    by (simp add: lconcat_def skynet_malloc_def s2u_compute_def mem_write_def)
qed

theorem lconcat_negative_size_overflows_witness:
  "lconcat_table [L_int 0xffffffff, L_str [1, 2, 3, 4, 5]] = Inl Out_of_bounds"
  by (rule lconcat_negative_size_overflows) simp

end
