(* ===== verification/Cluster_agent.thy ===== *)
theory Cluster_agent
  imports Beecluster
begin

text \<open>
  The receiving end of the cluster protocol: the collection of multi-part requests in
  \<open>dispatch_request\<close> of \<open>src/lua/BeeCluster/bee_clusteragent.lua\<close>, on top of \<open>lunpackrequest\<close>,
  \<open>lappend\<close> and \<open>lconcat\<close>, and the end-to-end theorems that join it with the packing side.
\<close>

section \<open>Collecting the parts\<close>

text \<open>An entry of the table \<open>large_request\<close>: the fields and the sequence part of the Lua table.\<close>

record pending =
  req_addr :: lval
  req_push :: lval
  req_seq :: "lval list"

type_synonym agent = "lval \<Rightarrow> pending option"

datatype outcome =
    Traced
  | Collecting
  | Invalid_large_req lval
  | Dispatch lval lval lval lval lval
  | Failed err

definition arg :: "lval list \<Rightarrow> nat \<Rightarrow> lval" where
  "arg vs i = (if i < length vs then vs ! i else L_nil)"

definition truthy :: "lval \<Rightarrow> bool" where
  "truthy v = (v \<noteq> L_nil \<and> v \<noteq> L_bool False)"

text \<open>
  \<open>Dispatch addr session msg sz is_push\<close> stands for the rest of the handler, which forwards the
  message to the service \<open>addr\<close>.
\<close>

definition dispatch_request :: "agent \<Rightarrow> lval list \<Rightarrow> agent \<times> outcome" where
  "dispatch_request st vs =
     (let addr = arg vs 0; session = arg vs 1; msg = arg vs 2; sz = arg vs 3;
          padding = arg vs 4; is_push = arg vs 5
      in if session = L_nil then (st, Traced)
         else if truthy padding then
           (let req = (case st session of Some r \<Rightarrow> r
                       | None \<Rightarrow> \<lparr>req_addr = addr, req_push = is_push, req_seq = []\<rparr>)
            in case snd (lappend (req_seq req) msg sz) of
                 Inl e \<Rightarrow> (st(session \<mapsto> req), Failed e)
               | Inr t \<Rightarrow> (st(session \<mapsto> req\<lparr>req_seq := t\<rparr>), Collecting))
         else
           (case st session of
              Some req \<Rightarrow>
                (let st' = st(session := None)
                 in case snd (lappend (req_seq req) msg sz) of
                      Inl e \<Rightarrow> (st', Failed e)
                    | Inr t \<Rightarrow>
                       (case lconcat_table t of
                          Inl e \<Rightarrow> (st', Failed e)
                        | Inr ws \<Rightarrow>
                           (if truthy (arg ws 0)
                            then (st', Dispatch (req_addr req) session (arg ws 0) (arg ws 1) (req_push req))
                            else (st', Invalid_large_req session))))
            | None \<Rightarrow>
                (if truthy msg then (st, Dispatch addr session msg sz is_push)
                 else (st, Invalid_large_req session))))"

text \<open>
  A frame arrives without its length header: the gate strips it (see \<open>Netpack\<close>). The client
  protocol unpacks the rest with \<open>lunpackrequest\<close> and calls the handler.
\<close>

definition receive :: "agent \<Rightarrow> bytes \<Rightarrow> agent \<times> outcome" where
  "receive st payload =
     (case lunpackrequest (Str_arg payload) of
        Inl e \<Rightarrow> (st, Failed e)
      | Inr vs \<Rightarrow> dispatch_request st vs)"

fun receive_all :: "agent \<Rightarrow> bytes list \<Rightarrow> agent \<times> outcome list" where
  "receive_all st [] = (st, [])"
| "receive_all st (f # fs) =
     (let (st1, out) = receive st f; (st2, outs) = receive_all st1 fs
      in (st2, out # outs))"

section \<open>Independence of the sessions\<close>

lemma dispatch_request_frame:
  assumes "arg vs 1 \<noteq> k"
  shows "fst (dispatch_request st vs) k = st k"
  using assms
  by (auto simp: dispatch_request_def Let_def split: option.splits sum.splits if_splits)

section \<open>A multi-part request is put together\<close>

lemma receive_part:
  assumes "packet_ok (Part False s d)" "st (L_int (uint s)) = Some req"
  shows "receive st (encode (Part False s d)) =
    (st(L_int (uint s) \<mapsto> req\<lparr>req_seq := req_seq req @ [L_str d]\<rparr>), Collecting)"
proof -
  have "int (length d) < 2 ^ 31" using assms(1) by simp
  then have "sint (word_of_int (int (length d)) :: u32) = int (length d)"
    using sint_of_nat_small [of "length d"] by simp
  then show ?thesis
    unfolding receive_def lunpackrequest_encode [OF assms(1)]
    using assms(2)
    by (simp add: dispatch_request_def arg_def truthy_def lappend_def read_int_def buffer_simps Let_def)
qed

lemma receive_last_part:
  assumes "packet_ok (Part True s d)" "st (L_int (uint s)) = Some req"
    and "req_seq req = L_int (int n) # map L_str ps" "n < 2 ^ 31"
    and "\<forall>p \<in> set (ps @ [d]). length p < 2 ^ 62" "length (concat (ps @ [d])) = n"
  shows "receive st (encode (Part True s d)) =
    (st(L_int (uint s) := None),
     Dispatch (req_addr req) (L_int (uint s)) (L_ptr (concat (ps @ [d]))) (L_int (int n)) (req_push req))"
proof -
  have "int (length d) < 2 ^ 31" using assms(1) by simp
  then have "sint (word_of_int (int (length d)) :: u32) = int (length d)"
    using sint_of_nat_small [of "length d"] by simp
  moreover have "lconcat (L_int (int n)) (map L_str ps @ [L_str d]) = Inr [L_ptr (concat (ps @ [d])), L_int (int n)]"
    using lconcat_strings [OF assms(4,5)] assms(6) by simp
  ultimately show ?thesis
    unfolding receive_def lunpackrequest_encode [OF assms(1)]
    using assms(2,3)
    by (simp add: dispatch_request_def arg_def truthy_def lappend_def read_int_def buffer_simps Let_def)
qed

lemma receive_parts:
  assumes "st (L_int (uint s)) = Some req" "req_seq req = L_int (int n) # map L_str ps"
    and "n < 2 ^ 31" "\<forall>p \<in> set ps. length p < 2 ^ 62" "length (concat ps) + length data = n"
  shows "\<exists>outs. receive_all st (map encode (parts_of s data)) =
    (st(L_int (uint s) := None),
     outs @ [Dispatch (req_addr req) (L_int (uint s)) (L_ptr (concat ps @ data)) (L_int (int n)) (req_push req)])
    \<and> set outs \<subseteq> {Collecting}"
  using assms
proof (induction s data arbitrary: st req ps rule: parts_of.induct)
  case (1 s data)
  show ?case
  proof (cases "length data \<le> 0x8000")
    case True
    then have "receive st (encode (Part True s data)) =
      (st(L_int (uint s) := None),
       Dispatch (req_addr req) (L_int (uint s)) (L_ptr (concat (ps @ [data]))) (L_int (int n)) (req_push req))"
      using 1 by (intro receive_last_part) auto
    moreover have "receive_all st (map encode (parts_of s data)) =
      (let (st1, out) = receive st (encode (Part True s data)) in (st1, [out]))"
      using True by (simp add: parts_of.simps [of s data])
    ultimately have "receive_all st (map encode (parts_of s data)) =
      (st(L_int (uint s) := None),
       [] @ [Dispatch (req_addr req) (L_int (uint s)) (L_ptr (concat ps @ data)) (L_int (int n)) (req_push req)])"
      by (simp del: encode.simps)
    then show ?thesis by (intro exI conjI) (assumption, simp)
  next
    case False
    let ?d = "take 0x8000 data"
    let ?req = "req\<lparr>req_seq := req_seq req @ [L_str ?d]\<rparr>"
    let ?st = "st(L_int (uint s) \<mapsto> ?req)"
    have r: "receive st (encode (Part False s ?d)) = (?st, Collecting)"
      using "1.prems"(1) by (intro receive_part) simp_all
    have "\<exists>outs. receive_all ?st (map encode (parts_of s (drop 0x8000 data))) =
      (?st(L_int (uint s) := None),
       outs @ [Dispatch (req_addr ?req) (L_int (uint s)) (L_ptr (concat (ps @ [?d]) @ drop 0x8000 data))
                 (L_int (int n)) (req_push ?req)])
      \<and> set outs \<subseteq> {Collecting}"
      using 1 False by (intro "1.IH") auto
    then obtain outs where o: "receive_all ?st (map encode (parts_of s (drop 0x8000 data))) =
      (?st(L_int (uint s) := None),
       outs @ [Dispatch (req_addr ?req) (L_int (uint s)) (L_ptr (concat (ps @ [?d]) @ drop 0x8000 data))
                 (L_int (int n)) (req_push ?req)])" and so: "set outs \<subseteq> {Collecting}"
      by blast
    have "receive_all st (map encode (parts_of s data)) =
      (st(L_int (uint s) := None),
       (Collecting # outs) @ [Dispatch (req_addr req) (L_int (uint s)) (L_ptr (concat ps @ data))
          (L_int (int n)) (req_push req)])"
      using False r o by (simp add: parts_of.simps [of s data])
    with so show ?thesis by (intro exI [of _ "Collecting # outs"]) auto
  qed
qed

text \<open>
  What the handler is given for a whole request: the address as the sender wrote it, the message,
  its size, and whether it is a push. A small push carries session 0 and the flag; a small request
  carries no flag.
\<close>

fun seen_addr :: "lval \<Rightarrow> lval" where
  "seen_addr (L_str name) = L_str name"
| "seen_addr a = L_int (uint (word_of_int (lua_tointeger a) :: u32))"

definition seen_session :: "u32 \<Rightarrow> bytes \<Rightarrow> bool \<Rightarrow> u32" where
  "seen_session s data push = (if push \<and> length data < 0x8000 then 0 else s)"

definition seen_push :: "u32 \<Rightarrow> bytes \<Rightarrow> bool \<Rightarrow> lval" where
  "seen_push s data push =
     (if length data < 0x8000 then (if push \<or> s = 0 then L_bool True else L_nil) else L_bool push)"

lemma receive_multi:
  fixes s sz :: u32
  assumes "values_of p = [a, L_int (uint s), L_nil, L_int (uint sz), L_bool True, L_bool push]"
    and "packet_ok p" "st (L_int (uint s)) = None"
  shows "receive st (encode p) =
    (st(L_int (uint s) \<mapsto> \<lparr>req_addr = a, req_push = L_bool push, req_seq = [L_int (uint sz)]\<rparr>), Collecting)"
  unfolding receive_def lunpackrequest_encode [OF assms(2)]
  using assms(1,3) by (simp add: dispatch_request_def arg_def truthy_def lappend_def Let_def numeral_eq_Suc)

lemma receive_small:
  fixes s :: u32
  assumes "values_of p = [a, L_int (uint s), L_ptr d, L_int (int (length d))] @
             (if s = 0 then [L_nil, L_bool True] else [])"
    and "packet_ok p" "st (L_int (uint s)) = None"
  shows "receive st (encode p) =
    (st, Dispatch a (L_int (uint s)) (L_ptr d) (L_int (int (length d))) (if s = 0 then L_bool True else L_nil))"
  unfolding receive_def lunpackrequest_encode [OF assms(2)]
  using assms(1,3) by (simp add: dispatch_request_def arg_def truthy_def Let_def numeral_eq_Suc)

lemma receive_large:
  fixes s sz :: u32
  assumes "values_of p = [a, L_int (uint s), L_nil, L_int (uint sz), L_bool True, L_bool push]"
    and "packet_ok p" "st (L_int (uint s)) = None"
    and "sz = of_nat (length data)" "length data < 2 ^ 31"
  shows "\<exists>outs. receive_all st (map encode (p # parts_of s data)) =
    (st, outs @ [Dispatch a (L_int (uint s)) (L_ptr data) (L_int (int (length data))) (L_bool push)])
    \<and> set outs \<subseteq> {Collecting}"
proof -
  let ?req = "\<lparr>req_addr = a, req_push = L_bool push, req_seq = [L_int (uint sz)]\<rparr>"
  let ?st = "st(L_int (uint s) \<mapsto> ?req)"
  have sz: "uint sz = int (length data)"
    using assms(4,5) unat_of_nat_small [of "length data", where 'a = 32] by (simp add: uint_nat del: of_nat_unat)
  obtain outs where o: "receive_all ?st (map encode (parts_of s data)) =
    (?st(L_int (uint s) := None),
     outs @ [Dispatch a (L_int (uint s)) (L_ptr data) (L_int (int (length data))) (L_bool push)])"
    and so: "set outs \<subseteq> {Collecting}"
    using receive_parts [of ?st s ?req "length data" "[]" data] assms(5) sz by auto
  have "receive_all st (map encode (p # parts_of s data)) =
    (st, (Collecting # outs) @ [Dispatch a (L_int (uint s)) (L_ptr data) (L_int (int (length data))) (L_bool push)])"
    using receive_multi [where st = st, OF assms(1-3)] o assms(3) by (simp add: fun_upd_idem)
  with so show ?thesis by (intro exI [of _ "Collecting # outs"]) auto
qed

lemma receive_request:
  assumes "addr_ok arg1" "length data < 2 ^ 31"
    and "st (L_int (uint (seen_session s data push))) = None"
  shows "\<exists>outs. receive_all st (map encode (request_packets arg1 s data push)) =
    (st, outs @ [Dispatch (seen_addr arg1) (L_int (uint (seen_session s data push))) (L_ptr data)
                   (L_int (int (length data))) (seen_push s data push)])
    \<and> set outs \<subseteq> {Collecting}"
proof (cases "length data < 0x8000")
  case True
  then obtain p where p: "request_packets arg1 s data push = [p]" "packet_ok p"
    "values_of p = [seen_addr arg1, L_int (uint (seen_session s data push)), L_ptr data, L_int (int (length data))] @
             (if seen_session s data push = 0 then [L_nil, L_bool True] else [])"
    using assms(1) by (cases arg1) (auto simp: addr_ok_def seen_session_def)
  show ?thesis
    using receive_small [where st = st, OF p(3) p(2) assms(3)] p(1) True
    by (intro exI [of _ "[]"]) (simp add: seen_push_def seen_session_def)
next
  case False
  then obtain p where p: "request_packets arg1 s data push = p # parts_of s data" "packet_ok p"
    "values_of p = [seen_addr arg1, L_int (uint s), L_nil, L_int (uint (of_nat (length data) :: u32)),
                    L_bool True, L_bool push]"
    using assms(1) by (cases arg1) (auto simp: addr_ok_def)
  have "st (L_int (uint s)) = None" using assms(3) False by (simp add: seen_session_def)
  then show ?thesis
    using receive_large [where st = st, OF p(3,2) _ refl assms(2)] p(1) False
    by (simp add: seen_push_def seen_session_def)
qed

section \<open>End to end\<close>

text \<open>
  C1: A request sent in any number of frames arrives as it was sent: the frames that packing builds, received
  one by one (without their length headers) by an agent that holds no parts for the session, lead to
  exactly one dispatch, by the last frame, with the sender's address, the whole message and its size and
  the push flag; every earlier frame only collects, and the agent's table ends up as it was.
\<close>

theorem request_end_to_end:
  fixes sz_arg session_arg :: int
  defines "s \<equiv> (word_of_int session_arg :: u32)" and "n \<equiv> unat (word_of_int sz_arg :: u32)"
  assumes "length buf = TEMP_LENGTH" "length mbuf = TEMP_LENGTH" "addr_ok arg1"
    and "0 < sint s" "n \<le> length msg" "n < 2 ^ 31"
    and "st (L_int (uint (seen_session s (take n msg) push))) = None"
  shows "\<exists>r outs. packrequest buf mbuf arg1 session_arg (Some msg) sz_arg push = (1, Inr r) \<and>
    receive_all st (map (drop 2) (result_frames r)) =
      (st, outs @ [Dispatch (seen_addr arg1) (L_int (uint (seen_session s (take n msg) push)))
                     (L_ptr (take n msg)) (L_int (int n)) (seen_push s (take n msg) push)]) \<and>
    set outs \<subseteq> {Collecting}"
proof -
  obtain r where r: "packrequest buf mbuf arg1 session_arg (Some msg) sz_arg push = (1, Inr r)"
    "result_frames r = map (\<lambda>p. frame (encode p)) (request_packets arg1 s (take n msg) push)"
    using packrequest_frames [OF assms(3-5) assms(6) [unfolded s_def] assms(7) [unfolded n_def], of push]
    unfolding s_def n_def by blast
  have "map (drop 2) (result_frames r) = map encode (request_packets arg1 s (take n msg) push)"
    using r(2) by (simp add: unframe comp_def)
  moreover have "length (take n msg) = n" using assms(7) by simp
  ultimately show ?thesis
    using receive_request [OF assms(5), of "take n msg" st s push] assms(8,9) r(1) by auto
qed

theorem request_end_to_end_witness:
  "\<exists>r outs. packrequest (replicate TEMP_LENGTH 0) (replicate TEMP_LENGTH 0) (L_int 5) 7
      (Some (replicate 0x8000 1)) 0x8000 True = (1, Inr r) \<and>
    receive_all (\<lambda>_. None) (map (drop 2) (result_frames r)) =
      (\<lambda>_. None, outs @ [Dispatch (seen_addr (L_int 5))
         (L_int (uint (seen_session (word_of_int 7) (take (unat (word_of_int 0x8000 :: u32)) (replicate 0x8000 1)) True)))
         (L_ptr (take (unat (word_of_int 0x8000 :: u32)) (replicate 0x8000 1)))
         (L_int (int (unat (word_of_int 0x8000 :: u32))))
         (seen_push (word_of_int 7) (take (unat (word_of_int 0x8000 :: u32)) (replicate 0x8000 1)) True)]) \<and>
    set outs \<subseteq> {Collecting}"
  by (rule request_end_to_end) (simp_all add: addr_ok_def)

end
