(* ===== verification/Ring.thy ===== *)
theory Ring
  imports Prelude
begin

text \<open>
  Ring buffers and the first-in-first-out contract. Two components keep their messages in the same
  kind of ring, an array with a head and a tail index where \<open>head = tail\<close> means empty and a push
  that makes them meet enlarges the array: the message queue of a service
  (\<open>src/3rd/skynet/skynet-src/skynet_mq.c\<close>) and the queue of complete packages
  (\<open>src/3rd/skynet/lualib-src/lua-netpack.c\<close>). This theory holds the facts about such a ring once, and the
  contract that both components are shown to keep.
\<close>

section \<open>The contents of a ring\<close>

definition ring_list :: "nat \<Rightarrow> nat \<Rightarrow> 'a list \<Rightarrow> 'a list" where
  "ring_list h t arr =
     (if h \<le> t then take (t - h) (drop h arr) else drop h arr @ take t arr)"

text \<open>\<open>next_index\<close> is the increment with wrap-around, \<open>if (++i >= cap) i = 0\<close>.\<close>

definition next_index :: "nat \<Rightarrow> nat \<Rightarrow> nat" where
  "next_index cap i = (if cap \<le> i + 1 then 0 else i + 1)"

text \<open>The array from the head on, once around, as the enlarging loops copy it.\<close>

definition unroll :: "nat \<Rightarrow> 'a list \<Rightarrow> 'a list" where
  "unroll h arr = map (\<lambda>i. arr ! ((h + i) mod length arr)) [0..<length arr]"

lemma next_index_less: "i < cap \<Longrightarrow> next_index cap i < cap"
  by (simp add: next_index_def)

lemma ring_list_empty [simp]: "ring_list h h arr = []"
  by (simp add: ring_list_def)

lemma length_ring_list:
  assumes "h < length arr" "t < length arr"
  shows "length (ring_list h t arr) = (if h \<le> t then t - h else length arr + t - h)"
  using assms by (auto simp: ring_list_def)

lemma unroll_eq:
  assumes "h < length arr"
  shows "unroll h arr = drop h arr @ take h arr"
proof (rule nth_equalityI)
  show "length (unroll h arr) = length (drop h arr @ take h arr)"
    using assms by (simp add: unroll_def)
  fix i assume "i < length (unroll h arr)"
  then have i: "i < length arr" by (simp add: unroll_def)
  show "unroll h arr ! i = (drop h arr @ take h arr) ! i"
  proof (cases "h + i < length arr")
    case True
    then have "i < length arr - h" by simp
    with True show ?thesis using i by (simp add: unroll_def nth_append)
  next
    case False
    then have "(h + i) mod length arr = h + i - length arr"
      using assms i by (simp add: mod_if)
    moreover have "\<not> i < length arr - h" using False by simp
    ultimately show ?thesis using assms i by (simp add: unroll_def nth_append add.commute)
  qed
qed

lemma ring_push:
  assumes "h < length arr" "t < length arr" "next_index (length arr) t \<noteq> h"
  shows "ring_list h (next_index (length arr) t) (arr[t := x]) = ring_list h t arr @ [x]"
proof -
  obtain A a B where arr: "arr = A @ a # B" and t: "t = length A"
    using assms(2) id_take_nth_drop [of t arr] by (metis length_take min.absorb4)
  show ?thesis
  proof (cases B)
    case Nil
    then show ?thesis
      using assms arr t by (cases "h \<le> t") (auto simp: next_index_def ring_list_def)
  next
    case (Cons b B')
    then show ?thesis
      using assms arr t
      by (cases "h \<le> t") (auto simp: next_index_def ring_list_def Suc_diff_le drop_Cons')
  qed
qed

lemma ring_push_full:
  assumes "h < length arr" "t < length arr" "next_index (length arr) t = h"
  shows "unroll h (arr[t := x]) = ring_list h t arr @ [x]"
proof -
  have "unroll h (arr[t := x]) = drop h (arr[t := x]) @ take h (arr[t := x])"
    using assms(1) by (simp add: unroll_eq)
  also have "\<dots> = ring_list h t arr @ [x]"
  proof (cases "length arr \<le> t + 1")
    case True
    then have "h = 0" "t = length arr - 1" using assms by (simp_all add: next_index_def)
    then show ?thesis
      using assms(2) by (simp add: ring_list_def list_update_length upd_conv_take_nth_drop)
  next
    case False
    then have "h = Suc t" using assms(3) by (simp add: next_index_def)
    then show ?thesis
      using assms(2) by (simp add: ring_list_def take_Suc_conv_app_nth)
  qed
  finally show ?thesis .
qed

lemma ring_pop:
  assumes "h < length arr" "t < length arr" "h \<noteq> t"
  shows "ring_list h t arr = arr ! h # ring_list (next_index (length arr) h) t arr"
proof -
  have d: "drop h arr = arr ! h # drop (Suc h) arr"
    using assms(1) by (rule Cons_nth_drop_Suc [symmetric])
  show ?thesis
  proof (cases "h < t")
    case True
    then have "t - h = Suc (t - Suc h)" by simp
    then show ?thesis using True assms d by (simp add: ring_list_def next_index_def)
  next
    case False
    then show ?thesis
      using assms d by (cases "Suc h = length arr") (auto simp: ring_list_def next_index_def)
  qed
qed

lemma ring_list_mod:
  assumes "h < length arr" "t < length arr"
  shows "map (\<lambda>i. arr ! (i mod length arr)) [h..<(if t < h then t + length arr else t)] = ring_list h t arr"
proof (cases "t < h")
  case True
  have "[h..<t + length arr] = [h..<length arr] @ [length arr..<length arr + t]"
    using assms upt_add_eq_append [of h "length arr" t] by (simp add: add.commute)
  moreover have "map (\<lambda>i. arr ! (i mod length arr)) [h..<length arr] = drop h arr"
    by (rule nth_equalityI) auto
  moreover have "map (\<lambda>i. arr ! (i mod length arr)) [length arr..<length arr + t] = take t arr"
    by (rule nth_equalityI) (use assms in auto)
  ultimately show ?thesis using True by (simp add: ring_list_def)
next
  case False
  then show ?thesis by (intro nth_equalityI) (use assms in \<open>auto simp: ring_list_def\<close>)
qed

section \<open>The first-in-first-out contract\<close>

text \<open>
  What the clients of a queue rely on: an invariant, the list of the waiting elements, a push that
  adds at the end and a pop that takes from the front or reports that nothing waits.
\<close>

locale fifo =
  fixes invar :: "'q \<Rightarrow> bool"
    and contents :: "'q \<Rightarrow> 'a list"
    and push :: "'a \<Rightarrow> 'q \<Rightarrow> 'q"
    and pop :: "'q \<Rightarrow> ('a \<times> 'q) option"
  assumes push_invar: "invar q \<Longrightarrow> invar (push x q)"
    and push_contents: "invar q \<Longrightarrow> contents (push x q) = contents q @ [x]"
    and pop_None: "invar q \<Longrightarrow> pop q = None \<longleftrightarrow> contents q = []"
    and pop_Some: "invar q \<Longrightarrow> pop q = Some (x, q') \<Longrightarrow> invar q' \<and> contents q = x # contents q'"
begin

text \<open>Pushing a list and popping \<open>n\<close> elements, stopping at the first empty pop.\<close>

fun push_all :: "'a list \<Rightarrow> 'q \<Rightarrow> 'q" where
  "push_all [] q = q"
| "push_all (x # xs) q = push_all xs (push x q)"

fun pop_upto :: "nat \<Rightarrow> 'q \<Rightarrow> 'a list \<times> 'q" where
  "pop_upto 0 q = ([], q)"
| "pop_upto (Suc n) q =
     (case pop q of None \<Rightarrow> ([], q)
      | Some (x, q') \<Rightarrow> (let (xs, q'') = pop_upto n q' in (x # xs, q'')))"

lemma push_all_spec:
  "invar q \<Longrightarrow> invar (push_all xs q) \<and> contents (push_all xs q) = contents q @ xs"
  by (induction xs arbitrary: q) (simp_all add: push_invar push_contents)

lemma pop_upto_spec:
  "invar q \<Longrightarrow> fst (pop_upto n q) = take n (contents q) \<and> invar (snd (pop_upto n q)) \<and>
     contents (snd (pop_upto n q)) = drop n (contents q)"
proof (induction n arbitrary: q)
  case 0
  then show ?case by simp
next
  case (Suc n)
  show ?case
  proof (cases "pop q")
    case None
    moreover from this have "contents q = []" using pop_None [OF Suc.prems] by simp
    ultimately show ?thesis using Suc.prems by simp
  next
    case (Some r)
    obtain x q' where r: "pop q = Some (x, q')" using Some by (cases r) auto
    then have q': "invar q'" "contents q = x # contents q'"
      using pop_Some [OF Suc.prems] by simp_all
    show ?thesis
      using Suc.IH [OF q'(1)] q'(2) r by (simp add: case_prod_unfold)
  qed
qed

lemma fifo_order:
  assumes "invar q" "contents q = []"
  shows "fst (pop_upto (length xs) (push_all xs q)) = xs"
  using push_all_spec [OF assms(1), of xs] pop_upto_spec [of "push_all xs q" "length xs"] assms(2)
  by simp

lemma pop_total: "invar q \<Longrightarrow> contents q = x # xs \<Longrightarrow> \<exists>q'. pop q = Some (x, q') \<and> contents q' = xs"
  using pop_None [of q] pop_Some [of q] by (cases "pop q") auto

end

end
