(* ===== verification/Netpack.thy ===== *)
theory Netpack
  imports Ring
begin

text \<open>
  The package splitter \<open>src/3rd/skynet/lualib-src/lua-netpack.c\<close>, through which every cluster frame
  arrives: a TCP stream is cut into packages of a 16-bit big-endian length and that many bytes. The
  Lua userdata is the record \<open>queue\<close>: a ring of complete packages and a hash table of the packages
  that wait for more bytes, one chain of \<open>uncomplete\<close> records per hash value. A fresh connection
  has no userdata yet (\<open>None\<close>, the NULL of \<open>lua_touserdata\<close>).
\<close>

definition QUEUESIZE :: nat where
  "QUEUESIZE = 1024"

definition HASHSIZE :: nat where
  "HASHSIZE = 4096"

record netpack =
  np_id :: int
  np_buffer :: bytes
  np_size :: nat

text \<open>
  \<open>up_buffer\<close> is the filled prefix of the buffer of \<open>up_size\<close> bytes; \<open>up_read\<close> counts it, or is -1 when
  only the first byte of the length (\<open>up_header\<close>) has arrived.
\<close>

record uncomplete =
  up_id :: int
  up_buffer :: bytes
  up_size :: nat
  up_read :: int
  up_header :: byte

record queue =
  q_head :: nat
  q_tail :: nat
  q_hash :: "nat \<Rightarrow> uncomplete list"
  q_queue :: "netpack list"

text \<open>The field \<open>cap\<close> is the length of the array \<open>q_queue\<close>.\<close>

definition no_pack :: netpack where
  "no_pack = \<lparr>np_id = 0, np_buffer = [], np_size = 0\<rparr>"

section \<open>The hash table of incomplete packages\<close>

definition hash_fd :: "int \<Rightarrow> nat" where
  "hash_fd fd =
     (let a = fd div 2 ^ 24; b = fd div 2 ^ 12; c = fd
      in unat (word_of_int (a + b + c) :: u32) mod HASHSIZE)"

text \<open>The walk along a chain: the first record of \<open>fd\<close> is unlinked.\<close>

fun unlink :: "int \<Rightarrow> uncomplete list \<Rightarrow> (uncomplete \<times> uncomplete list) option" where
  "unlink fd [] = None"
| "unlink fd (uc # rest) =
     (if up_id uc = fd then Some (uc, rest)
      else case unlink fd rest of None \<Rightarrow> None
           | Some (u, rest') \<Rightarrow> Some (u, uc # rest'))"

definition find_uncomplete :: "queue option \<Rightarrow> int \<Rightarrow> queue option \<times> uncomplete option" where
  "find_uncomplete qo fd =
     (case qo of
        None \<Rightarrow> (None, None)
      | Some q \<Rightarrow>
         (let h = hash_fd fd in
          case unlink fd (q_hash q h) of
            None \<Rightarrow> (Some q, None)
          | Some (uc, rest) \<Rightarrow> (Some (q\<lparr>q_hash := (q_hash q)(h := rest)\<rparr>), Some uc)))"

definition get_queue :: "queue option \<Rightarrow> queue" where
  "get_queue qo =
     (case qo of
        Some q \<Rightarrow> q
      | None \<Rightarrow> \<lparr>q_head = 0, q_tail = 0, q_hash = (\<lambda>_. []), q_queue = replicate QUEUESIZE no_pack\<rparr>)"

definition save_uncomplete :: "queue option \<Rightarrow> int \<Rightarrow> uncomplete \<Rightarrow> queue" where
  "save_uncomplete qo fd uc =
     (let q = get_queue qo; h = hash_fd fd
      in q\<lparr>q_hash := (q_hash q)(h := uc\<lparr>up_id := fd\<rparr> # q_hash q h)\<rparr>)"

section \<open>The ring of complete packages\<close>

text \<open>
  \<open>expand_queue\<close>: a new userdata with \<open>QUEUESIZE\<close> more places takes over the hash table and the
  packages, unrolled from the head.
\<close>

definition np_expand_queue :: "queue \<Rightarrow> queue" where
  "np_expand_queue q =
     (let cap = length (q_queue q) in
      \<lparr>q_head = 0, q_tail = cap, q_hash = q_hash q,
       q_queue = map (\<lambda>i. q_queue q ! ((q_head q + i) mod cap)) [0..<cap] @ replicate QUEUESIZE no_pack\<rparr>)"

definition push_data :: "queue option \<Rightarrow> int \<Rightarrow> bytes \<Rightarrow> nat \<Rightarrow> queue" where
  "push_data qo fd buffer sz =
     (let q = get_queue qo;
          cap = length (q_queue q);
          np = \<lparr>np_id = fd, np_buffer = buffer, np_size = sz\<rparr>;
          q1 = q\<lparr>q_queue := (q_queue q)[q_tail q := np],
                 q_tail := (if cap \<le> q_tail q + 1 then q_tail q + 1 - cap else q_tail q + 1)\<rparr>
      in if q_head q1 = q_tail q1 then np_expand_queue q1 else q1)"

definition lpop :: "queue option \<Rightarrow> (netpack \<times> queue) option" where
  "lpop qo =
     (case qo of
        None \<Rightarrow> None
      | Some q \<Rightarrow>
         (if q_head q = q_tail q then None
          else Some (q_queue q ! q_head q,
                     q\<lparr>q_head := (if length (q_queue q) \<le> q_head q + 1 then 0 else q_head q + 1)\<rparr>)))"

text \<open>
  \<open>lclear\<close> frees the buffers of all incomplete packages and of the waiting packages; the second
  component is the multiset of freed buffers as a list.
\<close>

definition lclear :: "queue option \<Rightarrow> queue option \<times> bytes list" where
  "lclear qo =
     (case qo of
        None \<Rightarrow> (None, [])
      | Some q \<Rightarrow>
         (let cap = length (q_queue q);
              upto = (if q_tail q < q_head q then q_tail q + cap else q_tail q)
          in (Some (q\<lparr>q_hash := (\<lambda>i. if i < HASHSIZE then [] else q_hash q i), q_head := 0, q_tail := 0\<rparr>),
              concat (map (\<lambda>i. map up_buffer (q_hash q i)) [0..<HASHSIZE]) @
              map (\<lambda>i. np_buffer (q_queue q ! (i mod cap))) [q_head q..<upto])))"

section \<open>Splitting the stream\<close>

definition read_size :: "bytes \<Rightarrow> nat res" where
  "read_size buffer =
     bind_r (mem_read buffer 0 2) (\<lambda>b.
       Inr (unat (push_bit 8 (ucast (b ! 0)) OR ucast (b ! 1) :: u32)))"

definition new_uncomplete :: uncomplete where
  "new_uncomplete = \<lparr>up_id = 0, up_buffer = [], up_size = 0, up_read = 0, up_header = 0\<rparr>"

lemma read_size_fits [simp]: "mem_read (x # y # zs) 0 2 = Inr [x, y]"
  by (simp add: mem_read_def numeral_2_eq_2)

text \<open>\<open>push_more\<close> works through the rest of a chunk, which holds at least one byte.\<close>

function push_more :: "queue option \<Rightarrow> int \<Rightarrow> bytes \<Rightarrow> queue res" where
  "push_more qo fd buffer =
     (if length buffer = 1
      then Inr (save_uncomplete qo fd (new_uncomplete\<lparr>up_read := - 1, up_header := buffer ! 0\<rparr>))
      else
        (case read_size buffer of
           Inl e \<Rightarrow> Inl e
         | Inr pack_size \<Rightarrow>
             (let buffer = drop 2 buffer in
              if length buffer < pack_size
              then Inr (save_uncomplete qo fd
                     (new_uncomplete\<lparr>up_read := int (length buffer), up_size := pack_size, up_buffer := buffer\<rparr>))
              else
                (let q = push_data qo fd (take pack_size buffer) pack_size;
                     buffer = drop pack_size buffer
                 in if 0 < length buffer then push_more (Some q) fd buffer else Inr q))))"
  by pat_completeness auto
termination
  by (relation "measure (\<lambda>(qo, fd, buffer). length buffer)")
     (auto simp: read_size_def mem_read_def split: if_splits)

declare push_more.simps [simp del]

definition close_uncomplete :: "queue option \<Rightarrow> int \<Rightarrow> queue option" where
  "close_uncomplete qo fd = fst (find_uncomplete qo fd)"

datatype filter_result =
    Wait
  | Data int bytes nat
  | More
  | Closed int
  | Open int bytes
  | Socket_error int bytes
  | Warning int int

definition filter_data :: "queue option \<Rightarrow> int \<Rightarrow> bytes \<Rightarrow> (queue option \<times> filter_result) res" where
  "filter_data qo fd buffer =
     (case find_uncomplete qo fd of
        (qo, Some uc) \<Rightarrow>
         bind_r (if up_read uc < 0
                 then if up_read uc \<noteq> - 1 then Inl Assert_failed
                      else (case buffer of
                         [] \<Rightarrow> Inl Out_of_bounds
                       | b # rest \<Rightarrow>
                          Inr (uc\<lparr>up_size := unat (ucast b OR push_bit 8 (ucast (up_header uc)) :: u32),
                                  up_buffer := [], up_read := 0\<rparr>, rest))
                 else Inr (uc, buffer))
           (\<lambda>(uc, buffer).
             let need = up_size uc - nat (up_read uc) in
             if length buffer < need then
               (let uc = uc\<lparr>up_buffer := up_buffer uc @ buffer, up_read := up_read uc + int (length buffer)\<rparr>;
                    h = hash_fd fd
                in Inr (map_option (\<lambda>q. q\<lparr>q_hash := (q_hash q)(h := uc # q_hash q h)\<rparr>) qo, Wait))
             else
               (let pack = up_buffer uc @ take need buffer;
                    buffer = drop need buffer
                in if length buffer = 0 then Inr (qo, Data fd pack (up_size uc))
                   else bind_r (push_more (Some (push_data qo fd pack (up_size uc))) fd buffer) (\<lambda>q.
                          Inr (Some q, More))))
      | (qo, None) \<Rightarrow>
         (if length buffer = 1
          then Inr (Some (save_uncomplete qo fd (new_uncomplete\<lparr>up_read := - 1, up_header := buffer ! 0\<rparr>)), Wait)
          else
            (case read_size buffer of
               Inl e \<Rightarrow> Inl e
             | Inr pack_size \<Rightarrow>
                 (let buffer = drop 2 buffer in
                  if length buffer < pack_size
                  then Inr (Some (save_uncomplete qo fd
                         (new_uncomplete\<lparr>up_read := int (length buffer), up_size := pack_size, up_buffer := buffer\<rparr>)), Wait)
                  else if length buffer = pack_size
                  then Inr (qo, Data fd buffer pack_size)
                  else bind_r (push_more (Some (push_data qo fd (take pack_size buffer) pack_size)) fd
                                (drop pack_size buffer)) (\<lambda>q. Inr (Some q, More))))))"

text \<open>The socket messages that \<open>lfilter\<close> takes, with the fields it reads.\<close>

datatype socket_message =
    Sock_data int bytes
  | Sock_connect
  | Sock_close int
  | Sock_accept int int bytes
  | Sock_error int bytes
  | Sock_warning int int

definition lfilter :: "queue option \<Rightarrow> socket_message \<Rightarrow> (queue option \<times> filter_result) res" where
  "lfilter qo msg =
     (case msg of
        Sock_data fd buffer \<Rightarrow> filter_data qo fd buffer
      | Sock_connect \<Rightarrow> Inr (qo, Wait)
      | Sock_close fd \<Rightarrow> Inr (close_uncomplete qo fd, Closed fd)
      | Sock_accept listen_fd fd text \<Rightarrow> Inr (qo, Open fd text)
      | Sock_error fd text \<Rightarrow> Inr (close_uncomplete qo fd, Socket_error fd text)
      | Sock_warning fd ud \<Rightarrow> Inr (qo, Warning fd ud))"

text \<open>\<open>lpack\<close> puts the length in front of a string and refuses one that does not fit 16 bits.\<close>

definition lpack :: "bytes \<Rightarrow> bytes res" where
  "lpack data =
     (let len = length data in
      if 0x10000 \<le> len then Inl (Lua_error ''Invalid size (too long) of data : %d'')
      else Inr ([ucast (drop_bit 8 (of_nat len :: u32) AND 0xff), ucast ((of_nat len :: u32) AND 0xff)] @ data))"

section \<open>Specification: splitting a whole stream\<close>

text \<open>\<open>parse s\<close> gives the complete packages at the front of \<open>s\<close> and the rest, which is incomplete.\<close>

function parse :: "bytes \<Rightarrow> bytes list \<times> bytes" where
  "parse s =
     (if length s < 2 then ([], s)
      else
        (let n = unat (of_be (take 2 s) :: u16) in
         if length s < n + 2 then ([], s)
         else (let (ps, r) = parse (drop (n + 2) s) in (take n (drop 2 s) # ps, r))))"
  by pat_completeness auto
termination
  by (relation "measure length") auto

declare parse.simps [simp del]

lemma parse_short [simp]: "length s < 2 \<Longrightarrow> parse s = ([], s)"
  by (simp add: parse.simps)

lemma parse_step:
  "2 \<le> length s \<Longrightarrow> n = unat (of_be (take 2 s) :: u16) \<Longrightarrow>
     parse s = (if length s < n + 2 then ([], s)
                else (take n (drop 2 s) # fst (parse (drop (n + 2) s)), snd (parse (drop (n + 2) s))))"
  by (subst parse.simps) (simp add: Let_def case_prod_unfold)

lemma parse_append:
  "parse (a @ b) = (fst (parse a) @ fst (parse (snd (parse a) @ b)), snd (parse (snd (parse a) @ b)))"
proof (induction a rule: parse.induct)
  case (1 s)
  let ?n = "unat (of_be (take 2 s) :: u16)"
  show ?case
  proof (cases "length s < 2 \<or> length s < ?n + 2")
    case True
    then have "parse s = ([], s)" using parse_step [of s ?n] by (cases "length s < 2") auto
    then show ?thesis by simp
  next
    case False
    then have len: "\<not> length s < 2" "\<not> length s < ?n + 2" by simp_all
    have "parse s = (take ?n (drop 2 s) # fst (parse (drop (?n + 2) s)), snd (parse (drop (?n + 2) s)))"
      using len parse_step [of s ?n] by simp
    moreover have "parse (s @ b) = (take ?n (drop 2 s) # fst (parse (drop (?n + 2) s @ b)),
        snd (parse (drop (?n + 2) s @ b)))"
      using len parse_step [of "s @ b" ?n] by simp
    ultimately show ?thesis using 1 [OF len(1) refl len(2)] by simp
  qed
qed

lemma parse_residue: "parse (snd (parse s)) = ([], snd (parse s))"
  using parse_append [of s "[]"] by (simp add: prod_eq_iff)

lemma parse_frame:
  assumes "length p < 0x10000"
  shows "parse (frame p @ s) = (p # fst (parse s), snd (parse s))"
proof -
  have n: "length p = unat (of_be (take 2 (frame p @ s)) :: u16)"
    using assms by (simp add: frame_def take_append_exact unat_of_nat_small)
  have two: "2 \<le> length (frame p @ s)" by (simp add: frame_def)
  have "\<not> length (frame p @ s) < length p + 2" "take (length p) (drop 2 (frame p @ s)) = p"
    "drop (length p + 2) (frame p @ s) = s"
    by (simp_all add: frame_def)
  then show ?thesis
    using parse_step [OF two n] by (simp only: if_False)
qed

lemma parse_frames:
  "\<forall>p \<in> set ps. length p < 0x10000 \<Longrightarrow> parse (concat (map frame ps)) = (ps, [])"
  by (induction ps) (simp_all add: parse_frame)

lemma read_size_eq:
  assumes "2 \<le> length s"
  shows "read_size s = Inr (unat (of_be (take 2 s) :: u16))"
proof -
  obtain x y zs where s: "s = x # y # zs"
    using assms by (auto simp: Suc_le_length_iff numeral_2_eq_2)
  have "(push_bit 8 (ucast x) OR ucast y :: u32) = ucast (of_be [x, y] :: u16)"
    by (rule bit_word_eqI) (auto simp: of_be_def bit_simps dest: bit_imp_le_length)
  then have "unat (push_bit 8 (ucast x) OR ucast y :: u32) = unat (of_be [x, y] :: u16)"
    using unat_lt [of "of_be [x, y] :: u16"] by (simp add: unat_ucast_small)
  moreover have "take 2 s = [x, y]"
    by (simp add: s numeral_2_eq_2)
  ultimately show ?thesis
    by (simp add: read_size_def s)
qed
lemma read_size_short: "length s < 2 \<Longrightarrow> read_size s = Inl Out_of_bounds"
  by (simp add: read_size_def mem_read_def)

section \<open>The waiting packages are a queue\<close>

definition queued :: "queue \<Rightarrow> netpack list" where
  "queued q = ring_list (q_head q) (q_tail q) (q_queue q)"

definition ring_ok :: "queue \<Rightarrow> bool" where
  "ring_ok q = (q_head q < length (q_queue q) \<and> q_tail q < length (q_queue q))"

definition put :: "netpack \<Rightarrow> queue \<Rightarrow> queue" where
  "put np q = push_data (Some q) (np_id np) (np_buffer np) (np_size np)"

lemma np_expand_pending:
  assumes "q_head q < length (q_queue q)"
  shows "queued (np_expand_queue q) = unroll (q_head q) (q_queue q) \<and> ring_ok (np_expand_queue q)
    \<and> q_hash (np_expand_queue q) = q_hash q"
  using assms
  by (simp add: queued_def np_expand_queue_def Let_def ring_list_def unroll_def ring_ok_def QUEUESIZE_def)

lemma put_spec:
  assumes "ring_ok q"
  shows "ring_ok (put np q) \<and> queued (put np q) = queued q @ [np] \<and> q_hash (put np q) = q_hash q"
proof -
  let ?cap = "length (q_queue q)"
  define q1 where "q1 = q\<lparr>q_queue := (q_queue q)[q_tail q := np], q_tail := next_index ?cap (q_tail q)\<rparr>"
  have np: "\<lparr>np_id = np_id np, np_buffer = np_buffer np, np_size = np_size np\<rparr> = np" by simp
  have idx: "(if ?cap \<le> q_tail q + 1 then q_tail q + 1 - ?cap else q_tail q + 1) = next_index ?cap (q_tail q)"
    using assms by (auto simp: next_index_def ring_ok_def)
  have put: "put np q = (if q_head q1 = q_tail q1 then np_expand_queue q1 else q1)"
    unfolding put_def push_data_def get_queue_def Let_def option.case
    unfolding np idx
    unfolding q1_def [symmetric] by (rule refl)
  have h: "q_head q < ?cap" "q_tail q < ?cap" using assms by (simp_all add: ring_ok_def)
  have q1: "q_head q1 = q_head q" "q_tail q1 = next_index ?cap (q_tail q)" "q_hash q1 = q_hash q"
    "q_queue q1 = (q_queue q)[q_tail q := np]"
    by (simp_all add: q1_def)
  show ?thesis
  proof (cases "q_head q1 = q_tail q1")
    case True
    then have "next_index ?cap (q_tail q) = q_head q" using q1 by simp
    then have "unroll (q_head q1) (q_queue q1) = queued q @ [np]"
      unfolding q1 queued_def by (rule ring_push_full [OF h])
    moreover have "q_head q1 < length (q_queue q1)" unfolding q1 using h by simp
    ultimately show ?thesis
      unfolding put using True np_expand_pending [of q1] q1(3) by simp
  next
    case False
    then have "next_index ?cap (q_tail q) \<noteq> q_head q" using q1 by simp
    then have "queued q1 = queued q @ [np]"
      unfolding q1 queued_def by (rule ring_push [OF h])
    moreover have "ring_ok q1" unfolding ring_ok_def q1 using h by (simp add: next_index_less)
    ultimately show ?thesis
      unfolding put using False q1(3) by simp
  qed
qed

lemma lpop_spec:
  assumes "ring_ok q"
  shows "(lpop (Some q) = None \<longleftrightarrow> queued q = []) \<and>
    (\<forall>np q'. lpop (Some q) = Some (np, q') \<longrightarrow> ring_ok q' \<and> queued q = np # queued q' \<and> q_hash q' = q_hash q)"
proof (cases "q_head q = q_tail q")
  case True
  then show ?thesis by (simp add: lpop_def queued_def)
next
  case False
  then have "queued q = q_queue q ! q_head q # ring_list (next_index (length (q_queue q)) (q_head q)) (q_tail q) (q_queue q)"
    using ring_pop [of "q_head q" "q_queue q" "q_tail q"] assms by (simp add: queued_def ring_ok_def)
  with False assms show ?thesis
    by (auto simp: lpop_def queued_def ring_ok_def next_index_def)
qed

interpretation np_fifo: fifo ring_ok queued put "\<lambda>q. lpop (Some q)"
  by unfold_locales (use put_spec lpop_spec in blast)+

section \<open>What a connection has sent and not yet completed\<close>

definition residue_of :: "uncomplete \<Rightarrow> bytes" where
  "residue_of uc =
     (if up_read uc < 0 then [up_header uc] else be16 (of_nat (up_size uc)) @ up_buffer uc)"

definition uc_ok :: "uncomplete \<Rightarrow> bool" where
  "uc_ok uc =
     (up_read uc = - 1 \<or>
      up_read uc = int (length (up_buffer uc)) \<and> length (up_buffer uc) < up_size uc \<and> up_size uc < 0x10000)"

definition residue :: "queue option \<Rightarrow> int \<Rightarrow> bytes" where
  "residue qo fd =
     (case qo of None \<Rightarrow> []
      | Some q \<Rightarrow> (case unlink fd (q_hash q (hash_fd fd)) of None \<Rightarrow> [] | Some (uc, _) \<Rightarrow> residue_of uc))"

text \<open>
  The invariant: the ring indices are in range, every record is in the chain of its connection, no
  connection has two records, and every record waits for at least one more byte.
\<close>

definition chain_ok :: "nat \<Rightarrow> uncomplete list \<Rightarrow> bool" where
  "chain_ok h ucs =
     ((\<forall>uc \<in> set ucs. uc_ok uc \<and> hash_fd (up_id uc) = h) \<and> distinct (map up_id ucs))"

definition np_inv :: "queue option \<Rightarrow> bool" where
  "np_inv qo = (case qo of None \<Rightarrow> True | Some q \<Rightarrow> ring_ok q \<and> (\<forall>h. chain_ok h (q_hash q h)))"

definition waiting :: "queue option \<Rightarrow> netpack list" where
  "waiting qo = (case qo of None \<Rightarrow> [] | Some q \<Rightarrow> queued q)"

lemma unlink_None: "unlink fd ucs = None \<longleftrightarrow> fd \<notin> set (map up_id ucs)"
  by (induction ucs) (auto split: option.splits)

lemma unlink_Some:
  "unlink fd ucs = Some (uc, rest) \<Longrightarrow> up_id uc = fd \<and> set ucs = insert uc (set rest) \<and>
     (distinct (map up_id ucs) \<longrightarrow> distinct (map up_id rest) \<and> fd \<notin> set (map up_id rest))"
proof (induction ucs arbitrary: rest)
  case Nil
  then show ?case by simp
next
  case (Cons u us)
  show ?case
  proof (cases "up_id u = fd")
    case True
    with Cons.prems show ?thesis by auto
  next
    case False
    with Cons.prems obtain rest' where "unlink fd us = Some (uc, rest')" "rest = u # rest'"
      by (auto split: option.splits)
    with Cons.IH [of rest'] False show ?thesis by auto
  qed
qed

lemma unlink_other:
  "fd' \<noteq> fd \<Longrightarrow> unlink fd ucs = Some (uc, rest) \<Longrightarrow>
     map_option fst (unlink fd' rest) = map_option fst (unlink fd' ucs)"
proof (induction ucs arbitrary: rest)
  case Nil
  then show ?case by simp
next
  case (Cons u us)
  show ?case
  proof (cases "up_id u = fd")
    case True
    with Cons.prems show ?thesis by (auto split: option.splits)
  next
    case False
    with Cons.prems obtain rest' where "unlink fd us = Some (uc, rest')" "rest = u # rest'"
      by (auto split: option.splits)
    with Cons.IH [of rest'] Cons.prems(1) show ?thesis by (auto split: option.splits)
  qed
qed

lemma residue_alt:
  "residue (Some q) fd = (case map_option fst (unlink fd (q_hash q (hash_fd fd))) of
     None \<Rightarrow> [] | Some uc \<Rightarrow> residue_of uc)"
  by (simp add: residue_def split: option.splits)

lemma residue_hash_cong: "q_hash q = q_hash q' \<Longrightarrow> residue (Some q) = residue (Some q')"
  by (rule ext) (simp add: residue_def)

lemma get_queue_spec:
  assumes "np_inv qo"
  shows "np_inv (Some (get_queue qo)) \<and> residue (Some (get_queue qo)) = residue qo \<and>
    queued (get_queue qo) = waiting qo"
  using assms
  by (cases qo) (auto simp: get_queue_def np_inv_def residue_def waiting_def queued_def ring_ok_def
      chain_ok_def QUEUESIZE_def)

lemma push_data_spec:
  assumes "np_inv qo"
  shows "np_inv (Some (push_data qo fd b n)) \<and> residue (Some (push_data qo fd b n)) = residue qo \<and>
    queued (push_data qo fd b n) = waiting qo @ [\<lparr>np_id = fd, np_buffer = b, np_size = n\<rparr>]"
proof -
  let ?np = "\<lparr>np_id = fd, np_buffer = b, np_size = n\<rparr>" and ?q = "get_queue qo"
  have p: "push_data qo fd b n = put ?np ?q"
    by (simp add: put_def push_data_def get_queue_def)
  have g: "np_inv (Some ?q)" "residue (Some ?q) = residue qo" "queued ?q = waiting qo"
    using get_queue_spec [OF assms] by simp_all
  then have "ring_ok ?q" by (simp add: np_inv_def)
  note s = put_spec [OF this, of ?np]
  then have "residue (Some (put ?np ?q)) = residue (Some ?q)"
    by (intro residue_hash_cong) simp
  with s g p show ?thesis by (auto simp: np_inv_def)
qed

lemma save_uncomplete_spec:
  assumes "np_inv qo" "residue qo fd = []" "uc_ok uc"
  shows "np_inv (Some (save_uncomplete qo fd uc)) \<and>
    residue (Some (save_uncomplete qo fd uc)) = (residue qo)(fd := residue_of uc) \<and>
    queued (save_uncomplete qo fd uc) = waiting qo"
proof -
  let ?q = "get_queue qo" and ?uc = "uc\<lparr>up_id := fd\<rparr>"
  have g: "np_inv (Some ?q)" "residue (Some ?q) = residue qo" "queued ?q = waiting qo"
    using get_queue_spec [OF assms(1)] by simp_all
  have "residue (Some ?q) fd = []" using assms(2) g(2) by simp
  then have fresh: "fd \<notin> set (map up_id (q_hash ?q (hash_fd fd)))"
    unfolding unlink_None [symmetric] residue_alt
    by (cases "unlink fd (q_hash ?q (hash_fd fd))") (simp_all add: residue_of_def split: if_splits)
  have ok: "uc_ok ?uc" "residue_of ?uc = residue_of uc"
    using assms(3) by (simp_all add: uc_ok_def residue_of_def)
  have inv: "np_inv (Some (save_uncomplete qo fd uc))"
    using g(1) fresh ok by (auto simp: np_inv_def save_uncomplete_def Let_def ring_ok_def chain_ok_def)
  have "residue (Some (save_uncomplete qo fd uc)) fd' = ((residue qo)(fd := residue_of uc)) fd'" for fd'
    using ok g(2) [symmetric]
    by (auto simp: residue_alt save_uncomplete_def Let_def split: option.splits)
  then have "residue (Some (save_uncomplete qo fd uc)) = (residue qo)(fd := residue_of uc)" by blast
  moreover have "queued (save_uncomplete qo fd uc) = waiting qo"
    using g(3) by (simp add: save_uncomplete_def Let_def queued_def)
  ultimately show ?thesis using inv by simp
qed

lemma find_uncomplete_None:
  assumes "find_uncomplete qo fd = (qo', None)"
  shows "qo' = qo \<and> residue qo fd = []"
  using assms by (cases qo) (auto simp: find_uncomplete_def residue_def Let_def split: option.splits)

lemma find_uncomplete_Some:
  assumes "np_inv qo" "find_uncomplete qo fd = (qo', Some uc)"
  shows "np_inv qo' \<and> qo' \<noteq> None \<and> residue qo' = (residue qo)(fd := []) \<and> waiting qo' = waiting qo \<and>
    uc_ok uc \<and> up_id uc = fd \<and> residue_of uc = residue qo fd"
proof -
  obtain q where q: "qo = Some q" using assms(2) by (cases qo) (auto simp: find_uncomplete_def)
  let ?h = "hash_fd fd"
  obtain rest where u: "unlink fd (q_hash q ?h) = Some (uc, rest)"
    and qo': "qo' = Some (q\<lparr>q_hash := (q_hash q)(?h := rest)\<rparr>)"
    using assms(2) q by (auto simp: find_uncomplete_def Let_def split: option.splits)
  note s = unlink_Some [OF u]
  have c: "chain_ok h (q_hash q h)" "ring_ok q" for h using assms(1) q by (simp_all add: np_inv_def)
  have rest: "chain_ok ?h rest" "fd \<notin> set (map up_id rest)" "uc_ok uc" "up_id uc = fd"
    using s c(1) [of ?h] by (auto simp: chain_ok_def)
  have inv: "np_inv qo'" using rest(1) c by (simp add: np_inv_def qo' ring_ok_def)
  have "unlink fd rest = None" using rest(2) by (simp add: unlink_None)
  then have "residue qo' fd' = ((residue qo)(fd := [])) fd'" for fd'
    using unlink_other [OF _ u, of fd']
    by (cases "unlink fd' rest"; cases "unlink fd' (q_hash q (hash_fd fd))") (auto simp: qo' q residue_alt)
  then have "residue qo' = (residue qo)(fd := [])" by blast
  moreover have "residue_of uc = residue qo fd" using u by (simp add: q residue_def)
  moreover have "waiting qo' = waiting qo" by (simp add: qo' q waiting_def queued_def)
  ultimately show ?thesis using inv rest qo' by simp
qed

section \<open>The chunks of a connection are split as the stream\<close>

definition packs :: "int \<Rightarrow> bytes list \<Rightarrow> netpack list" where
  "packs fd ps = map (\<lambda>p. \<lparr>np_id = fd, np_buffer = p, np_size = length p\<rparr>) ps"

lemma packs_simps [simp]:
  "packs fd [] = []" "packs fd (p # ps) = \<lparr>np_id = fd, np_buffer = p, np_size = length p\<rparr> # packs fd ps"
  "packs fd (ps @ qs) = packs fd ps @ packs fd qs"
  by (simp_all add: packs_def)

lemma be16_of_be: "length b = 2 \<Longrightarrow> be16 (of_be b) = b"
proof -
  assume "length b = 2"
  then obtain x y where b: "b = [x, y]" by (auto simp: numeral_2_eq_2 length_Suc_conv)
  have "byte_at (of_be [x, y] :: u16) 1 = x" "byte_at (of_be [x, y] :: u16) 0 = y"
    by (rule bit_word_eqI; auto simp: of_be_def bit_simps dest: bit_imp_le_length)+
  then show ?thesis by (simp add: b be16_def)
qed

lemma size_bound: "unat (of_be b :: u16) < 0x10000"
  using unat_lt [of "of_be b :: u16"] by simp

text \<open>The record that keeps the start of a package stands for exactly the bytes received.\<close>

lemma start_record_short:
  assumes "length s = 1"
  shows "uc_ok (new_uncomplete\<lparr>up_read := - 1, up_header := s ! 0\<rparr>) \<and>
    residue_of (new_uncomplete\<lparr>up_read := - 1, up_header := s ! 0\<rparr>) = s"
  using assms by (auto simp: uc_ok_def residue_of_def length_Suc_conv)

lemma start_record_long:
  assumes "2 \<le> length s" "n = unat (of_be (take 2 s) :: u16)" "length (drop 2 s) < n"
  shows "uc_ok (new_uncomplete\<lparr>up_read := int (length (drop 2 s)), up_size := n, up_buffer := drop 2 s\<rparr>) \<and>
    residue_of (new_uncomplete\<lparr>up_read := int (length (drop 2 s)), up_size := n, up_buffer := drop 2 s\<rparr>) = s"
proof -
  have "be16 (of_nat (unat (of_be (take 2 s) :: u16))) = take 2 s"
    using assms(1) be16_of_be [of "take 2 s"] by simp
  then show ?thesis
    using assms size_bound [of "take 2 s"] by (simp add: uc_ok_def residue_of_def del: of_nat_unat)
qed

lemma push_more_spec:
  assumes "np_inv qo" "residue qo fd = []" "buffer \<noteq> []"
  shows "\<exists>q. push_more qo fd buffer = Inr q \<and> np_inv (Some q) \<and>
    residue (Some q) = (residue qo)(fd := snd (parse buffer)) \<and>
    queued q = waiting qo @ packs fd (fst (parse buffer))"
  using assms
proof (induction "length buffer" arbitrary: qo buffer rule: less_induct)
  case (less buffer)
  let ?n = "unat (of_be (take 2 buffer) :: u16)"
  show ?case
  proof (cases "length buffer = 1")
    case True
    let ?uc = "new_uncomplete\<lparr>up_read := - 1, up_header := buffer ! 0\<rparr>"
    have "push_more qo fd buffer = Inr (save_uncomplete qo fd ?uc)"
      using True by (simp add: push_more.simps)
    then show ?thesis
      using save_uncomplete_spec [OF less.prems(1,2), of ?uc] start_record_short [OF True] True by simp
  next
    case False
    then have two: "2 \<le> length buffer" using less.prems(3) by (cases buffer) (auto simp: Suc_le_eq)
    note step = parse_step [OF two refl] and rs = read_size_eq [OF two]
    show ?thesis
    proof (cases "length (drop 2 buffer) < ?n")
      case True
      let ?uc = "new_uncomplete\<lparr>up_read := int (length (drop 2 buffer)), up_size := ?n, up_buffer := drop 2 buffer\<rparr>"
      have "push_more qo fd buffer = Inr (save_uncomplete qo fd ?uc)"
        using True False rs by (simp add: push_more.simps Let_def)
      moreover have "parse buffer = ([], buffer)" using True step two by simp
      ultimately show ?thesis
        using save_uncomplete_spec [OF less.prems(1,2), of ?uc] start_record_long [OF two refl True]
        by simp
    next
      case enough: False
      let ?p = "take ?n (drop 2 buffer)" and ?rest = "drop (?n + 2) buffer"
      let ?q = "push_data qo fd ?p ?n"
      have len: "length ?p = ?n" using enough by simp
      note pd = push_data_spec [OF less.prems(1), of fd ?p ?n]
      have pm: "push_more qo fd buffer = (if ?rest = [] then Inr ?q else push_more (Some ?q) fd ?rest)"
        using False enough rs by (simp add: push_more.simps [of qo fd buffer] Let_def add.commute)
      have parse: "parse buffer = (?p # fst (parse ?rest), snd (parse ?rest))"
        using step enough two by simp
      show ?thesis
      proof (cases "?rest = []")
        case True
        then show ?thesis using pd pm parse len less.prems(2) by (auto simp: fun_upd_idem)
      next
        case False
        have "length ?rest < length buffer" using two by simp
        from less.hyps [OF this _ _ False, of "Some ?q"] pd less.prems(2)
        obtain q where "push_more (Some ?q) fd ?rest = Inr q" "np_inv (Some q)"
          "residue (Some q) = (residue qo)(fd := snd (parse ?rest))"
          "queued q = queued ?q @ packs fd (fst (parse ?rest))"
          by (auto simp: waiting_def)
        then show ?thesis using pd pm parse len False by simp
      qed
    qed
  qed
qed

text \<open>
  What one call promises: from the bytes that the connection had left and the new chunk, the
  packages \<open>ps\<close> and the residue \<open>r\<close> of the whole; one package with nothing behind it is returned at
  once, otherwise the packages wait in the queue and the caller is told so.
\<close>

definition split_outcome :: "queue option \<Rightarrow> int \<Rightarrow> bytes list \<times> bytes \<Rightarrow> queue option \<Rightarrow> filter_result \<Rightarrow> bool" where
  "split_outcome qo fd pr qo' res =
     (np_inv qo' \<and> residue qo' = (residue qo)(fd := snd pr) \<and>
      (if fst pr = [] then res = Wait \<and> waiting qo' = waiting qo
       else if length (fst pr) = 1 \<and> snd pr = []
       then res = Data fd (hd (fst pr)) (length (hd (fst pr))) \<and> waiting qo' = waiting qo
       else res = More \<and> waiting qo' = waiting qo @ packs fd (fst pr)))"

lemma deliver_spec:
  assumes "np_inv qo" "residue qo fd = []" "n = length p"
    and res: "res = (if rest = [] then Inr (qo, Data fd p n)
                     else bind_r (push_more (Some (push_data qo fd p n)) fd rest) (\<lambda>q. Inr (Some q, More)))"
  shows "\<exists>qo' r. res = Inr (qo', r) \<and> split_outcome qo fd (p # fst (parse rest), snd (parse rest)) qo' r"
proof (cases "rest = []")
  case True
  then show ?thesis using assms by (auto simp: split_outcome_def fun_upd_idem)
next
  case False
  note pd = push_data_spec [OF assms(1), of fd p n]
  obtain q where q: "push_more (Some (push_data qo fd p n)) fd rest = Inr q" "np_inv (Some q)"
    "residue (Some q) = (residue qo)(fd := snd (parse rest))"
    "queued q = waiting qo @ packs fd (p # fst (parse rest))"
    using push_more_spec [of "Some (push_data qo fd p n)" fd rest] pd assms(2,3) False
    by (auto simp: waiting_def)
  have "fst (parse rest) \<noteq> [] \<or> snd (parse rest) \<noteq> []"
  proof (cases "parse rest = ([], rest)")
    case True
    with False show ?thesis by simp
  next
    case other: False
    then have "\<not> length rest < 2" by (auto simp: parse_short)
    then have "parse rest = ([], rest) \<or> fst (parse rest) \<noteq> []" using parse_step [of rest] by auto
    with other show ?thesis by simp
  qed
  with q False res have "res = Inr (Some q, More) \<and> split_outcome qo fd (p # fst (parse rest), snd (parse rest)) (Some q) More"
    by (auto simp: split_outcome_def waiting_def)
  then show ?thesis by blast
qed

lemma filter_data_fresh:
  assumes "np_inv qo" "find_uncomplete qo fd = (qo', None)" "buffer \<noteq> []"
  shows "\<exists>qo'' r. filter_data qo fd buffer = Inr (qo'', r) \<and> split_outcome qo fd (parse buffer) qo'' r"
proof -
  have f: "qo' = qo" "residue qo fd = []" using find_uncomplete_None [OF assms(2)] by simp_all
  let ?n = "unat (of_be (take 2 buffer) :: u16)"
  show ?thesis
  proof (cases "length buffer = 1")
    case True
    let ?uc = "new_uncomplete\<lparr>up_read := - 1, up_header := buffer ! 0\<rparr>"
    have "filter_data qo fd buffer = Inr (Some (save_uncomplete qo fd ?uc), Wait)"
      using True assms(2) f by (simp add: filter_data_def)
    moreover have "split_outcome qo fd (parse buffer) (Some (save_uncomplete qo fd ?uc)) Wait"
      using save_uncomplete_spec [OF assms(1) f(2), of ?uc] start_record_short [OF True] True
      by (simp add: split_outcome_def waiting_def)
    ultimately show ?thesis by blast
  next
    case False
    then have two: "2 \<le> length buffer" using assms(3) by (cases buffer) (auto simp: Suc_le_eq)
    note step = parse_step [OF two refl] and rs = read_size_eq [OF two]
    show ?thesis
    proof (cases "length (drop 2 buffer) < ?n")
      case True
      let ?uc = "new_uncomplete\<lparr>up_read := int (length (drop 2 buffer)), up_size := ?n, up_buffer := drop 2 buffer\<rparr>"
      have "filter_data qo fd buffer = Inr (Some (save_uncomplete qo fd ?uc), Wait)"
        using True False rs assms(2) f by (simp add: filter_data_def Let_def)
      moreover have "parse buffer = ([], buffer)" using True step two by simp
      then have "split_outcome qo fd (parse buffer) (Some (save_uncomplete qo fd ?uc)) Wait"
        using save_uncomplete_spec [OF assms(1) f(2), of ?uc] start_record_long [OF two refl True]
        by (simp add: split_outcome_def waiting_def)
      ultimately show ?thesis by blast
    next
      case enough: False
      let ?p = "take ?n (drop 2 buffer)" and ?rest = "drop (?n + 2) buffer"
      have len: "?n = length ?p" using enough by simp
      have "parse buffer = (?p # fst (parse ?rest), snd (parse ?rest))"
        using step enough two by simp
      moreover have "filter_data qo fd buffer = (if ?rest = [] then Inr (qo, Data fd ?p ?n)
          else bind_r (push_more (Some (push_data qo fd ?p ?n)) fd ?rest) (\<lambda>q. Inr (Some q, More)))"
        using False enough rs assms(2) f by (auto simp: filter_data_def Let_def add.commute)
      ultimately show ?thesis
        using deliver_spec [OF assms(1) f(2) len, of _ ?rest] by simp
    qed
  qed
qed

lemma parse_sized:
  assumes "n < 0x10000"
  shows "parse (be16 (of_nat n) @ t) =
    (if length t < n then ([], be16 (of_nat n) @ t)
     else (take n t # fst (parse (drop n t)), snd (parse (drop n t))))"
proof -
  have "n = unat (of_be (take 2 (be16 (of_nat n) @ t)) :: u16)"
    using assms by (simp add: take_append_exact unat_of_nat_small)
  note step = parse_step [OF _ this]
  have d: "drop 2 (be16 (of_nat n) @ t) = t" "drop (n + 2) (be16 (of_nat n) @ t) = drop n t"
    by (simp_all add: drop_append_exact)
  show ?thesis by (subst step) (simp_all only: d length_append length_layouts if_False, simp_all)
qed

lemma continue_spec:
  assumes "np_inv (Some q)" "residue (Some q) fd = []" "up_id uc = fd"
    and len: "up_read uc = int (length (up_buffer uc))" "length (up_buffer uc) \<le> up_size uc" "up_size uc < 0x10000"
    and res: "res = (let need = up_size uc - nat (up_read uc) in
       if length buffer < need then
         (let uc = uc\<lparr>up_buffer := up_buffer uc @ buffer, up_read := up_read uc + int (length buffer)\<rparr>;
              h = hash_fd fd
          in Inr (map_option (\<lambda>q. q\<lparr>q_hash := (q_hash q)(h := uc # q_hash q h)\<rparr>) (Some q), Wait))
       else
         (let pack = up_buffer uc @ take need buffer;
              buffer = drop need buffer
          in if length buffer = 0 then Inr (Some q, Data fd pack (up_size uc))
             else bind_r (push_more (Some (push_data (Some q) fd pack (up_size uc))) fd buffer) (\<lambda>q.
                    Inr (Some q, More))))"
  shows "\<exists>qo' r. res = Inr (qo', r) \<and>
    split_outcome (Some q) fd (parse (be16 (of_nat (up_size uc)) @ up_buffer uc @ buffer)) qo' r"
proof (cases "length (up_buffer uc @ buffer) < up_size uc")
  case True
  let ?uc = "uc\<lparr>up_buffer := up_buffer uc @ buffer, up_read := up_read uc + int (length buffer)\<rparr>"
  have "res = Inr (Some (save_uncomplete (Some q) fd ?uc), Wait)"
    using True len res assms(3) by (auto simp: Let_def save_uncomplete_def get_queue_def)
  moreover have "uc_ok ?uc" "residue_of ?uc = be16 (of_nat (up_size uc)) @ up_buffer uc @ buffer"
    using True len by (simp_all add: uc_ok_def residue_of_def)
  then have "split_outcome (Some q) fd (parse (be16 (of_nat (up_size uc)) @ up_buffer uc @ buffer))
      (Some (save_uncomplete (Some q) fd ?uc)) Wait"
    using save_uncomplete_spec [OF assms(1,2), of ?uc] True parse_sized [OF len(3)]
    by (simp add: split_outcome_def waiting_def)
  ultimately show ?thesis by blast
next
  case False
  let ?need = "up_size uc - length (up_buffer uc)"
  let ?p = "up_buffer uc @ take ?need buffer" and ?rest = "drop ?need buffer"
  have n: "up_size uc = length ?p" using False len by simp
  have "parse (be16 (of_nat (up_size uc)) @ up_buffer uc @ buffer) = (?p # fst (parse ?rest), snd (parse ?rest))"
    using False len by (simp add: parse_sized)
  moreover have "res = (if ?rest = [] then Inr (Some q, Data fd ?p (up_size uc))
      else bind_r (push_more (Some (push_data (Some q) fd ?p (up_size uc))) fd ?rest) (\<lambda>q. Inr (Some q, More)))"
    using False len res by (auto simp: Let_def)
  ultimately show ?thesis using deliver_spec [OF assms(1,2) n, of res ?rest] by simp
qed

lemma header_size:
  "unat (ucast b OR push_bit 8 (ucast h) :: u32) = unat (of_be [h, b] :: u16) \<and>
   be16 (of_nat (unat (ucast (b :: byte) OR push_bit 8 (ucast (h :: byte)) :: u32))) = [h, b]"
proof -
  have e: "unat (ucast b OR push_bit 8 (ucast h) :: u32) = unat (of_be [h, b] :: u16)"
    using read_size_eq [of "[h, b]"] by (simp add: read_size_def or.commute)
  show ?thesis unfolding e using be16_of_be [of "[h, b]"] by simp
qed

lemma split_outcome_from:
  assumes "split_outcome qo1 fd pr qo' r" "residue qo1 = (residue qo)(fd := s)" "waiting qo1 = waiting qo"
  shows "split_outcome qo fd pr qo' r"
  using assms by (simp add: split_outcome_def)

lemma filter_data_spec:
  assumes "np_inv qo" "buffer \<noteq> []"
  shows "\<exists>qo' r. filter_data qo fd buffer = Inr (qo', r) \<and> split_outcome qo fd (parse (residue qo fd @ buffer)) qo' r"
proof (cases "find_uncomplete qo fd")
  case (Pair qo1 ucs)
  show ?thesis
  proof (cases ucs)
    case None
    then show ?thesis
      using filter_data_fresh [OF assms(1) _ assms(2)] find_uncomplete_None [of qo fd qo1] Pair by simp
  next
    case (Some uc)
    with Pair have f: "find_uncomplete qo fd = (qo1, Some uc)" by simp
    note s = find_uncomplete_Some [OF assms(1) f]
    then obtain q where q: "qo1 = Some q" by auto
    have q1: "np_inv (Some q)" "residue (Some q) fd = []" "residue (Some q) = (residue qo)(fd := [])"
      "waiting (Some q) = waiting qo" "up_id uc = fd" "uc_ok uc" "residue_of uc = residue qo fd"
      using s q by simp_all
    show ?thesis
    proof (cases "up_read uc < 0")
      case True
      obtain b rest where b: "buffer = b # rest" using assms(2) by (cases buffer) auto
      define n where "n = unat (ucast b OR push_bit 8 (ucast (up_header uc)) :: u32)"
      have n: "n < 0x10000" "be16 (of_nat n) = [up_header uc, b]"
        unfolding n_def using header_size [of b "up_header uc"] size_bound [of "[up_header uc, b]"] by metis+
      let ?uc = "uc\<lparr>up_size := n, up_buffer := [], up_read := 0\<rparr>"
      have "up_id ?uc = fd" "up_read ?uc = int (length (up_buffer ?uc))" "length (up_buffer ?uc) \<le> up_size ?uc"
        "up_size ?uc < 0x10000"
        using q1 n by simp_all
      note c = continue_spec [OF q1(1,2) this, of "filter_data qo fd buffer" rest]
      have "up_read uc = - 1" using True q1(6) by (simp add: uc_ok_def)
      then have "\<exists>qo' r. filter_data qo fd buffer = Inr (qo', r) \<and>
          split_outcome (Some q) fd (parse (be16 (of_nat (up_size ?uc)) @ up_buffer ?uc @ rest)) qo' r"
        by (intro c) (simp add: filter_data_def f b q n_def Let_def)
      moreover have "be16 (of_nat (up_size ?uc)) @ up_buffer ?uc @ rest = residue qo fd @ buffer"
        using n True q1(7) [symmetric] b by (simp add: residue_of_def)
      ultimately show ?thesis using split_outcome_from [OF _ q1(3,4)] by metis
    next
      case False
      then have u: "up_read uc = int (length (up_buffer uc))" "length (up_buffer uc) \<le> up_size uc"
        "up_size uc < 0x10000" "be16 (of_nat (up_size uc)) @ up_buffer uc @ buffer = residue qo fd @ buffer"
        using q1(6,7) by (auto simp: uc_ok_def residue_of_def)
      note c = continue_spec [OF q1(1,2,5) u(1-3), of "filter_data qo fd buffer" buffer]
      have "\<exists>qo' r. filter_data qo fd buffer = Inr (qo', r) \<and>
          split_outcome (Some q) fd (parse (be16 (of_nat (up_size uc)) @ up_buffer uc @ buffer)) qo' r"
        by (rule c) (use False in \<open>simp add: filter_data_def f q\<close>)
      then show ?thesis using split_outcome_from [OF _ q1(3,4)] u(4) by metis
    qed
  qed
qed

section \<open>A whole stream\<close>

text \<open>
  What the splitter hands to the dispatch function of \<open>src/3rd/skynet/lualib/snax/gateserver.lua\<close> for one
  socket message: the package of \<open>Data\<close>, and on \<open>More\<close> everything that \<open>dispatch_queue\<close> pops until the
  queue is empty. A ring of \<open>cap\<close> places never holds \<open>cap\<close> packages, so \<open>cap\<close> pops empty it. Whether
  the connection is open is tested by the dispatch function itself: it is in the theory \<open>Gateserver\<close>.
\<close>

fun drain :: "nat \<Rightarrow> queue \<Rightarrow> netpack list \<times> queue" where
  "drain 0 q = ([], q)"
| "drain (Suc n) q =
     (case lpop (Some q) of
        None \<Rightarrow> ([], q)
      | Some (np, q') \<Rightarrow> (let (nps, q'') = drain n q' in (np # nps, q'')))"

definition split_step :: "queue option \<Rightarrow> socket_message \<Rightarrow> (queue option \<times> netpack list) res" where
  "split_step qo msg =
     bind_r (lfilter qo msg) (\<lambda>(qo', r).
       Inr (case r of
              Data fd p n \<Rightarrow> (qo', [\<lparr>np_id = fd, np_buffer = p, np_size = n\<rparr>])
            | More \<Rightarrow> (case qo' of None \<Rightarrow> (None, [])
                       | Some q \<Rightarrow> (let (nps, q') = drain (length (q_queue q)) q in (Some q', nps)))
            | _ \<Rightarrow> (qo', [])))"

fun split_run :: "queue option \<Rightarrow> socket_message list \<Rightarrow> (queue option \<times> netpack list) res" where
  "split_run qo [] = Inr (qo, [])"
| "split_run qo (m # ms) =
     bind_r (split_step qo m) (\<lambda>(qo', nps).
       bind_r (split_run qo' ms) (\<lambda>(qo'', nps'). Inr (qo'', nps @ nps')))"

text \<open>
  What the gate owes a connection: the packages of the bytes received, starting from the residue
  \<open>r\<close>; a close or an error forgets the residue.
\<close>

fun owed :: "int \<Rightarrow> bytes \<Rightarrow> socket_message list \<Rightarrow> bytes list \<times> bytes" where
  "owed fd r [] = ([], r)"
| "owed fd r (Sock_data fd' b # ms) =
     (if fd' = fd
      then (let (ps, r') = parse (r @ b); (qs, r'') = owed fd r' ms in (ps @ qs, r''))
      else owed fd r ms)"
| "owed fd r (Sock_close fd' # ms) = owed fd (if fd' = fd then [] else r) ms"
| "owed fd r (Sock_error fd' e # ms) = owed fd (if fd' = fd then [] else r) ms"
| "owed fd r (m # ms) = owed fd r ms"

text \<open>The socket layer never reports an empty read as data.\<close>

definition message_ok :: "socket_message \<Rightarrow> bool" where
  "message_ok m = (case m of Sock_data fd b \<Rightarrow> b \<noteq> [] | _ \<Rightarrow> True)"

definition received :: "int \<Rightarrow> netpack list \<Rightarrow> bytes list" where
  "received fd nps = map np_buffer (filter (\<lambda>np. np_id np = fd) nps)"

lemma received_simps [simp]:
  "received fd [] = []" "received fd (xs @ ys) = received fd xs @ received fd ys"
  "received fd (packs fd' ps) = (if fd' = fd then ps else [])"
  "received fd [\<lparr>np_id = fd', np_buffer = p, np_size = n\<rparr>] = (if fd' = fd then [p] else [])"
  by (induction ps) (simp_all add: received_def packs_def comp_def)

lemma packs_sizes: "np \<in> set (packs fd ps) \<Longrightarrow> np_size np = length (np_buffer np)"
  by (auto simp: packs_def)

lemma drain_pop_upto: "drain n q = np_fifo.pop_upto n q"
  by (induction n arbitrary: q) (auto split: option.splits prod.splits)

lemma drain_spec:
  assumes "np_inv (Some q)" "drain (length (q_queue q)) q = (nps, q')"
  shows "nps = queued q \<and> np_inv (Some q') \<and> queued q' = [] \<and> residue (Some q') = residue (Some q)"
proof -
  have r: "ring_ok q" using assms(1) by (simp add: np_inv_def)
  have "length (queued q) \<le> length (q_queue q)"
    using r by (auto simp: queued_def length_ring_list ring_ok_def)
  moreover have "drain n q = (nps, q') \<Longrightarrow> ring_ok q \<Longrightarrow> q_hash q' = q_hash q" for n q nps q'
  proof (induction n arbitrary: q nps)
    case 0
    then show ?case by simp
  next
    case (Suc n)
    show ?case
    proof (cases "lpop (Some q)")
      case None
      with Suc.prems show ?thesis by simp
    next
      case (Some x)
      obtain np q1 where l: "lpop (Some q) = Some (np, q1)" using Some by (cases x) auto
      then have "ring_ok q1" "q_hash q1 = q_hash q" using lpop_spec [OF Suc.prems(2)] by auto
      with Suc.IH [of q1] Suc.prems(1) l show ?thesis by (auto split: prod.splits)
    qed
  qed
  ultimately show ?thesis
    using np_fifo.pop_upto_spec [OF r, of "length (q_queue q)"] assms r
    by (auto simp: drain_pop_upto np_inv_def intro!: residue_hash_cong)
qed

lemma close_uncomplete_spec:
  assumes "np_inv qo"
  shows "np_inv (close_uncomplete qo fd) \<and> residue (close_uncomplete qo fd) = (residue qo)(fd := []) \<and>
    waiting (close_uncomplete qo fd) = waiting qo"
proof (cases "find_uncomplete qo fd")
  case (Pair qo' u)
  then show ?thesis
    using find_uncomplete_None [of qo fd qo'] find_uncomplete_Some [OF assms, of fd qo'] assms
    by (cases u) (auto simp: close_uncomplete_def fun_upd_idem)
qed

lemma split_step_spec:
  assumes "np_inv qo" "waiting qo = []" "message_ok m"
  shows "\<exists>qo' nps. split_step qo m = Inr (qo', nps) \<and> np_inv qo' \<and> waiting qo' = [] \<and>
    (\<forall>fd. owed fd (residue qo fd) [m] = (received fd nps, residue qo' fd)) \<and>
    (\<forall>np \<in> set nps. np_size np = length (np_buffer np))"
proof (cases m)
  case (Sock_data fd b)
  then obtain qo1 r where f: "filter_data qo fd b = Inr (qo1, r)"
    and o: "split_outcome qo fd (parse (residue qo fd @ b)) qo1 r"
    using filter_data_spec [OF assms(1), of b fd] assms(3) by (auto simp: message_ok_def)
  obtain ps rest where p: "parse (residue qo fd @ b) = (ps, rest)" by fastforce
  show ?thesis
  proof (cases "r = More")
    case True
    with o p assms(2) have w: "waiting qo1 = packs fd ps" "np_inv qo1" "ps \<noteq> []"
      by (auto simp: split_outcome_def split: if_splits)
    then obtain q where q: "qo1 = Some q" by (cases qo1) (auto simp: waiting_def packs_def)
    obtain nps q' where d: "drain (length (q_queue q)) q = (nps, q')" by fastforce
    note s = drain_spec [OF _ d]
    have "split_step qo m = Inr (Some q', nps)"
      using True f q d Sock_data by (simp add: split_step_def lfilter_def)
    then show ?thesis
      using s w q o p Sock_data
      by (auto simp: split_outcome_def waiting_def packs_sizes)
  next
    case False
    then show ?thesis
      using f o p Sock_data assms(2)
      by (auto simp: split_step_def lfilter_def split_outcome_def received_def length_Suc_conv split: if_splits)
  qed
next
  case (Sock_close fd)
  then show ?thesis
    using close_uncomplete_spec [OF assms(1), of fd] assms(2) by (auto simp: split_step_def lfilter_def)
next
  case (Sock_error fd e)
  then show ?thesis
    using close_uncomplete_spec [OF assms(1), of fd] assms(2) by (auto simp: split_step_def lfilter_def)
qed (use assms in \<open>auto simp: split_step_def lfilter_def\<close>)

lemma owed_Cons:
  "owed fd r (m # ms) =
     (fst (owed fd r [m]) @ fst (owed fd (snd (owed fd r [m])) ms), snd (owed fd (snd (owed fd r [m])) ms))"
  by (cases m) (auto simp: case_prod_unfold Let_def)

lemma split_run_spec:
  assumes "np_inv qo" "waiting qo = []" "\<forall>m \<in> set ms. message_ok m"
  shows "\<exists>qo' nps. split_run qo ms = Inr (qo', nps) \<and> np_inv qo' \<and> waiting qo' = [] \<and>
    (\<forall>fd. owed fd (residue qo fd) ms = (received fd nps, residue qo' fd))"
  using assms
proof (induction ms arbitrary: qo)
  case Nil
  then show ?case by simp
next
  case (Cons m ms)
  from Cons.prems obtain qo1 nps where one: "split_step qo m = Inr (qo1, nps)" "np_inv qo1" "waiting qo1 = []"
    "owed fd (residue qo fd) [m] = (received fd nps, residue qo1 fd)" for fd
    using split_step_spec [of qo m] by auto
  with Cons.IH [of qo1] Cons.prems(3) obtain qo2 nps' where two: "split_run qo1 ms = Inr (qo2, nps')"
    "np_inv qo2" "waiting qo2 = []" "owed fd (residue qo1 fd) ms = (received fd nps', residue qo2 fd)" for fd
    by auto
  have "owed fd (residue qo fd) (m # ms) = (received fd (nps @ nps'), residue qo2 fd)" for fd
    using owed_Cons [of fd "residue qo fd" m ms] one(4) two(4) by simp
  with one two show ?case by auto
qed

text \<open>The bytes of one connection, and its frames when nothing closes it.\<close>

definition sent :: "int \<Rightarrow> socket_message list \<Rightarrow> bytes" where
  "sent fd ms = concat (map (\<lambda>m. case m of Sock_data fd' b \<Rightarrow> if fd' = fd then b else [] | _ \<Rightarrow> []) ms)"

definition still_open :: "int \<Rightarrow> socket_message list \<Rightarrow> bool" where
  "still_open fd ms = (\<forall>m \<in> set ms. case m of Sock_close fd' \<Rightarrow> fd' \<noteq> fd | Sock_error fd' e \<Rightarrow> fd' \<noteq> fd | _ \<Rightarrow> True)"

lemma owed_sent:
  assumes "still_open fd ms" "parse r = ([], r)"
  shows "owed fd r ms = parse (r @ sent fd ms)"
  using assms
proof (induction ms arbitrary: r)
  case Nil
  then show ?case by (simp add: sent_def)
next
  case (Cons m ms)
  have o: "still_open fd ms" using Cons.prems(1) by (simp add: still_open_def)
  show ?case
  proof (cases m)
    case (Sock_data fd' b)
    then show ?thesis
      using Cons.IH [OF o, of "snd (parse (r @ b))"] Cons.IH [OF o Cons.prems(2)]
        parse_append [of "r @ b" "sent fd ms"]
      by (auto simp: sent_def parse_residue case_prod_unfold Let_def)
  qed (use Cons.IH [OF o Cons.prems(2)] Cons.prems(1) in \<open>auto simp: sent_def still_open_def\<close>)
qed

section \<open>Properties\<close>

text \<open>
  C21: One call of \<open>filter\<close> with a non-empty chunk, in any state that the operations can reach, never
  reads outside of the chunk or of a buffer, keeps the invariant, and does what splitting the whole
  stream would do: with \<open>ps\<close> the packages and \<open>r\<close> the rest of the connection's pending bytes followed
  by the chunk, the new pending bytes are \<open>r\<close>, no other connection is affected, and \<open>ps\<close> is either
  empty (\<open>Wait\<close>), handed out at once when it is one package and nothing is left (\<open>Data\<close>), or appended
  to the queue in order (\<open>More\<close>).
\<close>
theorem filter_splits_stream:
  assumes "np_inv qo" "chunk \<noteq> []"
  shows "\<exists>qo' res. lfilter qo (Sock_data fd chunk) = Inr (qo', res) \<and> np_inv qo' \<and>
    (let (ps, r) = parse (residue qo fd @ chunk) in
       residue qo' = (residue qo)(fd := r) \<and>
       (res, waiting qo') =
         (case ps of
            [] \<Rightarrow> (Wait, waiting qo)
          | p # ps' \<Rightarrow> (if ps' = [] \<and> r = [] then (Data fd p (length p), waiting qo)
                      else (More, waiting qo @ packs fd ps))))"
proof -
  obtain qo' r where "filter_data qo fd chunk = Inr (qo', r)"
    "split_outcome qo fd (parse (residue qo fd @ chunk)) qo' r"
    using filter_data_spec [OF assms] by blast
  then show ?thesis
    by (cases "fst (parse (residue qo fd @ chunk))")
       (auto simp: lfilter_def split_outcome_def case_prod_unfold Let_def split: if_splits)
qed

theorem filter_splits_stream_witness:
  "\<exists>qo' res. lfilter None (Sock_data 7 [0, 1, 65, 0, 2, 66]) = Inr (qo', res) \<and> np_inv qo' \<and>
    (let (ps, r) = parse (residue None 7 @ [0, 1, 65, 0, 2, 66]) in
       residue qo' = (residue None)(7 := r) \<and>
       (res, waiting qo') =
         (case ps of
            [] \<Rightarrow> (Wait, waiting None)
          | p # ps' \<Rightarrow> (if ps' = [] \<and> r = [] then (Data 7 p (length p), waiting None)
                      else (More, waiting None @ packs 7 ps))))"
  by (rule filter_splits_stream) (simp_all add: np_inv_def)

lemma push_all_fold: "np_fifo.push_all nps q = fold put nps q"
  by (induction nps arbitrary: q) simp_all

text \<open>
  The ring of complete packages is a first-in-first-out queue over any number of pushes,
  enlargements included: whatever sequence of packages is pushed on a new queue comes out of \<open>pop\<close>
  in the order it was pushed.
\<close>
theorem package_queue_fifo:
  "fst (drain (length nps) (fold put nps (get_queue None))) = nps"
proof -
  have "ring_ok (get_queue None)" "queued (get_queue None) = []"
    by (simp_all add: ring_ok_def get_queue_def QUEUESIZE_def queued_def)
  from np_fifo.fifo_order [OF this, of nps] show ?thesis
    by (simp only: drain_pop_upto push_all_fold)
qed

lemma lclear_spec:
  assumes "np_inv (Some q)" "lclear (Some q) = (qo', freed)"
  shows "residue qo' fd = [] \<and> waiting qo' = [] \<and>
    freed = concat (map (\<lambda>h. map up_buffer (q_hash q h)) [0..<HASHSIZE]) @ map np_buffer (queued q)"
proof -
  let ?cap = "length (q_queue q)" and ?h = "q_head q" and ?t = "q_tail q"
  have r: "?h < ?cap" "?t < ?cap" using assms(1) by (simp_all add: np_inv_def ring_ok_def)
  have "hash_fd fd < HASHSIZE" by (simp add: hash_fd_def HASHSIZE_def Let_def)
  then have "residue qo' fd = []" using assms(2) by (auto simp: lclear_def Let_def residue_def)
  moreover have "waiting qo' = []" using assms(2) by (auto simp: lclear_def Let_def waiting_def queued_def)
  moreover have "map (\<lambda>i. q_queue q ! (i mod ?cap)) [?h..<(if ?t < ?h then ?t + ?cap else ?t)] = queued q"
    using ring_list_mod [OF r] by (simp add: queued_def)
  then have "map (\<lambda>i. np_buffer (q_queue q ! (i mod ?cap))) [?h..<(if ?t < ?h then ?t + ?cap else ?t)] = map np_buffer (queued q)"
    by (metis (no_types, lifting) map_map comp_apply map_eq_conv)
  then have "freed = concat (map (\<lambda>h. map up_buffer (q_hash q h)) [0..<HASHSIZE]) @ map np_buffer (queued q)"
    using assms(2) by (simp add: lclear_def Let_def)
  ultimately show ?thesis by simp
qed

text \<open>
  \<open>pack\<close> is the inverse of the splitter: a string shorter than 64 kB is put in a frame that the
  splitter takes apart again with whatever follows it, and a longer one is refused.
\<close>
theorem pack_parse_roundtrip:
  "(case lpack data of
      Inl e \<Rightarrow> 0x10000 \<le> length data
    | Inr f \<Rightarrow> length data < 0x10000 \<and> parse (f @ rest) = (data # fst (parse rest), snd (parse rest)))"
proof (cases "length data < 0x10000")
  case True
  then have l: "unat (of_nat (length data) :: u32) = length data" by (simp add: unat_of_nat_small)
  have "ucast (drop_bit 8 (of_nat (length data) :: u32) AND 0xff) = byte_at (of_nat (length data) :: u16) 1"
    "ucast ((of_nat (length data) :: u32) AND 0xff) = byte_at (of_nat (length data) :: u16) 0"
    by (rule bit_word_eqI; auto simp: bit_simps)+
  then have "lpack data = Inr (frame data)"
    using True by (simp add: lpack_def frame_def be16_def Let_def)
  then show ?thesis using parse_frame [OF True] True by simp
next
  case False
  then show ?thesis by (simp add: lpack_def Let_def)
qed

end
