(* ===== verification/Gateserver.thy ===== *)
theory Gateserver
  imports Netpack
begin

text \<open>
  The gate in Lua, \<open>src/3rd/skynet/lualib/snax/gateserver.lua\<close>, on top of the package splitter: the
  table of the connections, the limit on the clients, and the dispatch of every socket message to the
  handler of the service. The record \<open>gateserver\<close> holds the local variables of the file. The handler
  is a parameter: after each of its calls, a list of calls of \<open>openclient\<close> and \<open>closeclient\<close> that may
  depend on everything that happened so far. It does not block, so no other socket message is handled
  in the middle of one. The field \<open>gs_trace\<close> records the calls of the handler and of the socket driver.
\<close>

section \<open>The state and the calls\<close>

datatype gs_action =
    Handle_open
  | Handle_message int bytes
  | Handle_connect int bytes
  | Handle_disconnect int
  | Handle_error int bytes
  | Handle_warning int int
  | Drop_message int bytes
  | Driver_start int
  | Driver_close int
  | Driver_nodelay int
  | Log_text bytes

datatype gs_call = Open_client int | Close_client int

type_synonym gs_handler = "gs_action list \<Rightarrow> gs_call list"

text \<open>\<open>connection[fd]\<close> is nil (\<open>None\<close>), \<open>false\<close> after \<open>closeclient\<close>, or \<open>true\<close>.\<close>

record gateserver =
  gs_socket :: "int option"
  gs_queue :: "queue option"
  gs_maxclient :: int
  gs_client_number :: int
  gs_nodelay :: bool
  gs_connection :: "int \<Rightarrow> bool option"
  gs_trace :: "gs_action list"

definition gs_init :: gateserver where
  "gs_init = \<lparr>gs_socket = None, gs_queue = None, gs_maxclient = 0, gs_client_number = 0, gs_nodelay = False,
     gs_connection = Map.empty, gs_trace = []\<rparr>"

definition act :: "gs_action \<Rightarrow> gateserver \<Rightarrow> gateserver" where
  "act a g = g\<lparr>gs_trace := gs_trace g @ [a]\<rparr>"

definition openclient :: "int \<Rightarrow> gateserver \<Rightarrow> gateserver" where
  "openclient fd g = (if gs_connection g fd = Some True then act (Driver_start fd) g else g)"

definition closeclient :: "int \<Rightarrow> gateserver \<Rightarrow> gateserver" where
  "closeclient fd g =
     (if gs_connection g fd = Some True
      then act (Driver_close fd) (g\<lparr>gs_connection := (gs_connection g)(fd \<mapsto> False)\<rparr>)
      else g)"

fun gs_apply :: "gs_call \<Rightarrow> gateserver \<Rightarrow> gateserver" where
  "gs_apply (Open_client fd) g = openclient fd g"
| "gs_apply (Close_client fd) g = closeclient fd g"

definition call_handler :: "gs_handler \<Rightarrow> gs_action \<Rightarrow> gateserver \<Rightarrow> gateserver" where
  "call_handler handler a g = (let g = act a g in fold gs_apply (handler (gs_trace g)) g)"

section \<open>The commands\<close>

text \<open>\<open>lid\<close> is what \<open>socketdriver.listen\<close> returns.\<close>

definition gs_open :: "gs_handler \<Rightarrow> int \<Rightarrow> int \<Rightarrow> bool \<Rightarrow> gateserver \<Rightarrow> gateserver res" where
  "gs_open handler lid maxclient nodelay g =
     (if gs_socket g \<noteq> None then Inl Assert_failed
      else Inr (call_handler handler Handle_open
             (act (Driver_start lid) (g\<lparr>gs_maxclient := maxclient, gs_nodelay := nodelay, gs_socket := Some lid\<rparr>))))"

definition gs_close :: "gateserver \<Rightarrow> gateserver res" where
  "gs_close g =
     (case gs_socket g of
        None \<Rightarrow> Inl Assert_failed
      | Some lid \<Rightarrow> Inr (act (Driver_close lid) g))"

section \<open>The messages of the socket server\<close>

definition dispatch_msg :: "gs_handler \<Rightarrow> int \<Rightarrow> bytes \<Rightarrow> gateserver \<Rightarrow> gateserver" where
  "dispatch_msg handler fd msg g =
     (if gs_connection g fd = Some True then call_handler handler (Handle_message fd msg) g
      else act (Drop_message fd msg) g)"

text \<open>\<open>dispatch_queue\<close> pops until the queue is empty; \<open>n\<close> bounds the pops.\<close>

fun gs_dispatch_queue :: "gs_handler \<Rightarrow> nat \<Rightarrow> gateserver \<Rightarrow> gateserver" where
  "gs_dispatch_queue handler 0 g = g"
| "gs_dispatch_queue handler (Suc n) g =
     (case lpop (gs_queue g) of
        None \<Rightarrow> g
      | Some (np, q) \<Rightarrow>
          gs_dispatch_queue handler n
            (dispatch_msg handler (np_id np) (take (np_size np) (np_buffer np)) (g\<lparr>gs_queue := Some q\<rparr>)))"

definition msg_open :: "gs_handler \<Rightarrow> int \<Rightarrow> bytes \<Rightarrow> gateserver \<Rightarrow> gateserver" where
  "msg_open handler fd msg g =
     (if gs_maxclient g \<le> gs_client_number g then act (Driver_close fd) g
      else
        (let g = (if gs_nodelay g then act (Driver_nodelay fd) g else g);
             g = g\<lparr>gs_connection := (gs_connection g)(fd \<mapsto> True), gs_client_number := gs_client_number g + 1\<rparr>
         in call_handler handler (Handle_connect fd msg) g))"

definition close_fd :: "int \<Rightarrow> gateserver \<Rightarrow> gateserver" where
  "close_fd fd g =
     (if gs_connection g fd \<noteq> None
      then g\<lparr>gs_connection := (gs_connection g)(fd := None), gs_client_number := gs_client_number g - 1\<rparr>
      else g)"

definition msg_close :: "gs_handler \<Rightarrow> int \<Rightarrow> gateserver \<Rightarrow> gateserver" where
  "msg_close handler fd g =
     (if gs_socket g \<noteq> Some fd then close_fd fd (call_handler handler (Handle_disconnect fd) g)
      else g\<lparr>gs_socket := None\<rparr>)"

definition msg_error :: "gs_handler \<Rightarrow> int \<Rightarrow> bytes \<Rightarrow> gateserver \<Rightarrow> gateserver" where
  "msg_error handler fd msg g =
     (if gs_socket g = Some fd then act (Log_text msg) (act (Driver_close fd) g)
      else close_fd fd (call_handler handler (Handle_error fd msg) g))"

definition msg_warning :: "gs_handler \<Rightarrow> int \<Rightarrow> int \<Rightarrow> gateserver \<Rightarrow> gateserver" where
  "msg_warning handler fd sz g = call_handler handler (Handle_warning fd sz) g"

text \<open>\<open>unpack\<close> and \<open>dispatch\<close> of the registered protocol.\<close>

definition gs_dispatch :: "gs_handler \<Rightarrow> socket_message \<Rightarrow> gateserver \<Rightarrow> gateserver res" where
  "gs_dispatch handler m g =
     bind_r (lfilter (gs_queue g) m) (\<lambda>(q, r).
       let g = g\<lparr>gs_queue := q\<rparr> in
       Inr (case r of
              Wait \<Rightarrow> g
            | Data fd msg sz \<Rightarrow> dispatch_msg handler fd (take sz msg) g
            | More \<Rightarrow> gs_dispatch_queue handler (case q of None \<Rightarrow> 0 | Some q \<Rightarrow> length (q_queue q)) g
            | Closed fd \<Rightarrow> msg_close handler fd g
            | Open fd msg \<Rightarrow> msg_open handler fd msg g
            | Socket_error fd msg \<Rightarrow> msg_error handler fd msg g
            | Warning fd sz \<Rightarrow> msg_warning handler fd sz g))"

fun gs_run :: "gs_handler \<Rightarrow> socket_message list \<Rightarrow> gateserver \<Rightarrow> gateserver res" where
  "gs_run handler [] g = Inr g"
| "gs_run handler (m # ms) g = bind_r (gs_dispatch handler m g) (gs_run handler ms)"

section \<open>The packages of a message are handed to the dispatch function\<close>

abbreviation dispatch_pack :: "gs_handler \<Rightarrow> netpack \<Rightarrow> gateserver \<Rightarrow> gateserver" where
  "dispatch_pack handler np \<equiv> dispatch_msg handler (np_id np) (take (np_size np) (np_buffer np))"

named_theorems gs_defs

lemmas gs_state_defs [gs_defs] = act_def openclient_def closeclient_def

lemma gs_apply_queue [simp]: "gs_queue (gs_apply c g) = gs_queue g"
  by (cases c) (simp_all add: gs_defs)

lemma gs_apply_queue_upd [simp]: "gs_apply c (g\<lparr>gs_queue := q\<rparr>) = gs_apply c g\<lparr>gs_queue := q\<rparr>"
  by (cases c) (simp_all add: gs_defs)

lemma fold_gs_apply_queue [simp]:
  "gs_queue (fold gs_apply cs g) = gs_queue g"
  "fold gs_apply cs (g\<lparr>gs_queue := q\<rparr>) = fold gs_apply cs g\<lparr>gs_queue := q\<rparr>"
  by (induction cs arbitrary: g) simp_all

lemma act_queue [simp]: "gs_queue (act a g) = gs_queue g" "act a (g\<lparr>gs_queue := q\<rparr>) = act a g\<lparr>gs_queue := q\<rparr>"
  by (simp_all add: act_def)

lemma call_handler_queue [simp]:
  "gs_queue (call_handler h a g) = gs_queue g"
  "call_handler h a (g\<lparr>gs_queue := q\<rparr>) = call_handler h a g\<lparr>gs_queue := q\<rparr>"
  by (simp_all add: call_handler_def Let_def)

lemma dispatch_msg_queue [simp]:
  "gs_queue (dispatch_msg h fd p g) = gs_queue g"
  "dispatch_msg h fd p (g\<lparr>gs_queue := q\<rparr>) = dispatch_msg h fd p g\<lparr>gs_queue := q\<rparr>"
  by (simp_all add: dispatch_msg_def)

lemma fold_dispatch_queue [simp]:
  "fold (dispatch_pack h) nps (g\<lparr>gs_queue := q\<rparr>) = fold (dispatch_pack h) nps g\<lparr>gs_queue := q\<rparr>"
  by (induction nps arbitrary: g) simp_all

lemma gs_dispatch_queue_drain:
  "gs_queue g = Some q \<Longrightarrow>
   gs_dispatch_queue h n g = (fold (dispatch_pack h) (fst (drain n q)) g)\<lparr>gs_queue := Some (snd (drain n q))\<rparr>"
proof (induction n arbitrary: g q)
  case (Suc n)
  then show ?case by (simp split: option.splits prod.splits)
qed (simp add: fun_eq_iff)

text \<open>What a message does to the state behind the queue, \<open>nps\<close> being the packages of \<open>split_step\<close>.\<close>

fun gs_other :: "gs_handler \<Rightarrow> socket_message \<Rightarrow> gateserver \<Rightarrow> gateserver" where
  "gs_other h (Sock_close fd) g = msg_close h fd g"
| "gs_other h (Sock_error fd msg) g = msg_error h fd msg g"
| "gs_other h (Sock_accept l fd msg) g = msg_open h fd msg g"
| "gs_other h (Sock_warning fd sz) g = msg_warning h fd sz g"
| "gs_other h _ g = g"

lemma filter_data_results:
  "filter_data qo fd b = Inr (qo', r) \<Longrightarrow> r = Wait \<or> r = More \<or> (\<exists>fd p n. r = Data fd p n)"
  by (auto simp: filter_data_def bind_r_def Let_def split: option.splits prod.splits if_splits sum.splits list.splits)

lemma gs_dispatch_split:
  assumes "split_step (gs_queue g) m = Inr (qo, nps)"
  shows "gs_dispatch h m g = Inr (gs_other h m (fold (dispatch_pack h) nps g)\<lparr>gs_queue := qo\<rparr>)"
proof (cases m)
  case (Sock_data fd b)
  then show ?thesis
    using assms
    by (auto simp: gs_dispatch_def split_step_def bind_r_def lfilter_def Let_def gs_dispatch_queue_drain
        dest: filter_data_results split: sum.splits filter_result.splits option.splits prod.splits)
qed (use assms in \<open>auto simp: gs_dispatch_def split_step_def lfilter_def Let_def msg_close_def msg_error_def
      msg_open_def msg_warning_def close_fd_def act_def\<close>)

section \<open>What the handler is given\<close>

definition handled :: "int \<Rightarrow> gs_action list \<Rightarrow> bytes list" where
  "handled fd tr = concat (map (\<lambda>a. case a of Handle_message fd' p \<Rightarrow> if fd' = fd then [p] else [] | _ \<Rightarrow> []) tr)"

definition dropped :: "int \<Rightarrow> gs_action list \<Rightarrow> bytes list" where
  "dropped fd tr = concat (map (\<lambda>a. case a of Drop_message fd' p \<Rightarrow> if fd' = fd then [p] else [] | _ \<Rightarrow> []) tr)"

lemma handled_simps [simp]:
  "handled fd [] = []" "handled fd (xs @ ys) = handled fd xs @ handled fd ys"
  "handled fd (Handle_message fd' p # xs) = (if fd' = fd then p # handled fd xs else handled fd xs)"
  by (simp_all add: handled_def)

lemma dropped_simps [simp]:
  "dropped fd [] = []" "dropped fd (xs @ ys) = dropped fd xs @ dropped fd ys"
  "dropped fd (Drop_message fd' p # xs) = (if fd' = fd then p # dropped fd xs else dropped fd xs)"
  by (simp_all add: dropped_def)

text \<open>What a connection has got so far: the packages given to the handler and those dropped.\<close>

definition account :: "int \<Rightarrow> gateserver \<Rightarrow> bytes list \<times> bytes list" where
  "account fd g = (handled fd (gs_trace g), dropped fd (gs_trace g))"

text \<open>The handler never closes the connection itself.\<close>

definition keeps :: "gs_handler \<Rightarrow> int \<Rightarrow> bool" where
  "keeps h fd = (\<forall>tr. Close_client fd \<notin> set (h tr))"

text \<open>
  One fact for every part of a message: whether \<open>fd\<close> is open stays as it was, and its account grows
  by the packages \<open>ps\<close> on the side that the table names.
\<close>

definition grows :: "int \<Rightarrow> bytes list \<Rightarrow> gateserver \<Rightarrow> gateserver \<Rightarrow> bool" where
  "grows fd ps g g' =
     ((gs_connection g' fd = Some True) = (gs_connection g fd = Some True) \<and>
      account fd g' = (if gs_connection g fd = Some True then (handled fd (gs_trace g) @ ps, dropped fd (gs_trace g))
                       else (handled fd (gs_trace g), dropped fd (gs_trace g) @ ps)))"

lemma grows_refl [simp]: "grows fd [] g g"
  by (simp add: grows_def account_def)

lemma grows_trans: "grows fd ps g1 g2 \<Longrightarrow> grows fd qs g2 g3 \<Longrightarrow> grows fd (ps @ qs) g1 g3"
  by (auto simp: grows_def account_def)

lemma grows_trans_Nil: "grows fd ps g1 g2 \<Longrightarrow> grows fd [] g2 g3 \<Longrightarrow> grows fd ps g1 g3"
  using grows_trans [of fd ps g1 g2 "[]" g3] by simp

lemma handled_single [simp]: "(\<And>p. a \<noteq> Handle_message fd p) \<Longrightarrow> handled fd [a] = []"
  by (cases a) (auto simp: handled_def)

lemma dropped_single [simp]: "(\<And>p. a \<noteq> Drop_message fd p) \<Longrightarrow> dropped fd [a] = []"
  by (cases a) (auto simp: dropped_def)

lemma grows_apply:
  assumes "c \<noteq> Close_client fd"
  shows "grows fd [] g (gs_apply c g)"
  using assms by (cases c) (auto simp: grows_def account_def gs_defs)

lemma grows_fold_apply:
  assumes "Close_client fd \<notin> set cs"
  shows "grows fd [] g (fold gs_apply cs g)"
  using assms
proof (induction cs arbitrary: g)
  case (Cons c cs)
  then show ?case using grows_trans_Nil [OF grows_apply [of c fd g] Cons.IH [of "gs_apply c g"]] by auto
qed simp

lemma call_handler_grows:
  assumes "keeps h fd" "grows fd ps g (act a g)"
  shows "grows fd ps g (call_handler h a g)"
  using grows_trans_Nil [OF assms(2) grows_fold_apply] assms(1) by (simp add: call_handler_def keeps_def Let_def)

lemma act_grows:
  "(\<And>p. a \<noteq> Handle_message fd p) \<Longrightarrow> (\<And>p. a \<noteq> Drop_message fd p) \<Longrightarrow> grows fd [] g (act a g)"
  by (simp add: grows_def account_def act_def)

lemma dispatch_msg_grows:
  assumes "keeps h fd"
  shows "grows fd (if fd' = fd then [p] else []) g (dispatch_msg h fd' p g)"
  unfolding dispatch_msg_def
  by (auto intro!: call_handler_grows assms act_grows) (auto simp: grows_def account_def act_def)

lemma dispatch_packs_grows:
  assumes "keeps h fd" "\<forall>np \<in> set nps. np_size np = length (np_buffer np)"
  shows "grows fd (received fd nps) g (fold (dispatch_pack h) nps g)"
  using assms(2)
proof (induction nps arbitrary: g)
  case (Cons np nps)
  have "received fd (np # nps) = (if np_id np = fd then [np_buffer np] else []) @ received fd nps"
    by (simp add: received_def)
  then show ?case
    using grows_trans [OF dispatch_msg_grows [OF assms(1), of "np_id np" "np_buffer np" g] Cons.IH] Cons.prems
    by simp
qed simp

lemma conn_other_grows:
  assumes "fd' \<noteq> fd"
  shows "grows fd [] g (g\<lparr>gs_connection := (gs_connection g)(fd' := c), gs_client_number := n\<rparr>)"
  using assms by (simp add: grows_def account_def)

lemma close_fd_grows: "fd' \<noteq> fd \<Longrightarrow> grows fd [] g (close_fd fd' g)"
  by (simp add: close_fd_def conn_other_grows)

lemma gs_other_grows:
  assumes "keeps h fd" "still_open fd [m]" "\<forall>l a. m \<noteq> Sock_accept l fd a"
  shows "grows fd [] g (gs_other h m g)"
proof (cases m)
  case (Sock_accept l fd' a)
  let ?g = "if gs_nodelay g then act (Driver_nodelay fd') g else g"
  have "grows fd [] g ?g" by (simp add: act_grows)
  moreover have "grows fd [] ?g (?g\<lparr>gs_connection := (gs_connection ?g)(fd' \<mapsto> True), gs_client_number := gs_client_number ?g + 1\<rparr>)"
    by (rule conn_other_grows) (use assms(3) Sock_accept in auto)
  ultimately have "grows fd [] g (?g\<lparr>gs_connection := (gs_connection ?g)(fd' \<mapsto> True), gs_client_number := gs_client_number ?g + 1\<rparr>)"
    by (rule grows_trans_Nil)
  from grows_trans_Nil [OF this call_handler_grows [OF assms(1) act_grows]]
  show ?thesis
    using Sock_accept by (simp add: msg_open_def Let_def act_grows)
next
  case (Sock_close fd')
  have "gs_socket g = Some fd' \<Longrightarrow> grows fd [] g (g\<lparr>gs_socket := None\<rparr>)" by (simp add: grows_def account_def)
  moreover have "fd' \<noteq> fd" using assms(2) Sock_close by (simp add: still_open_def)
  ultimately show ?thesis
    using Sock_close
    by (auto simp: msg_close_def intro!: grows_trans_Nil [OF call_handler_grows [OF assms(1) act_grows] close_fd_grows])
next
  case (Sock_error fd' e)
  have "fd' \<noteq> fd" using assms(2) Sock_error by (simp add: still_open_def)
  then show ?thesis
    using Sock_error
    by (auto simp: msg_error_def intro!: grows_trans_Nil [OF call_handler_grows [OF assms(1) act_grows] close_fd_grows]
        grows_trans_Nil [OF act_grows act_grows])
next
  case (Sock_warning fd' sz)
  then show ?thesis by (auto simp: msg_warning_def intro!: call_handler_grows assms(1) act_grows)
qed simp_all

lemma grows_queue: "grows fd ps g g' \<Longrightarrow> grows fd ps g (g'\<lparr>gs_queue := q\<rparr>)"
  by (simp add: grows_def account_def)

text \<open>The state between two messages: nothing waits in the ring.\<close>

definition idle :: "gateserver \<Rightarrow> bool" where
  "idle g = (np_inv (gs_queue g) \<and> waiting (gs_queue g) = [])"

lemma gs_dispatch_grows:
  assumes "idle g" "message_ok m" "keeps h fd" "still_open fd [m]" "\<forall>l a. m \<noteq> Sock_accept l fd a"
  shows "\<exists>g'. gs_dispatch h m g = Inr g' \<and> idle g' \<and> grows fd (fst (owed fd (residue (gs_queue g) fd) [m])) g g' \<and>
    residue (gs_queue g') fd = snd (owed fd (residue (gs_queue g) fd) [m])"
proof -
  obtain q nps where s: "split_step (gs_queue g) m = Inr (q, nps)" "np_inv q" "waiting q = []"
    "owed fd (residue (gs_queue g) fd) [m] = (received fd nps, residue q fd)"
    "\<forall>np \<in> set nps. np_size np = length (np_buffer np)"
    using split_step_spec [of "gs_queue g" m] assms(1,2) by (auto simp: idle_def)
  have "grows fd (received fd nps) g (gs_other h m (fold (dispatch_pack h) nps g))"
    using grows_trans_Nil [OF dispatch_packs_grows gs_other_grows] assms s(5) by blast
  then show ?thesis
    using s by (auto simp: gs_dispatch_split [OF s(1)] idle_def intro: grows_queue)
qed

lemma gs_run_grows:
  assumes "idle g" "\<forall>m \<in> set ms. message_ok m" "keeps h fd" "still_open fd ms" "\<forall>l a. Sock_accept l fd a \<notin> set ms"
  shows "\<exists>g'. gs_run h ms g = Inr g' \<and> idle g' \<and> grows fd (fst (owed fd (residue (gs_queue g) fd) ms)) g g' \<and>
    residue (gs_queue g') fd = snd (owed fd (residue (gs_queue g) fd) ms)"
  using assms
proof (induction ms arbitrary: g)
  case (Cons m ms)
  have "still_open fd [m]" "still_open fd ms" using Cons.prems(4) by (simp_all add: still_open_def)
  moreover from this obtain g1 where "gs_dispatch h m g = Inr g1" "idle g1"
    "grows fd (fst (owed fd (residue (gs_queue g) fd) [m])) g g1"
    "residue (gs_queue g1) fd = snd (owed fd (residue (gs_queue g) fd) [m])"
    using gs_dispatch_grows [of g m h fd] Cons.prems by auto
  ultimately show ?case
    using Cons.IH [of g1] Cons.prems owed_Cons [of fd "residue (gs_queue g) fd" m ms]
    by (auto intro: grows_trans)
qed simp

lemma accept_step:
  assumes "idle g" "keeps h fd" "gs_connection g fd \<noteq> Some True"
  shows "\<exists>g'. gs_dispatch h (Sock_accept l fd a) g = Inr g' \<and> gs_queue g' = gs_queue g \<and> account fd g' = account fd g \<and>
    (gs_connection g' fd = Some True) = (gs_client_number g < gs_maxclient g)"
proof (cases "gs_client_number g < gs_maxclient g")
  case True
  let ?g = "if gs_nodelay g then act (Driver_nodelay fd) g else g"
  let ?g1 = "?g\<lparr>gs_connection := (gs_connection ?g)(fd \<mapsto> True), gs_client_number := gs_client_number ?g + 1\<rparr>"
  have "grows fd [] ?g1 (call_handler h (Handle_connect fd a) ?g1)"
    by (rule call_handler_grows [OF assms(2) act_grows]) simp_all
  moreover have "account fd ?g1 = account fd g" "gs_connection ?g1 fd = Some True"
    by (simp_all add: account_def act_def)
  moreover have "gs_dispatch h (Sock_accept l fd a) g = Inr (call_handler h (Handle_connect fd a) ?g1)"
    using True by (simp add: gs_dispatch_def lfilter_def msg_open_def Let_def)
  ultimately show ?thesis using True by (simp add: grows_def account_def)
next
  case False
  then show ?thesis
    using assms(3) by (simp add: gs_dispatch_def lfilter_def msg_open_def Let_def account_def act_def)
qed

section \<open>The count of the clients\<close>

text \<open>Between two messages \<open>client_number\<close> is the number of the entries of \<open>connection\<close>.\<close>

definition gs_ok :: "gateserver \<Rightarrow> bool" where
  "gs_ok g = (idle g \<and> finite (dom (gs_connection g)) \<and> gs_client_number g = int (card (dom (gs_connection g))))"

definition same_clients :: "gateserver \<Rightarrow> gateserver \<Rightarrow> bool" where
  "same_clients g g' =
     (dom (gs_connection g') = dom (gs_connection g) \<and> gs_client_number g' = gs_client_number g \<and>
      gs_maxclient g' = gs_maxclient g \<and> gs_queue g' = gs_queue g)"

lemma same_clients_refl [simp]: "same_clients g g"
  by (simp add: same_clients_def)

lemma same_clients_trans: "same_clients g1 g2 \<Longrightarrow> same_clients g2 g3 \<Longrightarrow> same_clients g1 g3"
  by (simp add: same_clients_def)

lemma act_same [simp]: "same_clients g (act a g)"
  by (simp add: same_clients_def act_def)

lemma gs_apply_same: "same_clients g (gs_apply c g)"
  by (cases c) (auto simp: same_clients_def gs_defs)

lemma fold_same: "(\<And>x g. same_clients g (f x g)) \<Longrightarrow> same_clients g (fold f xs g)"
  by (induction xs arbitrary: g) (auto intro: same_clients_trans)

lemma call_handler_same: "same_clients g (call_handler h a g)"
  by (auto simp: call_handler_def Let_def intro: same_clients_trans act_same fold_same gs_apply_same)

lemma dispatch_msg_same: "same_clients g (dispatch_msg h fd p g)"
  by (simp add: dispatch_msg_def call_handler_same)

text \<open>How a message other than data changes the set of the connections.\<close>

lemma close_fd_counts:
  assumes "finite (dom (gs_connection g))" "gs_client_number g = int (card (dom (gs_connection g)))"
  shows "finite (dom (gs_connection (close_fd fd g))) \<and>
    gs_client_number (close_fd fd g) = int (card (dom (gs_connection (close_fd fd g)))) \<and>
    gs_client_number (close_fd fd g) \<le> gs_client_number g \<and> gs_maxclient (close_fd fd g) = gs_maxclient g"
proof (cases "gs_connection g fd = None")
  case False
  then have "fd \<in> dom (gs_connection g)" by auto
  with assms False show ?thesis
    by (simp add: close_fd_def card_Diff_singleton of_nat_diff card_gt_0_iff Suc_le_eq)
       (metis One_nat_def Suc_leI assms(1) card_gt_0_iff domI dom_empty empty_iff fun_upd_apply of_nat_diff of_nat_1)
qed (use assms in \<open>simp add: close_fd_def\<close>)

lemma gs_other_counts:
  assumes "finite (dom (gs_connection g))" "gs_client_number g = int (card (dom (gs_connection g)))"
    and "\<And>l fd a. m = Sock_accept l fd a \<Longrightarrow> gs_connection g fd = None"
  shows "finite (dom (gs_connection (gs_other h m g))) \<and>
    gs_client_number (gs_other h m g) = int (card (dom (gs_connection (gs_other h m g)))) \<and>
    gs_maxclient (gs_other h m g) = gs_maxclient g \<and>
    gs_client_number (gs_other h m g) \<le> max (gs_client_number g) (gs_maxclient g)"
proof -
  have same: "same_clients g1 g2 \<Longrightarrow> finite (dom (gs_connection g1)) \<Longrightarrow>
      gs_client_number g1 = int (card (dom (gs_connection g1))) \<Longrightarrow>
      finite (dom (gs_connection g2)) \<and> gs_client_number g2 = int (card (dom (gs_connection g2))) \<and>
      gs_maxclient g2 = gs_maxclient g1 \<and> gs_client_number g2 = gs_client_number g1" for g1 g2
    by (simp add: same_clients_def)
  show ?thesis
  proof (cases m)
    case (Sock_accept l fd a)
    let ?g = "if gs_nodelay g then act (Driver_nodelay fd) g else g"
    let ?g1 = "?g\<lparr>gs_connection := (gs_connection ?g)(fd \<mapsto> True), gs_client_number := gs_client_number ?g + 1\<rparr>"
    show ?thesis
    proof (cases "gs_maxclient g \<le> gs_client_number g")
      case True
      then have e: "gs_other h m g = act (Driver_close fd) g" using Sock_accept by (simp add: msg_open_def)
      then show ?thesis using same [OF act_same [of g "Driver_close fd"] assms(1,2)] unfolding e by linarith
    next
      case False
      then have e: "gs_other h m g = call_handler h (Handle_connect fd a) ?g1"
        using Sock_accept by (simp add: msg_open_def Let_def)
      have "finite (dom (gs_connection ?g1)) \<and> gs_client_number ?g1 = int (card (dom (gs_connection ?g1))) \<and>
          gs_maxclient ?g1 = gs_maxclient g \<and> gs_client_number ?g1 = gs_client_number g + 1"
        using assms(1-3) Sock_accept by (auto simp: act_def card_insert_if)
      then show ?thesis
        using same [OF call_handler_same [of ?g1 h "Handle_connect fd a"]] False unfolding e by linarith
    qed
  next
    case (Sock_close fd)
    then show ?thesis
      using same [OF call_handler_same [of g h "Handle_disconnect fd"]]
        close_fd_counts [of "call_handler h (Handle_disconnect fd) g" fd] assms(1,2)
      by (auto simp: msg_close_def)
  next
    case (Sock_error fd e)
    show ?thesis
    proof (cases "gs_socket g = Some fd")
      case True
      then have e: "gs_other h m g = act (Log_text e) (act (Driver_close fd) g)" using Sock_error by (simp add: msg_error_def)
      have "same_clients g (act (Log_text e) (act (Driver_close fd) g))" by (blast intro: same_clients_trans act_same)
      from same [OF this assms(1,2)] show ?thesis unfolding e by linarith
    next
      case False
      let ?g1 = "call_handler h (Handle_error fd e) g"
      have e: "gs_other h m g = close_fd fd ?g1" using False Sock_error by (simp add: msg_error_def)
      note 1 = same [OF call_handler_same [of g h "Handle_error fd e"] assms(1,2)]
      with close_fd_counts [of ?g1 fd] show ?thesis unfolding e by linarith
    qed
  next
    case (Sock_warning fd sz)
    then show ?thesis
      using same [OF call_handler_same [of g h "Handle_warning fd sz"]] assms(1,2) by (auto simp: msg_warning_def)
  qed (use assms in auto)
qed

section \<open>Properties\<close>

text \<open>
  C5: Whatever way the network cuts the streams of any number of interleaved connections into chunks,
  and whatever the handler does except closing \<open>fd\<close>: when a client is accepted as \<open>fd\<close> and then sent the
  frames of the packages \<open>ps\<close>, the gate fails in no step, ends with an empty queue, and gives exactly
  \<open>ps\<close> to the handler, in order, dropping none, if there was room for the client; if the gate was full
  it gives nothing of \<open>fd\<close> to the handler and drops exactly \<open>ps\<close>.
\<close>
theorem stream_delivers_frames:
  assumes "idle g" "residue (gs_queue g) fd = []" "gs_connection g fd \<noteq> Some True"
    and "\<forall>m \<in> set ms. message_ok m" "still_open fd ms" "\<forall>l a. Sock_accept l fd a \<notin> set ms"
    and "sent fd ms = concat (map frame ps)" "\<forall>p \<in> set ps. length p < 0x10000" "keeps h fd"
  shows "\<exists>g'. gs_run h (Sock_accept l fd a # ms) g = Inr g' \<and>
    (if gs_client_number g < gs_maxclient g
     then handled fd (gs_trace g') = handled fd (gs_trace g) @ ps \<and> dropped fd (gs_trace g') = dropped fd (gs_trace g)
     else handled fd (gs_trace g') = handled fd (gs_trace g) \<and> dropped fd (gs_trace g') = dropped fd (gs_trace g) @ ps) \<and>
    residue (gs_queue g') fd = [] \<and> waiting (gs_queue g') = []"
proof -
  obtain g1 where g1: "gs_dispatch h (Sock_accept l fd a) g = Inr g1" "gs_queue g1 = gs_queue g" "account fd g1 = account fd g"
    "(gs_connection g1 fd = Some True) = (gs_client_number g < gs_maxclient g)"
    using accept_step [OF assms(1,9,3)] by blast
  have "idle g1" using assms(1) g1(2) by (simp add: idle_def)
  from gs_run_grows [OF this assms(4,9,5,6)]
  obtain g' where "gs_run h ms g1 = Inr g'" "idle g'" "grows fd (fst (owed fd [] ms)) g1 g'"
    "residue (gs_queue g') fd = snd (owed fd [] ms)"
    using assms(2) g1(2) by auto
  moreover have "owed fd [] ms = (ps, [])"
    using owed_sent [OF assms(5), of "[]"] parse_frames [OF assms(8)] assms(7) by simp
  ultimately show ?thesis using g1 by (auto simp: grows_def account_def idle_def)
qed

theorem stream_delivers_frames_witness:
  "\<exists>g'. gs_run (\<lambda>tr. [Open_client 5]) [Sock_accept 1 5 [], Sock_data 5 [0], Sock_data 6 [9, 9], Sock_data 5 [2, 65],
      Sock_data 5 [66, 0, 0, 0, 1, 67]] (gs_init\<lparr>gs_maxclient := 2\<rparr>) = Inr g' \<and>
    (if gs_client_number (gs_init\<lparr>gs_maxclient := 2\<rparr>) < gs_maxclient (gs_init\<lparr>gs_maxclient := 2\<rparr>)
     then handled 5 (gs_trace g') = handled 5 (gs_trace (gs_init\<lparr>gs_maxclient := 2\<rparr>)) @ [[65, 66], [], [67]] \<and>
       dropped 5 (gs_trace g') = dropped 5 (gs_trace (gs_init\<lparr>gs_maxclient := 2\<rparr>))
     else handled 5 (gs_trace g') = handled 5 (gs_trace (gs_init\<lparr>gs_maxclient := 2\<rparr>)) \<and>
       dropped 5 (gs_trace g') = dropped 5 (gs_trace (gs_init\<lparr>gs_maxclient := 2\<rparr>)) @ [[65, 66], [], [67]]) \<and>
    residue (gs_queue g') 5 = [] \<and> waiting (gs_queue g') = []"
  by (rule stream_delivers_frames)
     (simp_all add: idle_def np_inv_def waiting_def residue_def gs_init_def message_ok_def still_open_def sent_def frame_def
        be16_def byte_at_def keeps_def)

text \<open>
  C22: Between two messages of the socket server \<open>client_number\<close> is exactly the number of connections in
  the table, whatever the handler opens and closes: every message, with a new id when it is an accept,
  is handled without a failure, keeps this and leaves nothing in the queue of packages, and never
  takes the number above \<open>maxclient\<close>.
\<close>
theorem clients_are_counted:
  assumes "gs_ok g" "message_ok m" "\<forall>l fd a. m = Sock_accept l fd a \<longrightarrow> gs_connection g fd = None"
  shows "\<exists>g'. gs_dispatch h m g = Inr g' \<and> gs_ok g' \<and> gs_maxclient g' = gs_maxclient g \<and>
    gs_client_number g' \<le> max (gs_client_number g) (gs_maxclient g)"
proof -
  obtain q nps where s: "split_step (gs_queue g) m = Inr (q, nps)" "np_inv q" "waiting q = []"
    using split_step_spec [of "gs_queue g" m] assms(1,2) by (auto simp: idle_def gs_ok_def)
  let ?g = "fold (dispatch_pack h) nps g"
  have f: "same_clients g ?g" by (rule fold_same) (rule dispatch_msg_same)
  have "gs_connection ?g fd = None" if "m = Sock_accept l fd a" for l fd a
    using f assms(3) that domIff [of fd "gs_connection g"] domIff [of fd "gs_connection ?g"]
    by (simp add: same_clients_def)
  then show ?thesis
    using gs_other_counts [of ?g m h] f assms(1) s gs_dispatch_split [OF s(1), of h]
    by (auto simp: same_clients_def gs_ok_def idle_def)
qed

theorem clients_are_counted_witness:
  "\<exists>g'. gs_dispatch (\<lambda>tr. [Close_client 5]) (Sock_accept 1 5 []) (gs_init\<lparr>gs_maxclient := 2\<rparr>) = Inr g' \<and> gs_ok g' \<and>
    gs_maxclient g' = gs_maxclient (gs_init\<lparr>gs_maxclient := 2\<rparr>) \<and>
    gs_client_number g' \<le> max (gs_client_number (gs_init\<lparr>gs_maxclient := 2\<rparr>)) (gs_maxclient (gs_init\<lparr>gs_maxclient := 2\<rparr>))"
  by (rule clients_are_counted) (simp_all add: gs_ok_def idle_def np_inv_def waiting_def gs_init_def message_ok_def)

end
