(* ===== verification/Mq.thy ===== *)
theory Mq
  imports Ring
begin

text \<open>
  The message queues of the services and the global queue of the queues that have work
  (\<open>src/3rd/skynet/skynet-src/skynet_mq.c\<close>). Every function holds the spin lock of the object it
  changes from its first to its last access, so each is one atomic operation here. The \<open>struct
  message_queue\<close> objects live in a store from addresses to records, because the global queue links
  them through their \<open>next\<close> fields; an access to a freed queue is the error \<open>Out_of_bounds\<close>.

  The first half is the ring of one queue; the second half is the scheduling protocol of workers,
  senders and deleted services, as a step relation whose reachable states keep every queue with a
  waiting message scheduled exactly once.
\<close>

definition DEFAULT_QUEUE_SIZE :: nat where
  "DEFAULT_QUEUE_SIZE = 64"

definition MQ_OVERLOAD :: nat where
  "MQ_OVERLOAD = 1024"

text \<open>\<open>msg_data\<close> is the pointer \<open>data\<close>: an address, or \<open>None\<close> for NULL.\<close>

record skynet_message =
  msg_source :: u32
  msg_session :: u32
  msg_data :: "nat option"
  msg_sz :: u64

text \<open>
  The field \<open>cap\<close> is the length of the array \<open>mq_queue\<close>. It, \<open>head\<close> and \<open>tail\<close> are of type \<open>int\<close> in the
  code and unbounded here: doubling \<open>cap\<close> would overflow at 2^30 messages in one queue, 24 GB.
\<close>

record message_queue =
  mq_handle :: u32
  mq_head :: nat
  mq_tail :: nat
  mq_release :: bool
  mq_in_global :: bool
  mq_overload :: nat
  mq_threshold :: nat
  mq_queue :: "skynet_message list"
  mq_next :: "nat option"

section \<open>One queue\<close>

definition no_message :: skynet_message where
  "no_message = \<lparr>msg_source = 0, msg_session = 0, msg_data = None, msg_sz = 0\<rparr>"

definition mq_create :: "u32 \<Rightarrow> message_queue" where
  "mq_create handle =
     \<lparr>mq_handle = handle, mq_head = 0, mq_tail = 0, mq_release = False, mq_in_global = True,
      mq_overload = 0, mq_threshold = MQ_OVERLOAD,
      mq_queue = replicate DEFAULT_QUEUE_SIZE no_message, mq_next = None\<rparr>"

definition mq_length :: "message_queue \<Rightarrow> nat" where
  "mq_length q =
     (if mq_head q \<le> mq_tail q then mq_tail q - mq_head q
      else mq_tail q + length (mq_queue q) - mq_head q)"

text \<open>\<open>skynet_mq_overload\<close> reads and resets the overload mark.\<close>

definition take_overload :: "message_queue \<Rightarrow> nat \<times> message_queue" where
  "take_overload q = (if mq_overload q \<noteq> 0 then (mq_overload q, q\<lparr>mq_overload := 0\<rparr>) else (0, q))"

text \<open>
  The loop that doubles the threshold; with a threshold of 0 it would not end, which is the value
  \<open>None\<close>.
\<close>

partial_function (option) overload_loop :: "nat \<Rightarrow> nat \<Rightarrow> nat \<Rightarrow> (nat \<times> nat) option" where
  "overload_loop len overload threshold =
     (if threshold < len then overload_loop len len (threshold * 2) else Some (overload, threshold))"

text \<open>
  \<open>skynet_mq_pop\<close>: the message, or nothing when the queue is empty, and then the queue is marked as
  not in the global queue.
\<close>

definition mq_pop :: "message_queue \<Rightarrow> (skynet_message option \<times> message_queue) option" where
  "mq_pop q =
     (if mq_head q \<noteq> mq_tail q then
        (let message = mq_queue q ! mq_head q;
             head = mq_head q + 1;
             tail = mq_tail q;
             cap = length (mq_queue q);
             head = (if cap \<le> head then 0 else head);
             len = int tail - int head;
             len = (if len < 0 then len + int cap else len)
         in case overload_loop (nat len) (mq_overload q) (mq_threshold q) of
              None \<Rightarrow> None
            | Some (overload, threshold) \<Rightarrow>
                Some (Some message, q\<lparr>mq_head := head, mq_overload := overload, mq_threshold := threshold\<rparr>))
      else Some (None, q\<lparr>mq_threshold := MQ_OVERLOAD, mq_in_global := False\<rparr>))"

definition expand_queue :: "message_queue \<Rightarrow> message_queue" where
  "expand_queue q =
     (let cap = length (mq_queue q);
          new_queue = map (\<lambda>i. mq_queue q ! ((mq_head q + i) mod cap)) [0..<cap]
      in q\<lparr>mq_head := 0, mq_tail := cap, mq_queue := new_queue @ replicate cap no_message\<rparr>)"

text \<open>The part of \<open>skynet_mq_push\<close> that works on the ring.\<close>

definition mq_store :: "skynet_message \<Rightarrow> message_queue \<Rightarrow> message_queue" where
  "mq_store message q =
     (let q = q\<lparr>mq_queue := (mq_queue q)[mq_tail q := message]\<rparr>;
          tail = mq_tail q + 1;
          q = q\<lparr>mq_tail := (if length (mq_queue q) \<le> tail then 0 else tail)\<rparr>
      in if mq_head q = mq_tail q then expand_queue q else q)"

section \<open>The global queue\<close>

text \<open>The queue objects by address, and the head and the tail of the global queue \<open>Q\<close>.\<close>

record scheduler =
  queues :: "nat \<Rightarrow> message_queue option"
  g_head :: "nat option"
  g_tail :: "nat option"

definition deref :: "scheduler \<Rightarrow> nat \<Rightarrow> message_queue res" where
  "deref s a = (case queues s a of None \<Rightarrow> Inl Out_of_bounds | Some q \<Rightarrow> Inr q)"

definition set_queue :: "nat \<Rightarrow> message_queue \<Rightarrow> scheduler \<Rightarrow> scheduler" where
  "set_queue a q s = s\<lparr>queues := (queues s)(a \<mapsto> q)\<rparr>"

definition mq_init :: scheduler where
  "mq_init = \<lparr>queues = (\<lambda>_. None), g_head = None, g_tail = None\<rparr>"

definition globalmq_push :: "nat \<Rightarrow> scheduler \<Rightarrow> scheduler res" where
  "globalmq_push a s =
     bind_r (deref s a) (\<lambda>q.
       if mq_next q \<noteq> None then Inl Assert_failed
       else
         (case g_tail s of
            Some t \<Rightarrow> bind_r (deref s t) (\<lambda>tq. Inr ((set_queue t (tq\<lparr>mq_next := Some a\<rparr>) s)\<lparr>g_tail := Some a\<rparr>))
          | None \<Rightarrow> Inr (s\<lparr>g_head := Some a, g_tail := Some a\<rparr>)))"

definition globalmq_pop :: "scheduler \<Rightarrow> (nat option \<times> scheduler) res" where
  "globalmq_pop s =
     (case g_head s of
        None \<Rightarrow> Inr (None, s)
      | Some a \<Rightarrow>
         bind_r (deref s a) (\<lambda>mq.
           bind_r (case mq_next mq of
                     None \<Rightarrow> if g_tail s = Some a then Inr (s\<lparr>g_head := None, g_tail := None\<rparr>) else Inl Assert_failed
                   | Some b \<Rightarrow> Inr (s\<lparr>g_head := Some b\<rparr>)) (\<lambda>s.
           Inr (Some a, set_queue a (mq\<lparr>mq_next := None\<rparr>) s))))"

section \<open>Operations on a queue of the store\<close>

definition mq_push_at :: "nat \<Rightarrow> skynet_message \<Rightarrow> scheduler \<Rightarrow> scheduler res" where
  "mq_push_at a message s =
     bind_r (deref s a) (\<lambda>q.
       (let q = mq_store message q in
        if \<not> mq_in_global q
        then globalmq_push a (set_queue a (q\<lparr>mq_in_global := True\<rparr>) s)
        else Inr (set_queue a q s)))"

definition mq_pop_at :: "nat \<Rightarrow> scheduler \<Rightarrow> (skynet_message option \<times> scheduler) res" where
  "mq_pop_at a s =
     bind_r (deref s a) (\<lambda>q.
       (case mq_pop q of
          None \<Rightarrow> Inl Diverges
        | Some (message, q) \<Rightarrow> Inr (message, set_queue a q s)))"

definition mq_mark_release :: "nat \<Rightarrow> scheduler \<Rightarrow> scheduler res" where
  "mq_mark_release a s =
     bind_r (deref s a) (\<lambda>q.
       if mq_release q then Inl Assert_failed
       else
         (let s = set_queue a (q\<lparr>mq_release := True\<rparr>) s in
          if \<not> mq_in_global q then globalmq_push a s else Inr s))"

text \<open>The loop of \<open>_drop_queue\<close>: the messages given to \<open>drop_func\<close>, in order.\<close>

partial_function (option) drop_loop :: "message_queue \<Rightarrow> (skynet_message list \<times> message_queue) option" where
  "drop_loop q =
     (case mq_pop q of
        None \<Rightarrow> None
      | Some (m, q) \<Rightarrow>
         (case m of
            None \<Rightarrow> Some ([], q)
          | Some msg \<Rightarrow> Option.bind (drop_loop q) (\<lambda>(msgs, q). Some (msg # msgs, q))))"

definition drop_queue :: "nat \<Rightarrow> scheduler \<Rightarrow> (skynet_message list \<times> scheduler) res" where
  "drop_queue a s =
     bind_r (deref s a) (\<lambda>q.
       (case drop_loop q of
          None \<Rightarrow> Inl Diverges
        | Some (msgs, q) \<Rightarrow>
            if mq_next q \<noteq> None then Inl Assert_failed
            else Inr (msgs, s\<lparr>queues := (queues s)(a := None)\<rparr>)))"

definition mq_release_at :: "nat \<Rightarrow> scheduler \<Rightarrow> (skynet_message list \<times> scheduler) res" where
  "mq_release_at a s =
     bind_r (deref s a) (\<lambda>q.
       if mq_release q then drop_queue a s
       else bind_r (globalmq_push a s) (\<lambda>s. Inr ([], s)))"

lemma ring_distance:
  assumes "h < cap"
  shows "nat (if int t - int h < 0 then int t - int h + int cap else int t - int h) =
    (if h \<le> t then t - h else cap + t - h)"
proof (cases "h \<le> t")
  case True
  then have "int t - int h = int (t - h)" by simp
  then show ?thesis using True by simp
next
  case False
  then have "int t - int h + int cap = int (cap + t - h)" using assms by simp
  then show ?thesis using False by simp
qed

section \<open>One queue is first in, first out\<close>

definition mq_ok :: "message_queue \<Rightarrow> bool" where
  "mq_ok q = (mq_head q < length (mq_queue q) \<and> mq_tail q < length (mq_queue q) \<and> 0 < mq_threshold q)"

definition messages :: "message_queue \<Rightarrow> skynet_message list" where
  "messages q = ring_list (mq_head q) (mq_tail q) (mq_queue q)"

lemma overload_loop_spec:
  assumes "0 < t"
  shows "\<exists>k. overload_loop len ov t = Some (if len \<le> t then ov else len, t * 2 ^ k) \<and> len \<le> t * 2 ^ k \<and>
    (k = 0 \<or> t * 2 ^ (k - 1) < len)"
  using assms
proof (induction "len - t" arbitrary: ov t rule: less_induct)
  case less
  show ?case
  proof (cases "t < len")
    case False
    then show ?thesis by (intro exI [of _ 0]) (simp add: overload_loop.simps)
  next
    case True
    then obtain k where k: "overload_loop len len (t * 2) = Some (if len \<le> t * 2 then len else len, t * 2 * 2 ^ k)"
      "len \<le> t * 2 * 2 ^ k" "k = 0 \<or> t * 2 * 2 ^ (k - 1) < len"
      using less.hyps [of "t * 2" len] less.prems diff_less_mono2 [of t "t * 2" len] by auto
    have "overload_loop len ov t = Some (if len \<le> t then ov else len, t * 2 ^ Suc k)"
      using True k(1) by (simp add: overload_loop.simps [of len ov t] mult.assoc)
    moreover have "t * 2 ^ (Suc k - 1) < len"
      using k(3) True by (cases k) (simp_all add: mult.assoc)
    ultimately show ?thesis using k(2) by (intro exI [of _ "Suc k"]) (simp add: mult.assoc)
  qed
qed

lemma mq_length_messages: "mq_ok q \<Longrightarrow> mq_length q = length (messages q)"
  by (simp add: mq_ok_def mq_length_def messages_def length_ring_list add.commute)

lemma mq_store_spec:
  assumes "mq_ok q"
  shows "mq_ok (mq_store m q) \<and> messages (mq_store m q) = messages q @ [m]"
proof -
  let ?cap = "length (mq_queue q)"
  have h: "mq_head q < ?cap" "mq_tail q < ?cap" and t: "0 < mq_threshold q"
    using assms by (simp_all add: mq_ok_def)
  define q1 where "q1 = q\<lparr>mq_queue := (mq_queue q)[mq_tail q := m], mq_tail := next_index ?cap (mq_tail q)\<rparr>"
  have q1: "mq_head q1 = mq_head q" "mq_tail q1 = next_index ?cap (mq_tail q)"
    "mq_queue q1 = (mq_queue q)[mq_tail q := m]" "mq_threshold q1 = mq_threshold q"
    by (simp_all add: q1_def)
  have s: "mq_store m q = (if mq_head q1 = mq_tail q1 then expand_queue q1 else q1)"
    by (simp add: mq_store_def q1_def next_index_def Let_def)
  show ?thesis
  proof (cases "mq_head q1 = mq_tail q1")
    case True
    then have "next_index ?cap (mq_tail q) = mq_head q" using q1 by simp
    then have "unroll (mq_head q1) (mq_queue q1) = messages q @ [m]"
      unfolding q1 messages_def by (rule ring_push_full [OF h])
    moreover have "messages (expand_queue q1) = unroll (mq_head q1) (mq_queue q1)" "mq_ok (expand_queue q1)"
      using h(1) t q1
      by (auto simp: expand_queue_def messages_def ring_list_def unroll_def mq_ok_def Let_def)
    ultimately show ?thesis using s True by simp
  next
    case False
    then have "next_index ?cap (mq_tail q) \<noteq> mq_head q" using q1 by simp
    then have "messages q1 = messages q @ [m]"
      unfolding q1 messages_def by (rule ring_push [OF h])
    moreover have "mq_ok q1" unfolding mq_ok_def q1 using h t by (simp add: next_index_less)
    ultimately show ?thesis using s False by simp
  qed
qed

lemma mq_pop_empty:
  assumes "mq_ok q" "messages q = []"
  shows "mq_pop q = Some (None, q\<lparr>mq_threshold := MQ_OVERLOAD, mq_in_global := False\<rparr>)"
proof -
  have "mq_head q = mq_tail q"
    using assms ring_pop [of "mq_head q" "mq_queue q" "mq_tail q"] by (auto simp: mq_ok_def messages_def)
  then show ?thesis by (simp add: mq_pop_def)
qed

text \<open>A pop of a non-empty queue, with the overload mark it leaves.\<close>

lemma mq_pop_message:
  assumes "mq_ok q" "messages q = m # ms"
  shows "\<exists>q' k. mq_pop q = Some (Some m, q') \<and> mq_ok q' \<and> messages q' = ms \<and>
    mq_in_global q' = mq_in_global q \<and> mq_next q' = mq_next q \<and> mq_release q' = mq_release q \<and>
    mq_handle q' = mq_handle q \<and>
    mq_overload q' = (if mq_threshold q < length ms then length ms else mq_overload q) \<and>
    mq_threshold q' = mq_threshold q * 2 ^ k \<and> length ms \<le> mq_threshold q' \<and>
    (k = 0 \<or> mq_threshold q * 2 ^ (k - 1) < length ms)"
proof -
  let ?cap = "length (mq_queue q)" and ?h = "next_index (length (mq_queue q)) (mq_head q)"
  have h: "mq_head q < ?cap" "mq_tail q < ?cap" "0 < mq_threshold q"
    using assms by (simp_all add: mq_ok_def)
  have ne: "mq_head q \<noteq> mq_tail q" using assms(2) by (auto simp: messages_def)
  have r: "m = mq_queue q ! mq_head q" "ms = ring_list ?h (mq_tail q) (mq_queue q)"
    using ring_pop [OF h(1,2) ne] assms(2) by (simp_all add: messages_def)
  have h': "?h < ?cap" using h(1) by (rule next_index_less)
  have len: "length ms = (if ?h \<le> mq_tail q then mq_tail q - ?h else ?cap + mq_tail q - ?h)"
    unfolding r(2) using h' h(2) by (rule length_ring_list)
  let ?l = "int (mq_tail q) - int ?h"
  have l: "nat (if ?l < 0 then ?l + int ?cap else ?l) = length ms"
    unfolding len using h h' by (intro ring_distance) simp
  obtain k where k: "overload_loop (length ms) (mq_overload q) (mq_threshold q) =
      Some (if length ms \<le> mq_threshold q then mq_overload q else length ms, mq_threshold q * 2 ^ k)"
    "length ms \<le> mq_threshold q * 2 ^ k" "k = 0 \<or> mq_threshold q * 2 ^ (k - 1) < length ms"
    using overload_loop_spec [OF h(3)] by blast
  have h_eq: "(if ?cap \<le> mq_head q + 1 then 0 else mq_head q + 1) = ?h"
    by (simp add: next_index_def)
  let ?q = "q\<lparr>mq_head := ?h,
      mq_overload := (if length ms \<le> mq_threshold q then mq_overload q else length ms),
      mq_threshold := mq_threshold q * 2 ^ k\<rparr>"
  have "mq_pop q = Some (Some m, ?q)"
    unfolding mq_pop_def Let_def h_eq l using ne k(1) r(1) by simp
  then show ?thesis
    using h h' r k(2,3)
    by (intro exI [of _ ?q] exI [of _ k] conjI) (simp_all add: mq_ok_def messages_def)
qed

definition mq_take :: "message_queue \<Rightarrow> (skynet_message \<times> message_queue) option" where
  "mq_take q = (case mq_pop q of Some (Some m, q') \<Rightarrow> Some (m, q') | _ \<Rightarrow> None)"

interpretation mq_fifo: fifo mq_ok messages mq_store mq_take
proof unfold_locales
  fix q m q'
  assume ok: "mq_ok q"
  show "mq_ok (mq_store m q)" "messages (mq_store m q) = messages q @ [m]"
    using mq_store_spec [OF ok] by simp_all
  show "mq_take q = None \<longleftrightarrow> messages q = []"
    using mq_pop_empty [OF ok] mq_pop_message [OF ok]
    by (cases "messages q") (auto simp: mq_take_def)
  show "mq_take q = Some (m, q') \<Longrightarrow> mq_ok q' \<and> messages q = m # messages q'"
    using mq_pop_empty [OF ok] mq_pop_message [OF ok]
    by (cases "messages q") (auto simp: mq_take_def)
qed

lemma mq_create_ok: "mq_ok (mq_create h) \<and> messages (mq_create h) = []"
  by (simp add: mq_ok_def mq_create_def messages_def MQ_OVERLOAD_def DEFAULT_QUEUE_SIZE_def)

lemma drop_loop_spec:
  assumes "mq_ok q"
  shows "\<exists>q'. drop_loop q = Some (messages q, q') \<and> mq_next q' = mq_next q"
  using assms
proof (induction "messages q" arbitrary: q)
  case Nil
  then show ?case using mq_pop_empty [of q] by (simp add: drop_loop.simps [of q])
next
  case (Cons m ms)
  obtain q1 where q1: "mq_pop q = Some (Some m, q1)" "mq_ok q1" "messages q1 = ms" "mq_next q1 = mq_next q"
    using mq_pop_message [OF Cons.prems Cons.hyps(2) [symmetric]] by blast
  with Cons.hyps(1) [of q1] obtain q' where "drop_loop q1 = Some (ms, q')" "mq_next q' = mq_next q1" by auto
  then show ?case using q1 Cons.hyps(2) [symmetric] by (simp add: drop_loop.simps [of q])
qed

section \<open>The global queue is a linked list\<close>

fun links :: "(nat \<Rightarrow> message_queue option) \<Rightarrow> nat option \<Rightarrow> nat list \<Rightarrow> bool" where
  "links st h [] = (h = None)"
| "links st h (a # as) = (h = Some a \<and> (case st a of None \<Rightarrow> False | Some q \<Rightarrow> links st (mq_next q) as))"

text \<open>
  \<open>as\<close> are the queues in the global queue, from head to tail: no queue is in it twice, and every
  other queue has no successor.
\<close>

definition global_ok :: "scheduler \<Rightarrow> nat list \<Rightarrow> bool" where
  "global_ok s as =
     (links (queues s) (g_head s) as \<and> distinct as \<and>
      g_tail s = (if as = [] then None else Some (last as)) \<and>
      (\<forall>b q. queues s b = Some q \<longrightarrow> b \<notin> set as \<longrightarrow> mq_next q = None))"

definition core :: "message_queue \<Rightarrow> message_queue" where
  "core q = q\<lparr>mq_next := None\<rparr>"

text \<open>Two stores that differ in the links of the global queue only.\<close>

definition same_queues :: "scheduler \<Rightarrow> scheduler \<Rightarrow> bool" where
  "same_queues s s' = (\<forall>b. map_option core (queues s' b) = map_option core (queues s b))"

lemma links_update: "a \<notin> set as \<Longrightarrow> links (st(a := v)) h as = links st h as"
  by (induction st h as rule: links.induct) (auto split: option.splits)

lemma links_same_next:
  "st a = Some q \<Longrightarrow> mq_next q' = mq_next q \<Longrightarrow> links (st(a \<mapsto> q')) h as = links st h as"
  by (induction st h as rule: links.induct) (auto split: option.splits)

lemma links_live: "links st h as \<Longrightarrow> set as \<subseteq> dom st"
  by (induction st h as rule: links.induct) (auto split: option.splits)

lemma links_snoc:
  assumes "links st h as" "distinct as" "as \<noteq> []" "st (last as) = Some tq" "a \<notin> set as"
    "st a = Some q" "mq_next q = None"
  shows "links (st(last as \<mapsto> tq\<lparr>mq_next := Some a\<rparr>)) h (as @ [a])"
  using assms
proof (induction st h as rule: links.induct)
  case (1 st h)
  then show ?case by simp
next
  case (2 st h b bs)
  then obtain bq where b: "h = Some b" "st b = Some bq" "links st (mq_next bq) bs" by (auto split: option.splits)
  show ?case
  proof (cases "bs = []")
    case True
    then show ?thesis using 2 b by (auto split: option.splits)
  next
    case False
    then have "b \<noteq> last bs" using "2.prems"(2) last_in_set [of bs] by auto
    then show ?thesis using "2.IH" [OF b(2,3)] 2 b False by (auto split: option.splits)
  qed
qed

lemma global_ok_live: "global_ok s as \<Longrightarrow> a \<in> set as \<Longrightarrow> \<exists>q. queues s a = Some q"
  using links_live [of "queues s" "g_head s" as] by (auto simp: global_ok_def)

lemma global_ok_set:
  assumes "global_ok s as" "queues s a = Some q" "mq_next q' = mq_next q"
  shows "global_ok (set_queue a q' s) as"
  using assms links_same_next [where st = "queues s", OF assms(2,3)] by (auto simp: global_ok_def set_queue_def)

lemma global_ok_new:
  assumes "global_ok s as" "queues s a = None" "mq_next q' = None"
  shows "global_ok (set_queue a q' s) as"
proof -
  have "a \<notin> set as" using assms(1,2) global_ok_live by fastforce
  then show ?thesis using assms by (auto simp: global_ok_def set_queue_def links_update)
qed

lemma global_ok_free:
  assumes "global_ok s as" "a \<notin> set as"
  shows "global_ok (s\<lparr>queues := (queues s)(a := None)\<rparr>) as"
  using assms by (auto simp: global_ok_def links_update)

lemma globalmq_push_spec:
  assumes "global_ok s as" "queues s a = Some q" "a \<notin> set as"
  shows "\<exists>s'. globalmq_push a s = Inr s' \<and> global_ok s' (as @ [a]) \<and> same_queues s s'"
proof (cases "as = []")
  case True
  then have "globalmq_push a s = Inr (s\<lparr>g_head := Some a, g_tail := Some a\<rparr>)"
    using assms by (simp add: globalmq_push_def deref_def global_ok_def)
  moreover have "global_ok (s\<lparr>g_head := Some a, g_tail := Some a\<rparr>) (as @ [a])"
    using assms True by (simp add: global_ok_def)
  ultimately show ?thesis by (simp add: same_queues_def)
next
  case False
  then obtain tq where tq: "queues s (last as) = Some tq"
    using global_ok_live [OF assms(1)] last_in_set [of as] by blast
  let ?s = "(set_queue (last as) (tq\<lparr>mq_next := Some a\<rparr>) s)\<lparr>g_tail := Some a\<rparr>"
  have n: "mq_next q = None" using assms by (simp add: global_ok_def)
  have "globalmq_push a s = Inr ?s"
    using assms False tq n by (simp add: globalmq_push_def deref_def global_ok_def)
  moreover have "global_ok ?s (as @ [a])"
    using assms False links_snoc [OF _ _ False tq assms(3,2) n]
    by (auto simp: global_ok_def set_queue_def split: if_splits)
  ultimately show ?thesis using tq by (auto simp: same_queues_def set_queue_def core_def)
qed

lemma globalmq_pop_empty: "global_ok s [] \<Longrightarrow> globalmq_pop s = Inr (None, s)"
  by (simp add: global_ok_def globalmq_pop_def)

lemma globalmq_pop_spec:
  assumes "global_ok s (a # as)"
  shows "\<exists>s'. globalmq_pop s = Inr (Some a, s') \<and> global_ok s' as \<and> same_queues s s'"
proof -
  obtain q where q: "g_head s = Some a" "queues s a = Some q" "links (queues s) (mq_next q) as"
    using assms by (auto simp: global_ok_def split: option.splits)
  let ?s = "\<lambda>s. set_queue a (q\<lparr>mq_next := None\<rparr>) s"
  have fresh: "a \<notin> set as" using assms by (simp add: global_ok_def)
  show ?thesis
  proof (cases as)
    case Nil
    then have "globalmq_pop s = Inr (Some a, ?s (s\<lparr>g_head := None, g_tail := None\<rparr>))"
      using q assms by (simp add: globalmq_pop_def deref_def global_ok_def)
    moreover have "global_ok (?s (s\<lparr>g_head := None, g_tail := None\<rparr>)) as"
      using assms Nil by (simp add: global_ok_def set_queue_def)
    ultimately show ?thesis using q by (auto simp: same_queues_def set_queue_def core_def)
  next
    case (Cons b bs)
    then have "mq_next q = Some b" using q(3) by simp
    then have "globalmq_pop s = Inr (Some a, ?s (s\<lparr>g_head := Some b\<rparr>))"
      using q by (simp add: globalmq_pop_def deref_def)
    moreover have "global_ok (?s (s\<lparr>g_head := Some b\<rparr>)) as"
      using assms q fresh Cons links_update [OF fresh, of "queues s"]
      by (auto simp: global_ok_def set_queue_def)
    ultimately show ?thesis using q by (auto simp: same_queues_def set_queue_def core_def)
  qed
qed

section \<open>The scheduling protocol\<close>

text \<open>
  The world: the store with the global queue, and the queues that a thread holds, which are the ones
  a worker has popped from the global queue and the ones whose service is being created. The steps
  are what the callers in \<open>skynet_server.c\<close> do with a queue:
  \<^item> \<open>create\<close>: \<open>skynet_context_new\<close> makes the queue, which its thread holds;
  \<^item> \<open>send\<close>: a message for a service that is not yet deleted, from any thread;
  \<^item> \<open>delete\<close>: \<open>delete_context\<close> marks the queue, once, when the last reference to the service goes;
  \<^item> \<open>take\<close>: a worker pops the global queue and holds what it gets;
  \<^item> \<open>receive\<close>: the holder pops a message and keeps the queue;
  \<^item> \<open>idle\<close>: the holder finds the queue empty and lets go of it;
  \<^item> \<open>put_back\<close>: the holder pushes the queue to the global queue, after its slice or when the service
    has been created;
  \<^item> \<open>release\<close>: \<open>skynet_mq_release\<close> by the holder, which frees a marked queue or puts it back.
  A sender and a receiver hold a reference to the service, so its queue is not marked.
\<close>

record world =
  sched :: scheduler
  held :: "nat set"

definition unmarked :: "world \<Rightarrow> nat \<Rightarrow> bool" where
  "unmarked w a = (case queues (sched w) a of None \<Rightarrow> False | Some q \<Rightarrow> \<not> mq_release q)"

inductive step :: "world \<Rightarrow> world \<Rightarrow> bool" where
  create: "queues (sched w) a = None \<Longrightarrow>
    step w \<lparr>sched = set_queue a (mq_create h) (sched w), held = insert a (held w)\<rparr>"
| send: "unmarked w a \<Longrightarrow> mq_push_at a m (sched w) = Inr s' \<Longrightarrow> step w (w\<lparr>sched := s'\<rparr>)"
| delete: "unmarked w a \<Longrightarrow> mq_mark_release a (sched w) = Inr s' \<Longrightarrow> step w (w\<lparr>sched := s'\<rparr>)"
| take: "globalmq_pop (sched w) = Inr (Some a, s') \<Longrightarrow> step w \<lparr>sched = s', held = insert a (held w)\<rparr>"
| receive: "a \<in> held w \<Longrightarrow> unmarked w a \<Longrightarrow> mq_pop_at a (sched w) = Inr (Some m, s') \<Longrightarrow>
    step w (w\<lparr>sched := s'\<rparr>)"
| idle: "a \<in> held w \<Longrightarrow> unmarked w a \<Longrightarrow> mq_pop_at a (sched w) = Inr (None, s') \<Longrightarrow>
    step w \<lparr>sched = s', held = held w - {a}\<rparr>"
| put_back: "a \<in> held w \<Longrightarrow> globalmq_push a (sched w) = Inr s' \<Longrightarrow>
    step w \<lparr>sched = s', held = held w - {a}\<rparr>"
| release: "a \<in> held w \<Longrightarrow> mq_release_at a (sched w) = Inr (dropped, s') \<Longrightarrow>
    step w \<lparr>sched = s', held = held w - {a}\<rparr>"

inductive reachable :: "world \<Rightarrow> bool" where
  init: "reachable \<lparr>sched = mq_init, held = {}\<rparr>"
| step: "reachable w \<Longrightarrow> step w w' \<Longrightarrow> reachable w'"

text \<open>
  The invariant: a queue is in the global queue or held, and not both, exactly if it is marked as in
  the global queue or as released; a queue that is neither is empty. The argument \<open>st\<close> (strict) is \<open>True\<close>
  in this theory. Without it, a released queue that is empty may also be lost, which is what a node has
  to reckon with when a handle is given out again (theory \<open>Node\<close>).
\<close>

definition queue_inv :: "bool \<Rightarrow> bool \<Rightarrow> message_queue \<Rightarrow> bool" where
  "queue_inv st owned q =
     (mq_ok q \<and> (owned \<longrightarrow> mq_in_global q \<or> mq_release q) \<and> (mq_in_global q \<longrightarrow> owned) \<and>
      (st \<longrightarrow> mq_release q \<longrightarrow> owned) \<and> (mq_in_global q \<or> messages q = []))"

definition sched_inv :: "bool \<Rightarrow> scheduler \<Rightarrow> nat set \<Rightarrow> nat list \<Rightarrow> bool" where
  "sched_inv st s hs as =
     (global_ok s as \<and> set as \<inter> hs = {} \<and> hs \<subseteq> dom (queues s) \<and>
      (\<forall>a q. queues s a = Some q \<longrightarrow> queue_inv st (a \<in> set as \<union> hs) q))"

lemma queue_inv_core: "core q = core q' \<Longrightarrow> queue_inv st b q = queue_inv st b q'"
  by (cases q; cases q') (auto simp: queue_inv_def core_def mq_ok_def messages_def)

lemma sched_inv_same:
  assumes "sched_inv st s hs as" "same_queues s s'" "global_ok s' as'" "set as' \<inter> hs' = {}"
    "set as' \<union> hs' = set as \<union> hs"
  shows "sched_inv st s' hs' as'"
proof -
  have "\<exists>q0. queues s a = Some q0 \<and> core q0 = core q" if "queues s' a = Some q" for a q
    using assms(2) that unfolding same_queues_def by (metis (no_types, lifting) map_option_eq_Some option.simps(9))
  then have "\<forall>a q. queues s' a = Some q \<longrightarrow> queue_inv st (a \<in> set as' \<union> hs') q"
    using assms(1,5) queue_inv_core unfolding sched_inv_def by metis
  moreover have "hs' \<subseteq> dom (queues s')"
  proof
    fix a assume "a \<in> hs'"
    then have "a \<in> set as \<union> hs" using assms(5) by auto
    then have "\<exists>q. queues s a = Some q" using assms(1) global_ok_live unfolding sched_inv_def by blast
    then show "a \<in> dom (queues s')"
      using assms(2) unfolding same_queues_def by (metis domIff map_option_is_None option.distinct(1))
  qed
  ultimately show ?thesis using assms(3,4) by (simp add: sched_inv_def)
qed

lemma sched_inv_set:
  assumes "sched_inv st s hs as" "queues s a = Some q" "mq_next q' = mq_next q"
    "queue_inv st (a \<in> set as \<union> hs') q'" "hs - {a} \<subseteq> hs'" "hs' \<subseteq> insert a hs" "set as \<inter> hs' = {}"
  shows "sched_inv st (set_queue a q' s) hs' as"
proof -
  have "global_ok (set_queue a q' s) as"
    using assms(1,2,3) global_ok_set by (simp add: sched_inv_def)
  moreover have "queue_inv st (b \<in> set as \<union> hs') r" if "queues (set_queue a q' s) b = Some r" for b r
  proof (cases "b = a")
    case True
    then show ?thesis using that assms(4) by (simp add: set_queue_def)
  next
    case False
    then have "b \<in> set as \<union> hs' \<longleftrightarrow> b \<in> set as \<union> hs" using assms(5,6) by auto
    then show ?thesis using that False assms(1) by (simp add: set_queue_def sched_inv_def)
  qed
  moreover have "hs' \<subseteq> dom (queues (set_queue a q' s))"
    using assms(1,6) by (auto simp: sched_inv_def set_queue_def)
  ultimately show ?thesis using assms(7) by (simp add: sched_inv_def)
qed

text \<open>What each operation does in a world with the invariant.\<close>

lemma send_spec:
  assumes "sched_inv st s hs as" "queues s a = Some q" "\<not> mq_release q"
  shows "\<exists>s'. mq_push_at a m s = Inr s' \<and>
    sched_inv st s' hs (if mq_in_global q then as else as @ [a])"
proof -
  have i: "queue_inv st (a \<in> set as \<union> hs) q" using assms(1,2) by (simp add: sched_inv_def)
  then have ok: "mq_ok q" "a \<in> set as \<union> hs \<longleftrightarrow> mq_in_global q" using assms(3) by (auto simp: queue_inv_def)
  have fields: "mq_next (mq_store m q) = mq_next q" "mq_in_global (mq_store m q) = mq_in_global q"
    "mq_release (mq_store m q) = mq_release q"
    by (simp_all add: mq_store_def expand_queue_def Let_def)
  show ?thesis
  proof (cases "mq_in_global q")
    case True
    have "sched_inv st (set_queue a (mq_store m q) s) hs as"
      by (rule sched_inv_set [OF assms(1,2)])
         (use ok True fields mq_store_spec [OF ok(1), of m] assms in \<open>auto simp: queue_inv_def sched_inv_def\<close>)
    then show ?thesis using True assms(2) fields by (simp add: mq_push_at_def deref_def Let_def)
  next
    case False
    let ?q = "(mq_store m q)\<lparr>mq_in_global := True\<rparr>"
    let ?s = "set_queue a ?q s"
    have g: "global_ok ?s as" using global_ok_set [of s as a q ?q] assms(1,2) fields by (simp add: sched_inv_def)
    have fresh: "a \<notin> set as" "a \<notin> hs" using ok False by auto
    obtain s' where s': "globalmq_push a ?s = Inr s'" "global_ok s' (as @ [a])" "same_queues ?s s'"
      using globalmq_push_spec [OF g, of a ?q] fresh by (auto simp: set_queue_def)
    have "sched_inv st ?s (insert a hs) as"
      by (rule sched_inv_set [OF assms(1,2)])
         (use ok False fresh fields mq_store_spec [OF ok(1), of m] assms in
           \<open>auto simp: queue_inv_def sched_inv_def mq_ok_def messages_def\<close>)
    then have "sched_inv st s' hs (as @ [a])"
      by (rule sched_inv_same [OF _ s'(3,2)]) (use fresh assms(1) in \<open>auto simp: sched_inv_def\<close>)
    then show ?thesis using s' False assms(2) fields by (simp add: mq_push_at_def deref_def Let_def)
  qed
qed

lemma held_inv:
  assumes "sched_inv st s hs as" "a \<in> hs" "queues s a = Some q"
  shows "queue_inv st True q \<and> a \<notin> set as"
proof -
  have "queue_inv st (a \<in> set as \<union> hs) q" using assms(1,3) unfolding sched_inv_def by blast
  moreover have "a \<notin> set as" using assms(1,2) unfolding sched_inv_def by blast
  ultimately show ?thesis using assms(2) by simp
qed

lemma delete_spec:
  assumes "sched_inv st s hs as" "queues s a = Some q" "\<not> mq_release q"
  shows "\<exists>s'. mq_mark_release a s = Inr s' \<and> sched_inv st s' hs (if mq_in_global q then as else as @ [a])"
proof -
  let ?q = "q\<lparr>mq_release := True\<rparr>" and ?s = "set_queue a (q\<lparr>mq_release := True\<rparr>) s"
  have i: "queue_inv st (a \<in> set as \<union> hs) q" using assms(1,2) by (simp add: sched_inv_def)
  then have own: "a \<in> set as \<union> hs \<longleftrightarrow> mq_in_global q" using assms(3) by (auto simp: queue_inv_def)
  show ?thesis
  proof (cases "mq_in_global q")
    case True
    have "sched_inv st ?s hs as"
      by (rule sched_inv_set [OF assms(1,2)])
         (use i True own assms(1) in \<open>auto simp: queue_inv_def sched_inv_def mq_ok_def messages_def\<close>)
    then show ?thesis using True assms by (simp add: mq_mark_release_def deref_def Let_def)
  next
    case False
    have g: "global_ok ?s as" using global_ok_set [of s as a q ?q] assms(1,2) by (simp add: sched_inv_def)
    have fresh: "a \<notin> set as" "a \<notin> hs" using own False by auto
    obtain s' where s': "globalmq_push a ?s = Inr s'" "global_ok s' (as @ [a])" "same_queues ?s s'"
      using globalmq_push_spec [OF g, of a ?q] fresh by (auto simp: set_queue_def)
    have "sched_inv st ?s (insert a hs) as"
      by (rule sched_inv_set [OF assms(1,2)])
         (use i False fresh assms(1) in \<open>auto simp: queue_inv_def sched_inv_def mq_ok_def messages_def\<close>)
    then have "sched_inv st s' hs (as @ [a])"
      by (rule sched_inv_same [OF _ s'(3,2)]) (use fresh assms(1) in \<open>auto simp: sched_inv_def\<close>)
    then show ?thesis using s' False assms by (simp add: mq_mark_release_def deref_def Let_def)
  qed
qed

lemma take_spec:
  assumes "sched_inv st s hs as"
  shows "case as of [] \<Rightarrow> globalmq_pop s = Inr (None, s)
    | a # as' \<Rightarrow> \<exists>s'. globalmq_pop s = Inr (Some a, s') \<and> sched_inv st s' (insert a hs) as' \<and> same_queues s s'"
proof (cases as)
  case Nil
  then show ?thesis using assms globalmq_pop_empty by (simp add: sched_inv_def)
next
  case (Cons a as')
  obtain s' where s': "globalmq_pop s = Inr (Some a, s')" "global_ok s' as'" "same_queues s s'"
    using globalmq_pop_spec [of s a as'] assms Cons by (auto simp: sched_inv_def)
  have "sched_inv st s' (insert a hs) as'"
    by (rule sched_inv_same [OF assms s'(3,2)]) (use assms Cons in \<open>auto simp: sched_inv_def global_ok_def\<close>)
  with s' Cons show ?thesis by auto
qed

lemma pop_spec:
  assumes "sched_inv st s hs as" "a \<in> hs" "queues s a = Some q" "st \<longrightarrow> \<not> mq_release q"
  shows "case messages q of
      [] \<Rightarrow> \<exists>s'. mq_pop_at a s = Inr (None, s') \<and> sched_inv st s' (hs - {a}) as
    | m # ms \<Rightarrow> \<exists>s'. mq_pop_at a s = Inr (Some m, s') \<and> sched_inv st s' hs as"
proof (cases "messages q")
  case Nil
  have i: "queue_inv st True q" "a \<notin> set as" using held_inv [OF assms(1-3)] by simp_all
  let ?q = "q\<lparr>mq_threshold := MQ_OVERLOAD, mq_in_global := False\<rparr>"
  have "mq_pop q = Some (None, ?q)"
    using i(1) Nil by (intro mq_pop_empty) (simp_all add: queue_inv_def)
  moreover have "sched_inv st (set_queue a ?q s) (hs - {a}) as"
    by (rule sched_inv_set [OF assms(1,3)])
       (use i assms(1,4) Nil in \<open>auto simp: queue_inv_def mq_ok_def messages_def MQ_OVERLOAD_def sched_inv_def\<close>)
  ultimately show ?thesis using Nil assms(3) by (simp add: mq_pop_at_def deref_def)
next
  case (Cons m ms)
  have i: "queue_inv st True q" using held_inv [OF assms(1-3)] by simp
  then obtain q' where q': "mq_pop q = Some (Some m, q')" "mq_ok q'" "mq_in_global q' = mq_in_global q"
    "mq_next q' = mq_next q" "mq_release q' = mq_release q"
    using mq_pop_message [of q m ms] Cons by (auto simp: queue_inv_def)
  have "sched_inv st (set_queue a q' s) hs as"
    by (rule sched_inv_set [OF assms(1,3) q'(4)])
       (use i q' assms Cons in \<open>auto simp: queue_inv_def sched_inv_def\<close>)
  then show ?thesis using q' Cons assms(3) by (simp add: mq_pop_at_def deref_def)
qed

lemma put_back_spec:
  assumes "sched_inv st s hs as" "a \<in> hs"
  shows "\<exists>s'. globalmq_push a s = Inr s' \<and> sched_inv st s' (hs - {a}) (as @ [a]) \<and> same_queues s s'"
proof -
  have g: "global_ok s as" "a \<notin> set as" using assms by (auto simp: sched_inv_def)
  obtain q where "queues s a = Some q" using assms by (auto simp: sched_inv_def)
  then obtain s' where s': "globalmq_push a s = Inr s'" "global_ok s' (as @ [a])" "same_queues s s'"
    using globalmq_push_spec g by blast
  have "sched_inv st s' (hs - {a}) (as @ [a])"
    by (rule sched_inv_same [OF assms(1) s'(3,2)]) (use assms in \<open>auto simp: sched_inv_def\<close>)
  with s' show ?thesis by blast
qed

lemma release_spec:
  assumes "sched_inv st s hs as" "a \<in> hs" "queues s a = Some q"
  shows "\<exists>s'. mq_release_at a s = Inr (if mq_release q then messages q else [], s') \<and>
    (if mq_release q then queues s' a = None \<and> sched_inv st s' (hs - {a}) as
     else sched_inv st s' (hs - {a}) (as @ [a]))"
proof (cases "mq_release q")
  case True
  have fresh: "a \<notin> set as" "global_ok s as" "mq_ok q"
    using assms by (auto simp: sched_inv_def queue_inv_def)
  obtain q' where q': "drop_loop q = Some (messages q, q')" "mq_next q' = None"
    using drop_loop_spec [OF fresh(3)] fresh assms(3) by (auto simp: global_ok_def)
  let ?s = "s\<lparr>queues := (queues s)(a := None)\<rparr>"
  have "sched_inv st ?s (hs - {a}) as"
    using global_ok_free [OF fresh(2,1)] assms(1) by (auto simp: sched_inv_def)
  then show ?thesis using True q' assms(3) by (simp add: mq_release_at_def drop_queue_def deref_def)
next
  case False
  then show ?thesis
    using put_back_spec [OF assms(1,2)] assms(3) by (auto simp: mq_release_at_def deref_def)
qed

lemma create_spec:
  assumes "sched_inv st s hs as" "queues s a = None"
  shows "sched_inv st (set_queue a (mq_create h) s) (insert a hs) as"
proof -
  have "global_ok (set_queue a (mq_create h) s) as"
    using assms by (intro global_ok_new) (auto simp: sched_inv_def mq_create_def)
  moreover have "a \<notin> set as" "a \<notin> hs" using assms global_ok_live by (fastforce simp: sched_inv_def)+
  moreover have "queue_inv st True (mq_create h)"
    using mq_create_ok by (simp add: queue_inv_def mq_create_def)
  ultimately show ?thesis using assms by (auto simp: sched_inv_def set_queue_def)
qed

lemma step_inv:
  assumes "step w w'" "sched_inv True (sched w) (held w) as"
  shows "\<exists>as'. sched_inv True (sched w') (held w') as'"
  using assms
proof cases
  case (create a h)
  then show ?thesis using create_spec [OF assms(2)] by auto
next
  case (send a m s')
  then show ?thesis using send_spec [OF assms(2), of a _ m] by (auto simp: unmarked_def split: option.splits)
next
  case (delete a s')
  then show ?thesis using delete_spec [OF assms(2), of a] by (auto simp: unmarked_def split: option.splits)
next
  case (take a s')
  then show ?thesis using take_spec [OF assms(2)] by (cases as) auto
next
  case (receive a m s')
  then obtain q where "queues (sched w) a = Some q" "\<not> mq_release q"
    by (auto simp: unmarked_def split: option.splits)
  with pop_spec [OF assms(2) receive(2)] receive show ?thesis by (auto split: list.splits)
next
  case (idle a s')
  then obtain q where "queues (sched w) a = Some q" "\<not> mq_release q"
    by (auto simp: unmarked_def split: option.splits)
  with pop_spec [OF assms(2) idle(2)] idle show ?thesis by (auto split: list.splits)
next
  case (put_back a s')
  then show ?thesis using put_back_spec [OF assms(2), of a] by auto
next
  case (release a dropped s')
  then obtain q where "queues (sched w) a = Some q" using assms(2) by (auto simp: sched_inv_def)
  with release_spec [OF assms(2) release(2)] release show ?thesis by (auto split: if_splits)
qed

lemma reachable_inv: "reachable w \<Longrightarrow> \<exists>as. sched_inv True (sched w) (held w) as"
proof (induction rule: reachable.induct)
  case init
  have "sched_inv True mq_init {} []" by (simp add: sched_inv_def global_ok_def mq_init_def)
  then show ?case by auto
next
  case (step w w')
  then show ?case using step_inv by blast
qed

section \<open>Properties\<close>

text \<open>
  C8: In every reachable world of any number of threads, senders and services, a queue with a waiting
  message is scheduled exactly once: it is in the global queue or held by one thread, and not both, and
  it is in the global queue at most once. So no message is lost for want of a wake-up, and no two
  workers ever process the same service.
\<close>
theorem waiting_queue_scheduled_once:
  assumes "reachable w"
  shows "\<exists>as. global_ok (sched w) as \<and> distinct as \<and>
    (\<forall>a q. queues (sched w) a = Some q \<longrightarrow>
       (messages q \<noteq> [] \<longrightarrow> (a \<in> set as) \<noteq> (a \<in> held w)) \<and>
       (a \<in> set as \<union> held w \<longleftrightarrow> mq_in_global q \<or> mq_release q))"
proof -
  obtain as where i: "sched_inv True (sched w) (held w) as" using reachable_inv [OF assms] by blast
  have "queue_inv True (a \<in> set as \<union> held w) q" if "queues (sched w) a = Some q" for a q
    using i that by (simp add: sched_inv_def)
  then show ?thesis using i by (intro exI [of _ as]) (auto simp: sched_inv_def global_ok_def queue_inv_def)
qed

lemma reachable_example:
  "reachable \<lparr>sched = set_queue 0 (mq_store no_message (mq_create 5)) (set_queue 0 (mq_create 5) mq_init), held = {0}\<rparr>"
proof -
  let ?w = "\<lparr>sched = set_queue 0 (mq_create 5) mq_init, held = {0}\<rparr>"
  have "step \<lparr>sched = mq_init, held = {}\<rparr> ?w"
    using step.create [of "\<lparr>sched = mq_init, held = {}\<rparr>" 0 5] by (simp add: mq_init_def)
  with reachable.init have "reachable ?w" by (rule reachable.step)
  moreover have "step ?w (?w\<lparr>sched := set_queue 0 (mq_store no_message (mq_create 5)) (set_queue 0 (mq_create 5) mq_init)\<rparr>)"
    by (rule step.send [of _ 0 no_message])
       (simp_all add: unmarked_def set_queue_def mq_create_def mq_push_at_def deref_def mq_store_def
          DEFAULT_QUEUE_SIZE_def Let_def)
  ultimately show ?thesis using reachable.step by fastforce
qed

theorem waiting_queue_scheduled_once_witness:
  "\<exists>as. global_ok (set_queue 0 (mq_store no_message (mq_create 5)) (set_queue 0 (mq_create 5) mq_init)) as \<and> distinct as \<and>
    (\<forall>a q. queues (set_queue 0 (mq_store no_message (mq_create 5)) (set_queue 0 (mq_create 5) mq_init)) a = Some q \<longrightarrow>
       (messages q \<noteq> [] \<longrightarrow> (a \<in> set as) \<noteq> (a \<in> {0})) \<and>
       (a \<in> set as \<union> {0} \<longleftrightarrow> mq_in_global q \<or> mq_release q))"
  using waiting_queue_scheduled_once [OF reachable_example] by simp

text \<open>
  C23: In every reachable world every operation of the protocol that a thread may start ends without a
  failed assertion, without touching a freed queue and without running forever: a send, the marking
  of a deleted service's queue, a pop of the global queue, and for a queue that is held its pop, its
  push to the global queue and its release.
\<close>
theorem protocol_never_fails:
  assumes "reachable w"
  shows "(\<exists>r s'. globalmq_pop (sched w) = Inr (r, s')) \<and>
    (unmarked w a \<longrightarrow> (\<exists>s'. mq_push_at a m (sched w) = Inr s') \<and> (\<exists>s'. mq_mark_release a (sched w) = Inr s')) \<and>
    (a \<in> held w \<longrightarrow> (\<exists>s'. globalmq_push a (sched w) = Inr s') \<and> (\<exists>ms s'. mq_release_at a (sched w) = Inr (ms, s'))) \<and>
    (a \<in> held w \<and> unmarked w a \<longrightarrow> (\<exists>r s'. mq_pop_at a (sched w) = Inr (r, s')))"
proof -
  obtain as where i: "sched_inv True (sched w) (held w) as" using reachable_inv [OF assms] by blast
  have "\<exists>r s'. globalmq_pop (sched w) = Inr (r, s')"
    using take_spec [OF i] by (auto split: list.splits)
  moreover have "(\<exists>s'. mq_push_at a m (sched w) = Inr s') \<and> (\<exists>s'. mq_mark_release a (sched w) = Inr s')"
    if "unmarked w a"
    using that send_spec [OF i, of a _ m] delete_spec [OF i, of a]
    by (auto simp: unmarked_def split: option.splits)
  moreover have "(\<exists>s'. globalmq_push a (sched w) = Inr s') \<and> (\<exists>ms s'. mq_release_at a (sched w) = Inr (ms, s'))"
    if h: "a \<in> held w"
  proof -
    obtain q where "queues (sched w) a = Some q" using h i by (auto simp: sched_inv_def)
    then show ?thesis using put_back_spec [OF i h] release_spec [OF i h] by blast
  qed
  moreover have "\<exists>r s'. mq_pop_at a (sched w) = Inr (r, s')" if h: "a \<in> held w" "unmarked w a"
  proof -
    obtain q where "queues (sched w) a = Some q" "\<not> mq_release q"
      using h(2) by (auto simp: unmarked_def split: option.splits)
    then show ?thesis using pop_spec [OF i h(1)] by (auto split: list.splits)
  qed
  ultimately show ?thesis by blast
qed

theorem protocol_never_fails_witness:
  "\<exists>r s'. mq_pop_at 0 (set_queue 0 (mq_store no_message (mq_create 5)) (set_queue 0 (mq_create 5) mq_init)) = Inr (r, s')"
  using protocol_never_fails [OF reachable_example, of 0]
  by (auto simp: unmarked_def set_queue_def mq_store_def mq_create_def DEFAULT_QUEUE_SIZE_def)

text \<open>
  Pushes (\<open>Some m\<close>) and pops (\<open>None\<close>) in any order, with the answers of the pops, and the same on a list.
\<close>

fun queue_ops :: "skynet_message option list \<Rightarrow> message_queue \<Rightarrow> (skynet_message option list \<times> message_queue) option" where
  "queue_ops [] q = Some ([], q)"
| "queue_ops (Some m # ops) q = queue_ops ops (mq_store m q)"
| "queue_ops (None # ops) q =
     (case mq_pop q of
        None \<Rightarrow> None
      | Some (r, q) \<Rightarrow> (case queue_ops ops q of None \<Rightarrow> None | Some (rs, q) \<Rightarrow> Some (r # rs, q)))"

fun list_ops :: "skynet_message option list \<Rightarrow> skynet_message list \<Rightarrow> skynet_message option list \<times> skynet_message list" where
  "list_ops [] ms = ([], ms)"
| "list_ops (Some m # ops) ms = list_ops ops (ms @ [m])"
| "list_ops (None # ops) [] = (let (rs, ms) = list_ops ops [] in (None # rs, ms))"
| "list_ops (None # ops) (m # ms) = (let (rs, ms) = list_ops ops ms in (Some m # rs, ms))"

lemma queue_ops_spec:
  assumes "mq_ok q"
  shows "\<exists>q'. queue_ops ops q = Some (fst (list_ops ops (messages q)), q') \<and> mq_ok q' \<and>
    messages q' = snd (list_ops ops (messages q))"
  using assms
proof (induction ops arbitrary: q)
  case Nil
  then show ?case by simp
next
  case (Cons oper ops)
  show ?case
  proof (cases oper)
    case (Some m)
    then show ?thesis using Cons.IH [of "mq_store m q"] mq_store_spec [OF Cons.prems, of m] by simp
  next
    case None
    show ?thesis
    proof (cases "messages q")
      case Nil
      let ?q = "q\<lparr>mq_threshold := MQ_OVERLOAD, mq_in_global := False\<rparr>"
      have "mq_ok ?q" "messages ?q = []"
        using Cons.prems Nil by (simp_all add: mq_ok_def messages_def MQ_OVERLOAD_def)
      then show ?thesis
        using Cons.IH [of ?q] mq_pop_empty [OF Cons.prems Nil] None Nil by (auto simp: case_prod_unfold Let_def)
    next
      case (Cons m ms)
      then obtain q1 where "mq_pop q = Some (Some m, q1)" "mq_ok q1" "messages q1 = ms"
        using mq_pop_message [OF Cons.prems Cons] by blast
      then show ?thesis
        using Cons.IH [of q1] None Cons by (auto simp: case_prod_unfold Let_def)
    qed
  qed
qed

text \<open>
  C24: A queue is first-in-first-out: after any sequence of pushes and pops on a new queue, however
  they are mixed and wherever in the ring its head stands when the ring has to be enlarged, every pop
  has given what it gives on a list to whose end the pushes append (nothing on an empty one), and the
  loop that empties the queue ends and gives the rest of this list.
\<close>
theorem queue_delivers_in_order:
  "\<exists>q q'. queue_ops ops (mq_create h) = Some (fst (list_ops ops []), q) \<and>
    drop_loop q = Some (snd (list_ops ops []), q')"
proof -
  obtain q where "queue_ops ops (mq_create h) = Some (fst (list_ops ops []), q)" "mq_ok q" "messages q = snd (list_ops ops [])"
    using queue_ops_spec [of "mq_create h" ops] mq_create_ok [of h] by auto
  then show ?thesis using drop_loop_spec [of q] by auto
qed

text \<open>
  \<open>skynet_mq_pop\<close> on a queue with messages gives the oldest one, keeps the flags, and raises the
  overload mark exactly when more messages are left than the threshold; the threshold is then doubled
  just until it covers them. The mark is the number of messages left.
\<close>
theorem pop_overload_mark:
  assumes "mq_ok q" "messages q = m # ms"
  shows "\<exists>q' k. mq_pop q = Some (Some m, q') \<and> messages q' = ms \<and> mq_length q' = length ms \<and>
    mq_in_global q' = mq_in_global q \<and>
    fst (take_overload q') = (if mq_threshold q < length ms then length ms else mq_overload q) \<and>
    mq_threshold q' = mq_threshold q * 2 ^ k \<and> length ms \<le> mq_threshold q' \<and>
    (k = 0 \<or> mq_threshold q * 2 ^ (k - 1) < length ms)"
proof -
  obtain q' k where "mq_pop q = Some (Some m, q')" "mq_ok q'" "messages q' = ms" "mq_in_global q' = mq_in_global q"
    "mq_overload q' = (if mq_threshold q < length ms then length ms else mq_overload q)"
    "mq_threshold q' = mq_threshold q * 2 ^ k" "length ms \<le> mq_threshold q'"
    "k = 0 \<or> mq_threshold q * 2 ^ (k - 1) < length ms"
    using mq_pop_message [OF assms] by blast
  moreover from this have "mq_length q' = length ms" by (simp add: mq_length_messages)
  moreover have "fst (take_overload q') = mq_overload q'" by (simp add: take_overload_def)
  ultimately show ?thesis by auto
qed

theorem pop_overload_mark_witness:
  "\<exists>q' k. mq_pop \<lparr>mq_handle = 1, mq_head = 2, mq_tail = 1, mq_release = False, mq_in_global = True,
        mq_overload = 0, mq_threshold = 1, mq_queue = replicate 4 no_message, mq_next = None\<rparr> = Some (Some no_message, q') \<and>
    messages q' = [no_message, no_message] \<and> mq_length q' = length [no_message, no_message] \<and>
    mq_in_global q' = True \<and> fst (take_overload q') = (if 1 < length [no_message, no_message] then 2 else 0) \<and>
    mq_threshold q' = 1 * 2 ^ k \<and> length [no_message, no_message] \<le> mq_threshold q' \<and>
    (k = 0 \<or> 1 * 2 ^ (k - 1) < length [no_message, no_message])"
  using pop_overload_mark [of "\<lparr>mq_handle = 1, mq_head = 2, mq_tail = 1, mq_release = False, mq_in_global = True,
        mq_overload = 0, mq_threshold = 1, mq_queue = replicate 4 no_message, mq_next = None\<rparr>"
      no_message "[no_message, no_message]"]
  by (simp add: mq_ok_def messages_def ring_list_def numeral_eq_Suc)

text \<open>
  The release of the queue of a deleted service by the thread that holds it hands every waiting
  message to \<open>drop_func\<close>, in order, and frees the queue, while the other queues stay scheduled; a
  queue whose service is not deleted yet goes to the end of the global queue and loses nothing.
\<close>
theorem release_drops_all:
  assumes "reachable w" "a \<in> held w" "queues (sched w) a = Some q"
  shows "\<exists>as s'. global_ok (sched w) as \<and>
    (if mq_release q
     then mq_release_at a (sched w) = Inr (messages q, s') \<and> queues s' a = None \<and> global_ok s' as
     else mq_release_at a (sched w) = Inr ([], s') \<and> global_ok s' (as @ [a]))"
proof -
  obtain as where i: "sched_inv True (sched w) (held w) as" using reachable_inv [OF assms(1)] by blast
  then show ?thesis
    using release_spec [OF i assms(2,3)] by (intro exI [of _ as]) (auto simp: sched_inv_def)
qed

theorem release_drops_all_witness:
  "\<exists>as s'. global_ok (set_queue 0 (mq_store no_message (mq_create 5)) (set_queue 0 (mq_create 5) mq_init)) as \<and>
    (if mq_release (mq_store no_message (mq_create 5))
     then mq_release_at 0 (set_queue 0 (mq_store no_message (mq_create 5)) (set_queue 0 (mq_create 5) mq_init)) =
        Inr (messages (mq_store no_message (mq_create 5)), s') \<and> queues s' 0 = None \<and> global_ok s' as
     else mq_release_at 0 (set_queue 0 (mq_store no_message (mq_create 5)) (set_queue 0 (mq_create 5) mq_init)) =
        Inr ([], s') \<and> global_ok s' (as @ [0]))"
proof -
  have "queues (sched \<lparr>sched = set_queue 0 (mq_store no_message (mq_create 5)) (set_queue 0 (mq_create 5) mq_init),
      held = {0}\<rparr>) 0 = Some (mq_store no_message (mq_create 5))"
    by (simp add: set_queue_def)
  from release_drops_all [OF reachable_example _ this] show ?thesis
    unfolding world.simps by simp
qed

end
