(* ===== verification/Handle.thy ===== *)
theory Handle
  imports Prelude
begin

text \<open>
  The table of the services, \<open>src/3rd/skynet/skynet-src/skynet_handle.c\<close>: a handle is a 24-bit number below
  the 8 bits of the node, and the service with the handle sits in the slot that the low bits of the
  handle name; local names map to handles through an array that is kept sorted. Every function holds the
  table's lock from its first to its last access, so each is one operation here.

  A service (\<open>struct skynet_context\<close>) is an address; the handle stored in it is read through the
  argument \<open>hof\<close>, which is \<open>skynet_context_handle\<close> on the memory of the moment.
\<close>

definition HANDLE_MASK :: u32 where
  "HANDLE_MASK = 0xffffff"

definition HANDLE_REMOTE_SHIFT :: nat where
  "HANDLE_REMOTE_SHIFT = 24"

definition DEFAULT_SLOT_SIZE :: nat where
  "DEFAULT_SLOT_SIZE = 4"

definition MAX_SLOT_SIZE :: nat where
  "MAX_SLOT_SIZE = 0x40000000"

record handle_name =
  hn_name :: bytes
  hn_handle :: u32

text \<open>The fields \<open>slot_size\<close> and \<open>name_cap\<close> are the lengths of the arrays \<open>hs_slot\<close> and \<open>hs_name\<close>.\<close>

record handle_storage =
  hs_harbor :: u32
  hs_index :: u32
  hs_slot :: "nat option list"
  hs_name_count :: nat
  hs_name :: "handle_name list"

definition no_name :: handle_name where
  "no_name = \<lparr>hn_name = [], hn_handle = 0\<rparr>"

definition handle_init :: "u32 \<Rightarrow> handle_storage" where
  "handle_init harbor =
     \<lparr>hs_harbor = push_bit HANDLE_REMOTE_SHIFT (harbor AND 0xff), hs_index = 1,
      hs_slot = replicate DEFAULT_SLOT_SIZE None, hs_name_count = 0, hs_name = replicate 2 no_name\<rparr>"

section \<open>Handles\<close>

definition slot_of :: "nat \<Rightarrow> u32 \<Rightarrow> nat" where
  "slot_of slot_size handle = unat (handle AND (of_nat slot_size - 1))"

text \<open>The inner loop of \<open>skynet_handle_register\<close>, for \<open>n\<close> more values of \<open>i\<close>.\<close>

fun find_slot :: "handle_storage \<Rightarrow> nat \<Rightarrow> nat \<Rightarrow> (u32 \<times> nat) option" where
  "find_slot s i 0 = None"
| "find_slot s i (Suc n) =
     (let handle = (of_nat i + hs_index s) AND HANDLE_MASK;
          hash = slot_of (length (hs_slot s)) handle
      in if hs_slot s ! hash = None then Some (handle, hash) else find_slot s (i + 1) n)"

text \<open>The loop that moves the services to the table of double size.\<close>

fun move_slots :: "(nat \<Rightarrow> u32) \<Rightarrow> nat option list \<Rightarrow> nat option list \<Rightarrow> nat option list res" where
  "move_slots hof [] new_slot = Inr new_slot"
| "move_slots hof (c # cs) new_slot =
     (case c of
        None \<Rightarrow> Inl Out_of_bounds
      | Some ctx \<Rightarrow>
         (let hash = slot_of (length new_slot) (hof ctx) in
          if new_slot ! hash \<noteq> None then Inl Assert_failed
          else move_slots hof cs (new_slot[hash := Some ctx])))"

partial_function (option) handle_register ::
  "(nat \<Rightarrow> u32) \<Rightarrow> nat \<Rightarrow> handle_storage \<Rightarrow> (u32 \<times> handle_storage) res option" where
  "handle_register hof ctx s =
     (case find_slot s 0 (length (hs_slot s)) of
        Some (handle, hash) \<Rightarrow>
          Some (Inr (handle OR hs_harbor s,
                     s\<lparr>hs_slot := (hs_slot s)[hash := Some ctx], hs_index := handle + 1\<rparr>))
      | None \<Rightarrow>
          (if \<not> int (length (hs_slot s)) * 2 - 1 \<le> uint HANDLE_MASK then Some (Inl Assert_failed)
           else
             (case move_slots hof (hs_slot s) (replicate (length (hs_slot s) * 2) None) of
                Inl e \<Rightarrow> Some (Inl e)
              | Inr new_slot \<Rightarrow> handle_register hof ctx (s\<lparr>hs_slot := new_slot\<rparr>))))"

definition handle_grab :: "(nat \<Rightarrow> u32) \<Rightarrow> u32 \<Rightarrow> handle_storage \<Rightarrow> nat option" where
  "handle_grab hof handle s =
     (case hs_slot s ! slot_of (length (hs_slot s)) handle of
        Some ctx \<Rightarrow> if hof ctx = handle then Some ctx else None
      | None \<Rightarrow> None)"

text \<open>
  The loop of \<open>skynet_handle_retire\<close> that closes up the names: \<open>i\<close> is the entry looked at, \<open>j\<close> the place
  for the next one that stays.
\<close>

function squeeze :: "u32 \<Rightarrow> handle_name list \<Rightarrow> nat \<Rightarrow> nat \<Rightarrow> nat \<Rightarrow> handle_name list \<times> nat" where
  "squeeze handle name n i j =
     (if n \<le> i then (name, j)
      else if hn_handle (name ! i) = handle then squeeze handle name n (i + 1) j
      else squeeze handle (if i \<noteq> j then name[j := name ! i] else name) n (i + 1) (j + 1))"
  by pat_completeness auto
termination
  by (relation "measure (\<lambda>(handle, name, n, i, j). n - i)") auto

declare squeeze.simps [simp del]

text \<open>The result is the service whose reference is to be released, and the table.\<close>

definition handle_retire :: "(nat \<Rightarrow> u32) \<Rightarrow> u32 \<Rightarrow> handle_storage \<Rightarrow> nat option \<times> handle_storage" where
  "handle_retire hof handle s =
     (let hash = slot_of (length (hs_slot s)) handle in
      case hs_slot s ! hash of
        None \<Rightarrow> (None, s)
      | Some ctx \<Rightarrow>
          (if hof ctx = handle
           then (let (name, j) = squeeze handle (hs_name s) (hs_name_count s) 0 0
                 in (Some ctx, s\<lparr>hs_slot := (hs_slot s)[hash := None], hs_name := name, hs_name_count := j\<rparr>))
           else (None, s)))"

section \<open>Names\<close>

text \<open>C strings are byte lists without their final 0; \<open>strcmp\<close> compares unsigned bytes.\<close>

fun strcmp :: "bytes \<Rightarrow> bytes \<Rightarrow> int" where
  "strcmp [] [] = 0"
| "strcmp [] (y # ys) = - 1"
| "strcmp (x # xs) [] = 1"
| "strcmp (x # xs) (y # ys) = (if x = y then strcmp xs ys else if x < y then - 1 else 1)"

text \<open>
  The search loop that \<open>skynet_handle_findname\<close> and \<open>_insert_name\<close> share: the place of the name, or the
  place before which it belongs.
\<close>

function search_name :: "handle_name list \<Rightarrow> bytes \<Rightarrow> int \<Rightarrow> int \<Rightarrow> nat + nat" where
  "search_name ns name beg en =
     (if en < beg then Inr (nat beg)
      else
        (let mid = (beg + en) div 2;
             c = strcmp (hn_name (ns ! nat mid)) name
         in if c = 0 then Inl (nat mid)
            else if c < 0 then search_name ns name (mid + 1) en
            else search_name ns name beg (mid - 1)))"
  by pat_completeness auto
termination
  by (relation "measure (\<lambda>(ns, name, beg, en). nat (en + 1 - beg))") auto

declare search_name.simps [simp del]

definition handle_findname :: "bytes \<Rightarrow> handle_storage \<Rightarrow> u32" where
  "handle_findname name s =
     (case search_name (hs_name s) name 0 (int (hs_name_count s) - 1) of
        Inl i \<Rightarrow> hn_handle (hs_name s ! i)
      | Inr _ \<Rightarrow> 0)"

text \<open>\<open>for (i=name_count;i>before;i--) name[i] = name[i-1]\<close>\<close>

fun shift_up :: "handle_name list \<Rightarrow> nat \<Rightarrow> nat \<Rightarrow> handle_name list" where
  "shift_up ns 0 before = ns"
| "shift_up ns (Suc i) before =
     (if before < Suc i then shift_up (ns[Suc i := ns ! i]) i before else ns)"

definition insert_name_before :: "handle_storage \<Rightarrow> bytes \<Rightarrow> u32 \<Rightarrow> nat \<Rightarrow> handle_storage res" where
  "insert_name_before s name handle before =
     (let count = hs_name_count s;
          cap = length (hs_name s);
          ns = (if cap \<le> count
                then (if MAX_SLOT_SIZE < cap * 2 then Inl Assert_failed
                      else Inr (take before (hs_name s) @ [no_name] @ drop before (take count (hs_name s)) @
                                replicate (cap * 2 - (count + 1)) no_name))
                else Inr (shift_up (hs_name s) count before))
      in bind_r ns (\<lambda>ns.
           if before < length ns
           then Inr (s\<lparr>hs_name := ns[before := \<lparr>hn_name = name, hn_handle = handle\<rparr>], hs_name_count := count + 1\<rparr>)
           else Inl Out_of_bounds))"

text \<open>\<open>skynet_handle_namehandle\<close>: NULL (\<open>None\<close>) for a name that exists.\<close>

definition handle_namehandle :: "u32 \<Rightarrow> bytes \<Rightarrow> handle_storage \<Rightarrow> (bytes option \<times> handle_storage) res" where
  "handle_namehandle handle name s =
     (case search_name (hs_name s) name 0 (int (hs_name_count s) - 1) of
        Inl _ \<Rightarrow> Inr (None, s)
      | Inr before \<Rightarrow> bind_r (insert_name_before s name handle before) (\<lambda>s. Inr (Some name, s)))"

section \<open>The invariant of the table\<close>

definition registered :: "handle_storage \<Rightarrow> nat set" where
  "registered s = {ctx. Some ctx \<in> set (hs_slot s)}"

text \<open>
  The table has \<open>2 ^ k\<close> slots, every service sits in the slot of its handle, and every handle carries
  the node's number.
\<close>

definition table_ok :: "nat \<Rightarrow> (nat \<Rightarrow> u32) \<Rightarrow> handle_storage \<Rightarrow> bool" where
  "table_ok k hof s =
     (k \<le> 24 \<and> length (hs_slot s) = 2 ^ k \<and> hs_harbor s AND HANDLE_MASK = 0 \<and>
      (\<forall>i < 2 ^ k. \<forall>ctx. hs_slot s ! i = Some ctx \<longrightarrow>
         slot_of (2 ^ k) (hof ctx) = i \<and> hof ctx AND NOT HANDLE_MASK = hs_harbor s))"

lemma unat_take_bit_mod: "unat (take_bit k (h :: u32)) = unat h mod 2 ^ k"
  unfolding unsigned_take_bit_eq by (rule take_bit_eq_mod)

lemma slot_of_mod: "slot_of (2 ^ k) h = unat h mod 2 ^ k"
proof -
  have "h AND (of_nat (2 ^ k) - 1) = take_bit k h"
    by (simp add: take_bit_eq_mask mask_eq_exp_minus_1)
  then show ?thesis unfolding slot_of_def by (simp only: unat_take_bit_mod)
qed

lemma slot_of_less: "slot_of (2 ^ k) h < 2 ^ k"
  by (simp add: slot_of_mod)

lemma unat_mask: "unat (h AND HANDLE_MASK) = unat h mod 2 ^ 24"
proof -
  have "h AND HANDLE_MASK = take_bit 24 h"
    by (simp add: take_bit_eq_mask mask_eq_exp_minus_1 HANDLE_MASK_def)
  then show ?thesis by (simp only: unat_take_bit_mod)
qed

lemma slot_of_masked: "k \<le> 24 \<Longrightarrow> slot_of (2 ^ k) (h AND HANDLE_MASK) = slot_of (2 ^ k) h"
  unfolding slot_of_mod unat_mask by (rule mod_mod_cancel) (rule le_imp_power_dvd)

lemma slot_of_index: "k \<le> 32 \<Longrightarrow> slot_of (2 ^ k) (of_nat j + x :: u32) = (j + unat x) mod 2 ^ k"
proof -
  assume "k \<le> 32"
  then have d: "(2 :: nat) ^ k dvd 2 ^ 32" by (rule le_imp_power_dvd)
  have "unat (of_nat j + x :: u32) = (j + unat x) mod 2 ^ 32"
    by (simp add: unat_word_ariths unat_of_nat mod_simps)
  then show ?thesis by (simp only: slot_of_mod mod_mod_cancel [OF d])
qed

lemma low_harbor: "b AND HANDLE_MASK = 0 \<Longrightarrow> k \<le> 24 \<Longrightarrow> slot_of (2 ^ k) (h AND HANDLE_MASK OR b) = slot_of (2 ^ k) h"
proof -
  assume b: "b AND HANDLE_MASK = 0" and k: "k \<le> 24"
  have "(h AND HANDLE_MASK OR b) AND HANDLE_MASK = h AND HANDLE_MASK"
    using b by (simp add: bit.conj_disj_distrib2 and.assoc)
  then show ?thesis using slot_of_masked [OF k] by metis
qed

lemma high_harbor: "b AND HANDLE_MASK = 0 \<Longrightarrow> (h AND HANDLE_MASK OR b) AND NOT HANDLE_MASK = b"
  by (rule bit_word_eqI) (drule arg_cong [where f = "\<lambda>w. bit w n" for n], auto simp: bit_simps)

lemma registered_slot:
  assumes "table_ok k hof s" "ctx \<in> registered s"
  shows "hs_slot s ! slot_of (2 ^ k) (hof ctx) = Some ctx \<and> hof ctx AND NOT HANDLE_MASK = hs_harbor s"
proof -
  obtain i where "i < length (hs_slot s)" "hs_slot s ! i = Some ctx"
    using assms(2) by (auto simp: registered_def in_set_conv_nth)
  then show ?thesis using assms(1) by (auto simp: table_ok_def)
qed

lemma slot_registered: "i < length (hs_slot s) \<Longrightarrow> hs_slot s ! i = Some ctx \<Longrightarrow> ctx \<in> registered s"
  by (metis nth_mem registered_def mem_Collect_eq)

lemma grab_iff:
  assumes "table_ok k hof s"
  shows "handle_grab hof h s = Some ctx \<longleftrightarrow> ctx \<in> registered s \<and> hof ctx = h"
proof
  assume "handle_grab hof h s = Some ctx"
  moreover have "slot_of (2 ^ k) h < length (hs_slot s)" "length (hs_slot s) = 2 ^ k"
    using assms slot_of_less by (simp_all add: table_ok_def)
  ultimately show "ctx \<in> registered s \<and> hof ctx = h"
    using slot_registered by (auto simp: handle_grab_def split: option.splits if_splits)
next
  assume "ctx \<in> registered s \<and> hof ctx = h"
  then show "handle_grab hof h s = Some ctx"
    using registered_slot [OF assms, of ctx] assms by (auto simp: handle_grab_def table_ok_def)
qed

section \<open>Registering\<close>

lemma find_slot_Some:
  assumes "find_slot s i n = Some (h, hash)"
  shows "hs_slot s ! hash = None \<and> hash = slot_of (length (hs_slot s)) h \<and>
    (\<exists>x. h = x AND HANDLE_MASK)"
  using assms by (induction s i n rule: find_slot.induct) (auto simp: Let_def split: if_splits)

lemma find_slot_None:
  assumes "find_slot s i n = None" "i \<le> j" "j < i + n"
  shows "hs_slot s ! slot_of (length (hs_slot s)) ((of_nat j + hs_index s) AND HANDLE_MASK) \<noteq> None"
  using assms
proof (induction s i n rule: find_slot.induct)
  case (1 s i)
  then show ?case by simp
next
  case (2 s i n)
  then show ?case by (cases "i = j") (auto simp: Let_def split: if_splits)
qed

lemma find_slot_full:
  assumes "table_ok k hof s" "find_slot s 0 (length (hs_slot s)) = None" "i < 2 ^ k"
  shows "hs_slot s ! i \<noteq> None"
proof -
  have k: "k \<le> 24" "length (hs_slot s) = 2 ^ k" using assms(1) by (simp_all add: table_ok_def)
  let ?x = "unat (hs_index s)"
  define j where "j = (i + (2 ^ k - ?x mod 2 ^ k)) mod 2 ^ k"
  have j: "j < length (hs_slot s)" by (simp add: j_def k)
  have "(j + ?x) mod 2 ^ k = (i + (2 ^ k - ?x mod 2 ^ k) + ?x mod 2 ^ k) mod 2 ^ k"
    by (simp add: j_def mod_simps)
  also have "i + (2 ^ k - ?x mod 2 ^ k) + ?x mod 2 ^ k = i + 2 ^ k"
  proof -
    have "y < N \<Longrightarrow> i + (N - y) + y = i + N" for y N :: nat by simp
    then show ?thesis using mod_less_divisor [of "2 ^ k" ?x, OF zero_less_power [OF zero_less_numeral]] by blast
  qed
  finally have "(j + ?x) mod 2 ^ k = i" using assms(3) by simp
  then have "slot_of (length (hs_slot s)) ((of_nat j + hs_index s) AND HANDLE_MASK) = i"
    using k by (simp add: slot_of_masked slot_of_index)
  then show ?thesis using find_slot_None [OF assms(2), of j] j by simp
qed

lemma move_slots_spec:
  assumes "\<forall>c \<in> set cs. c \<noteq> None" "length new = 2 ^ m"
    and "distinct (map (\<lambda>c. slot_of (2 ^ m) (hof (the c))) cs)"
    and "\<forall>c \<in> set cs. new ! slot_of (2 ^ m) (hof (the c)) = None"
  shows "\<exists>new'. move_slots hof cs new = Inr new' \<and> length new' = 2 ^ m \<and>
    (\<forall>ctx. Some ctx \<in> set cs \<longrightarrow> new' ! slot_of (2 ^ m) (hof ctx) = Some ctx) \<and>
    (\<forall>i < 2 ^ m. \<forall>ctx. new' ! i = Some ctx \<longrightarrow> new ! i = Some ctx \<or> Some ctx \<in> set cs \<and> slot_of (2 ^ m) (hof ctx) = i) \<and>
    (\<forall>i ctx. new ! i = Some ctx \<longrightarrow> i < 2 ^ m \<longrightarrow> new' ! i = Some ctx)"
  using assms
proof (induction cs arbitrary: new)
  case Nil
  then show ?case by simp
next
  case (Cons c cs)
  obtain ctx where c: "c = Some ctx" using Cons.prems(1) by auto
  let ?h = "slot_of (2 ^ m) (hof ctx)"
  let ?new = "new[?h := Some ctx]"
  have h: "?h < length new" using Cons.prems(2) slot_of_less by simp
  have "\<forall>c \<in> set cs. ?new ! slot_of (2 ^ m) (hof (the c)) = None"
  proof
    fix d assume d: "d \<in> set cs"
    then have "slot_of (2 ^ m) (hof (the d)) \<in> set (map (\<lambda>c. slot_of (2 ^ m) (hof (the c))) cs)" by simp
    then have "slot_of (2 ^ m) (hof (the d)) \<noteq> ?h" using Cons.prems(3) c by (auto simp del: set_map)
    then show "?new ! slot_of (2 ^ m) (hof (the d)) = None" using Cons.prems(4) d by simp
  qed
  with Cons.IH [of ?new] Cons.prems obtain new' where n: "move_slots hof cs ?new = Inr new'" "length new' = 2 ^ m"
    "\<And>d. Some d \<in> set cs \<Longrightarrow> new' ! slot_of (2 ^ m) (hof d) = Some d"
    "\<And>i d. i < 2 ^ m \<Longrightarrow> new' ! i = Some d \<Longrightarrow> ?new ! i = Some d \<or> Some d \<in> set cs \<and> slot_of (2 ^ m) (hof d) = i"
    "\<And>i d. ?new ! i = Some d \<Longrightarrow> i < 2 ^ m \<Longrightarrow> new' ! i = Some d"
    by auto
  have "move_slots hof (c # cs) new = Inr new'"
    using n(1) Cons.prems(2,4) c by (simp add: Let_def)
  moreover have "new' ! ?h = Some ctx" using n(5) [of ?h ctx] h Cons.prems(2) by simp
  moreover have "new ! i = Some d \<or> Some d \<in> set (c # cs) \<and> slot_of (2 ^ m) (hof d) = i"
    if "i < 2 ^ m" "new' ! i = Some d" for i d
    using n(4) [OF that] c h by (cases "i = ?h") auto
  moreover have "new' ! i = Some d" if "new ! i = Some d" "i < 2 ^ m" for i d
  proof -
    have "i \<noteq> ?h" using that Cons.prems(4) c by auto
    then show ?thesis using n(5) that by simp
  qed
  ultimately show ?case using n(2,3) c by (intro exI [of _ new']) auto
qed

text \<open>The table of double size keeps every service, and has room.\<close>

lemma grow_spec:
  assumes "table_ok k hof s" "find_slot s 0 (length (hs_slot s)) = None" "k < 24"
  shows "\<exists>new. move_slots hof (hs_slot s) (replicate (length (hs_slot s) * 2) None) = Inr new \<and>
    table_ok (Suc k) hof (s\<lparr>hs_slot := new\<rparr>) \<and> registered (s\<lparr>hs_slot := new\<rparr>) = registered s \<and>
    find_slot (s\<lparr>hs_slot := new\<rparr>) 0 (length new) \<noteq> None"
proof -
  let ?cs = "hs_slot s" and ?f = "\<lambda>c. slot_of (2 ^ Suc k) (hof (the c))"
  have len: "length ?cs = 2 ^ k" using assms(1) by (simp add: table_ok_def)
  have full: "?cs ! i \<noteq> None" if "i < 2 ^ k" for i using find_slot_full [OF assms(1,2) that] .
  have some: "\<forall>c \<in> set ?cs. c \<noteq> None" using full len by (metis in_set_conv_nth)
  have low: "slot_of (2 ^ Suc k) h mod 2 ^ k = slot_of (2 ^ k) h" for h
    unfolding slot_of_mod by (rule mod_mod_cancel) simp
  have at: "?f (?cs ! i) mod 2 ^ k = i" if "i < 2 ^ k" for i
    using full [OF that] assms(1) that low by (auto simp: table_ok_def)
  have dist: "distinct (map ?f ?cs)"
  proof (rule distinct_conv_nth [THEN iffD2], intro allI impI)
    fix i j assume ij: "i < length (map ?f ?cs)" "j < length (map ?f ?cs)" "i \<noteq> j"
    then have "?f (?cs ! i) mod 2 ^ k \<noteq> ?f (?cs ! j) mod 2 ^ k"
      by (metis at len length_map)
    then show "map ?f ?cs ! i \<noteq> map ?f ?cs ! j" using ij by auto
  qed
  obtain new where n: "move_slots hof ?cs (replicate (2 ^ Suc k) None) = Inr new" "length new = 2 ^ Suc k"
    "\<And>ctx. Some ctx \<in> set ?cs \<Longrightarrow> new ! slot_of (2 ^ Suc k) (hof ctx) = Some ctx"
    "\<And>i ctx. i < 2 ^ Suc k \<Longrightarrow> new ! i = Some ctx \<Longrightarrow> Some ctx \<in> set ?cs \<and> slot_of (2 ^ Suc k) (hof ctx) = i"
  proof -
    have "length (replicate (2 ^ Suc k) None) = 2 ^ Suc k"
      "\<forall>c \<in> set ?cs. replicate (2 ^ Suc k) None ! ?f c = None"
      using slot_of_less [of "Suc k"] by simp_all
    from move_slots_spec [OF some this(1) dist this(2)] obtain new' where
      new': "move_slots hof ?cs (replicate (2 ^ Suc k) None) = Inr new'" "length new' = 2 ^ Suc k"
      "\<forall>ctx. Some ctx \<in> set ?cs \<longrightarrow> new' ! slot_of (2 ^ Suc k) (hof ctx) = Some ctx"
      "\<forall>i < 2 ^ Suc k. \<forall>ctx. new' ! i = Some ctx \<longrightarrow> replicate (2 ^ Suc k) None ! i = Some ctx \<or>
         Some ctx \<in> set ?cs \<and> slot_of (2 ^ Suc k) (hof ctx) = i"
      by blast
    show ?thesis by (rule that [OF new'(1,2)]) (use new'(3,4) in \<open>auto simp del: power_Suc\<close>)
  qed
  let ?s = "s\<lparr>hs_slot := new\<rparr>"
  have reg: "registered ?s = registered s"
  proof (intro equalityI subsetI)
    fix ctx assume "ctx \<in> registered ?s"
    then obtain i where "i < 2 ^ Suc k" "new ! i = Some ctx"
      using n(2) by (auto simp: registered_def in_set_conv_nth simp del: power_Suc)
    then show "ctx \<in> registered s" using n(4) by (simp add: registered_def del: power_Suc)
  next
    fix ctx assume "ctx \<in> registered s"
    then have "new ! slot_of (2 ^ Suc k) (hof ctx) = Some ctx" using n(3) by (simp add: registered_def)
    then show "ctx \<in> registered ?s" using slot_of_less [of "Suc k" "hof ctx"] n(2)
      by (intro slot_registered [of "slot_of (2 ^ Suc k) (hof ctx)"]) simp_all
  qed
  have ok: "table_ok (Suc k) hof ?s"
    unfolding table_ok_def
  proof (intro conjI allI impI)
    fix i ctx assume i: "i < 2 ^ Suc k" "hs_slot ?s ! i = Some ctx"
    then show "slot_of (2 ^ Suc k) (hof ctx) = i" using n(4) by simp
    have "ctx \<in> registered s" using i n(4) by (simp add: registered_def)
    then show "hof ctx AND NOT HANDLE_MASK = hs_harbor ?s" using registered_slot [OF assms(1)] by simp
  qed (use assms n(2) in \<open>auto simp: table_ok_def\<close>)
  have "find_slot ?s 0 (length new) \<noteq> None"
  proof
    assume "find_slot ?s 0 (length new) = None"
    then have free: "new ! i \<noteq> None" if "i < 2 ^ Suc k" for i
      using find_slot_full [OF ok _ that] by simp
    have b: "(0 :: nat) < 2 ^ Suc k" "(2 :: nat) ^ k < 2 ^ Suc k" by simp_all
    obtain c d where cd: "new ! 0 = Some c" "new ! (2 ^ k) = Some d" using free [OF b(1)] free [OF b(2)] by blast
    have "slot_of (2 ^ k) (hof c) = 0" "slot_of (2 ^ k) (hof d) = 0"
      using low [of "hof c"] low [of "hof d"] n(4) [OF b(1) cd(1)] n(4) [OF b(2) cd(2)] by simp_all
    moreover have "c \<in> registered s" "d \<in> registered s"
      using n(4) [OF b(1) cd(1)] n(4) [OF b(2) cd(2)] by (simp_all add: registered_def)
    ultimately have "c = d" using registered_slot [OF assms(1)] by (metis option.inject)
    then have "(0 :: nat) = 2 ^ k" using n(4) [OF b(1) cd(1)] n(4) [OF b(2) cd(2)] by (metis (no_types))
    then show False by simp
  qed
  with n(1,2) len ok reg show ?thesis by (intro exI [of _ new]) (simp add: mult.commute)
qed

text \<open>Putting a service in a free slot.\<close>

lemma place_spec:
  assumes "table_ok k hof s" "find_slot s 0 (length (hs_slot s)) = Some (h, hash)" "ctx \<notin> registered s"
  shows "table_ok k (hof(ctx := h OR hs_harbor s)) (s\<lparr>hs_slot := (hs_slot s)[hash := Some ctx], hs_index := h + 1\<rparr>) \<and>
    registered (s\<lparr>hs_slot := (hs_slot s)[hash := Some ctx], hs_index := h + 1\<rparr>) = insert ctx (registered s) \<and>
    (\<forall>c \<in> registered s. hof c \<noteq> h OR hs_harbor s)"
proof -
  let ?h = "h OR hs_harbor s" and ?s = "s\<lparr>hs_slot := (hs_slot s)[hash := Some ctx], hs_index := h + 1\<rparr>"
  have ok: "k \<le> 24" "length (hs_slot s) = 2 ^ k" "hs_harbor s AND HANDLE_MASK = 0"
    using assms(1) by (simp_all add: table_ok_def)
  obtain x where f: "hs_slot s ! hash = None" "hash = slot_of (2 ^ k) h" "h = x AND HANDLE_MASK"
    using find_slot_Some [OF assms(2)] ok(2) by auto
  have hm: "h AND HANDLE_MASK = h" using f(3) by (simp add: and.assoc)
  have h: "slot_of (2 ^ k) ?h = hash" "?h AND NOT HANDLE_MASK = hs_harbor s"
    using low_harbor [OF ok(3,1), of h] high_harbor [OF ok(3), of h] f(2) hm by simp_all
  have l: "hash < 2 ^ k" using f(2) slot_of_less by simp
  have "table_ok k (hof(ctx := ?h)) ?s"
    unfolding table_ok_def
  proof (intro conjI allI impI)
    fix i c assume i: "i < 2 ^ k" "hs_slot ?s ! i = Some c"
    have "slot_of (2 ^ k) ((hof(ctx := ?h)) c) = i \<and> (hof(ctx := ?h)) c AND NOT HANDLE_MASK = hs_harbor ?s"
    proof (cases "i = hash")
      case True
      then show ?thesis using i l h ok(2) by simp
    next
      case False
      then have c: "hs_slot s ! i = Some c" using i by simp
      then have "c \<noteq> ctx" using slot_registered [of i s c] assms(3) i(1) ok(2) by auto
      then show ?thesis using assms(1) i(1) c by (simp add: table_ok_def)
    qed
    then show "slot_of (2 ^ k) ((hof(ctx := ?h)) c) = i" "(hof(ctx := ?h)) c AND NOT HANDLE_MASK = hs_harbor ?s"
      by simp_all
  qed (use ok in simp_all)
  moreover have "registered ?s = insert ctx (registered s)"
  proof (intro equalityI subsetI)
    fix c assume "c \<in> registered ?s"
    then show "c \<in> insert ctx (registered s)" using set_update_subset_insert by (fastforce simp: registered_def)
  next
    fix c assume c: "c \<in> insert ctx (registered s)"
    show "c \<in> registered ?s"
    proof (cases "c = ctx")
      case True
      then show ?thesis using l ok(2) by (simp add: registered_def set_update_memI)
    next
      case False
      with c have "c \<in> registered s" by simp
      then obtain i where i: "i < length (hs_slot s)" "hs_slot s ! i = Some c"
        by (auto simp: registered_def in_set_conv_nth)
      then have "i \<noteq> hash" using f(1) by auto
      then show ?thesis using i by (intro slot_registered [of i]) simp_all
    qed
  qed
  moreover have "hof c \<noteq> ?h" if "c \<in> registered s" for c
    using registered_slot [OF assms(1) that] h(1) f(1) by auto
  ultimately show ?thesis by blast
qed

lemma register_unfold:
  "find_slot s 0 (length (hs_slot s)) = Some (h, hash) \<Longrightarrow>
     handle_register hof ctx s = Some (Inr (h OR hs_harbor s,
       s\<lparr>hs_slot := (hs_slot s)[hash := Some ctx], hs_index := h + 1\<rparr>))"
  by (simp add: handle_register.simps)

lemma register_spec:
  assumes "table_ok k hof s" "ctx \<notin> registered s" "k < 24 \<or> find_slot s 0 (length (hs_slot s)) \<noteq> None"
  shows "\<exists>h s' k'. handle_register hof ctx s = Some (Inr (h, s')) \<and> table_ok k' (hof(ctx := h)) s' \<and>
    registered s' = insert ctx (registered s) \<and> (\<forall>c \<in> registered s. hof c \<noteq> h) \<and>
    h AND NOT HANDLE_MASK = hs_harbor s \<and> hs_name s' = hs_name s \<and> hs_name_count s' = hs_name_count s"
proof (cases "find_slot s 0 (length (hs_slot s))")
  case (Some hh)
  obtain h hash where f: "find_slot s 0 (length (hs_slot s)) = Some (h, hash)" using Some by (cases hh) auto
  note p = place_spec [OF assms(1) f assms(2)]
  have "(h OR hs_harbor s) AND NOT HANDLE_MASK = hs_harbor s"
    using registered_slot [of k "hof(ctx := h OR hs_harbor s)" _ ctx] p by fastforce
  then show ?thesis using p unfolding register_unfold [OF f] by auto
next
  case None
  then have k: "k < 24" using assms(3) by simp
  obtain new where n: "move_slots hof (hs_slot s) (replicate (length (hs_slot s) * 2) None) = Inr new"
    "table_ok (Suc k) hof (s\<lparr>hs_slot := new\<rparr>)" "registered (s\<lparr>hs_slot := new\<rparr>) = registered s"
    "find_slot (s\<lparr>hs_slot := new\<rparr>) 0 (length new) \<noteq> None"
    using grow_spec [OF assms(1) None k] by blast
  let ?s = "s\<lparr>hs_slot := new\<rparr>"
  obtain h hash where f: "find_slot ?s 0 (length (hs_slot ?s)) = Some (h, hash)" using n(4) by auto
  have "length (hs_slot s) = 2 ^ k" using assms(1) by (simp add: table_ok_def)
  moreover have "(2 :: int) ^ k \<le> 2 ^ 23" using k by (intro power_increasing) simp_all
  ultimately have "int (length (hs_slot s)) * 2 - 1 \<le> uint HANDLE_MASK" by (simp add: HANDLE_MASK_def)
  then have r: "handle_register hof ctx s = handle_register hof ctx ?s"
    using None n(1) by (simp add: handle_register.simps [of hof ctx s])
  note p = place_spec [OF n(2) f]
  have "(h OR hs_harbor s) AND NOT HANDLE_MASK = hs_harbor s"
    using registered_slot [of "Suc k" "hof(ctx := h OR hs_harbor s)" _ ctx] p n(3) assms(2) by fastforce
  then show ?thesis using p n(3) assms(2) unfolding r register_unfold [OF f] by auto
qed

section \<open>The names\<close>

lemma strcmp_refl [simp]: "strcmp a a = 0"
  by (induction a) simp_all

lemma strcmp_0 [simp]: "strcmp a b = 0 \<longleftrightarrow> a = b"
  by (induction a b rule: strcmp.induct) auto

lemma strcmp_swap: "strcmp b a = - strcmp a b"
  by (induction a b rule: strcmp.induct) auto

lemma strcmp_trans: "strcmp a b < 0 \<Longrightarrow> strcmp b c < 0 \<Longrightarrow> strcmp a c < 0"
proof (induction a b arbitrary: c rule: strcmp.induct)
  case 1
  then show ?case by simp
next
  case (2 y ys)
  then show ?case by (cases c) auto
next
  case (3 x xs)
  then show ?case by simp
next
  case (4 x xs y ys)
  then obtain z zs where c: "c = z # zs" by (cases c) auto
  with 4 show ?case by (auto split: if_splits)
qed

definition names :: "handle_storage \<Rightarrow> handle_name list" where
  "names s = take (hs_name_count s) (hs_name s)"

definition names_ok :: "handle_storage \<Rightarrow> bool" where
  "names_ok s =
     (hs_name_count s \<le> length (hs_name s) \<and> 0 < length (hs_name s) \<and>
      sorted_wrt (\<lambda>a b. strcmp (hn_name a) (hn_name b) < 0) (names s))"

definition name_map :: "handle_storage \<Rightarrow> bytes \<Rightarrow> u32 option" where
  "name_map s name = map_of (map (\<lambda>n. (hn_name n, hn_handle n)) (names s)) name"

text \<open>The array is enlarged up to a bound, past which a further name fails an assertion.\<close>

definition names_full :: "handle_storage \<Rightarrow> bool" where
  "names_full s = (length (hs_name s) \<le> hs_name_count s \<and> MAX_SLOT_SIZE < length (hs_name s) * 2)"

lemma sorted_at:
  "sorted_wrt (\<lambda>a b. strcmp (hn_name a) (hn_name b) < 0) ns \<Longrightarrow> i < j \<Longrightarrow> j < length ns \<Longrightarrow>
     strcmp (hn_name (ns ! i)) (hn_name (ns ! j)) < 0"
  by (simp add: sorted_wrt_iff_nth_less)

lemma sorted_distinct:
  "sorted_wrt (\<lambda>a b. strcmp (hn_name a) (hn_name b) < 0) ns \<Longrightarrow> distinct (map hn_name ns)"
  by (induction ns) auto

text \<open>The two loops find the place of the name, or the place between smaller and greater names.\<close>

lemma search_name_spec:
  assumes "sorted_wrt (\<lambda>a b. strcmp (hn_name a) (hn_name b) < 0) (take n ns)" "n \<le> length ns"
    and "0 \<le> beg" "beg \<le> en + 1" "en < int n"
    and "\<forall>i < nat beg. strcmp (hn_name (ns ! i)) name < 0"
    and "\<forall>i. en < int i \<longrightarrow> i < n \<longrightarrow> 0 < strcmp (hn_name (ns ! i)) name"
  shows "case search_name ns name beg en of
      Inl i \<Rightarrow> i < n \<and> hn_name (ns ! i) = name
    | Inr b \<Rightarrow> b \<le> n \<and> (\<forall>i < b. strcmp (hn_name (ns ! i)) name < 0) \<and>
        (\<forall>i. b \<le> i \<longrightarrow> i < n \<longrightarrow> 0 < strcmp (hn_name (ns ! i)) name)"
  using assms(3-7)
proof (induction "nat (en + 1 - beg)" arbitrary: beg en rule: less_induct)
  case less
  show ?case
  proof (cases "en < beg")
    case True
    then have b: "beg = en + 1" using less.prems(2) by simp
    have "search_name ns name beg en = Inr (nat beg)" using True by (simp add: search_name.simps)
    moreover have "nat beg \<le> n" using b less.prems(1,3) by simp
    moreover have "en < int i" if "nat beg \<le> i" for i using that b less.prems(1) by linarith
    ultimately show ?thesis using less.prems(4,5) by simp
  next
    case False
    let ?mid = "(beg + en) div 2" and ?m = "nat ((beg + en) div 2)"
    have mid: "beg \<le> ?mid" "?mid \<le> en" using False by simp_all
    then have m: "?m < n" "int ?m = ?mid" using less.prems(1,3) by linarith+
    have nth: "take n ns ! i = ns ! i" if "i < n" for i using that by simp
    have sorted: "strcmp (hn_name (ns ! i)) (hn_name (ns ! j)) < 0" if "i < j" "j < n" for i j
      using sorted_at [OF assms(1) that(1)] that nth [of i] nth [of j] assms(2) by simp
    let ?c = "strcmp (hn_name (ns ! ?m)) name"
    consider "?c = 0" | "?c < 0" | "0 < ?c" by linarith
    then show ?thesis
    proof cases
      case 1
      then show ?thesis using False m by (simp add: search_name.simps [of ns name beg en] Let_def)
    next
      case 2
      have "strcmp (hn_name (ns ! i)) name < 0" if "i < nat (?mid + 1)" for i
      proof (cases "i = ?m")
        case False
        then have "i < ?m" using that m(2) by linarith
        then show ?thesis using sorted m(1) 2 strcmp_trans by blast
      qed (use 2 in simp)
      then have "case search_name ns name (?mid + 1) en of
          Inl i \<Rightarrow> i < n \<and> hn_name (ns ! i) = name
        | Inr b \<Rightarrow> b \<le> n \<and> (\<forall>i < b. strcmp (hn_name (ns ! i)) name < 0) \<and>
            (\<forall>i. b \<le> i \<longrightarrow> i < n \<longrightarrow> 0 < strcmp (hn_name (ns ! i)) name)"
        using mid less.prems by (intro less.hyps) auto
      then show ?thesis using False 2 less_imp_neq [OF 2]
        by (simp add: search_name.simps [of ns name beg en] Let_def del: strcmp_0)
    next
      case 3
      have "0 < strcmp (hn_name (ns ! i)) name" if "?mid - 1 < int i" "i < n" for i
      proof (cases "i = ?m")
        case False
        then have "?m < i" using that m(2) by linarith
        then have "strcmp (hn_name (ns ! ?m)) (hn_name (ns ! i)) < 0" using sorted that(2) by simp
        then show ?thesis using 3 strcmp_trans strcmp_swap [of name] by (metis neg_0_less_iff_less neg_less_0_iff_less)
      qed (use 3 in simp)
      then have "case search_name ns name beg (?mid - 1) of
          Inl i \<Rightarrow> i < n \<and> hn_name (ns ! i) = name
        | Inr b \<Rightarrow> b \<le> n \<and> (\<forall>i < b. strcmp (hn_name (ns ! i)) name < 0) \<and>
            (\<forall>i. b \<le> i \<longrightarrow> i < n \<longrightarrow> 0 < strcmp (hn_name (ns ! i)) name)"
        using mid less.prems by (intro less.hyps) auto
      then show ?thesis using False 3 less_imp_neq [OF 3]
        by (simp add: search_name.simps [of ns name beg en] Let_def del: strcmp_0)
    qed
  qed
qed

lemma search_names:
  assumes "names_ok s"
  shows "case search_name (hs_name s) name 0 (int (hs_name_count s) - 1) of
      Inl i \<Rightarrow> i < length (names s) \<and> hn_name (names s ! i) = name \<and> hs_name s ! i = names s ! i
    | Inr b \<Rightarrow> b \<le> length (names s) \<and> (\<forall>x \<in> set (take b (names s)). strcmp (hn_name x) name < 0) \<and>
        (\<forall>x \<in> set (drop b (names s)). 0 < strcmp (hn_name x) name)"
proof -
  let ?n = "hs_name_count s" and ?ns = "hs_name s"
  have ok: "?n \<le> length ?ns" "sorted_wrt (\<lambda>a b. strcmp (hn_name a) (hn_name b) < 0) (take ?n ?ns)"
    using assms by (simp_all add: names_ok_def names_def)
  note s = search_name_spec [OF ok(2,1), of 0 "int ?n - 1" name]
  show ?thesis
  proof (cases "search_name ?ns name 0 (int ?n - 1)")
    case (Inl i)
    then show ?thesis using s ok(1) by (simp add: names_def)
  next
    case (Inr b)
    then have b: "b \<le> ?n" "\<And>i. i < b \<Longrightarrow> strcmp (hn_name (?ns ! i)) name < 0"
      "\<And>i. b \<le> i \<Longrightarrow> i < ?n \<Longrightarrow> 0 < strcmp (hn_name (?ns ! i)) name"
      using s by auto
    have "strcmp (hn_name x) name < 0" if "x \<in> set (take b (names s))" for x
      using that b(1,2) ok(1) by (auto simp: names_def in_set_conv_nth min_def split: if_splits)
    moreover have "0 < strcmp (hn_name x) name" if "x \<in> set (drop b (names s))" for x
      using that b(1,3) ok(1) by (auto simp: names_def in_set_conv_nth min_def split: if_splits)
    ultimately show ?thesis using Inr b(1) ok(1) by (simp add: names_def)
  qed
qed

lemma findname_spec:
  assumes "names_ok s"
  shows "handle_findname name s = (case name_map s name of None \<Rightarrow> 0 | Some h \<Rightarrow> h) \<and>
    (name_map s name = None \<longleftrightarrow> (\<exists>b. search_name (hs_name s) name 0 (int (hs_name_count s) - 1) = Inr b))"
proof -
  have d: "distinct (map hn_name (names s))" using assms unfolding names_ok_def by (intro sorted_distinct) simp
  show ?thesis
  proof (cases "search_name (hs_name s) name 0 (int (hs_name_count s) - 1)")
    case (Inl i)
    then have i: "i < length (names s)" "hn_name (names s ! i) = name" "hs_name s ! i = names s ! i"
      using search_names [OF assms, of name] by simp_all
    then have "(name, hn_handle (names s ! i)) \<in> set (map (\<lambda>n. (hn_name n, hn_handle n)) (names s))"
      by (auto intro!: image_eqI [of _ _ "names s ! i"])
    then have "name_map s name = Some (hn_handle (names s ! i))"
      unfolding name_map_def using d by (intro map_of_is_SomeI) (simp_all add: comp_def)
    then show ?thesis using Inl i(3) by (simp add: handle_findname_def)
  next
    case (Inr b)
    then have "strcmp (hn_name x) name \<noteq> 0" if "x \<in> set (names s)" for x
      using search_names [OF assms, of name] that set_append [of "take b (names s)" "drop b (names s)"]
      by (force simp del: strcmp_0)
    then have "name \<notin> hn_name ` set (names s)" by auto
    then have "name_map s name = None" by (simp add: name_map_def map_of_eq_None_iff image_image)
    then show ?thesis using Inr by (simp add: handle_findname_def)
  qed
qed

text \<open>Making room for a name by shifting, and closing up when names go.\<close>

lemma shift_up_spec:
  assumes "count < length ns"
  shows "length (shift_up ns count before) = length ns \<and>
    (\<forall>j < length ns. shift_up ns count before ! j = (if before < j \<and> j \<le> count then ns ! (j - 1) else ns ! j))"
  using assms
proof (induction ns count before rule: shift_up.induct)
  case (1 ns before)
  then show ?case by simp
next
  case (2 ns i before)
  show ?case
  proof (cases "before < Suc i")
    case True
    then show ?thesis using "2.IH" "2.prems" by (auto simp: nth_list_update le_Suc_eq)
  next
    case False
    then show ?thesis using "2.prems" by auto
  qed
qed

lemma insert_name_before_spec:
  assumes "hs_name_count s \<le> length (hs_name s)" "0 < length (hs_name s)" "b \<le> hs_name_count s"
  shows "if names_full s then insert_name_before s name h b = Inl Assert_failed
    else \<exists>s'. insert_name_before s name h b = Inr s' \<and> hs_name_count s' \<le> length (hs_name s') \<and>
      0 < length (hs_name s') \<and> hs_slot s' = hs_slot s \<and> hs_harbor s' = hs_harbor s \<and>
      names s' = take b (names s) @ [\<lparr>hn_name = name, hn_handle = h\<rparr>] @ drop b (names s)"
proof (cases "length (hs_name s) \<le> hs_name_count s")
  case True
  then have full: "hs_name_count s = length (hs_name s)" using assms(1) by simp
  show ?thesis
  proof (cases "MAX_SLOT_SIZE < length (hs_name s) * 2")
    case True
    then show ?thesis using full by (simp add: names_full_def insert_name_before_def)
  next
    case False
    let ?x = "\<lparr>hn_name = name, hn_handle = h\<rparr>"
    have upd: "(take b xs @ [y] @ zs)[b := ?x] = take b xs @ [?x] @ zs" if "b \<le> length xs"
      for xs :: "handle_name list" and y zs
      using that by (simp add: list_update_append)
    have "insert_name_before s name h b = Inr (s\<lparr>hs_name := take b (hs_name s) @ [?x] @ drop b (hs_name s) @
        replicate (length (hs_name s) * 2 - (hs_name_count s + 1)) no_name, hs_name_count := hs_name_count s + 1\<rparr>)"
      using False full assms(2,3) upd by (simp add: insert_name_before_def Let_def)
    moreover have "take (hs_name_count s + 1) (take b (hs_name s) @ [?x] @ drop b (hs_name s) @
        replicate (length (hs_name s) * 2 - (hs_name_count s + 1)) no_name) =
        take b (hs_name s) @ [?x] @ drop b (hs_name s)"
      using take_append_exact [of "hs_name_count s + 1" "take b (hs_name s) @ [?x] @ drop b (hs_name s)"] full assms(3)
      by simp
    ultimately show ?thesis using False full assms(2,3) by (simp add: names_full_def names_def)
  qed
next
  case False
  let ?ns = "shift_up (hs_name s) (hs_name_count s) b" and ?x = "\<lparr>hn_name = name, hn_handle = h\<rparr>"
  let ?c = "hs_name_count s"
  have s: "length ?ns = length (hs_name s)"
    "\<And>j. j < length (hs_name s) \<Longrightarrow> ?ns ! j = (if b < j \<and> j \<le> ?c then hs_name s ! (j - 1) else hs_name s ! j)"
    using shift_up_spec [of ?c "hs_name s" b] False by simp_all
  have "insert_name_before s name h b = Inr (s\<lparr>hs_name := ?ns[b := ?x], hs_name_count := ?c + 1\<rparr>)"
    using False assms(3) s(1) by (simp add: insert_name_before_def Let_def)
  moreover have "take (?c + 1) (?ns[b := ?x]) = take b (names s) @ [?x] @ drop b (names s)"
  proof (rule nth_equalityI)
    show "length (take (?c + 1) (?ns[b := ?x])) = length (take b (names s) @ [?x] @ drop b (names s))"
      using False assms(3) s(1) by (simp add: names_def)
    fix j assume j: "j < length (take (?c + 1) (?ns[b := ?x]))"
    show "take (?c + 1) (?ns[b := ?x]) ! j = (take b (names s) @ [?x] @ drop b (names s)) ! j"
      using False assms(3) s j by (cases "j < b"; cases "j = b") (auto simp: names_def nth_append nth_Cons')
  qed
  ultimately show ?thesis using False s(1) by (auto simp: names_full_def names_def)
qed

lemma namehandle_spec:
  assumes "names_ok s"
  shows "case name_map s name of
      Some _ \<Rightarrow> handle_namehandle h name s = Inr (None, s)
    | None \<Rightarrow>
        (if names_full s then handle_namehandle h name s = Inl Assert_failed
         else \<exists>s'. handle_namehandle h name s = Inr (Some name, s') \<and> names_ok s' \<and>
           name_map s' = (name_map s)(name \<mapsto> h) \<and> hs_slot s' = hs_slot s \<and> hs_harbor s' = hs_harbor s)"
proof (cases "search_name (hs_name s) name 0 (int (hs_name_count s) - 1)")
  case (Inl i)
  then show ?thesis
    using findname_spec [OF assms, of name]
    by (cases "name_map s name") (simp_all add: handle_namehandle_def)
next
  case (Inr b)
  then have new: "name_map s name = None" using findname_spec [OF assms, of name] by blast
  have len: "length (names s) = hs_name_count s" using assms by (simp add: names_ok_def names_def)
  let ?x = "\<lparr>hn_name = name, hn_handle = h\<rparr>"
  have b: "b \<le> length (names s)" "\<And>x. x \<in> set (take b (names s)) \<Longrightarrow> strcmp (hn_name x) name < 0"
    "\<And>x. x \<in> set (drop b (names s)) \<Longrightarrow> 0 < strcmp (hn_name x) name"
    using search_names [OF assms, of name] Inr by auto
  have ok: "hs_name_count s \<le> length (hs_name s)" "0 < length (hs_name s)" "b \<le> hs_name_count s"
    using assms b(1) len by (simp_all add: names_ok_def)
  note ins = insert_name_before_spec [OF ok, of name h]
  show ?thesis
  proof (cases "names_full s")
    case True
    then show ?thesis using ins new Inr by (simp add: handle_namehandle_def)
  next
    case False
    then obtain s' where s': "insert_name_before s name h b = Inr s'" "hs_name_count s' \<le> length (hs_name s')"
      "0 < length (hs_name s')" "hs_slot s' = hs_slot s" "hs_harbor s' = hs_harbor s"
      "names s' = take b (names s) @ [?x] @ drop b (names s)"
      using ins by auto
    have sorted: "sorted_wrt (\<lambda>a b. strcmp (hn_name a) (hn_name b) < 0) (take b (names s) @ drop b (names s))"
      using assms by (simp add: names_ok_def)
    have "strcmp name (hn_name x) < 0" if "x \<in> set (drop b (names s))" for x
      using b(3) [OF that] strcmp_swap [of "hn_name x" name] by simp
    then have "sorted_wrt (\<lambda>a b. strcmp (hn_name a) (hn_name b) < 0) (names s')"
      using sorted b(2) unfolding s'(6) sorted_wrt_append by simp
    then have "names_ok s'" using s'(2,3) by (simp add: names_ok_def)
    moreover have "name_map s' = (name_map s)(name \<mapsto> h)"
    proof -
      let ?f = "\<lambda>n. (hn_name n, hn_handle n)"
      have "name_map s = map_of (map ?f (take b (names s)) @ map ?f (drop b (names s)))"
        by (rule ext) (simp add: name_map_def flip: map_append)
      moreover have "name \<notin> hn_name ` set (take b (names s))" using b(2) by force
      then have "map_of (map ?f (take b (names s))) name = None" by (auto simp: map_of_eq_None_iff)
      ultimately show ?thesis
        by (intro ext) (auto simp: name_map_def s'(6) map_add_def split: option.splits)
    qed
    ultimately show ?thesis using False new Inr s' by (simp add: handle_namehandle_def)
  qed
qed

text \<open>
  A directory: what the users of a table of names rely on. A name is added once, a second
  registration is refused, and look-ups see exactly what was added.
\<close>

locale directory =
  fixes invar :: "'s \<Rightarrow> bool"
    and look :: "'s \<Rightarrow> 'k \<Rightarrow> 'v option"
    and full :: "'s \<Rightarrow> bool"
    and add :: "'k \<Rightarrow> 'v \<Rightarrow> 's \<Rightarrow> 's option"
  assumes add_Some: "invar s \<Longrightarrow> add k v s = Some s' \<Longrightarrow> invar s' \<and> look s k = None \<and> look s' = (look s)(k \<mapsto> v)"
    and add_None: "invar s \<Longrightarrow> add k v s = None \<longleftrightarrow> look s k \<noteq> None \<or> full s"
begin

text \<open>A sequence of registrations, of which the refused ones change nothing.\<close>

fun add_all :: "('k \<times> 'v) list \<Rightarrow> 's \<Rightarrow> 's" where
  "add_all [] s = s"
| "add_all ((k, v) # kvs) s = add_all kvs (case add k v s of None \<Rightarrow> s | Some s' \<Rightarrow> s')"

lemma add_all_invar: "invar s \<Longrightarrow> invar (add_all kvs s)"
  by (induction kvs s rule: add_all.induct) (auto split: option.splits dest: add_Some)

lemma first_wins: "invar s \<Longrightarrow> look s k = Some v \<Longrightarrow> look (add_all kvs s) k = Some v"
proof (induction kvs s rule: add_all.induct)
  case (1 s)
  then show ?case by simp
next
  case (2 k' v' kvs s)
  show ?case
  proof (cases "add k' v' s")
    case None
    then show ?thesis using 2 by simp
  next
    case (Some s')
    then have "invar s'" "look s' k = Some v" using add_Some [OF "2.prems"(1) Some] "2.prems"(2) by auto
    then show ?thesis using 2 Some by simp
  qed
qed

lemma added_or_refused:
  "invar s \<Longrightarrow> look (add_all kvs s) k = Some v \<Longrightarrow> look s k = Some v \<or> (k, v) \<in> set kvs"
proof (induction kvs s rule: add_all.induct)
  case (1 s)
  then show ?case by simp
next
  case (2 k' v' kvs s)
  show ?case
  proof (cases "add k' v' s")
    case None
    then show ?thesis using 2 by auto
  next
    case (Some s')
    then have s': "invar s'" "look s' = (look s)(k' \<mapsto> v')" using add_Some [OF "2.prems"(1) Some] by simp_all
    then have "look s' k = Some v \<or> (k, v) \<in> set kvs" using 2 Some by simp
    then show ?thesis unfolding s'(2) by (auto split: if_splits)
  qed
qed

end

definition add_name :: "bytes \<Rightarrow> u32 \<Rightarrow> handle_storage \<Rightarrow> handle_storage option" where
  "add_name name h s =
     (case handle_namehandle h name s of Inr (Some _, s') \<Rightarrow> Some s' | _ \<Rightarrow> None)"

lemma add_name_spec:
  assumes "names_ok s"
  shows "if name_map s name \<noteq> None \<or> names_full s then add_name name h s = None
    else \<exists>s'. add_name name h s = Some s' \<and> names_ok s' \<and> name_map s' = (name_map s)(name \<mapsto> h)"
proof (cases "name_map s name")
  case (Some h')
  then show ?thesis using namehandle_spec [OF assms, where name = name and h = h] by (simp add: add_name_def)
next
  case None
  show ?thesis
  proof (cases "names_full s")
    case True
    then show ?thesis using None namehandle_spec [OF assms, where name = name and h = h] by (simp add: add_name_def)
  next
    case False
    then obtain s' where "handle_namehandle h name s = Inr (Some name, s')" "names_ok s'"
      "name_map s' = (name_map s)(name \<mapsto> h)"
      using None namehandle_spec [OF assms, where name = name and h = h] by auto
    then have "add_name name h s = Some s' \<and> names_ok s' \<and> name_map s' = (name_map s)(name \<mapsto> h)"
      by (simp add: add_name_def)
    then show ?thesis using None False by (simp only: simp_thms if_False) blast
  qed
qed

interpretation handle_names: directory names_ok name_map names_full add_name
proof unfold_locales
  fix s name h s'
  assume ok: "names_ok s"
  show "add_name name h s = Some s' \<Longrightarrow> names_ok s' \<and> name_map s name = None \<and> name_map s' = (name_map s)(name \<mapsto> h)"
    using add_name_spec [OF ok, of name h] by (metis option.distinct(1) option.inject)
  show "add_name name h s = None \<longleftrightarrow> name_map s name \<noteq> None \<or> names_full s"
    using add_name_spec [OF ok, of name h] by (metis option.distinct(1))
qed

section \<open>Retiring\<close>

lemma squeeze_spec:
  assumes "j \<le> i" "i \<le> n" "n \<le> length ns"
  shows "case squeeze h ns n i j of (ns', j') \<Rightarrow>
    length ns' = length ns \<and> j' \<le> n \<and>
    take j' ns' = take j ns @ filter (\<lambda>x. hn_handle x \<noteq> h) (drop i (take n ns))"
  using assms
proof (induction h ns n i j rule: squeeze.induct)
  case (1 h ns n i j)
  show ?case
  proof (cases "n \<le> i")
    case True
    then have "squeeze h ns n i j = (ns, j)" by (simp add: squeeze.simps [of h ns n i j])
    then show ?thesis using "1.prems" True by simp
  next
    case False
    then have d: "drop i (take n ns) = ns ! i # drop (Suc i) (take n ns)"
      using "1.prems" by (simp add: Cons_nth_drop_Suc [symmetric])
    show ?thesis
    proof (cases "hn_handle (ns ! i) = h")
      case True
      then show ?thesis using "1.IH"(1) False "1.prems" d by (simp add: squeeze.simps [of h ns n i j])
    next
      case keep: False
      let ?ns = "if i \<noteq> j then ns[j := ns ! i] else ns"
      have "take (Suc j) ?ns = take j ns @ [ns ! i]"
        using "1.prems" False by (auto simp: take_Suc_conv_app_nth)
      moreover have "drop (Suc i) (take n ?ns) = drop (Suc i) (take n ns)"
        using "1.prems" by (auto simp: drop_take)
      moreover have "length ?ns = length ns" by simp
      ultimately show ?thesis
        using "1.IH"(2) False keep "1.prems" d by (simp add: squeeze.simps [of h ns n i j])
    qed
  qed
qed

lemma map_of_filter_handle:
  assumes "distinct (map hn_name ns)"
  shows "map_of (map (\<lambda>n. (hn_name n, hn_handle n)) (filter (\<lambda>x. hn_handle x \<noteq> h) ns)) name =
    (case map_of (map (\<lambda>n. (hn_name n, hn_handle n)) ns) name of
       None \<Rightarrow> None | Some h' \<Rightarrow> if h' = h then None else Some h')"
  using assms
proof (induction ns)
  case Nil
  then show ?case by simp
next
  case (Cons x ns)
  have "hn_name x = name \<Longrightarrow> map_of (map (\<lambda>n. (hn_name n, hn_handle n)) ns) name = None"
    using Cons.prems by (auto simp: map_of_eq_None_iff image_image)
  then show ?case using Cons by auto
qed

lemma retire_names:
  assumes "names_ok s" "squeeze h (hs_name s) (hs_name_count s) 0 0 = (ns, j)"
    and "hs_name s' = ns" "hs_name_count s' = j"
  shows "names_ok s' \<and>
    name_map s' = (\<lambda>name. case name_map s name of None \<Rightarrow> None | Some h' \<Rightarrow> if h' = h then None else Some h')"
proof -
  have "length ns = length (hs_name s)" "j \<le> hs_name_count s"
    "take j ns = filter (\<lambda>x. hn_handle x \<noteq> h) (names s)"
    using squeeze_spec [of 0 0 "hs_name_count s" "hs_name s" h] assms(1,2)
    by (simp_all add: names_ok_def names_def)
  moreover have "distinct (map hn_name (names s))"
    using assms(1) unfolding names_ok_def by (intro sorted_distinct) simp
  ultimately show ?thesis
    using assms(1,3,4) map_of_filter_handle
    by (auto simp: names_ok_def names_def [of s'] name_map_def [abs_def] sorted_wrt_filter)
qed

lemma retire_spec:
  assumes "table_ok k hof s" "names_ok s" "handle_retire hof h s = (r, s')"
  shows "case handle_grab hof h s of
      None \<Rightarrow> r = None \<and> s' = s
    | Some ctx \<Rightarrow> r = Some ctx \<and> table_ok k hof s' \<and> registered s' = registered s - {ctx} \<and> names_ok s' \<and>
        name_map s' = (\<lambda>name. case name_map s name of None \<Rightarrow> None | Some h' \<Rightarrow> if h' = h then None else Some h')"
proof -
  let ?i = "slot_of (2 ^ k) h"
  have l: "length (hs_slot s) = 2 ^ k" "?i < 2 ^ k" using assms(1) slot_of_less by (simp_all add: table_ok_def)
  show ?thesis
  proof (cases "handle_grab hof h s")
    case None
    then show ?thesis
      using assms(3) l by (auto simp: handle_grab_def handle_retire_def Let_def split: option.splits if_splits)
  next
    case (Some ctx)
    then have c: "hs_slot s ! ?i = Some ctx" "hof ctx = h"
      using l by (auto simp: handle_grab_def split: option.splits if_splits)
    obtain ns j where sq: "squeeze h (hs_name s) (hs_name_count s) 0 0 = (ns, j)" by fastforce
    have s': "r = Some ctx" "s' = s\<lparr>hs_slot := (hs_slot s)[?i := None], hs_name := ns, hs_name_count := j\<rparr>"
      using assms(3) c l sq by (simp_all add: handle_retire_def Let_def)
    have "table_ok k hof s'"
    proof -
      have "hs_slot s ! i = Some c" if "i < 2 ^ k" "hs_slot s' ! i = Some c" for i c
        using that l s'(2) by (cases "i = ?i") auto
      then show ?thesis using assms(1) by (simp add: table_ok_def s'(2))
    qed
    moreover have "registered s' = registered s - {ctx}"
    proof (intro equalityI subsetI)
      fix c assume "c \<in> registered s'"
      then obtain i where i: "i < length (hs_slot s)" "(hs_slot s)[?i := None] ! i = Some c"
        by (auto simp: registered_def s'(2) in_set_conv_nth)
      then have "i \<noteq> ?i" "hs_slot s ! i = Some c" using l by (auto simp: nth_list_update split: if_splits)
      moreover from this have "slot_of (2 ^ k) (hof c) = i" using assms(1) i(1) by (simp add: table_ok_def)
      ultimately show "c \<in> registered s - {ctx}" using slot_registered i(1) c(2) by auto
    next
      fix d assume d: "d \<in> registered s - {ctx}"
      then obtain i where i: "i < length (hs_slot s)" "hs_slot s ! i = Some d"
        by (auto simp: registered_def in_set_conv_nth)
      then have "i \<noteq> ?i" using d c(1) by auto
      then show "d \<in> registered s'" using i by (intro slot_registered [of i]) (simp_all add: s'(2))
    qed
    ultimately show ?thesis
      using Some s' retire_names [OF assms(2) sq, of s'] by simp
  qed
qed

section \<open>Properties\<close>

text \<open>
  C18: Registering a service that is not in a well-formed table returns (unless all \<open>2 ^ 24\<close> handles
  are in use, the table grows until there is room) with a handle of this node that no registered
  service has; once the service stores it, the table is well formed again, the handle finds the service,
  and every other handle finds what it found before.
\<close>
theorem register_gives_fresh_handle:
  assumes "table_ok k hof s" "ctx \<notin> registered s" "k < 24 \<or> find_slot s 0 (length (hs_slot s)) \<noteq> None"
  shows "\<exists>h s' k'. handle_register hof ctx s = Some (Inr (h, s')) \<and> table_ok k' (hof(ctx := h)) s' \<and>
    h AND NOT HANDLE_MASK = hs_harbor s \<and> handle_grab hof h s = None \<and>
    (\<forall>x. handle_grab (hof(ctx := h)) x s' = (if x = h then Some ctx else handle_grab hof x s))"
proof -
  obtain h s' k' where r: "handle_register hof ctx s = Some (Inr (h, s'))" "table_ok k' (hof(ctx := h)) s'"
    "registered s' = insert ctx (registered s)" "\<forall>c \<in> registered s. hof c \<noteq> h" "h AND NOT HANDLE_MASK = hs_harbor s"
    using register_spec [OF assms] by blast
  note old = grab_iff [OF assms(1)] and new = grab_iff [OF r(2)]
  have none: "handle_grab hof h s = None" using old r(4) by (cases "handle_grab hof h s") auto
  have "handle_grab (hof(ctx := h)) x s' = (if x = h then Some ctx else handle_grab hof x s)" for x
  proof (cases "x = h")
    case True
    then show ?thesis using new [of h ctx] r(3) by simp
  next
    case False
    have "handle_grab (hof(ctx := h)) x s' = Some c \<longleftrightarrow> handle_grab hof x s = Some c" for c
      using new [of x c] old [of x c] r(3) False assms(2) by auto
    then show ?thesis using False by (metis option.exhaust)
  qed
  then show ?thesis using r none by blast
qed

theorem register_gives_fresh_handle_witness:
  "\<exists>h s' k'. handle_register (\<lambda>_. 0) 7 (handle_init 1) = Some (Inr (h, s')) \<and> table_ok k' ((\<lambda>_. 0)(7 := h)) s' \<and>
    h AND NOT HANDLE_MASK = hs_harbor (handle_init 1) \<and> handle_grab (\<lambda>_. 0) h (handle_init 1) = None \<and>
    (\<forall>x. handle_grab ((\<lambda>_. 0)(7 := h)) x s' = (if x = h then Some 7 else handle_grab (\<lambda>_. 0) x (handle_init 1)))"
  by (rule register_gives_fresh_handle [of 2])
     (auto simp: table_ok_def handle_init_def registered_def DEFAULT_SLOT_SIZE_def HANDLE_MASK_def HANDLE_REMOTE_SHIFT_def)

text \<open>
  C25: The handle 0 is reserved for the system, but the counter wraps: on a table that is well formed,
  whose counter stands at \<open>0x1000000\<close> (it does after the handle \<open>0xffffff\<close> was given) and whose slot 0 is
  free, the service registered next on node 0 gets the handle 0, so no message can be sent to it.
\<close>
theorem register_wraps_to_zero:
  assumes "table_ok k hof s" "0 < k" "hs_index s = 0x1000000" "hs_slot s ! 0 = None" "hs_harbor s = 0"
  shows "\<exists>s'. handle_register hof ctx s = Some (Inr (0, s')) \<and> handle_grab (hof(ctx := 0)) 0 s' = Some ctx"
proof -
  have l: "length (hs_slot s) = 2 ^ k" using assms(1) by (simp add: table_ok_def)
  then obtain n where n: "length (hs_slot s) = Suc n" by (metis not0_implies_Suc power_not_zero zero_neq_numeral)
  have z: "slot_of (2 ^ k) 0 = 0" by (simp add: slot_of_mod)
  have "find_slot s 0 (length (hs_slot s)) = Some (0, 0)"
    using assms(3,4) z unfolding n by (simp add: l Let_def HANDLE_MASK_def)
  then have "handle_register hof ctx s = Some (Inr (0, s\<lparr>hs_slot := (hs_slot s)[0 := Some ctx], hs_index := 1\<rparr>))"
    using assms(5) by (simp add: register_unfold)
  then show ?thesis using l z by (simp add: handle_grab_def)
qed

theorem register_wraps_to_zero_witness:
  "\<exists>s'. handle_register (\<lambda>_. 0) 7 ((handle_init 0)\<lparr>hs_index := 0x1000000\<rparr>) = Some (Inr (0, s')) \<and>
    handle_grab ((\<lambda>_. 0)(7 := 0)) 0 s' = Some 7"
  by (rule register_wraps_to_zero [of 2])
     (auto simp: table_ok_def handle_init_def DEFAULT_SLOT_SIZE_def HANDLE_MASK_def HANDLE_REMOTE_SHIFT_def)

text \<open>
  Retiring a handle takes exactly its service out of the table, together with every name that
  stands for the handle; the other services and names stay, and a handle that no service has changes
  nothing.
\<close>
theorem retire_removes_service_and_names:
  assumes "table_ok k hof s" "names_ok s" "handle_retire hof h s = (r, s')"
  shows "r = handle_grab hof h s \<and> table_ok k hof s' \<and> names_ok s' \<and> handle_grab hof h s' = None \<and>
    (\<forall>x. x \<noteq> h \<longrightarrow> handle_grab hof x s' = handle_grab hof x s) \<and>
    (\<forall>name. name_map s' name =
       (if handle_grab hof h s \<noteq> None \<and> name_map s name = Some h then None else name_map s name))"
proof (cases "handle_grab hof h s")
  case None
  then show ?thesis using retire_spec [OF assms] assms(1,2) by simp
next
  case (Some ctx)
  then have r: "r = Some ctx" "table_ok k hof s'" "registered s' = registered s - {ctx}" "names_ok s'"
    "name_map s' = (\<lambda>name. case name_map s name of None \<Rightarrow> None | Some h' \<Rightarrow> if h' = h then None else Some h')"
    using retire_spec [OF assms] by simp_all
  note old = grab_iff [OF assms(1)] and new = grab_iff [OF r(2)]
  have c: "ctx \<in> registered s" "hof ctx = h" using old Some by simp_all
  have gone: "handle_grab hof h s' = None"
  proof (cases "handle_grab hof h s'")
    case (Some d)
    then have "d \<in> registered s" "hof d = h" "d \<noteq> ctx" using new r(3) by auto
    then show ?thesis using old [of h d] old [of h ctx] c by simp
  qed
  have "handle_grab hof x s' = handle_grab hof x s" if "x \<noteq> h" for x
  proof -
    have "handle_grab hof x s' = Some d \<longleftrightarrow> handle_grab hof x s = Some d" for d
      using new [of x d] old [of x d] r(3) c(2) that by auto
    then show ?thesis by (metis option.exhaust)
  qed
  then show ?thesis using Some r gone by (auto split: option.splits)
qed

theorem retire_removes_service_and_names_witness:
  "let s = \<lparr>hs_harbor = 0, hs_index = 3, hs_slot = [None, Some 8, Some 9, None], hs_name_count = 2,
        hs_name = [\<lparr>hn_name = [97], hn_handle = 1\<rparr>, \<lparr>hn_name = [98], hn_handle = 2\<rparr>]\<rparr>;
      hof = (\<lambda>_. 0)(8 := 1, 9 := 2); (r, s') = handle_retire hof 1 s
   in handle_grab hof 1 s' = None \<and> handle_grab hof 2 s' = Some 9 \<and> name_map s' [97] = None \<and> name_map s' [98] = Some 2"
proof -
  let ?s = "\<lparr>hs_harbor = 0, hs_index = 3, hs_slot = [None, Some 8, Some 9, None], hs_name_count = 2,
        hs_name = [\<lparr>hn_name = [97], hn_handle = 1\<rparr>, \<lparr>hn_name = [98], hn_handle = 2\<rparr>]\<rparr>"
  let ?hof = "(\<lambda>_. 0)(8 := 1, 9 := 2) :: nat \<Rightarrow> u32"
  have slots: "slot_of 4 1 = 1" "slot_of 4 2 = 2" by (simp_all add: slot_of_def)
  have slots': "slot_of (Suc (Suc (Suc (Suc 0)))) 1 = 1" "slot_of (Suc (Suc (Suc (Suc 0)))) 2 = 2"
    by (simp_all add: slot_of_def)
  have "table_ok 2 ?hof ?s"
    unfolding table_ok_def by (auto simp: slots nth_Cons' HANDLE_MASK_def less_Suc_eq split: if_splits)
  moreover have "names_ok ?s" by (simp add: names_ok_def names_def)
  moreover obtain r s' where rs: "handle_retire ?hof 1 ?s = (r, s')" by fastforce
  ultimately have p: "r = handle_grab ?hof 1 ?s \<and> table_ok 2 ?hof s' \<and> names_ok s' \<and> handle_grab ?hof 1 s' = None \<and>
    (\<forall>x. x \<noteq> 1 \<longrightarrow> handle_grab ?hof x s' = handle_grab ?hof x ?s) \<and>
    (\<forall>name. name_map s' name =
       (if handle_grab ?hof 1 ?s \<noteq> None \<and> name_map ?s name = Some 1 then None else name_map ?s name))"
    by (intro retire_removes_service_and_names)
  have "handle_grab ?hof 1 ?s = Some 8" "handle_grab ?hof 2 ?s = Some 9" "name_map ?s [97] = Some 1" "name_map ?s [98] = Some 2"
    by (simp_all add: handle_grab_def slots' name_map_def names_def)
  with p show ?thesis by (simp add: rs)
qed

text \<open>
  C26: The binary search and the sorted insertion implement a dictionary: on a well-formed table,
  \<open>skynet_handle_findname\<close> gives the handle of the name or 0, \<open>skynet_handle_namehandle\<close> refuses a name
  that exists and changes nothing, and otherwise, as long as the array may still grow, adds exactly
  the new name; no access leaves the array.
\<close>
theorem names_are_a_dictionary:
  assumes "names_ok s"
  shows "handle_findname name s = (case name_map s name of None \<Rightarrow> 0 | Some h' \<Rightarrow> h') \<and>
    (case handle_namehandle h name s of
       Inl e \<Rightarrow> e = Assert_failed \<and> name_map s name = None \<and> names_full s
     | Inr (None, s') \<Rightarrow> s' = s \<and> name_map s name \<noteq> None
     | Inr (Some name', s') \<Rightarrow> name' = name \<and> names_ok s' \<and> name_map s name = None \<and> name_map s' = (name_map s)(name \<mapsto> h))"
proof -
  have f: "handle_findname name s = (case name_map s name of None \<Rightarrow> 0 | Some h' \<Rightarrow> h')"
    using findname_spec [OF assms] by blast
  note n = namehandle_spec [OF assms, where name = name and h = h]
  show ?thesis
  proof (cases "name_map s name")
    case (Some h')
    then show ?thesis using f n by simp
  next
    case None
    show ?thesis
    proof (cases "names_full s")
      case True
      then show ?thesis using f n None by simp
    next
      case False
      then obtain s' where "handle_namehandle h name s = Inr (Some name, s')" "names_ok s'"
        "name_map s' = (name_map s)(name \<mapsto> h)"
        using n None by auto
      then show ?thesis using f None by simp
    qed
  qed
qed

theorem names_are_a_dictionary_witness:
  "handle_findname [97] (handle_init 1) = (case name_map (handle_init 1) [97] of None \<Rightarrow> 0 | Some h' \<Rightarrow> h') \<and>
    (case handle_namehandle 5 [97] (handle_init 1) of
       Inl e \<Rightarrow> e = Assert_failed \<and> name_map (handle_init 1) [97] = None \<and> names_full (handle_init 1)
     | Inr (None, s') \<Rightarrow> s' = handle_init 1 \<and> name_map (handle_init 1) [97] \<noteq> None
     | Inr (Some name', s') \<Rightarrow> name' = [97] \<and> names_ok s' \<and> name_map (handle_init 1) [97] = None \<and>
         name_map s' = (name_map (handle_init 1))([97] \<mapsto> 5))"
  by (rule names_are_a_dictionary) (simp add: names_ok_def names_def handle_init_def)

text \<open>
  Of any sequence of name registrations the first one of a name wins: later ones, of the same
  name or of others, never change the handle that the name stands for.
\<close>
theorem first_registration_wins:
  assumes "names_ok s" "add_name name h s = Some s'"
  shows "name_map (fold (\<lambda>(k, v) s. case add_name k v s of None \<Rightarrow> s | Some s' \<Rightarrow> s') kvs s') name = Some h"
proof -
  have f: "fold (\<lambda>(k, v) s. case add_name k v s of None \<Rightarrow> s | Some s' \<Rightarrow> s') kvs t = handle_names.add_all kvs t" for t
    by (induction kvs t rule: handle_names.add_all.induct) simp_all
  have "names_ok s'" "name_map s' name = Some h"
    using handle_names.add_Some [OF assms] by simp_all
  then show ?thesis unfolding f by (rule handle_names.first_wins)
qed

theorem first_registration_wins_witness:
  "name_map (fold (\<lambda>(k, v) s. case add_name k v s of None \<Rightarrow> s | Some s' \<Rightarrow> s') [([97], 6), ([98], 7)]
     ((handle_init 1)\<lparr>hs_name := [\<lparr>hn_name = [97], hn_handle = 5\<rparr>, no_name], hs_name_count := 1\<rparr>)) [97] = Some 5"
proof (rule first_registration_wins)
  show "names_ok (handle_init 1)" by (simp add: names_ok_def names_def handle_init_def)
  show "add_name [97] 5 (handle_init 1) =
      Some ((handle_init 1)\<lparr>hs_name := [\<lparr>hn_name = [97], hn_handle = 5\<rparr>, no_name], hs_name_count := 1\<rparr>)"
    by (simp add: add_name_def handle_namehandle_def handle_init_def search_name.simps insert_name_before_def Let_def numeral_2_eq_2)
qed

end
