(* ===== verification/Timer_wheel.thy ===== *)
theory Timer_wheel
  imports Mq
begin

text \<open>
  The timer of the node, \<open>src/3rd/skynet/skynet-src/skynet_timer.c\<close>: a hierarchical wheel of 256 lists for
  the near future and four levels of 64 lists for the rest, on a 32-bit counter of centiseconds that wraps
  around. Every function that touches the wheel holds its lock, except while the expired nodes, already
  unlinked, are dispatched.

  A \<open>link_list\<close> is the list of its nodes. The handling of an expired node is its message, which
  \<open>skynet_context_push\<close> puts in the queue of the service (see \<open>Server\<close>).
\<close>

definition PTYPE_RESPONSE :: u64 where
  "PTYPE_RESPONSE = 1"

definition MESSAGE_TYPE_SHIFT :: nat where
  "MESSAGE_TYPE_SHIFT = 56"

definition TIME_NEAR_SHIFT :: nat where
  "TIME_NEAR_SHIFT = 8"

definition TIME_LEVEL_SHIFT :: nat where
  "TIME_LEVEL_SHIFT = 6"

definition TIME_NEAR :: u32 where
  "TIME_NEAR = push_bit TIME_NEAR_SHIFT 1"

definition TIME_NEAR_MASK :: u32 where
  "TIME_NEAR_MASK = TIME_NEAR - 1"

definition TIME_LEVEL_MASK :: u32 where
  "TIME_LEVEL_MASK = push_bit TIME_LEVEL_SHIFT 1 - 1"

record timer_node =
  tn_expire :: u32
  tn_handle :: u32
  tn_session :: u32

record timer =
  t_near :: "nat \<Rightarrow> timer_node list"
  t_level :: "nat \<Rightarrow> nat \<Rightarrow> timer_node list"
  t_time :: u32
  t_starttime :: u32
  t_current :: u64
  t_current_point :: u64

definition timer_create_timer :: timer where
  "timer_create_timer =
     \<lparr>t_near = (\<lambda>_. []), t_level = (\<lambda>_ _. []), t_time = 0, t_starttime = 0, t_current = 0, t_current_point = 0\<rparr>"

text \<open>\<open>link\<close> to a list of the near wheel and to one of a level.\<close>

definition link_near :: "nat \<Rightarrow> timer_node \<Rightarrow> timer \<Rightarrow> timer" where
  "link_near i node T = T\<lparr>t_near := (t_near T)(i := t_near T i @ [node])\<rparr>"

definition link_level :: "nat \<Rightarrow> nat \<Rightarrow> timer_node \<Rightarrow> timer \<Rightarrow> timer" where
  "link_level l i node T = T\<lparr>t_level := (t_level T)(l := (t_level T l)(i := t_level T l i @ [node]))\<rparr>"

section \<open>Adding a node\<close>

function find_level :: "u32 \<Rightarrow> u32 \<Rightarrow> u32 \<Rightarrow> nat \<Rightarrow> nat" where
  "find_level time current_time msk i =
     (if i < 3
      then (if time OR (msk - 1) = current_time OR (msk - 1) then i
            else find_level time current_time (push_bit TIME_LEVEL_SHIFT msk) (i + 1))
      else i)"
  by pat_completeness auto
termination
  by (relation "measure (\<lambda>(time, current_time, msk, i). 3 - i)") auto

declare find_level.simps [simp del]

definition add_node :: "timer \<Rightarrow> timer_node \<Rightarrow> timer" where
  "add_node T node =
     (let time = tn_expire node; current_time = t_time T in
      if time OR TIME_NEAR_MASK = current_time OR TIME_NEAR_MASK
      then link_near (unat (time AND TIME_NEAR_MASK)) node T
      else
        (let i = find_level time current_time (push_bit TIME_LEVEL_SHIFT TIME_NEAR) 0
         in link_level i (unat (drop_bit (TIME_NEAR_SHIFT + i * TIME_LEVEL_SHIFT) time AND TIME_LEVEL_MASK)) node T))"

definition timer_add :: "timer \<Rightarrow> u32 \<Rightarrow> u32 \<Rightarrow> u32 \<Rightarrow> timer" where
  "timer_add T handle session time =
     add_node T \<lparr>tn_expire = time + t_time T, tn_handle = handle, tn_session = session\<rparr>"

section \<open>One tick\<close>

fun add_nodes :: "timer \<Rightarrow> timer_node list \<Rightarrow> timer" where
  "add_nodes T [] = T"
| "add_nodes T (n # ns) = add_nodes (add_node T n) ns"

definition move_list :: "timer \<Rightarrow> nat \<Rightarrow> nat \<Rightarrow> timer" where
  "move_list T level idx =
     add_nodes (T\<lparr>t_level := (t_level T)(level := (t_level T level)(idx := []))\<rparr>) (t_level T level idx)"

text \<open>The loop of \<open>timer_shift\<close>, which would not end for \<open>ct = 0\<close>.\<close>

partial_function (option) shift_loop :: "timer \<Rightarrow> u32 \<Rightarrow> u32 \<Rightarrow> u32 \<Rightarrow> nat \<Rightarrow> timer option" where
  "shift_loop T ct time msk i =
     (if ct AND (msk - 1) = 0
      then
        (let idx = time AND TIME_LEVEL_MASK in
         if idx \<noteq> 0 then Some (move_list T i (unat idx))
         else shift_loop T ct (drop_bit TIME_LEVEL_SHIFT time) (push_bit TIME_LEVEL_SHIFT msk) (i + 1))
      else Some T)"

definition timer_shift :: "timer \<Rightarrow> timer option" where
  "timer_shift T =
     (let ct = t_time T + 1; T = T\<lparr>t_time := ct\<rparr> in
      if ct = 0 then Some (move_list T 3 0)
      else shift_loop T ct (drop_bit TIME_NEAR_SHIFT ct) TIME_NEAR 0)"

text \<open>\<open>dispatch_list\<close>: the messages, each with the handle it is pushed to.\<close>

definition dispatch_list :: "timer_node list \<Rightarrow> (u32 \<times> skynet_message) list" where
  "dispatch_list ns =
     map (\<lambda>n. (tn_handle n, \<lparr>msg_source = 0, msg_session = tn_session n, msg_data = None,
                            msg_sz = push_bit MESSAGE_TYPE_SHIFT PTYPE_RESPONSE\<rparr>)) ns"

text \<open>\<open>timer_execute\<close>: the nodes it hands to \<open>dispatch_list\<close>, one list per round of its loop.\<close>

function timer_execute :: "timer \<Rightarrow> timer_node list \<times> timer" where
  "timer_execute T =
     (let idx = unat (t_time T AND TIME_NEAR_MASK) in
      if t_near T idx \<noteq> []
      then (let current = t_near T idx;
                (ns, T') = timer_execute (T\<lparr>t_near := (t_near T)(idx := [])\<rparr>)
            in (current @ ns, T'))
      else ([], T))"
  by pat_completeness auto
termination
  by (relation "measure (\<lambda>T. length (t_near T (unat (t_time T AND TIME_NEAR_MASK))))") auto

declare timer_execute.simps [simp del]

definition timer_update :: "timer \<Rightarrow> (timer_node list \<times> timer) option" where
  "timer_update T =
     (let (ns0, T) = timer_execute T in
      case timer_shift T of
        None \<Rightarrow> None
      | Some T \<Rightarrow> (let (ns1, T) = timer_execute T in Some (ns0 @ ns1, T)))"

fun timer_updates :: "nat \<Rightarrow> timer \<Rightarrow> (timer_node list list \<times> timer) option" where
  "timer_updates 0 T = Some ([], T)"
| "timer_updates (Suc n) T =
     (case timer_update T of
        None \<Rightarrow> None
      | Some (ns, T) \<Rightarrow>
          (case timer_updates n T of
             None \<Rightarrow> None
           | Some (nss, T) \<Rightarrow> Some (ns # nss, T)))"

text \<open>
  \<open>skynet_updatetime\<close> with the value \<open>cp\<close> of the monotonic clock; a clock that went back is
  reported.
\<close>

definition updatetime :: "u64 \<Rightarrow> timer \<Rightarrow> (bool \<times> timer_node list list \<times> timer) option" where
  "updatetime cp T =
     (if cp < t_current_point T then Some (True, [], T\<lparr>t_current_point := cp\<rparr>)
      else if cp \<noteq> t_current_point T then
        (let diff = ucast (cp - t_current_point T) :: u32;
             T = T\<lparr>t_current_point := cp, t_current := t_current T + ucast diff\<rparr>
         in case timer_updates (unat diff) T of
              None \<Rightarrow> None
            | Some (nss, T) \<Rightarrow> Some (False, nss, T))
      else Some (False, [], T))"

text \<open>
  \<open>skynet_timeout\<close>: a message for at once (the first component, which \<open>skynet_context_push\<close> delivers)
  or a timer.
\<close>

definition timeout :: "u32 \<Rightarrow> int \<Rightarrow> u32 \<Rightarrow> timer \<Rightarrow> skynet_message option \<times> timer" where
  "timeout handle time session T =
     (if time \<le> 0
      then (Some \<lparr>msg_source = 0, msg_session = session, msg_data = None,
                   msg_sz = push_bit MESSAGE_TYPE_SHIFT PTYPE_RESPONSE\<rparr>, T)
      else (None, timer_add T handle session (word_of_int time)))"

section \<open>Where a node belongs\<close>

text \<open>
  The place of a node that expires at \<open>e\<close> when the counter is \<open>c\<close>, in terms of the digits of the two
  numbers: one digit of 8 bits, then four of 6 bits. The level is the one of the highest digit in
  which they differ, the index is this digit of \<open>e\<close>.
\<close>

datatype place = Near nat | Level nat nat

definition digits_from :: "nat \<Rightarrow> nat \<Rightarrow> nat" where
  "digits_from l x = x div 2 ^ (8 + 6 * l)"

definition place :: "nat \<Rightarrow> nat \<Rightarrow> place" where
  "place c e =
     (if digits_from 0 e = digits_from 0 c then Near (e mod 256)
      else if digits_from 1 e = digits_from 1 c then Level 0 (digits_from 0 e mod 64)
      else if digits_from 2 e = digits_from 2 c then Level 1 (digits_from 1 e mod 64)
      else if digits_from 3 e = digits_from 3 c then Level 2 (digits_from 2 e mod 64)
      else Level 3 (digits_from 3 e mod 64))"

definition at_place :: "timer \<Rightarrow> place \<Rightarrow> timer_node list" where
  "at_place T p = (case p of Near i \<Rightarrow> t_near T i | Level l i \<Rightarrow> t_level T l i)"

definition place_of :: "timer \<Rightarrow> timer_node \<Rightarrow> place" where
  "place_of T n = place (unat (t_time T)) (unat (tn_expire n))"

lemma digits_Suc: "digits_from (Suc l) x = digits_from l x div 64"
proof -
  have "(2 :: nat) ^ (8 + 6 * Suc l) = 2 ^ (8 + 6 * l) * 64" by (simp add: power_add)
  then show ?thesis by (simp only: digits_from_def div_mult2_eq)
qed

lemma digits_num: "digits_from 1 x = digits_from 0 x div 64" "digits_from 2 x = digits_from 1 x div 64"
    "digits_from 3 x = digits_from 2 x div 64"
proof -
  have n: "1 = Suc 0" "2 = Suc 1" "3 = Suc 2" by simp_all
  show "digits_from 1 x = digits_from 0 x div 64" unfolding n(1) by (rule digits_Suc)
  show "digits_from 2 x = digits_from 1 x div 64" unfolding n(2) by (rule digits_Suc)
  show "digits_from 3 x = digits_from 2 x div 64" unfolding n(3) by (rule digits_Suc)
qed

lemma unat_drop: "unat (drop_bit n (a :: u32)) = unat a div 2 ^ n"
  unfolding unat_drop_bit_eq by (rule drop_bit_eq_div)

lemma or_mask_eq:
  fixes a b :: u32
  assumes "n \<le> 32"
  shows "a OR (push_bit n 1 - 1) = b OR (push_bit n 1 - 1) \<longleftrightarrow> unat a div 2 ^ n = unat b div 2 ^ n"
proof -
  have m: "push_bit n 1 - 1 = (mask n :: u32)" by (simp add: mask_eq_exp_minus_1)
  have "a OR mask n = b OR mask n \<longleftrightarrow> drop_bit n a = drop_bit n b"
  proof
    assume h: "a OR mask n = b OR mask n"
    show "drop_bit n a = drop_bit n b"
    proof (rule bit_word_eqI)
      fix k assume "k < LENGTH(32)"
      show "bit (drop_bit n a) k = bit (drop_bit n b) k"
        using arg_cong [OF h, of "\<lambda>w. bit w (n + k)"] bit_imp_le_length [of a "n + k"] bit_imp_le_length [of b "n + k"]
        by (auto simp: bit_simps)
    qed
  next
    assume h: "drop_bit n a = drop_bit n b"
    show "a OR mask n = b OR mask n"
    proof (rule bit_word_eqI)
      fix k assume "k < LENGTH(32)"
      then show "bit (a OR mask n) k = bit (b OR mask n) k"
        using arg_cong [OF h, of "\<lambda>w. bit w (k - n)"] by (cases "k < n") (auto simp: bit_simps)
    qed
  qed
  also have "\<dots> \<longleftrightarrow> unat a div 2 ^ n = unat b div 2 ^ n"
    unfolding unat_drop [symmetric] by (metis unsigned_word_eqI)
  finally show ?thesis unfolding m .
qed

lemma and_mask_mod:
  fixes a :: u32
  shows "unat (a AND (push_bit n 1 - 1)) = unat a mod 2 ^ n"
proof -
  have "a AND (push_bit n 1 - 1) = take_bit n a" by (simp add: take_bit_eq_mask mask_eq_exp_minus_1)
  moreover have "unat (take_bit n a) = take_bit n (unat a)" by (rule unsigned_take_bit_eq)
  ultimately show ?thesis by (simp only: take_bit_eq_mod)
qed


lemma find_level_place:
  "find_level e c (push_bit TIME_LEVEL_SHIFT TIME_NEAR) 0 =
     (if digits_from 1 (unat e) = digits_from 1 (unat c) then 0
      else if digits_from 2 (unat e) = digits_from 2 (unat c) then 1
      else if digits_from 3 (unat e) = digits_from 3 (unat c) then 2 else 3)"
proof -
  have m: "push_bit TIME_LEVEL_SHIFT TIME_NEAR = push_bit 14 1"
    "push_bit TIME_LEVEL_SHIFT (push_bit 14 1 :: u32) = push_bit 20 1"
    "push_bit TIME_LEVEL_SHIFT (push_bit 20 1 :: u32) = push_bit 26 1"
    by (simp_all add: TIME_LEVEL_SHIFT_def TIME_NEAR_def TIME_NEAR_SHIFT_def)
  have eq: "(e OR (push_bit n 1 - 1) = c OR (push_bit n 1 - 1)) = (digits_from l (unat e) = digits_from l (unat c))"
    if "n = 8 + 6 * l" "n \<le> 32" for n l
    unfolding digits_from_def that(1) [symmetric] using that(2) by (rule or_mask_eq)
  have eqs: "(e OR (push_bit 14 1 - 1) = c OR (push_bit 14 1 - 1)) = (digits_from 1 (unat e) = digits_from 1 (unat c))"
    "(e OR (push_bit 20 1 - 1) = c OR (push_bit 20 1 - 1)) = (digits_from 2 (unat e) = digits_from 2 (unat c))"
    "(e OR (push_bit 26 1 - 1) = c OR (push_bit 26 1 - 1)) = (digits_from 3 (unat e) = digits_from 3 (unat c))"
    by (rule eq; simp)+
  show ?thesis
    unfolding m(1) find_level.simps [of e c "push_bit 14 1" 0] m(2) find_level.simps [of e c "push_bit 20 1" "0 + 1"]
      m(3) find_level.simps [of e c "push_bit 26 1" "0 + 1 + 1"] find_level.simps [of e c _ "0 + 1 + 1 + 1"] eqs
    by simp
qed

definition put_at :: "place \<Rightarrow> timer_node \<Rightarrow> timer \<Rightarrow> timer" where
  "put_at p n T = (case p of Near i \<Rightarrow> link_near i n T | Level l i \<Rightarrow> link_level l i n T)"

lemma put_at_simps [simp]:
  "at_place (put_at p n T) q = (if q = p then at_place T p @ [n] else at_place T q)"
  "t_time (put_at p n T) = t_time T"
  by (cases p; cases q; simp add: put_at_def at_place_def link_near_def link_level_def)+

lemma add_node_place: "add_node T n = put_at (place_of T n) n T"
proof -
  let ?e = "tn_expire n" and ?c = "t_time T"
  have near: "TIME_NEAR_MASK = push_bit 8 1 - 1" "TIME_LEVEL_MASK = push_bit 6 1 - 1"
    by (simp_all add: TIME_NEAR_MASK_def TIME_NEAR_def TIME_NEAR_SHIFT_def TIME_LEVEL_MASK_def TIME_LEVEL_SHIFT_def)
  have 8: "(?e OR (push_bit 8 1 - 1) = ?c OR (push_bit 8 1 - 1)) = (digits_from 0 (unat ?e) = digits_from 0 (unat ?c))"
    unfolding digits_from_def using or_mask_eq [of 8 ?e ?c] by simp
  have idx: "unat (drop_bit (TIME_NEAR_SHIFT + l * TIME_LEVEL_SHIFT) ?e AND (push_bit 6 1 - 1)) =
      digits_from l (unat ?e) mod 64" for l
    unfolding and_mask_mod unat_drop digits_from_def TIME_NEAR_SHIFT_def TIME_LEVEL_SHIFT_def
    by (simp add: mult.commute)
  show ?thesis
    unfolding add_node_def Let_def find_level_place near 8 idx
    unfolding and_mask_mod place_of_def place_def put_at_def
    by simp
qed

section \<open>What a tick changes\<close>

lemma digits_step:
  "digits_from m (Suc c) = (if 2 ^ (8 + 6 * m) dvd Suc c then Suc (digits_from m c) else digits_from m c)"
  unfolding digits_from_def div_Suc by (auto simp: dvd_eq_mod_eq_0)

text \<open>The carry of the increment ends in digit \<open>l\<close>.\<close>

lemma digits_carry:
  assumes "2 ^ (8 + 6 * l) dvd Suc c" "digits_from l (Suc c) mod 64 \<noteq> 0"
  shows "digits_from m (Suc c) = (if m \<le> l then Suc (digits_from m c) else digits_from m c)"
proof (cases "m \<le> l")
  case True
  then have "(2 :: nat) ^ (8 + 6 * m) dvd 2 ^ (8 + 6 * l)" by (intro le_imp_power_dvd) simp
  then show ?thesis using True assms(1) digits_step dvd_trans by metis
next
  case False
  have "\<not> 2 ^ (8 + 6 * m) dvd Suc c"
  proof
    assume "2 ^ (8 + 6 * m) dvd Suc c"
    moreover have "(2 :: nat) ^ (8 + 6 * Suc l) dvd 2 ^ (8 + 6 * m)" using False by (intro le_imp_power_dvd) simp
    ultimately obtain x where "Suc c = 2 ^ (8 + 6 * Suc l) * x" using dvd_trans dvdE by metis
    moreover have "(2 :: nat) ^ (8 + 6 * Suc l) = 2 ^ (8 + 6 * l) * 64" by (simp add: power_add)
    ultimately have "digits_from l (Suc c) = 64 * x" by (simp add: digits_from_def mult.assoc)
    with assms(2) show False by simp
  qed
  then show ?thesis using False digits_step by simp
qed

text \<open>A node that is not in the past of the counter, up to the wrap-around.\<close>

definition ahead :: "nat \<Rightarrow> nat \<Rightarrow> bool" where
  "ahead c e = (c < e \<or> e + 2 ^ 31 < c)"

lemma ahead_differs:
  assumes "ahead c e" "2 ^ (8 + 6 * l) dvd Suc c" "l \<le> 3"
  shows "digits_from l e \<noteq> digits_from l c"
proof
  let ?p = "(2 :: nat) ^ (8 + 6 * l)"
  assume s: "digits_from l e = digits_from l c"
  have p: "?p \<le> 2 ^ 26" using assms(3) by (intro power_increasing) simp_all
  have pos: "0 < ?p" by simp
  have "c mod ?p = ?p - 1" using assms(2) pos by (metis Suc_diff_1 diff_Suc_1 dvd_imp_mod_0 mod_Suc nat.distinct(1))
  moreover have "e mod ?p < ?p" using pos by simp
  moreover have "e = digits_from l e * ?p + e mod ?p" "c = digits_from l c * ?p + c mod ?p"
    by (simp_all only: digits_from_def div_mult_mod_eq)
  moreover have "e \<le> c \<and> c < e + p" if "c' = p - 1" "e' < p" "e = q + e'" "c = q + c'" for p q c' e'
    using that by linarith
  ultimately have "e \<le> c \<and> c < e + ?p" unfolding s by blast
  then show False using assms(1) p by (simp add: ahead_def)
qed

lemma digits_bound: "x < 2 ^ 32 \<Longrightarrow> digits_from 3 x < 64"
  by (simp add: digits_from_def)

lemma digits_up: "digits_from m e = digits_from m c \<Longrightarrow> m \<le> n \<Longrightarrow> digits_from n e = digits_from n c"
  by (induction n) (auto simp: le_Suc_eq digits_Suc)

lemma place_Level:
  "place c e = Level l x \<longleftrightarrow>
     l \<le> 3 \<and> digits_from l e \<noteq> digits_from l c \<and> (l = 3 \<or> digits_from (Suc l) e = digits_from (Suc l) c) \<and>
     x = digits_from l e mod 64"
proof -
  have up: "digits_from m e = digits_from m c \<Longrightarrow> m \<le> n \<Longrightarrow> digits_from n e = digits_from n c" for m n
    by (rule digits_up)
  have n: "Suc 0 = 1" "Suc 1 = 2" "Suc 2 = 3" by simp_all
  show ?thesis
  proof (cases "l \<le> 3")
    case True
    then consider "l = 0" | "l = 1" | "l = 2" | "l = 3" by linarith
    then show ?thesis
      using up [of 0 1] up [of 1 2] up [of 2 3] up [of 0 2] up [of 0 3] up [of 1 3]
      by cases (simp only: place_def n, simp, blast)+
  next
    case False
    then show ?thesis by (simp add: place_def)
  qed
qed

lemma place_cong:
  assumes "\<And>m. m \<le> 3 \<Longrightarrow> digits_from m e = digits_from m c \<longleftrightarrow> digits_from m e = digits_from m d"
  shows "place c e = place d e"
  using assms [of 0] assms [of 1] assms [of 2] assms [of 3] by (simp add: place_def)

lemma place_carry:
  assumes "ahead c e" "2 ^ (8 + 6 * l) dvd Suc c" "digits_from l (Suc c) mod 64 \<noteq> 0" "l \<le> 3"
    "Suc c < 2 ^ 32" "e < 2 ^ 32"
  shows "if place c e = Level l (digits_from l (Suc c) mod 64)
    then place (Suc c) e \<noteq> Level l (digits_from l (Suc c) mod 64)
    else place (Suc c) e = place c e"
proof -
  note carry = digits_carry [OF assms(2,3)]
  have differs: "digits_from m e \<noteq> digits_from m c" if "m \<le> l" for m
    using ahead_differs [OF assms(1,2,4)] digits_up that by blast
  show ?thesis
  proof (cases "digits_from l e = digits_from l (Suc c)")
    case True
    have "l = 3 \<or> digits_from (Suc l) e = digits_from (Suc l) c"
      using digits_up [OF True, of "Suc l"] carry [of "Suc l"] by simp
    then have "place c e = Level l (digits_from l (Suc c) mod 64)"
      using differs [of l] assms(4) True by (simp add: place_Level)
    moreover have "place (Suc c) e \<noteq> Level l (digits_from l (Suc c) mod 64)"
      using True by (simp add: place_Level)
    ultimately show ?thesis by simp
  next
    case False
    have "digits_from m e \<noteq> digits_from m (Suc c)" if "m \<le> l" for m using False digits_up that by blast
    then have "place (Suc c) e = place c e"
      using differs carry by (intro place_cong) (metis not_le)
    moreover have "place c e \<noteq> Level l (digits_from l (Suc c) mod 64)"
    proof
      assume "place c e = Level l (digits_from l (Suc c) mod 64)"
      then have p: "l = 3 \<or> digits_from (Suc l) e = digits_from (Suc l) (Suc c)"
        "digits_from l (Suc c) mod 64 = digits_from l e mod 64"
        using carry [of "Suc l"] by (simp_all add: place_Level)
      have "digits_from l e div 64 = digits_from l (Suc c) div 64"
        using p(1) digits_bound [OF assms(5)] digits_bound [OF assms(6)] by (auto simp: digits_Suc)
      then show False using False p(2) by (metis div_mult_mod_eq)
    qed
    ultimately show ?thesis by simp
  qed
qed

lemma place_wrap:
  assumes "ahead c e" "Suc c = 2 ^ 32" "e < 2 ^ 32"
  shows "if place c e = Level 3 0 then place 0 e \<noteq> Level 3 0 else place 0 e = place c e"
proof -
  have z: "digits_from l 0 = 0" for l by (simp add: digits_from_def)
  have "digits_from 3 e \<noteq> digits_from 3 c" using assms(2) by (intro ahead_differs [OF assms(1)]) simp_all
  then have c: "place c e = Level 3 (digits_from 3 e)"
    using digits_bound [OF assms(3)] by (simp add: place_Level)
  show ?thesis
  proof (cases "digits_from 3 e = 0")
    case True
    then show ?thesis using c by (simp add: place_Level z)
  next
    case False
    then have "place 0 e = Level 3 (digits_from 3 e)"
      using digits_bound [OF assms(3)] by (simp add: place_Level z)
    then show ?thesis using c False by simp
  qed
qed

lemma place_low:
  assumes "\<not> 2 ^ 8 dvd Suc c"
  shows "place (Suc c) e = place c e"
proof -
  have "digits_from m (Suc c) = digits_from m c" for m
  proof -
    have "\<not> 2 ^ (8 + 6 * m) dvd Suc c"
      using assms by (meson dvd_trans le_add1 le_imp_power_dvd)
    then show ?thesis using digits_step by simp
  qed
  then show ?thesis by (simp add: place_def)
qed

section \<open>The invariant of the wheel\<close>

definition located :: "timer \<Rightarrow> bool" where
  "located T = (\<forall>p. \<forall>n \<in> set (at_place T p). place_of T n = p)"

definition remaining :: "timer \<Rightarrow> timer_node \<Rightarrow> nat" where
  "remaining T n = unat (tn_expire n - t_time T)"

definition wheel_ok :: "timer \<Rightarrow> bool" where
  "wheel_ok T = (\<forall>p. \<forall>n \<in> set (at_place T p). place_of T n = p \<and> 0 < remaining T n \<and> remaining T n < 2 ^ 31)"

text \<open>How often a node is in a wheel where every node is in its place.\<close>

definition pending :: "timer \<Rightarrow> timer_node \<Rightarrow> nat" where
  "pending T n = count_list (at_place T (place_of T n)) n"

lemma count_list_filter: "count_list (filter P xs) x = (if P x then count_list xs x else 0)"
  by (induction xs) auto

lemma add_nodes_spec:
  "t_time (add_nodes T ns) = t_time T \<and>
   at_place (add_nodes T ns) p = at_place T p @ filter (\<lambda>n. place_of T n = p) ns"
proof (induction ns arbitrary: T)
  case Nil
  then show ?case by simp
next
  case (Cons n ns)
  have "place_of (add_node T n) m = place_of T m" for m by (simp add: place_of_def add_node_place)
  then show ?case using Cons [of "add_node T n"] by (auto simp: add_node_place)
qed

text \<open>
  Moving one list of a level: when every node outside of the list is in its place and no node of the
  list is, all nodes are in their places afterwards.
\<close>

lemma move_list_spec:
  assumes "\<And>p n. n \<in> set (at_place T p) \<Longrightarrow> if p = Level l i then place_of T n \<noteq> p else place_of T n = p"
    and "\<And>p n. n \<in> set (at_place T (Level l i)) \<Longrightarrow> n \<in> set (at_place T p) \<Longrightarrow> p = Level l i"
  shows "t_time (move_list T l i) = t_time T \<and> located (move_list T l i) \<and>
    (\<Union>p. set (at_place (move_list T l i) p)) = (\<Union>p. set (at_place T p)) \<and>
    pending (move_list T l i) n =
      (if n \<in> set (at_place T (Level l i)) then count_list (at_place T (Level l i)) n else pending T n)"
proof -
  let ?Q = "Level l i" and ?T1 = "T\<lparr>t_level := (t_level T)(l := (t_level T l)(i := []))\<rparr>"
  let ?M = "move_list T l i" and ?ns = "at_place T (Level l i)"
  have t1: "at_place ?T1 p = (if p = ?Q then [] else at_place T p)" "place_of ?T1 m = place_of T m" for p m
    by (cases p; auto simp: at_place_def place_of_def)+
  have M: "t_time ?M = t_time T"
    "at_place ?M p = (if p = ?Q then [] else at_place T p) @ filter (\<lambda>n. place_of T n = p) ?ns" for p
    using add_nodes_spec [of ?T1 ?ns p] t1 by (simp_all add: move_list_def at_place_def [of T ?Q])
  have pl: "place_of ?M m = place_of T m" for m by (simp add: place_of_def M(1))
  have loc: "located ?M"
    using assms(1) by (auto simp: located_def pl M(2) split: if_splits)
  have all: "(\<Union>p. set (at_place ?M p)) = (\<Union>p. set (at_place T p))"
    using assms(1) unfolding M(2) by (fastforce split: if_splits)
  have "pending ?M n = (if n \<in> set ?ns then count_list ?ns n else pending T n)"
  proof (cases "n \<in> set ?ns")
    case True
    then have ne: "place_of T n \<noteq> ?Q" using assms(1) [of n ?Q] by simp
    then have "n \<notin> set (at_place T (place_of T n))" using assms(2) [OF True] by blast
    then show ?thesis using True ne by (simp add: pending_def pl M(2) count_list_filter count_list_0_iff)
  next
    case False
    then show ?thesis
      by (auto simp: pending_def pl M(2) count_list_filter count_list_0_iff)
  qed
  then show ?thesis using M(1) loc all by simp
qed

lemma remaining_ahead:
  assumes "0 < remaining T n" "remaining T n < 2 ^ 31"
  shows "ahead (unat (t_time T)) (unat (tn_expire n))"
proof -
  let ?e = "unat (tn_expire n)" and ?c = "unat (t_time T)"
  have b: "?e < 2 ^ 32" "?c < 2 ^ 32" using unat_lt [of "tn_expire n"] unat_lt [of "t_time T"] by simp_all
  have r: "remaining T n = (if ?c \<le> ?e then ?e - ?c else ?e + 2 ^ 32 - ?c)"
    using unat_sub_if_size [of "tn_expire n" "t_time T"] by (simp add: remaining_def word_size)
  show ?thesis
  proof (cases "?c \<le> ?e")
    case True
    then show ?thesis using r assms(1) by (simp add: ahead_def)
  next
    case False
    then show ?thesis using r assms(2) b unfolding ahead_def by simp
  qed
qed

lemma remaining_0: "remaining T n = 0 \<longleftrightarrow> tn_expire n = t_time T"
  by (simp add: remaining_def unat_eq_0 eq_iff_diff_eq_0 [symmetric])

lemma remaining_Suc:
  assumes "0 < remaining T n"
  shows "remaining (T\<lparr>t_time := t_time T + 1\<rparr>) n = remaining T n - 1"
proof -
  let ?d = "tn_expire n - t_time T"
  have "?d \<noteq> 0" using assms by (auto simp: remaining_def)
  then have "unat (?d - 1) = unat ?d - 1" by (simp add: unat_minus_one)
  moreover have "tn_expire n - (t_time T + 1) = ?d - 1" by simp
  moreover have "t_time (T\<lparr>t_time := t_time T + 1\<rparr>) = t_time T + 1" by simp
  ultimately show ?thesis unfolding remaining_def by (simp only:)
qed

text \<open>The loop finds the digit where the carry ends.\<close>

lemma shift_loop_spec:
  assumes "ct \<noteq> 0" "i \<le> 3" "2 ^ (8 + 6 * i) dvd unat ct"
  shows "\<exists>l. l \<le> 3 \<and> 2 ^ (8 + 6 * l) dvd unat ct \<and> digits_from l (unat ct) mod 64 \<noteq> 0 \<and>
    shift_loop T ct (drop_bit (8 + 6 * i) ct) (push_bit (8 + 6 * i) 1) i =
      Some (move_list T l (digits_from l (unat ct) mod 64))"
  using assms(2,3)
proof (induction "3 - i" arbitrary: i rule: less_induct)
  case less
  let ?s = "8 + 6 * i"
  have idx: "unat (drop_bit ?s ct AND TIME_LEVEL_MASK) = digits_from i (unat ct) mod 64"
  proof -
    have "TIME_LEVEL_MASK = push_bit 6 1 - 1" by (simp add: TIME_LEVEL_MASK_def TIME_LEVEL_SHIFT_def)
    then show ?thesis using and_mask_mod [of "drop_bit ?s ct" 6] by (simp add: unat_drop digits_from_def)
  qed
  have "unat (ct AND (push_bit ?s 1 - 1)) = 0"
    unfolding and_mask_mod using less.prems(2) by (simp add: dvd_eq_mod_eq_0)
  then have z: "ct AND (push_bit ?s 1 - 1) = 0" by (simp only: unat_eq_0)
  show ?case
  proof (cases "digits_from i (unat ct) mod 64 = 0")
    case False
    then have "drop_bit ?s ct AND TIME_LEVEL_MASK \<noteq> 0" using idx by (metis unat_0)
    then have "shift_loop T ct (drop_bit ?s ct) (push_bit ?s 1) i =
        Some (move_list T i (digits_from i (unat ct) mod 64))"
      unfolding idx [symmetric] by (simp only: shift_loop.simps [of T ct _ _ i] z Let_def if_True if_False simp_thms)
    then show ?thesis using False less.prems by blast
  next
    case True
    then have m: "drop_bit ?s ct AND TIME_LEVEL_MASK = 0" using idx unat_eq_0 by metis
    have "2 ^ ?s * 64 dvd unat ct"
      using True less.prems(2) by (metis digits_from_def dvd_mult_div_cancel mod_eq_0_iff_dvd mult_dvd_mono dvd_refl)
    then have d: "2 ^ (8 + 6 * Suc i) dvd unat ct" by (simp add: power_add mult.commute mult.left_commute)
    have "i < 3"
    proof (rule ccontr)
      assume "\<not> i < 3"
      then have "i = 3" using less.prems(1) by simp
      then have "2 ^ 32 dvd unat ct" using d by simp
      moreover have "unat ct < 2 ^ 32" using unat_lt [of ct] by simp
      ultimately have "unat ct = 0" by (meson dvd_imp_le not_gr_zero not_le)
      then show False using assms(1) by (simp only: unat_eq_0)
    qed
    then obtain l where l: "l \<le> 3" "2 ^ (8 + 6 * l) dvd unat ct" "digits_from l (unat ct) mod 64 \<noteq> 0"
      "shift_loop T ct (drop_bit (8 + 6 * Suc i) ct) (push_bit (8 + 6 * Suc i) 1) (Suc i) =
        Some (move_list T l (digits_from l (unat ct) mod 64))"
      using less.hyps [OF _ _ d] by (metis Suc_leI diff_less_mono2 lessI)
    have s: "8 + 6 * Suc i = 6 + ?s" by simp
    have "drop_bit TIME_LEVEL_SHIFT (drop_bit ?s ct) = drop_bit (8 + 6 * Suc i) ct"
      "push_bit TIME_LEVEL_SHIFT (push_bit ?s 1 :: u32) = push_bit (8 + 6 * Suc i) 1"
      unfolding s TIME_LEVEL_SHIFT_def by (simp_all only: push_bit_push_bit drop_bit_drop_bit)
    moreover have "i + 1 = Suc i" by simp
    ultimately have "shift_loop T ct (drop_bit ?s ct) (push_bit ?s 1) i =
        shift_loop T ct (drop_bit (8 + 6 * Suc i) ct) (push_bit (8 + 6 * Suc i) 1) (Suc i)"
      by (simp only: shift_loop.simps [of T ct "drop_bit ?s ct" _ i] z m Let_def if_True if_False simp_thms)
    then show ?thesis using l by auto
  qed
qed

text \<open>The time goes on by one and all nodes are moved to their places.\<close>

lemma move_after_step:
  assumes "wheel_ok T" "T1 = T\<lparr>t_time := t_time T + 1\<rparr>"
    and "\<And>n p. n \<in> set (at_place T p) \<Longrightarrow>
      if place_of T n = Level l i then place_of T1 n \<noteq> Level l i else place_of T1 n = place_of T n"
  shows "t_time (move_list T1 l i) = t_time T1 \<and> located (move_list T1 l i) \<and>
    (\<Union>p. set (at_place (move_list T1 l i) p)) = (\<Union>p. set (at_place T p)) \<and>
    pending (move_list T1 l i) n = pending T n"
proof -
  have at: "at_place T1 p = at_place T p" for p by (cases p) (simp_all add: at_place_def assms(2))
  have loc: "place_of T m = p" if "m \<in> set (at_place T p)" for m p using assms(1) that by (simp add: wheel_ok_def)
  have a: "if p = Level l i then place_of T1 m \<noteq> p else place_of T1 m = p" if "m \<in> set (at_place T1 p)" for m p
    using assms(3) [of m p] loc [of m p] that at by auto
  have b: "p = Level l i" if "m \<in> set (at_place T1 (Level l i))" "m \<in> set (at_place T1 p)" for m p
    using loc [of m p] loc [of m "Level l i"] that at by simp
  have M: "t_time (move_list T1 l i) = t_time T1 \<and> located (move_list T1 l i) \<and>
    (\<Union>p. set (at_place (move_list T1 l i) p)) = (\<Union>p. set (at_place T1 p)) \<and>
    pending (move_list T1 l i) n =
      (if n \<in> set (at_place T1 (Level l i)) then count_list (at_place T1 (Level l i)) n else pending T1 n)"
    by (rule move_list_spec; (rule a | rule b); assumption)
  have "(if n \<in> set (at_place T1 (Level l i)) then count_list (at_place T1 (Level l i)) n else pending T1 n) = pending T n"
  proof (cases "n \<in> set (at_place T (Level l i))")
    case True
    then show ?thesis using loc [OF True] at by (simp add: pending_def)
  next
    case False
    have "count_list (at_place T (place_of T1 n)) n = count_list (at_place T (place_of T n)) n"
    proof (cases "\<exists>p. n \<in> set (at_place T p)")
      case True
      then obtain p where p: "n \<in> set (at_place T p)" by blast
      then have "place_of T n \<noteq> Level l i" using loc [OF p] False by auto
      then have "place_of T1 n = place_of T n" using assms(3) [OF p] by (simp only: if_False)
      then show ?thesis by (simp only:)
    next
      case none: False
      then show ?thesis by (simp add: count_list_0_iff)
    qed
    then show ?thesis using False at by (simp add: pending_def)
  qed
  moreover have "(\<Union>p. set (at_place T1 p)) = (\<Union>p. set (at_place T p))" by (simp only: at)
  ultimately show ?thesis using M by (elim conjE) (intro conjI; simp only:)
qed

lemma timer_shift_spec:
  assumes "wheel_ok T"
  shows "\<exists>T'. timer_shift T = Some T' \<and> t_time T' = t_time T + 1 \<and> located T' \<and>
    (\<Union>p. set (at_place T' p)) = (\<Union>p. set (at_place T p)) \<and> (\<forall>n. pending T' n = pending T n)"
proof -
  let ?ct = "t_time T + 1" and ?T1 = "T\<lparr>t_time := t_time T + 1\<rparr>" and ?c = "unat (t_time T)"
  have near: "drop_bit TIME_NEAR_SHIFT ?ct = drop_bit (8 + 6 * 0) ?ct" "TIME_NEAR = push_bit (8 + 6 * 0) 1"
    by (simp_all add: TIME_NEAR_SHIFT_def TIME_NEAR_def)
  have pl: "place_of T n = place ?c (unat (tn_expire n))" "place_of ?T1 n = place (unat ?ct) (unat (tn_expire n))" for n
    by (simp_all add: place_of_def)
  have at: "at_place ?T1 p = at_place T p" for p by (cases p) (simp_all add: at_place_def)
  have node: "ahead ?c (unat (tn_expire n))" "unat (tn_expire n) < 2 ^ 32" if "n \<in> set (at_place T p)" for n p
    using assms that remaining_ahead unat_lt [of "tn_expire n"] by (auto simp: wheel_ok_def)
  have go: ?thesis if "timer_shift T = Some (move_list ?T1 l i)"
    "\<And>n p. n \<in> set (at_place T p) \<Longrightarrow>
      if place_of T n = Level l i then place_of ?T1 n \<noteq> Level l i else place_of ?T1 n = place_of T n" for l i
  proof -
    have "t_time (move_list ?T1 l i) = t_time ?T1 \<and> located (move_list ?T1 l i) \<and>
      (\<Union>p. set (at_place (move_list ?T1 l i) p)) = (\<Union>p. set (at_place T p)) \<and>
      pending (move_list ?T1 l i) n = pending T n" for n
      by (rule move_after_step [OF assms refl]) (rule that(2))
    then show ?thesis using that(1) by auto
  qed
  show ?thesis
  proof (cases "?ct = 0")
    case True
    have c: "Suc ?c = 2 ^ 32"
    proof -
      have "t_time T = - 1" using True by (simp only: eq_neg_iff_add_eq_0)
      moreover have "unat (- 1 :: u32) = 2 ^ 32 - 1" by (simp add: unsigned_minus_1_eq_mask mask_eq_exp_minus_1)
      ultimately show ?thesis by simp
    qed
    show ?thesis
    proof (rule go)
      show "timer_shift T = Some (move_list ?T1 3 0)" using True by (simp only: timer_shift_def Let_def if_True simp_thms)
      fix n p assume n: "n \<in> set (at_place T p)"
      show "if place_of T n = Level 3 0 then place_of ?T1 n \<noteq> Level 3 0 else place_of ?T1 n = place_of T n"
        unfolding pl unfolding True unat_0 by (rule place_wrap [OF node(1) [OF n] c node(2) [OF n]])
    qed
  next
    case False
    then have ct: "unat ?ct = Suc ?c" using unatSuc [of "t_time T"] by (simp only: add.commute not_False_eq_True)
    have s: "timer_shift T = shift_loop ?T1 ?ct (drop_bit (8 + 6 * 0) ?ct) (push_bit (8 + 6 * 0) 1) 0"
      using False unfolding near [symmetric] by (simp only: timer_shift_def Let_def if_False)
    show ?thesis
    proof (cases "2 ^ (8 + 6 * 0) dvd unat ?ct")
      case True
      obtain l where l: "l \<le> 3" "2 ^ (8 + 6 * l) dvd unat ?ct" "digits_from l (unat ?ct) mod 64 \<noteq> 0"
        "timer_shift T = Some (move_list ?T1 l (digits_from l (unat ?ct) mod 64))"
        using shift_loop_spec [OF False _ True, of ?T1] unfolding s by blast
      have bound: "Suc ?c < 2 ^ 32" using unat_lt [of ?ct] unfolding ct by simp
      show ?thesis
      proof (rule go [OF l(4)])
        fix n p assume n: "n \<in> set (at_place T p)"
        show "if place_of T n = Level l (digits_from l (unat ?ct) mod 64)
          then place_of ?T1 n \<noteq> Level l (digits_from l (unat ?ct) mod 64) else place_of ?T1 n = place_of T n"
          unfolding pl ct
          by (rule place_carry [OF node(1) [OF n] _ _ l(1) bound node(2) [OF n]]) (use l(2,3) ct in simp_all)
      qed
    next
      case low: False
      have "unat (?ct AND (push_bit (8 + 6 * 0) 1 - 1)) \<noteq> 0"
        unfolding and_mask_mod using low by (simp only: dvd_eq_mod_eq_0 not_False_eq_True)
      then have "?ct AND (push_bit (8 + 6 * 0) 1 - 1) \<noteq> 0" by (metis unat_0)
      then have T1: "timer_shift T = Some ?T1"
        unfolding s by (simp only: shift_loop.simps [of ?T1 ?ct _ _ 0] if_False)
      have p: "place_of ?T1 n = place_of T n" for n
        unfolding pl ct by (rule place_low) (use low ct in simp)
      have "located ?T1" using assms by (simp add: located_def wheel_ok_def at p)
      moreover have "pending ?T1 n = pending T n" for n by (simp add: pending_def at p)
      ultimately show ?thesis using T1 at by auto
    qed
  qed
qed

lemma timer_execute_spec:
  assumes "located T"
  shows "timer_execute T = (t_near T (unat (t_time T) mod 256), T\<lparr>t_near := (t_near T)(unat (t_time T) mod 256 := [])\<rparr>)"
proof -
  have idx: "unat (t_time T AND TIME_NEAR_MASK) = unat (t_time T) mod 256"
    using and_mask_mod [of "t_time T" 8] by (simp add: TIME_NEAR_MASK_def TIME_NEAR_def TIME_NEAR_SHIFT_def)
  show ?thesis
  proof (cases "t_near T (unat (t_time T) mod 256) = []")
    case True
    then have "T\<lparr>t_near := (t_near T)(unat (t_time T) mod 256 := [])\<rparr> = T" by (simp add: fun_upd_idem)
    then show ?thesis using True by (simp add: timer_execute.simps [of T] idx Let_def)
  next
    case False
    let ?T = "T\<lparr>t_near := (t_near T)(unat (t_time T) mod 256 := [])\<rparr>"
    have idx': "unat (t_time ?T AND TIME_NEAR_MASK) = unat (t_time T) mod 256" using idx by simp
    have "timer_execute ?T = ([], ?T)"
      unfolding timer_execute.simps [of ?T] idx' by (simp add: Let_def)
    then show ?thesis using False by (simp add: timer_execute.simps [of T] idx Let_def)
  qed
qed

lemma place_now: "place c e = Near (c mod 256) \<longleftrightarrow> e = c"
proof
  assume p: "place c e = Near (c mod 256)"
  then have "e div 256 = c div 256" "e mod 256 = c mod 256" by (simp_all add: place_def digits_from_def split: if_splits)
  then show "e = c" by (metis div_mult_mod_eq)
qed (simp add: place_def)

lemma executed_nodes:
  assumes "located T"
  shows "count_list (fst (timer_execute T)) n = (if tn_expire n = t_time T then pending T n else 0) \<and>
    located (snd (timer_execute T)) \<and> t_time (snd (timer_execute T)) = t_time T \<and>
    pending (snd (timer_execute T)) n = (if tn_expire n = t_time T then 0 else pending T n) \<and>
    (\<forall>p. \<forall>m \<in> set (at_place (snd (timer_execute T)) p). tn_expire m \<noteq> t_time T \<and> m \<in> set (at_place T p))"
proof -
  let ?i = "unat (t_time T) mod 256" and ?T = "T\<lparr>t_near := (t_near T)(unat (t_time T) mod 256 := [])\<rparr>"
  have at: "at_place ?T p = (if p = Near ?i then [] else at_place T p)" for p by (cases p) (simp_all add: at_place_def)
  have pl: "place_of ?T m = place_of T m" for m by (simp add: place_of_def)
  have now: "place_of T m = Near ?i \<longleftrightarrow> tn_expire m = t_time T" for m
    unfolding place_of_def place_now by (metis unsigned_word_eqI)
  have near: "t_near T ?i = at_place T (Near ?i)" by (simp add: at_place_def)
  have "count_list (t_near T ?i) n = (if tn_expire n = t_time T then pending T n else 0)"
  proof (cases "tn_expire n = t_time T")
    case True
    then have "place_of T n = Near ?i" by (simp only: now)
    then show ?thesis using True by (simp add: pending_def near)
  next
    case False
    then have "place_of T n \<noteq> Near ?i" by (simp only: now not_False_eq_True)
    then have "n \<notin> set (t_near T ?i)" using assms unfolding near located_def by blast
    then show ?thesis using False by (simp add: count_list_0_iff)
  qed
  moreover have "located ?T" using assms by (auto simp: located_def at pl)
  moreover have "pending ?T n = (if tn_expire n = t_time T then 0 else pending T n)"
    by (simp add: pending_def pl at now)
  moreover have "\<forall>p. \<forall>m \<in> set (at_place ?T p). tn_expire m \<noteq> t_time T \<and> m \<in> set (at_place T p)"
  proof (intro allI ballI conjI)
    fix p m assume m: "m \<in> set (at_place ?T p)"
    then have "p \<noteq> Near ?i" "m \<in> set (at_place T p)" by (auto simp: at split: if_splits)
    moreover from this have "place_of T m = p" using assms by (simp add: located_def)
    ultimately show "tn_expire m \<noteq> t_time T" "m \<in> set (at_place T p)" using now by auto
  qed
  ultimately show ?thesis unfolding timer_execute_spec [OF assms] by simp
qed

lemma timer_update_spec:
  assumes "wheel_ok T"
  shows "\<exists>ds T'. timer_update T = Some (ds, T') \<and> wheel_ok T' \<and> t_time T' = t_time T + 1 \<and>
    (\<forall>n. count_list ds n = (if tn_expire n = t_time T + 1 then pending T n else 0) \<and>
         pending T' n = (if tn_expire n = t_time T + 1 then 0 else pending T n))"
proof -
  have loc: "located T" using assms by (simp add: located_def wheel_ok_def)
  have "t_near T (unat (t_time T) mod 256) = []"
  proof (rule ccontr)
    assume "t_near T (unat (t_time T) mod 256) \<noteq> []"
    then obtain n where "n \<in> set (at_place T (Near (unat (t_time T) mod 256)))"
      using hd_in_set by (fastforce simp: at_place_def)
    then have "place_of T n = Near (unat (t_time T) mod 256)" "0 < remaining T n"
      using assms by (auto simp: wheel_ok_def)
    then have "unat (tn_expire n) = unat (t_time T)" "remaining T n \<noteq> 0" by (simp_all add: place_of_def place_now)
    then show False using remaining_0 by (metis unsigned_word_eqI)
  qed
  then have ex0: "timer_execute T = ([], T)" using timer_execute_spec [OF loc] by (simp add: fun_upd_idem)
  obtain T1 where T1: "timer_shift T = Some T1" "t_time T1 = t_time T + 1" "located T1"
    "(\<Union>p. set (at_place T1 p)) = (\<Union>p. set (at_place T p))" "\<And>n. pending T1 n = pending T n"
    using timer_shift_spec [OF assms] by blast
  obtain ds T' where ex1: "timer_execute T1 = (ds, T')" by fastforce
  note e = executed_nodes [OF T1(3), unfolded ex1 fst_conv snd_conv T1(2,5)]
  have u: "timer_update T = Some (ds, T')" by (simp add: timer_update_def ex0 T1(1) ex1)
  have "wheel_ok T'"
    unfolding wheel_ok_def
  proof (intro allI ballI)
    fix p n assume n: "n \<in> set (at_place T' p)"
    then have d: "tn_expire n \<noteq> t_time T + 1" "n \<in> set (at_place T1 p)" using e by blast+
    then have "n \<in> (\<Union>p. set (at_place T p))" using T1(4) by blast
    then have r: "0 < remaining T n" "remaining T n < 2 ^ 31" using assms by (auto simp: wheel_ok_def)
    have rem: "remaining T' n = remaining T n - 1"
      using remaining_Suc [OF r(1)] e by (simp add: remaining_def)
    have "remaining T' n \<noteq> 0" using d(1) e by (simp only: remaining_0 not_False_eq_True)
    moreover have "place_of T' n = p" using n e unfolding located_def by blast
    ultimately show "place_of T' n = p \<and> 0 < remaining T' n \<and> remaining T' n < 2 ^ 31" using rem r by simp
  qed
  then show ?thesis using u e by blast
qed

lemma timer_add_spec:
  assumes "wheel_ok T" "0 < d" "unat d < 2 ^ 31"
  shows "wheel_ok (timer_add T h s d) \<and> t_time (timer_add T h s d) = t_time T \<and>
    pending (timer_add T h s d) n =
      pending T n + (if n = \<lparr>tn_expire = d + t_time T, tn_handle = h, tn_session = s\<rparr> then 1 else 0)"
proof -
  let ?n = "\<lparr>tn_expire = d + t_time T, tn_handle = h, tn_session = s\<rparr>"
  have t: "timer_add T h s d = put_at (place_of T ?n) ?n T" by (simp only: timer_add_def add_node_place)
  have pl: "place_of (put_at p ?n T) m = place_of T m" "remaining (put_at p ?n T) m = remaining T m" for p m
    by (simp_all add: place_of_def remaining_def)
  have "remaining T ?n = unat d" by (simp add: remaining_def)
  then have "0 < remaining T ?n" "remaining T ?n < 2 ^ 31" using assms(2,3) by (simp_all add: unat_gt_0 word_neq_0_conv)
  then have "wheel_ok (put_at (place_of T ?n) ?n T)"
    using assms(1) by (auto simp: wheel_ok_def pl split: if_splits)
  moreover have "pending (put_at (place_of T ?n) ?n T) n = pending T n + (if n = ?n then 1 else 0)"
    by (auto simp: pending_def pl)
  ultimately show ?thesis unfolding t by simp
qed

lemma timer_updates_spec:
  assumes "wheel_ok T" "k < 2 ^ 32"
  shows "\<exists>dss T'. timer_updates k T = Some (dss, T') \<and> wheel_ok T' \<and> t_time T' = t_time T + of_nat k \<and> length dss = k \<and>
    (\<forall>n. \<forall>j < k. count_list (dss ! j) n = (if tn_expire n = t_time T + of_nat (Suc j) then pending T n else 0))"
  using assms
proof (induction k arbitrary: T)
  case 0
  then show ?case by simp
next
  case (Suc k)
  obtain ds T1 where T1: "timer_update T = Some (ds, T1)" "wheel_ok T1" "t_time T1 = t_time T + 1"
    "\<And>n. count_list ds n = (if tn_expire n = t_time T + 1 then pending T n else 0)"
    "\<And>n. pending T1 n = (if tn_expire n = t_time T + 1 then 0 else pending T n)"
    using timer_update_spec [OF Suc.prems(1)] by blast
  from Suc.IH [OF T1(2)] Suc.prems(2) obtain dss T' where k: "timer_updates k T1 = Some (dss, T')" "wheel_ok T'"
    "t_time T' = t_time T1 + of_nat k" "length dss = k"
    "\<And>n j. j < k \<Longrightarrow> count_list (dss ! j) n = (if tn_expire n = t_time T1 + of_nat (Suc j) then pending T1 n else 0)"
    by auto
  have "count_list ((ds # dss) ! j) n = (if tn_expire n = t_time T + of_nat (Suc j) then pending T n else 0)"
    if "j < Suc k" for n j
  proof (cases j)
    case 0
    then show ?thesis by (simp add: T1(4))
  next
    case (Suc i)
    have "(of_nat (Suc i) :: u32) \<noteq> 0"
    proof
      assume "(of_nat (Suc i) :: u32) = 0"
      then have "unat (of_nat (Suc i) :: u32) = 0" by (simp only: unat_0)
      moreover have "unat (of_nat (Suc i) :: u32) = Suc i" by (rule unat_of_nat_small) (use that Suc Suc.prems(2) in simp)
      ultimately show False by simp
    qed
    then have "t_time T + of_nat (Suc j) \<noteq> t_time T + 1" unfolding Suc by simp
    moreover have "t_time T1 + of_nat (Suc i) = t_time T + of_nat (Suc j)" by (simp add: T1(3) Suc)
    moreover have "count_list (dss ! i) n = (if tn_expire n = t_time T1 + of_nat (Suc i) then pending T1 n else 0)"
      using k(5) that Suc by simp
    ultimately have "count_list (dss ! i) n = (if tn_expire n = t_time T + of_nat (Suc j) then pending T n else 0)"
      unfolding T1(5)
      by (cases "tn_expire n = t_time T + of_nat (Suc j)") (auto simp del: of_nat_Suc)
    then show ?thesis by (simp add: Suc)
  qed
  moreover have "t_time T' = t_time T + of_nat (Suc k)" by (simp add: k(3) T1(3))
  ultimately show ?case
    using T1(1) k by (intro exI [of _ "ds # dss"] exI [of _ T']) simp
qed

text \<open>The clock fields are not touched by the ticks.\<close>

definition same_clock :: "timer \<Rightarrow> timer \<Rightarrow> bool" where
  "same_clock T T' = (t_current T' = t_current T \<and> t_current_point T' = t_current_point T \<and> t_starttime T' = t_starttime T)"

lemma same_clock_trans: "same_clock T T1 \<Longrightarrow> same_clock T1 T2 \<Longrightarrow> same_clock T T2"
  by (simp add: same_clock_def)

lemma add_nodes_clock: "same_clock T (add_nodes T ns)"
  by (induction T ns rule: add_nodes.induct)
     (auto simp: same_clock_def add_node_place put_at_def link_near_def link_level_def split: place.splits)

lemma move_list_clock: "same_clock T (move_list T l i)"
  using add_nodes_clock [of "T\<lparr>t_level := (t_level T)(l := (t_level T l)(i := []))\<rparr>" "t_level T l i"]
  by (simp add: same_clock_def move_list_def)

lemma shift_loop_clock: "shift_loop T ct time msk i = Some T' \<Longrightarrow> same_clock T T'"
proof (rule shift_loop.raw_induct [where P = "\<lambda>T ct time msk i T'. same_clock T T'", rotated])
  fix f T ct time msk i T'
  assume "\<And>T ct time msk i T'. f T ct time msk i = Some T' \<Longrightarrow> same_clock T T'"
    and "(if ct AND (msk - 1) = 0
      then let idx = time AND TIME_LEVEL_MASK in
        if idx \<noteq> 0 then Some (move_list T i (unat idx))
        else f T ct (drop_bit TIME_LEVEL_SHIFT time) (push_bit TIME_LEVEL_SHIFT msk) (i + 1)
      else Some T) = Some T'"
  then show "same_clock T T'"
    using move_list_clock by (auto simp: Let_def same_clock_def split: if_splits)
qed

lemma timer_execute_clock: "same_clock T (snd (timer_execute T))"
proof (induction T rule: timer_execute.induct)
  case (1 T)
  then show ?case
    by (subst timer_execute.simps) (auto simp: Let_def case_prod_unfold same_clock_def)
qed

lemma timer_update_clock:
  assumes "timer_update T = Some (ds, T')"
  shows "same_clock T T'"
proof -
  let ?T0 = "snd (timer_execute T)"
  obtain T1 where T1: "timer_shift ?T0 = Some T1" "T' = snd (timer_execute T1)"
    using assms by (auto simp: timer_update_def case_prod_unfold Let_def split: option.splits)
  have "same_clock ?T0 T1"
    using T1(1) move_list_clock [of "?T0\<lparr>t_time := 0\<rparr>" 3 0] shift_loop_clock [of "?T0\<lparr>t_time := t_time ?T0 + 1\<rparr>"]
    by (auto simp: timer_shift_def Let_def same_clock_def split: if_splits)
  then show ?thesis using timer_execute_clock T1(2) same_clock_trans by metis
qed

lemma timer_updates_clock: "timer_updates k T = Some (dss, T') \<Longrightarrow> same_clock T T'"
proof (induction k arbitrary: T dss)
  case 0
  then show ?case by (simp add: same_clock_def)
next
  case (Suc k)
  then obtain ds T1 dss' where "timer_update T = Some (ds, T1)" "timer_updates k T1 = Some (dss', T')"
    by (auto split: option.splits)
  then show ?case using Suc.IH timer_update_clock same_clock_trans by blast
qed

section \<open>Properties\<close>

text \<open>
  C15: A timer fires exactly once and exactly on time: on a wheel with any pending timers, a timer
  started with a delay of \<open>d\<close> ticks, \<open>0 < d < 2 ^ 31\<close>, is not dispatched by the next \<open>d - 1\<close> ticks and
  is dispatched by the \<open>d\<close>-th, whatever the level of the wheel it was filed in, how often it was moved,
  and also when the 32-bit counter wraps around in between. (\<open>pending\<close> counts equal timers that were
  already waiting.)
\<close>
theorem timer_fires_on_time:
  assumes "wheel_ok T" "0 < d" "unat d < 2 ^ 31"
  shows "\<exists>dss T'. timer_updates (unat d) (timer_add T h s d) = Some (dss, T') \<and> length dss = unat d \<and> wheel_ok T' \<and>
    (\<forall>j < unat d. count_list (dss ! j) \<lparr>tn_expire = d + t_time T, tn_handle = h, tn_session = s\<rparr> =
       (if j = unat d - 1 then pending T \<lparr>tn_expire = d + t_time T, tn_handle = h, tn_session = s\<rparr> + 1 else 0))"
proof -
  let ?n = "\<lparr>tn_expire = d + t_time T, tn_handle = h, tn_session = s\<rparr>" and ?T = "timer_add T h s d"
  note a = timer_add_spec [OF assms, of h s]
  have "unat d < 2 ^ 32" using assms(3) by simp
  then obtain dss T' where u: "timer_updates (unat d) ?T = Some (dss, T')" "wheel_ok T'" "length dss = unat d"
    "\<And>n j. j < unat d \<Longrightarrow> count_list (dss ! j) n = (if tn_expire n = t_time ?T + of_nat (Suc j) then pending ?T n else 0)"
    using timer_updates_spec [of ?T "unat d"] a by blast
  have "count_list (dss ! j) ?n = (if j = unat d - 1 then pending T ?n + 1 else 0)" if "j < unat d" for j
  proof -
    have s: "unat (of_nat (Suc j) :: u32) = Suc j" by (rule unat_of_nat_small) (use that assms(3) in simp)
    have "d + t_time T = t_time T + of_nat (Suc j) \<longleftrightarrow> d = of_nat (Suc j)" by (simp add: add.commute)
    also have "\<dots> \<longleftrightarrow> unat d = Suc j" using s by (metis unsigned_word_eqI)
    also have "\<dots> \<longleftrightarrow> j = unat d - 1" using that by linarith
    finally show ?thesis using u(4) [OF that, of ?n] a by simp
  qed
  then show ?thesis using u by blast
qed

theorem timer_fires_on_time_witness:
  "\<exists>dss T'. timer_updates (unat (300 :: u32)) (timer_add (timer_create_timer\<lparr>t_time := 0xffffff00\<rparr>) 1 2 300) = Some (dss, T') \<and>
    length dss = unat (300 :: u32) \<and> wheel_ok T' \<and>
    (\<forall>j < unat (300 :: u32). count_list (dss ! j) \<lparr>tn_expire = 300 + 0xffffff00, tn_handle = 1, tn_session = 2\<rparr> =
       (if j = unat (300 :: u32) - 1
        then pending (timer_create_timer\<lparr>t_time := 0xffffff00\<rparr>) \<lparr>tn_expire = 300 + 0xffffff00, tn_handle = 1, tn_session = 2\<rparr> + 1
        else 0))"
proof -
  have ok: "wheel_ok (timer_create_timer\<lparr>t_time := 0xffffff00\<rparr>)"
    by (auto simp: wheel_ok_def at_place_def timer_create_timer_def split: place.splits)
  have t: "t_time (timer_create_timer\<lparr>t_time := 0xffffff00\<rparr>) = 0xffffff00" by simp
  have p: "(0 :: u32) < 300" "unat (300 :: u32) < 2 ^ 31" by simp_all
  from timer_fires_on_time [OF ok p, where h = 1 and s = 2, unfolded t] show ?thesis .
qed

text \<open>
  One tick, on any wheel that the operations can produce, ends, keeps the invariant, and hands out
  exactly the pending timers that expire at the new time, each as often as it was pending; all others
  stay pending, in the list where later ticks look for them.
\<close>
theorem tick_dispatches_due:
  assumes "wheel_ok T"
  shows "\<exists>ds T'. timer_update T = Some (ds, T') \<and> wheel_ok T' \<and> t_time T' = t_time T + 1 \<and>
    (\<forall>n. count_list ds n = (if tn_expire n = t_time T + 1 then pending T n else 0) \<and>
         pending T' n = (if tn_expire n = t_time T + 1 then 0 else pending T n))"
  using assms by (rule timer_update_spec)

theorem tick_dispatches_due_witness:
  "\<exists>ds T'. timer_update (timer_add timer_create_timer 1 2 1) = Some (ds, T') \<and> wheel_ok T' \<and>
    t_time T' = t_time (timer_add timer_create_timer 1 2 1) + 1 \<and>
    (\<forall>n. count_list ds n = (if tn_expire n = t_time (timer_add timer_create_timer 1 2 1) + 1
           then pending (timer_add timer_create_timer 1 2 1) n else 0) \<and>
         pending T' n = (if tn_expire n = t_time (timer_add timer_create_timer 1 2 1) + 1
           then 0 else pending (timer_add timer_create_timer 1 2 1) n))"
proof (rule tick_dispatches_due)
  have "wheel_ok timer_create_timer"
    by (auto simp: wheel_ok_def at_place_def timer_create_timer_def split: place.splits)
  then show "wheel_ok (timer_add timer_create_timer 1 2 1)" using timer_add_spec [of timer_create_timer 1 1 2] by simp
qed

text \<open>
  When the monotonic clock has gone on by \<open>diff < 2 ^ 32\<close> centiseconds, \<open>skynet_updatetime\<close> makes
  exactly \<open>diff\<close> ticks, moves the counter and the running time on by \<open>diff\<close> and remembers the clock.
\<close>
theorem updatetime_catches_up:
  assumes "wheel_ok T" "t_current_point T < cp" "unat (cp - t_current_point T) < 2 ^ 32"
  shows "\<exists>dss T'. updatetime cp T = Some (False, dss, T') \<and> length dss = unat (cp - t_current_point T) \<and>
    wheel_ok T' \<and> t_time T' = t_time T + ucast (cp - t_current_point T) \<and>
    t_current T' = t_current T + (cp - t_current_point T) \<and> t_current_point T' = cp"
proof -
  let ?d = "cp - t_current_point T"
  let ?T = "T\<lparr>t_current_point := cp, t_current := t_current T + ucast (ucast ?d :: u32)\<rparr>"
  have d: "unat (ucast ?d :: u32) = unat ?d" using assms(3) by (intro unat_ucast_small) simp
  have at: "at_place ?T p = at_place T p" for p by (cases p) (simp_all add: at_place_def)
  have "wheel_ok ?T" using assms(1) by (simp add: wheel_ok_def at place_of_def remaining_def)
  then obtain dss T' where u: "timer_updates (unat ?d) ?T = Some (dss, T')" "wheel_ok T'"
    "t_time T' = t_time ?T + of_nat (unat ?d)" "length dss = unat ?d"
    using timer_updates_spec [OF _ assms(3), of ?T] by blast
  have "\<not> cp < t_current_point T" "cp \<noteq> t_current_point T" using assms(2) by auto
  then have "updatetime cp T = Some (False, dss, T')"
    unfolding updatetime_def Let_def d u(1) by simp
  moreover have "t_time T' = t_time T + ucast ?d"
    using u(3) by simp
  moreover have "ucast (ucast ?d :: u32) = ?d" 
  proof (rule unsigned_word_eqI)
    have "unat (ucast ?d :: u32) < 2 ^ 64" using unat_lt [of "ucast ?d :: u32"] by simp
    then show "unat (ucast (ucast ?d :: u32) :: u64) = unat ?d" using d by (simp add: unat_ucast_small)
  qed
  then have "t_current T' = t_current T + ?d" "t_current_point T' = cp"
    using timer_updates_clock [OF u(1)] by (simp_all add: same_clock_def)
  ultimately show ?thesis using u by blast
qed

theorem updatetime_catches_up_witness:
  "\<exists>dss T'. updatetime 7 timer_create_timer = Some (False, dss, T') \<and>
    length dss = unat (7 - t_current_point timer_create_timer) \<and>
    wheel_ok T' \<and> t_time T' = t_time timer_create_timer + ucast (7 - t_current_point timer_create_timer) \<and>
    t_current T' = t_current timer_create_timer + (7 - t_current_point timer_create_timer) \<and> t_current_point T' = 7"
proof (rule updatetime_catches_up)
  show "wheel_ok timer_create_timer"
    by (auto simp: wheel_ok_def at_place_def timer_create_timer_def split: place.splits)
qed (simp_all add: timer_create_timer_def)

end
