(* ===== verification/Databuffer.thy ===== *)
theory Databuffer
  imports Prelude "HOL-Library.Signed_Division"
begin

text \<open>
  The two data structures of the C gate: the buffer of the bytes that a connection has received
  (\<open>src/3rd/skynet/service-src/databuffer.h\<close>), a queue of messages with a cursor in the first one, and
  the table from socket ids to connection slots (\<open>src/3rd/skynet/service-src/hashid.h\<close>), a hash table whose
  nodes live in one array.
\<close>

section \<open>The receive buffer\<close>

definition MESSAGEPOOL :: nat where
  "MESSAGEPOOL = 1023"

text \<open>
  The chain of messages from \<open>head\<close> to \<open>tail\<close> is the list of their buffers; NULL is the empty list, so
  that the assertions on \<open>tail\<close> in \<open>databuffer_push\<close> and \<open>_return_message\<close> have no counterpart. The size is
  an \<open>int\<close> in the code and unbounded here: a buffer would have to hold 2 GB. Of the pool only the numbers of its blocks and of the nodes on its free list matter.
\<close>

record databuffer =
  db_header :: int
  db_offset :: nat
  db_size :: nat
  db_messages :: "bytes list"

record messagepool =
  mp_blocks :: nat
  mp_free :: nat

definition db_init :: databuffer where
  "db_init = \<lparr>db_header = 0, db_offset = 0, db_size = 0, db_messages = []\<rparr>"

definition return_message :: "databuffer \<Rightarrow> messagepool \<Rightarrow> (databuffer \<times> messagepool) res" where
  "return_message db mp =
     (case db_messages db of
        [] \<Rightarrow> Inl Out_of_bounds
      | m # ms \<Rightarrow> Inr (db\<lparr>db_messages := ms\<rparr>, mp\<lparr>mp_free := mp_free mp + 1\<rparr>))"

text \<open>The loop of \<open>databuffer_read\<close>: the bytes it copies.\<close>

function read_loop :: "databuffer \<Rightarrow> messagepool \<Rightarrow> nat \<Rightarrow> (bytes \<times> databuffer \<times> messagepool) res" where
  "read_loop db mp sz =
     (case db_messages db of
        [] \<Rightarrow> Inl Out_of_bounds
      | current # rest \<Rightarrow>
         (if length current < db_offset db then Inl Out_of_bounds
          else
            (let bsz = length current - db_offset db in
             if sz < bsz
             then Inr (take sz (drop (db_offset db) current), db\<lparr>db_offset := db_offset db + sz\<rparr>, mp)
             else if bsz = sz
             then bind_r (return_message (db\<lparr>db_offset := 0\<rparr>) mp) (\<lambda>(db', mp').
                    Inr (drop (db_offset db) current, db', mp'))
             else (case return_message db mp of
                     Inl e \<Rightarrow> Inl e
                   | Inr (db', mp') \<Rightarrow>
                       bind_r (read_loop (db'\<lparr>db_offset := 0\<rparr>) mp' (sz - bsz)) (\<lambda>(bs, r).
                         Inr (drop (db_offset db) current @ bs, r))))))"
  by pat_completeness auto
termination
  by (relation "measure (\<lambda>(db, mp, sz). length (db_messages db))") (auto simp: return_message_def)

declare read_loop.simps [simp del]

definition databuffer_read :: "databuffer \<Rightarrow> messagepool \<Rightarrow> nat \<Rightarrow> (bytes \<times> databuffer \<times> messagepool) res" where
  "databuffer_read db mp sz =
     (if db_size db < sz then Inl Assert_failed
      else read_loop (db\<lparr>db_size := db_size db - sz\<rparr>) mp sz)"

definition databuffer_push :: "databuffer \<Rightarrow> messagepool \<Rightarrow> bytes \<Rightarrow> databuffer \<times> messagepool" where
  "databuffer_push db mp data =
     (let mp = (if 0 < mp_free mp then mp\<lparr>mp_free := mp_free mp - 1\<rparr>
                else mp\<lparr>mp_blocks := mp_blocks mp + 1, mp_free := MESSAGEPOOL - 1\<rparr>)
      in (db\<lparr>db_messages := db_messages db @ [data], db_size := db_size db + length data\<rparr>, mp))"

text \<open>The header is kept in an \<open>int\<close>: its 32 bits are read as a signed number.\<close>

definition databuffer_readheader ::
  "databuffer \<Rightarrow> messagepool \<Rightarrow> nat \<Rightarrow> (int \<times> databuffer \<times> messagepool) res" where
  "databuffer_readheader db mp header_size =
     (let check = (\<lambda>(db, mp). if int (db_size db) < db_header db then (- 1, db, mp) else (db_header db, db, mp)) in
      if db_header db = 0
      then
        (if db_size db < header_size then Inr (- 1, db, mp)
         else bind_r (databuffer_read db mp header_size) (\<lambda>(plen, db, mp).
           bind_r (if header_size = 2 then
                     (if length plen = 2
                      then Inr (sint (push_bit 8 (ucast (plen ! 0)) OR ucast (plen ! 1) :: u32)) else Inl Out_of_bounds)
                   else if length plen = 4 then
                     Inr (sint (push_bit 24 (ucast (plen ! 0)) OR push_bit 16 (ucast (plen ! 1)) OR
                           push_bit 8 (ucast (plen ! 2)) OR ucast (plen ! 3) :: u32))
                   else Inl Out_of_bounds) (\<lambda>header.
             Inr (check (db\<lparr>db_header := header\<rparr>, mp)))))
      else Inr (check (db, mp)))"

definition databuffer_reset :: "databuffer \<Rightarrow> databuffer" where
  "databuffer_reset db = db\<lparr>db_header := 0\<rparr>"

text \<open>\<open>databuffer_clear\<close> returns every message to the pool.\<close>

definition databuffer_clear :: "databuffer \<Rightarrow> messagepool \<Rightarrow> databuffer \<times> messagepool" where
  "databuffer_clear db mp = (db_init, mp\<lparr>mp_free := mp_free mp + length (db_messages db)\<rparr>)"

section \<open>The buffer is a byte queue\<close>

definition contents :: "databuffer \<Rightarrow> bytes" where
  "contents db = drop (db_offset db) (concat (db_messages db))"

definition db_ok :: "databuffer \<Rightarrow> bool" where
  "db_ok db =
     (db_size db = length (contents db) \<and>
      db_offset db \<le> (case db_messages db of [] \<Rightarrow> 0 | m # _ \<Rightarrow> length m))"

text \<open>Every node of the pool is on the free list or in a buffer.\<close>

definition nodes_of :: "databuffer \<Rightarrow> messagepool \<Rightarrow> nat" where
  "nodes_of db mp = mp_free mp + length (db_messages db)"

lemma db_init_ok [simp]: "db_ok db_init" "contents db_init = []"
  by (simp_all add: db_ok_def db_init_def contents_def)

lemma databuffer_push_spec:
  assumes "db_ok db" "databuffer_push db mp data = (db', mp')"
  shows "db_ok db' \<and> contents db' = contents db @ data \<and> db_header db' = db_header db \<and>
    nodes_of db' mp' = nodes_of db mp + (mp_blocks mp' - mp_blocks mp) * MESSAGEPOOL"
proof -
  have "db_offset db \<le> length (concat (db_messages db))"
    using assms(1) by (cases "db_messages db") (auto simp: db_ok_def)
  then show ?thesis
    using assms
    by (cases "db_messages db")
       (auto simp: databuffer_push_def Let_def db_ok_def contents_def nodes_of_def MESSAGEPOOL_def split: if_splits)
qed

lemma read_loop_spec:
  assumes "db_offset db \<le> (case db_messages db of [] \<Rightarrow> 0 | m # _ \<Rightarrow> length m)"
    and "0 < sz" "sz \<le> length (contents db)"
  shows "\<exists>db' mp'. read_loop db mp sz = Inr (take sz (contents db), db', mp') \<and>
    contents db' = drop sz (contents db) \<and> db_size db' = db_size db \<and> db_header db' = db_header db \<and>
    db_offset db' \<le> (case db_messages db' of [] \<Rightarrow> 0 | m # _ \<Rightarrow> length m) \<and>
    nodes_of db' mp' = nodes_of db mp \<and> mp_blocks mp' = mp_blocks mp"
  using assms
proof (induction "length (db_messages db)" arbitrary: db mp sz rule: less_induct)
  case less
  obtain current rest where ms: "db_messages db = current # rest"
    using less.prems(2,3) by (cases "db_messages db") (auto simp: contents_def)
  let ?bsz = "length current - db_offset db"
  have off: "db_offset db \<le> length current" using less.prems(1) ms by simp
  have c: "contents db = drop (db_offset db) current @ concat rest" using off ms by (simp add: contents_def)
  consider "sz < ?bsz" | "?bsz = sz" | "?bsz < sz" by linarith
  then show ?case
  proof cases
    case 1
    then show ?thesis
      using ms off by (auto simp: read_loop.simps [of db] c contents_def nodes_of_def Let_def add.commute)
  next
    case 2
    then show ?thesis
      using ms off
      by (auto simp: read_loop.simps [of db] return_message_def c contents_def nodes_of_def Let_def split: list.splits)
  next
    case 3
    let ?db = "db\<lparr>db_messages := rest, db_offset := 0\<rparr>" and ?mp = "mp\<lparr>mp_free := mp_free mp + 1\<rparr>"
    have cr: "contents ?db = concat rest" by (simp add: contents_def)
    have "sz - ?bsz \<le> length (contents ?db)" using less.prems(3) 3 c off cr by simp
    moreover have "0 < sz - ?bsz" "db_offset ?db \<le> (case db_messages ?db of [] \<Rightarrow> 0 | m # _ \<Rightarrow> length m)"
      using 3 by simp_all
    ultimately obtain db' mp' where r: "read_loop ?db ?mp (sz - ?bsz) = Inr (take (sz - ?bsz) (contents ?db), db', mp')"
      "contents db' = drop (sz - ?bsz) (contents ?db)" "db_size db' = db_size ?db" "db_header db' = db_header ?db"
      "db_offset db' \<le> (case db_messages db' of [] \<Rightarrow> 0 | m # _ \<Rightarrow> length m)"
      "nodes_of db' mp' = nodes_of ?db ?mp" "mp_blocks mp' = mp_blocks ?mp"
      using less.hyps [of ?db "sz - ?bsz" ?mp] ms by auto
    have "read_loop db mp sz = Inr (take sz (contents db), db', mp')"
      using 3 ms off r(1) by (simp add: read_loop.simps [of db] return_message_def c cr Let_def)
    moreover have "contents db' = drop sz (contents db)" using r(2) 3 off by (simp add: c cr)
    ultimately show ?thesis using r ms by (auto simp: nodes_of_def)
  qed
qed

lemma databuffer_read_spec:
  assumes "db_ok db" "0 < sz" "sz \<le> length (contents db)"
  shows "\<exists>db' mp'. databuffer_read db mp sz = Inr (take sz (contents db), db', mp') \<and> db_ok db' \<and>
    contents db' = drop sz (contents db) \<and> db_header db' = db_header db \<and>
    nodes_of db' mp' = nodes_of db mp \<and> mp_blocks mp' = mp_blocks mp"
proof -
  let ?db = "db\<lparr>db_size := db_size db - sz\<rparr>"
  have c: "contents ?db = contents db" by (simp add: contents_def)
  obtain db' mp' where r: "read_loop ?db mp sz = Inr (take sz (contents db), db', mp')"
    "contents db' = drop sz (contents db)" "db_size db' = db_size db - sz" "db_header db' = db_header db"
    "db_offset db' \<le> (case db_messages db' of [] \<Rightarrow> 0 | m # _ \<Rightarrow> length m)"
    "nodes_of db' mp' = nodes_of db mp" "mp_blocks mp' = mp_blocks mp"
    using read_loop_spec [of ?db sz mp] assms c by (auto simp: db_ok_def nodes_of_def)
  then have "db_ok db'" using assms(1,3) by (simp add: db_ok_def)
  then show ?thesis using r assms by (simp add: databuffer_read_def db_ok_def)
qed

section \<open>The table of socket ids\<close>

text \<open>
  The nodes live in the array \<open>id\<close>; a chain of the hash table links nodes by their index. The fields
  \<open>hashmod\<close> and \<open>cap\<close> are one less than the length of \<open>hi_hash\<close> and the length of \<open>hi_id\<close>.
\<close>

record hashid_node =
  nd_id :: int
  nd_next :: "nat option"

record hashid =
  hi_count :: nat
  hi_id :: "hashid_node list"
  hi_hash :: "nat option list"

function hash_cap :: "nat \<Rightarrow> nat \<Rightarrow> nat" where
  "hash_cap hashcap mx = (if 0 < hashcap \<and> hashcap < mx then hash_cap (hashcap * 2) mx else hashcap)"
  by pat_completeness auto
termination
  by (relation "measure (\<lambda>(hashcap, mx). mx - hashcap)") (auto intro: diff_less_mono2)

declare hash_cap.simps [simp del]

definition hashid_init :: "nat \<Rightarrow> hashid" where
  "hashid_init mx =
     \<lparr>hi_count = 0, hi_id = replicate mx \<lparr>nd_id = - 1, nd_next = None\<rparr>,
      hi_hash = replicate (hash_cap 16 mx) None\<rparr>"

definition bucket :: "hashid \<Rightarrow> int \<Rightarrow> nat" where
  "bucket hi key = nat (key AND (int (length (hi_hash hi)) - 1))"

partial_function (option) walk :: "hashid_node list \<Rightarrow> int \<Rightarrow> nat option \<Rightarrow> int res option" where
  "walk nodes key c =
     (case c of
        None \<Rightarrow> Some (Inr (- 1))
      | Some i \<Rightarrow>
          (if length nodes \<le> i then Some (Inl Out_of_bounds)
           else if nd_id (nodes ! i) = key then Some (Inr (int i))
           else walk nodes key (nd_next (nodes ! i))))"

definition hashid_lookup :: "hashid \<Rightarrow> int \<Rightarrow> int res option" where
  "hashid_lookup hi key = walk (hi_id hi) key (hi_hash hi ! bucket hi key)"

text \<open>The loop of \<open>hashid_remove\<close> behind the first node: the node before the one with the id.\<close>

partial_function (option) walk_next :: "hashid_node list \<Rightarrow> int \<Rightarrow> nat \<Rightarrow> nat option res option" where
  "walk_next nodes key i =
     (case nd_next (nodes ! i) of
        None \<Rightarrow> Some (Inr None)
      | Some j \<Rightarrow>
          (if length nodes \<le> j then Some (Inl Out_of_bounds)
           else if nd_id (nodes ! j) = key then Some (Inr (Some i))
           else walk_next nodes key j))"

definition clear_node :: "nat \<Rightarrow> hashid \<Rightarrow> int \<times> hashid" where
  "clear_node c hi =
     (int c, hi\<lparr>hi_id := (hi_id hi)[c := \<lparr>nd_id = - 1, nd_next = None\<rparr>], hi_count := hi_count hi - 1\<rparr>)"

definition hashid_remove :: "hashid \<Rightarrow> int \<Rightarrow> (int \<times> hashid) res option" where
  "hashid_remove hi key =
     (let h = bucket hi key in
      case hi_hash hi ! h of
        None \<Rightarrow> Some (Inr (- 1, hi))
      | Some c \<Rightarrow>
          (if length (hi_id hi) \<le> c then Some (Inl Out_of_bounds)
           else if nd_id (hi_id hi ! c) = key
           then Some (Inr (clear_node c (hi\<lparr>hi_hash := (hi_hash hi)[h := nd_next (hi_id hi ! c)]\<rparr>)))
           else
             (case walk_next (hi_id hi) key c of
                None \<Rightarrow> None
              | Some (Inl e) \<Rightarrow> Some (Inl e)
              | Some (Inr None) \<Rightarrow> Some (Inr (- 1, hi))
              | Some (Inr (Some i)) \<Rightarrow>
                  (case nd_next (hi_id hi ! i) of
                     None \<Rightarrow> Some (Inr (- 1, hi))
                   | Some temp \<Rightarrow>
                       Some (Inr (clear_node temp
                         (hi\<lparr>hi_id := (hi_id hi)[i := (hi_id hi ! i)\<lparr>nd_next := nd_next (hi_id hi ! temp)\<rparr>]\<rparr>)))))))"

text \<open>
  The search for a free node from the place of the id on, for \<open>n\<close> more values of \<open>i\<close>. The sum \<open>i+id\<close> is an
  \<open>int\<close> of 32 bits (it wraps around here, as the compiled code does) and C divides towards 0.
\<close>

fun find_free :: "hashid_node list \<Rightarrow> int \<Rightarrow> nat \<Rightarrow> nat \<Rightarrow> nat option res" where
  "find_free nodes key i 0 = Inr None"
| "find_free nodes key i (Suc n) =
     (let index = sint (of_nat i + of_int key :: u32) smod int (length nodes) in
      if index < 0 then Inl Out_of_bounds
      else if nd_id (nodes ! nat index) = - 1 then Inr (Some (nat index))
      else find_free nodes key (i + 1) n)"

definition hashid_insert :: "hashid \<Rightarrow> int \<Rightarrow> (int \<times> hashid) res" where
  "hashid_insert hi key =
     bind_r (find_free (hi_id hi) key 0 (length (hi_id hi))) (\<lambda>c.
       (case c of
          None \<Rightarrow> Inl Assert_failed
        | Some c \<Rightarrow>
            (if nd_next (hi_id hi ! c) \<noteq> None then Inl Assert_failed
             else
               (let h = bucket hi key in
                Inr (int c, hi\<lparr>hi_count := hi_count hi + 1,
                               hi_id := (hi_id hi)[c := \<lparr>nd_id = key, nd_next = hi_hash hi ! h\<rparr>],
                               hi_hash := (hi_hash hi)[h := Some c]\<rparr>)))))"

definition hashid_full :: "hashid \<Rightarrow> bool" where
  "hashid_full hi = (hi_count hi = length (hi_id hi))"

section \<open>The table is a finite injection\<close>

fun node_chain :: "hashid_node list \<Rightarrow> nat option \<Rightarrow> nat list \<Rightarrow> bool" where
  "node_chain nodes c [] = (c = None)"
| "node_chain nodes c (i # is) = (c = Some i \<and> i < length nodes \<and> node_chain nodes (nd_next (nodes ! i)) is)"

text \<open>
  \<open>ch h\<close> are the nodes of bucket \<open>h\<close>. Every node is in one chain, that of its id, or free; a free node
  has the id -1 and no successor; no two nodes have the same id.
\<close>

definition hashid_ok :: "(nat \<Rightarrow> nat list) \<Rightarrow> hashid \<Rightarrow> bool" where
  "hashid_ok ch hi =
     ((\<exists>k. length (hi_hash hi) = 2 ^ k) \<and>
      (\<forall>h < length (hi_hash hi). node_chain (hi_id hi) (hi_hash hi ! h) (ch h) \<and> distinct (ch h)) \<and>
      (\<forall>h < length (hi_hash hi). \<forall>i \<in> set (ch h). 0 \<le> nd_id (hi_id hi ! i) \<and> bucket hi (nd_id (hi_id hi ! i)) = h) \<and>
      (\<forall>i < length (hi_id hi). nd_id (hi_id hi ! i) \<noteq> - 1 \<longrightarrow> i \<in> set (ch (bucket hi (nd_id (hi_id hi ! i))))) \<and>
      (\<forall>i < length (hi_id hi). nd_id (hi_id hi ! i) = - 1 \<longrightarrow> nd_next (hi_id hi ! i) = None) \<and>
      (\<forall>i < length (hi_id hi). \<forall>j < length (hi_id hi).
         nd_id (hi_id hi ! i) = nd_id (hi_id hi ! j) \<longrightarrow> nd_id (hi_id hi ! i) \<noteq> - 1 \<longrightarrow> i = j) \<and>
      hi_count hi = card {i. i < length (hi_id hi) \<and> nd_id (hi_id hi ! i) \<noteq> - 1})"

lemma bucket_less:
  assumes "length (hi_hash hi) = 2 ^ k"
  shows "bucket hi key < length (hi_hash hi)"
proof -
  have "key AND (int (length (hi_hash hi)) - 1) = take_bit k key"
    using assms by (simp add: take_bit_eq_mask mask_eq_exp_minus_1)
  then show ?thesis
    using assms take_bit_int_less_exp [of k key] by (simp add: bucket_def nat_less_iff)
qed

lemma node_chain_less: "node_chain nodes c is \<Longrightarrow> i \<in> set is \<Longrightarrow> i < length nodes"
  by (induction nodes c "is" rule: node_chain.induct) auto

lemma walk_chain:
  assumes "node_chain nodes c is"
  shows "walk nodes key c = Some (Inr (case find (\<lambda>i. nd_id (nodes ! i) = key) is of None \<Rightarrow> - 1 | Some i \<Rightarrow> int i))"
  using assms by (induction nodes c "is" rule: node_chain.induct) (auto simp: walk.simps)

text \<open>What the table maps an id to.\<close>

definition slot_map :: "hashid \<Rightarrow> int \<Rightarrow> nat option" where
  "slot_map hi key = find (\<lambda>i. nd_id (hi_id hi ! i) = key) [0..<length (hi_id hi)]"

lemma slot_map_Some:
  assumes "hashid_ok ch hi" "key \<noteq> - 1"
  shows "slot_map hi key = Some i \<longleftrightarrow> i < length (hi_id hi) \<and> nd_id (hi_id hi ! i) = key"
proof
  assume "slot_map hi key = Some i"
  then show "i < length (hi_id hi) \<and> nd_id (hi_id hi ! i) = key"
    by (auto simp: slot_map_def find_Some_iff)
next
  assume i: "i < length (hi_id hi) \<and> nd_id (hi_id hi ! i) = key"
  then have "slot_map hi key \<noteq> None" by (auto simp: slot_map_def find_None_iff)
  then obtain j where j: "slot_map hi key = Some j" by auto
  then have "j < length (hi_id hi)" "nd_id (hi_id hi ! j) = key" by (auto simp: slot_map_def find_Some_iff)
  then have "j = i" using i assms unfolding hashid_ok_def by metis
  then show "slot_map hi key = Some i" using j by simp
qed

lemma lookup_spec:
  assumes "hashid_ok ch hi" "0 \<le> key"
  shows "hashid_lookup hi key = Some (Inr (case slot_map hi key of None \<Rightarrow> - 1 | Some i \<Rightarrow> int i))"
proof -
  let ?h = "bucket hi key"
  obtain k where k: "length (hi_hash hi) = 2 ^ k" using assms(1) by (auto simp: hashid_ok_def)
  have h: "?h < length (hi_hash hi)" using bucket_less [OF k] .
  then have c: "node_chain (hi_id hi) (hi_hash hi ! ?h) (ch ?h)" using assms(1) by (simp add: hashid_ok_def)
  have key: "key \<noteq> - 1" using assms(2) by simp
  have "find (\<lambda>i. nd_id (hi_id hi ! i) = key) (ch ?h) = slot_map hi key"
  proof (cases "slot_map hi key")
    case None
    then have "\<not> (i < length (hi_id hi) \<and> nd_id (hi_id hi ! i) = key)" for i
      using slot_map_Some [OF assms(1) key] by simp
    then have "\<forall>i \<in> set (ch ?h). nd_id (hi_id hi ! i) \<noteq> key" using node_chain_less [OF c] by blast
    then show ?thesis using None by (simp add: find_None_iff)
  next
    case (Some i)
    then have i: "i < length (hi_id hi)" "nd_id (hi_id hi ! i) = key" using slot_map_Some [OF assms(1) key] by simp_all
    then have "i \<in> set (ch ?h)" using assms(1) key unfolding hashid_ok_def by metis
    then obtain j where j: "find (\<lambda>i. nd_id (hi_id hi ! i) = key) (ch ?h) = Some j"
      using i(2) by (cases "find (\<lambda>i. nd_id (hi_id hi ! i) = key) (ch ?h)") (auto simp: find_None_iff)
    then have "j \<in> set (ch ?h)" "nd_id (hi_id hi ! j) = key" by (auto simp: find_Some_iff)
    then have "slot_map hi key = Some j" using slot_map_Some [OF assms(1) key] node_chain_less [OF c] by simp
    then show ?thesis using j by simp
  qed
  then show ?thesis by (simp add: hashid_lookup_def walk_chain [OF c])
qed

lemma hash_cap_power: "0 < c \<Longrightarrow> \<exists>k. hash_cap c mx = c * 2 ^ k"
proof (induction c mx rule: hash_cap.induct)
  case (1 c mx)
  show ?case
  proof (cases "c < mx")
    case True
    then obtain k where "hash_cap (c * 2) mx = c * 2 * 2 ^ k" using 1 by auto
    then have "hash_cap c mx = c * 2 ^ Suc k" using True 1 by (simp add: hash_cap.simps [of c mx])
    then show ?thesis by blast
  next
    case False
    then have "hash_cap c mx = c * 2 ^ 0" by (simp add: hash_cap.simps [of c mx])
    then show ?thesis by blast
  qed
qed

lemma init_ok: "hashid_ok (\<lambda>_. []) (hashid_init mx)"
proof -
  obtain k where "hash_cap 16 mx = 16 * 2 ^ k" using hash_cap_power [of 16 mx] by auto
  then have "hash_cap 16 mx = 2 ^ (k + 4)" by (simp add: power_add)
  then have "\<exists>k. hash_cap 16 mx = 2 ^ k" by blast
  then show ?thesis by (auto simp: hashid_ok_def hashid_init_def)
qed

lemma smod_nonneg: "0 \<le> a \<Longrightarrow> 0 < b \<Longrightarrow> a smod b = a mod (b :: int)"
  by (auto simp: signed_modulo_int_def sgn_if)

lemma sint_sum:
  assumes "0 \<le> key" "int i + key < 2 ^ 31"
  shows "sint (of_nat i + of_int key :: u32) = int i + key"
proof -
  have w: "(of_nat i + of_int key :: u32) = of_int (int i + key)" by simp
  have "signed_take_bit 31 (int i + key) = int i + key" using assms by (intro signed_take_bit_int_eq_self) simp_all
  then show ?thesis unfolding w signed_of_int by simp
qed

lemma find_free_spec:
  assumes "0 \<le> key" "key + int (length nodes) \<le> 2 ^ 31" "j < length nodes" "nd_id (nodes ! j) = - 1"
  shows "\<exists>c. find_free nodes key 0 (length nodes) = Inr (Some c) \<and> c < length nodes \<and> nd_id (nodes ! c) = - 1"
proof -
  let ?n = "length nodes"
  have step: "(\<exists>c. find_free nodes key i n = Inr (Some c) \<and> c < ?n \<and> nd_id (nodes ! c) = - 1) \<or>
      find_free nodes key i n = Inr None \<and> (\<forall>x. i \<le> x \<longrightarrow> x < i + n \<longrightarrow> nd_id (nodes ! nat ((int x + key) mod int ?n)) \<noteq> - 1)"
    if "i + n \<le> ?n" for i n
    using that
  proof (induction n arbitrary: i)
    case 0
    then show ?case by simp
  next
    case (Suc n)
    have "sint (of_nat i + of_int key :: u32) = int i + key"
      by (rule sint_sum) (use assms(1,2) Suc.prems in linarith)+
    moreover have "(int i + key) smod int ?n = (int i + key) mod int ?n"
      by (intro smod_nonneg) (use assms(1,3) in auto)
    ultimately have m: "sint (of_nat i + of_int key :: u32) smod int ?n = (int i + key) mod int ?n" by simp
    have pos: "(int i + key) mod int ?n < int ?n" "0 \<le> (int i + key) mod int ?n"
      using assms(3) by (auto intro!: pos_mod_bound pos_mod_sign)
    then have lt: "nat ((int i + key) mod int ?n) < ?n" by linarith
    show ?case
    proof (cases "nd_id (nodes ! nat ((int i + key) mod int ?n)) = - 1")
      case True
      then show ?thesis using m lt pos(2) by (simp add: Let_def)
    next
      case False
      have "find_free nodes key i (Suc n) = find_free nodes key (i + 1) n"
        using False m pos(2) by (simp add: Let_def)
      then show ?thesis using Suc.IH [of "i + 1"] Suc.prems False
        by (auto simp: le_less_Suc_eq) (metis Suc_leI le_neq_implies_less)
    qed
  qed
  define x where "x = nat ((int j - key) mod int ?n)"
  have "(int j - key) mod int ?n < int ?n" "0 \<le> (int j - key) mod int ?n"
    using assms(3) by (auto intro!: pos_mod_bound pos_mod_sign)
  then have x: "x < ?n" "int x = (int j - key) mod int ?n" unfolding x_def by linarith+
  have "(int x + key) mod int ?n = int j mod int ?n" by (simp add: x(2) mod_simps)
  then have "nat ((int x + key) mod int ?n) = j" using assms(3) by simp
  then show ?thesis using step [of 0 ?n] x(1) assms(4) by force
qed

lemma node_chain_update:
  "c \<notin> set is \<Longrightarrow> node_chain (nodes[c := v]) s is = node_chain nodes s is"
  by (induction nodes s "is" rule: node_chain.induct) auto

text \<open>The parts of the invariant by name.\<close>

lemma hashid_okD:
  assumes "hashid_ok ch hi"
  shows "\<exists>k. length (hi_hash hi) = 2 ^ k"
    and "h < length (hi_hash hi) \<Longrightarrow> node_chain (hi_id hi) (hi_hash hi ! h) (ch h)"
    and "h < length (hi_hash hi) \<Longrightarrow> distinct (ch h)"
    and "h < length (hi_hash hi) \<Longrightarrow> i \<in> set (ch h) \<Longrightarrow> 0 \<le> nd_id (hi_id hi ! i) \<and> bucket hi (nd_id (hi_id hi ! i)) = h"
    and "i < length (hi_id hi) \<Longrightarrow> nd_id (hi_id hi ! i) \<noteq> - 1 \<Longrightarrow> i \<in> set (ch (bucket hi (nd_id (hi_id hi ! i))))"
    and "i < length (hi_id hi) \<Longrightarrow> nd_id (hi_id hi ! i) = - 1 \<Longrightarrow> nd_next (hi_id hi ! i) = None"
    and "i < length (hi_id hi) \<Longrightarrow> j < length (hi_id hi) \<Longrightarrow> nd_id (hi_id hi ! i) = nd_id (hi_id hi ! j) \<Longrightarrow>
      nd_id (hi_id hi ! i) \<noteq> - 1 \<Longrightarrow> i = j"
    and "hi_count hi = card {i. i < length (hi_id hi) \<and> nd_id (hi_id hi ! i) \<noteq> - 1}"
  using assms unfolding hashid_ok_def by blast+

lemma bucket_same: "length (hi_hash hi) = length (hi_hash hi') \<Longrightarrow> bucket hi key = bucket hi' key"
  by (simp add: bucket_def)

lemma insert_spec:
  assumes "hashid_ok ch hi" "0 \<le> key" "slot_map hi key = None" "\<not> hashid_full hi"
    and fits: "key + int (length (hi_id hi)) \<le> 2 ^ 31"
  shows "\<exists>c hi' ch'. hashid_insert hi key = Inr (int c, hi') \<and> c < length (hi_id hi) \<and> hashid_ok ch' hi' \<and>
    length (hi_id hi') = length (hi_id hi) \<and> hi_count hi' = hi_count hi + 1 \<and>
    (\<forall>k. 0 \<le> k \<longrightarrow> slot_map hi' k = (if k = key then Some c else slot_map hi k)) \<and>
    (\<forall>k. 0 \<le> k \<longrightarrow> slot_map hi k \<noteq> Some c)"
proof -
  note ok = hashid_okD [OF assms(1)]
  let ?n = "length (hi_id hi)" and ?id = "\<lambda>i. nd_id (hi_id hi ! i)"
  have "\<exists>j < ?n. ?id j = - 1"
  proof (rule ccontr)
    assume "\<not> (\<exists>j < ?n. ?id j = - 1)"
    then have "{i. i < ?n \<and> ?id i \<noteq> - 1} = {..<?n}" by auto
    then show False using assms(4) ok(8) by (simp add: hashid_full_def)
  qed
  then obtain j where j: "j < ?n" "?id j = - 1" by auto
  obtain c where c: "find_free (hi_id hi) key 0 ?n = Inr (Some c)" "c < ?n" "?id c = - 1"
    using find_free_spec [OF assms(2) fits j] by blast
  let ?h = "bucket hi key"
  let ?node = "\<lparr>nd_id = key, nd_next = hi_hash hi ! ?h\<rparr>"
  let ?hi = "hi\<lparr>hi_count := hi_count hi + 1, hi_id := (hi_id hi)[c := ?node], hi_hash := (hi_hash hi)[?h := Some c]\<rparr>"
  let ?ch = "ch(?h := c # ch ?h)"
  have next_None: "nd_next (hi_id hi ! c) = None" using ok(6) c by blast
  have ins: "hashid_insert hi key = Inr (int c, ?hi)"
    using c(1) next_None by (simp add: hashid_insert_def Let_def)
  obtain k where k: "length (hi_hash hi) = 2 ^ k" using ok(1) by blast
  have h: "?h < length (hi_hash hi)" using bucket_less [OF k] .
  have b: "bucket ?hi x = bucket hi x" for x by (rule bucket_same) simp
  have out: "c \<notin> set (ch h')" if "h' < length (hi_hash hi)" for h'
    using ok(4) [OF that, of c] c(3) by auto
  have key: "key \<noteq> - 1" using assms(2) by simp
  have fresh: "?id i \<noteq> key" if "i < ?n" for i
    using slot_map_Some [OF assms(1) key, of i] assms(3) that by auto
  have id': "nd_id (hi_id ?hi ! i) = (if i = c then key else ?id i)" if "i < ?n" for i
    using that by simp
  have "hashid_ok ?ch ?hi"
    unfolding hashid_ok_def
  proof (intro conjI allI ballI impI)
    show "\<exists>k. length (hi_hash ?hi) = 2 ^ k" using k by auto
  next
    fix h' assume h': "h' < length (hi_hash ?hi)"
    show "node_chain (hi_id ?hi) (hi_hash ?hi ! h') (?ch h')"
      using h' h c(2) ok(2) [of h'] out by (auto simp: node_chain_update nth_list_update)
    show "distinct (?ch h')" using h' ok(3) [of h'] out by auto
  next
    fix h' i assume h': "h' < length (hi_hash ?hi)" and i: "i \<in> set (?ch h')"
    have len: "i < ?n"
      using i c(2) node_chain_less [OF ok(2), of h' i] h' by (auto split: if_splits)
    have "0 \<le> nd_id (hi_id ?hi ! i) \<and> bucket hi (nd_id (hi_id ?hi ! i)) = h'"
      unfolding id' [OF len] using i h' ok(4) [of h' i] assms(2) out [of h'] by (auto split: if_splits)
    then show "0 \<le> nd_id (hi_id ?hi ! i)" "bucket ?hi (nd_id (hi_id ?hi ! i)) = h'" unfolding b by simp_all
  next
    fix i assume i: "i < length (hi_id ?hi)" "nd_id (hi_id ?hi ! i) \<noteq> - 1"
    then have len: "i < ?n" by simp
    show "i \<in> set (?ch (bucket ?hi (nd_id (hi_id ?hi ! i))))"
      unfolding b id' [OF len] using i(2) ok(5) [OF len] unfolding id' [OF len] by auto
  next
    fix i assume i: "i < length (hi_id ?hi)" "nd_id (hi_id ?hi ! i) = - 1"
    then have len: "i < ?n" by simp
    have "i \<noteq> c" using i(2) key unfolding id' [OF len] by auto
    then show "nd_next (hi_id ?hi ! i) = None" using i(2) ok(6) [OF len] unfolding id' [OF len] by simp
  next
    fix i j assume ij: "i < length (hi_id ?hi)" "j < length (hi_id ?hi)"
      "nd_id (hi_id ?hi ! i) = nd_id (hi_id ?hi ! j)" "nd_id (hi_id ?hi ! i) \<noteq> - 1"
    then have len: "i < ?n" "j < ?n" by simp_all
    show "i = j"
      using ij(3,4) ok(7) [OF len] fresh [OF len(1)] fresh [OF len(2)]
      unfolding id' [OF len(1)] id' [OF len(2)] by (auto split: if_splits)
  next
    have "{i. i < length (hi_id ?hi) \<and> nd_id (hi_id ?hi ! i) \<noteq> - 1} = insert c {i. i < ?n \<and> ?id i \<noteq> - 1}"
      using id' c(2) key by (auto split: if_splits)
    then show "hi_count ?hi = card {i. i < length (hi_id ?hi) \<and> nd_id (hi_id ?hi ! i) \<noteq> - 1}"
      using ok(8) c(3) by simp
  qed
  note ok' = this
  have "slot_map ?hi x = (if x = key then Some c else slot_map hi x)" if "0 \<le> x" for x
  proof -
    have x: "x \<noteq> - 1" using that by simp
    have "slot_map ?hi x = Some i \<longleftrightarrow> (if x = key then Some c else slot_map hi x) = Some i" for i
      using slot_map_Some [OF ok' x, of i] slot_map_Some [OF assms(1) x, of i] id' [of i] fresh [of i] c x
      by (auto split: if_splits)
    then show ?thesis by (metis option.exhaust)
  qed
  moreover have "slot_map hi x \<noteq> Some c" if "0 \<le> x" for x
    using slot_map_Some [OF assms(1), of x c] c(3) that by auto
  ultimately show ?thesis using ins c(2) ok' by (intro exI [of _ c] exI [of _ ?hi] exI [of _ ?ch]) simp
qed

lemma walk_next_chain:
  assumes "node_chain nodes (nd_next (nodes ! i)) is"
  shows "case find (\<lambda>i. nd_id (nodes ! i) = key) is of
      None \<Rightarrow> walk_next nodes key i = Some (Inr None)
    | Some j \<Rightarrow> \<exists>xs ys. is = xs @ j # ys \<and> walk_next nodes key i = Some (Inr (Some (last (i # xs))))"
  using assms
proof (induction "is" arbitrary: i)
  case Nil
  then show ?case by (simp add: walk_next.simps)
next
  case (Cons j js)
  then have n: "nd_next (nodes ! i) = Some j" "j < length nodes" "node_chain nodes (nd_next (nodes ! j)) js" by simp_all
  show ?case
  proof (cases "nd_id (nodes ! j) = key")
    case True
    then have "walk_next nodes key i = Some (Inr (Some (last (i # []))))"
      using n by (simp add: walk_next.simps [of nodes key i])
    then have "\<exists>xs ys. j # js = xs @ j # ys \<and> walk_next nodes key i = Some (Inr (Some (last (i # xs))))" by fastforce
    then show ?thesis using True by simp
  next
    case False
    then have w: "walk_next nodes key i = walk_next nodes key j" using n by (simp add: walk_next.simps [of nodes key i])
    show ?thesis
    proof (cases "find (\<lambda>i. nd_id (nodes ! i) = key) js")
      case None
      then show ?thesis using Cons.IH [OF n(3)] w False by simp
    next
      case (Some k)
      then obtain xs ys where "js = xs @ k # ys" "walk_next nodes key j = Some (Inr (Some (last (j # xs))))"
        using Cons.IH [OF n(3)] by auto
      then have "j # js = (j # xs) @ k # ys \<and> walk_next nodes key i = Some (Inr (Some (last (i # j # xs))))"
        using w by simp
      then have "\<exists>xs ys. j # js = xs @ k # ys \<and> walk_next nodes key i = Some (Inr (Some (last (i # xs))))" by blast
      then show ?thesis using Some False by simp
    qed
  qed
qed

lemma node_chain_split:
  "node_chain nodes s (xs @ p # j # ys) \<Longrightarrow> nd_next (nodes ! p) = Some j \<and> p < length nodes \<and> j < length nodes"
  by (induction xs arbitrary: s) auto

lemma node_chain_unlink:
  assumes "node_chain nodes s (xs @ p # j # ys)" "distinct (xs @ p # j # ys)"
  shows "node_chain (nodes[p := (nodes ! p)\<lparr>nd_next := nd_next (nodes ! j)\<rparr>]) s (xs @ p # ys)"
  using assms
proof (induction xs arbitrary: s)
  case Nil
  then show ?case by (simp add: node_chain_update)
next
  case (Cons x xs)
  then show ?case by auto
qed

text \<open>
  The common end of both cases of a removal: the node \<open>j\<close> has been taken out of the chain of its id.
\<close>

lemma clear_node_ok:
  assumes "hashid_ok ch hi" "j < length (hi_id hi)" "nd_id (hi_id hi ! j) \<noteq> - 1"
    and h: "h = bucket hi (nd_id (hi_id hi ! j))"
    and mid: "hi_count mid = hi_count hi" "length (hi_id mid) = length (hi_id hi)" "length (hi_hash mid) = length (hi_hash hi)"
      "\<And>i. i < length (hi_id hi) \<Longrightarrow> nd_id (hi_id mid ! i) = nd_id (hi_id hi ! i)"
      "\<And>i. i < length (hi_id hi) \<Longrightarrow> nd_id (hi_id hi ! i) = - 1 \<Longrightarrow> hi_id mid ! i = hi_id hi ! i"
      "\<And>h'. h' < length (hi_hash hi) \<Longrightarrow> node_chain (hi_id mid) (hi_hash mid ! h') (if h' = h then cs else ch h')"
    and cs: "set cs = set (ch h) - {j}" "distinct cs"
  shows "hashid_ok (ch(h := cs)) (snd (clear_node j mid)) \<and>
    (\<forall>k. 0 \<le> k \<longrightarrow> slot_map (snd (clear_node j mid)) k = (if k = nd_id (hi_id hi ! j) then None else slot_map hi k))"
proof -
  note ok = hashid_okD [OF assms(1)]
  let ?n = "length (hi_id hi)" and ?id = "\<lambda>i. nd_id (hi_id hi ! i)" and ?ch = "ch(h := cs)"
  let ?hi = "snd (clear_node j mid)"
  have hi': "hi_id ?hi = (hi_id mid)[j := \<lparr>nd_id = - 1, nd_next = None\<rparr>]" "hi_hash ?hi = hi_hash mid"
    "hi_count ?hi = hi_count hi - 1"
    by (simp_all add: clear_node_def mid(1))
  have id': "nd_id (hi_id ?hi ! i) = (if i = j then - 1 else ?id i)" if "i < ?n" for i
    using that mid(2,4) by (simp add: hi'(1))
  have b: "bucket ?hi x = bucket hi x" for x by (rule bucket_same) (simp add: hi'(2) mid(3))
  have len: "length (hi_id ?hi) = ?n" "length (hi_hash ?hi) = length (hi_hash hi)" by (simp_all add: hi' mid)
  have out: "j \<notin> set (?ch h')" if "h' < length (hi_hash hi)" for h'
    using ok(4) [OF that, of j] h cs(1) by auto
  have sub: "set (?ch h') \<subseteq> set (ch h')" for h' using cs(1) by auto
  have ok': "hashid_ok ?ch ?hi"
    unfolding hashid_ok_def len
  proof (intro conjI allI ballI impI)
    show "\<exists>k. length (hi_hash hi) = 2 ^ k" using ok(1) .
  next
    fix h' assume h': "h' < length (hi_hash hi)"
    show "node_chain (hi_id ?hi) (hi_hash ?hi ! h') (?ch h')"
      using mid(6) [OF h'] out [OF h'] by (simp add: hi' node_chain_update)
    show "distinct (?ch h')" using ok(3) [OF h'] cs(2) by simp
  next
    fix h' i assume h': "h' < length (hi_hash hi)" and i: "i \<in> set (?ch h')"
    then have i': "i \<in> set (ch h')" "i \<noteq> j" using sub out [OF h'] by auto
    have "i < ?n" using node_chain_less [OF ok(2) [OF h'] i'(1)] .
    then show "0 \<le> nd_id (hi_id ?hi ! i)" "bucket ?hi (nd_id (hi_id ?hi ! i)) = h'"
      unfolding b using ok(4) [OF h' i'(1)] id' i'(2) by simp_all
  next
    fix i assume i: "i < ?n" "nd_id (hi_id ?hi ! i) \<noteq> - 1"
    then have ij: "i \<noteq> j" "?id i \<noteq> - 1" unfolding id' [OF i(1)] by (auto split: if_splits)
    then have "i \<in> set (ch (bucket hi (?id i)))" using ok(5) i(1) by blast
    then show "i \<in> set (?ch (bucket ?hi (nd_id (hi_id ?hi ! i))))"
      unfolding b id' [OF i(1)] using ij cs(1) by auto
  next
    fix i assume i: "i < ?n" "nd_id (hi_id ?hi ! i) = - 1"
    show "nd_next (hi_id ?hi ! i) = None"
    proof (cases "i = j")
      case True
      then show ?thesis using assms(2) mid(2) by (simp add: hi'(1))
    next
      case False
      then have "?id i = - 1" using i(2) unfolding id' [OF i(1)] by simp
      then show ?thesis using ok(6) [OF i(1)] mid(5) [OF i(1)] False by (simp add: hi'(1))
    qed
  next
    fix i i' assume ii: "i < ?n" "i' < ?n" "nd_id (hi_id ?hi ! i) = nd_id (hi_id ?hi ! i')" "nd_id (hi_id ?hi ! i) \<noteq> - 1"
    then show "i = i'"
      using ok(7) [OF ii(1,2)] unfolding id' [OF ii(1)] id' [OF ii(2)] by (auto split: if_splits)
  next
    let ?A = "{i. i < ?n \<and> ?id i \<noteq> - 1}"
    have "{i. i < ?n \<and> nd_id (hi_id ?hi ! i) \<noteq> - 1} = ?A - {j}" using id' by (auto split: if_splits)
    moreover have "card (?A - {j}) = card ?A - 1" using assms(2,3) by simp
    ultimately show "hi_count ?hi = card {i. i < ?n \<and> nd_id (hi_id ?hi ! i) \<noteq> - 1}"
      using ok(8) by (simp add: hi'(3))
  qed
  have "slot_map ?hi x = (if x = ?id j then None else slot_map hi x)" if "0 \<le> x" for x
  proof -
    have x: "x \<noteq> - 1" using that by simp
    have "slot_map ?hi x = Some i \<longleftrightarrow> (if x = ?id j then None else slot_map hi x) = Some i" for i
      using slot_map_Some [OF ok' x, of i] slot_map_Some [OF assms(1) x, of i] id' [of i] len x ok(7) [of i j] assms(2,3)
      by (auto split: if_splits)
    then show ?thesis by (metis option.exhaust)
  qed
  then show ?thesis using ok' by blast
qed

lemma remove_spec:
  assumes "hashid_ok ch hi" "0 \<le> key"
  shows "case slot_map hi key of
      None \<Rightarrow> hashid_remove hi key = Some (Inr (- 1, hi))
    | Some j \<Rightarrow> \<exists>hi' ch'. hashid_remove hi key = Some (Inr (int j, hi')) \<and> hashid_ok ch' hi' \<and>
        length (hi_id hi') = length (hi_id hi) \<and>
        (\<forall>k. 0 \<le> k \<longrightarrow> slot_map hi' k = (if k = key then None else slot_map hi k))"
proof -
  note ok = hashid_okD [OF assms(1)]
  let ?h = "bucket hi key" and ?nodes = "hi_id hi"
  obtain k where k: "length (hi_hash hi) = 2 ^ k" using ok(1) by blast
  have h: "?h < length (hi_hash hi)" using bucket_less [OF k] .
  note chain = ok(2) [OF h] and dist = ok(3) [OF h]
  have key: "key \<noteq> - 1" using assms(2) by simp
  have member: "slot_map hi key = Some j" if "j \<in> set (ch ?h)" "nd_id (?nodes ! j) = key" for j
    using slot_map_Some [OF assms(1) key] node_chain_less [OF chain that(1)] that(2) by simp
  have in_chain: "j \<in> set (ch ?h)" "nd_id (?nodes ! j) = key" "j < length ?nodes" if "slot_map hi key = Some j" for j
    using slot_map_Some [OF assms(1) key, of j] that ok(5) [of j] key by auto
  show ?thesis
  proof (cases "ch ?h")
    case Nil
    then have "hi_hash hi ! ?h = None" "slot_map hi key = None"
      using chain in_chain by (auto, cases "slot_map hi key", auto)
    then show ?thesis by (simp add: hashid_remove_def)
  next
    case (Cons c cs)
    then have c: "hi_hash hi ! ?h = Some c" "c < length ?nodes" "node_chain ?nodes (nd_next (?nodes ! c)) cs"
      "c \<notin> set cs" "distinct cs"
      using chain dist by simp_all
    show ?thesis
    proof (cases "nd_id (?nodes ! c) = key")
      case True
      let ?mid = "hi\<lparr>hi_hash := (hi_hash hi)[?h := nd_next (?nodes ! c)]\<rparr>"
      have "hashid_ok (ch(?h := cs)) (snd (clear_node c ?mid)) \<and>
          (\<forall>k. 0 \<le> k \<longrightarrow> slot_map (snd (clear_node c ?mid)) k = (if k = nd_id (?nodes ! c) then None else slot_map hi k))"
      proof (rule clear_node_ok [OF assms(1) c(2)])
        fix h' assume "h' < length (hi_hash hi)"
        then show "node_chain (hi_id ?mid) (hi_hash ?mid ! h') (if h' = ?h then cs else ch h')"
          using c(3) ok(2) h by (auto simp: nth_list_update)
      qed (use True key Cons c in auto)
      moreover have "hashid_remove hi key = Some (Inr (int c, snd (clear_node c ?mid)))"
        using c True by (simp add: hashid_remove_def clear_node_def Let_def)
      moreover have "slot_map hi key = Some c" using member True Cons by simp
      ultimately show ?thesis using True by (auto simp: clear_node_def)
    next
      case False
      note w = walk_next_chain [OF c(3), of key]
      show ?thesis
      proof (cases "find (\<lambda>i. nd_id (?nodes ! i) = key) cs")
        case None
        then have "slot_map hi key = None"
          using in_chain Cons False by (cases "slot_map hi key") (auto simp: find_None_iff)
        moreover have "walk_next ?nodes key c = Some (Inr None)" using w None by simp
        ultimately show ?thesis using c False by (simp add: hashid_remove_def Let_def)
      next
        case (Some j)
        then obtain xs ys where xy: "cs = xs @ j # ys" "walk_next ?nodes key c = Some (Inr (Some (last (c # xs))))"
          using w by auto
        have j: "nd_id (?nodes ! j) = key" using Some by (auto simp: find_Some_iff)
        let ?p = "last (c # xs)"
        obtain zs where zs: "c # xs = zs @ [?p]" by (metis append_butlast_last_id list.distinct(1))
        then have split: "ch ?h = zs @ ?p # j # ys" using Cons xy(1) by (metis append.assoc append_Cons append_Nil)
        let ?mid = "hi\<lparr>hi_id := ?nodes[?p := (?nodes ! ?p)\<lparr>nd_next := nd_next (?nodes ! j)\<rparr>]\<rparr>"
        have pj: "nd_next (?nodes ! ?p) = Some j" "?p < length ?nodes" "j < length ?nodes"
          using node_chain_split chain unfolding split by blast+
        have p_id: "nd_id (?nodes ! ?p) \<noteq> - 1" "bucket hi (nd_id (?nodes ! ?p)) = ?h" "?p \<in> set (ch ?h)"
          using ok(4) [OF h, of ?p] split by auto
        have "hashid_ok (ch(?h := zs @ ?p # ys)) (snd (clear_node j ?mid)) \<and>
            (\<forall>k. 0 \<le> k \<longrightarrow> slot_map (snd (clear_node j ?mid)) k = (if k = nd_id (?nodes ! j) then None else slot_map hi k))"
        proof (rule clear_node_ok [OF assms(1) pj(3)])
          fix h' assume h': "h' < length (hi_hash hi)"
          show "node_chain (hi_id ?mid) (hi_hash ?mid ! h') (if h' = ?h then zs @ ?p # ys else ch h')"
          proof (cases "h' = ?h")
            case True
            then show ?thesis using node_chain_unlink chain dist unfolding split by simp
          next
            case False
            then have "?p \<notin> set (ch h')" using ok(4) [OF h', of ?p] p_id(2) by auto
            then show ?thesis using False ok(2) [OF h'] by (simp add: node_chain_update)
          qed
        next
          show "set (zs @ ?p # ys) = set (ch ?h) - {j}" "distinct (zs @ ?p # ys)"
            using dist unfolding split by auto
        qed (use j key pj p_id in \<open>auto simp: nth_list_update\<close>)
        moreover have "hashid_remove hi key = Some (Inr (int j, snd (clear_node j ?mid)))"
          using c False xy(2) pj(1) by (simp add: hashid_remove_def clear_node_def Let_def)
        moreover have "slot_map hi key = Some j" using member j split by simp
        ultimately show ?thesis using j by (auto simp: clear_node_def)
      qed
    qed
  qed
qed

end
