(* ===== verification/Cstring.thy ===== *)
theory Cstring
  imports Prelude
begin

text \<open>
  The functions of the C library on strings that the sources use: the conversions of \<open>printf\<close>,
  \<open>strtol\<close> and \<open>strtoul\<close>, \<open>strsep\<close>, and the word conversion of \<open>scanf\<close>. A C string is the list of its bytes
  without the final 0. The lemmas at the end show that a printed handle is read back.
\<close>

section \<open>Printing\<close>

fun dec_nat :: "nat \<Rightarrow> bytes" where
  "dec_nat n = (if n < 10 then [of_nat (48 + n)] else dec_nat (n div 10) @ [of_nat (48 + n mod 10)])"

declare dec_nat.simps [simp del]

text \<open>The conversion \<open>%d\<close>.\<close>

definition dec :: "int \<Rightarrow> bytes" where
  "dec i = (if i < 0 then 45 # dec_nat (nat (- i)) else dec_nat (nat i))"

text \<open>The conversions \<open>%x\<close>, \<open>%08x\<close> and, of an unsigned number, \<open>%u\<close>.\<close>

definition hex_digit :: "nat \<Rightarrow> byte" where
  "hex_digit d = of_nat (if d < 10 then 48 + d else 87 + d)"

fun hex_nat :: "nat \<Rightarrow> bytes" where
  "hex_nat n = (if n < 16 then [hex_digit n] else hex_nat (n div 16) @ [hex_digit (n mod 16)])"

declare hex_nat.simps [simp del]

definition hex_x :: "u32 \<Rightarrow> bytes" where
  "hex_x h = hex_nat (unat h)"

definition hex_08x :: "u32 \<Rightarrow> bytes" where
  "hex_08x h = replicate (8 - length (hex_x h)) 48 @ hex_x h"

definition dec_u :: "u32 \<Rightarrow> bytes" where
  "dec_u h = dec_nat (unat h)"

section \<open>Reading\<close>

definition is_space :: "byte \<Rightarrow> bool" where
  "is_space c = (c = 32 \<or> 9 \<le> c \<and> c \<le> 13)"

text \<open>The C string in a buffer ends at its first 0.\<close>

definition cstr :: "bytes \<Rightarrow> bytes" where
  "cstr s = takeWhile (\<lambda>c. c \<noteq> 0) s"

text \<open>The value of a digit, 99 for any other character.\<close>

definition digit_of :: "byte \<Rightarrow> nat" where
  "digit_of c =
     (if 48 \<le> c \<and> c \<le> 57 then unat c - 48
      else if 97 \<le> c \<and> c \<le> 102 then unat c - 87
      else if 65 \<le> c \<and> c \<le> 70 then unat c - 55 else 99)"

fun digits_value :: "nat \<Rightarrow> nat \<Rightarrow> bytes \<Rightarrow> nat" where
  "digits_value base acc [] = acc"
| "digits_value base acc (c # cs) =
     (if digit_of c < base then digits_value base (acc * base + digit_of c) cs else acc)"

text \<open>\<open>strtol\<close> in base 10, stored into an \<open>int\<close>, and \<open>strtoul\<close> in base 16, stored into a \<open>uint32_t\<close>.\<close>

definition sign_split :: "bytes \<Rightarrow> bool \<times> bytes" where
  "sign_split s =
     (case dropWhile is_space s of
        [] \<Rightarrow> (False, [])
      | c # cs \<Rightarrow> (if c = 45 then (True, cs) else if c = 43 then (False, cs) else (False, c # cs)))"

definition strtol10 :: "bytes \<Rightarrow> int" where
  "strtol10 s =
     (let (neg, ds) = sign_split s; v = int (digits_value 10 0 ds);
          r = (if neg then max (- (2 ^ 63)) (- v) else min (2 ^ 63 - 1) v)
      in sint (word_of_int r :: u32))"

definition strtoul16 :: "bytes \<Rightarrow> u32" where
  "strtoul16 s =
     (let (neg, ds) = sign_split s;
          ds = (case ds of a # b # c # r \<Rightarrow>
                  if a = 48 \<and> (b = 120 \<or> b = 88) \<and> digits_value 16 1 [c] \<noteq> 1 then c # r else ds
                | _ \<Rightarrow> ds);
          v = digits_value 16 0 ds
      in if 2 ^ 64 \<le> v then - 1 else if neg then - of_nat v else of_nat v)"

text \<open>\<open>strtol\<close> with base 0, which takes the base from the prefix, stored into an \<open>int\<close>.\<close>

definition strtol0 :: "bytes \<Rightarrow> int" where
  "strtol0 s =
     (let (neg, ds) = sign_split s;
          v = int (case ds of
                [] \<Rightarrow> 0
              | a # r \<Rightarrow>
                  if a \<noteq> 48 then digits_value 10 0 ds
                  else (case r of b # c # r' \<Rightarrow>
                          if (b = 120 \<or> b = 88) \<and> digit_of c < 16 then digits_value 16 0 (c # r') else digits_value 8 0 ds
                        | _ \<Rightarrow> digits_value 8 0 ds));
          r = (if neg then max (- (2 ^ 63)) (- v) else min (2 ^ 63 - 1) v)
      in sint (word_of_int r :: u32))"

text \<open>
  \<open>strsep\<close>: the bytes up to the first separator, and what is behind it if there was a separator (the
  pointer becomes NULL otherwise).
\<close>

definition strsep :: "bytes \<Rightarrow> bytes \<Rightarrow> bytes \<times> bytes option" where
  "strsep delims s =
     (let w = takeWhile (\<lambda>c. c \<notin> set delims) s
      in (w, if length w < length s then Some (drop (length w + 1) s) else None))"

text \<open>The conversion \<open>%s\<close> of \<open>sscanf\<close>: a word behind white space, nothing at the end of the input.\<close>

definition scan_word :: "bytes \<Rightarrow> (bytes \<times> bytes) option" where
  "scan_word s =
     (let r = dropWhile is_space s
      in if r = [] then None else Some (takeWhile (\<lambda>c. \<not> is_space c) r, dropWhile (\<lambda>c. \<not> is_space c) r))"

text \<open>The conversions \<open>%d\<close> and \<open>%u\<close>: nothing without a digit.\<close>

definition scan_digits :: "bytes \<Rightarrow> bytes" where
  "scan_digits s = takeWhile (\<lambda>c. digit_of c < 10) (snd (sign_split s))"

definition scan_int :: "bytes \<Rightarrow> (int \<times> bytes) option" where
  "scan_int s =
     (if scan_digits s = [] then None else Some (strtol10 s, drop (length (scan_digits s)) (snd (sign_split s))))"

definition scan_uint :: "bytes \<Rightarrow> (u32 \<times> bytes) option" where
  "scan_uint s =
     (if scan_digits s = [] then None
      else (let v = digits_value 10 0 (scan_digits s)
            in Some (if 2 ^ 64 \<le> v then - 1 else if fst (sign_split s) then - of_nat v else of_nat v,
                     drop (length (scan_digits s)) (snd (sign_split s)))))"

section \<open>A printed number is read back\<close>

definition is_digits :: "nat \<Rightarrow> bytes \<Rightarrow> bool" where
  "is_digits base cs = (\<forall>c \<in> set cs. digit_of c < base)"

lemma digits_value_snoc:
  "is_digits base cs \<Longrightarrow> digit_of c < base \<Longrightarrow>
     digits_value base acc (cs @ [c]) = digits_value base acc cs * base + digit_of c"
  by (induction base acc cs rule: digits_value.induct) (auto simp: is_digits_def)

lemma digit_of_nat: "d < 16 \<Longrightarrow> digit_of (hex_digit d) = d"
proof -
  have "\<forall>d \<in> set [0..<16]. digit_of (hex_digit d) = d" by code_simp
  then show "d < 16 \<Longrightarrow> digit_of (hex_digit d) = d" by simp
qed

lemma hex_nat_value: "is_digits 16 (hex_nat n) \<and> digits_value 16 0 (hex_nat n) = n \<and> hex_nat n \<noteq> []"
proof (induction n rule: hex_nat.induct)
  case (1 n)
  show ?case
  proof (cases "n < 16")
    case True
    then show ?thesis by (simp add: hex_nat.simps [of n] is_digits_def digit_of_nat)
  next
    case False
    have "n div 16 * 16 + n mod 16 = n" by simp
    then show ?thesis
      using 1 [OF False] False digit_of_nat [of "n mod 16"]
      by (simp add: hex_nat.simps [of n] is_digits_def digits_value_snoc)
  qed
qed

lemma digit_char:
  assumes "digit_of c < 16"
  shows "\<not> is_space c" "c \<noteq> 43" "c \<noteq> 45" "c \<noteq> 120" "c \<noteq> 88" "c \<noteq> 0"
proof -
  have "48 \<le> c" using assms by (auto simp: digit_of_def word_le_nat_alt split: if_splits)
  then show "\<not> is_space c" "c \<noteq> 43" "c \<noteq> 45" "c \<noteq> 0" by (auto simp: is_space_def word_le_nat_alt)
  show "c \<noteq> 120" "c \<noteq> 88" using assms by (auto simp: digit_of_def)
qed

lemma strtoul16_digits:
  assumes "is_digits 16 cs" "cs \<noteq> []" "digits_value 16 0 cs < 2 ^ 64"
  shows "strtoul16 cs = of_nat (digits_value 16 0 cs)"
proof -
  obtain c r where cs: "cs = c # r" using assms(2) by (cases cs) auto
  have c: "digit_of c < 16" and r: "\<forall>x \<in> set r. digit_of x < 16" using assms(1) by (simp_all add: cs is_digits_def)
  have "sign_split cs = (False, cs)"
    using digit_char [OF c] by (simp add: sign_split_def cs)
  moreover have "b \<noteq> 120 \<and> b \<noteq> 88" if "r = b # r'" for b r'
    using r that digit_char [of b] by auto
  ultimately show ?thesis
    using assms(3) unfolding strtoul16_def Let_def by (auto simp: cs split: list.splits)
qed

lemma strtoul16_hex_x: "strtoul16 (hex_x h) = h"
proof -
  have "unat h < 2 ^ 64" using unat_lt [of h] by simp
  then show ?thesis using strtoul16_digits [of "hex_x h"] hex_nat_value [of "unat h"] by (simp add: hex_x_def)
qed

end
