(* ===== verification/Gate.thy ===== *)
theory Gate
  imports Databuffer Netpack Cstring
begin

text \<open>
  The gate written in C, \<open>src/3rd/skynet/service-src/service_gate.c\<close>: it accepts connections, keeps a
  slot with a receive buffer for each, cuts the received bytes into packages behind a header of two or
  four bytes, and forwards them to the broker, the agent of the connection or the watchdog. What a
  handler asks of skynet (messages it sends, sockets it closes, errors it logs) is the list of actions
  of its result, in order.
\<close>

section \<open>State\<close>

record connection =
  c_id :: int
  c_agent :: u32
  c_client :: u32
  c_remote_name :: bytes
  c_buffer :: databuffer

record gate =
  g_listen_id :: int
  g_watchdog :: u32
  g_broker :: u32
  g_client_tag :: u32
  g_header_size :: nat
  g_hash :: hashid
  g_conn :: "connection list"
  g_mp :: messagepool

datatype action =
    A_socket_close int
  | A_socket_start int
  | A_socket_send int bytes
  | A_send u32 u32 u32 bytes
  | A_error bytes
  | A_free bytes

definition no_connection :: connection where
  "no_connection = \<lparr>c_id = - 1, c_agent = 0, c_client = 0, c_remote_name = [], c_buffer = db_init\<rparr>"

text \<open>
  \<open>gate_init\<close>, from the fields that \<open>sscanf\<close> found (\<open>n\<close> of them) on, up to \<open>start_listen\<close>;
  \<open>queryname\<close> is \<open>skynet_queryname\<close>. \<open>None\<close> is the failure result 1.
\<close>

definition gate_init ::
  "(bytes \<Rightarrow> u32) \<Rightarrow> nat \<Rightarrow> byte \<Rightarrow> bytes \<Rightarrow> u32 \<Rightarrow> int \<Rightarrow> gate option" where
  "gate_init queryname n header watchdog client_tag mx =
     (if n < 4 then None
      else if mx \<le> 0 then None
      else if header \<noteq> 83 \<and> header \<noteq> 76 then None
      else
        (let tag = (if client_tag = 0 then PTYPE_CLIENT else client_tag);
             wd = (if watchdog ! 0 = 33 then 0 else queryname watchdog)
         in if watchdog ! 0 \<noteq> 33 \<and> wd = 0 then None
            else Some \<lparr>g_listen_id = - 1, g_watchdog = wd, g_broker = 0, g_client_tag = tag,
                       g_header_size = (if header = 83 then 2 else 4), g_hash = hashid_init (nat mx),
                       g_conn = replicate (nat mx) no_connection, g_mp = \<lparr>mp_blocks = 0, mp_free = 0\<rparr>\<rparr>))"

section \<open>Forwarding\<close>

text \<open>\<open>_report\<close>; the texts are far shorter than its 1024-byte buffer.\<close>

definition report :: "gate \<Rightarrow> bytes \<Rightarrow> action list" where
  "report g text =
     (if g_watchdog g = 0 then [] else [A_send 0 (g_watchdog g) PTYPE_TEXT text])"

definition forward :: "gate \<Rightarrow> connection \<Rightarrow> messagepool \<Rightarrow> nat \<Rightarrow> (action list \<times> connection \<times> messagepool) res" where
  "forward g c mp sz =
     (if g_broker g \<noteq> 0 then
        bind_r (databuffer_read (c_buffer c) mp sz) (\<lambda>(temp, db, mp).
          Inr ([A_send 0 (g_broker g) (g_client_tag g OR PTYPE_TAG_DONTCOPY) temp], c\<lparr>c_buffer := db\<rparr>, mp))
      else if c_agent c \<noteq> 0 then
        bind_r (databuffer_read (c_buffer c) mp sz) (\<lambda>(temp, db, mp).
          Inr ([A_send (c_client c) (c_agent c) (g_client_tag g OR PTYPE_TAG_DONTCOPY) temp], c\<lparr>c_buffer := db\<rparr>, mp))
      else if g_watchdog g \<noteq> 0 then
        (let tmp = dec (c_id c) @ cstring '' data '' in
         bind_r (databuffer_read (c_buffer c) mp sz) (\<lambda>(data, db, mp).
           Inr ([A_send 0 (g_watchdog g) (PTYPE_TEXT OR PTYPE_TAG_DONTCOPY) (tmp @ data)], c\<lparr>c_buffer := db\<rparr>, mp)))
      else Inr ([], c, mp))"

text \<open>The loop of \<open>dispatch_message\<close>.\<close>

partial_function (option) dispatch_loop ::
  "gate \<Rightarrow> int \<Rightarrow> connection \<Rightarrow> messagepool \<Rightarrow> action list \<Rightarrow> (action list \<times> connection \<times> messagepool) res option" where
  "dispatch_loop g fd c mp acts =
     (case databuffer_readheader (c_buffer c) mp (g_header_size g) of
        Inl e \<Rightarrow> Some (Inl e)
      | Inr (sz, db, mp) \<Rightarrow>
         (let c = c\<lparr>c_buffer := db\<rparr> in
          if sz < 0 then Some (Inr (acts, c, mp))
          else if 0 < sz then
            (if 0x1000000 \<le> sz then
               (let (db, mp) = databuffer_clear (c_buffer c) mp
                in Some (Inr (acts @ [A_socket_close fd, A_error (cstring ''Recv socket message > 16M'')],
                              c\<lparr>c_buffer := db\<rparr>, mp)))
             else
               (case forward g c mp (nat sz) of
                  Inl e \<Rightarrow> Some (Inl e)
                | Inr (a, c, mp) \<Rightarrow>
                    dispatch_loop g fd (c\<lparr>c_buffer := databuffer_reset (c_buffer c)\<rparr>) mp (acts @ a)))
          else dispatch_loop g fd c mp acts))"

definition dispatch_message ::
  "gate \<Rightarrow> connection \<Rightarrow> int \<Rightarrow> messagepool \<Rightarrow> bytes \<Rightarrow> (action list \<times> connection \<times> messagepool) res option" where
  "dispatch_message g c fd mp data =
     (let (db, mp) = databuffer_push (c_buffer c) mp data
      in dispatch_loop g fd (c\<lparr>c_buffer := db\<rparr>) mp [])"

section \<open>The handlers\<close>

datatype socket_event =
    S_data int bytes
  | S_connect int
  | S_close int
  | S_sockerr int
  | S_accept int int bytes
  | S_warning int int

text \<open>The connection slot of a socket id: \<open>&g->conn[id]\<close>.\<close>

definition conn_at :: "gate \<Rightarrow> int \<Rightarrow> connection res" where
  "conn_at g i = (if 0 \<le> i \<and> nat i < length (g_conn g) then Inr (g_conn g ! nat i) else Inl Out_of_bounds)"

definition set_conn :: "gate \<Rightarrow> int \<Rightarrow> connection \<Rightarrow> gate" where
  "set_conn g i c = g\<lparr>g_conn := (g_conn g)[nat i := c]\<rparr>"

definition dispatch_socket_message :: "gate \<Rightarrow> socket_event \<Rightarrow> (action list \<times> gate) res option" where
  "dispatch_socket_message g message =
     (case message of
        S_data fd buffer \<Rightarrow>
          (case hashid_lookup (g_hash g) fd of
             None \<Rightarrow> None
           | Some (Inl e) \<Rightarrow> Some (Inl e)
           | Some (Inr i) \<Rightarrow>
               (if 0 \<le> i then
                  (case conn_at g i of
                     Inl e \<Rightarrow> Some (Inl e)
                   | Inr c \<Rightarrow>
                       (case dispatch_message g c fd (g_mp g) buffer of
                          None \<Rightarrow> None
                        | Some (Inl e) \<Rightarrow> Some (Inl e)
                        | Some (Inr (acts, c, mp)) \<Rightarrow> Some (Inr (acts, set_conn (g\<lparr>g_mp := mp\<rparr>) i c))))
                else Some (Inr ([A_error (cstring ''Drop unknown connection''), A_socket_close fd, A_free buffer], g))))
      | S_connect fd \<Rightarrow>
          (if fd = g_listen_id g then Some (Inr ([], g))
           else
             (case hashid_lookup (g_hash g) fd of
                None \<Rightarrow> None
              | Some (Inl e) \<Rightarrow> Some (Inl e)
              | Some (Inr i) \<Rightarrow>
                  Some (Inr (if i < 0 then [A_error (cstring ''Close unknown connection''), A_socket_close fd] else [], g))))
      | S_accept listen_fd fd name \<Rightarrow>
          (if g_listen_id g \<noteq> listen_fd then Some (Inl Assert_failed)
           else if hashid_full (g_hash g) then Some (Inr ([A_socket_close fd], g))
           else
             (case hashid_insert (g_hash g) fd of
                Inl e \<Rightarrow> Some (Inl e)
              | Inr (i, h) \<Rightarrow>
                  (case conn_at g i of
                     Inl e \<Rightarrow> Some (Inl e)
                   | Inr c \<Rightarrow>
                       (let g = set_conn (g\<lparr>g_hash := h\<rparr>) i (c\<lparr>c_id := fd, c_remote_name := take 31 name\<rparr>)
                        in Some (Inr (report g (dec fd @ cstring '' open '' @ dec fd @ [32] @ cstr (take 31 name) @ cstring '':0'') @
                                      [A_error (cstring ''socket open'')], g))))))
      | S_warning fd ud \<Rightarrow> Some (Inr ([A_error (cstring ''send buffer'')], g))
      | _ \<Rightarrow>
          (let fd = (case message of S_close fd \<Rightarrow> fd | S_sockerr fd \<Rightarrow> fd | _ \<Rightarrow> 0) in
           case hashid_remove (g_hash g) fd of
             None \<Rightarrow> None
           | Some (Inl e) \<Rightarrow> Some (Inl e)
           | Some (Inr (i, h)) \<Rightarrow>
               (if 0 \<le> i then
                  (case conn_at g i of
                     Inl e \<Rightarrow> Some (Inl e)
                   | Inr c \<Rightarrow>
                       (let (db, mp) = databuffer_clear (c_buffer c) (g_mp g);
                            g = set_conn (g\<lparr>g_hash := h, g_mp := mp\<rparr>) i no_connection
                        in Some (Inr (report g (dec fd @ cstring '' close''), g))))
                else Some (Inr ([], g\<lparr>g_hash := h\<rparr>)))))"

definition forward_agent :: "gate \<Rightarrow> int \<Rightarrow> u32 \<Rightarrow> u32 \<Rightarrow> gate res option" where
  "forward_agent g fd agentaddr clientaddr =
     (case hashid_lookup (g_hash g) fd of
        None \<Rightarrow> None
      | Some (Inl e) \<Rightarrow> Some (Inl e)
      | Some (Inr i) \<Rightarrow>
          (if 0 \<le> i
           then (case conn_at g i of
                   Inl e \<Rightarrow> Some (Inl e)
                 | Inr c \<Rightarrow> Some (Inr (set_conn g i (c\<lparr>c_agent := agentaddr, c_client := clientaddr\<rparr>))))
           else Some (Inr g)))"

text \<open>
  The control commands. \<open>memcmp(command, name, i) == 0\<close> compares the first word of the message with as
  many bytes of the name (and its final 0); a longer word that agrees with the whole name would be
  compared past the literal.
\<close>

definition command_is :: "bytes \<Rightarrow> nat \<Rightarrow> string \<Rightarrow> bool res" where
  "command_is command i name =
     (let l = cstring name @ [0] in
      if i \<le> length l then Inr (take i command = take i l)
      else if take (length l) command \<noteq> l then Inr False else Inl Out_of_bounds)"

definition parm :: "bytes \<Rightarrow> nat \<Rightarrow> bytes" where
  "parm msg command_sz = cstr (dropWhile (\<lambda>c. c = 32) (drop command_sz msg))"

definition on_known :: "gate \<Rightarrow> int \<Rightarrow> action list \<Rightarrow> (action list \<times> gate) res option" where
  "on_known g fd acts =
     (case hashid_lookup (g_hash g) fd of
        None \<Rightarrow> None
      | Some (Inl e) \<Rightarrow> Some (Inl e)
      | Some (Inr i) \<Rightarrow> Some (Inr (if 0 \<le> i then acts else [], g)))"

definition ctrl :: "(bytes \<Rightarrow> u32) \<Rightarrow> gate \<Rightarrow> bytes \<Rightarrow> (action list \<times> gate) res option" where
  "ctrl queryname g msg =
     (if msg = [] then Some (Inr ([], g))
      else
        (let i = length (takeWhile (\<lambda>c. c \<noteq> 32) msg); p = parm msg i in
         case command_is msg i ''kick'' of
           Inl e \<Rightarrow> Some (Inl e)
         | Inr True \<Rightarrow> on_known g (strtol10 p) [A_socket_close (strtol10 p)]
         | Inr False \<Rightarrow>
         (case command_is msg i ''forward'' of
           Inl e \<Rightarrow> Some (Inl e)
         | Inr True \<Rightarrow>
             (case strsep [32] p of
                (idstr, None) \<Rightarrow> Some (Inr ([], g))
              | (idstr, Some client) \<Rightarrow>
                  (case strsep [32] client of
                     (agent, None) \<Rightarrow> Some (Inr ([], g))
                   | (agent, Some client) \<Rightarrow>
                       (case forward_agent g (strtol10 idstr) (strtoul16 (drop 1 agent)) (strtoul16 (drop 1 client)) of
                          None \<Rightarrow> None
                        | Some (Inl e) \<Rightarrow> Some (Inl e)
                        | Some (Inr g) \<Rightarrow> Some (Inr ([], g)))))
         | Inr False \<Rightarrow>
         (case command_is msg i ''broker'' of
           Inl e \<Rightarrow> Some (Inl e)
         | Inr True \<Rightarrow> Some (Inr ([], g\<lparr>g_broker := queryname p\<rparr>))
         | Inr False \<Rightarrow>
         (case command_is msg i ''start'' of
           Inl e \<Rightarrow> Some (Inl e)
         | Inr True \<Rightarrow> on_known g (strtol10 p) [A_socket_start (strtol10 p)]
         | Inr False \<Rightarrow>
         (case command_is msg i ''close'' of
           Inl e \<Rightarrow> Some (Inl e)
         | Inr True \<Rightarrow>
             Some (Inr (if 0 \<le> g_listen_id g then ([A_socket_close (g_listen_id g)], g\<lparr>g_listen_id := - 1\<rparr>) else ([], g)))
         | Inr False \<Rightarrow> Some (Inr ([A_error (cstring ''[gate] Unkown command'')], g))))))))"

text \<open>
  The callback for client messages: the last four bytes are the socket id. The second component tells
  that the message is not to be freed.
\<close>

definition cb_client :: "gate \<Rightarrow> bytes \<Rightarrow> (action list \<times> bool) res option" where
  "cb_client g msg =
     (if length msg \<le> 4 then Some (Inr ([A_error (cstring ''Invalid client message'')], False))
      else
        (let uid = sint (of_le (drop (length msg - 4) msg) :: u32) in
         case hashid_lookup (g_hash g) uid of
           None \<Rightarrow> None
         | Some (Inl e) \<Rightarrow> Some (Inl e)
         | Some (Inr i) \<Rightarrow>
             (if 0 \<le> i then Some (Inr ([A_socket_send uid (take (length msg - 4) msg)], True))
              else Some (Inr ([A_error (cstring ''Invalid client id'')], False)))))"

section \<open>The gate splits the stream\<close>

text \<open>What a connection has sent and the gate has not forwarded yet, for headers of two bytes.\<close>

definition unread :: "databuffer \<Rightarrow> bytes" where
  "unread db = (if db_header db = 0 then contents db else be16 (of_int (db_header db)) @ contents db)"

definition buffer_ok :: "databuffer \<Rightarrow> bool" where
  "buffer_ok db =
     (db_ok db \<and> 0 \<le> db_header db \<and> db_header db < 0x10000 \<and>
      (db_header db \<noteq> 0 \<longrightarrow> int (length (contents db)) < db_header db))"

lemma header_irrelevant [simp]:
  "contents (db\<lparr>db_header := h\<rparr>) = contents db"
  "db_ok (db\<lparr>db_header := h\<rparr>) = db_ok db"
  "nodes_of (db\<lparr>db_header := h\<rparr>) mp = nodes_of db mp"
  by (simp_all add: contents_def db_ok_def nodes_of_def)

lemma header_value:
  "sint (push_bit 8 (ucast x) OR ucast y :: u32) = int (unat (of_be [x, y] :: u16))"
proof -
  have "unat (push_bit 8 (ucast (x :: byte)) OR ucast (y :: byte) :: u32) = unat (of_be [x, y] :: u16)"
    using read_size_eq [of "[x, y]"] by (simp add: read_size_def)
  then show ?thesis using size_bound [of "[x, y]"] by (subst sint_small) (simp_all only:, simp_all)
qed

lemma readheader_spec:
  assumes "buffer_ok db" and n: "n = unat (of_be (take 2 (unread db)) :: u16)"
  shows "\<exists>sz db' mp'. databuffer_readheader db mp 2 = Inr (sz, db', mp') \<and> db_ok db' \<and>
    nodes_of db' mp' = nodes_of db mp \<and> mp_blocks mp' = mp_blocks mp \<and>
    (if length (unread db) < 2 then sz = - 1 \<and> unread db' = unread db \<and> buffer_ok db'
     else if length (unread db) < n + 2 then sz = - 1 \<and> unread db' = unread db \<and> buffer_ok db'
     else sz = int n \<and> contents db' = drop 2 (unread db) \<and> db_header db' = int n)"
proof (cases "db_header db = 0")
  case False
  then have h: "0 < db_header db" "db_header db < 0x10000" "int (length (contents db)) < db_header db" "db_ok db"
    using assms(1) by (simp_all add: buffer_ok_def)
  have u: "unread db = be16 (of_int (db_header db)) @ contents db" using False by (simp add: unread_def)
  have "int n = db_header db"
    using h(1,2) n by (simp add: u take_append_exact unsigned_of_int take_bit_int_eq_self)
  then have "length (unread db) < n + 2" using h(3) u by simp
  moreover have "databuffer_readheader db mp 2 = Inr (- 1, db, mp)"
    using False h by (simp add: databuffer_readheader_def Let_def db_ok_def)
  ultimately show ?thesis using h(4) assms(1) by auto
next
  case True
  then have u: "unread db = contents db" and ok: "db_ok db"
    using assms(1) by (simp_all add: unread_def buffer_ok_def)
  have sz: "db_size db = length (contents db)" using ok by (simp add: db_ok_def)
  show ?thesis
  proof (cases "length (contents db) < 2")
    case short: True
    then have "databuffer_readheader db mp 2 = Inr (- 1, db, mp)"
      using True sz by (simp add: databuffer_readheader_def Let_def)
    then show ?thesis using short ok u assms(1) by simp
  next
    case False
    obtain db1 mp1 where r: "databuffer_read db mp 2 = Inr (take 2 (contents db), db1, mp1)" "db_ok db1"
      "contents db1 = drop 2 (contents db)" "nodes_of db1 mp1 = nodes_of db mp" "mp_blocks mp1 = mp_blocks mp"
      using databuffer_read_spec [OF ok, of 2 mp] False by auto
    obtain x y where xy: "take 2 (contents db) = [x, y]"
      using False by (cases "contents db"; cases "tl (contents db)") auto
    have n': "n = unat (of_be [x, y] :: u16)" using n u xy by simp
    let ?db = "db1\<lparr>db_header := int n\<rparr>"
    have c: "contents ?db = drop 2 (contents db)" "db_ok ?db" "nodes_of ?db mp1 = nodes_of db mp"
      using r by simp_all
    have sz1: "db_size ?db = length (contents db) - 2" using r(2,3) by (simp add: db_ok_def)
    have res: "databuffer_readheader db mp 2 =
        (if int (db_size ?db) < int n then Inr (- 1, ?db, mp1) else Inr (int n, ?db, mp1))"
      using True sz False r(1) xy header_value [of x y] n' by (simp add: databuffer_readheader_def Let_def)
    show ?thesis
    proof (cases "length (contents db) < n + 2")
      case short: True
      then have lt: "int (db_size ?db) < int n" using sz1 False by simp
      have "be16 (of_int (int n)) = take 2 (contents db)"
        using be16_of_be [of "[x, y]"] xy n' by simp
      moreover have "n \<noteq> 0" using lt by simp
      ultimately have "unread ?db = contents db" using c by (simp add: unread_def)
      moreover have "buffer_ok ?db" using c lt sz1 size_bound [of "[x, y]"] n' by (simp add: buffer_ok_def del: of_nat_unat)
      ultimately show ?thesis using res lt short c r u False by simp
    next
      case long: False
      then have "\<not> int (db_size ?db) < int n" using sz1 by simp
      then show ?thesis using res long c r u False by simp
    qed
  qed
qed

definition consumer :: "gate \<Rightarrow> connection \<Rightarrow> bool" where
  "consumer g c = (g_broker g \<noteq> 0 \<or> c_agent c \<noteq> 0 \<or> g_watchdog g \<noteq> 0)"

text \<open>The one message that a package becomes.\<close>

definition package_action :: "gate \<Rightarrow> connection \<Rightarrow> bytes \<Rightarrow> action" where
  "package_action g c p =
     (if g_broker g \<noteq> 0 then A_send 0 (g_broker g) (g_client_tag g OR PTYPE_TAG_DONTCOPY) p
      else if c_agent c \<noteq> 0 then A_send (c_client c) (c_agent c) (g_client_tag g OR PTYPE_TAG_DONTCOPY) p
      else A_send 0 (g_watchdog g) (PTYPE_TEXT OR PTYPE_TAG_DONTCOPY) (dec (c_id c) @ cstring '' data '' @ p))"

definition same_conn :: "connection \<Rightarrow> connection \<Rightarrow> bool" where
  "same_conn c c' = (c_id c' = c_id c \<and> c_agent c' = c_agent c \<and> c_client c' = c_client c \<and> c_remote_name c' = c_remote_name c)"

lemma forward_spec:
  assumes "consumer g c" "db_ok (c_buffer c)" "0 < n" "n \<le> length (contents (c_buffer c))"
  shows "\<exists>db' mp'. forward g c mp n = Inr ([package_action g c (take n (contents (c_buffer c)))], c\<lparr>c_buffer := db'\<rparr>, mp') \<and>
    db_ok db' \<and> contents db' = drop n (contents (c_buffer c)) \<and>
    nodes_of db' mp' = nodes_of (c_buffer c) mp \<and> mp_blocks mp' = mp_blocks mp"
proof -
  obtain db' mp' where "databuffer_read (c_buffer c) mp n = Inr (take n (contents (c_buffer c)), db', mp')"
    "db_ok db'" "contents db' = drop n (contents (c_buffer c))" "nodes_of db' mp' = nodes_of (c_buffer c) mp"
    "mp_blocks mp' = mp_blocks mp"
    using databuffer_read_spec [OF assms(2-4)] by blast
  then show ?thesis
    using assms(1) by (auto simp: forward_def package_action_def consumer_def Let_def)
qed

lemma package_action_buffer [simp]: "package_action g (c\<lparr>c_buffer := db\<rparr>) = package_action g c"
  by (rule ext) (simp add: package_action_def)

lemma dispatch_loop_spec:
  assumes "g_header_size g = 2" "consumer g c" "buffer_ok (c_buffer c)"
  shows "\<exists>db' mp'. dispatch_loop g fd c mp acts =
      Some (Inr (acts @ map (package_action g c) (filter (\<lambda>p. p \<noteq> []) (fst (parse (unread (c_buffer c))))),
                 c\<lparr>c_buffer := db'\<rparr>, mp')) \<and>
    buffer_ok db' \<and> unread db' = snd (parse (unread (c_buffer c))) \<and>
    nodes_of db' mp' = nodes_of (c_buffer c) mp \<and> mp_blocks mp' = mp_blocks mp"
  using assms(2,3)
proof (induction "length (unread (c_buffer c))" arbitrary: c mp acts rule: less_induct)
  case less
  let ?s = "unread (c_buffer c)"
  let ?n = "unat (of_be (take 2 ?s) :: u16)"
  obtain sz db mp1 where rh: "databuffer_readheader (c_buffer c) mp 2 = Inr (sz, db, mp1)" "db_ok db"
    "nodes_of db mp1 = nodes_of (c_buffer c) mp" "mp_blocks mp1 = mp_blocks mp"
    "if length ?s < 2 then sz = - 1 \<and> unread db = ?s \<and> buffer_ok db
     else if length ?s < ?n + 2 then sz = - 1 \<and> unread db = ?s \<and> buffer_ok db
     else sz = int ?n \<and> contents db = drop 2 ?s \<and> db_header db = int ?n"
    using readheader_spec [OF less.prems(2) refl, of mp] by blast
  show ?case
  proof (cases "length ?s < 2 \<or> length ?s < ?n + 2")
    case True
    then have "parse ?s = ([], ?s)" using parse_step [of ?s ?n] by (cases "length ?s < 2") auto
    moreover have "sz = - 1" "unread db = ?s" "buffer_ok db" using True rh(5) by (auto split: if_splits)
    ultimately show ?thesis
      using rh(1,3,4) assms(1)
      by (intro exI [of _ db] exI [of _ mp1]) (simp add: dispatch_loop.simps [of g fd c mp acts])
  next
    case False
    then have two: "2 \<le> length ?s" and r: "sz = int ?n" "contents db = drop 2 ?s" "db_header db = int ?n"
      using rh(5) by (auto split: if_splits)
    let ?p = "take ?n (drop 2 ?s)" and ?rest = "drop (?n + 2) ?s"
    have p: "parse ?s = (?p # fst (parse ?rest), snd (parse ?rest))"
      using parse_step [OF two refl] False by simp
    have "?n + 2 \<le> length ?s" using False by linarith
    then have len: "?n \<le> length (contents db)" "length ?p = ?n" using r(2) by simp_all
    show ?thesis
    proof (cases "?n = 0")
      case True
      have h: "db_header db = 0" using r(3) True by simp
      have n2: "?n + 2 = 2" using True by simp
      have db: "buffer_ok db" "unread db = ?rest"
        using rh(2) h r(2) unfolding n2 by (simp_all add: buffer_ok_def unread_def [of db])
      have "dispatch_loop g fd c mp acts = dispatch_loop g fd (c\<lparr>c_buffer := db\<rparr>) mp1 acts"
        using rh(1) r True assms(1) by (simp add: dispatch_loop.simps [of g fd c mp acts])
      moreover have "length (unread (c_buffer (c\<lparr>c_buffer := db\<rparr>))) < length ?s" using db(2) two by simp
      moreover have "consumer g (c\<lparr>c_buffer := db\<rparr>)" using less.prems(1) by (simp add: consumer_def)
      ultimately show ?thesis
        using less.hyps [of "c\<lparr>c_buffer := db\<rparr>" mp1 acts] db p len(2) True rh(3,4) by simp
    next
      case nz: False
      have cons: "consumer g (c\<lparr>c_buffer := db\<rparr>)" using less.prems(1) by (simp add: consumer_def)
      obtain db' mp' where f: "forward g (c\<lparr>c_buffer := db\<rparr>) mp1 ?n = Inr ([package_action g c ?p], c\<lparr>c_buffer := db'\<rparr>, mp')"
        "db_ok db'" "contents db' = ?rest" "nodes_of db' mp' = nodes_of db mp1" "mp_blocks mp' = mp_blocks mp1"
        using forward_spec [OF cons, of ?n mp1] rh(2) nz len(1) r(2) by (auto simp: add.commute)
      let ?db = "databuffer_reset db'"
      have db: "buffer_ok ?db" "unread ?db = ?rest" "nodes_of ?db mp' = nodes_of (c_buffer c) mp"
        using f(2-4) rh(3) by (simp_all add: buffer_ok_def unread_def [of "db'\<lparr>db_header := 0\<rparr>"] databuffer_reset_def)
      have small: "\<not> 0x1000000 \<le> int ?n" using size_bound [of "take 2 ?s"] by linarith
      have "dispatch_loop g fd c mp acts =
          dispatch_loop g fd (c\<lparr>c_buffer := ?db\<rparr>) mp' (acts @ [package_action g c ?p])"
        using rh(1) r(1) nz small assms(1) f(1) by (simp add: dispatch_loop.simps [of g fd c mp acts] del: of_nat_unat)
      moreover have "length (unread (c_buffer (c\<lparr>c_buffer := ?db\<rparr>))) < length ?s" using db(2) two by simp
      moreover have "consumer g (c\<lparr>c_buffer := ?db\<rparr>)" using less.prems(1) by (simp add: consumer_def)
      moreover have "?p \<noteq> []" using len(2) nz by auto
      ultimately show ?thesis
        using less.hyps [of "c\<lparr>c_buffer := ?db\<rparr>" mp' "acts @ [package_action g c ?p]"] db p f(5) rh(4) by simp
    qed
  qed
qed

lemma dispatch_message_spec:
  assumes "g_header_size g = 2" "consumer g c" "buffer_ok (c_buffer c)"
  shows "\<exists>db' mp'. dispatch_message g c fd mp data =
      Some (Inr (map (package_action g c) (filter (\<lambda>p. p \<noteq> []) (fst (parse (unread (c_buffer c) @ data)))),
                 c\<lparr>c_buffer := db'\<rparr>, mp')) \<and>
    buffer_ok db' \<and> unread db' = snd (parse (unread (c_buffer c) @ data))"
proof -
  obtain db mp1 where p: "databuffer_push (c_buffer c) mp data = (db, mp1)" by fastforce
  have ok: "db_ok (c_buffer c)" using assms(3) by (simp add: buffer_ok_def)
  have d: "db_ok db" "contents db = contents (c_buffer c) @ data" "db_header db = db_header (c_buffer c)"
    using databuffer_push_spec [OF ok p] by simp_all
  have u: "unread db = unread (c_buffer c) @ data" using d by (simp add: unread_def)
  show ?thesis
  proof (cases "db_header db = 0 \<or> int (length (contents db)) < db_header db")
    case True
    then have "buffer_ok db" using d assms(3) by (auto simp: buffer_ok_def)
    moreover have "consumer g (c\<lparr>c_buffer := db\<rparr>)" using assms(2) by (simp add: consumer_def)
    ultimately show ?thesis
      using dispatch_loop_spec [OF assms(1), of "c\<lparr>c_buffer := db\<rparr>" fd mp1 "[]"] u
      by (auto simp: dispatch_message_def p)
  next
    case False
    let ?h = "db_header db" and ?n = "nat (db_header db)"
    have h: "0 < ?h" "?h < 0x10000" "?h \<le> int (length (contents db))"
      using False d(3) assms(3) by (auto simp: buffer_ok_def)
    have rh: "databuffer_readheader db mp1 2 = Inr (?h, db, mp1)"
      using h d(1) by (simp add: databuffer_readheader_def Let_def db_ok_def)
    have cons: "consumer g (c\<lparr>c_buffer := db\<rparr>)" using assms(2) by (simp add: consumer_def)
    have n: "0 < ?n" "?n \<le> length (contents db)" using h by linarith+
    obtain db' mp' where f: "forward g (c\<lparr>c_buffer := db\<rparr>) mp1 ?n =
        Inr ([package_action g c (take ?n (contents db))], c\<lparr>c_buffer := db'\<rparr>, mp')"
      "db_ok db'" "contents db' = drop ?n (contents db)"
      using forward_spec [OF cons, of ?n mp1] d(1) n by auto
    let ?db = "db'\<lparr>db_header := 0\<rparr>"
    have db: "buffer_ok ?db" "unread ?db = drop ?n (contents db)"
      using f(2,3) by (simp_all add: buffer_ok_def unread_def [of ?db])
    have "dispatch_message g c fd mp data = dispatch_loop g fd (c\<lparr>c_buffer := ?db\<rparr>) mp' [package_action g c (take ?n (contents db))]"
      using rh h f(1) assms(1) by (simp add: dispatch_message_def p dispatch_loop.simps [of g fd "c\<lparr>c_buffer := db\<rparr>"] databuffer_reset_def)
    moreover have "parse (unread (c_buffer c) @ data) =
        (take ?n (contents db) # fst (parse (drop ?n (contents db))), snd (parse (drop ?n (contents db))))"
    proof -
      have "unread db = be16 (of_nat ?n) @ contents db" using h by (simp add: unread_def)
      then show ?thesis unfolding u [symmetric] using parse_sized [of ?n "contents db"] n h(2) by simp
    qed
    moreover have "consumer g (c\<lparr>c_buffer := ?db\<rparr>)" using assms(2) by (simp add: consumer_def)
    moreover have "take ?n (contents db) \<noteq> []" using n by auto
    ultimately show ?thesis
      using dispatch_loop_spec [OF assms(1), of "c\<lparr>c_buffer := ?db\<rparr>" fd mp' "[package_action g c (take ?n (contents db))]"] db
      by auto
  qed
qed

text \<open>A connection fed with one chunk after the other.\<close>

fun feed :: "gate \<Rightarrow> connection \<Rightarrow> int \<Rightarrow> messagepool \<Rightarrow> bytes list \<Rightarrow> (action list \<times> connection \<times> messagepool) res option" where
  "feed g c fd mp [] = Some (Inr ([], c, mp))"
| "feed g c fd mp (b # bs) =
     (case dispatch_message g c fd mp b of
        None \<Rightarrow> None
      | Some (Inl e) \<Rightarrow> Some (Inl e)
      | Some (Inr (acts, c, mp)) \<Rightarrow>
          (case feed g c fd mp bs of
             None \<Rightarrow> None
           | Some (Inl e) \<Rightarrow> Some (Inl e)
           | Some (Inr (acts', r)) \<Rightarrow> Some (Inr (acts @ acts', r))))"

lemma feed_spec:
  assumes "g_header_size g = 2" "consumer g c" "buffer_ok (c_buffer c)" "parse (unread (c_buffer c)) = ([], unread (c_buffer c))"
  shows "\<exists>db' mp'. feed g c fd mp bs =
      Some (Inr (map (package_action g c) (filter (\<lambda>p. p \<noteq> []) (fst (parse (unread (c_buffer c) @ concat bs)))),
                 c\<lparr>c_buffer := db'\<rparr>, mp')) \<and>
    buffer_ok db' \<and> unread db' = snd (parse (unread (c_buffer c) @ concat bs))"
  using assms(2-4)
proof (induction bs arbitrary: c mp)
  case Nil
  then show ?case by (intro exI [of _ "c_buffer c"] exI [of _ mp]) simp
next
  case (Cons b bs)
  let ?u = "unread (c_buffer c)"
  obtain db mp1 where one: "dispatch_message g c fd mp b =
      Some (Inr (map (package_action g c) (filter (\<lambda>p. p \<noteq> []) (fst (parse (?u @ b)))), c\<lparr>c_buffer := db\<rparr>, mp1))"
    "buffer_ok db" "unread db = snd (parse (?u @ b))"
    using dispatch_message_spec [OF assms(1) Cons.prems(1,2)] by blast
  have "consumer g (c\<lparr>c_buffer := db\<rparr>)" using Cons.prems(1) by (simp add: consumer_def)
  then obtain db' mp' where two: "feed g (c\<lparr>c_buffer := db\<rparr>) fd mp1 bs =
      Some (Inr (map (package_action g c) (filter (\<lambda>p. p \<noteq> []) (fst (parse (unread db @ concat bs)))), c\<lparr>c_buffer := db'\<rparr>, mp'))"
    "buffer_ok db'" "unread db' = snd (parse (unread db @ concat bs))"
    using Cons.IH [of "c\<lparr>c_buffer := db\<rparr>" mp1] one(2,3) parse_residue by auto
  have "parse (?u @ concat (b # bs)) = (fst (parse (?u @ b)) @ fst (parse (unread db @ concat bs)), snd (parse (unread db @ concat bs)))"
    using parse_append [of "?u @ b" "concat bs"] one(3) by simp
  then show ?case using one two by (intro exI [of _ db'] exI [of _ mp']) simp
qed

section \<open>Every chunk is handled\<close>





section \<open>The slots\<close>

text \<open>
  The invariant of the gate: the table of ids is well formed, the slot of an id is the connection with
  that id, and every buffer of a connection is well formed.
\<close>

definition gate_ok :: "gate \<Rightarrow> bool" where
  "gate_ok g =
     ((\<exists>ch. hashid_ok ch (g_hash g)) \<and> length (g_conn g) = length (hi_id (g_hash g)) \<and>
      (g_header_size g = 2 \<or> g_header_size g = 4) \<and>
      (\<forall>i < length (g_conn g). db_ok (c_buffer (g_conn g ! i))) \<and>
      (\<forall>fd i. 0 \<le> fd \<longrightarrow> slot_map (g_hash g) fd = Some i \<longrightarrow> c_id (g_conn g ! i) = fd))"

lemma db_init_buffer [simp]: "buffer_ok db_init"
  by (simp add: buffer_ok_def) (simp add: db_init_def)


lemma gate_init_ok:
  assumes "gate_init queryname n header watchdog tag mx = Some g"
  shows "gate_ok g"
proof -
  have g: "g_hash g = hashid_init (nat mx)" "g_conn g = replicate (nat mx) no_connection" "g_header_size g = 2 \<or> g_header_size g = 4"
    using assms by (auto simp: gate_init_def Let_def split: if_splits)
  have "0 \<le> fd \<Longrightarrow> slot_map (hashid_init (nat mx)) fd = None" for fd
    by (auto simp: slot_map_def find_None_iff hashid_init_def)
  then show ?thesis
    using init_ok by (auto simp: gate_ok_def g no_connection_def hashid_init_def)
qed






section \<open>Properties\<close>

text \<open>
  C28: The slot table of the gate is a correct finite map: on a well-formed table \<open>hashid_lookup\<close> ends and
  gives the slot of the id or -1; \<open>hashid_insert\<close> of a new id into a table that is not full never
  fails its assertions, never leaves the array and gives a slot that no other id has, as long as the sum
  of the id and the capacity is at most 2^31; \<open>hashid_remove\<close> takes exactly its id out, wherever in its
  chain the node is. The chains linked through the node array stay well formed.
\<close>
theorem hashid_is_a_map:
  assumes "hashid_ok ch hi" "0 \<le> key"
  shows "hashid_lookup hi key = Some (Inr (case slot_map hi key of None \<Rightarrow> - 1 | Some i \<Rightarrow> int i)) \<and>
    (slot_map hi key = None \<longrightarrow> \<not> hashid_full hi \<longrightarrow> key + int (length (hi_id hi)) \<le> 2 ^ 31 \<longrightarrow>
       (\<exists>c hi' ch'. hashid_insert hi key = Inr (int c, hi') \<and> hashid_ok ch' hi' \<and> c < length (hi_id hi) \<and>
          (\<forall>k. 0 \<le> k \<longrightarrow> slot_map hi' k = (if k = key then Some c else slot_map hi k)) \<and>
          (\<forall>k. 0 \<le> k \<longrightarrow> slot_map hi k \<noteq> Some c))) \<and>
    (\<exists>r hi' ch'. hashid_remove hi key = Some (Inr (r, hi')) \<and> hashid_ok ch' hi' \<and>
       r = (case slot_map hi key of None \<Rightarrow> - 1 | Some i \<Rightarrow> int i) \<and>
       (\<forall>k. 0 \<le> k \<longrightarrow> slot_map hi' k = (if k = key then None else slot_map hi k)))"
proof (intro conjI impI)
  show "hashid_lookup hi key = Some (Inr (case slot_map hi key of None \<Rightarrow> - 1 | Some i \<Rightarrow> int i))"
    by (rule lookup_spec [OF assms])
  show "\<exists>c hi' ch'. hashid_insert hi key = Inr (int c, hi') \<and> hashid_ok ch' hi' \<and> c < length (hi_id hi) \<and>
      (\<forall>k. 0 \<le> k \<longrightarrow> slot_map hi' k = (if k = key then Some c else slot_map hi k)) \<and>
      (\<forall>k. 0 \<le> k \<longrightarrow> slot_map hi k \<noteq> Some c)"
    if "slot_map hi key = None" "\<not> hashid_full hi" "key + int (length (hi_id hi)) \<le> 2 ^ 31"
    using insert_spec [OF assms that] by blast
  show "\<exists>r hi' ch'. hashid_remove hi key = Some (Inr (r, hi')) \<and> hashid_ok ch' hi' \<and>
      r = (case slot_map hi key of None \<Rightarrow> - 1 | Some i \<Rightarrow> int i) \<and>
      (\<forall>k. 0 \<le> k \<longrightarrow> slot_map hi' k = (if k = key then None else slot_map hi k))"
    using remove_spec [OF assms] assms(1) by (cases "slot_map hi key") auto
qed

theorem hashid_is_a_map_witness:
  "hashid_lookup (hashid_init 3) 5 = Some (Inr (- 1)) \<and>
   (\<exists>c hi'. hashid_insert (hashid_init 3) 5 = Inr (int c, hi') \<and> slot_map hi' 5 = Some c)"
proof -
  have "slot_map (hashid_init 3) 5 = None" "\<not> hashid_full (hashid_init 3)" by code_simp+
  moreover have "length (hi_id (hashid_init 3)) = 3" by (simp add: hashid_init_def)
  ultimately show ?thesis using hashid_is_a_map [OF init_ok [of 3], of 5] by auto
qed

text \<open>
  The id 0x7fffffff, which the socket server gives out like any other, makes \<open>hashid_insert\<close> read
  before its array when the first place that it looks at is taken, unless the capacity is a power of two:
  \<open>i+id\<close> has become negative, and so is its remainder. The table need not be full.
\<close>
theorem insert_overflows:
  assumes "1 < length (hi_id hi)" "\<not> int (length (hi_id hi)) dvd 2 ^ 31"
    and "nd_id (hi_id hi ! (0x7fffffff mod length (hi_id hi))) \<noteq> - 1"
  shows "hashid_insert hi 0x7fffffff = Inl Out_of_bounds"
proof -
  let ?n = "length (hi_id hi)"
  obtain m where m: "?n = Suc (Suc m)" using less_imp_Suc_add [OF assms(1)] by auto
  have first: "sint (of_nat 0 + of_int 0x7fffffff :: u32) smod int ?n = int (0x7fffffff mod ?n)"
  proof -
    have "sint (of_nat 0 + of_int 0x7fffffff :: u32) = 0x7fffffff" by simp
    moreover have "(0x7fffffff :: int) smod int ?n = 0x7fffffff mod int ?n"
      using assms(1) by (simp add: signed_modulo_int_def)
    ultimately show ?thesis by (simp add: of_nat_mod)
  qed
  have "sint (of_nat (0 + 1) + of_int 0x7fffffff :: u32) = - (2 ^ 31)" by simp
  moreover have "0 < (2 ^ 31 :: int) mod int ?n"
    using assms(1,2) by (metis dvd_eq_mod_eq_0 order_le_less pos_mod_sign of_nat_0_less_iff less_trans zero_less_one)
  moreover have "(- (2 ^ 31)) smod int ?n = - (2 ^ 31 mod int ?n)"
    using assms(1) by (simp add: signed_modulo_int_def)
  ultimately have second: "sint (of_nat (0 + 1) + of_int 0x7fffffff :: u32) smod int ?n < 0" by simp
  have "find_free (hi_id hi) 0x7fffffff 0 ?n = Inl Out_of_bounds"
    unfolding m find_free.simps Let_def using first second assms(3) by (simp add: m)
  then show ?thesis by (simp add: hashid_insert_def)
qed

theorem insert_overflows_witness:
  "hashid_insert ((hashid_init 3)\<lparr>hi_id := (hi_id (hashid_init 3))[1 := \<lparr>nd_id = 7, nd_next = None\<rparr>]\<rparr>) 0x7fffffff = Inl Out_of_bounds"
  by (rule insert_overflows) (simp_all add: hashid_init_def)

text \<open>
  C17: The gate in C and the splitter behind the gate in Lua understand a stream in the same way: for
  any bytes in any chunks, a connection with an empty two-byte-header buffer and a consumer forwards,
  in order, exactly the non-empty packages that the splitter delivers, one message each, and the loop
  of \<open>dispatch_message\<close> ends on every chunk.
\<close>
theorem gate_agrees_with_splitter:
  assumes "g_header_size g = 2" "consumer g c" "c_buffer c = db_init" "\<forall>b \<in> set bs. b \<noteq> []"
  shows "\<exists>qo nps acts c' mp'. split_run None (map (Sock_data fd) bs) = Inr (qo, nps) \<and>
    feed g c fd mp bs = Some (Inr (acts, c', mp')) \<and>
    acts = map (package_action g c) (filter (\<lambda>p. p \<noteq> []) (received fd nps)) \<and>
    unread (c_buffer c') = residue qo fd"
proof -
  have "\<forall>m \<in> set (map (Sock_data fd) bs). message_ok m" using assms(4) by (auto simp: message_ok_def)
  then obtain qo nps where n: "split_run None (map (Sock_data fd) bs) = Inr (qo, nps)"
    "owed fd (residue None fd) (map (Sock_data fd) bs) = (received fd nps, residue qo fd)"
    using split_run_spec [of None "map (Sock_data fd) bs"] by (auto simp: np_inv_def waiting_def)
  have "sent fd (map (Sock_data fd) bs) = concat bs" by (simp add: sent_def comp_def)
  moreover have "still_open fd (map (Sock_data fd) bs)" by (simp add: still_open_def)
  ultimately have p: "parse (concat bs) = (received fd nps, residue qo fd)"
    using owed_sent [of fd "map (Sock_data fd) bs" "[]"] n(2) by (simp add: residue_def)
  have u: "unread (c_buffer c) = []" by (simp add: assms(3) unread_def) (simp add: db_init_def)
  have "buffer_ok (c_buffer c)" by (simp add: assms(3))
  then show ?thesis
    using feed_spec [OF assms(1,2), of fd mp bs] n(1) p u by auto
qed

definition example_gate :: gate where
  "example_gate =
     \<lparr>g_listen_id = 3, g_watchdog = 0x01000008, g_broker = 0, g_client_tag = PTYPE_CLIENT, g_header_size = 2,
      g_hash = hashid_init 4, g_conn = replicate 4 no_connection, g_mp = \<lparr>mp_blocks = 0, mp_free = 0\<rparr>\<rparr>"

theorem gate_agrees_with_splitter_witness:
  "\<exists>qo nps acts c' mp'. split_run None (map (Sock_data 9) [[0], [1, 65, 0, 0, 0], [2, 66]]) = Inr (qo, nps) \<and>
    feed example_gate (no_connection\<lparr>c_id := 9\<rparr>) 9 (g_mp example_gate) [[0], [1, 65, 0, 0, 0], [2, 66]] = Some (Inr (acts, c', mp')) \<and>
    acts = map (package_action example_gate (no_connection\<lparr>c_id := 9\<rparr>)) (filter (\<lambda>p. p \<noteq> []) (received 9 nps)) \<and>
    unread (c_buffer c') = residue qo 9"
  by (rule gate_agrees_with_splitter) (simp_all add: example_gate_def consumer_def no_connection_def)



text \<open>
  The command \<open>close\<close> makes the gate forget its listening socket at once, but the socket thread may
  have accepted a client before it closes the socket: this message then fails an assertion, which ends
  the process.
\<close>
theorem accept_after_close_aborts:
  assumes "0 \<le> g_listen_id g"
  shows "\<exists>g'. ctrl queryname g (cstring ''close'') = Some (Inr ([A_socket_close (g_listen_id g)], g')) \<and>
    dispatch_socket_message g' (S_accept (g_listen_id g) fd name) = Some (Inl Assert_failed)"
proof -
  have "length (takeWhile (\<lambda>c. c \<noteq> 32) (cstring ''close'')) = 5" by code_simp
  moreover have "command_is (cstring ''close'') 5 ''kick'' = Inr False" "command_is (cstring ''close'') 5 ''forward'' = Inr False"
    "command_is (cstring ''close'') 5 ''broker'' = Inr False" "command_is (cstring ''close'') 5 ''start'' = Inr False"
    "command_is (cstring ''close'') 5 ''close'' = Inr True" "cstring ''close'' \<noteq> []"
    by code_simp+
  ultimately have "ctrl queryname g (cstring ''close'') = Some (Inr ([A_socket_close (g_listen_id g)], g\<lparr>g_listen_id := - 1\<rparr>))"
    using assms by (simp add: ctrl_def Let_def)
  then show ?thesis using assms by (auto simp: dispatch_socket_message_def)
qed

theorem accept_after_close_aborts_witness:
  "\<exists>g'. ctrl (\<lambda>_. 0) example_gate (cstring ''close'') = Some (Inr ([A_socket_close (g_listen_id example_gate)], g')) \<and>
    dispatch_socket_message g' (S_accept (g_listen_id example_gate) 9 []) = Some (Inl Assert_failed)"
  by (rule accept_after_close_aborts) (simp add: example_gate_def)

text \<open>
  C29: A header of four bytes is assembled in an \<open>int\<close>, so a first byte of 0x80 or more makes it
  negative. The limit of 16 MB is then not applied: the connection is neither served nor closed, and
  whatever it sends from then on is only added to its buffer, without a bound.
\<close>
theorem negative_header_hoards:
  assumes "g_header_size g = 4" "db_ok (c_buffer c)" "db_header (c_buffer c) = 0"
    and "contents (c_buffer c) @ data = [x, y, z, w] @ rest" "128 \<le> unat x"
  shows "\<exists>c' mp'. dispatch_message g c fd mp data = Some (Inr ([], c', mp')) \<and> contents (c_buffer c') = rest \<and>
    (\<forall>more mp2. \<exists>c'' mp''. dispatch_message g c' fd mp2 more = Some (Inr ([], c'', mp'')) \<and>
       contents (c_buffer c'') = rest @ more)"
proof -
  have stuck: "\<exists>c'' mp''. dispatch_message g c' fd mp2 more = Some (Inr ([], c'', mp'')) \<and>
      contents (c_buffer c'') = contents (c_buffer c') @ more"
    if neg: "db_header (c_buffer c') < 0" "db_ok (c_buffer c')" for c' mp2 more
  proof -
    obtain db mp1 where p: "databuffer_push (c_buffer c') mp2 more = (db, mp1)" by fastforce
    have d: "contents db = contents (c_buffer c') @ more" "db_header db = db_header (c_buffer c')"
      using databuffer_push_spec [OF neg(2) p] by simp_all
    then have "databuffer_readheader db mp1 4 = Inr (db_header db, db, mp1)"
      using neg(1) by (simp add: databuffer_readheader_def Let_def)
    then show ?thesis
      using d neg(1) assms(1) by (simp add: dispatch_message_def p dispatch_loop.simps [of g fd "c'\<lparr>c_buffer := db\<rparr>"])
  qed
  obtain db mp1 where p: "databuffer_push (c_buffer c) mp data = (db, mp1)" by fastforce
  have d: "db_ok db" "contents db = [x, y, z, w] @ rest" "db_header db = 0"
    using databuffer_push_spec [OF assms(2) p] assms(3,4) by simp_all
  obtain db1 mp' where r: "databuffer_read db mp1 4 = Inr ([x, y, z, w], db1, mp')" "db_ok db1" "contents db1 = rest"
    using databuffer_read_spec [OF d(1), of 4 mp1] d(2) by auto
  let ?h = "sint (push_bit 24 (ucast x) OR push_bit 16 (ucast y) OR push_bit 8 (ucast z) OR ucast w :: u32)"
  have "bit (push_bit 24 (ucast x) OR push_bit 16 (ucast y) OR push_bit 8 (ucast z) OR ucast w :: u32) 31"
  proof -
    have "unat x div 128 = 1" using assms(5) unat_lt [of x] by simp
    then have "bit (unat x) 7" by (simp add: bit_iff_odd)
    then have "bit x 7" by (simp add: bit_unsigned_iff)
    then show ?thesis by (simp add: bit_simps)
  qed
  then have neg: "?h < 0" by (simp add: sint_uint signed_take_bit_negative_iff bit_uint_iff)
  let ?db = "db1\<lparr>db_header := ?h\<rparr>"
  have "databuffer_readheader db mp1 4 = Inr (?h, ?db, mp')"
    using d r neg by (simp add: databuffer_readheader_def Let_def db_ok_def)
  then have "dispatch_message g c fd mp data = Some (Inr ([], c\<lparr>c_buffer := ?db\<rparr>, mp'))"
    using neg assms(1) by (simp add: dispatch_message_def p dispatch_loop.simps [of g fd "c\<lparr>c_buffer := db\<rparr>"])
  moreover have "contents ?db = rest" "db_header ?db < 0" "db_ok ?db" using r neg by simp_all
  ultimately show ?thesis using stuck [of "c\<lparr>c_buffer := ?db\<rparr>"] by auto
qed

theorem negative_header_hoards_witness:
  "\<exists>c' mp'. dispatch_message (example_gate\<lparr>g_header_size := 4\<rparr>) no_connection 9 (g_mp example_gate) [255, 0, 0, 0, 1, 2] =
      Some (Inr ([], c', mp')) \<and> contents (c_buffer c') = [1, 2] \<and>
    (\<forall>more mp2. \<exists>c'' mp''. dispatch_message (example_gate\<lparr>g_header_size := 4\<rparr>) c' 9 mp2 more = Some (Inr ([], c'', mp'')) \<and>
       contents (c_buffer c'') = [1, 2] @ more)"
  by (rule negative_header_hoards [where x = 255 and y = 0 and z = 0 and w = 0])
     (simp_all add: no_connection_def, simp add: db_init_def)

text \<open>
  When a package arrives for a connection without a consumer (no broker, no agent, no watchdog),
  \<open>_forward\<close> does not take it out of the buffer but its header is dropped: the gate goes on as if the
  payload were the next part of the stream, and reads headers from it.
\<close>
theorem unclaimed_payload_read_as_headers:
  assumes "g_header_size g = 2" "\<not> consumer g c" "buffer_ok (c_buffer c)"
    and "unread (c_buffer c) = frame p @ s" "p \<noteq> []" "length p < 0x10000"
  shows "\<exists>db mp'. unread db = p @ s \<and>
    dispatch_loop g fd c mp acts = dispatch_loop g fd (c\<lparr>c_buffer := db\<rparr>) mp' acts"
proof -
  let ?s = "unread (c_buffer c)"
  have n: "length p = unat (of_be (take 2 ?s) :: u16)"
    using assms(4,6) by (simp add: frame_def take_append_exact unat_of_nat_small)
  obtain sz db mp1 where rh: "databuffer_readheader (c_buffer c) mp 2 = Inr (sz, db, mp1)" "db_ok db"
    "if length ?s < 2 then sz = - 1 \<and> unread db = ?s \<and> buffer_ok db
     else if length ?s < length p + 2 then sz = - 1 \<and> unread db = ?s \<and> buffer_ok db
     else sz = int (length p) \<and> contents db = drop 2 ?s \<and> db_header db = int (length p)"
    using readheader_spec [OF assms(3) n, of mp] by blast
  then have r: "sz = int (length p)" "contents db = p @ s" using assms(4) by (simp_all add: frame_def)
  have f: "forward g (c\<lparr>c_buffer := db\<rparr>) mp1 (length p) = Inr ([], c\<lparr>c_buffer := db\<rparr>, mp1)"
    using assms(2) by (simp add: forward_def consumer_def)
  let ?db = "databuffer_reset db"
  have "dispatch_loop g fd c mp acts = dispatch_loop g fd (c\<lparr>c_buffer := ?db\<rparr>) mp1 acts"
    using rh(1) r(1) assms(1,5,6) f by (simp add: dispatch_loop.simps [of g fd c mp acts])
  moreover have "unread ?db = p @ s" using r(2) by (simp add: unread_def databuffer_reset_def)
  ultimately show ?thesis by blast
qed

theorem unclaimed_payload_read_as_headers_witness:
  "\<exists>db mp'. unread db = [0, 1] @ [] \<and>
    dispatch_loop (example_gate\<lparr>g_watchdog := 0\<rparr>)  9
      (no_connection\<lparr>c_buffer := \<lparr>db_header = 0, db_offset = 0, db_size = 4, db_messages = [[0, 2, 0, 1]]\<rparr>\<rparr>) (g_mp example_gate) [] =
    dispatch_loop (example_gate\<lparr>g_watchdog := 0\<rparr>) 9
      ((no_connection\<lparr>c_buffer := \<lparr>db_header = 0, db_offset = 0, db_size = 4, db_messages = [[0, 2, 0, 1]]\<rparr>\<rparr>)\<lparr>c_buffer := db\<rparr>) mp' []"
  by (rule unclaimed_payload_read_as_headers)
     (simp_all add: example_gate_def consumer_def no_connection_def buffer_ok_def db_ok_def contents_def unread_def
        frame_def be16_def byte_at_def)

end
