(* ===== verification/Seri.thy ===== *)
theory Seri
  imports Prelude
begin

text \<open>
  The serialisation of Lua values in which services send each other messages,
  \<open>src/3rd/skynet/lualib-src/lua-seri.c\<close>: \<open>pack\<close> writes into a chain of 128-byte blocks that is copied to one
  object at the end, \<open>unpack\<close> reads that object back.

  A Lua value is a tree. An integer and a double are their 64 bits. A table is its array part (the values
  of the fields 1 to \<open>lua_rawlen\<close>) and the key-value pairs in the order of \<open>lua_next\<close>, which come from the
  array part as well as from the rest; a table with the metamethod \<open>__pairs\<close> is the sequence of pairs that
  its iteration gives. \<open>Unsupported\<close> is a function, a thread or a full userdata. Unpacking gives a table as
  the values that \<open>lua_rawseti\<close> sets and the pairs that \<open>lua_rawset\<close> sets, in that order.

  The memory and the stack of the Lua state have no limit here: \<open>luaL_checkstack\<close> in \<open>unpack_table\<close> always
  succeeds, and so does the C stack, on which \<open>unpack_table\<close> and \<open>unpack_one\<close> call each other once per level
  of the message. A message with very many table headers in a row exhausts one of them in the program
  (\<open>seri_unpack_depth_unbounded\<close>). The length of a message fits a C \<open>int\<close>.

  The machine is little-endian (\<open>memcpy\<close> of an integer gives its bytes from the lowest one) with 64-bit
  pointers.
\<close>

datatype lua =
    Nil_v
  | Boolean bool
  | Integer u64
  | Real u64
  | Light u64
  | Str bytes
  | Table "lua list" "(lua \<times> lua) list"
  | Pairs "(lua \<times> lua) list"
  | Unsupported

definition TYPE_NIL :: nat where "TYPE_NIL = 0"
definition TYPE_BOOLEAN :: nat where "TYPE_BOOLEAN = 1"
definition TYPE_NUMBER :: nat where "TYPE_NUMBER = 2"
definition TYPE_USERDATA :: nat where "TYPE_USERDATA = 3"
definition TYPE_SHORT_STRING :: nat where "TYPE_SHORT_STRING = 4"
definition TYPE_LONG_STRING :: nat where "TYPE_LONG_STRING = 5"
definition TYPE_TABLE :: nat where "TYPE_TABLE = 6"
definition TYPE_NUMBER_ZERO :: nat where "TYPE_NUMBER_ZERO = 0"
definition TYPE_NUMBER_BYTE :: nat where "TYPE_NUMBER_BYTE = 1"
definition TYPE_NUMBER_WORD :: nat where "TYPE_NUMBER_WORD = 2"
definition TYPE_NUMBER_DWORD :: nat where "TYPE_NUMBER_DWORD = 4"
definition TYPE_NUMBER_QWORD :: nat where "TYPE_NUMBER_QWORD = 6"
definition TYPE_NUMBER_REAL :: nat where "TYPE_NUMBER_REAL = 8"
definition MAX_COOKIE :: nat where "MAX_COOKIE = 32"
definition BLOCK_SIZE :: nat where "BLOCK_SIZE = 128"
definition MAX_DEPTH :: nat where "MAX_DEPTH = 32"

named_theorems seri_consts

lemmas seri_const_defs [seri_consts] =
  TYPE_NIL_def TYPE_BOOLEAN_def TYPE_NUMBER_def TYPE_USERDATA_def TYPE_SHORT_STRING_def TYPE_LONG_STRING_def
  TYPE_TABLE_def TYPE_NUMBER_ZERO_def TYPE_NUMBER_BYTE_def TYPE_NUMBER_WORD_def TYPE_NUMBER_DWORD_def
  TYPE_NUMBER_QWORD_def TYPE_NUMBER_REAL_def MAX_COOKIE_def

definition COMBINE_TYPE :: "nat \<Rightarrow> int \<Rightarrow> byte" where
  "COMBINE_TYPE t v = of_nat t OR push_bit 3 (of_int v)"

section \<open>The blocks\<close>

text \<open>
  The chain of blocks from \<open>head\<close> to \<open>current\<close>, which is the last one.
\<close>

record write_block =
  wb_blocks :: "bytes list"
  wb_len :: nat
  wb_ptr :: nat

definition blk_alloc :: bytes where
  "blk_alloc = replicate BLOCK_SIZE 0"

definition wb_init :: write_block where
  "wb_init = \<lparr>wb_blocks = [blk_alloc], wb_len = 0, wb_ptr = 0\<rparr>"

text \<open>\<open>memcpy\<close> into the current block at \<open>ptr\<close>.\<close>

definition wb_copy :: "bytes \<Rightarrow> write_block \<Rightarrow> write_block res" where
  "wb_copy bs wb =
     bind_r (mem_write (last (wb_blocks wb)) (wb_ptr wb) bs) (\<lambda>blk.
       Inr (wb\<lparr>wb_blocks := butlast (wb_blocks wb) @ [blk], wb_len := wb_len wb + length bs,
               wb_ptr := wb_ptr wb + length bs\<rparr>))"

definition wb_next :: "write_block \<Rightarrow> write_block" where
  "wb_next wb = wb\<lparr>wb_blocks := wb_blocks wb @ [blk_alloc], wb_ptr := 0\<rparr>"

function wb_fill :: "write_block \<Rightarrow> bytes \<Rightarrow> write_block res" where
  "wb_fill wb buf =
     (if wb_ptr wb + length buf \<le> BLOCK_SIZE then wb_copy buf wb
      else
        (let copy = BLOCK_SIZE - wb_ptr wb in
         case wb_copy (take copy buf) wb of
           Inl e \<Rightarrow> Inl e
         | Inr wb \<Rightarrow> wb_fill (wb_next wb) (drop copy buf)))"
  by pat_completeness auto
termination
  by (relation "measure (\<lambda>(wb, buf). 2 * length buf + (if BLOCK_SIZE \<le> wb_ptr wb then 1 else 0))")
     (auto simp: wb_next_def BLOCK_SIZE_def)

declare wb_fill.simps [simp del]

definition wb_push :: "bytes \<Rightarrow> write_block \<Rightarrow> write_block res" where
  "wb_push buf wb = wb_fill (if wb_ptr wb = BLOCK_SIZE then wb_next wb else wb) buf"

text \<open>The copying loop of \<open>seri\<close>, over the chain of blocks.\<close>

fun seri_copy :: "bytes list \<Rightarrow> nat \<Rightarrow> bytes res" where
  "seri_copy [] len = (if len = 0 then Inr [] else Inl Out_of_bounds)"
| "seri_copy (b # bs) len =
     (if len = 0 then Inr []
      else if BLOCK_SIZE \<le> len
      then bind_r (mem_read b 0 BLOCK_SIZE) (\<lambda>x. bind_r (seri_copy bs (len - BLOCK_SIZE)) (\<lambda>y. Inr (x @ y)))
      else mem_read b 0 len)"

definition wb_ok :: "write_block \<Rightarrow> bool" where
  "wb_ok wb =
     (wb_blocks wb \<noteq> [] \<and> (\<forall>b \<in> set (wb_blocks wb). length b = BLOCK_SIZE) \<and> wb_ptr wb \<le> BLOCK_SIZE \<and>
      wb_len wb = (length (wb_blocks wb) - 1) * BLOCK_SIZE + wb_ptr wb)"

definition written :: "write_block \<Rightarrow> bytes" where
  "written wb = concat (butlast (wb_blocks wb)) @ take (wb_ptr wb) (last (wb_blocks wb))"

lemma wb_init_ok [simp]: "wb_ok wb_init" "written wb_init = []"
  by (simp_all add: wb_ok_def wb_init_def blk_alloc_def written_def)

lemma wb_copy_spec:
  assumes "wb_ok wb" "wb_ptr wb + length bs \<le> BLOCK_SIZE"
  shows "\<exists>wb'. wb_copy bs wb = Inr wb' \<and> wb_ok wb' \<and> written wb' = written wb @ bs \<and>
    wb_ptr wb' = wb_ptr wb + length bs"
proof -
  have l: "length (last (wb_blocks wb)) = BLOCK_SIZE" "wb_blocks wb \<noteq> []"
    using assms(1) by (simp_all add: wb_ok_def)
  let ?blk = "take (wb_ptr wb) (last (wb_blocks wb)) @ bs @ drop (wb_ptr wb + length bs) (last (wb_blocks wb))"
  have "wb_copy bs wb = Inr (wb\<lparr>wb_blocks := butlast (wb_blocks wb) @ [?blk], wb_len := wb_len wb + length bs,
               wb_ptr := wb_ptr wb + length bs\<rparr>)"
    using l assms(2) by (simp add: wb_copy_def mem_write_Inr)
  then show ?thesis
    using assms l by (auto simp: wb_ok_def written_def dest: in_set_butlastD)
qed

lemma wb_next_spec:
  assumes "wb_ok wb" "wb_ptr wb = BLOCK_SIZE"
  shows "wb_ok (wb_next wb) \<and> written (wb_next wb) = written wb \<and> wb_ptr (wb_next wb) = 0"
proof -
  have l: "length (last (wb_blocks wb)) = BLOCK_SIZE" "wb_blocks wb \<noteq> []"
    using assms(1) by (simp_all add: wb_ok_def)
  have "concat (wb_blocks wb) = concat (butlast (wb_blocks wb)) @ last (wb_blocks wb)"
    using l(2) by (metis append_butlast_last_id concat.simps concat_append append_Nil2)
  moreover have "length (wb_blocks wb) * BLOCK_SIZE = (length (wb_blocks wb) - 1) * BLOCK_SIZE + BLOCK_SIZE"
    using l(2) by (cases "wb_blocks wb") simp_all
  ultimately show ?thesis
    using assms l by (auto simp: wb_ok_def wb_next_def written_def blk_alloc_def)
qed

lemma wb_fill_spec:
  assumes "wb_ok wb"
  shows "\<exists>wb'. wb_fill wb buf = Inr wb' \<and> wb_ok wb' \<and> written wb' = written wb @ buf"
  using assms
proof (induction wb buf rule: wb_fill.induct)
  case (1 wb buf)
  show ?case
  proof (cases "wb_ptr wb + length buf \<le> BLOCK_SIZE")
    case True
    then show ?thesis using wb_copy_spec [OF 1(2) True] by (auto simp: wb_fill.simps [of wb buf])
  next
    case False
    let ?copy = "BLOCK_SIZE - wb_ptr wb"
    have p: "wb_ptr wb \<le> BLOCK_SIZE" using 1(2) by (simp add: wb_ok_def)
    then have "length (take ?copy buf) = ?copy" using False by simp
    then obtain wb1 where w: "wb_copy (take ?copy buf) wb = Inr wb1" "wb_ok wb1"
      "written wb1 = written wb @ take ?copy buf" "wb_ptr wb1 = BLOCK_SIZE"
      using wb_copy_spec [OF 1(2), of "take ?copy buf"] p by auto
    note n = wb_next_spec [OF w(2,4)]
    obtain wb' where "wb_fill (wb_next wb1) (drop ?copy buf) = Inr wb'" "wb_ok wb'"
      "written wb' = written (wb_next wb1) @ drop ?copy buf"
      using 1(1) [OF False refl w(1)] n by blast
    then show ?thesis using False w n by (simp add: wb_fill.simps [of wb buf] Let_def)
  qed
qed

lemma wb_push_spec:
  assumes "wb_ok wb"
  shows "\<exists>wb'. wb_push buf wb = Inr wb' \<and> wb_ok wb' \<and> written wb' = written wb @ buf"
proof -
  let ?wb = "if wb_ptr wb = BLOCK_SIZE then wb_next wb else wb"
  have "wb_ok ?wb" "written ?wb = written wb" using assms wb_next_spec by auto
  then show ?thesis using wb_fill_spec [of ?wb buf] by (simp add: wb_push_def)
qed

lemma seri_copy_spec:
  assumes "bs \<noteq> []" "\<forall>b \<in> set bs. length b = BLOCK_SIZE" "p \<le> BLOCK_SIZE"
  shows "seri_copy bs ((length bs - 1) * BLOCK_SIZE + p) = Inr (concat (butlast bs) @ take p (last bs))"
  using assms
proof (induction bs)
  case Nil
  then show ?case by simp
next
  case (Cons b bs)
  have pos: "0 < BLOCK_SIZE" by (simp add: BLOCK_SIZE_def)
  show ?case
  proof (cases "bs = []")
    case True
    then show ?thesis
      using Cons.prems pos by (cases "p = BLOCK_SIZE") (auto simp: mem_read_def)
  next
    case False
    then have e: "(length (b # bs) - 1) * BLOCK_SIZE + p = BLOCK_SIZE + ((length bs - 1) * BLOCK_SIZE + p)"
      by (cases bs) simp_all
    have "mem_read b 0 BLOCK_SIZE = Inr b" using Cons.prems(2) by (simp add: mem_read_def)
    then show ?thesis unfolding e using Cons False pos by simp
  qed
qed

lemma seri_copy_written: "wb_ok wb \<Longrightarrow> seri_copy (wb_blocks wb) (wb_len wb) = Inr (written wb)"
  using seri_copy_spec [of "wb_blocks wb" "wb_ptr wb"] by (simp add: wb_ok_def written_def)

section \<open>Packing\<close>

definition c_int :: "nat \<Rightarrow> int" where
  "c_int n = sint (of_nat n :: u32)"

definition wb_nil :: "write_block \<Rightarrow> write_block res" where
  "wb_nil wb = wb_push [of_nat TYPE_NIL] wb"

definition wb_boolean :: "bool \<Rightarrow> write_block \<Rightarrow> write_block res" where
  "wb_boolean b wb = wb_push [COMBINE_TYPE TYPE_BOOLEAN (if b then 1 else 0)] wb"

definition wb_integer :: "u64 \<Rightarrow> write_block \<Rightarrow> write_block res" where
  "wb_integer v wb =
     (if v = 0 then wb_push [COMBINE_TYPE TYPE_NUMBER (int TYPE_NUMBER_ZERO)] wb
      else if v \<noteq> scast (ucast v :: u32)
      then bind_r (wb_push [COMBINE_TYPE TYPE_NUMBER (int TYPE_NUMBER_QWORD)] wb) (wb_push (le64 v))
      else if sint v < 0
      then bind_r (wb_push [COMBINE_TYPE TYPE_NUMBER (int TYPE_NUMBER_DWORD)] wb) (wb_push (le32 (ucast v)))
      else if sint v < 0x100
      then bind_r (wb_push [COMBINE_TYPE TYPE_NUMBER (int TYPE_NUMBER_BYTE)] wb) (wb_push [ucast v])
      else if sint v < 0x10000
      then bind_r (wb_push [COMBINE_TYPE TYPE_NUMBER (int TYPE_NUMBER_WORD)] wb) (wb_push (le16 (ucast v)))
      else bind_r (wb_push [COMBINE_TYPE TYPE_NUMBER (int TYPE_NUMBER_DWORD)] wb) (wb_push (le32 (ucast v))))"

definition wb_real :: "u64 \<Rightarrow> write_block \<Rightarrow> write_block res" where
  "wb_real v wb =
     bind_r (wb_push [COMBINE_TYPE TYPE_NUMBER (int TYPE_NUMBER_REAL)] wb) (wb_push (le64 v))"

definition wb_pointer :: "u64 \<Rightarrow> write_block \<Rightarrow> write_block res" where
  "wb_pointer v wb = bind_r (wb_push [of_nat TYPE_USERDATA] wb) (wb_push (le64 v))"

text \<open>The length is a C \<open>int\<close>, to which \<open>pack_one\<close> casts the \<open>size_t\<close> of the string.\<close>

definition wb_string :: "bytes \<Rightarrow> int \<Rightarrow> write_block \<Rightarrow> write_block res" where
  "wb_string str len wb =
     (if len < int MAX_COOKIE
      then bind_r (wb_push [COMBINE_TYPE TYPE_SHORT_STRING len] wb) (\<lambda>wb.
             if 0 < len then wb_push (take (nat len) str) wb else Inr wb)
      else bind_r
             (if len < 0x10000
              then bind_r (wb_push [COMBINE_TYPE TYPE_LONG_STRING 2] wb) (wb_push (le16 (of_int len)))
              else bind_r (wb_push [COMBINE_TYPE TYPE_LONG_STRING 4] wb) (wb_push (le32 (of_int len))))
             (wb_push (take (nat len) str)))"

text \<open>
  The fields that \<open>wb_table_hash\<close> passes over: the integer keys of the array part.
\<close>

definition in_array :: "nat \<Rightarrow> lua \<Rightarrow> bool" where
  "in_array n k = (case k of Integer x \<Rightarrow> 0 < sint x \<and> sint x \<le> int n | _ \<Rightarrow> False)"

definition wb_table_header :: "nat \<Rightarrow> write_block \<Rightarrow> write_block res" where
  "wb_table_header n wb =
     (if MAX_COOKIE - 1 \<le> n
      then bind_r (wb_push [COMBINE_TYPE TYPE_TABLE (int MAX_COOKIE - 1)] wb) (wb_integer (of_nat n))
      else wb_push [COMBINE_TYPE TYPE_TABLE (int n)] wb)"

text \<open>
  \<open>wb_array\<close>, \<open>wb_hash\<close> and \<open>wb_metapairs\<close> are the loops of \<open>wb_table_array\<close>, \<open>wb_table_hash\<close> and
  \<open>wb_table_metapairs\<close>; the last one ends at a key that is nil.
\<close>

function (sequential) pack_one :: "lua \<Rightarrow> nat \<Rightarrow> write_block \<Rightarrow> write_block res"
  and wb_array :: "lua list \<Rightarrow> nat \<Rightarrow> write_block \<Rightarrow> write_block res"
  and wb_hash :: "nat \<Rightarrow> (lua \<times> lua) list \<Rightarrow> nat \<Rightarrow> write_block \<Rightarrow> write_block res"
  and wb_metapairs :: "(lua \<times> lua) list \<Rightarrow> nat \<Rightarrow> write_block \<Rightarrow> write_block res" where
  "pack_one v depth wb =
     (if MAX_DEPTH < depth then Inl (Lua_error ''serialize can't pack too depth table'')
      else case v of
        Nil_v \<Rightarrow> wb_nil wb
      | Boolean b \<Rightarrow> wb_boolean b wb
      | Integer x \<Rightarrow> wb_integer x wb
      | Real x \<Rightarrow> wb_real x wb
      | Light p \<Rightarrow> wb_pointer p wb
      | Str s \<Rightarrow> wb_string s (c_int (length s)) wb
      | Table xs kvs \<Rightarrow>
          bind_r (wb_table_header (length xs) wb) (\<lambda>wb.
            bind_r (wb_array xs (depth + 1) wb) (\<lambda>wb.
              bind_r (wb_hash (length xs) kvs (depth + 1) wb) wb_nil))
      | Pairs kvs \<Rightarrow>
          bind_r (wb_push [COMBINE_TYPE TYPE_TABLE 0] wb) (\<lambda>wb.
            bind_r (wb_metapairs kvs (depth + 1) wb) wb_nil)
      | Unsupported \<Rightarrow> Inl (Lua_error ''Unsupport type to serialize''))"
| "wb_array [] depth wb = Inr wb"
| "wb_array (v # vs) depth wb = bind_r (pack_one v depth wb) (wb_array vs depth)"
| "wb_hash n [] depth wb = Inr wb"
| "wb_hash n ((k, v) # kvs) depth wb =
     (if in_array n k then wb_hash n kvs depth wb
      else bind_r (pack_one k depth wb) (\<lambda>wb. bind_r (pack_one v depth wb) (wb_hash n kvs depth)))"
| "wb_metapairs [] depth wb = Inr wb"
| "wb_metapairs ((k, v) # kvs) depth wb =
     (if k = Nil_v then Inr wb
      else bind_r (pack_one k depth wb) (\<lambda>wb. bind_r (pack_one v depth wb) (wb_metapairs kvs depth)))"
  by pat_completeness auto
termination
  by (relation "measure (case_sum
       (case_sum (\<lambda>(v, _). size v) (\<lambda>(vs, _). size_list size vs))
       (case_sum (\<lambda>(_, kvs, _). size_list (size_prod size size) kvs)
                 (\<lambda>(kvs, _). size_list (size_prod size size) kvs)))") auto

fun pack_from :: "lua list \<Rightarrow> write_block \<Rightarrow> write_block res" where
  "pack_from [] wb = Inr wb"
| "pack_from (v # vs) wb = bind_r (pack_one v 0 wb) (pack_from vs)"

definition luaseri_pack :: "lua list \<Rightarrow> bytes res" where
  "luaseri_pack vs = bind_r (pack_from vs wb_init) (\<lambda>wb. seri_copy (wb_blocks wb) (wb_len wb))"

section \<open>Unpacking\<close>

record read_block =
  rb_buffer :: bytes
  rb_len :: int
  rb_ptr :: int

definition rball_init :: "bytes \<Rightarrow> int \<Rightarrow> read_block" where
  "rball_init buffer sz = \<lparr>rb_buffer = buffer, rb_len = sz, rb_ptr = 0\<rparr>"

text \<open>The result is the offset of the pointer, \<open>None\<close> for \<open>NULL\<close>.\<close>

definition rb_read :: "read_block \<Rightarrow> int \<Rightarrow> (int \<times> read_block) option" where
  "rb_read rb sz =
     (if rb_len rb < sz then None
      else Some (rb_ptr rb, rb\<lparr>rb_ptr := rb_ptr rb + sz, rb_len := rb_len rb - sz\<rparr>))"

text \<open>The numbers that the message goes on with, the rest of the input and the source line, are left out.\<close>

definition invalid_stream :: "read_block \<Rightarrow> 'a res" where
  "invalid_stream rb = Inl (Lua_error ''Invalid serialize stream'')"

text \<open>\<open>rb_read\<close>, the check for \<open>NULL\<close> and the \<open>memcpy\<close>, which the readers all do in this order.\<close>

definition rb_get :: "read_block \<Rightarrow> nat \<Rightarrow> (bytes \<times> read_block) res" where
  "rb_get rb n =
     (case rb_read rb (int n) of
        None \<Rightarrow> invalid_stream rb
      | Some (p, rb') \<Rightarrow> bind_r (mem_read (rb_buffer rb) (nat p) n) (\<lambda>bs. Inr (bs, rb')))"

definition get_integer :: "read_block \<Rightarrow> nat \<Rightarrow> (u64 \<times> read_block) res" where
  "get_integer rb cookie =
     (if cookie = TYPE_NUMBER_ZERO then Inr (0, rb)
      else if cookie = TYPE_NUMBER_BYTE
      then bind_r (rb_get rb 1) (\<lambda>(bs, rb). Inr (ucast (of_le bs :: byte), rb))
      else if cookie = TYPE_NUMBER_WORD
      then bind_r (rb_get rb 2) (\<lambda>(bs, rb). Inr (ucast (of_le bs :: u16), rb))
      else if cookie = TYPE_NUMBER_DWORD
      then bind_r (rb_get rb 4) (\<lambda>(bs, rb). Inr (scast (of_le bs :: u32), rb))
      else if cookie = TYPE_NUMBER_QWORD
      then bind_r (rb_get rb 8) (\<lambda>(bs, rb). Inr (of_le bs, rb))
      else invalid_stream rb)"

definition get_real :: "read_block \<Rightarrow> (u64 \<times> read_block) res" where
  "get_real rb = bind_r (rb_get rb 8) (\<lambda>(bs, rb). Inr (of_le bs, rb))"

definition get_pointer :: "read_block \<Rightarrow> (u64 \<times> read_block) res" where
  "get_pointer rb = bind_r (rb_get rb 8) (\<lambda>(bs, rb). Inr (of_le bs, rb))"

text \<open>
  A negative length passes the check of \<open>rb_read\<close>; \<open>lua_pushlstring\<close> takes it as a \<open>size_t\<close> and raises.
\<close>

definition get_buffer :: "read_block \<Rightarrow> int \<Rightarrow> (bytes \<times> read_block) res" where
  "get_buffer rb len =
     (case rb_read rb len of
        None \<Rightarrow> invalid_stream rb
      | Some (p, rb') \<Rightarrow>
          if len < 0 then Inl (Lua_error ''memory allocation error: block too big'')
          else bind_r (mem_read (rb_buffer rb) (nat p) (nat len)) (\<lambda>bs. Inr (bs, rb')))"

text \<open>A double whose exponent bits are all set and whose fraction is not zero is not a number.\<close>

definition is_nan :: "u64 \<Rightarrow> bool" where
  "is_nan w = (drop_bit 52 w AND 0x7ff = 0x7ff \<and> w AND 0xfffffffffffff \<noteq> 0)"

definition lua_rawset_ok :: "lua \<Rightarrow> bool" where
  "lua_rawset_ok k = (case k of Real w \<Rightarrow> \<not> is_nan w | _ \<Rightarrow> True)"

definition get_array_size :: "read_block \<Rightarrow> nat \<Rightarrow> (int \<times> read_block) res" where
  "get_array_size rb array_size =
     (if array_size = MAX_COOKIE - 1
      then bind_r (rb_get rb 1) (\<lambda>(t, rb).
             let type = hd t; cookie = unat (drop_bit 3 type) in
             if unat (type AND 7) \<noteq> TYPE_NUMBER \<or> cookie = TYPE_NUMBER_REAL then invalid_stream rb
             else bind_r (get_integer rb cookie) (\<lambda>(n, rb). Inr (sint (ucast n :: u32), rb)))
      else Inr (int array_size, rb))"

text \<open>
  The recursion is over a fuel, which every call uses up one of; \<open>Diverges\<close> is its end.
\<close>

fun unpack_one :: "nat \<Rightarrow> read_block \<Rightarrow> (lua \<times> read_block) res"
  and push_value :: "nat \<Rightarrow> read_block \<Rightarrow> nat \<Rightarrow> nat \<Rightarrow> (lua \<times> read_block) res"
  and unpack_table :: "nat \<Rightarrow> read_block \<Rightarrow> nat \<Rightarrow> (lua \<times> read_block) res"
  and unpack_array :: "nat \<Rightarrow> read_block \<Rightarrow> int \<Rightarrow> (lua list \<times> read_block) res"
  and unpack_hash :: "nat \<Rightarrow> read_block \<Rightarrow> ((lua \<times> lua) list \<times> read_block) res" where
  "unpack_one 0 rb = Inl Diverges"
| "unpack_one (Suc fuel) rb =
     bind_r (rb_get rb 1) (\<lambda>(t, rb).
       push_value fuel rb (unat (hd t AND 7)) (unat (drop_bit 3 (hd t))))"
| "push_value 0 rb type cookie = Inl Diverges"
| "push_value (Suc fuel) rb type cookie =
     (if type = TYPE_NIL then Inr (Nil_v, rb)
      else if type = TYPE_BOOLEAN then Inr (Boolean (cookie \<noteq> 0), rb)
      else if type = TYPE_NUMBER
      then if cookie = TYPE_NUMBER_REAL then bind_r (get_real rb) (\<lambda>(x, rb). Inr (Real x, rb))
           else bind_r (get_integer rb cookie) (\<lambda>(x, rb). Inr (Integer x, rb))
      else if type = TYPE_USERDATA then bind_r (get_pointer rb) (\<lambda>(x, rb). Inr (Light x, rb))
      else if type = TYPE_SHORT_STRING then bind_r (get_buffer rb (int cookie)) (\<lambda>(s, rb). Inr (Str s, rb))
      else if type = TYPE_LONG_STRING
      then if cookie = 2
           then bind_r (rb_get rb 2) (\<lambda>(n, rb).
                  bind_r (get_buffer rb (uint (of_le n :: u16))) (\<lambda>(s, rb). Inr (Str s, rb)))
           else if cookie \<noteq> 4 then invalid_stream rb
           else bind_r (rb_get rb 4) (\<lambda>(n, rb).
                  bind_r (get_buffer rb (sint (of_le n :: u32))) (\<lambda>(s, rb). Inr (Str s, rb)))
      else if type = TYPE_TABLE then unpack_table fuel rb cookie
      else invalid_stream rb)"
| "unpack_table 0 rb array_size = Inl Diverges"
| "unpack_table (Suc fuel) rb array_size =
     bind_r (get_array_size rb array_size) (\<lambda>(n, rb).
       bind_r (unpack_array fuel rb n) (\<lambda>(xs, rb).
         bind_r (unpack_hash fuel rb) (\<lambda>(kvs, rb). Inr (Table xs kvs, rb))))"
| "unpack_array 0 rb n = Inl Diverges"
| "unpack_array (Suc fuel) rb n =
     (if n \<le> 0 then Inr ([], rb)
      else bind_r (unpack_one fuel rb) (\<lambda>(v, rb).
             bind_r (unpack_array fuel rb (n - 1)) (\<lambda>(vs, rb). Inr (v # vs, rb))))"
| "unpack_hash 0 rb = Inl Diverges"
| "unpack_hash (Suc fuel) rb =
     bind_r (unpack_one fuel rb) (\<lambda>(k, rb).
       if k = Nil_v then Inr ([], rb)
       else bind_r (unpack_one fuel rb) (\<lambda>(v, rb).
              if lua_rawset_ok k
              then bind_r (unpack_hash fuel rb) (\<lambda>(kvs, rb). Inr ((k, v) # kvs, rb))
              else Inl (Lua_error ''table index is NaN'')))"

text \<open>The loop of \<open>luaseri_unpack\<close>.\<close>

fun unpack_loop :: "nat \<Rightarrow> nat \<Rightarrow> read_block \<Rightarrow> lua list res" where
  "unpack_loop 0 fuel rb = Inl Diverges"
| "unpack_loop (Suc n) fuel rb =
     (case rb_read rb 1 of
        None \<Rightarrow> Inr []
      | Some (p, rb') \<Rightarrow>
          bind_r (mem_read (rb_buffer rb) (nat p) 1) (\<lambda>t.
            bind_r (push_value fuel rb' (unat (hd t AND 7)) (unat (drop_bit 3 (hd t)))) (\<lambda>(v, rb).
              bind_r (unpack_loop n fuel rb) (\<lambda>vs. Inr (v # vs)))))"

text \<open>
  The argument is nothing or nil, a string, or a pointer and a length. A value is unpacked from four
  units of fuel per byte and four more.
\<close>

datatype seri_arg = No_arg | Msg_string bytes | Msg_ptr "bytes option" int

definition unpack_buffer :: "bytes \<Rightarrow> int \<Rightarrow> lua list res" where
  "unpack_buffer buffer len = unpack_loop (nat len + 1) (4 * nat len + 4) (rball_init buffer len)"

definition luaseri_unpack :: "seri_arg \<Rightarrow> lua list res" where
  "luaseri_unpack arg =
     (case arg of
        No_arg \<Rightarrow> Inr []
      | Msg_string s \<Rightarrow> if c_int (length s) = 0 then Inr [] else unpack_buffer s (c_int (length s))
      | Msg_ptr buffer len \<Rightarrow>
          if len = 0 then Inr []
          else case buffer of
            None \<Rightarrow> Inl (Lua_error ''deserialize null pointer'')
          | Some b \<Rightarrow> unpack_buffer b len)"

section \<open>What packing writes\<close>

text \<open>The format: the bytes of each value, which are the reference for both directions.\<close>

definition enc_integer :: "u64 \<Rightarrow> bytes" where
  "enc_integer v =
     (if v = 0 then [COMBINE_TYPE TYPE_NUMBER 0]
      else if v \<noteq> scast (ucast v :: u32) then COMBINE_TYPE TYPE_NUMBER 6 # le64 v
      else if sint v < 0 then COMBINE_TYPE TYPE_NUMBER 4 # le32 (ucast v)
      else if sint v < 0x100 then [COMBINE_TYPE TYPE_NUMBER 1, ucast v]
      else if sint v < 0x10000 then COMBINE_TYPE TYPE_NUMBER 2 # le16 (ucast v)
      else COMBINE_TYPE TYPE_NUMBER 4 # le32 (ucast v))"

definition enc_string :: "bytes \<Rightarrow> bytes" where
  "enc_string s =
     (if length s < 32 then COMBINE_TYPE TYPE_SHORT_STRING (int (length s)) # s
      else if length s < 0x10000
      then COMBINE_TYPE TYPE_LONG_STRING 2 # le16 (of_nat (length s)) @ s
      else COMBINE_TYPE TYPE_LONG_STRING 4 # le32 (of_nat (length s)) @ s)"

definition enc_header :: "nat \<Rightarrow> bytes" where
  "enc_header n =
     (if n < 31 then [COMBINE_TYPE TYPE_TABLE (int n)]
      else COMBINE_TYPE TYPE_TABLE 31 # enc_integer (of_nat n))"

function (sequential) enc :: "lua \<Rightarrow> bytes"
  and enc_array :: "lua list \<Rightarrow> bytes"
  and enc_hash :: "nat \<Rightarrow> (lua \<times> lua) list \<Rightarrow> bytes"
  and enc_pairs :: "(lua \<times> lua) list \<Rightarrow> bytes" where
  "enc Nil_v = [0]"
| "enc (Boolean b) = [COMBINE_TYPE TYPE_BOOLEAN (if b then 1 else 0)]"
| "enc (Integer x) = enc_integer x"
| "enc (Real x) = COMBINE_TYPE TYPE_NUMBER 8 # le64 x"
| "enc (Light p) = 3 # le64 p"
| "enc (Str s) = enc_string s"
| "enc (Table xs kvs) = enc_header (length xs) @ enc_array xs @ enc_hash (length xs) kvs @ [0]"
| "enc (Pairs kvs) = COMBINE_TYPE TYPE_TABLE 0 # enc_pairs kvs @ [0]"
| "enc Unsupported = []"
| "enc_array [] = []"
| "enc_array (v # vs) = enc v @ enc_array vs"
| "enc_hash n [] = []"
| "enc_hash n ((k, v) # kvs) = (if in_array n k then [] else enc k @ enc v) @ enc_hash n kvs"
| "enc_pairs [] = []"
| "enc_pairs ((k, v) # kvs) = (if k = Nil_v then [] else enc k @ enc v @ enc_pairs kvs)"
  by pat_completeness auto
termination
  by (relation "measure (case_sum
       (case_sum size (size_list size))
       (case_sum (\<lambda>(_, kvs). size_list (size_prod size size) kvs) (size_list (size_prod size size))))")
     auto

text \<open>
  A value can be packed when it is supported and its tables are nested at most \<open>MAX_DEPTH\<close> deep.
\<close>

function (sequential) packable :: "nat \<Rightarrow> lua \<Rightarrow> bool"
  and packable_array :: "nat \<Rightarrow> lua list \<Rightarrow> bool"
  and packable_hash :: "nat \<Rightarrow> nat \<Rightarrow> (lua \<times> lua) list \<Rightarrow> bool"
  and packable_pairs :: "nat \<Rightarrow> (lua \<times> lua) list \<Rightarrow> bool" where
  "packable d v =
     (d \<le> MAX_DEPTH \<and>
      (case v of
         Table xs kvs \<Rightarrow> packable_array (d + 1) xs \<and> packable_hash (d + 1) (length xs) kvs
       | Pairs kvs \<Rightarrow> packable_pairs (d + 1) kvs
       | Unsupported \<Rightarrow> False
       | _ \<Rightarrow> True))"
| "packable_array d [] = True"
| "packable_array d (v # vs) = (packable d v \<and> packable_array d vs)"
| "packable_hash d n [] = True"
| "packable_hash d n ((k, v) # kvs) =
     ((in_array n k \<or> packable d k \<and> packable d v) \<and> packable_hash d n kvs)"
| "packable_pairs d [] = True"
| "packable_pairs d ((k, v) # kvs) =
     (k = Nil_v \<or> packable d k \<and> packable d v \<and> packable_pairs d kvs)"
  by pat_completeness auto
termination
  by (relation "measure (case_sum
       (case_sum (\<lambda>(_, v). size v) (\<lambda>(_, vs). size_list size vs))
       (case_sum (\<lambda>(_, _, kvs). size_list (size_prod size size) kvs)
                 (\<lambda>(_, kvs). size_list (size_prod size size) kvs)))") auto

text \<open>
  The sizes fit a C \<open>int\<close>.
\<close>

function (sequential) sizes_ok :: "lua \<Rightarrow> bool"
  and sizes_ok_pairs :: "(lua \<times> lua) list \<Rightarrow> bool" where
  "sizes_ok (Str s) = (length s < 2 ^ 31)"
| "sizes_ok (Table xs kvs) = (length xs < 2 ^ 31 \<and> (\<forall>x \<in> set xs. sizes_ok x) \<and> sizes_ok_pairs kvs)"
| "sizes_ok (Pairs kvs) = sizes_ok_pairs kvs"
| "sizes_ok v = True"
| "sizes_ok_pairs [] = True"
| "sizes_ok_pairs ((k, v) # kvs) = (sizes_ok k \<and> sizes_ok v \<and> sizes_ok_pairs kvs)"
  by pat_completeness auto
termination
  by (relation "measure (case_sum size (size_list (size_prod size size)))")
     (auto dest: size_list_estimation' [where f = size, OF _ order_refl] simp: less_Suc_eq_le trans_le_add1)

text \<open>
  What a step of packing does: it appends \<open>bs\<close> to what is written, or raises a Lua error.
\<close>

definition pack_outcome :: "bool \<Rightarrow> write_block res \<Rightarrow> write_block \<Rightarrow> bytes \<Rightarrow> bool" where
  "pack_outcome ok m wb bs =
     (if ok then \<exists>wb'. m = Inr wb' \<and> wb_ok wb' \<and> written wb' = written wb @ bs
      else \<exists>e. m = Inl (Lua_error e))"

lemma pack_outcome_push [intro]: "wb_ok wb \<Longrightarrow> pack_outcome True (wb_push bs wb) wb bs"
  using wb_push_spec [of wb bs] by (simp add: pack_outcome_def)

lemma pack_outcome_done [intro]: "wb_ok wb \<Longrightarrow> pack_outcome True (Inr wb) wb []"
  by (simp add: pack_outcome_def)

lemma pack_outcome_error [intro]: "pack_outcome False (Inl (Lua_error e)) wb bs"
  by (simp add: pack_outcome_def)

lemma pack_outcome_bind:
  assumes "pack_outcome a m wb x"
    and "\<And>wb'. m = Inr wb' \<Longrightarrow> wb_ok wb' \<Longrightarrow> pack_outcome b (k wb') wb' y"
  shows "pack_outcome (a \<and> b) (bind_r m k) wb (x @ y)"
proof (cases a)
  case True
  then obtain wb' where w: "m = Inr wb'" "wb_ok wb'" "written wb' = written wb @ x"
    using assms(1) by (auto simp: pack_outcome_def)
  then show ?thesis using assms(2) [OF w(1,2)] True by (auto simp: pack_outcome_def)
qed (use assms(1) in \<open>auto simp: pack_outcome_def\<close>)

lemma pack_outcome_two:
  "wb_ok wb \<Longrightarrow> pack_outcome True (bind_r (wb_push x wb) (wb_push y)) wb (x @ y)"
  using pack_outcome_bind [of True "wb_push x wb" wb x True "wb_push y" y] by auto

lemma c_int_small: "n < 2 ^ 31 \<Longrightarrow> c_int n = int n"
  by (simp add: c_int_def sint_small unat_of_nat_small)

lemma pack_nil: "wb_ok wb \<Longrightarrow> pack_outcome True (wb_nil wb) wb [0]"
  using pack_outcome_push [of wb "[0]"] by (simp add: wb_nil_def TYPE_NIL_def)

lemma pack_integer: "wb_ok wb \<Longrightarrow> pack_outcome True (wb_integer x wb) wb (enc_integer x)"
  using pack_outcome_two [of wb "[COMBINE_TYPE TYPE_NUMBER 6]" "le64 x"]
    pack_outcome_two [of wb "[COMBINE_TYPE TYPE_NUMBER 4]" "le32 (ucast x)"]
    pack_outcome_two [of wb "[COMBINE_TYPE TYPE_NUMBER 2]" "le16 (ucast x)"]
    pack_outcome_two [of wb "[COMBINE_TYPE TYPE_NUMBER 1]" "[ucast x]"]
    pack_outcome_push [of wb "[COMBINE_TYPE TYPE_NUMBER 0]"]
  by (simp add: wb_integer_def enc_integer_def seri_consts [symmetric]) 
     (simp add: TYPE_NUMBER_ZERO_def TYPE_NUMBER_BYTE_def TYPE_NUMBER_WORD_def TYPE_NUMBER_DWORD_def
        TYPE_NUMBER_QWORD_def)

lemma pack_string:
  assumes "wb_ok wb" "length s < 2 ^ 31"
  shows "pack_outcome True (wb_string s (c_int (length s)) wb) wb (enc_string s)"
proof -
  let ?p = "\<lambda>x y. pack_outcome True (bind_r (wb_push x wb) (wb_push y)) wb (x @ y)"
  have short: "pack_outcome True (bind_r (wb_push x wb) (\<lambda>wb. if s \<noteq> [] then wb_push s wb else Inr wb)) wb (x @ s)"
    for x
    using pack_outcome_bind [of True "wb_push x wb" wb x True "\<lambda>wb. if s \<noteq> [] then wb_push s wb else Inr wb" s]
      assms(1) by (cases "s = []") auto
  have long: "pack_outcome True (bind_r (bind_r (wb_push x wb) (wb_push y)) (wb_push s)) wb ((x @ y) @ s)" for x y
    using pack_outcome_bind [of True "bind_r (wb_push x wb) (wb_push y)" wb "x @ y" True "wb_push s" s]
      pack_outcome_two [OF assms(1)] by auto
  show ?thesis
    using short [of "[COMBINE_TYPE TYPE_SHORT_STRING (int (length s))]"]
      long [of "[COMBINE_TYPE TYPE_LONG_STRING 2]" "le16 (of_nat (length s))"]
      long [of "[COMBINE_TYPE TYPE_LONG_STRING 4]" "le32 (of_nat (length s))"]
    by (simp add: wb_string_def enc_string_def c_int_small [OF assms(2)] MAX_COOKIE_def cong: if_cong)
qed

lemma pack_header:
  assumes "wb_ok wb"
  shows "pack_outcome True (wb_table_header n wb) wb (enc_header n)"
  using pack_outcome_push [OF assms, of "[COMBINE_TYPE TYPE_TABLE (int n)]"]
    pack_outcome_bind [of True "wb_push [COMBINE_TYPE TYPE_TABLE 31] wb" wb "[COMBINE_TYPE TYPE_TABLE 31]" True
      "wb_integer (of_nat n)" "enc_integer (of_nat n)"]
    pack_integer pack_outcome_push [OF assms, of "[COMBINE_TYPE TYPE_TABLE 31]"]
  by (simp add: wb_table_header_def enc_header_def MAX_COOKIE_def)

lemma pack_spec:
  "wb_ok wb \<Longrightarrow> sizes_ok v \<Longrightarrow> pack_outcome (packable d v) (pack_one v d wb) wb (enc v)"
  "wb_ok wb \<Longrightarrow> \<forall>x \<in> set vs. sizes_ok x \<Longrightarrow>
     pack_outcome (packable_array d vs) (wb_array vs d wb) wb (enc_array vs)"
  "wb_ok wb \<Longrightarrow> sizes_ok_pairs kvs \<Longrightarrow>
     pack_outcome (packable_hash d n kvs) (wb_hash n kvs d wb) wb (enc_hash n kvs)"
  "wb_ok wb \<Longrightarrow> sizes_ok_pairs kvs \<Longrightarrow>
     pack_outcome (packable_pairs d kvs) (wb_metapairs kvs d wb) wb (enc_pairs kvs)"
proof (induction v d wb and vs d wb and n kvs d wb and kvs d wb
    rule: pack_one_wb_array_wb_hash_wb_metapairs.induct)
  case (1 v d wb)
  show ?case
  proof (cases "MAX_DEPTH < d")
    case True
    then show ?thesis by (simp add: pack_outcome_def)
  next
    case False
    note p = pack_outcome_two [OF 1(4)]
    show ?thesis
    proof (cases v)
      case (Table xs kvs)
      have "pack_outcome (True \<and> packable_array (d + 1) xs \<and> packable_hash (d + 1) (length xs) kvs \<and> True)
        (bind_r (wb_table_header (length xs) wb) (\<lambda>wb. bind_r (wb_array xs (d + 1) wb) (\<lambda>wb.
           bind_r (wb_hash (length xs) kvs (d + 1) wb) wb_nil))) wb
        (enc_header (length xs) @ enc_array xs @ enc_hash (length xs) kvs @ [0])"
        using 1(5) False Table
        by (intro pack_outcome_bind pack_header pack_nil 1(1,2)) (auto simp: 1(4))
      then show ?thesis using False Table by simp
    next
      case (Pairs kvs)
      have "pack_outcome (True \<and> packable_pairs (d + 1) kvs \<and> True)
        (bind_r (wb_push [COMBINE_TYPE TYPE_TABLE 0] wb) (\<lambda>wb.
            bind_r (wb_metapairs kvs (d + 1) wb) wb_nil)) wb ([COMBINE_TYPE TYPE_TABLE 0] @ enc_pairs kvs @ [0])"
        using 1(5) False Pairs
        by (intro pack_outcome_bind pack_outcome_push pack_nil 1(3)) (auto simp: 1(4))
      then show ?thesis using False Pairs by simp
    next
      case (Real x)
      then show ?thesis using False p [of "[COMBINE_TYPE TYPE_NUMBER 8]" "le64 x"]
        by (simp add: wb_real_def TYPE_NUMBER_REAL_def)
    next
      case (Light x)
      then show ?thesis using False p [of "[3]" "le64 x"] by (simp add: wb_pointer_def TYPE_USERDATA_def)
    next
      case (Boolean b)
      then show ?thesis using False 1(4) by (auto simp: wb_boolean_def)
    next
      case Unsupported
      then show ?thesis using False by (auto simp: pack_outcome_def)
    qed (use False 1(4,5) pack_nil pack_integer pack_string in auto)
  qed
next
  case (3 v vs d wb)
  then show ?case by (auto intro!: pack_outcome_bind)
next
  case (5 n k v kvs d wb)
  show ?case
  proof (cases "in_array n k")
    case False
    have "pack_outcome (packable d k \<and> packable d v \<and> packable_hash d n kvs)
       (bind_r (pack_one k d wb) (\<lambda>wb. bind_r (pack_one v d wb) (wb_hash n kvs d))) wb
       (enc k @ enc v @ enc_hash n kvs)"
      using 5 False by (intro pack_outcome_bind) auto
    then show ?thesis using False by simp
  qed (use 5 in simp)
next
  case (7 k v kvs d wb)
  show ?case
  proof (cases "k = Nil_v")
    case False
    have "pack_outcome (packable d k \<and> packable d v \<and> packable_pairs d kvs)
       (bind_r (pack_one k d wb) (\<lambda>wb. bind_r (pack_one v d wb) (wb_metapairs kvs d))) wb
       (enc k @ enc v @ enc_pairs kvs)"
      using 7 False by (intro pack_outcome_bind) auto
    then show ?thesis using False by simp
  qed (use 7 in auto)
qed auto

lemma pack_from_spec:
  "wb_ok wb \<Longrightarrow> \<forall>x \<in> set vs. sizes_ok x \<Longrightarrow>
     pack_outcome (packable_array 0 vs) (pack_from vs wb) wb (enc_array vs)"
proof (induction vs arbitrary: wb)
  case (Cons v vs)
  have "pack_outcome (packable 0 v \<and> packable_array 0 vs) (bind_r (pack_one v 0 wb) (pack_from vs)) wb
     (enc v @ enc_array vs)"
    using Cons by (intro pack_outcome_bind pack_spec(1)) auto
  then show ?case by simp
qed auto

lemma luaseri_pack_spec:
  assumes "\<forall>v \<in> set vs. sizes_ok v"
  shows "if packable_array 0 vs then luaseri_pack vs = Inr (enc_array vs)
         else \<exists>e. luaseri_pack vs = Inl (Lua_error e)"
  using pack_from_spec [OF _ assms, of wb_init]
  by (auto simp: luaseri_pack_def pack_outcome_def seri_copy_written)

section \<open>What unpacking reads\<close>

text \<open>The reader stands before the bytes \<open>s\<close> of its buffer.\<close>

definition rb_at :: "read_block \<Rightarrow> bytes \<Rightarrow> bool" where
  "rb_at rb s =
     (0 \<le> rb_ptr rb \<and> 0 \<le> rb_len rb \<and> rb_ptr rb + rb_len rb \<le> int (length (rb_buffer rb)) \<and>
      s = take (nat (rb_len rb)) (drop (nat (rb_ptr rb)) (rb_buffer rb)))"

lemma rb_at_length: "rb_at rb s \<Longrightarrow> rb_len rb = int (length s)"
  by (auto simp: rb_at_def)

lemma rb_at_init: "0 \<le> len \<Longrightarrow> len \<le> int (length buf) \<Longrightarrow> rb_at (rball_init buf len) (take (nat len) buf)"
  by (simp add: rb_at_def rball_init_def)

lemma rb_at_read:
  assumes "rb_at rb s" "n \<le> length s"
  shows "\<exists>rb'. rb_read rb (int n) = Some (rb_ptr rb, rb') \<and> rb_at rb' (drop n s) \<and>
    mem_read (rb_buffer rb) (nat (rb_ptr rb)) n = Inr (take n s)"
proof -
  note r = assms(1) [unfolded rb_at_def]
  have l: "n \<le> nat (rb_len rb)" using assms rb_at_length [OF assms(1)] by simp
  then have "nat (rb_len rb - int n) = nat (rb_len rb) - n" "nat (rb_ptr rb + int n) = n + nat (rb_ptr rb)"
    using r by linarith+
  then show ?thesis
    using r l by (auto simp: rb_read_def rb_at_def mem_read_def drop_take drop_drop min_absorb1)
qed

lemma rb_get_spec:
  assumes "rb_at rb s"
  shows "if n \<le> length s then \<exists>rb'. rb_get rb n = Inr (take n s, rb') \<and> rb_at rb' (drop n s)
         else rb_get rb n = invalid_stream rb"
  using rb_at_read [OF assms, of n] rb_at_length [OF assms]
  by (auto simp: rb_get_def rb_read_def)

text \<open>
  A reading step gives a Lua error, or a reader that stands at least \<open>k\<close> bytes behind the start of \<open>s\<close>.
\<close>

definition reads :: "('a \<times> read_block) res \<Rightarrow> bytes \<Rightarrow> nat \<Rightarrow> bool" where
  "reads m s k =
     (case m of
        Inl e \<Rightarrow> \<exists>msg. e = Lua_error msg
      | Inr (x, rb) \<Rightarrow> \<exists>s'. rb_at rb s' \<and> length s' + k \<le> length s)"

lemma reads_bind:
  assumes "reads m s a"
    and "\<And>x rb' s'. m = Inr (x, rb') \<Longrightarrow> rb_at rb' s' \<Longrightarrow> length s' + a \<le> length s \<Longrightarrow> reads (k x rb') s' b"
    and "c \<le> a + b"
  shows "reads (bind_r m (\<lambda>(x, rb). k x rb)) s c"
proof (cases m)
  case (Inl e)
  then show ?thesis using assms(1) by (simp add: reads_def)
next
  case (Inr p)
  then obtain x rb' where m: "m = Inr (x, rb')" by (cases p) simp
  then obtain s' where s: "rb_at rb' s'" "length s' + a \<le> length s" using assms(1) by (auto simp: reads_def)
  from assms(2) [OF m s] assms(3) s show ?thesis
    by (fastforce simp: m reads_def split: sum.splits)
qed

lemma reads_Inr: "rb_at rb s \<Longrightarrow> reads (Inr (x, rb)) s 0"
  by (auto simp: reads_def)

lemma reads_invalid [simp]: "reads (invalid_stream rb) s k"
  by (simp add: reads_def invalid_stream_def)

lemma reads_error [simp]: "reads (Inl (Lua_error e)) s k"
  by (simp add: reads_def)

lemma reads_rb_get: "rb_at rb s \<Longrightarrow> reads (rb_get rb n) s n"
  using rb_get_spec [of rb s n] by (force simp: reads_def invalid_stream_def split: if_splits)

lemma reads_get_integer: "rb_at rb s \<Longrightarrow> reads (get_integer rb c) s 0"
  unfolding get_integer_def
  by (auto intro!: reads_bind [where b = 0, OF reads_rb_get] reads_Inr)

lemma reads_get_array_size: "rb_at rb s \<Longrightarrow> reads (get_array_size rb c) s 0"
  unfolding get_array_size_def Let_def
  by (auto intro!: reads_bind [where b = 0, OF reads_rb_get] reads_bind [where b = 0, OF reads_get_integer] reads_Inr)

lemma reads_get_buffer: "rb_at rb s \<Longrightarrow> reads (get_buffer rb len) s 0"
proof (cases "len < 0 \<or> rb_len rb < len")
  case True
  then show ?thesis by (auto simp: get_buffer_def rb_read_def)
next
  case False
  assume r: "rb_at rb s"
  then have "nat len \<le> length s" using False rb_at_length [OF r] by linarith
  from rb_at_read [OF r this] show ?thesis using False by (auto simp: get_buffer_def reads_def intro!: exI [of _ "drop (nat len) s"])
qed

lemma reads_get_8: "rb_at rb s \<Longrightarrow> reads (get_real rb) s 0" "rb_at rb s \<Longrightarrow> reads (get_pointer rb) s 0"
  unfolding get_real_def get_pointer_def
  by (auto intro!: reads_bind [where b = 0, OF reads_rb_get] reads_Inr)

text \<open>Four units of fuel per byte left are enough for every reader, whatever the bytes are.\<close>

lemma unpack_reads:
  "\<And>rb s. rb_at rb s \<Longrightarrow> 4 * length s + 1 \<le> f \<Longrightarrow> reads (unpack_one f rb) s 1"
  "\<And>rb s t c. rb_at rb s \<Longrightarrow> 4 * length s + 4 \<le> f \<Longrightarrow> reads (push_value f rb t c) s 0"
  "\<And>rb s c. rb_at rb s \<Longrightarrow> 4 * length s + 3 \<le> f \<Longrightarrow> reads (unpack_table f rb c) s 0"
  "\<And>rb s n. rb_at rb s \<Longrightarrow> 4 * length s + 2 \<le> f \<Longrightarrow> reads (unpack_array f rb n) s 0"
  "\<And>rb s. rb_at rb s \<Longrightarrow> 4 * length s + 2 \<le> f \<Longrightarrow> reads (unpack_hash f rb) s 0"
proof (induction f)
  case 0
  { case 1 then show ?case by simp }
  { case 2 then show ?case by simp }
  { case 3 then show ?case by simp }
  { case 4 then show ?case by simp }
  { case 5 then show ?case by simp }
next
  case (Suc f)
  note IH = Suc.IH
  { case (1 rb s)
    show ?case unfolding unpack_one.simps
      by (rule reads_bind [where b = 0, OF reads_rb_get [OF 1(1)]]) (use 1 in \<open>auto intro!: IH(2)\<close>)
  next
    case (2 rb s t c)
    show ?case unfolding push_value.simps
      using 2 by (auto intro!: reads_bind [where b = 0, OF reads_rb_get] reads_bind [where b = 0, OF reads_get_integer]
        reads_bind [where b = 0, OF reads_get_buffer] reads_bind [where b = 0, OF reads_get_8(1)]
        reads_bind [where b = 0, OF reads_get_8(2)] reads_Inr IH(3))
  next
    case (3 rb s c)
    show ?case unfolding unpack_table.simps
      by (rule reads_bind [where a = 0 and b = 0, OF reads_get_array_size [OF 3(1)]],
          rule reads_bind [where a = 0 and b = 0, OF IH(4)], assumption, use 3 in simp,
          rule reads_bind [where a = 0 and b = 0, OF IH(5)]) (use 3 in \<open>auto intro: reads_Inr\<close>)
  next
    case (4 rb s n)
    show ?case
    proof (cases "n \<le> 0")
      case False
      then show ?thesis unfolding unpack_array.simps
        by (simp, intro reads_bind [where a = 1 and b = 0, OF IH(1)] reads_bind [where a = 0 and b = 0, OF IH(4)])
           (use 4 in \<open>auto intro: reads_Inr\<close>)
    qed (use 4 in \<open>auto intro: reads_Inr\<close>)
  next
    case (5 rb s)
    show ?case unfolding unpack_hash.simps
    proof (rule reads_bind [where a = 1 and b = 0, OF IH(1) [OF 5(1)]], goal_cases)
      case (2 k rb1 s1)
      show ?case
      proof (cases "k = Nil_v")
        case False
        have "reads (bind_r (unpack_one f rb1) (\<lambda>(v, rb). if lua_rawset_ok k
           then bind_r (unpack_hash f rb) (\<lambda>(kvs, rb). Inr ((k, v) # kvs, rb))
           else Inl (Lua_error ''table index is NaN''))) s1 0"
          by (rule reads_bind [where a = 1 and b = 0, OF IH(1) [OF 2(2)]])
             (use 2 5 in \<open>auto intro!: reads_bind [where a = 0 and b = 0, OF IH(5)] reads_Inr\<close>)
        then show ?thesis using False by simp
      qed (use 2 in \<open>auto intro: reads_Inr\<close>)
    qed (use 5 in simp_all) }
qed

lemma unpack_loop_total:
  "rb_at rb s \<Longrightarrow> length s < n \<Longrightarrow> 4 * length s \<le> fuel \<Longrightarrow>
     (\<exists>vs. unpack_loop n fuel rb = Inr vs) \<or> (\<exists>e. unpack_loop n fuel rb = Inl (Lua_error e))"
proof (induction n arbitrary: rb s)
  case 0
  then show ?case by simp
next
  case (Suc n)
  show ?case
  proof (cases "s = []")
    case True
    then show ?thesis using rb_at_length [OF Suc.prems(1)] by (simp add: rb_read_def)
  next
    case False
    then obtain rb' where r: "rb_read rb 1 = Some (rb_ptr rb, rb')" "rb_at rb' (drop 1 s)"
      "mem_read (rb_buffer rb) (nat (rb_ptr rb)) 1 = Inr (take 1 s)"
      using rb_at_read [OF Suc.prems(1), of 1] by (cases s) auto
    let ?t = "hd (take 1 s)"
    let ?p = "push_value fuel rb' (unat (?t AND 7)) (unat (drop_bit 3 ?t))"
    have l: "length (drop 1 s) < length s" using False by simp
    have "reads ?p (drop 1 s) 0"
      using unpack_reads(2) [OF r(2)] Suc.prems(3) l by simp
    then show ?thesis
    proof (cases ?p)
      case (Inl e)
      then show ?thesis using \<open>reads ?p _ _\<close> r by (auto simp: reads_def)
    next
      case (Inr x)
      then obtain v rb2 s2 where v: "?p = Inr (v, rb2)" "rb_at rb2 s2" "length s2 \<le> length (drop 1 s)"
        using \<open>reads ?p _ _\<close> by (cases x) (auto simp: reads_def)
      then have "length s2 < n" "4 * length s2 \<le> fuel" using Suc.prems(2,3) l by linarith+
      from Suc.IH [OF v(2) this] show ?thesis using r v(1) by auto
    qed
  qed
qed

lemma unpack_buffer_total:
  assumes "len \<le> int (length buf)"
  shows "(\<exists>vs. unpack_buffer buf len = Inr vs) \<or> (\<exists>e. unpack_buffer buf len = Inl (Lua_error e))"
proof (cases "0 \<le> len")
  case True
  show ?thesis
    unfolding unpack_buffer_def
    by (rule unpack_loop_total [OF rb_at_init [OF True assms]]) (use assms in auto)
next
  case False
  then show ?thesis by (simp add: unpack_buffer_def rb_read_def rball_init_def)
qed

lemma c_int_le: "c_int n \<le> int n"
proof -
  have "- (2 ^ 31) \<le> uint (of_nat n :: u32)" by (rule order_trans [of _ 0]) simp_all
  then have "sint (of_nat n :: u32) \<le> uint (of_nat n :: u32)"
    by (simp add: sint_uint signed_take_bit_eq_if_positive signed_take_bit_int_less_eq_self_iff)
  also have "\<dots> \<le> int n"
    by (simp add: unsigned_of_nat take_bit_eq_mod)
  finally show ?thesis by (simp add: c_int_def)
qed

section \<open>Reading back what was packed\<close>

text \<open>
  What the reader of a packed value gets: the pairs of a table without those of its array part, and a
  table with \<open>__pairs\<close> as the table of its pairs, up to a nil key.
\<close>

function (sequential) norm :: "lua \<Rightarrow> lua"
  and norm_hash :: "nat \<Rightarrow> (lua \<times> lua) list \<Rightarrow> (lua \<times> lua) list"
  and norm_pairs :: "(lua \<times> lua) list \<Rightarrow> (lua \<times> lua) list" where
  "norm (Table xs kvs) = Table (map norm xs) (norm_hash (length xs) kvs)"
| "norm (Pairs kvs) = Table [] (norm_pairs kvs)"
| "norm v = v"
| "norm_hash n [] = []"
| "norm_hash n ((k, v) # kvs) = (if in_array n k then [] else [(norm k, norm v)]) @ norm_hash n kvs"
| "norm_pairs [] = []"
| "norm_pairs ((k, v) # kvs) = (if k = Nil_v then [] else (norm k, norm v) # norm_pairs kvs)"
  by pat_completeness auto
termination
  by (relation "measure (case_sum size (case_sum (\<lambda>(_, kvs). size_list (size_prod size size) kvs)
         (size_list (size_prod size size))))")
     (auto dest: size_list_estimation' [where f = size, OF _ order_refl] simp: less_Suc_eq_le trans_le_add1)

text \<open>
  Keys are neither nil nor NaN. Lua has no such fields, so this restricts the pairs of a \<open>__pairs\<close>
  iteration only, which may give any value as a key.
\<close>

function (sequential) keys_ok :: "lua \<Rightarrow> bool"
  and keys_ok_hash :: "nat \<Rightarrow> (lua \<times> lua) list \<Rightarrow> bool"
  and keys_ok_pairs :: "(lua \<times> lua) list \<Rightarrow> bool" where
  "keys_ok (Table xs kvs) = ((\<forall>x \<in> set xs. keys_ok x) \<and> keys_ok_hash (length xs) kvs)"
| "keys_ok (Pairs kvs) = keys_ok_pairs kvs"
| "keys_ok v = True"
| "keys_ok_hash n [] = True"
| "keys_ok_hash n ((k, v) # kvs) =
     ((in_array n k \<or> k \<noteq> Nil_v \<and> lua_rawset_ok k \<and> keys_ok k \<and> keys_ok v) \<and> keys_ok_hash n kvs)"
| "keys_ok_pairs [] = True"
| "keys_ok_pairs ((k, v) # kvs) =
     (k = Nil_v \<or> lua_rawset_ok k \<and> keys_ok k \<and> keys_ok v \<and> keys_ok_pairs kvs)"
  by pat_completeness auto
termination
  by (relation "measure (case_sum size (case_sum (\<lambda>(_, kvs). size_list (size_prod size size) kvs)
         (size_list (size_prod size size))))")
     (auto dest: size_list_estimation' [where f = size, OF _ order_refl] simp: less_Suc_eq_le trans_le_add1)

lemma norm_nil [simp]: "norm v = Nil_v \<longleftrightarrow> v = Nil_v"
  by (cases v) simp_all

lemma norm_rawset [simp]: "lua_rawset_ok (norm k) = lua_rawset_ok k"
  by (cases k) (simp_all add: lua_rawset_ok_def)

lemma combine_type [simp]:
  "t < 8 \<Longrightarrow> unat (COMBINE_TYPE t v AND 7) = t"
  "t < 8 \<Longrightarrow> 0 \<le> v \<Longrightarrow> v < 32 \<Longrightarrow> unat (drop_bit 3 (COMBINE_TYPE t v)) = nat v"
proof -
  assume t: "t < 8"
  have ut: "unat (of_nat t :: byte) = t" using t by (simp add: unat_of_nat_small)
  have "COMBINE_TYPE t v AND 7 = take_bit 3 (COMBINE_TYPE t v)"
    by (simp add: take_bit_eq_mask mask_eq_exp_minus_1)
  also have "\<dots> = take_bit 3 (of_nat t)"
    by (simp add: COMBINE_TYPE_def take_bit_push_bit)
  finally show "unat (COMBINE_TYPE t v AND 7) = t"
    using t ut by (simp add: unsigned_take_bit_eq take_bit_nat_eq_self del: of_nat_unat)
  assume v: "0 \<le> v" "v < 32"
  have uv: "unat (of_int v :: byte) = nat v"
    using v unat_of_nat_small [of "nat v", where 'a = 8] by simp
  have "unat (drop_bit 3 (of_nat t :: byte)) = 0"
    unfolding unsigned_drop_bit_eq ut using t by (simp add: take_bit_eq_mod drop_bit_eq_div)
  then have "drop_bit 3 (of_nat t :: byte) = 0" by (simp only: unat_eq_zero)
  then have "unat (drop_bit 3 (COMBINE_TYPE t v)) = unat (drop_bit 3 (push_bit 3 (of_int v :: byte)))"
    by (simp add: COMBINE_TYPE_def)
  also have "\<dots> = nat v"
    unfolding unsigned_drop_bit_eq unsigned_push_bit_eq uv
    using v by (simp add: take_bit_eq_mod drop_bit_eq_div push_bit_eq_mult)
  finally show "unat (drop_bit 3 (COMBINE_TYPE t v)) = nat v" .
qed

definition gives :: "('a \<times> read_block) res \<Rightarrow> 'a \<Rightarrow> bytes \<Rightarrow> bool" where
  "gives m x s = (\<exists>rb. m = Inr (x, rb) \<and> rb_at rb s)"

lemma gives_Inr: "rb_at rb s \<Longrightarrow> gives (Inr (x, rb)) x s"
  by (simp add: gives_def)

lemma gives_bind:
  "gives m x s \<Longrightarrow> (\<And>rb. rb_at rb s \<Longrightarrow> gives (k x rb) y r) \<Longrightarrow> gives (bind_r m (\<lambda>(x, rb). k x rb)) y r"
  by (auto simp: gives_def)

lemma gives_get: "rb_at rb (bs @ r) \<Longrightarrow> n = length bs \<Longrightarrow> gives (rb_get rb n) bs r"
  using rb_get_spec [of rb "bs @ r" n] by (auto simp: gives_def)

lemma gives_get_1: "rb_at rb (b # r) \<Longrightarrow> gives (rb_get rb 1) [b] r"
  using gives_get [of rb "[b]" r 1] by simp

lemma gives_buffer: "rb_at rb (s @ r) \<Longrightarrow> len = int (length s) \<Longrightarrow> gives (get_buffer rb len) s r"
  using rb_at_read [of rb "s @ r" "length s"] by (auto simp: get_buffer_def gives_def)

lemma unpack_one_Cons:
  assumes "rb_at rb (COMBINE_TYPE t (int c) # s)" "t < 8" "c < 32" "0 < f"
    and "\<And>rb'. rb_at rb' s \<Longrightarrow> gives (push_value (f - 1) rb' t c) x r"
  shows "gives (unpack_one f rb) x r"
proof -
  obtain f' where "f = Suc f'" using assms(4) by (cases f) auto
  moreover have "gives (unpack_one (Suc f') rb) x r"
    unfolding unpack_one.simps
    by (rule gives_bind [OF gives_get_1 [OF assms(1)]])
       (use assms(2,3,5) \<open>f = Suc f'\<close> in simp)
  ultimately show ?thesis by simp
qed

lemma sint_nat: "0 \<le> sint w \<Longrightarrow> sint w = int (unat w)" for w :: u64
  using sint_small [OF unat_sint_nonneg] by blast

lemma ucast_ucast_small:
  assumes "0 \<le> sint x" "sint x < 2 ^ LENGTH('b :: len)"
  shows "ucast (ucast x :: 'b word) = (x :: u64)"
proof -
  have "int (unat x) < 2 ^ LENGTH('b)" using assms sint_nat [of x] by simp
  then have "unat x < 2 ^ LENGTH('b)"
    by (metis of_nat_less_iff of_nat_numeral of_nat_power)
  then have "unat (ucast x :: 'b word) = unat x" by (rule unat_ucast_small)
  then have "unat (ucast (ucast x :: 'b word) :: u64) = unat x"
    using unat_lt [of x] by (subst unat_ucast_small) simp_all
  then show ?thesis by (rule unsigned_word_eqI)
qed

lemma enc_integer_cases:
  "\<exists>c body. enc_integer x = COMBINE_TYPE TYPE_NUMBER (int c) # body \<and> c < 8 \<and>
     (\<forall>rb r. rb_at rb (body @ r) \<longrightarrow> gives (get_integer rb c) x r)"
proof -
  note i = get_integer_def enc_integer_def seri_consts
  have b: "ucast (ucast x :: byte) = x" if "\<not> sint x < 0" "sint x < 256"
    using that by (intro ucast_ucast_small) simp_all
  have w: "ucast (ucast x :: u16) = x" if "\<not> sint x < 0" "sint x < 65536"
    using that by (intro ucast_ucast_small) simp_all
  consider "x = 0" | "x \<noteq> 0" "x \<noteq> scast (ucast x :: u32)"
    | "x \<noteq> 0" "x = scast (ucast x :: u32)" "sint x < 0 \<or> \<not> sint x < 0x10000"
    | "x \<noteq> 0" "x = scast (ucast x :: u32)" "\<not> sint x < 0" "sint x < 0x100"
    | "x \<noteq> 0" "x = scast (ucast x :: u32)" "\<not> sint x < 0" "\<not> sint x < 0x100" "sint x < 0x10000"
    by linarith
  then show ?thesis
  proof cases
    case 1
    then show ?thesis by (intro exI [of _ 0] exI [of _ "[]"]) (auto simp: i gives_Inr)
  next
    case 2
    have "gives (get_integer rb 6) x r" if "rb_at rb (le64 x @ r)" for rb r
      by (auto simp: i intro!: gives_bind [OF gives_get [OF that, of 8]] gives_Inr)
    then show ?thesis using 2 by (intro exI [of _ 6] exI [of _ "le64 x"]) (simp add: i)
  next
    case 3
    have "gives (get_integer rb 4) x r" if "rb_at rb (le32 (ucast x) @ r)" for rb r
      using 3(2) by (auto simp: i intro!: gives_bind [OF gives_get [OF that, of 4]] gives_Inr)
    then show ?thesis using 3 by (intro exI [of _ 4] exI [of _ "le32 (ucast x)"]) (auto simp add: i)
  next
    case 4
    have "gives (get_integer rb 1) x r" if "rb_at rb ([ucast x] @ r)" for rb r
      using b 4 by (auto simp: i intro!: gives_bind [OF gives_get [OF that, of "Suc 0"]] gives_Inr)
    then show ?thesis using 4 by (intro exI [of _ 1] exI [of _ "[ucast x]"]) (simp add: i)
  next
    case 5
    have "gives (get_integer rb 2) x r" if "rb_at rb (le16 (ucast x) @ r)" for rb r
      using w 5 by (auto simp: i intro!: gives_bind [OF gives_get [OF that, of 2]] gives_Inr)
    then show ?thesis using 5 by (intro exI [of _ 2] exI [of _ "le16 (ucast x)"]) (simp add: i)
  qed
qed

text \<open>No function, thread or full userdata, and how deep the value at the deepest place is nested.\<close>

function (sequential) supported :: "lua \<Rightarrow> bool"
  and supported_hash :: "nat \<Rightarrow> (lua \<times> lua) list \<Rightarrow> bool"
  and supported_pairs :: "(lua \<times> lua) list \<Rightarrow> bool" where
  "supported (Table xs kvs) = ((\<forall>x \<in> set xs. supported x) \<and> supported_hash (length xs) kvs)"
| "supported (Pairs kvs) = supported_pairs kvs"
| "supported Unsupported = False"
| "supported v = True"
| "supported_hash n [] = True"
| "supported_hash n ((k, v) # kvs) = ((in_array n k \<or> supported k \<and> supported v) \<and> supported_hash n kvs)"
| "supported_pairs [] = True"
| "supported_pairs ((k, v) # kvs) = (k = Nil_v \<or> supported k \<and> supported v \<and> supported_pairs kvs)"
  by pat_completeness auto
termination
  by (relation "measure (case_sum size (case_sum (\<lambda>(_, kvs). size_list (size_prod size size) kvs)
         (size_list (size_prod size size))))")
     (auto dest: size_list_estimation' [where f = size, OF _ order_refl] simp: less_Suc_eq_le trans_le_add1)

function (sequential) height :: "lua \<Rightarrow> nat"
  and height_array :: "lua list \<Rightarrow> nat"
  and height_hash :: "nat \<Rightarrow> (lua \<times> lua) list \<Rightarrow> nat"
  and height_pairs :: "(lua \<times> lua) list \<Rightarrow> nat" where
  "height (Table xs kvs) = max (height_array xs) (height_hash (length xs) kvs)"
| "height (Pairs kvs) = height_pairs kvs"
| "height v = 0"
| "height_array [] = 0"
| "height_array (v # vs) = max (Suc (height v)) (height_array vs)"
| "height_hash n [] = 0"
| "height_hash n ((k, v) # kvs) =
     max (if in_array n k then 0 else max (Suc (height k)) (Suc (height v))) (height_hash n kvs)"
| "height_pairs [] = 0"
| "height_pairs ((k, v) # kvs) =
     (if k = Nil_v then 0 else max (max (Suc (height k)) (Suc (height v))) (height_pairs kvs))"
  by pat_completeness auto
termination
  by (relation "measure (case_sum
       (case_sum size (size_list size))
       (case_sum (\<lambda>(_, kvs). size_list (size_prod size size) kvs) (size_list (size_prod size size))))")
     auto

lemma packable_height:
  "packable d v \<longleftrightarrow> supported v \<and> d + height v \<le> MAX_DEPTH"
  "d \<le> MAX_DEPTH + 1 \<Longrightarrow> packable_array d vs \<longleftrightarrow> (\<forall>v \<in> set vs. supported v) \<and> d + height_array vs \<le> MAX_DEPTH + 1"
  "d \<le> MAX_DEPTH + 1 \<Longrightarrow> packable_hash d n kvs \<longleftrightarrow> supported_hash n kvs \<and> d + height_hash n kvs \<le> MAX_DEPTH + 1"
  "d \<le> MAX_DEPTH + 1 \<Longrightarrow> packable_pairs d kvs \<longleftrightarrow> supported_pairs kvs \<and> d + height_pairs kvs \<le> MAX_DEPTH + 1"
proof (induction d v and d vs and d n kvs and d kvs rule: packable_packable_array_packable_hash_packable_pairs.induct)
  case (1 d v)
  show ?case
  proof (cases "d \<le> MAX_DEPTH")
    case True
    then show ?thesis using 1 by (cases v) auto
  qed simp
qed auto

lemma gives_value:
  "rb_at rb r \<Longrightarrow> 0 < f \<Longrightarrow> gives (push_value f rb TYPE_NIL c) Nil_v r"
  "rb_at rb r \<Longrightarrow> 0 < f \<Longrightarrow> gives (push_value f rb TYPE_BOOLEAN c) (Boolean (c \<noteq> 0)) r"
  "rb_at rb (le64 x @ r) \<Longrightarrow> 0 < f \<Longrightarrow> gives (push_value f rb TYPE_NUMBER 8) (Real x) r"
  "rb_at rb (le64 x @ r) \<Longrightarrow> 0 < f \<Longrightarrow> gives (push_value f rb TYPE_USERDATA c) (Light x) r"
  "rb_at rb (s @ r) \<Longrightarrow> 0 < f \<Longrightarrow> c = length s \<Longrightarrow> gives (push_value f rb TYPE_SHORT_STRING c) (Str s) r"
  "gives (get_integer rb c) x r \<Longrightarrow> 0 < f \<Longrightarrow> c \<noteq> 8 \<Longrightarrow> gives (push_value f rb TYPE_NUMBER c) (Integer x) r"
  by (cases f; auto simp: seri_consts get_real_def get_pointer_def
      intro!: gives_Inr gives_bind gives_get gives_buffer)+

lemma gives_long:
  "rb_at rb (le16 (of_nat (length s)) @ s @ r) \<Longrightarrow> 0 < f \<Longrightarrow> length s < 2 ^ 16 \<Longrightarrow>
     gives (push_value f rb TYPE_LONG_STRING 2) (Str s) r"
  "rb_at rb (le32 (of_nat (length s)) @ s @ r) \<Longrightarrow> 0 < f \<Longrightarrow> length s < 2 ^ 31 \<Longrightarrow>
     gives (push_value f rb TYPE_LONG_STRING 4) (Str s) r"
proof -
  assume a: "rb_at rb (le16 (of_nat (length s)) @ s @ r)" "0 < f" "length s < 2 ^ 16"
  have "uint (of_nat (length s) :: u16) = int (length s)"
    using a(3) by (simp add: unsigned_of_nat take_bit_nat_eq_self)
  then show "gives (push_value f rb TYPE_LONG_STRING 2) (Str s) r"
    using a by (cases f) (auto simp: seri_consts intro!: gives_bind [OF gives_get [OF a(1)]] gives_bind [OF gives_buffer] gives_Inr)
next
  assume a: "rb_at rb (le32 (of_nat (length s)) @ s @ r)" "0 < f" "length s < 2 ^ 31"
  have "sint (of_nat (length s) :: u32) = int (length s)"
    using c_int_small [OF a(3)] by (simp add: c_int_def)
  then show "gives (push_value f rb TYPE_LONG_STRING 4) (Str s) r"
    using a by (cases f) (auto simp: seri_consts intro!: gives_bind [OF gives_get [OF a(1)]] gives_bind [OF gives_buffer] gives_Inr)
qed

lemma gives_one_string:
  assumes "rb_at rb (enc_string s @ r)" "0 < f - 1" "length s < 2 ^ 31"
  shows "gives (unpack_one f rb) (Str s) r"
proof -
  consider "length s < 32" | "\<not> length s < 32" "length s < 2 ^ 16" | "\<not> length s < 2 ^ 16" by fastforce
  then show ?thesis
  proof cases
    case 1
    then have "rb_at rb (COMBINE_TYPE TYPE_SHORT_STRING (int (length s)) # s @ r)"
      using assms(1) by (simp add: enc_string_def)
    from unpack_one_Cons [OF this] gives_value(5) 1 assms(2) show ?thesis by (simp add: TYPE_SHORT_STRING_def)
  next
    case 2
    then have "rb_at rb (COMBINE_TYPE TYPE_LONG_STRING (int 2) # le16 (of_nat (length s)) @ s @ r)"
      using assms(1) by (simp add: enc_string_def)
    from unpack_one_Cons [OF this] gives_long(1) 2 assms(2) show ?thesis by (simp add: TYPE_LONG_STRING_def)
  next
    case 3
    then have "rb_at rb (COMBINE_TYPE TYPE_LONG_STRING (int 4) # le32 (of_nat (length s)) @ s @ r)"
      using assms(1) by (simp add: enc_string_def)
    from unpack_one_Cons [OF this] gives_long(2) 3 assms(2,3) show ?thesis by (simp add: TYPE_LONG_STRING_def)
  qed
qed

text \<open>The header of a table gives the size of its array part.\<close>

lemma gives_array_size:
  assumes "n < 2 ^ 31"
  shows "\<exists>c body. enc_header n = COMBINE_TYPE TYPE_TABLE (int c) # body \<and> c < 32 \<and>
     (\<forall>rb r. rb_at rb (body @ r) \<longrightarrow> gives (get_array_size rb c) (int n) r)"
proof (cases "n < 31")
  case True
  then show ?thesis
    by (intro exI [of _ n] exI [of _ "[]"])
       (auto simp: enc_header_def get_array_size_def MAX_COOKIE_def gives_Inr)
next
  case False
  obtain c body where e: "enc_integer (of_nat n) = COMBINE_TYPE TYPE_NUMBER (int c) # body" "c < 8"
    "\<And>rb r. rb_at rb (body @ r) \<Longrightarrow> gives (get_integer rb c) (of_nat n) r"
    using enc_integer_cases by blast
  have "ucast (of_nat n :: u64) = (of_nat n :: u32)"
    by (rule bit_word_eqI) (simp add: bit_simps)
  then have n: "sint (ucast (of_nat n :: u64) :: u32) = int n"
    using c_int_small [OF assms] by (simp add: c_int_def)
  have "gives (get_array_size rb 31) (int n) r" if "rb_at rb ((COMBINE_TYPE TYPE_NUMBER (int c) # body) @ r)" for rb r
  proof -
    have "rb_at rb (COMBINE_TYPE TYPE_NUMBER (int c) # body @ r)" using that by simp
    from gives_get_1 [OF this] show ?thesis
      using e(2) n unfolding get_array_size_def
      by (auto simp: seri_consts Let_def intro!: gives_bind gives_bind [OF e(3)] gives_Inr)
  qed
  then show ?thesis using e(1) False
    by (intro exI [of _ 31] exI [of _ "enc_integer (of_nat n)"]) (simp add: enc_header_def)
qed

lemma gives_table:
  assumes "rb_at rb (enc_header n @ s)" "n < 2 ^ 31" "3 \<le> f"
    and "\<And>rb'. rb_at rb' s \<Longrightarrow> gives (unpack_array (f - 3) rb' (int n)) xs s'"
    and "\<And>rb'. rb_at rb' s' \<Longrightarrow> gives (unpack_hash (f - 3) rb') kvs r"
  shows "gives (unpack_one f rb) (Table xs kvs) r"
proof -
  obtain c body where h: "enc_header n = COMBINE_TYPE TYPE_TABLE (int c) # body" "c < 32"
    "\<And>rb r. rb_at rb (body @ r) \<Longrightarrow> gives (get_array_size rb c) (int n) r"
    using gives_array_size [OF assms(2)] by blast
  have at: "rb_at rb (COMBINE_TYPE TYPE_TABLE (int c) # body @ s)" using assms(1) h(1) by simp
  show ?thesis
  proof (rule unpack_one_Cons [OF at])
    fix rb' assume "rb_at rb' (body @ s)"
    then have "gives (unpack_table (Suc (f - 3)) rb' c) (Table xs kvs) r"
      unfolding unpack_table.simps
      by (rule gives_bind [OF h(3)])
         (use assms(4,5) in \<open>auto intro!: gives_bind gives_Inr\<close>)
    moreover have "f - 1 = Suc (Suc (f - 3))" using assms(3) by simp
    ultimately show "gives (push_value (f - 1) rb' TYPE_TABLE c) (Table xs kvs) r"
      by (simp add: seri_consts)
  qed (use h(2) assms(3) in \<open>simp_all add: TYPE_TABLE_def\<close>)
qed

lemma gives_hash_Nil: "rb_at rb (0 # r) \<Longrightarrow> 2 < f \<Longrightarrow> gives (unpack_hash f rb) [] r"
proof -
  assume a: "rb_at rb (0 # r)" "2 < f"
  then obtain f' where f: "f = Suc f'" by (cases f) auto
  have "gives (unpack_one f' rb) Nil_v r"
    using unpack_one_Cons [of rb 0 0 r f' Nil_v r] gives_value(1) a f
    by (simp add: COMBINE_TYPE_def TYPE_NIL_def)
  then show ?thesis unfolding f unpack_hash.simps by (rule gives_bind) (auto intro: gives_Inr)
qed

lemma gives_hash_Cons:
  assumes "gives (unpack_one f rb) k s1" "k \<noteq> Nil_v" "lua_rawset_ok k"
    and "\<And>rb. rb_at rb s1 \<Longrightarrow> gives (unpack_one f rb) v s2"
    and "\<And>rb. rb_at rb s2 \<Longrightarrow> gives (unpack_hash f rb) kvs r"
  shows "gives (unpack_hash (Suc f) rb) ((k, v) # kvs) r"
  unfolding unpack_hash.simps
  by (rule gives_bind [OF assms(1)]) (use assms(2-5) in \<open>auto intro!: gives_bind gives_Inr\<close>)

lemma enc_not_Nil: "supported v \<Longrightarrow> enc v \<noteq> []"
  by (cases v) (auto simp: enc_integer_def enc_string_def enc_header_def)

lemma gives_pair:
  assumes "supported k" "k \<noteq> Nil_v" "lua_rawset_ok k"
    and "rb_at rb (enc k @ enc v @ s)" "4 * length (enc k @ enc v @ s) + 2 \<le> f"
    and k: "\<And>rb r f. rb_at rb (enc k @ r) \<Longrightarrow> 4 * length (enc k @ r) + 1 \<le> f \<Longrightarrow> gives (unpack_one f rb) (norm k) r"
    and v: "\<And>rb r f. rb_at rb (enc v @ r) \<Longrightarrow> 4 * length (enc v @ r) + 1 \<le> f \<Longrightarrow> gives (unpack_one f rb) (norm v) r"
    and rest: "\<And>rb f. rb_at rb s \<Longrightarrow> 4 * length s + 2 \<le> f \<Longrightarrow> gives (unpack_hash f rb) kvs r"
  shows "gives (unpack_hash f rb) ((norm k, norm v) # kvs) r"
proof -
  obtain f' where f: "f = Suc f'" using assms(5) by (cases f) auto
  have "0 < length (enc k)" using enc_not_Nil [OF assms(1)] by simp
  then have l: "4 * length (enc k @ enc v @ s) + 1 \<le> f'" "4 * length (enc v @ s) + 1 \<le> f'" "4 * length s + 2 \<le> f'"
    using assms(5) f by (simp_all del: length_greater_0_conv)
  show ?thesis unfolding f
    by (rule gives_hash_Cons [OF k [OF assms(4) l(1)] _ _ v [OF _ l(2)] rest [OF _ l(3)]])
       (use assms(2,3) in simp_all)
qed

lemma roundtrip_aux:
  "\<And>rb r f. supported v \<Longrightarrow> sizes_ok v \<Longrightarrow> keys_ok v \<Longrightarrow> rb_at rb (enc v @ r) \<Longrightarrow>
     4 * length (enc v @ r) + 1 \<le> f \<Longrightarrow> gives (unpack_one f rb) (norm v) r"
  "\<And>rb r f. \<forall>x \<in> set vs. supported x \<Longrightarrow> \<forall>x \<in> set vs. sizes_ok x \<Longrightarrow> \<forall>x \<in> set vs. keys_ok x \<Longrightarrow>
     rb_at rb (enc_array vs @ r) \<Longrightarrow> 4 * length (enc_array vs @ r) + 2 \<le> f \<Longrightarrow>
     gives (unpack_array f rb (int (length vs))) (map norm vs) r"
  "\<And>rb r f. supported_hash n kvs \<Longrightarrow> sizes_ok_pairs kvs \<Longrightarrow> keys_ok_hash n kvs \<Longrightarrow>
     rb_at rb (enc_hash n kvs @ 0 # r) \<Longrightarrow> 4 * length (enc_hash n kvs @ 0 # r) + 2 \<le> f \<Longrightarrow>
     gives (unpack_hash f rb) (norm_hash n kvs) r"
  "\<And>rb r f. supported_pairs kvs \<Longrightarrow> sizes_ok_pairs kvs \<Longrightarrow> keys_ok_pairs kvs \<Longrightarrow>
     rb_at rb (enc_pairs kvs @ 0 # r) \<Longrightarrow> 4 * length (enc_pairs kvs @ 0 # r) + 2 \<le> f \<Longrightarrow>
     gives (unpack_hash f rb) (norm_pairs kvs) r"
proof (induction v and vs and n kvs and kvs rule: enc_enc_array_enc_hash_enc_pairs.induct)
  case 1
  have "rb_at rb (COMBINE_TYPE 0 (int 0) # r)" using 1 by (simp add: COMBINE_TYPE_def)
  from unpack_one_Cons [OF this] 1 gives_value(1) show ?case by (simp add: TYPE_NIL_def)
next
  case (2 b)
  let ?c = "if b then 1 else 0 :: nat"
  have at: "rb_at rb (COMBINE_TYPE TYPE_BOOLEAN (int ?c) # r)" using 2 by (auto split: if_splits)
  have "gives (unpack_one f rb) (Boolean (?c \<noteq> 0)) r"
  proof (rule unpack_one_Cons [OF at])
    show "gives (push_value (f - 1) rb' TYPE_BOOLEAN ?c) (Boolean (?c \<noteq> 0)) r" if "rb_at rb' r" for rb'
      using that 2(5) by (intro gives_value(2)) auto
  qed (use 2(5) in \<open>auto simp: TYPE_BOOLEAN_def\<close>)
  then show ?case by (cases b) simp_all
next
  case (3 x)
  obtain c body where e: "enc_integer x = COMBINE_TYPE TYPE_NUMBER (int c) # body" "c < 8"
    "\<And>rb r. rb_at rb (body @ r) \<Longrightarrow> gives (get_integer rb c) x r"
    using enc_integer_cases by blast
  have "rb_at rb (COMBINE_TYPE TYPE_NUMBER (int c) # body @ r)" using 3 e(1) by simp
  from unpack_one_Cons [OF this] 3 gives_value(6) [OF e(3)] e(1,2) show ?case by (simp add: TYPE_NUMBER_def)
next
  case (4 x)
  have "rb_at rb (COMBINE_TYPE TYPE_NUMBER (int 8) # le64 x @ r)" using 4 by simp
  from unpack_one_Cons [OF this] 4 gives_value(3) show ?case by (simp add: TYPE_NUMBER_def)
next
  case (5 x)
  have "rb_at rb (COMBINE_TYPE TYPE_USERDATA (int 0) # le64 x @ r)"
    using 5 by (simp add: COMBINE_TYPE_def TYPE_USERDATA_def)
  from unpack_one_Cons [OF this] 5 gives_value(4) show ?case by (simp add: TYPE_USERDATA_def)
next
  case (6 s)
  have "0 < f - 1" using 6(5) by (simp add: enc_string_def split: if_splits)
  then show ?case using gives_one_string 6 by simp
next
  case (7 xs kvs)
  note p = 7(3)
  have at: "rb_at rb (enc_header (length xs) @ enc_array xs @ enc_hash (length xs) kvs @ 0 # r)"
    using 7(6) by simp
  have "0 < length (enc_header (length xs))" by (simp add: enc_header_def)
  then have l: "4 * length (enc_array xs @ enc_hash (length xs) kvs @ 0 # r) + 2 \<le> f - 3"
    "4 * length (enc_hash (length xs) kvs @ 0 # r) + 2 \<le> f - 3" "3 \<le> f"
    using 7(7) by (simp_all del: length_greater_0_conv)
  show ?case unfolding norm.simps
  proof (rule gives_table [OF at])
    fix rb' assume r: "rb_at rb' (enc_array xs @ enc_hash (length xs) kvs @ 0 # r)"
    show "gives (unpack_array (f - 3) rb' (int (length xs))) (map norm xs) (enc_hash (length xs) kvs @ 0 # r)"
      by (rule 7(1)) (use p 7(4,5) r l in auto)
  next
    fix rb' assume r: "rb_at rb' (enc_hash (length xs) kvs @ 0 # r)"
    show "gives (unpack_hash (f - 3) rb') (norm_hash (length xs) kvs) r"
      by (rule 7(2)) (use p 7(4,5) r l in auto)
  qed (use 7(4) l in auto)
next
  case (8 kvs)
  note p = 8(2)
  have at: "rb_at rb (enc_header 0 @ enc_pairs kvs @ 0 # r)"
    using 8(5) by (simp add: enc_header_def)
  show ?case unfolding norm.simps
  proof (rule gives_table [OF at, where s' = "enc_pairs kvs @ 0 # r"])
    fix rb' assume r: "rb_at rb' (enc_pairs kvs @ 0 # r)"
    have "f - 3 = Suc (f - 4)" using 8(6) by simp
    then show "gives (unpack_array (f - 3) rb' (int 0)) [] (enc_pairs kvs @ 0 # r)"
      using r by (simp add: gives_Inr)
  next
    fix rb' assume r: "rb_at rb' (enc_pairs kvs @ 0 # r)"
    show "gives (unpack_hash (f - 3) rb') (norm_pairs kvs) r"
      by (rule 8(1)) (use p 8(3,4,6) r in auto)
  qed (use 8(6) in auto)
next
  case 9
  then show ?case by simp
next
  case 10
  then obtain f' where "f = Suc f'" by (cases f) auto
  then show ?case using 10 by (simp add: gives_Inr)
next
  case (11 v vs)
  then obtain f' where f: "f = Suc f'" by (cases f) auto
  have pk: "supported v" "\<forall>x \<in> set vs. supported x" using 11(3) by simp_all
  have "0 < length (enc v)" using enc_not_Nil [OF pk(1)] by simp
  then have l: "4 * length (enc v @ enc_array vs @ r) + 1 \<le> f'" "4 * length (enc_array vs @ r) + 2 \<le> f'"
    using 11(7) f by (simp_all del: length_greater_0_conv)
  have "gives (bind_r (unpack_one f' rb) (\<lambda>(v, rb).
     bind_r (unpack_array f' rb (int (length vs))) (\<lambda>(vs, rb). Inr (v # vs, rb)))) (norm v # map norm vs) r"
  proof (rule gives_bind)
    show "gives (unpack_one f' rb) (norm v) (enc_array vs @ r)"
      using 11(4-6) l by (intro 11(1) [OF pk(1)]) simp_all
  next
    fix rb' assume "rb_at rb' (enc_array vs @ r)"
    then have "gives (unpack_array f' rb' (int (length vs))) (map norm vs) r"
      using 11(4-6) l by (intro 11(2) [OF pk(2)]) simp_all
    then show "gives (bind_r (unpack_array f' rb' (int (length vs))) (\<lambda>(vs, rb). Inr (norm v # vs, rb)))
       (norm v # map norm vs) r"
      by (rule gives_bind) (auto intro: gives_Inr)
  qed
  then show ?case by (simp add: f)
next
  case (12 n)
  then show ?case by (auto intro: gives_hash_Nil)
next
  case (13 n k v kvs)
  show ?case
  proof (cases "in_array n k")
    case True
    then show ?thesis using 13 by simp
  next
    case False
    have "gives (unpack_hash f rb) ((norm k, norm v) # norm_hash n kvs) r"
      by (rule gives_pair [where s = "enc_hash n kvs @ 0 # r"])
         (use False 13(4-8) in \<open>auto intro: 13(1-3)\<close>)
    then show ?thesis using False by simp
  qed
next
  case 14
  then show ?case by (auto intro: gives_hash_Nil)
next
  case (15 k v kvs)
  show ?case
  proof (cases "k = Nil_v")
    case True
    then show ?thesis using 15 by (auto intro: gives_hash_Nil)
  next
    case False
    have "gives (unpack_hash f rb) ((norm k, norm v) # norm_pairs kvs) r"
      by (rule gives_pair [where s = "enc_pairs kvs @ 0 # r"])
         (use False 15(4-8) in \<open>auto intro: 15(1-3)\<close>)
    then show ?thesis using False by simp
  qed
qed

lemma unpack_loop_step:
  assumes "rb_at rb s" "s \<noteq> []"
  shows "unpack_loop (Suc n) fuel rb =
     bind_r (unpack_one (Suc fuel) rb) (\<lambda>(v, rb). bind_r (unpack_loop n fuel rb) (\<lambda>vs. Inr (v # vs)))"
proof -
  have "1 \<le> length s" using assms(2) by (cases s) simp_all
  from rb_at_read [OF assms(1) this] show ?thesis by (auto simp: rb_get_def)
qed

lemma unpack_loop_enc:
  "\<forall>v \<in> set vs. supported v \<and> sizes_ok v \<and> keys_ok v \<Longrightarrow> rb_at rb (enc_array vs) \<Longrightarrow>
     length (enc_array vs) < n \<Longrightarrow> 4 * length (enc_array vs) \<le> fuel \<Longrightarrow> unpack_loop n fuel rb = Inr (map norm vs)"
proof (induction vs arbitrary: rb n)
  case Nil
  then have "rb_len rb = 0" using rb_at_length by fastforce
  then show ?case using Nil by (cases n) (simp_all add: rb_read_def)
next
  case (Cons v vs)
  obtain m where n: "n = Suc m" using Cons.prems(3) by (cases n) auto
  have v: "enc v \<noteq> []" using enc_not_Nil Cons.prems(1) by simp
  then have l: "length (enc_array vs) < m" "4 * length (enc_array vs) \<le> fuel"
    using Cons.prems(3,4) n by (cases "enc v"; simp)+
  have at: "rb_at rb (enc v @ enc_array vs)" using Cons.prems(2) by simp
  have "gives (unpack_one (Suc fuel) rb) (norm v) (enc_array vs)"
    using Cons.prems(1,4) by (intro roundtrip_aux(1) [OF _ _ _ at]) simp_all
  then obtain rb' where r: "unpack_one (Suc fuel) rb = Inr (norm v, rb')" "rb_at rb' (enc_array vs)"
    by (auto simp: gives_def)
  have "unpack_loop m fuel rb' = Inr (map norm vs)"
    using Cons.IH [OF _ r(2) l] Cons.prems(1) by simp
  then show ?case
    using unpack_loop_step [OF at, of m fuel] v r(1) by (simp add: n del: unpack_loop.simps unpack_one.simps)
qed

lemma unpack_enc:
  assumes "\<forall>v \<in> set vs. supported v \<and> sizes_ok v \<and> keys_ok v"
  shows "luaseri_unpack (Msg_ptr (Some (enc_array vs)) (int (length (enc_array vs)))) = Inr (map norm vs)"
proof (cases "enc_array vs = []")
  case True
  then have "vs = []" using assms enc_not_Nil by (cases vs) auto
  then show ?thesis by (simp add: luaseri_unpack_def)
next
  case False
  have "rb_at (rball_init (enc_array vs) (int (length (enc_array vs)))) (enc_array vs)"
    using rb_at_init [of "int (length (enc_array vs))" "enc_array vs"] by simp
  from unpack_loop_enc [OF assms this] False show ?thesis
    by (simp add: luaseri_unpack_def unpack_buffer_def del: unpack_loop.simps)
qed

lemma height_array_le: "height_array vs \<le> Suc n \<longleftrightarrow> (\<forall>v \<in> set vs. height v \<le> n)"
  by (induction vs) auto

lemma packable_array_0: "packable_array 0 vs \<longleftrightarrow> (\<forall>v \<in> set vs. supported v \<and> height v \<le> MAX_DEPTH)"
  using packable_height(2) [of 0 vs] by (auto simp: height_array_le)

section \<open>Properties\<close>

text \<open>
  C14: What one service packs, another unpacks to the same values, nil among them, whatever the chain of
  blocks looked like in between: integers come back from all six of their encodings, strings from their
  three, tables with their array part and their other fields in order.
\<close>

theorem seri_roundtrip:
  assumes "luaseri_pack vs = Inr bs" "\<forall>v \<in> set vs. sizes_ok v" "\<forall>v \<in> set vs. keys_ok v"
  shows "luaseri_unpack (Msg_ptr (Some bs) (int (length bs))) = Inr (map norm vs)"
proof -
  have "packable_array 0 vs" "bs = enc_array vs"
    using luaseri_pack_spec [OF assms(2)] assms(1) by (auto split: if_splits)
  then show ?thesis using unpack_enc [of vs] assms(2,3) by (simp add: packable_array_0)
qed

theorem seri_roundtrip_witness:
  "luaseri_unpack (Msg_ptr (Some [0x22, 0x70, 0x11, 1, 0, 0x0E, 9, 0x0C, 0x61, 0x0A, 5, 0, 0]) 13) =
     Inr [Integer 70000, Table [Boolean True] [(Str [0x61], Integer 5)], Nil_v]"
proof -
  let ?vs = "[Integer 70000, Table [Boolean True] [(Integer 1, Boolean True), (Str [0x61], Integer 5)], Nil_v]"
  have "luaseri_pack ?vs = Inr [0x22, 0x70, 0x11, 1, 0, 0x0E, 9, 0x0C, 0x61, 0x0A, 5, 0, 0]" by code_simp
  moreover have "\<forall>v \<in> set ?vs. sizes_ok v" by simp
  moreover have "\<forall>v \<in> set ?vs. keys_ok v" by (simp add: lua_rawset_ok_def)
  ultimately show ?thesis using seri_roundtrip [of ?vs] by (simp add: in_array_def)
qed

text \<open>
  C30: Packing succeeds for exactly the lists of values that hold no function, thread or userdata and no
  value deeper than 32 tables; every other list is refused with a Lua error, never with a write outside a block.
\<close>

theorem seri_pack_accepts:
  assumes "\<forall>v \<in> set vs. sizes_ok v"
  shows "if \<forall>v \<in> set vs. supported v \<and> height v \<le> MAX_DEPTH
         then \<exists>bs. luaseri_pack vs = Inr bs else \<exists>e. luaseri_pack vs = Inl (Lua_error e)"
  using luaseri_pack_spec [OF assms] unfolding packable_array_0 by (auto split: if_splits)

theorem seri_pack_accepts_witness:
  "\<exists>e. luaseri_pack [Integer 1, Table [Unsupported] []] = Inl (Lua_error e)"
  using seri_pack_accepts [of "[Integer 1, Table [Unsupported] []]"] by simp

text \<open>The argument is a string, or a pointer with a length of at most the size of what it points to.\<close>

definition arg_ok :: "seri_arg \<Rightarrow> bool" where
  "arg_ok arg = (case arg of Msg_ptr (Some b) len \<Rightarrow> len \<le> int (length b) | _ \<Rightarrow> True)"

text \<open>
  While the C stack and the stack of the Lua state suffice, unpacking reads nothing outside of the message
  and ends with values or with a Lua error, whatever the bytes are.
\<close>

theorem seri_unpack_returns:
  assumes "arg_ok arg"
  shows "(\<exists>vs. luaseri_unpack arg = Inr vs) \<or> (\<exists>e. luaseri_unpack arg = Inl (Lua_error e))"
  using assms unpack_buffer_total c_int_le
  by (auto simp: luaseri_unpack_def arg_ok_def split: seri_arg.splits option.splits)

theorem seri_unpack_returns_witness:
  "(\<exists>vs. luaseri_unpack (Msg_string [0x0E, 0x36]) = Inr vs) \<or>
   (\<exists>e. luaseri_unpack (Msg_string [0x0E, 0x36]) = Inl (Lua_error e))"
  using seri_unpack_returns [of "Msg_string [0x0E, 0x36]"] by (simp add: arg_ok_def)

text \<open>A table in a table, \<open>n\<close> of them.\<close>

fun nest :: "nat \<Rightarrow> lua" where
  "nest 0 = Nil_v"
| "nest (Suc n) = Table [nest n] []"

lemma nest_ok: "supported (nest n) \<and> sizes_ok (nest n) \<and> keys_ok (nest n)"
  by (induction n) simp_all

lemma height_nest [simp]: "height (nest n) = n"
  by (induction n) simp_all

lemma norm_nest [simp]: "norm (nest n) = nest n"
  by (induction n) simp_all

lemma enc_nest: "enc (nest n) = replicate n 0x0E @ replicate (n + 1) 0"
  by (induction n) (simp_all add: enc_header_def COMBINE_TYPE_def TYPE_TABLE_def replicate_append_same)

text \<open>
  Only packing limits the depth of tables. A message of \<open>n\<close> table headers is unpacked to \<open>n\<close> tables in
  each other for every \<open>n\<close>, and the C functions that unpack it call each other as deep as the sender wants,
  while no such list of values could be packed for \<open>n\<close> above 32.
\<close>

theorem seri_unpack_depth_unbounded:
  "luaseri_unpack (Msg_ptr (Some (replicate n 0x0E @ replicate (n + 1) 0)) (int (2 * n + 1))) = Inr [nest n] \<and>
   ((\<exists>bs. luaseri_pack [nest n] = Inr bs) \<longleftrightarrow> n \<le> 32)"
proof
  have e: "enc_array [nest n] = replicate n 0x0E @ replicate (n + 1) 0" by (simp add: enc_nest)
  have l: "length (replicate n 0x0E @ replicate (n + 1) (0 :: byte)) = 2 * n + 1" by simp
  show "luaseri_unpack (Msg_ptr (Some (replicate n 0x0E @ replicate (n + 1) 0)) (int (2 * n + 1))) = Inr [nest n]"
    using unpack_enc [of "[nest n]", unfolded e l] nest_ok by simp
  show "(\<exists>bs. luaseri_pack [nest n] = Inr bs) \<longleftrightarrow> n \<le> 32"
    using luaseri_pack_spec [of "[nest n]"] nest_ok [of n] unfolding packable_array_0
    by (auto simp: MAX_DEPTH_def split: if_splits)
qed

end
