(* ===== verification/Des.thy ===== *)
theory Des
  imports Prelude
begin

text \<open>
  The block cipher of \<open>src/3rd/skynet/lualib-src/lua-crypt.c\<close>: the tables, the key schedule, one block, and the
  encryption of a string with its padding, as a client and the login server use it for their shared secret.
  A 32-bit variable is a word, whose shifts drop what leaves it. The macros that change the two halves of a
  block are functions from the pair of the halves to the new pair.
\<close>

definition SMALL_CHUNK :: nat where "SMALL_CHUNK = 256"

section \<open>The tables\<close>

definition SB1 :: "u32 list" where
  "SB1 = [
    0x01010400, 0x00000000, 0x00010000, 0x01010404, 0x01010004, 0x00010404, 0x00000004, 0x00010000,
    0x00000400, 0x01010400, 0x01010404, 0x00000400, 0x01000404, 0x01010004, 0x01000000, 0x00000004,
    0x00000404, 0x01000400, 0x01000400, 0x00010400, 0x00010400, 0x01010000, 0x01010000, 0x01000404,
    0x00010004, 0x01000004, 0x01000004, 0x00010004, 0x00000000, 0x00000404, 0x00010404, 0x01000000,
    0x00010000, 0x01010404, 0x00000004, 0x01010000, 0x01010400, 0x01000000, 0x01000000, 0x00000400,
    0x01010004, 0x00010000, 0x00010400, 0x01000004, 0x00000400, 0x00000004, 0x01000404, 0x00010404,
    0x01010404, 0x00010004, 0x01010000, 0x01000404, 0x01000004, 0x00000404, 0x00010404, 0x01010400,
    0x00000404, 0x01000400, 0x01000400, 0x00000000, 0x00010004, 0x00010400, 0x00000000, 0x01010004]"

definition SB2 :: "u32 list" where
  "SB2 = [
    0x80108020, 0x80008000, 0x00008000, 0x00108020, 0x00100000, 0x00000020, 0x80100020, 0x80008020,
    0x80000020, 0x80108020, 0x80108000, 0x80000000, 0x80008000, 0x00100000, 0x00000020, 0x80100020,
    0x00108000, 0x00100020, 0x80008020, 0x00000000, 0x80000000, 0x00008000, 0x00108020, 0x80100000,
    0x00100020, 0x80000020, 0x00000000, 0x00108000, 0x00008020, 0x80108000, 0x80100000, 0x00008020,
    0x00000000, 0x00108020, 0x80100020, 0x00100000, 0x80008020, 0x80100000, 0x80108000, 0x00008000,
    0x80100000, 0x80008000, 0x00000020, 0x80108020, 0x00108020, 0x00000020, 0x00008000, 0x80000000,
    0x00008020, 0x80108000, 0x00100000, 0x80000020, 0x00100020, 0x80008020, 0x80000020, 0x00100020,
    0x00108000, 0x00000000, 0x80008000, 0x00008020, 0x80000000, 0x80100020, 0x80108020, 0x00108000]"

definition SB3 :: "u32 list" where
  "SB3 = [
    0x00000208, 0x08020200, 0x00000000, 0x08020008, 0x08000200, 0x00000000, 0x00020208, 0x08000200,
    0x00020008, 0x08000008, 0x08000008, 0x00020000, 0x08020208, 0x00020008, 0x08020000, 0x00000208,
    0x08000000, 0x00000008, 0x08020200, 0x00000200, 0x00020200, 0x08020000, 0x08020008, 0x00020208,
    0x08000208, 0x00020200, 0x00020000, 0x08000208, 0x00000008, 0x08020208, 0x00000200, 0x08000000,
    0x08020200, 0x08000000, 0x00020008, 0x00000208, 0x00020000, 0x08020200, 0x08000200, 0x00000000,
    0x00000200, 0x00020008, 0x08020208, 0x08000200, 0x08000008, 0x00000200, 0x00000000, 0x08020008,
    0x08000208, 0x00020000, 0x08000000, 0x08020208, 0x00000008, 0x00020208, 0x00020200, 0x08000008,
    0x08020000, 0x08000208, 0x00000208, 0x08020000, 0x00020208, 0x00000008, 0x08020008, 0x00020200]"

definition SB4 :: "u32 list" where
  "SB4 = [
    0x00802001, 0x00002081, 0x00002081, 0x00000080, 0x00802080, 0x00800081, 0x00800001, 0x00002001,
    0x00000000, 0x00802000, 0x00802000, 0x00802081, 0x00000081, 0x00000000, 0x00800080, 0x00800001,
    0x00000001, 0x00002000, 0x00800000, 0x00802001, 0x00000080, 0x00800000, 0x00002001, 0x00002080,
    0x00800081, 0x00000001, 0x00002080, 0x00800080, 0x00002000, 0x00802080, 0x00802081, 0x00000081,
    0x00800080, 0x00800001, 0x00802000, 0x00802081, 0x00000081, 0x00000000, 0x00000000, 0x00802000,
    0x00002080, 0x00800080, 0x00800081, 0x00000001, 0x00802001, 0x00002081, 0x00002081, 0x00000080,
    0x00802081, 0x00000081, 0x00000001, 0x00002000, 0x00800001, 0x00002001, 0x00802080, 0x00800081,
    0x00002001, 0x00002080, 0x00800000, 0x00802001, 0x00000080, 0x00800000, 0x00002000, 0x00802080]"

definition SB5 :: "u32 list" where
  "SB5 = [
    0x00000100, 0x02080100, 0x02080000, 0x42000100, 0x00080000, 0x00000100, 0x40000000, 0x02080000,
    0x40080100, 0x00080000, 0x02000100, 0x40080100, 0x42000100, 0x42080000, 0x00080100, 0x40000000,
    0x02000000, 0x40080000, 0x40080000, 0x00000000, 0x40000100, 0x42080100, 0x42080100, 0x02000100,
    0x42080000, 0x40000100, 0x00000000, 0x42000000, 0x02080100, 0x02000000, 0x42000000, 0x00080100,
    0x00080000, 0x42000100, 0x00000100, 0x02000000, 0x40000000, 0x02080000, 0x42000100, 0x40080100,
    0x02000100, 0x40000000, 0x42080000, 0x02080100, 0x40080100, 0x00000100, 0x02000000, 0x42080000,
    0x42080100, 0x00080100, 0x42000000, 0x42080100, 0x02080000, 0x00000000, 0x40080000, 0x42000000,
    0x00080100, 0x02000100, 0x40000100, 0x00080000, 0x00000000, 0x40080000, 0x02080100, 0x40000100]"

definition SB6 :: "u32 list" where
  "SB6 = [
    0x20000010, 0x20400000, 0x00004000, 0x20404010, 0x20400000, 0x00000010, 0x20404010, 0x00400000,
    0x20004000, 0x00404010, 0x00400000, 0x20000010, 0x00400010, 0x20004000, 0x20000000, 0x00004010,
    0x00000000, 0x00400010, 0x20004010, 0x00004000, 0x00404000, 0x20004010, 0x00000010, 0x20400010,
    0x20400010, 0x00000000, 0x00404010, 0x20404000, 0x00004010, 0x00404000, 0x20404000, 0x20000000,
    0x20004000, 0x00000010, 0x20400010, 0x00404000, 0x20404010, 0x00400000, 0x00004010, 0x20000010,
    0x00400000, 0x20004000, 0x20000000, 0x00004010, 0x20000010, 0x20404010, 0x00404000, 0x20400000,
    0x00404010, 0x20404000, 0x00000000, 0x20400010, 0x00000010, 0x00004000, 0x20400000, 0x00404010,
    0x00004000, 0x00400010, 0x20004010, 0x00000000, 0x20404000, 0x20000000, 0x00400010, 0x20004010]"

definition SB7 :: "u32 list" where
  "SB7 = [
    0x00200000, 0x04200002, 0x04000802, 0x00000000, 0x00000800, 0x04000802, 0x00200802, 0x04200800,
    0x04200802, 0x00200000, 0x00000000, 0x04000002, 0x00000002, 0x04000000, 0x04200002, 0x00000802,
    0x04000800, 0x00200802, 0x00200002, 0x04000800, 0x04000002, 0x04200000, 0x04200800, 0x00200002,
    0x04200000, 0x00000800, 0x00000802, 0x04200802, 0x00200800, 0x00000002, 0x04000000, 0x00200800,
    0x04000000, 0x00200800, 0x00200000, 0x04000802, 0x04000802, 0x04200002, 0x04200002, 0x00000002,
    0x00200002, 0x04000000, 0x04000800, 0x00200000, 0x04200800, 0x00000802, 0x00200802, 0x04200800,
    0x00000802, 0x04000002, 0x04200802, 0x04200000, 0x00200800, 0x00000000, 0x00000002, 0x04200802,
    0x00000000, 0x00200802, 0x04200000, 0x00000800, 0x04000002, 0x04000800, 0x00000800, 0x00200002]"

definition SB8 :: "u32 list" where
  "SB8 = [
    0x10001040, 0x00001000, 0x00040000, 0x10041040, 0x10000000, 0x10001040, 0x00000040, 0x10000000,
    0x00040040, 0x10040000, 0x10041040, 0x00041000, 0x10041000, 0x00041040, 0x00001000, 0x00000040,
    0x10040000, 0x10000040, 0x10001000, 0x00001040, 0x00041000, 0x00040040, 0x10040040, 0x10041000,
    0x00001040, 0x00000000, 0x00000000, 0x10040040, 0x10000040, 0x10001000, 0x00041040, 0x00040000,
    0x00041040, 0x00040000, 0x10041000, 0x00001000, 0x00000040, 0x10040040, 0x00001000, 0x00041040,
    0x10001000, 0x00000040, 0x10000040, 0x10040000, 0x10040040, 0x10000000, 0x00040000, 0x10001040,
    0x00000000, 0x10041040, 0x00040040, 0x10000040, 0x10040000, 0x10001000, 0x10001040, 0x00000000,
    0x10041040, 0x00041000, 0x00041000, 0x00001040, 0x00001040, 0x00040040, 0x10000000, 0x10041000]"

definition LHs :: "u32 list" where
  "LHs = [
    0x00000000, 0x00000001, 0x00000100, 0x00000101, 0x00010000, 0x00010001, 0x00010100, 0x00010101,
    0x01000000, 0x01000001, 0x01000100, 0x01000101, 0x01010000, 0x01010001, 0x01010100, 0x01010101]"

definition RHs :: "u32 list" where
  "RHs = [
    0x00000000, 0x01000000, 0x00010000, 0x01010000, 0x00000100, 0x01000100, 0x00010100, 0x01010100,
    0x00000001, 0x01000001, 0x00010001, 0x01010001, 0x00000101, 0x01000101, 0x00010101, 0x01010101]"

section \<open>Integers and exchanges of bits\<close>

definition GET_UINT32 :: "bytes \<Rightarrow> nat \<Rightarrow> u32" where
  "GET_UINT32 b i =
     push_bit 24 (ucast (b ! i)) OR push_bit 16 (ucast (b ! (i + 1))) OR push_bit 8 (ucast (b ! (i + 2))) OR
     ucast (b ! (i + 3))"

definition PUT_UINT32 :: "u32 \<Rightarrow> bytes" where
  "PUT_UINT32 n = [ucast (drop_bit 24 n), ucast (drop_bit 16 n), ucast (drop_bit 8 n), ucast n]"

text \<open>\<open>T = ((X >> n) ^ Y) & m; Y ^= T; X ^= (T << n)\<close>, which \<open>DES_IP\<close>, \<open>DES_FP\<close> and the key schedule are made of.\<close>

definition exchange :: "nat \<Rightarrow> u32 \<Rightarrow> u32 \<times> u32 \<Rightarrow> u32 \<times> u32" where
  "exchange n m = (\<lambda>(X, Y). let T = (drop_bit n X XOR Y) AND m in (X XOR push_bit n T, Y XOR T))"

definition rol :: "nat \<Rightarrow> u32 \<Rightarrow> u32" where
  "rol n X = push_bit n X OR drop_bit (32 - n) X"

definition DES_IP :: "u32 \<times> u32 \<Rightarrow> u32 \<times> u32" where
  "DES_IP = (\<lambda>p.
     let p = exchange 4 0x0F0F0F0F p;
         p = exchange 16 0x0000FFFF p;
         p = prod.swap (exchange 2 0x33333333 (prod.swap p));
         p = prod.swap (exchange 8 0x00FF00FF (prod.swap p));
         p = (fst p, rol 1 (snd p));
         p = exchange 0 0xAAAAAAAA p
     in (rol 1 (fst p), snd p))"

definition DES_FP :: "u32 \<times> u32 \<Rightarrow> u32 \<times> u32" where
  "DES_FP = (\<lambda>p.
     let p = (rol 31 (fst p), snd p);
         p = exchange 0 0xAAAAAAAA p;
         p = (fst p, rol 31 (snd p));
         p = prod.swap (exchange 8 0x00FF00FF (prod.swap p));
         p = prod.swap (exchange 2 0x33333333 (prod.swap p));
         p = exchange 16 0x0000FFFF p
     in exchange 4 0x0F0F0F0F p)"

section \<open>Rounds and keys\<close>

definition sbox :: "u32 list \<Rightarrow> u32 \<Rightarrow> nat \<Rightarrow> u32" where
  "sbox S T n = S ! unat (drop_bit n T AND 0x3F)"

text \<open>What \<open>DES_ROUND(X, Y)\<close> does with the keys \<open>k0\<close> and \<open>k1\<close> at \<open>SK\<close>: the new value of \<open>Y\<close>.\<close>

definition DES_ROUND :: "u32 \<Rightarrow> u32 \<Rightarrow> u32 \<Rightarrow> u32 \<Rightarrow> u32" where
  "DES_ROUND k0 k1 X Y =
     (let T = k0 XOR X;
          Y = Y XOR (sbox SB8 T 0 XOR sbox SB6 T 8 XOR sbox SB4 T 16 XOR sbox SB2 T 24);
          T = k1 XOR (push_bit 28 X OR drop_bit 4 X)
      in Y XOR (sbox SB7 T 0 XOR sbox SB5 T 8 XOR sbox SB3 T 16 XOR sbox SB1 T 24))"

text \<open>The pairs \<open>DES_ROUND(Y, X); DES_ROUND(X, Y)\<close>, of which \<open>des_crypt\<close> has eight, over the keys from \<open>SK\<close>.\<close>

fun des_rounds :: "u32 list \<Rightarrow> u32 \<times> u32 \<Rightarrow> u32 \<times> u32" where
  "des_rounds (k0 # k1 # k2 # k3 # SK) (X, Y) =
     (let X = DES_ROUND k0 k1 Y X; Y = DES_ROUND k2 k3 X Y in des_rounds SK (X, Y))"
| "des_rounds SK (X, Y) = (X, Y)"

definition nibble :: "u32 list \<Rightarrow> u32 \<Rightarrow> nat \<Rightarrow> u32" where
  "nibble H X n = H ! unat (drop_bit n X AND 0xF)"

definition des_pc1 :: "u32 \<times> u32 \<Rightarrow> u32 \<times> u32" where
  "des_pc1 p =
     (let (Y, X) = exchange 4 0x0F0F0F0F (prod.swap p);
          (Y, X) = exchange 0 0x10101010 (Y, X);
          X = push_bit 3 (nibble LHs X 0) OR push_bit 2 (nibble LHs X 8) OR
              push_bit 1 (nibble LHs X 16) OR nibble LHs X 24 OR
              push_bit 7 (nibble LHs X 5) OR push_bit 6 (nibble LHs X 13) OR
              push_bit 5 (nibble LHs X 21) OR push_bit 4 (nibble LHs X 29);
          Y = push_bit 3 (nibble RHs Y 1) OR push_bit 2 (nibble RHs Y 9) OR
              push_bit 1 (nibble RHs Y 17) OR nibble RHs Y 25 OR
              push_bit 7 (nibble RHs Y 4) OR push_bit 6 (nibble RHs Y 12) OR
              push_bit 5 (nibble RHs Y 20) OR push_bit 4 (nibble RHs Y 28)
      in (X AND 0x0FFFFFFF, Y AND 0x0FFFFFFF))"

definition des_subkey0 :: "u32 \<Rightarrow> u32 \<Rightarrow> u32" where
  "des_subkey0 X Y =
     (push_bit 4 X AND 0x24000000) OR (push_bit 28 X AND 0x10000000) OR (push_bit 14 X AND 0x08000000) OR
     (push_bit 18 X AND 0x02080000) OR (push_bit 6 X AND 0x01000000) OR (push_bit 9 X AND 0x00200000) OR
     (drop_bit 1 X AND 0x00100000) OR (push_bit 10 X AND 0x00040000) OR (push_bit 2 X AND 0x00020000) OR
     (drop_bit 10 X AND 0x00010000) OR (drop_bit 13 Y AND 0x00002000) OR (drop_bit 4 Y AND 0x00001000) OR
     (push_bit 6 Y AND 0x00000800) OR (drop_bit 1 Y AND 0x00000400) OR (drop_bit 14 Y AND 0x00000200) OR
     (Y AND 0x00000100) OR (drop_bit 5 Y AND 0x00000020) OR (drop_bit 10 Y AND 0x00000010) OR
     (drop_bit 3 Y AND 0x00000008) OR (drop_bit 18 Y AND 0x00000004) OR (drop_bit 26 Y AND 0x00000002) OR
     (drop_bit 24 Y AND 0x00000001)"

definition des_subkey1 :: "u32 \<Rightarrow> u32 \<Rightarrow> u32" where
  "des_subkey1 X Y =
     (push_bit 15 X AND 0x20000000) OR (push_bit 17 X AND 0x10000000) OR (push_bit 10 X AND 0x08000000) OR
     (push_bit 22 X AND 0x04000000) OR (drop_bit 2 X AND 0x02000000) OR (push_bit 1 X AND 0x01000000) OR
     (push_bit 16 X AND 0x00200000) OR (push_bit 11 X AND 0x00100000) OR (push_bit 3 X AND 0x00080000) OR
     (drop_bit 6 X AND 0x00040000) OR (push_bit 15 X AND 0x00020000) OR (drop_bit 4 X AND 0x00010000) OR
     (drop_bit 2 Y AND 0x00002000) OR (push_bit 8 Y AND 0x00001000) OR (drop_bit 14 Y AND 0x00000808) OR
     (drop_bit 9 Y AND 0x00000400) OR (Y AND 0x00000200) OR (push_bit 7 Y AND 0x00000100) OR
     (drop_bit 7 Y AND 0x00000020) OR (drop_bit 3 Y AND 0x00000011) OR (push_bit 2 Y AND 0x00000004) OR
     (drop_bit 21 Y AND 0x00000002)"

definition rotate28 :: "nat \<Rightarrow> u32 \<Rightarrow> u32" where
  "rotate28 n X = (push_bit n X OR drop_bit (28 - n) X) AND 0x0FFFFFFF"

fun des_subkeys :: "nat list \<Rightarrow> u32 \<times> u32 \<Rightarrow> u32 list" where
  "des_subkeys [] p = []"
| "des_subkeys (i # is) (X, Y) =
     (let n = (if i < 2 \<or> i = 8 \<or> i = 15 then 1 else 2);
          X = rotate28 n X; Y = rotate28 n Y
      in des_subkey0 X Y # des_subkey1 X Y # des_subkeys is (X, Y))"

definition des_main_ks :: "bytes \<Rightarrow> u32 list" where
  "des_main_ks key = des_subkeys [0..<16] (des_pc1 (GET_UINT32 key 0, GET_UINT32 key 4))"

definition des_crypt :: "u32 list \<Rightarrow> bytes \<Rightarrow> bytes" where
  "des_crypt SK input =
     (let X = GET_UINT32 input 0; Y = GET_UINT32 input 4;
          (X, Y) = des_rounds SK (DES_IP (X, Y));
          (Y, X) = DES_FP (Y, X)
      in PUT_UINT32 Y @ PUT_UINT32 X)"

definition des_key :: "bytes \<Rightarrow> u32 list res" where
  "des_key key =
     (if length key \<noteq> 8 then Inl (Lua_error ''Invalid key size, need 8 bytes'') else Inr (des_main_ks key))"

section \<open>Strings\<close>

text \<open>The buffer of a function: its local array, or an object of its own when the result is longer.\<close>

definition chunk_buffer :: "nat \<Rightarrow> bytes" where
  "chunk_buffer n = replicate (if SMALL_CHUNK < n then n else SMALL_CHUNK) 0"

text \<open>The loop over the whole blocks of \<open>text\<close> from \<open>i\<close> on, which ends with the first \<open>i\<close> above \<open>last\<close> (\<open>stop\<close>).\<close>

function des_blocks :: "u32 list \<Rightarrow> bytes \<Rightarrow> int \<Rightarrow> nat \<Rightarrow> bytes \<Rightarrow> (nat \<times> bytes) res" where
  "des_blocks SK txt stop i buffer =
     (if int i < stop
      then bind_r (mem_read txt i 8) (\<lambda>input.
             bind_r (mem_write buffer i (des_crypt SK input)) (\<lambda>buffer.
               des_blocks SK txt stop (i + 8) buffer))
      else Inr (i, buffer))"
  by pat_completeness auto
termination
  by (relation "measure (\<lambda>(SK, txt, stop, i, buffer). nat (stop - int i))") auto

declare des_blocks.simps [simp del]

definition ldesencode :: "bytes \<Rightarrow> bytes \<Rightarrow> bytes res" where
  "ldesencode key txt =
     bind_r (des_key key) (\<lambda>SK.
       let textsz = length txt;
           chunksz = (textsz + 8) div 8 * 8
       in bind_r (des_blocks SK txt (int textsz - 7) 0 (chunk_buffer chunksz)) (\<lambda>(i, buffer).
            let bytes = textsz - i;
                tail = map (\<lambda>j. if j < bytes then txt ! (i + j) else if j = bytes then 0x80 else 0) [0..<8]
            in bind_r (mem_write buffer i (des_crypt SK tail)) (\<lambda>buffer. mem_read buffer 0 chunksz)))"

text \<open>The round keys in the order of decryption: the pairs of words from the last to the first.\<close>

definition des_reverse :: "u32 list \<Rightarrow> u32 list" where
  "des_reverse ESK = concat (map (\<lambda>i. [ESK ! (30 - 2 * i), ESK ! (31 - 2 * i)]) [0..<16])"

text \<open>
  The search for the end of the padding. The loop variable \<open>i\<close> is an \<open>int\<close>, which the comparison
  \<open>i >= textsz - 8\<close> takes as a \<open>size_t\<close>.
\<close>

function des_padding :: "nat \<Rightarrow> bytes \<Rightarrow> int \<Rightarrow> nat \<Rightarrow> nat res" where
  "des_padding textsz buffer i padding =
     (if uint (of_int i :: u64) < int textsz - 8 then Inr padding
      else if i < 0 then Inl Out_of_bounds
      else bind_r (mem_read buffer (nat i) 1) (\<lambda>b.
             if hd b = 0 then des_padding textsz buffer (i - 1) (padding + 1)
             else if hd b = 0x80 then Inr padding
             else Inl (Lua_error ''Invalid des crypt text'')))"
  by pat_completeness auto
termination
  by (relation "measure (\<lambda>(textsz, buffer, i, padding). nat (i + 1))") auto

declare des_padding.simps [simp del]

definition ldesdecode :: "bytes \<Rightarrow> bytes \<Rightarrow> bytes res" where
  "ldesdecode key txt =
     bind_r (des_key key) (\<lambda>ESK.
       let SK = des_reverse ESK; textsz = length txt
       in if textsz mod 8 \<noteq> 0 \<or> textsz = 0 then Inl (Lua_error ''Invalid des crypt text length'')
          else bind_r (des_blocks SK txt (int textsz) 0 (chunk_buffer textsz)) (\<lambda>(i, buffer).
                 bind_r (des_padding textsz buffer (int textsz - 1) 1) (\<lambda>padding.
                   if 8 < padding then Inl (Lua_error ''Invalid des crypt text'')
                   else mem_read buffer 0 (textsz - padding))))"

section \<open>A block\<close>

lemma exchange_eq: "exchange n m (X, Y) =
  (X XOR push_bit n ((drop_bit n X XOR Y) AND m), Y XOR ((drop_bit n X XOR Y) AND m))"
  by (simp add: exchange_def Let_def)

lemma xor_cancel: "(x XOR y) XOR y = x" for x y :: "'a :: len word"
  by (simp add: xor.assoc)

lemma exchange_inverse:
  assumes "drop_bit n (push_bit n m) = m"
  shows "exchange n m (exchange n m p) = p"
proof -
  obtain X Y where p: "p = (X, Y)" by (cases p)
  define T where "T = (drop_bit n X XOR Y) AND m"
  have m: "bit m j \<Longrightarrow> n + j < 32" for j
    using arg_cong [OF assms, of "\<lambda>w. bit w j"] by (auto simp: bit_simps dest: bit_imp_le_length)
  have "(drop_bit n (X XOR push_bit n T) XOR (Y XOR T)) AND m = T"
    unfolding T_def by (rule bit_word_eqI) (auto simp: bit_simps dest: m)
  then show ?thesis
    unfolding p exchange_eq T_def [symmetric] by (simp only: xor_cancel)
qed

lemma rol_rol: "n \<le> 32 \<Longrightarrow> rol (32 - n) (rol n X) = X"
  unfolding rol_def by (rule bit_word_eqI) (auto simp: bit_simps)

lemma masks:
  "drop_bit 4 (push_bit 4 0x0F0F0F0F) = (0x0F0F0F0F :: u32)"
  "drop_bit 16 (push_bit 16 0x0000FFFF) = (0x0000FFFF :: u32)"
  "drop_bit 2 (push_bit 2 0x33333333) = (0x33333333 :: u32)"
  "drop_bit 8 (push_bit 8 0x00FF00FF) = (0x00FF00FF :: u32)"
  "drop_bit 0 (push_bit 0 0xAAAAAAAA) = (0xAAAAAAAA :: u32)"
  by simp_all

lemmas exchange_inverses = masks [THEN exchange_inverse]

lemma rol_1_31: "rol 31 (rol 1 X) = X" "rol 1 (rol 31 X) = X"
  using rol_rol [of 1 X] rol_rol [of 31 X] by simp_all

lemma DES_FP_IP: "DES_FP (DES_IP p) = p"
  by (simp add: DES_FP_def DES_IP_def Let_def rol_1_31 exchange_inverses del: One_nat_def)

lemma DES_IP_FP: "DES_IP (DES_FP p) = p"
  by (simp add: DES_FP_def DES_IP_def Let_def rol_1_31 exchange_inverses del: One_nat_def)

lemma DES_ROUND_twice: "DES_ROUND k0 k1 X (DES_ROUND k0 k1 X Y) = Y"
  unfolding DES_ROUND_def Let_def by (simp add: xor.assoc xor.left_commute)

text \<open>The round keys as pairs.\<close>

definition flat :: "(u32 \<times> u32) list \<Rightarrow> u32 list" where
  "flat ps = concat (map (\<lambda>(a, b). [a, b]) ps)"

lemma flat_simps [simp]:
  "flat [] = []" "flat (p # ps) = fst p # snd p # flat ps" "flat (ps @ qs) = flat ps @ flat qs"
  by (simp_all add: flat_def split: prod.splits)

lemma des_rounds_append:
  "even (length ps) \<Longrightarrow> des_rounds (flat ps @ SK) p = des_rounds SK (des_rounds (flat ps) p)"
proof (induction "length ps" arbitrary: ps p rule: less_induct)
  case less
  show ?case
  proof (cases ps)
    case Nil
    then show ?thesis by (cases p) simp
  next
    case (Cons a qs)
    then obtain b rs where "ps = a # b # rs" "even (length rs)" using less.prems by (cases qs) auto
    then show ?thesis using less.hyps [of rs] by (cases p) (simp add: Let_def)
  qed
qed

lemma des_rounds_reverse:
  "even (length ps) \<Longrightarrow> des_rounds (flat (rev ps)) (prod.swap (des_rounds (flat ps) p)) = prod.swap p"
proof (induction "length ps" arbitrary: ps p rule: less_induct)
  case less
  show ?case
  proof (cases ps)
    case Nil
    then show ?thesis by (cases p) simp
  next
    case (Cons a qs)
    then obtain b rs where ps: "ps = a # b # rs" "even (length rs)" using less.prems by (cases qs) auto
    obtain X Y where p: "p = (X, Y)" by (cases p)
    let ?X = "DES_ROUND (fst a) (snd a) Y X"
    let ?Y = "DES_ROUND (fst b) (snd b) ?X Y"
    have "des_rounds (flat (rev rs)) (prod.swap (des_rounds (flat rs) (?X, ?Y))) = (?Y, ?X)"
      using less.hyps [of rs "(?X, ?Y)"] ps by simp
    then show ?thesis
      using ps(2) by (simp add: ps p Let_def des_rounds_append DES_ROUND_twice)
  qed
qed

lemma des_subkeys_flat: "\<exists>ps. des_subkeys is p = flat ps \<and> length ps = length is"
proof (induction "is" arbitrary: p)
  case (Cons i "is")
  obtain X Y where p: "p = (X, Y)" by (cases p)
  let ?n = "if i < 2 \<or> i = 8 \<or> i = 15 then 1 else 2 :: nat"
  obtain ps where "des_subkeys is (rotate28 ?n X, rotate28 ?n Y) = flat ps" "length ps = length is"
    using Cons.IH by blast
  then show ?case
    by (intro exI [of _ "(des_subkey0 (rotate28 ?n X) (rotate28 ?n Y), des_subkey1 (rotate28 ?n X) (rotate28 ?n Y)) # ps"])
       (simp add: p Let_def)
qed simp

lemma nth_flat: "j < length ps \<Longrightarrow> flat ps ! (2 * j) = fst (ps ! j) \<and> flat ps ! (2 * j + 1) = snd (ps ! j)"
proof (induction ps arbitrary: j)
  case (Cons p ps)
  then show ?case by (cases j) auto
qed simp

lemma des_reverse_flat:
  assumes "length ps = 16"
  shows "des_reverse (flat ps) = flat (rev ps)"
proof -
  have "[flat ps ! (30 - 2 * i), flat ps ! (31 - 2 * i)] = [fst (rev ps ! i), snd (rev ps ! i)]" if "i < 16" for i
  proof -
    have "30 - 2 * i = 2 * (15 - i)" "31 - 2 * i = 2 * (15 - i) + 1" using that by auto
    then show ?thesis using nth_flat [of "15 - i" ps] that assms by (simp add: rev_nth)
  qed
  then have "des_reverse (flat ps) = concat (map (\<lambda>i. [fst (rev ps ! i), snd (rev ps ! i)]) [0..<16])"
    unfolding des_reverse_def by (intro arg_cong [where f = concat] map_cong) simp_all
  also have "\<dots> = flat (map ((!) (rev ps)) [0..<length (rev ps)])"
    using assms by (simp add: flat_def o_def split_beta)
  also have "\<dots> = flat (rev ps)" by (simp only: map_nth)
  finally show ?thesis .
qed

lemma four_bytes:
  "push_bit 24 (ucast (ucast (drop_bit 24 n) :: byte)) OR push_bit 16 (ucast (ucast (drop_bit 16 n) :: byte)) OR
   push_bit 8 (ucast (ucast (drop_bit 8 n) :: byte)) OR ucast (ucast n :: byte) = n" for n :: u32
proof (rule bit_word_eqI)
  fix k assume "k < LENGTH(32)"
  then consider "k < 8" | "8 \<le> k" "k < 16" | "16 \<le> k" "k < 24" | "24 \<le> k" "k < 32" by fastforce
  then show "bit (push_bit 24 (ucast (ucast (drop_bit 24 n) :: byte)) OR push_bit 16 (ucast (ucast (drop_bit 16 n) :: byte)) OR
   push_bit 8 (ucast (ucast (drop_bit 8 n) :: byte)) OR ucast (ucast n :: byte) :: u32) k = bit n k"
    by cases (auto simp: bit_simps)
qed

lemma GET_PUT:
  "GET_UINT32 (PUT_UINT32 n @ b) 0 = n"
  "GET_UINT32 (PUT_UINT32 m @ PUT_UINT32 n) 4 = n"
  using four_bytes [of n] by (simp_all add: GET_UINT32_def PUT_UINT32_def)

lemma length_PUT [simp]: "length (PUT_UINT32 n) = 4"
  by (simp add: PUT_UINT32_def)

lemma PUT_GET:
  assumes "length s = 8"
  shows "PUT_UINT32 (GET_UINT32 s 0) @ PUT_UINT32 (GET_UINT32 s 4) = s"
proof -
  have e: "[ucast (drop_bit 24 n), ucast (drop_bit 16 n), ucast (drop_bit 8 n), ucast n] = [a, b, c, d]"
    if "n = push_bit 24 (ucast a) OR push_bit 16 (ucast b) OR push_bit 8 (ucast c) OR ucast d"
    for n :: u32 and a b c d :: byte
    unfolding that by (simp, intro conjI bit_word_eqI) (auto simp: bit_simps dest: bit_imp_le_length)
  have "PUT_UINT32 (GET_UINT32 s i) = [s ! i, s ! (i + 1), s ! (i + 2), s ! (i + 3)]" for i
    unfolding PUT_UINT32_def GET_UINT32_def by (rule e [OF refl])
  then show ?thesis
    using assms by (intro nth_equalityI) (auto simp: nth_append less_Suc_eq numeral_eq_Suc)
qed

lemma length_des_crypt [simp]: "length (des_crypt SK s) = 8"
  by (simp add: des_crypt_def Let_def split_beta)

lemma des_crypt_inverse:
  assumes "length s = 8"
  shows "des_crypt (des_reverse (des_main_ks key)) (des_crypt (des_main_ks key) s) = s"
proof -
  obtain ps where ps: "des_main_ks key = flat ps" "length ps = 16"
    using des_subkeys_flat [of "[0..<16]" "des_pc1 (GET_UINT32 key 0, GET_UINT32 key 4)"]
    unfolding des_main_ks_def by auto
  define X Y where "X = GET_UINT32 s 0" and "Y = GET_UINT32 s 4"
  let ?e = "prod.swap (des_rounds (flat ps) (DES_IP (X, Y)))"
  have c: "des_crypt SK t = PUT_UINT32 (fst q) @ PUT_UINT32 (snd q)"
    if "q = DES_FP (prod.swap (des_rounds SK (DES_IP (GET_UINT32 t 0, GET_UINT32 t 4))))" for SK t q
    using that by (simp add: des_crypt_def Let_def split_beta prod.swap_def)
  note e = c [where SK = "flat ps" and t = s, OF refl, folded X_def Y_def]
  have g: "(GET_UINT32 (des_crypt (flat ps) s) 0, GET_UINT32 (des_crypt (flat ps) s) 4) = DES_FP ?e"
    unfolding e by (simp add: GET_PUT)
  have "des_crypt (flat (rev ps)) (des_crypt (flat ps) s) = PUT_UINT32 X @ PUT_UINT32 Y"
    by (rule trans [OF c [OF refl]]) (simp add: g DES_IP_FP des_rounds_reverse ps(2) DES_FP_IP)
  then show ?thesis
    using PUT_GET [OF assms] des_reverse_flat [OF ps(2)] by (simp add: ps(1) X_def Y_def)
qed

section \<open>Encryption of strings\<close>

function block_map :: "(bytes \<Rightarrow> bytes) \<Rightarrow> bytes \<Rightarrow> bytes" where
  "block_map f s = (if 8 \<le> length s then f (take 8 s) @ block_map f (drop 8 s) else [])"
  by pat_completeness auto
termination by (relation "measure (\<lambda>(f, s). length s)") auto

declare block_map.simps [simp del]

lemma block_map_short [simp]: "length s < 8 \<Longrightarrow> block_map f s = []"
  by (subst block_map.simps) simp

lemma block_map_block: "length b = 8 \<Longrightarrow> block_map f (b @ s) = f b @ block_map f s"
  by (subst block_map.simps) simp

lemma block_map_last:
  "length t = 8 \<Longrightarrow> block_map f (take (length s div 8 * 8) s @ t) = block_map f s @ f t"
proof (induction f s rule: block_map.induct)
  case (1 f s)
  show ?case
  proof (cases "8 \<le> length s")
    case True
    then have "take (length s div 8 * 8) s @ t = take 8 s @ (take (length (drop 8 s) div 8 * 8) (drop 8 s) @ t)"
      by (simp add: le_div_geq take_add)
    then show ?thesis using 1 True by (simp add: block_map_block block_map.simps [of f s])
  next
    case False
    then show ?thesis using 1(2) block_map_block [of t f "[]"] by (simp add: not_le)
  qed
qed

lemma length_block_map:
  "(\<And>b. length (f b) = 8) \<Longrightarrow> length (block_map f s) = length s div 8 * 8"
proof (induction f s rule: block_map.induct)
  case (1 f s)
  then show ?case by (subst block_map.simps) (auto simp: le_div_geq)
qed

lemma block_map_inverse:
  assumes "\<And>b. length b = 8 \<Longrightarrow> g (f b) = b" "\<And>b. length (f b) = 8" "length s mod 8 = 0"
  shows "block_map g (block_map f s) = s"
  using assms(3)
proof (induction s rule: length_induct)
  case (1 s)
  show ?case
  proof (cases "8 \<le> length s")
    case True
    moreover have "(length s - 8) mod 8 = 0" using 1(2) True by presburger
    ultimately have "length (drop 8 s) < length s" "length (drop 8 s) mod 8 = 0"
      by simp_all
    then have "block_map g (block_map f (drop 8 s)) = drop 8 s" by (rule 1(1) [rule_format])
    moreover have "block_map f s = f (take 8 s) @ block_map f (drop 8 s)"
      using True by (subst block_map.simps) simp
    ultimately show ?thesis
      using True by (simp add: block_map_block [OF assms(2)] assms(1))
  next
    case False
    then have "s = []" using 1(2) by simp
    then show ?thesis by simp
  qed
qed

lemma des_blocks_spec:
  assumes "length pre = i" "length seen = i" "length todo div 8 * 8 \<le> length rest"
    and "\<And>j. int (i + 8 * j) < stop \<longleftrightarrow> 8 * (j + 1) \<le> length todo"
  shows "des_blocks SK (seen @ todo) stop i (pre @ rest) =
    Inr (i + length todo div 8 * 8,
         pre @ block_map (des_crypt SK) todo @ drop (length todo div 8 * 8) rest)"
  using assms
proof (induction "length todo" arbitrary: i pre "seen" todo rest rule: less_induct)
  case less
  show ?case
  proof (cases "8 \<le> length todo")
    case True
    have n: "length todo div 8 * 8 = 8 + length (drop 8 todo) div 8 * 8"
      using True by (simp add: le_div_geq)
    let ?f = "des_crypt SK (take 8 todo)"
    have w: "mem_write (pre @ rest) i ?f = Inr ((pre @ ?f) @ drop 8 rest)"
      using less.prems(1,3) n by (simp add: mem_write_def)
    have r: "mem_read (seen @ todo) i 8 = Inr (take 8 todo)"
      using less.prems(2) True by (simp add: mem_read_def)
    have "des_blocks SK ((seen @ take 8 todo) @ drop 8 todo) stop (i + 8) ((pre @ ?f) @ drop 8 rest) =
      Inr (i + 8 + length (drop 8 todo) div 8 * 8,
         (pre @ ?f) @ block_map (des_crypt SK) (drop 8 todo) @ drop (length (drop 8 todo) div 8 * 8) (drop 8 rest))"
    proof (rule less.hyps)
      show "int (i + 8 + 8 * j) < stop \<longleftrightarrow> 8 * (j + 1) \<le> length (drop 8 todo)" for j
        using less.prems(4) [of "Suc j"] by auto
    qed (use less.prems n True in auto)
    moreover have "int i < stop" using less.prems(4) [of 0] True by simp
    ultimately show ?thesis
      using True n w r by (simp add: des_blocks.simps [of SK "seen @ todo"] block_map.simps [of _ todo] add.commute)
  next
    case False
    then have "\<not> int i < stop" using less.prems(4) [of 0] by simp
    then show ?thesis using False by (simp add: des_blocks.simps)
  qed
qed

text \<open>The padding: a byte 0x80, and zeros up to a whole number of blocks.\<close>

definition padded :: "bytes \<Rightarrow> bytes" where
  "padded txt = txt @ 0x80 # replicate (7 - length txt mod 8) 0"

lemma add_8_blocks: "(n + 8) div 8 * 8 = n div 8 * 8 + (8 :: nat)"
  by presburger

lemma length_padded: "length (padded txt) = (length txt + 8) div 8 * 8"
proof -
  have "n + (8 - n mod 8) = n div 8 * 8 + (8 :: nat)" for n by presburger
  from this [of "length txt"] show ?thesis by (simp add: padded_def add_8_blocks Suc_diff_le)
qed

lemma ldesencode_spec:
  assumes "length key = 8"
  shows "ldesencode key txt = Inr (block_map (des_crypt (des_main_ks key)) (padded txt))"
proof -
  let ?SK = "des_main_ks key" and ?n = "length txt" and ?m = "length txt div 8 * 8"
  let ?buf = "chunk_buffer ((?n + 8) div 8 * 8)"
  let ?tail = "map (\<lambda>j. if j < ?n - ?m then txt ! (?m + j) else if j = ?n - ?m then 0x80 else 0) [0..<8]"
  note len = add_8_blocks [of ?n]
  then have buf: "?m + 8 \<le> length ?buf" unfolding len by (simp add: chunk_buffer_def)
  have "int (0 + 8 * j) < int ?n - 7 \<longleftrightarrow> 8 * (j + 1) \<le> length txt" for j by presburger
  then have loop: "des_blocks ?SK txt (int ?n - 7) 0 ?buf =
     Inr (?m, block_map (des_crypt ?SK) txt @ drop ?m ?buf)"
    using buf by (simp add: des_blocks_spec [where pre = "[]" and i = 0 and seen = "[]", simplified])
  have l: "length (block_map (des_crypt ?SK) txt) = ?m" by (rule length_block_map) simp
  have r: "?n - ?m = ?n mod 8" "?n mod 8 < 8" by (simp_all add: minus_div_mult_eq_mod)
  have "?tail = drop ?m txt @ 0x80 # replicate (7 - ?n mod 8) 0"
    using r by (intro nth_equalityI) (auto simp: nth_append nth_Cons' add.commute)
  then have tail: "take ?m txt @ ?tail = padded txt" by (simp add: padded_def)
  have "mem_write (block_map (des_crypt ?SK) txt @ drop ?m ?buf) ?m (des_crypt ?SK ?tail) =
     Inr (block_map (des_crypt ?SK) (padded txt) @ drop (?m + 8) ?buf)"
    using l buf block_map_last [of ?tail "des_crypt ?SK" "txt"] unfolding tail
    by (simp add: mem_write_def add.commute)
  moreover have "length (block_map (des_crypt ?SK) (padded txt)) = ?m + 8"
    using length_block_map [of "des_crypt ?SK" "padded txt"] by (simp add: length_padded add_8_blocks)
  ultimately show ?thesis
    using assms loop len by (simp add: ldesencode_def des_key_def Let_def mem_read_def)
qed

section \<open>Decryption\<close>

lemma of_int_u64: "0 \<le> i \<Longrightarrow> i < 2 ^ 64 \<Longrightarrow> uint (of_int i :: u64) = i"
  by (simp add: unsigned_of_int take_bit_int_eq_self)

lemma des_padding_spec:
  assumes "n = length s + 1 + k" "k < 8" "n < 2 ^ 63" "j \<le> k"
  shows "des_padding n (s @ 0x80 # replicate k 0 @ rest) (int (length s + j)) p = Inr (p + j)"
  using assms(4)
proof (induction j arbitrary: p)
  case 0
  have "\<not> uint (of_int (int (length s)) :: u64) < int n - 8"
    using assms by (subst of_int_u64) auto
  then show ?case by (simp add: des_padding.simps [of n] mem_read_def)
next
  case (Suc j)
  let ?b = "s @ 0x80 # replicate k 0 @ rest"
  define i where "i = int (length s + Suc j)"
  have i: "0 \<le> i" "i - 1 = int (length s + j)" "nat i = length s + Suc j" by (simp_all add: i_def)
  have u: "\<not> uint (of_int i :: u64) < int n - 8"
    using assms Suc.prems by (subst of_int_u64) (auto simp: i_def)
  have "take 1 (drop (length s + Suc j) ?b) = [0]"
    using Suc.prems by (simp add: take_Suc_conv_app_nth nth_append)
  then have "mem_read ?b (nat i) 1 = Inr [0]"
    using Suc.prems by (simp add: i(3) mem_read_def)
  then have "des_padding n ?b i p = des_padding n ?b (i - 1) (p + 1)"
    using u i(1) by (subst des_padding.simps) simp
  then show ?case using Suc unfolding i(2) by (simp add: i_def)
qed

lemma ldesdecode_blocks:
  assumes "length key = 8" "length c mod 8 = 0" "c \<noteq> []"
  shows "\<exists>rest. length rest = length (chunk_buffer (length c)) - length c \<and>
    ldesdecode key c =
     (let buffer = block_map (des_crypt (des_reverse (des_main_ks key))) c @ rest in
      bind_r (des_padding (length c) buffer (int (length c) - 1) 1) (\<lambda>padding.
        if 8 < padding then Inl (Lua_error ''Invalid des crypt text'')
        else mem_read buffer 0 (length c - padding)))"
proof -
  let ?SK = "des_reverse (des_main_ks key)" and ?buf = "chunk_buffer (length c)"
  have n: "length c div 8 * 8 = length c" using assms(2) by presburger
  have buf: "length c \<le> length ?buf" by (simp add: chunk_buffer_def)
  have "int (0 + 8 * j) < int (length c) \<longleftrightarrow> 8 * (j + 1) \<le> length c" for j
    using assms(2) by presburger
  then have "des_blocks ?SK c (int (length c)) 0 ?buf =
     Inr (length c, block_map (des_crypt ?SK) c @ drop (length c) ?buf)"
    using des_blocks_spec [where pre = "[]" and i = 0 and seen = "[]" and todo = c and rest = "?buf" and SK = "?SK"]
      buf n by simp
  then show ?thesis
    using assms by (intro exI [of _ "drop (length c) ?buf"]) (simp add: ldesdecode_def des_key_def Let_def)
qed

text \<open>
  C32: Decryption undoes encryption: with any key of eight bytes, every text comes back from its encryption
  without the padding, also the empty one and one that ends with bytes of the padding.
\<close>

theorem des_roundtrip:
  assumes "length key = 8" "length s < 2 ^ 31"
  shows "bind_r (ldesencode key s) (ldesdecode key) = Inr s"
proof -
  let ?f = "des_crypt (des_main_ks key)" and ?g = "des_crypt (des_reverse (des_main_ks key))"
  let ?c = "block_map ?f (padded s)" and ?k = "7 - length s mod 8"
  have m: "length (padded s) mod 8 = 0" by (simp add: length_padded)
  have lp: "length (padded s) = length s + 1 + ?k" by (simp add: padded_def)
  have len: "length ?c = length (padded s)"
    using length_block_map [of ?f "padded s"] m by (simp only: length_des_crypt) presburger
  then have c: "length ?c mod 8 = 0" "?c \<noteq> []" using m lp by auto
  have inv: "block_map ?g ?c = padded s"
    by (rule block_map_inverse) (use m des_crypt_inverse in auto)
  obtain rest where d: "ldesdecode key ?c =
     (let buffer = block_map ?g ?c @ rest in
      bind_r (des_padding (length ?c) buffer (int (length ?c) - 1) 1) (\<lambda>padding.
        if 8 < padding then Inl (Lua_error ''Invalid des crypt text'')
        else mem_read buffer 0 (length ?c - padding)))"
    using ldesdecode_blocks [OF assms(1) c] by blast
  have "des_padding (length ?c) (padded s @ rest) (int (length ?c) - 1) 1 = Inr (1 + ?k)"
  proof -
    have i: "int (length ?c) - 1 = int (length s + ?k)" using len lp by simp
    have p: "padded s @ rest = s @ 0x80 # replicate ?k 0 @ rest" by (simp add: padded_def)
    show ?thesis unfolding i p
      by (rule des_padding_spec) (use len lp assms(2) in auto)
  qed
  moreover have "mem_read (padded s @ rest) 0 (length ?c - (1 + ?k)) = Inr s"
    using len lp by (simp add: mem_read_def padded_def)
  ultimately show ?thesis
    using d unfolding inv ldesencode_spec [OF assms(1)] by (simp add: Let_def)
qed

theorem des_roundtrip_witness:
  "bind_r (ldesencode [1, 2, 3, 4, 5, 6, 7, 8] [0x68, 0x80, 0x00]) (ldesdecode [1, 2, 3, 4, 5, 6, 7, 8]) =
     Inr [0x68, 0x80, 0x00]"
  using des_roundtrip [of "[1, 2, 3, 4, 5, 6, 7, 8]" "[0x68, 0x80, 0x00]"] by simp

lemma des_padding_zeros:
  assumes "\<And>j. j < 8 \<Longrightarrow> mem_read b j 1 = Inr [0]"
  shows "n \<le> 8 \<Longrightarrow> des_padding 8 b (int n - 1) p = Inl Out_of_bounds"
proof (induction n arbitrary: p)
  case 0
  then show ?case by (simp add: des_padding.simps)
next
  case (Suc n)
  then show ?case
    using assms [of n] by (simp add: des_padding.simps [of 8 b "int n"])
qed

text \<open>
  C34: A text of one block that decrypts to zeros only makes \<open>desdecode\<close> read in front of its buffer: the
  search for the end of the padding compares an \<open>int\<close> with the unsigned 0 and does not stop at the start.
  There is such a text for every key.
\<close>

theorem des_decode_reads_before_buffer:
  assumes "length key = 8"
  shows "ldesdecode key (des_crypt (des_main_ks key) (replicate 8 0)) = Inl Out_of_bounds"
proof -
  let ?c = "des_crypt (des_main_ks key) (replicate 8 0)"
  let ?g = "des_crypt (des_reverse (des_main_ks key))"
  have "block_map ?g ?c = replicate 8 0"
    using block_map_block [of ?c ?g "[]"] des_crypt_inverse [of "replicate 8 0" key] by simp
  moreover have "?c \<noteq> []" using length_des_crypt [of "des_main_ks key" "replicate 8 0"] by fastforce
  ultimately obtain rest where d: "ldesdecode key ?c =
     (let buffer = replicate 8 0 @ rest in
      bind_r (des_padding 8 buffer (int 8 - 1) 1) (\<lambda>padding.
        if 8 < padding then Inl (Lua_error ''Invalid des crypt text'')
        else mem_read buffer 0 (8 - padding)))"
    using ldesdecode_blocks [OF assms, of ?c] unfolding length_des_crypt by auto
  have "mem_read (replicate 8 0 @ rest) j 1 = Inr [0]" if "j < 8" for j
    using that by (simp add: mem_read_def take_Suc_conv_app_nth nth_append)
  from des_padding_zeros [OF this, of 8] show ?thesis using d by simp
qed

theorem des_decode_reads_before_buffer_witness:
  "ldesdecode (replicate 8 0) (des_crypt (des_main_ks (replicate 8 0)) (replicate 8 0)) = Inl Out_of_bounds"
  by (rule des_decode_reads_before_buffer) simp

end
