(* ===== verification/Crypt.thy ===== *)
theory Crypt
  imports Des
begin

text \<open>
  The rest of \<open>src/3rd/skynet/lualib-src/lua-crypt.c\<close>: keys from strings, the keyed hash of the login
  protocol, the exchange of a secret, the text encodings and the mixing of two strings. Strings are
  shorter than \<open>2 ^ 31\<close> bytes, so that their sizes fit the \<open>int\<close>s of the code.
\<close>

section \<open>Keys\<close>

text \<open>\<open>rand i\<close> is the result of the call of \<open>random\<close> in the round \<open>i\<close> of the loop.\<close>

definition lrandomkey :: "(nat \<Rightarrow> u64) \<Rightarrow> bytes" where
  "lrandomkey rand =
     (let tmp = map (\<lambda>i. ucast (rand i AND 0xff)) [0..<8];
          x = foldl (\<lambda>x b. x XOR b) 0 tmp
      in if x = 0 then tmp[0 := (tmp ! 0) OR 1] else tmp)"

fun hash_loop :: "bytes \<Rightarrow> u32 \<times> u32 \<Rightarrow> u32 \<times> u32" where
  "hash_loop [] h = h"
| "hash_loop (c # cs) (djb_hash, js_hash) =
     hash_loop cs
       (djb_hash + (push_bit 5 djb_hash + ucast c),
        js_hash XOR (push_bit 5 js_hash + ucast c + drop_bit 2 js_hash))"

definition Hash :: "bytes \<Rightarrow> bytes" where
  "Hash str = (let (djb_hash, js_hash) = hash_loop str (5381, 1315423911) in le32 djb_hash @ le32 js_hash)"

definition lhashkey :: "bytes \<Rightarrow> bytes" where
  "lhashkey key = Hash key"

section \<open>The keyed hash\<close>

definition k_table :: "u32 list" where
  "k_table = [
    0xd76aa478, 0xe8c7b756, 0x242070db, 0xc1bdceee, 0xf57c0faf, 0x4787c62a, 0xa8304613, 0xfd469501,
    0x698098d8, 0x8b44f7af, 0xffff5bb1, 0x895cd7be, 0x6b901122, 0xfd987193, 0xa679438e, 0x49b40821,
    0xf61e2562, 0xc040b340, 0x265e5a51, 0xe9b6c7aa, 0xd62f105d, 0x02441453, 0xd8a1e681, 0xe7d3fbc8,
    0x21e1cde6, 0xc33707d6, 0xf4d50d87, 0x455a14ed, 0xa9e3e905, 0xfcefa3f8, 0x676f02d9, 0x8d2a4c8a,
    0xfffa3942, 0x8771f681, 0x6d9d6122, 0xfde5380c, 0xa4beea44, 0x4bdecfa9, 0xf6bb4b60, 0xbebfbc70,
    0x289b7ec6, 0xeaa127fa, 0xd4ef3085, 0x04881d05, 0xd9d4d039, 0xe6db99e5, 0x1fa27cf8, 0xc4ac5665,
    0xf4292244, 0x432aff97, 0xab9423a7, 0xfc93a039, 0x655b59c3, 0x8f0ccc92, 0xffeff47d, 0x85845dd1,
    0x6fa87e4f, 0xfe2ce6e0, 0xa3014314, 0x4e0811a1, 0xf7537e82, 0xbd3af235, 0x2ad7d2bb, 0xeb86d391]"

definition r_table :: "nat list" where
  "r_table = [
    7, 12, 17, 22, 7, 12, 17, 22, 7, 12, 17, 22, 7, 12, 17, 22,
    5, 9, 14, 20, 5, 9, 14, 20, 5, 9, 14, 20, 5, 9, 14, 20,
    4, 11, 16, 23, 4, 11, 16, 23, 4, 11, 16, 23, 4, 11, 16, 23,
    6, 10, 15, 21, 6, 10, 15, 21, 6, 10, 15, 21, 6, 10, 15, 21]"

definition LEFTROTATE :: "u32 \<Rightarrow> nat \<Rightarrow> u32" where
  "LEFTROTATE x c = push_bit c x OR drop_bit (32 - c) x"

text \<open>The four variables of the rounds, over the rounds that are left.\<close>

fun hmac_loop :: "u32 list \<Rightarrow> nat list \<Rightarrow> u32 \<times> u32 \<times> u32 \<times> u32 \<Rightarrow> u32 \<times> u32 \<times> u32 \<times> u32" where
  "hmac_loop w [] s = s"
| "hmac_loop w (i # is) (a, b, c, d) =
     (let (f, g) =
        (if i < 16 then ((b AND c) OR (NOT b AND d), i)
         else if i < 32 then ((d AND b) OR (NOT d AND c), (5 * i + 1) mod 16)
         else if i < 48 then (b XOR c XOR d, (3 * i + 5) mod 16)
         else (c XOR (b OR NOT d), (7 * i) mod 16))
      in hmac_loop w is (d, b + LEFTROTATE (a + f + k_table ! i + w ! g) (r_table ! i), b, c))"

definition hmac :: "u32 \<times> u32 \<Rightarrow> u32 \<times> u32 \<Rightarrow> u32 \<times> u32" where
  "hmac x y =
     (let w = concat (replicate 4 [snd x, fst x, snd y, fst y]);
          (a, b, c, d) = hmac_loop w [0..<64] (0x67452301, 0xefcdab89, 0x98badcfe, 0x10325476)
      in (c XOR d, a XOR b))"

definition two_words :: "bytes \<Rightarrow> u32 \<times> u32" where
  "two_words x = (of_le (take 4 x), of_le (take 4 (drop 4 x)))"

definition read64 :: "bytes \<Rightarrow> bytes \<Rightarrow> ((u32 \<times> u32) \<times> (u32 \<times> u32)) res" where
  "read64 x y =
     (if length x \<noteq> 8 then Inl (Lua_error ''Invalid uint64 x'')
      else if length y \<noteq> 8 then Inl (Lua_error ''Invalid uint64 y'')
      else Inr (two_words x, two_words y))"

definition pushqword :: "u32 \<times> u32 \<Rightarrow> bytes" where
  "pushqword result = le32 (fst result) @ le32 (snd result)"

definition lhmac64 :: "bytes \<Rightarrow> bytes \<Rightarrow> bytes res" where
  "lhmac64 x y = bind_r (read64 x y) (\<lambda>(x, y). Inr (pushqword (hmac x y)))"

definition lhmac_hash :: "bytes \<Rightarrow> bytes \<Rightarrow> bytes res" where
  "lhmac_hash x txt =
     (if length x \<noteq> 8 then Inl (Lua_error ''Invalid uint64 key'')
      else Inr (pushqword (hmac (two_words (Hash txt)) (two_words x))))"

section \<open>The exchange of a secret\<close>

definition P_dh :: u64 where "P_dh = 0xffffffffffffffc5"
definition G_dh :: u64 where "G_dh = 5"

lemma unat_shift: "unat (drop_bit 1 b) = unat b div 2" for b :: u64
  by (rule trans [OF unat_drop_bit_eq]) (simp add: drop_bit_eq_div)

function mul_loop :: "u64 \<Rightarrow> u64 \<Rightarrow> u64 \<Rightarrow> u64" where
  "mul_loop a b m =
     (if b = 0 then m
      else
        let m = (if b AND 1 \<noteq> 0 then let t = P_dh - a in if t \<le> m then m - t else m + a else m);
            a = (if P_dh - a \<le> a then a * 2 - P_dh else a * 2)
        in mul_loop a (drop_bit 1 b) m)"
  by pat_completeness auto
termination
proof (relation "measure (\<lambda>(a, b, m). unat b)", goal_cases)
  case (2 a b m)
  then have "0 < unat b" by (simp add: unat_gt_0)
  then show ?case by (simp only: in_measure prod.case unat_shift)
qed simp

declare mul_loop.simps [simp del]

definition mul_mod_p :: "u64 \<Rightarrow> u64 \<Rightarrow> u64" where
  "mul_mod_p a b = mul_loop a b 0"

text \<open>For the exponent 0 the recursion of the C function does not end; both callers refuse it.\<close>

function pow_mod_p :: "u64 \<Rightarrow> u64 \<Rightarrow> u64 res" where
  "pow_mod_p a b =
     (if b = 0 then Inl Diverges
      else if b = 1 then Inr a
      else bind_r (pow_mod_p a (drop_bit 1 b)) (\<lambda>t.
             let t = mul_mod_p t t in Inr (if b mod 2 \<noteq> 0 then mul_mod_p t a else t)))"
  by pat_completeness auto
termination
proof (relation "measure (\<lambda>(a, b). unat b)", goal_cases)
  case (2 a b)
  then have "0 < unat b" by (simp add: unat_gt_0)
  then show ?case by (simp only: in_measure prod.case unat_shift)
qed simp

declare pow_mod_p.simps [simp del]

definition powmodp :: "u64 \<Rightarrow> u64 \<Rightarrow> u64 res" where
  "powmodp a b = pow_mod_p (if P_dh < a then a mod P_dh else a) b"

definition push64 :: "u64 \<Rightarrow> bytes" where
  "push64 r = le64 r"

definition qword :: "u32 \<times> u32 \<Rightarrow> u64" where
  "qword x = ucast (fst x) OR push_bit 32 (ucast (snd x))"

definition ldhsecret :: "bytes \<Rightarrow> bytes \<Rightarrow> bytes res" where
  "ldhsecret x y =
     bind_r (read64 x y) (\<lambda>(x, y).
       if qword x = 0 \<or> qword y = 0 then Inl (Lua_error ''Can't be 0'')
       else bind_r (powmodp (qword x) (qword y)) (\<lambda>r. Inr (push64 r)))"

definition ldhexchange :: "bytes \<Rightarrow> bytes res" where
  "ldhexchange x =
     (if length x \<noteq> 8 then Inl (Lua_error ''Invalid dh uint64 key'')
      else if qword (two_words x) = 0 then Inl (Lua_error ''Can't be 0'')
      else bind_r (powmodp 5 (qword (two_words x))) (\<lambda>r. Inr (push64 r)))"

section \<open>Hexadecimal text\<close>

definition hex :: bytes where
  "hex = map of_char ''0123456789abcdef''"

fun tohex_loop :: "bytes \<Rightarrow> nat \<Rightarrow> bytes \<Rightarrow> bytes res" where
  "tohex_loop [] i buffer = Inr buffer"
| "tohex_loop (c # cs) i buffer =
     bind_r (mem_write buffer (i * 2) [hex ! unat (drop_bit 4 c), hex ! unat (c AND 0xf)])
       (tohex_loop cs (i + 1))"

definition ltohex :: "bytes \<Rightarrow> bytes res" where
  "ltohex txt =
     (let sz = length txt in
      bind_r (tohex_loop txt 0 (chunk_buffer (sz * 2))) (\<lambda>buffer. mem_read buffer 0 (sz * 2)))"

definition HEX :: "byte \<Rightarrow> byte" where
  "HEX c = (if 0x30 \<le> c \<and> c \<le> 0x39 then c - 0x30 else c - 0x61 + 10)"

text \<open>\<open>txt\<close> is the text from \<open>i\<close> on, with the zero byte that ends a Lua string.\<close>

fun fromhex_loop :: "nat \<Rightarrow> bytes \<Rightarrow> nat \<Rightarrow> bytes \<Rightarrow> (nat \<times> bytes) res" where
  "fromhex_loop sz (x # y # txt) i buffer =
     (if i < sz then
        let hi = HEX x; low = HEX y in
        if 16 < hi \<or> 16 < low then Inl (Lua_error ''Invalid hex text'')
        else bind_r (mem_write buffer (i div 2) [push_bit 4 hi OR low]) (fromhex_loop sz txt (i + 2))
      else Inr (i, buffer))"
| "fromhex_loop sz txt i buffer = (if i < sz then Inl Out_of_bounds else Inr (i, buffer))"

definition lfromhex :: "bytes \<Rightarrow> bytes res" where
  "lfromhex txt =
     (let sz = length txt in
      if of_nat sz AND (2 :: u64) \<noteq> 0 then Inl (Lua_error ''Invalid hex text size'')
      else bind_r (fromhex_loop sz (txt @ [0]) 0 (replicate (if SMALL_CHUNK * 2 < sz then sz div 2 else SMALL_CHUNK) 0))
             (\<lambda>(i, buffer). mem_read buffer 0 (i div 2)))"

section \<open>Base64\<close>

definition encoding :: bytes where
  "encoding = map of_char ''ABCDEFGHIJKLMNOPQRSTUVWXYZabcdefghijklmnopqrstuvwxyz0123456789+/''"

text \<open>The loop over the groups of three bytes, and the rest of one or two bytes behind them.\<close>

fun b64encode_loop :: "bytes \<Rightarrow> nat \<Rightarrow> bytes \<Rightarrow> bytes res" where
  "b64encode_loop (x # y # z # txt) j buffer =
     (let v = push_bit 16 (ucast x) OR push_bit 8 (ucast y) OR ucast z :: u32 in
      bind_r (mem_write buffer j
          [encoding ! unat (drop_bit 18 v), encoding ! unat (drop_bit 12 v AND 0x3f),
           encoding ! unat (drop_bit 6 v AND 0x3f), encoding ! unat (v AND 0x3f)])
        (b64encode_loop txt (j + 4)))"
| "b64encode_loop [x, y] j buffer =
     (let v = push_bit 8 (ucast x) OR ucast y :: u32 in
      mem_write buffer j
        [encoding ! unat (drop_bit 10 v), encoding ! unat (drop_bit 4 v AND 0x3f),
         encoding ! unat (push_bit 2 (v AND 0xf)), 0x3D])"
| "b64encode_loop [x] j buffer =
     (let v = ucast x :: u32 in
      mem_write buffer j
        [encoding ! unat (drop_bit 2 v), encoding ! unat (push_bit 4 (v AND 3)), 0x3D, 0x3D])"
| "b64encode_loop [] j buffer = Inr buffer"

definition lb64encode :: "bytes \<Rightarrow> bytes res" where
  "lb64encode txt =
     (let encode_sz = (length txt + 2) div 3 * 4 in
      bind_r (b64encode_loop txt 0 (chunk_buffer encode_sz)) (\<lambda>buffer. mem_read buffer 0 encode_sz))"

definition b64_decoding :: "int list" where
  "b64_decoding = [
    62, - 1, - 1, - 1, 63, 52, 53, 54, 55, 56, 57, 58, 59, 60, 61, - 1,
    - 1, - 1, - 2, - 1, - 1, - 1, 0, 1, 2, 3, 4, 5, 6, 7, 8, 9,
    10, 11, 12, 13, 14, 15, 16, 17, 18, 19, 20, 21, 22, 23, 24, 25,
    - 1, - 1, - 1, - 1, - 1, - 1, 26, 27, 28, 29, 30, 31, 32, 33, 34, 35,
    36, 37, 38, 39, 40, 41, 42, 43, 44, 45, 46, 47, 48, 49, 50, 51]"

definition b64index :: "byte \<Rightarrow> int" where
  "b64index c =
     (if c < 43 then - 1
      else if length b64_decoding \<le> unat (c - 43) then - 1
      else b64_decoding ! unat (c - 43))"

text \<open>The inner loop: the next four characters of the alphabet or \<open>=\<close>, and the number of \<open>=\<close>.\<close>

fun b64_quad :: "bytes \<Rightarrow> int list \<Rightarrow> nat \<Rightarrow> (int list \<times> nat \<times> bytes) res" where
  "b64_quad [] c padding =
     (if length c < 4 then Inl (Lua_error ''Invalid base64 text'') else Inr (c, padding, []))"
| "b64_quad (t # txt) c padding =
     (if length c < 4 then
        let x = b64index t in
        if x = - 1 then b64_quad txt c padding
        else b64_quad txt (c @ [x]) (if x = - 2 then padding + 1 else padding)
      else Inr (c, padding, t # txt))"

text \<open>The bytes that a group stands for.\<close>

definition b64_group :: "int list \<Rightarrow> nat \<Rightarrow> bytes res" where
  "b64_group c padding =
     (if padding = 0 then
        let v = push_bit 18 (of_int (c ! 0)) OR push_bit 12 (of_int (c ! 1)) OR push_bit 6 (of_int (c ! 2)) OR
                of_int (c ! 3) :: u32
        in Inr [ucast (drop_bit 16 v), ucast (drop_bit 8 v AND 0xff), ucast (v AND 0xff)]
      else if padding = 1 then
        if c ! 3 \<noteq> - 2 \<or> c ! 2 AND 3 \<noteq> 0 then Inl (Lua_error ''Invalid base64 text'')
        else let v = push_bit 10 (of_int (c ! 0)) OR push_bit 4 (of_int (c ! 1)) OR of_int (drop_bit 2 (c ! 2)) :: u32
             in Inr [ucast (drop_bit 8 v), ucast (v AND 0xff)]
      else if padding = 2 then
        if c ! 3 \<noteq> - 2 \<or> c ! 2 \<noteq> - 2 \<or> c ! 1 AND 0xf \<noteq> 0 then Inl (Lua_error ''Invalid base64 text'')
        else let v = push_bit 2 (of_int (c ! 0)) OR of_int (drop_bit 4 (c ! 1)) :: u32 in Inr [ucast v]
      else Inl (Lua_error ''Invalid base64 text''))"

lemma b64_quad_consumes:
  "b64_quad txt c padding = Inr (c', p', rest) \<Longrightarrow> length rest + (4 - length c) \<le> length txt"
  by (induction "txt" c padding rule: b64_quad.induct) (auto simp: Let_def split: if_splits)

function b64decode_loop :: "bytes \<Rightarrow> nat \<Rightarrow> bytes \<Rightarrow> (nat \<times> bytes) res" where
  "b64decode_loop [] output buffer = Inr (output, buffer)"
| "b64decode_loop (t # txt) output buffer =
     (case b64_quad (t # txt) [] 0 of
        Inl e \<Rightarrow> Inl e
      | Inr (c, padding, rest) \<Rightarrow>
          bind_r (b64_group c padding) (\<lambda>bs.
            bind_r (mem_write buffer output bs) (b64decode_loop rest (output + length bs))))"
  by pat_completeness auto
termination
  by (relation "measure (\<lambda>(txt, output, buffer). length txt)") (auto dest: b64_quad_consumes simp del: b64_quad.simps)

definition lb64decode :: "bytes \<Rightarrow> bytes res" where
  "lb64decode txt =
     bind_r (b64decode_loop txt 0 (chunk_buffer ((length txt + 3) div 4 * 3)))
       (\<lambda>(output, buffer). mem_read buffer 0 output)"

section \<open>Mixing\<close>

definition lxor_str :: "bytes \<Rightarrow> bytes \<Rightarrow> bytes res" where
  "lxor_str s1 s2 =
     (if length s2 = 0 then Inl (Lua_error ''Can't xor empty string'')
      else Inr (map (\<lambda>i. s1 ! i XOR s2 ! (i mod length s2)) [0..<length s1]))"

section \<open>The text encodings\<close>

definition hexs :: "bytes \<Rightarrow> bytes" where
  "hexs s = concat (map (\<lambda>c. [hex ! unat (drop_bit 4 c), hex ! unat (c AND 0xf)]) s)"

lemma length_hexs: "length (hexs s) = length s * 2"
  by (induction s) (simp_all add: hexs_def)

lemma tohex_loop_spec:
  "length pre = i * 2 \<Longrightarrow> length cs * 2 \<le> length rest \<Longrightarrow>
     tohex_loop cs i (pre @ rest) = Inr (pre @ hexs cs @ drop (length cs * 2) rest)"
proof (induction cs arbitrary: i pre rest)
  case (Cons c cs)
  let ?d = "[hex ! unat (drop_bit 4 c), hex ! unat (c AND 0xf)]"
  have "tohex_loop cs (i + 1) ((pre @ ?d) @ drop 2 rest) =
      Inr ((pre @ ?d) @ hexs cs @ drop (length cs * 2) (drop 2 rest))"
    by (rule Cons.IH) (use Cons.prems in auto)
  then show ?case
    using Cons.prems mem_write_at [of "i * 2" pre ?d rest] by (simp add: hexs_def numeral_2_eq_2)
qed (simp add: hexs_def)

lemma ltohex_spec: "ltohex s = Inr (hexs s)"
  using tohex_loop_spec [of "[]" 0 s "chunk_buffer (length s * 2)"] length_hexs [of s]
  by (simp add: ltohex_def chunk_buffer_def Let_def mem_read_def)

lemma HEX_hex: "n < 16 \<Longrightarrow> HEX (hex ! n) = of_nat n"
proof -
  have "\<forall>n \<in> set [0..<16]. HEX (hex ! n) = of_nat n" by code_simp
  then show "n < 16 \<Longrightarrow> HEX (hex ! n) = of_nat n" by simp
qed

lemma nibbles: "unat (drop_bit 4 c) < 16" "unat (c AND 0xf) < 16" for c :: byte
proof -
  have "unat (drop_bit 4 c) = unat c div 16"
    by (rule trans [OF unat_drop_bit_eq]) (simp add: drop_bit_eq_div)
  then show "unat (drop_bit 4 c) < 16" using unat_lt [of c] by simp
  have "c AND 0xf \<le> 0xf" by (rule word_and_le1)
  then show "unat (c AND 0xf) < 16" by (simp add: word_le_nat_alt)
qed

lemma HEX_digits:
  "HEX (hex ! unat (drop_bit 4 c)) = drop_bit 4 c" "HEX (hex ! unat (c AND 0xf)) = c AND 0xf"
  "\<not> 16 < drop_bit 4 c" "\<not> 16 < c AND 0xf" "push_bit 4 (drop_bit 4 c) OR (c AND 0xf) = c"
proof -
  show "HEX (hex ! unat (drop_bit 4 c)) = drop_bit 4 c" "HEX (hex ! unat (c AND 0xf)) = c AND 0xf"
    using HEX_hex [OF nibbles(1)] HEX_hex [OF nibbles(2)] by simp_all
  show "\<not> 16 < drop_bit 4 c" "\<not> 16 < c AND 0xf"
    using nibbles [of c] by (simp_all only: word_less_nat_alt not_less) simp_all
  have m: "(0xf :: byte) = mask 4" by (simp add: mask_eq_exp_minus_1)
  show "push_bit 4 (drop_bit 4 c) OR (c AND 0xf) = c"
    unfolding m by (rule bit_word_eqI) (auto simp: bit_simps not_less)
qed

lemma fromhex_loop_spec:
  "length pre = k \<Longrightarrow> length s \<le> length rest \<Longrightarrow> i = k * 2 \<Longrightarrow> sz = i + length s * 2 \<Longrightarrow>
     fromhex_loop sz (hexs s @ [0]) i (pre @ rest) = Inr (sz, pre @ s @ drop (length s) rest)"
proof (induction s arbitrary: k i pre rest)
  case (Cons c s)
  have "fromhex_loop sz (hexs s @ [0]) (i + 2) ((pre @ [c]) @ drop 1 rest) =
      Inr (sz, (pre @ [c]) @ s @ drop (length s) (drop 1 rest))"
    by (rule Cons.IH [of _ "Suc k"]) (use Cons.prems in auto)
  moreover have "mem_write (pre @ rest) (i div 2) [c] = Inr ((pre @ [c]) @ drop 1 rest)"
    using Cons.prems mem_write_at [of "i div 2" pre "[c]" rest] by simp
  ultimately show ?case
    using Cons.prems by (simp add: hexs_def HEX_digits Let_def)
qed (simp add: hexs_def)

text \<open>
  The hexadecimal text of a string is read back when the string has an even number of bytes, and is
  refused as a text of an invalid size otherwise: the test for an even number of digits is made with the
  bit 2 instead of the bit 1.
\<close>

theorem hex_roundtrip:
  "bind_r (ltohex s) lfromhex =
     (if even (length s) then Inr s else Inl (Lua_error ''Invalid hex text size''))"
proof -
  let ?n = "length s * 2"
  let ?buf = "replicate (if SMALL_CHUNK * 2 < ?n then ?n div 2 else SMALL_CHUNK) (0 :: byte)"
  have b: "length s \<le> length ?buf" by simp
  have "fromhex_loop ?n (hexs s @ [0]) 0 ?buf = Inr (?n, s @ drop (length s) ?buf)"
    using fromhex_loop_spec [of "[]" 0 s ?buf 0 ?n] b by simp
  then have r: "bind_r (fromhex_loop ?n (hexs s @ [0]) 0 ?buf) (\<lambda>(i, buffer). mem_read buffer 0 (i div 2)) = Inr s"
    by (simp add: mem_read_def)
  have "(of_nat ?n AND (2 :: u64) \<noteq> 0) = odd (length s)"
  proof -
    have "bit (of_nat ?n :: u64) 1 = odd (length s)"
      unfolding bit_of_nat_iff_bit bit_of_nat_iff by (simp add: bit_iff_odd)
    then show ?thesis by (simp add: bit_iff_and_push_bit_not_eq_0 del: of_nat_mult)
  qed
  then show ?thesis
    using r by (simp add: ltohex_spec lfromhex_def length_hexs Let_def)
qed

text \<open>Base64 as a function on strings.\<close>

definition sextet :: "u32 \<Rightarrow> byte" where
  "sextet w = encoding ! unat w"

fun b64 :: "bytes \<Rightarrow> bytes" where
  "b64 (x # y # z # s) =
     (let v = push_bit 16 (ucast x) OR push_bit 8 (ucast y) OR ucast z in
      sextet (drop_bit 18 v) # sextet (drop_bit 12 v AND 0x3f) # sextet (drop_bit 6 v AND 0x3f) #
      sextet (v AND 0x3f) # b64 s)"
| "b64 [x, y] =
     (let v = push_bit 8 (ucast x) OR ucast y in
      [sextet (drop_bit 10 v), sextet (drop_bit 4 v AND 0x3f), sextet (push_bit 2 (v AND 0xf)), 0x3D])"
| "b64 [x] = [sextet (drop_bit 2 (ucast x)), sextet (push_bit 4 (ucast x AND 3)), 0x3D, 0x3D]"
| "b64 [] = []"

lemma length_b64: "length (b64 s) = (length s + 2) div 3 * 4"
  by (induction s rule: b64.induct) (simp_all add: Let_def, presburger)

lemma b64encode_loop_spec:
  "length pre = j \<Longrightarrow> length (b64 s) \<le> length rest \<Longrightarrow>
     b64encode_loop s j (pre @ rest) = Inr (pre @ b64 s @ drop (length (b64 s)) rest)"
proof (induction s arbitrary: j pre rest rule: b64.induct)
  case (1 x y z s)
  let ?v = "push_bit 16 (ucast x) OR push_bit 8 (ucast y) OR ucast z :: u32"
  let ?q = "[sextet (drop_bit 18 ?v), sextet (drop_bit 12 ?v AND 0x3f), sextet (drop_bit 6 ?v AND 0x3f), sextet (?v AND 0x3f)]"
  have "mem_write (pre @ rest) j ?q = Inr ((pre @ ?q) @ drop 4 rest)"
    using 1(2,3) by (subst mem_write_at) (auto simp: Let_def numeral_eq_Suc)
  moreover have "b64encode_loop s (j + 4) ((pre @ ?q) @ drop 4 rest) =
      Inr ((pre @ ?q) @ b64 s @ drop (length (b64 s)) (drop 4 rest))"
    by (rule 1(1) [OF refl]) (use 1(2,3) in \<open>auto simp: Let_def\<close>)
  ultimately show ?case
    by (simp add: Let_def sextet_def [symmetric] numeral_eq_Suc)
next
  case (2 x y)
  then show ?case by (simp add: Let_def sextet_def [symmetric] mem_write_at numeral_eq_Suc)
next
  case (3 x)
  then show ?case by (simp add: Let_def sextet_def [symmetric] mem_write_at numeral_eq_Suc)
qed simp

lemma lb64encode_spec: "lb64encode s = Inr (b64 s)"
  using b64encode_loop_spec [of "[]" 0 s "chunk_buffer ((length s + 2) div 3 * 4)"] length_b64 [of s]
  by (simp add: lb64encode_def chunk_buffer_def Let_def mem_read_def)

lemma b64index_sextet: "w < 64 \<Longrightarrow> b64index (sextet w) = uint w"
proof -
  have "\<forall>n \<in> set [0..<64]. b64index (encoding ! n) = int n" by code_simp
  then have "n < 64 \<Longrightarrow> b64index (encoding ! n) = int n" for n by simp
  moreover assume "w < 64"
  then have "unat w < 64" by (simp add: word_less_nat_alt)
  ultimately show ?thesis by (simp add: sextet_def)
qed

lemma b64index_pad: "b64index 0x3D = - 2"
  by code_simp

lemma b64_quad_four:
  assumes "b64index a \<noteq> - 1" "b64index b \<noteq> - 1" "b64index c \<noteq> - 1" "b64index d \<noteq> - 1"
  shows "b64_quad (a # b # c # d # s) [] 0 =
    Inr ([b64index a, b64index b, b64index c, b64index d],
         length (filter (\<lambda>t. b64index t = - 2) [a, b, c, d]), s)"
proof -
  have "b64_quad s [p, q, r, t] n = Inr ([p, q, r, t], n, s)" for p q r t n by (cases s) simp_all
  then show ?thesis using assms by (simp add: Let_def)
qed

lemma less_64:
  assumes "\<And>n. bit w n \<Longrightarrow> n < 6"
  shows "w < (64 :: u32)"
proof -
  have "w = take_bit 6 w" by (rule bit_word_eqI) (auto simp: bit_simps dest: assms)
  then have "unat w = take_bit 6 (unat w)" by (metis unsigned_take_bit_eq)
  then have "unat w < 2 ^ 6" by (metis take_bit_nat_less_exp)
  then show ?thesis by (simp add: word_less_nat_alt)
qed

lemma small_masks: "(0x3f :: u32) = mask 6" "(0xf :: u32) = mask 4" "(3 :: u32) = mask 2" "(0xff :: u32) = mask 8"
  by (simp_all add: mask_eq_exp_minus_1)

lemma sextets:
  "drop_bit 18 (push_bit 16 (ucast x) OR push_bit 8 (ucast y) OR ucast z) < (64 :: u32)"
  "drop_bit 10 (push_bit 8 (ucast x) OR ucast y) < (64 :: u32)" "drop_bit 2 (ucast x) < (64 :: u32)"
  "w AND 0x3f < 64" "push_bit 2 (w AND 0xf) < 64" "push_bit 4 (w AND 3) < 64" for x y z :: byte and w :: u32
  unfolding small_masks by (rule less_64; auto simp: bit_simps dest!: bit_imp_le_length)+

lemma uint_index: "w < 64 \<Longrightarrow> b64index (sextet w) \<noteq> - 1 \<and> b64index (sextet w) \<noteq> - 2"
proof -
  have "(0 :: int) \<le> uint w" by simp
  then show "w < 64 \<Longrightarrow> ?thesis" by (simp only: b64index_sextet) linarith
qed

lemma quad_4:
  assumes "p < 64" "q < 64" "r < 64" "t < 64"
  shows "b64_quad (sextet p # sextet q # sextet r # sextet t # s) [] 0 =
    Inr ([uint p, uint q, uint r, uint t], 0, s)"
  using b64_quad_four [of "sextet p" "sextet q" "sextet r" "sextet t" s] assms
  by (simp add: uint_index b64index_sextet [symmetric] del: b64_quad.simps)

lemma quad_3:
  assumes "p < 64" "q < 64" "r < 64"
  shows "b64_quad (sextet p # sextet q # sextet r # 0x3D # s) [] 0 = Inr ([uint p, uint q, uint r, - 2], 1, s)"
  using b64_quad_four [of "sextet p" "sextet q" "sextet r" "0x3D" s] assms
  by (simp add: uint_index b64index_sextet [symmetric] b64index_pad del: b64_quad.simps)

lemma quad_2:
  assumes "p < 64" "q < 64"
  shows "b64_quad (sextet p # sextet q # 0x3D # 0x3D # s) [] 0 = Inr ([uint p, uint q, - 2, - 2], 2, s)"
  using b64_quad_four [of "sextet p" "sextet q" "0x3D" "0x3D" s] assms
  by (simp add: uint_index b64index_sextet [symmetric] b64index_pad del: b64_quad.simps)

lemma group_3:
  fixes x y z :: byte
  defines "v \<equiv> push_bit 16 (ucast x) OR push_bit 8 (ucast y) OR ucast z :: u32"
  shows "b64_group [uint (drop_bit 18 v), uint (drop_bit 12 v AND 0x3f), uint (drop_bit 6 v AND 0x3f), uint (v AND 0x3f)] 0 =
    Inr [x, y, z]"
proof -
  have "push_bit 18 (drop_bit 18 v) OR push_bit 12 (drop_bit 12 v AND 0x3f) OR push_bit 6 (drop_bit 6 v AND 0x3f) OR
     (v AND 0x3f) = v"
    unfolding small_masks
  proof (rule bit_word_eqI)
    fix k assume "k < LENGTH(32)"
    then consider "k < 6" | "6 \<le> k" "k < 12" | "12 \<le> k" "k < 18" | "18 \<le> k" "k < 32" by fastforce
    then show "bit (push_bit 18 (drop_bit 18 v) OR push_bit 12 (drop_bit 12 v AND mask 6) OR
      push_bit 6 (drop_bit 6 v AND mask 6) OR (v AND mask 6)) k = bit v k"
      by cases (auto simp: bit_simps)
  qed
  moreover have "ucast (drop_bit 16 v) = x" "ucast (drop_bit 8 v AND 0xff) = y" "ucast (v AND 0xff) = z"
    unfolding v_def small_masks by (rule bit_word_eqI; auto simp: bit_simps dest: bit_imp_le_length)+
  ultimately show ?thesis by (simp add: b64_group_def Let_def)
qed

lemma int_masks: "(3 :: int) = mask 2" "(0xf :: int) = mask 4"
  by (simp_all add: mask_eq_exp_minus_1)

lemma group_2:
  fixes x y :: byte
  defines "v \<equiv> push_bit 8 (ucast x) OR ucast y :: u32"
  shows "b64_group [uint (drop_bit 10 v), uint (drop_bit 4 v AND 0x3f), uint (push_bit 2 (v AND 0xf)), - 2] 1 = Inr [x, y]"
proof -
  have "uint (push_bit 2 (v AND 0xf)) AND 3 = 0"
    unfolding small_masks int_masks by (rule bit_eqI) (auto simp: bit_simps)
  moreover have "of_int (drop_bit 2 (uint (push_bit 2 (v AND 0xf)))) = v AND 0xf"
    unfolding small_masks by (rule bit_word_eqI) (auto simp: bit_simps)
  moreover have "push_bit 10 (drop_bit 10 v) OR push_bit 4 (drop_bit 4 v AND 0x3f) OR (v AND 0xf) = v"
    unfolding small_masks
  proof (rule bit_word_eqI)
    fix k assume "k < LENGTH(32)"
    then consider "k < 4" | "4 \<le> k" "k < 10" | "10 \<le> k" "k < 32" by fastforce
    then show "bit (push_bit 10 (drop_bit 10 v) OR push_bit 4 (drop_bit 4 v AND mask 6) OR (v AND mask 4)) k = bit v k"
      by cases (auto simp: bit_simps)
  qed
  moreover have "ucast (drop_bit 8 v) = x" "ucast (v AND 0xff) = y"
    unfolding v_def small_masks by (rule bit_word_eqI; auto simp: bit_simps dest: bit_imp_le_length)+
  ultimately show ?thesis by (simp add: b64_group_def Let_def del: unsigned_push_bit_eq)
qed

lemma group_1:
  fixes x :: byte
  defines "v \<equiv> ucast x :: u32"
  shows "b64_group [uint (drop_bit 2 v), uint (push_bit 4 (v AND 3)), - 2, - 2] 2 = Inr [x]"
proof -
  have "uint (push_bit 4 (v AND 3)) AND 0xf = 0"
    unfolding small_masks int_masks by (rule bit_eqI) (auto simp: bit_simps)
  moreover have "push_bit 2 (drop_bit 2 v) OR of_int (drop_bit 4 (uint (push_bit 4 (v AND 3)))) = v"
    unfolding small_masks
  proof (rule bit_word_eqI)
    fix k assume "k < LENGTH(32)"
    then consider "k < 2" | k' where "k = k' + 2" by (metis add.commute le_Suc_ex not_less)
    then show "bit (push_bit 2 (drop_bit 2 v) OR of_int (drop_bit 4 (uint (push_bit 4 (v AND mask 2))))) k = bit v k"
      by cases (auto simp: bit_simps dest: bit_imp_le_length)
  qed
  moreover have "ucast v = x" unfolding v_def by (rule bit_word_eqI) (auto simp: bit_simps)
  ultimately show ?thesis by (simp add: b64_group_def Let_def del: unsigned_push_bit_eq)
qed

lemma b64decode_step:
  assumes "b64_quad (a # l) [] 0 = Inr (c, p, t)" "b64_group c p = Inr bs"
    and "length pre = out" "length bs \<le> length rest"
    and "b64decode_loop t (out + length bs) ((pre @ bs) @ drop (length bs) rest) =
      Inr (out + length bs + n, (pre @ bs) @ u @ drop (length u) (drop (length bs) rest))"
    and "bs @ u = s" "length s = length bs + n"
  shows "b64decode_loop (a # l) out (pre @ rest) = Inr (out + length s, pre @ s @ drop (length s) rest)"
proof -
  have "mem_write (pre @ rest) out bs = Inr ((pre @ bs) @ drop (length bs) rest)"
    using assms(3,4) by (intro mem_write_at) simp_all
  then show ?thesis using assms by (auto simp del: b64_quad.simps simp: add.commute)
qed

lemma b64decode_loop_spec:
  "length pre = out \<Longrightarrow> length s \<le> length rest \<Longrightarrow>
     b64decode_loop (b64 s) out (pre @ rest) = Inr (out + length s, pre @ s @ drop (length s) rest)"
proof (induction s arbitrary: out pre rest rule: b64.induct)
  case (1 x y z s)
  show ?case
    unfolding b64.simps Let_def
    by (rule b64decode_step [OF quad_4 group_3], (rule sextets)+)
       (use 1(1) [OF refl, of "pre @ [x, y, z]" "out + 3" "drop 3 rest"] 1(2,3)
        in \<open>auto simp: numeral_3_eq_3\<close>)
next
  case (2 x y)
  show ?case
    unfolding b64.simps Let_def
    by (rule b64decode_step [OF quad_3 group_2], (rule sextets)+) (use 2 in auto)
next
  case (3 x)
  show ?case
    unfolding b64.simps Let_def
    by (rule b64decode_step [OF quad_2 group_1], (rule sextets)+) (use 3 in auto)
qed simp

text \<open>
  C33: Base64 is read back: decoding gives back every string that was encoded, whatever its length is modulo
  three, and neither direction leaves its buffer.
\<close>

theorem base64_roundtrip: "bind_r (lb64encode s) lb64decode = Inr s"
proof -
  let ?buf = "chunk_buffer ((length (b64 s) + 3) div 4 * 3)"
  have "length s \<le> length ?buf"
    unfolding length_b64 by (auto simp: chunk_buffer_def)
  then have "b64decode_loop (b64 s) 0 ?buf = Inr (length s, s @ drop (length s) ?buf)"
    using b64decode_loop_spec [of "[]" 0 s ?buf] by simp
  then show ?thesis by (simp add: lb64encode_spec lb64decode_def mem_read_def)
qed

section \<open>The shared secret\<close>

lemma P_dh_nat: "unat P_dh = 18446744073709551557"
  by (simp add: P_dh_def)

lemma unat_sub: "b \<le> a \<Longrightarrow> unat (a - b) = unat a - unat b" for a b :: u64
  by (simp add: unat_sub_if' word_le_nat_alt)

text \<open>One step of the multiplication: an addition and a doubling modulo the prime, without overflow.\<close>

lemma add_step:
  assumes "unat a < unat P_dh" "unat m < unat P_dh"
  shows "unat (if P_dh - a \<le> m then m - (P_dh - a) else m + a) = (unat m + unat a) mod unat P_dh"
proof -
  have t: "unat (P_dh - a) = unat P_dh - unat a"
    using assms(1) by (intro unat_sub) (simp add: word_le_nat_alt)
  show ?thesis
  proof (cases "P_dh - a \<le> m")
    case True
    then have le: "unat P_dh - unat a \<le> unat m" by (simp add: word_le_nat_alt t)
    have "unat (m - (P_dh - a)) = unat m - (unat P_dh - unat a)"
      using unat_sub [OF True] t by simp
    also have "\<dots> = (unat m + unat a) mod unat P_dh"
    proof -
      have "unat m + unat a = unat P_dh + (unat m - (unat P_dh - unat a))" using le assms by simp
      moreover have "unat m - (unat P_dh - unat a) < unat P_dh" using assms by simp
      ultimately show ?thesis by (simp only: mod_add_self1 mod_less)
    qed
    finally show ?thesis using True by simp
  next
    case False
    then have lt: "unat m + unat a < unat P_dh" using t by (simp add: word_le_nat_alt)
    then have "unat (m + a) = unat m + unat a"
      using unat_lt [of P_dh] by (intro unat_add_small) (rule less_trans)
    then show ?thesis using False lt by simp
  qed
qed

lemma double_step:
  assumes "unat a < unat P_dh"
  shows "unat (if P_dh - a \<le> a then a * 2 - P_dh else a * 2) = 2 * unat a mod unat P_dh"
proof -
  have "a * 2 - P_dh = a - (P_dh - a)" "a * 2 = a + a" by (simp_all add: algebra_simps)
  then show ?thesis using add_step [OF assms assms] by (simp only: mult_2)
qed

lemma odd_unat: "odd (unat b) \<longleftrightarrow> b AND 1 \<noteq> 0" for b :: u64
  using bit_iff_and_push_bit_not_eq_0 [of b 0] bit_unsigned_iff [of b 0, where 'a = nat] by (simp add: bit_0)

lemma mul_loop_spec:
  "unat a < unat P_dh \<Longrightarrow> unat m < unat P_dh \<Longrightarrow>
     unat (mul_loop a b m) = (unat m + unat a * unat b) mod unat P_dh"
proof (induction a b m rule: mul_loop.induct)
  case (1 a b m)
  show ?case
  proof (cases "b = 0")
    case True
    then show ?thesis using 1 by (simp add: mul_loop.simps)
  next
    case False
    let ?m = "if b AND 1 \<noteq> 0 then let t = P_dh - a in if t \<le> m then m - t else m + a else m"
    let ?a = "if P_dh - a \<le> a then a * 2 - P_dh else a * 2"
    have p: "0 < unat P_dh" by (simp add: P_dh_nat)
    have m: "unat ?m = (unat m + unat b mod 2 * unat a) mod unat P_dh"
    proof (cases "odd (unat b)")
      case True
      then have o: "b AND 1 \<noteq> 0" and u: "unat b mod 2 = 1" using True odd_unat [of b] by (blast, presburger)
      show ?thesis unfolding u mult_1 Let_def if_P [OF o] by (rule add_step [OF 1(2,3)])
    next
      case False
      then have "\<not> b AND 1 \<noteq> 0" "unat b mod 2 = 0" using odd_unat [of b] by (blast, presburger)
      then show ?thesis using 1(3) by (simp only: if_False add_0_right mult_0 mod_less)
    qed
    have a: "unat ?a = 2 * unat a mod unat P_dh" by (rule double_step [OF 1(2)])
    have "unat (mul_loop ?a (drop_bit 1 b) ?m) = (unat ?m + unat ?a * unat (drop_bit 1 b)) mod unat P_dh"
      by (rule 1(1) [OF False refl refl]) (use a m p in simp_all)
    also have "\<dots> = (unat m + unat b mod 2 * unat a + 2 * unat a * (unat b div 2)) mod unat P_dh"
      unfolding m a unat_shift mod_add_left_eq by (rule mod_add_cong [OF refl mod_mult_left_eq])
    also have "unat m + unat b mod 2 * unat a + 2 * unat a * (unat b div 2) = unat m + unat a * unat b"
    proof -
      have "unat a * unat b = unat a * (unat b mod 2 + 2 * (unat b div 2))" by simp
      then show ?thesis by (simp only: distrib_left mult.commute mult.left_commute add.assoc)
    qed
    finally show ?thesis using False by (simp only: mul_loop.simps [of a b m] Let_def if_False)
  qed
qed

lemma mul_mod_p_spec:
  "unat a < unat P_dh \<Longrightarrow> unat (mul_mod_p a b) = unat a * unat b mod unat P_dh"
  using mul_loop_spec [of a 0 b] by (simp add: mul_mod_p_def P_dh_nat)

lemma pow_mod_p_spec:
  "b \<noteq> 0 \<Longrightarrow> unat a < unat P_dh \<Longrightarrow>
     \<exists>r. pow_mod_p a b = Inr r \<and> unat r = unat a ^ unat b mod unat P_dh"
proof (induction a b rule: pow_mod_p.induct)
  case (1 a b)
  show ?case
  proof (cases "b = 1")
    case True
    then show ?thesis using 1(3) by (simp add: pow_mod_p.simps)
  next
    case False
    have "unat b \<noteq> unat (0 :: u64)" "unat b \<noteq> unat (1 :: u64)"
      using 1(2) False unsigned_word_eqI by blast+
    then have "unat (drop_bit 1 b) \<noteq> 0" unfolding unat_shift by simp
    then have "drop_bit 1 b \<noteq> 0" by auto
    then obtain t where t: "pow_mod_p a (drop_bit 1 b) = Inr t"
      "unat t = unat a ^ (unat b div 2) mod unat P_dh"
      using 1(1) [OF 1(2) False _ 1(3)] unfolding unat_shift by blast
    let ?t = "mul_mod_p t t"
    have p: "0 < unat P_dh" by (simp add: P_dh_nat)
    then have tt: "unat ?t = unat a ^ (2 * (unat b div 2)) mod unat P_dh"
      using t(2) by (simp add: mul_mod_p_spec mod_mult_eq power_even_eq power2_eq_square power_mult_distrib mult_2 power_add)
    then have "unat (mul_mod_p ?t a) = unat a ^ (2 * (unat b div 2) + 1) mod unat P_dh"
      using p by (simp add: mul_mod_p_spec mod_mult_right_eq mult.commute)
    moreover have "b mod 2 \<noteq> 0 \<longleftrightarrow> odd (unat b)"
      unfolding odd_unat by (simp add: and_one_eq)
    moreover have "pow_mod_p a b = Inr (if b mod 2 \<noteq> 0 then mul_mod_p ?t a else ?t)"
      using t(1) 1(2) False by (subst pow_mod_p.simps) simp
    ultimately show ?thesis
      using tt by (cases "odd (unat b)") simp_all
  qed
qed

text \<open>Eight bytes as the number that the exchange works on, and the number as eight bytes.\<close>

lemma of_le_halves:
  assumes "length xs = 4"
  shows "(of_le (xs @ ys) :: u64) = ucast (of_le xs :: u32) OR push_bit 32 (ucast (of_le (take 4 ys) :: u32))"
proof (rule bit_word_eqI)
  fix k assume "k < LENGTH(64)"
  then consider "k < 32" | "32 \<le> k" "k < 64" by fastforce
  then show "bit (of_le (xs @ ys) :: u64) k =
    bit (ucast (of_le xs :: u32) OR push_bit 32 (ucast (of_le (take 4 ys) :: u32)) :: u64) k"
  proof cases
    case 1
    then have d: "k div 8 < 4" by presburger
    then have "(xs @ ys) ! (k div 8) = xs ! (k div 8)" using assms by (simp only: nth_append if_True)
    then show ?thesis using 1 d assms by (simp add: bit_or_iff bit_push_bit_iff bit_unsigned_iff bit_of_le del: of_le.simps)
  next
    case 2
    define j where "j = k - 32"
    then have j: "k = 32 + j" "j < 32" using 2 by simp_all
    have d: "(32 + j) div 8 = 4 + j div 8" "(32 + j) mod 8 = j mod 8" by presburger+
    moreover have "j div 8 < 4" using j(2) by presburger
    moreover have "(xs @ ys) ! (4 + j div 8) = ys ! (j div 8)" using nth_append_length_plus [of xs ys "j div 8"] assms by simp
    moreover have "\<not> bit (of_le xs :: u32) (32 + j)" by (auto dest: bit_imp_le_length)
    ultimately show ?thesis using d j assms
      by (auto simp: bit_or_iff bit_push_bit_iff bit_unsigned_iff bit_of_le simp del: of_le.simps)
  qed
qed

lemma qword_bytes:
  assumes "length x = 8"
  shows "qword (two_words x) = of_le x"
  using of_le_halves [of "take 4 x" "drop 4 x"] assms by (simp add: qword_def two_words_def)

lemma powmodp_spec:
  "b \<noteq> 0 \<Longrightarrow> unat a < unat P_dh \<Longrightarrow> \<exists>r. powmodp a b = Inr r \<and> unat r = unat a ^ unat b mod unat P_dh"
  using pow_mod_p_spec [of b a] by (simp add: powmodp_def word_less_nat_alt)

text \<open>No power of 5 is a multiple of the prime.\<close>

lemma power_5_not_0: "5 ^ n mod (18446744073709551557 :: nat) \<noteq> 0"
proof
  assume "5 ^ n mod (18446744073709551557 :: nat) = 0"
  moreover have "coprime 18446744073709551557 (5 :: nat)" by (simp add: coprime_iff_gcd_eq_1 gcd_non_0_nat)
  ultimately show False
    by (metis coprime_power_right_iff coprime_common_divisor dvd_refl mod_0_imp_dvd nat_dvd_1_iff_1 numeral_One numeral_eq_iff semiring_norm(84))
qed

text \<open>
  C31: The two sides of the exchange compute the same secret: with any secret numbers \<open>x\<close> and \<open>y\<close> other
  than 0, what the one sends and the other combines with its own number gives \<open>5 ^ (x * y)\<close> modulo the
  prime on both sides, although every product is computed in 64 bits.
\<close>

theorem dh_agreement:
  assumes "length x = 8" "length y = 8" "of_le x \<noteq> (0 :: u64)" "of_le y \<noteq> (0 :: u64)"
  shows "\<exists>gx gy s. ldhexchange x = Inr gx \<and> ldhexchange y = Inr gy \<and>
    ldhsecret gx y = Inr s \<and> ldhsecret gy x = Inr s \<and>
    unat (of_le s :: u64) = 5 ^ (unat (of_le x :: u64) * unat (of_le y :: u64)) mod unat P_dh"
proof -
  have exchange: "\<exists>r. ldhexchange x = Inr (le64 r) \<and> unat r = 5 ^ unat (of_le x :: u64) mod unat P_dh"
    if "length x = 8" "of_le x \<noteq> (0 :: u64)" for x
    using powmodp_spec [of "of_le x" 5] that
    by (auto simp: ldhexchange_def qword_bytes push64_def P_dh_nat)
  have secret: "\<exists>s. ldhsecret (le64 r) y = Inr (le64 s) \<and>
      unat s = 5 ^ (unat (of_le x :: u64) * unat (of_le y :: u64)) mod unat P_dh"
    if "length y = 8" "of_le y \<noteq> (0 :: u64)" "unat r = 5 ^ unat (of_le x :: u64) mod unat P_dh" for x y r
  proof -
    have "unat r < unat P_dh" using that(3) by (simp add: P_dh_nat)
    moreover have "unat r \<noteq> 0" unfolding that(3) P_dh_nat by (rule power_5_not_0)
    then have "r \<noteq> 0" by auto
    moreover have "unat r ^ n mod unat P_dh = 5 ^ (unat (of_le x :: u64) * n) mod unat P_dh" for n
      unfolding that(3) by (simp add: power_mod power_mult)
    ultimately show ?thesis
      using powmodp_spec [OF that(2), of r] that(1,2)
      by (auto simp: ldhsecret_def read64_def qword_bytes push64_def)
  qed
  obtain r where r: "ldhexchange x = Inr (le64 r)" "unat r = 5 ^ unat (of_le x :: u64) mod unat P_dh"
    using exchange assms(1,3) by blast
  obtain t where t: "ldhexchange y = Inr (le64 t)" "unat t = 5 ^ unat (of_le y :: u64) mod unat P_dh"
    using exchange assms(2,4) by blast
  obtain s where s: "ldhsecret (le64 r) y = Inr (le64 s)"
    "unat s = 5 ^ (unat (of_le x :: u64) * unat (of_le y :: u64)) mod unat P_dh"
    using secret [OF assms(2,4) r(2)] by blast
  obtain s' where "ldhsecret (le64 t) x = Inr (le64 s')"
    "unat s' = 5 ^ (unat (of_le y :: u64) * unat (of_le x :: u64)) mod unat P_dh"
    using secret [OF assms(1,3) t(2)] by blast
  moreover from this have "s' = s" using s(2) unsigned_word_eqI by (metis mult.commute)
  ultimately show ?thesis using r(1) t(1) s by (intro exI [of _ "le64 r"] exI [of _ "le64 t"] exI [of _ "le64 s"]) simp
qed

theorem dh_agreement_witness:
  "\<exists>gx gy s. ldhexchange [7, 0, 0, 0, 0, 0, 0, 0x80] = Inr gx \<and> ldhexchange [0, 1, 0, 0, 0, 0, 0, 0] = Inr gy \<and>
    ldhsecret gx [0, 1, 0, 0, 0, 0, 0, 0] = Inr s \<and> ldhsecret gy [7, 0, 0, 0, 0, 0, 0, 0x80] = Inr s"
proof -
  have "of_le [7, 0, 0, 0, 0, 0, 0, 0x80] \<noteq> (0 :: u64)" "of_le [0, 1, 0, 0, 0, 0, 0, 0] \<noteq> (0 :: u64)"
    by simp_all
  moreover have "length [7, 0, 0, 0, 0, 0, 0, 0x80 :: byte] = 8" "length [0, 1, 0, 0, 0, 0, 0, 0 :: byte] = 8"
    by simp_all
  ultimately show ?thesis using dh_agreement by blast
qed

text \<open>Mixing a string twice with the same key gives it back.\<close>

lemma lxor_str_twice:
  "k \<noteq> [] \<Longrightarrow> bind_r (lxor_str s k) (\<lambda>t. lxor_str t k) = Inr s"
  by (auto simp: lxor_str_def xor.assoc intro!: nth_equalityI)

lemma lrandomkey_not_0: "lrandomkey rand \<noteq> replicate 8 0"
proof
  define tmp :: bytes where "tmp = map (\<lambda>i. ucast (rand i AND 0xff)) [0..<8]"
  have l: "length tmp = 8" by (simp add: tmp_def)
  assume "lrandomkey rand = replicate 8 0"
  then have e: "(if foldl (\<lambda>x b. x XOR b) 0 tmp = 0 then tmp[0 := (tmp ! 0) OR 1] else tmp) = replicate 8 0"
    unfolding lrandomkey_def tmp_def [symmetric] Let_def .
  show False
  proof (cases "foldl (\<lambda>x b. x XOR b) 0 tmp = 0")
    case True
    then have "(tmp[0 := (tmp ! 0) OR 1]) ! 0 = 0" using e by simp
    then have "bit ((tmp ! 0) OR 1) 0 = bit (0 :: byte) 0" using l by simp
    then show False by (simp add: bit_simps)
  next
    case False
    then have "tmp = replicate 8 0" using e by simp
    then show False using False by (simp add: numeral_eq_Suc)
  qed
qed

end
