(* ===== verification/Effects.thy ===== *)
theory Effects
  imports Prelude
begin

text \<open>
  Stateful operations: \<open>('s, 'a) act\<close> maps a state to a result and the new state, or to an error. With
  them the C functions of the runtime that change a shared structure are written in the order of their
  statements. A triple \<open>triple E P m Q\<close> says that from a state with \<open>P\<close> the operation \<open>m\<close> gives a result
  and a state with \<open>Q\<close>, or an error in \<open>E\<close>; its rules follow the statements.
\<close>

section \<open>Operations\<close>

type_synonym ('s, 'a) act = "'s \<Rightarrow> ('a \<times> 's) res"

definition ret :: "'a \<Rightarrow> ('s, 'a) act" where
  "ret x s = Inr (x, s)"

definition throw :: "err \<Rightarrow> ('s, 'a) act" where
  "throw e s = Inl e"

definition bind_o :: "('s, 'a) act \<Rightarrow> ('a \<Rightarrow> ('s, 'b) act) \<Rightarrow> ('s, 'b) act" where
  "bind_o m k s = bind_r (m s) (\<lambda>(x, s). k x s)"

definition seq :: "('s, 'a) act \<Rightarrow> ('s, 'b) act \<Rightarrow> ('s, 'b) act" where
  "seq m k = bind_o m (\<lambda>_. k)"

definition gets :: "('s \<Rightarrow> 'a) \<Rightarrow> ('s, 'a) act" where
  "gets f s = Inr (f s, s)"

definition modify :: "('s \<Rightarrow> 's) \<Rightarrow> ('s, unit) act" where
  "modify f s = Inr ((), f s)"

text \<open>A C \<open>assert\<close>.\<close>

definition check :: "bool \<Rightarrow> ('s, unit) act" where
  "check b = (if b then ret () else throw Assert_failed)"

lemmas act_defs = ret_def throw_def bind_o_def seq_def gets_def modify_def check_def

lemma check_True: "seq (check True) m = m"
  by (simp add: act_defs fun_eq_iff)

lemma bind_gets: "bind_o (gets f) k s = k (f s) s"
  by (simp add: act_defs bind_r_def)

lemma seq_modify: "seq (modify f) k s = k (f s)"
  by (simp add: act_defs bind_r_def)

lemma bind_assoc: "bind_o (bind_o m k) k' = bind_o m (\<lambda>x. bind_o (k x) k')"
  by (simp add: bind_o_def fun_eq_iff bind_r_def split: sum.splits prod.splits)

lemma seq_assoc: "seq (seq m k) k' = seq m (seq k k')"
  by (simp add: seq_def bind_assoc)

lemma ret_seq: "seq (ret x) m = m"
  by (simp add: act_defs fun_eq_iff)

lemma ret_bind: "bind_o (ret x) k = k x"
  by (simp add: act_defs fun_eq_iff)

section \<open>Triples\<close>

definition triple :: "err set \<Rightarrow> ('s \<Rightarrow> bool) \<Rightarrow> ('s, 'a) act \<Rightarrow> ('a \<Rightarrow> 's \<Rightarrow> bool) \<Rightarrow> bool" where
  "triple E P m Q = (\<forall>s. P s \<longrightarrow> (case m s of Inl e \<Rightarrow> e \<in> E | Inr (x, s') \<Rightarrow> Q x s'))"

named_theorems triple_intros

lemma tripleI: "(\<And>s. P s \<Longrightarrow> case m s of Inl e \<Rightarrow> e \<in> E | Inr (x, s') \<Rightarrow> Q x s') \<Longrightarrow> triple E P m Q"
  by (simp add: triple_def)

lemma tripleD: "triple E P m Q \<Longrightarrow> P s \<Longrightarrow> m s = Inr (x, s') \<Longrightarrow> Q x s'"
  unfolding triple_def by force

lemma triple_error: "triple E P m Q \<Longrightarrow> P s \<Longrightarrow> m s = Inl e \<Longrightarrow> e \<in> E"
  unfolding triple_def by force

lemma triple_run: "triple E P m Q \<Longrightarrow> P s \<Longrightarrow> case m s of Inl e \<Rightarrow> e \<in> E | Inr (x, s') \<Rightarrow> Q x s'"
  by (simp add: triple_def)

lemma triple_bind:
  assumes "triple E P m R" "\<And>x. triple E (R x) (k x) Q"
  shows "triple E P (bind_o m k) Q"
proof (rule tripleI)
  fix s assume P: "P s"
  show "case bind_o m k s of Inl e \<Rightarrow> e \<in> E | Inr (x, s') \<Rightarrow> Q x s'"
  proof (cases "m s")
    case (Inl e)
    then show ?thesis using assms(1) P by (auto simp: triple_def bind_o_def)
  next
    case (Inr r)
    then obtain x s' where r: "m s = Inr (x, s')" by (cases r) auto
    with assms(1) P have "R x s'" by (rule tripleD)
    then show ?thesis using assms(2) [of x] by (simp add: bind_o_def r triple_def)
  qed
qed

lemma triple_seq: "triple E P m R \<Longrightarrow> triple E (R ()) k Q \<Longrightarrow> triple E P (seq m k) Q" for m :: "('s, unit) act"
  unfolding seq_def by (rule triple_bind, assumption, simp)

lemma triple_seq': "triple E P m (\<lambda>_. R) \<Longrightarrow> triple E R k Q \<Longrightarrow> triple E P (seq m k) Q"
  unfolding seq_def by (rule triple_bind)

lemma triple_ret: "(\<And>s. P s \<Longrightarrow> Q x s) \<Longrightarrow> triple E P (ret x) Q"
  by (simp add: triple_def ret_def)

lemma triple_ret_same: "triple E (Q x) (ret x) Q"
  by (rule triple_ret)

lemma triple_throw: "e \<in> E \<Longrightarrow> triple E P (throw e) Q"
  by (simp add: triple_def throw_def)

lemma triple_check: "(\<And>s. P s \<Longrightarrow> b) \<Longrightarrow> (\<And>s. P s \<Longrightarrow> Q () s) \<Longrightarrow> triple E P (check b) Q"
  by (auto simp: triple_def check_def ret_def throw_def)

lemma triple_gets: "(\<And>s. P s \<Longrightarrow> Q (f s) s) \<Longrightarrow> triple E P (gets f) Q"
  by (simp add: triple_def gets_def)

lemma triple_modify: "(\<And>s. P s \<Longrightarrow> Q () (f s)) \<Longrightarrow> triple E P (modify f) Q"
  by (simp add: triple_def modify_def)

lemma triple_pre: "triple E P' m Q \<Longrightarrow> (\<And>s. P s \<Longrightarrow> P' s) \<Longrightarrow> triple E P m Q"
  by (simp add: triple_def)

lemma triple_post: "triple E P m Q' \<Longrightarrow> (\<And>x s. Q' x s \<Longrightarrow> Q x s) \<Longrightarrow> triple E P m Q"
  unfolding triple_def by (fastforce split: sum.splits)

lemma triple_conj: "triple E P m Q \<Longrightarrow> triple E P m Q' \<Longrightarrow> triple E P m (\<lambda>x s. Q x s \<and> Q' x s)"
  unfolding triple_def by (fastforce split: sum.splits)

lemma triple_if: "(b \<Longrightarrow> triple E P m Q) \<Longrightarrow> (\<not> b \<Longrightarrow> triple E P m' Q) \<Longrightarrow> triple E P (if b then m else m') Q"
  by simp

lemma triple_option:
  "(p = None \<Longrightarrow> triple E P m Q) \<Longrightarrow> (\<And>x. p = Some x \<Longrightarrow> triple E P (k x) Q) \<Longrightarrow>
     triple E P (case p of None \<Rightarrow> m | Some x \<Rightarrow> k x) Q"
  by (cases p) auto

lemma triple_pure: "(b \<Longrightarrow> triple E P m Q) \<Longrightarrow> triple E (\<lambda>s. b \<and> P s) m Q"
  by (simp add: triple_def)

lemma triple_ex: "(\<And>x. triple E (P x) m Q) \<Longrightarrow> triple E (\<lambda>s. \<exists>x. P x s) m Q"
  unfolding triple_def by blast

lemma triple_False [simp]: "triple E (\<lambda>_. False) m Q"
  by (simp add: triple_def)

end
