(* ===== verification/Server.thy ===== *)
theory Server
  imports Mq Handle Timer_wheel Cstring Effects
begin

text \<open>
  The node: \<open>src/3rd/skynet/skynet-src/skynet_server.c\<close> (contexts of services, sending, dispatching),
  \<open>skynet_harbor.c\<close> (messages to other nodes), \<open>skynet_error.c\<close>, \<open>skynet_monitor.c\<close> and
  \<open>skynet_handle_retireall\<close>, on top of the message queues (\<open>Mq\<close>), the table of the handles (\<open>Handle\<close>)
  and the timer (\<open>Timer_wheel\<close>).

  Contexts and queues are records in stores from addresses; an access to a freed one is the error
  \<open>Out_of_bounds\<close>. The memory that messages point to is a store \<open>nd_heap\<close> of blocks; it belongs to the
  services, and a pointer that they hand over wrongly is the error \<open>Bad_pointer\<close>. A function of the
  runtime is an operation \<open>'a op\<close>: it maps a node to its result and the new node, or to an error. Every
  operation runs without interleaving here, also where the code lets other threads run in between: it
  stores \<open>ctx->handle\<close> and \<open>ctx->queue\<close> of a new context after \<open>skynet_handle_register\<close> has put it into the
  table, and this gap is not modelled. How the operations on the queues interleave is the subject of \<open>Mq\<close>.

  The code of a service is loaded at run time. It is a \<open>program\<close>: a tree of calls of the runtime, each
  node choosing what to do next from the answer, and a return value at the leaves. A service keeps its
  state in its memory, which it reads and writes with calls, as its C code does behind the pointer \<open>ud\<close>.
\<close>

section \<open>State\<close>

definition MESSAGE_TYPE_MASK :: u64 where
  "MESSAGE_TYPE_MASK = drop_bit 8 (- 1)"

definition GLOBALNAME_LENGTH :: nat where
  "GLOBALNAME_LENGTH = 16"

record remote_message =
  rm_name :: bytes
  rm_handle :: u32
  rm_message :: "nat option"
  rm_sz :: u64

datatype block =
    Bytes bytes
  | Remote_message remote_message

text \<open>The field \<open>result\<close>, where a command prints its result, is the result of the command here.\<close>

record skynet_context =
  sc_instance :: nat
  sc_mod :: nat
  sc_cb_ud :: nat
  sc_cb :: "nat option"
  sc_queue :: nat
  sc_logfile :: "nat option"
  sc_handle :: u32
  sc_session_id :: u32
  sc_ref :: int
  sc_init :: bool
  sc_endless :: bool

record skynet_monitor =
  sm_version :: u32
  sm_check_version :: u32
  sm_source :: u32
  sm_destination :: u32

text \<open>
  The global variables: the services and their total, the queues, the handles, \<open>monitor_exit\<close>, the
  harbor (\<open>REMOTE\<close> and \<open>HARBOR\<close>), the \<open>logger\<close> that \<open>skynet_error\<close> remembers, the timer, the environment,
  the monitor of each worker, and the memory with its next free address. The field \<open>nd_release\<close> is a
  parameter: the functions \<open>release\<close> of the loaded modules. Given the module, the instance and the memory it
  tells which blocks the function frees, in this order (none for a module without the function); the
  functions of this kind in the repository do nothing else to a node (they close files and sockets).
\<close>

record node =
  nd_ctx :: "nat \<Rightarrow> skynet_context option"
  nd_total :: int
  nd_mq :: scheduler
  nd_handles :: handle_storage
  nd_monitor_exit :: u32
  nd_remote :: "nat option"
  nd_harbor :: u32
  nd_logger :: u32
  nd_timer :: timer
  nd_env :: "bytes \<Rightarrow> bytes option"
  nd_monitor :: "nat \<Rightarrow> skynet_monitor"
  nd_heap :: "nat \<Rightarrow> block option"
  nd_next :: nat
  nd_release :: "nat \<Rightarrow> nat \<Rightarrow> (nat \<Rightarrow> block option) \<Rightarrow> nat list"

section \<open>Operations\<close>

type_synonym 'a op = "(node, 'a) act"

text \<open>An operation on the queues.\<close>

definition on_mq :: "(scheduler \<Rightarrow> ('a \<times> scheduler) res) \<Rightarrow> 'a op" where
  "on_mq f nd = bind_r (f (nd_mq nd)) (\<lambda>(x, s). Inr (x, nd\<lparr>nd_mq := s\<rparr>))"

definition do_mq :: "(scheduler \<Rightarrow> scheduler res) \<Rightarrow> unit op" where
  "do_mq f = on_mq (\<lambda>s. bind_r (f s) (\<lambda>s. Inr ((), s)))"

lemmas op_defs = act_defs on_mq_def do_mq_def

section \<open>Memory\<close>

definition heap_alloc :: "block \<Rightarrow> nat op" where
  "heap_alloc b nd =
     Inr (nd_next nd, nd\<lparr>nd_heap := (nd_heap nd)(nd_next nd \<mapsto> b), nd_next := nd_next nd + 1\<rparr>)"

definition heap_free :: "nat option \<Rightarrow> unit op" where
  "heap_free p nd =
     (case p of
        None \<Rightarrow> Inr ((), nd)
      | Some a \<Rightarrow> if nd_heap nd a = None then Inl Bad_pointer else Inr ((), nd\<lparr>nd_heap := (nd_heap nd)(a := None)\<rparr>))"

definition heap_load :: "nat \<Rightarrow> block op" where
  "heap_load a nd = (case nd_heap nd a of None \<Rightarrow> Inl Bad_pointer | Some b \<Rightarrow> Inr (b, nd))"

definition heap_store :: "nat \<Rightarrow> block \<Rightarrow> unit op" where
  "heap_store a b nd =
     (if nd_heap nd a = None then Inl Bad_pointer else Inr ((), nd\<lparr>nd_heap := (nd_heap nd)(a \<mapsto> b)\<rparr>))"

text \<open>The first \<open>sz\<close> bytes behind a pointer.\<close>

definition heap_bytes :: "nat \<Rightarrow> u64 \<Rightarrow> bytes op" where
  "heap_bytes a sz =
     bind_o (heap_load a) (\<lambda>b.
       case b of
         Bytes bs \<Rightarrow> if unat sz \<le> length bs then ret (take (unat sz) bs) else throw Bad_pointer
       | Remote_message _ \<Rightarrow> throw Bad_pointer)"

section \<open>Contexts\<close>

definition hof :: "node \<Rightarrow> nat \<Rightarrow> u32" where
  "hof nd c = (case nd_ctx nd c of None \<Rightarrow> 0 | Some x \<Rightarrow> sc_handle x)"

definition get_ctx :: "nat \<Rightarrow> skynet_context op" where
  "get_ctx c nd = (case nd_ctx nd c of None \<Rightarrow> Inl Out_of_bounds | Some x \<Rightarrow> Inr (x, nd))"

definition set_ctx :: "nat \<Rightarrow> skynet_context \<Rightarrow> unit op" where
  "set_ctx c x = modify (\<lambda>nd. nd\<lparr>nd_ctx := (nd_ctx nd)(c \<mapsto> x)\<rparr>)"

definition context_grab :: "nat \<Rightarrow> unit op" where
  "context_grab c = bind_o (get_ctx c) (\<lambda>x. set_ctx c (x\<lparr>sc_ref := sc_ref x + 1\<rparr>))"

definition context_dec :: "unit op" where
  "context_dec = modify (\<lambda>nd. nd\<lparr>nd_total := nd_total nd - 1\<rparr>)"

definition context_reserve :: "nat \<Rightarrow> unit op" where
  "context_reserve c = seq (context_grab c) context_dec"

text \<open>\<open>skynet_module_instance_release\<close> calls the function \<open>release\<close> of the module.\<close>

fun free_blocks :: "nat list \<Rightarrow> unit op" where
  "free_blocks [] = ret ()"
| "free_blocks (a # as) = seq (heap_free (Some a)) (free_blocks as)"

definition instance_release :: "nat \<Rightarrow> nat \<Rightarrow> unit op" where
  "instance_release md inst = bind_o (gets (\<lambda>nd. nd_release nd md inst (nd_heap nd))) free_blocks"

definition delete_context :: "nat \<Rightarrow> unit op" where
  "delete_context c =
     bind_o (get_ctx c) (\<lambda>x.
     seq (instance_release (sc_mod x) (sc_instance x))
    (seq (do_mq (mq_mark_release (sc_queue x)))
    (seq (modify (\<lambda>nd. nd\<lparr>nd_ctx := (nd_ctx nd)(c := None)\<rparr>))
         context_dec)))"

definition context_release :: "nat \<Rightarrow> nat option op" where
  "context_release c =
     bind_o (get_ctx c) (\<lambda>x.
       (let ref = sc_ref x - 1 in
        seq (set_ctx c (x\<lparr>sc_ref := ref\<rparr>))
            (if ref = 0 then seq (delete_context c) (ret None) else ret (Some c))))"

definition context_newsession :: "nat \<Rightarrow> u32 op" where
  "context_newsession c =
     bind_o (get_ctx c) (\<lambda>x.
       (let session = sc_session_id x + 1 in
        if sint session \<le> 0
        then seq (set_ctx c (x\<lparr>sc_session_id := 1\<rparr>)) (ret 1)
        else seq (set_ctx c (x\<lparr>sc_session_id := session\<rparr>)) (ret session)))"

text \<open>\<open>skynet_handle_grab\<close>, with the reference that it takes.\<close>

definition node_grab :: "u32 \<Rightarrow> nat option op" where
  "node_grab handle =
     bind_o (gets (\<lambda>nd. handle_grab (hof nd) handle (nd_handles nd))) (\<lambda>result.
       case result of
         None \<Rightarrow> ret None
       | Some c \<Rightarrow> seq (context_grab c) (ret (Some c)))"

definition context_push :: "u32 \<Rightarrow> skynet_message \<Rightarrow> u32 op" where
  "context_push handle message =
     bind_o (node_grab handle) (\<lambda>ctx.
       case ctx of
         None \<Rightarrow> ret (- 1)
       | Some c \<Rightarrow>
           bind_o (get_ctx c) (\<lambda>x.
           seq (do_mq (mq_push_at (sc_queue x) message))
          (seq (context_release c) (ret 0))))"

definition context_endless :: "u32 \<Rightarrow> unit op" where
  "context_endless handle =
     bind_o (node_grab handle) (\<lambda>ctx.
       case ctx of
         None \<Rightarrow> ret ()
       | Some c \<Rightarrow>
           bind_o (get_ctx c) (\<lambda>x.
           seq (set_ctx c (x\<lparr>sc_endless := True\<rparr>))
          (seq (context_release c) (ret ()))))"

text \<open>\<open>skynet_handle_retire\<close>, with the reference that it gives back.\<close>

definition node_retire :: "u32 \<Rightarrow> bool op" where
  "node_retire handle =
     bind_o (gets (\<lambda>nd. handle_retire (hof nd) handle (nd_handles nd))) (\<lambda>(r, hs).
     seq (modify (\<lambda>nd. nd\<lparr>nd_handles := hs\<rparr>))
         (case r of None \<Rightarrow> ret False | Some c \<Rightarrow> seq (context_release c) (ret True)))"

text \<open>\<open>skynet_handle_retireall\<close>: one pass over the slots, with the number of the services it retired.\<close>

fun retire_pass :: "nat \<Rightarrow> nat list \<Rightarrow> nat op" where
  "retire_pass n [] = ret n"
| "retire_pass n (i # is) =
     bind_o (gets (\<lambda>nd. case hs_slot (nd_handles nd) ! i of None \<Rightarrow> 0 | Some c \<Rightarrow> hof nd c)) (\<lambda>handle.
       if handle \<noteq> 0
       then bind_o (node_retire handle) (\<lambda>r. retire_pass (if r then n + 1 else n) is)
       else retire_pass n is)"

partial_function (option) retireall :: "node \<Rightarrow> (unit \<times> node) res option" where
  "retireall nd =
     (case retire_pass 0 [0..<length (hs_slot (nd_handles nd))] nd of
        Inl e \<Rightarrow> Some (Inl e)
      | Inr (n, nd) \<Rightarrow> if n = 0 then Some (Inr ((), nd)) else retireall nd)"

definition handle_retireall :: "unit op" where
  "handle_retireall nd = (case retireall nd of None \<Rightarrow> Inl Diverges | Some r \<Rightarrow> r)"

section \<open>Errors are logged\<close>

text \<open>
  \<open>skynet_error\<close> sends the formatted text to the service with the name \<open>logger\<close>. A text of 256 bytes or
  more is in a buffer whose size is doubled until it fits; what such a buffer holds behind the text is
  not specified, zeros here.
\<close>

function error_size :: "nat \<Rightarrow> nat \<Rightarrow> nat" where
  "error_size len max_size = (if max_size = 0 then 0 else if len < max_size then max_size else error_size len (max_size * 2))"
  by pat_completeness auto
termination
  by (relation "measure (\<lambda>(len, max_size). len + 1 - max_size)") auto

declare error_size.simps [simp del]

definition error_data :: "bytes \<Rightarrow> bytes" where
  "error_data text =
     (if length text < 256 then text @ [0]
      else text @ replicate (error_size (length text) 512 - length text) 0)"

definition error_logger :: "u32 op" where
  "error_logger =
     bind_o (gets nd_logger) (\<lambda>logger.
       if logger = 0
       then bind_o (gets (\<lambda>nd. handle_findname (cstring ''logger'') (nd_handles nd))) (\<lambda>logger.
              seq (modify (\<lambda>nd. nd\<lparr>nd_logger := logger\<rparr>)) (ret logger))
       else ret logger)"

definition skynet_error :: "nat option \<Rightarrow> bytes \<Rightarrow> unit op" where
  "skynet_error context text =
     bind_o error_logger (\<lambda>logger.
       if logger = 0 then ret ()
       else
         bind_o (heap_alloc (Bytes (error_data text))) (\<lambda>data.
         bind_o (case context of None \<Rightarrow> ret 0 | Some c \<Rightarrow> bind_o (get_ctx c) (\<lambda>x. ret (sc_handle x))) (\<lambda>source.
         seq (context_push logger
                \<lparr>msg_source = source, msg_session = 0, msg_data = Some data,
                 msg_sz = of_nat (length text) OR push_bit MESSAGE_TYPE_SHIFT (ucast PTYPE_TEXT)\<rparr>)
             (ret ()))))"

section \<open>Messages to other nodes\<close>

definition context_send :: "nat \<Rightarrow> nat option \<Rightarrow> u64 \<Rightarrow> u32 \<Rightarrow> u32 \<Rightarrow> u32 \<Rightarrow> unit op" where
  "context_send c msg sz source type session =
     bind_o (get_ctx c) (\<lambda>x.
       do_mq (mq_push_at (sc_queue x)
         \<lparr>msg_source = source, msg_session = session, msg_data = msg,
          msg_sz = sz OR push_bit MESSAGE_TYPE_SHIFT (scast type)\<rparr>))"

definition SIZEOF_REMOTE_MESSAGE :: u64 where
  "SIZEOF_REMOTE_MESSAGE = 40"

definition harbor_send :: "nat \<Rightarrow> u32 \<Rightarrow> u32 \<Rightarrow> unit op" where
  "harbor_send rmsg source session =
     bind_o (heap_load rmsg) (\<lambda>b.
       case b of
         Bytes _ \<Rightarrow> throw Bad_pointer
       | Remote_message m \<Rightarrow>
           (let type = ucast (drop_bit MESSAGE_TYPE_SHIFT (rm_sz m)) :: u32 in
            seq (heap_store rmsg (Remote_message (m\<lparr>rm_sz := rm_sz m AND MESSAGE_TYPE_MASK\<rparr>)))
           (bind_o (gets nd_remote) (\<lambda>remote.
              case remote of
                None \<Rightarrow> throw Assert_failed
              | Some c \<Rightarrow>
                  if type = PTYPE_SYSTEM \<or> type = PTYPE_HARBOR then throw Assert_failed
                  else context_send c (Some rmsg) SIZEOF_REMOTE_MESSAGE source type session))))"

definition message_isremote :: "u32 \<Rightarrow> bool op" where
  "message_isremote handle =
     bind_o (gets nd_harbor) (\<lambda>HARBOR.
       if HARBOR = - 1 then throw Assert_failed
       else (let h = handle AND NOT HANDLE_MASK in ret (h \<noteq> HARBOR \<and> h \<noteq> 0)))"

definition harbor_init :: "u32 \<Rightarrow> unit op" where
  "harbor_init harbor = modify (\<lambda>nd. nd\<lparr>nd_harbor := push_bit HANDLE_REMOTE_SHIFT harbor\<rparr>)"

definition harbor_start :: "nat \<Rightarrow> unit op" where
  "harbor_start c = seq (context_reserve c) (modify (\<lambda>nd. nd\<lparr>nd_remote := Some c\<rparr>))"

definition harbor_exit :: "unit op" where
  "harbor_exit =
     bind_o (gets nd_remote) (\<lambda>ctx.
     seq (modify (\<lambda>nd. nd\<lparr>nd_remote := None\<rparr>))
         (case ctx of None \<Rightarrow> ret () | Some c \<Rightarrow> seq (context_release c) (ret ())))"

text \<open>\<open>skynet_isremote\<close> also gives the number of the node.\<close>

definition isremote :: "u32 \<Rightarrow> (bool \<times> u32) op" where
  "isremote handle = bind_o (message_isremote handle) (\<lambda>r. ret (r, drop_bit HANDLE_REMOTE_SHIFT handle))"

section \<open>Sending\<close>

text \<open>\<open>_filter_args\<close>: the session, the data and the size with the type in its high byte.\<close>

definition filter_session :: "nat option \<Rightarrow> u32 \<Rightarrow> u32 \<Rightarrow> u32 op" where
  "filter_session context type session =
     (if type AND PTYPE_TAG_ALLOCSESSION \<noteq> 0
      then (if session \<noteq> 0 then throw Assert_failed
            else (case context of None \<Rightarrow> throw Out_of_bounds | Some c \<Rightarrow> context_newsession c))
      else ret session)"

definition filter_payload :: "u32 \<Rightarrow> nat option \<Rightarrow> u64 \<Rightarrow> nat option op" where
  "filter_payload type data sz =
     (case data of
        None \<Rightarrow> ret None
      | Some a \<Rightarrow>
          if type AND PTYPE_TAG_DONTCOPY = 0
          then bind_o (heap_bytes a sz) (\<lambda>bs. bind_o (heap_alloc (Bytes (bs @ [0]))) (\<lambda>msg. ret (Some msg)))
          else ret data)"

definition filter_args :: "nat option \<Rightarrow> u32 \<Rightarrow> u32 \<Rightarrow> nat option \<Rightarrow> u64 \<Rightarrow> (u32 \<times> nat option \<times> u64) op" where
  "filter_args context type session data sz =
     bind_o (filter_session context type session) (\<lambda>session.
     bind_o (filter_payload type data sz) (\<lambda>data.
     ret (session, data, sz OR push_bit MESSAGE_TYPE_SHIFT (ucast (type AND 0xff)))))"

definition own_handle :: "nat option \<Rightarrow> u32 \<Rightarrow> u32 op" where
  "own_handle context source =
     (if source = 0
      then (case context of None \<Rightarrow> throw Out_of_bounds | Some c \<Rightarrow> bind_o (get_ctx c) (\<lambda>x. ret (sc_handle x)))
      else ret source)"

definition skynet_send ::
  "nat option \<Rightarrow> u32 \<Rightarrow> u32 \<Rightarrow> u32 \<Rightarrow> u32 \<Rightarrow> nat option \<Rightarrow> u64 \<Rightarrow> u32 op" where
  "skynet_send context source destination type session data sz =
     (if sz AND MESSAGE_TYPE_MASK \<noteq> sz
      then
        seq (skynet_error context (cstring ''The message to '' @ hex_x destination @ cstring '' is too large''))
       (seq (if type AND PTYPE_TAG_DONTCOPY \<noteq> 0 then heap_free data else ret ())
            (ret (- 1)))
      else
        bind_o (filter_args context type session data sz) (\<lambda>(session, data, sz).
        bind_o (own_handle context source) (\<lambda>source.
          if destination = 0 then ret session
          else
            bind_o (message_isremote destination) (\<lambda>remote.
              if remote
              then
                bind_o (heap_alloc (Remote_message
                  \<lparr>rm_name = replicate GLOBALNAME_LENGTH 0, rm_handle = destination, rm_message = data, rm_sz = sz\<rparr>)) (\<lambda>rmsg.
                seq (harbor_send rmsg source session) (ret session))
              else
                bind_o (context_push destination
                  \<lparr>msg_source = source, msg_session = session, msg_data = data, msg_sz = sz\<rparr>) (\<lambda>r.
                  if r \<noteq> 0 then seq (heap_free data) (ret (- 1)) else ret session)))))"

definition copy_name :: "bytes \<Rightarrow> bytes" where
  "copy_name addr = take GLOBALNAME_LENGTH addr @ replicate (GLOBALNAME_LENGTH - length addr) 0"

definition skynet_sendname ::
  "nat option \<Rightarrow> u32 \<Rightarrow> bytes \<Rightarrow> u32 \<Rightarrow> u32 \<Rightarrow> nat option \<Rightarrow> u64 \<Rightarrow> u32 op" where
  "skynet_sendname context source addr type session data sz =
     bind_o (own_handle context source) (\<lambda>source.
       if take 1 addr = cstring '':'' then skynet_send context source (strtoul16 (drop 1 addr)) type session data sz
       else if take 1 addr = cstring ''.''
       then
         bind_o (gets (\<lambda>nd. handle_findname (drop 1 addr) (nd_handles nd))) (\<lambda>des.
           if des = 0
           then seq (if type AND PTYPE_TAG_DONTCOPY \<noteq> 0 then heap_free data else ret ()) (ret (- 1))
           else skynet_send context source des type session data sz)
       else
         bind_o (filter_args context type session data sz) (\<lambda>(session, data, sz).
         bind_o (heap_alloc (Remote_message
           \<lparr>rm_name = copy_name addr, rm_handle = 0, rm_message = data, rm_sz = sz\<rparr>)) (\<lambda>rmsg.
         seq (harbor_send rmsg source session) (ret session))))"

text \<open>A message that is dropped with its queue is answered with an error.\<close>

definition drop_message :: "u32 \<Rightarrow> skynet_message \<Rightarrow> unit op" where
  "drop_message handle msg =
     seq (heap_free (msg_data msg))
         (if handle = 0 then throw Assert_failed
          else seq (skynet_send None handle (msg_source msg) PTYPE_ERROR 0 None 0) (ret ()))"

fun drop_messages :: "u32 \<Rightarrow> skynet_message list \<Rightarrow> unit op" where
  "drop_messages handle [] = ret ()"
| "drop_messages handle (m # ms) = seq (drop_message handle m) (drop_messages handle ms)"

text \<open>
  \<open>skynet_mq_release\<close> with \<open>drop_message\<close>. The queue is freed before its messages are dropped here, after
  that in the code; \<open>drop_message\<close> would fail if it used the queue.
\<close>

definition node_mq_release :: "nat \<Rightarrow> u32 \<Rightarrow> unit op" where
  "node_mq_release q handle = bind_o (on_mq (mq_release_at q)) (drop_messages handle)"

definition queryname :: "nat \<Rightarrow> bytes \<Rightarrow> u32 op" where
  "queryname context name =
     (if take 1 name = cstring '':'' then ret (strtoul16 (drop 1 name))
      else if take 1 name = cstring ''.'' then gets (\<lambda>nd. handle_findname (drop 1 name) (nd_handles nd))
      else seq (skynet_error (Some context) (cstring ''Don't support query global name '' @ name)) (ret 0))"

end
