(* ===== verification/Service.thy ===== *)
theory Service
  imports Server
begin

text \<open>
  The services of a node: their programs, the launch of a service, the commands of \<open>skynet_command\<close> and
  the dispatch of messages by the workers (\<open>src/3rd/skynet/skynet-src/skynet_server.c\<close>,
  \<open>skynet_monitor.c\<close>, \<open>skynet_log.c\<close>, \<open>skynet_env.c\<close>, \<open>skynet_timeout\<close>).
\<close>

section \<open>Programs\<close>

text \<open>What the code of a service may ask of the runtime, and what it gets back.\<close>

datatype request =
    Send u32 u32 u32 u32 "nat option" u64
  | Sendname u32 bytes u32 u32 "nat option" u64
  | Command bytes "bytes option"
  | Queryname bytes
  | Isremote u32
  | Callback nat nat
  | Error bytes
  | Harbor_start
  | Malloc bytes
  | Load nat
  | Store nat bytes
  | Free "nat option"

datatype answer =
    Unit
  | Num u32
  | Text "bytes option"
  | Address nat
  | Memory block

datatype program =
    Return int
  | Call request "answer \<Rightarrow> program"

record delivery =
  dl_type :: u32
  dl_session :: u32
  dl_source :: u32
  dl_data :: "nat option"
  dl_sz :: u64

text \<open>
  The code that is loaded at run time (\<open>skynet_module.c\<close> opens the libraries) and the files, which are
  parameters of the model: the modules by name, the memory of a new instance (or NULL), the programs of
  the initialisation, of a signal and of a callback \<open>cb\<close>, what the release of an instance frees, and the
  log files.
\<close>

record services =
  sv_query :: "bytes \<Rightarrow> nat option"
  sv_create :: "nat \<Rightarrow> bytes option"
  sv_init :: "nat \<Rightarrow> nat \<Rightarrow> bytes option \<Rightarrow> program"
  sv_signal :: "nat \<Rightarrow> nat \<Rightarrow> int \<Rightarrow> program"
  sv_callback :: "nat \<Rightarrow> nat \<Rightarrow> delivery \<Rightarrow> program"
  sv_release :: "nat \<Rightarrow> nat \<Rightarrow> (nat \<Rightarrow> block option) \<Rightarrow> nat list"
  sv_fopen :: "bytes \<Rightarrow> nat option"

type_synonym runner = "program \<Rightarrow> nat \<Rightarrow> int op"

primrec run_program :: "program \<Rightarrow> (request \<Rightarrow> nat \<Rightarrow> answer op) \<Rightarrow> nat \<Rightarrow> int op" where
  "run_program (Return r) exec c = ret r"
| "run_program (Call a k) exec c = bind_o (exec a c) (\<lambda>answer. run_program (k answer) exec c)"

section \<open>Launching a service\<close>

definition instance_create :: "services \<Rightarrow> nat \<Rightarrow> nat option op" where
  "instance_create S md =
     (case sv_create S md of
        None \<Rightarrow> ret None
      | Some bs \<Rightarrow> bind_o (heap_alloc (Bytes bs)) (\<lambda>inst. ret (Some inst)))"

definition new_context :: "nat \<Rightarrow> nat \<Rightarrow> skynet_context" where
  "new_context md inst =
     \<lparr>sc_instance = inst, sc_mod = md, sc_cb_ud = 0, sc_cb = None, sc_queue = 0, sc_logfile = None,
      sc_handle = 0, sc_session_id = 0, sc_ref = 2, sc_init = False, sc_endless = False\<rparr>"

text \<open>A fresh address, for a context or a queue.\<close>

definition fresh :: "nat op" where
  "fresh nd = Inr (nd_next nd, nd\<lparr>nd_next := nd_next nd + 1\<rparr>)"

definition node_register :: "nat \<Rightarrow> u32 op" where
  "node_register c nd =
     (case handle_register (hof nd) c (nd_handles nd) of
        None \<Rightarrow> Inl Diverges
      | Some (Inl e) \<Rightarrow> Inl e
      | Some (Inr (h, hs)) \<Rightarrow> Inr (h, nd\<lparr>nd_handles := hs\<rparr>))"

definition context_inc :: "unit op" where
  "context_inc = modify (\<lambda>nd. nd\<lparr>nd_total := nd_total nd + 1\<rparr>)"

text \<open>The part of \<open>skynet_context_new\<close> that makes the context, with its handle and its queue.\<close>

definition context_create :: "nat \<Rightarrow> nat \<Rightarrow> nat op" where
  "context_create md inst =
     bind_o fresh (\<lambda>ctx.
     seq (set_ctx ctx (new_context md inst))
    (bind_o (node_register ctx) (\<lambda>handle.
     bind_o fresh (\<lambda>queue.
     seq (do_mq (\<lambda>s. Inr (set_queue queue (mq_create handle) s)))
    (seq (set_ctx ctx ((new_context md inst)\<lparr>sc_handle := handle, sc_queue := queue\<rparr>))
    (seq context_inc (ret ctx)))))))"

definition context_new :: "runner \<Rightarrow> services \<Rightarrow> bytes \<Rightarrow> bytes option \<Rightarrow> nat option op" where
  "context_new run S name param =
     (case sv_query S name of
        None \<Rightarrow> ret None
      | Some md \<Rightarrow>
          bind_o (instance_create S md) (\<lambda>inst.
            case inst of
              None \<Rightarrow> ret None
            | Some inst \<Rightarrow>
                bind_o (context_create md inst) (\<lambda>ctx.
                bind_o (get_ctx ctx) (\<lambda>x.
                  (let queue = sc_queue x; handle = sc_handle x in
                   bind_o (run (sv_init S md inst param) ctx) (\<lambda>r.
                   if r = 0
                   then
                     bind_o (context_release ctx) (\<lambda>rt.
                     seq (case rt of None \<Rightarrow> ret () | Some c \<Rightarrow> bind_o (get_ctx c) (\<lambda>x. set_ctx c (x\<lparr>sc_init := True\<rparr>)))
                    (seq (do_mq (globalmq_push queue))
                    (seq (case rt of
                            None \<Rightarrow> ret ()
                          | Some c \<Rightarrow> skynet_error (Some c)
                              (cstring ''LAUNCH '' @ name @ cstring '' '' @ (case param of None \<Rightarrow> [] | Some p \<Rightarrow> p)))
                         (ret rt))))
                   else
                     seq (skynet_error (Some ctx) (cstring ''FAILED launch '' @ name))
                    (seq (context_release ctx)
                    (seq (node_retire handle)
                    (seq (node_mq_release queue handle)
                         (ret None))))))))))"

section \<open>Commands\<close>

text \<open>The parameter of a command, \<open>None\<close> for NULL, where the code reads it without a test.\<close>

definition string_of :: "bytes option \<Rightarrow> bytes op" where
  "string_of p = (case p of None \<Rightarrow> throw Bad_pointer | Some s \<Rightarrow> ret s)"

definition HEX_DIGITS :: bytes where
  "HEX_DIGITS = cstring ''0123456789ABCDEF''"

definition id_to_hex :: "u32 \<Rightarrow> bytes" where
  "id_to_hex x = 58 # map (\<lambda>i. HEX_DIGITS ! unat (drop_bit ((7 - i) * 4) x AND 0xf)) [0..<8]"

definition node_findname :: "bytes \<Rightarrow> u32 op" where
  "node_findname name = gets (\<lambda>nd. handle_findname name (nd_handles nd))"

definition node_namehandle :: "u32 \<Rightarrow> bytes \<Rightarrow> bytes option op" where
  "node_namehandle handle name nd =
     bind_r (handle_namehandle handle name (nd_handles nd)) (\<lambda>(r, hs). Inr (r, nd\<lparr>nd_handles := hs\<rparr>))"

definition handle_exit :: "nat \<Rightarrow> u32 \<Rightarrow> unit op" where
  "handle_exit context handle =
     bind_o (get_ctx context) (\<lambda>x.
       (let h = (if handle = 0 then sc_handle x else handle) in
        seq (skynet_error (Some context) (if handle = 0 then cstring ''KILL self'' else cstring ''KILL :'' @ hex_x handle))
       (bind_o (gets nd_monitor_exit) (\<lambda>m.
        seq (if m \<noteq> 0 then seq (skynet_send (Some context) h m PTYPE_CLIENT 0 None 0) (ret ()) else ret ())
       (seq (node_retire h) (ret ()))))))"

definition skynet_timeout :: "u32 \<Rightarrow> int \<Rightarrow> u32 \<Rightarrow> u32 op" where
  "skynet_timeout handle time session =
     bind_o (gets (\<lambda>nd. timeout handle time session (nd_timer nd))) (\<lambda>(m, T).
     seq (modify (\<lambda>nd. nd\<lparr>nd_timer := T\<rparr>))
         (case m of
            None \<Rightarrow> ret session
          | Some message \<Rightarrow> bind_o (context_push handle message) (\<lambda>r. ret (if r \<noteq> 0 then - 1 else session))))"

definition cmd_timeout :: "nat \<Rightarrow> bytes option \<Rightarrow> bytes option op" where
  "cmd_timeout context param =
     bind_o (string_of param) (\<lambda>p.
     bind_o (context_newsession context) (\<lambda>session.
     bind_o (get_ctx context) (\<lambda>x.
     seq (skynet_timeout (sc_handle x) (strtol10 p) session)
         (ret (Some (dec (sint session)))))))"

definition cmd_reg :: "nat \<Rightarrow> bytes option \<Rightarrow> bytes option op" where
  "cmd_reg context param =
     bind_o (get_ctx context) (\<lambda>x.
       case param of
         None \<Rightarrow> ret (Some (cstring '':'' @ hex_x (sc_handle x)))
       | Some p \<Rightarrow>
           if p = [] then ret (Some (cstring '':'' @ hex_x (sc_handle x)))
           else if take 1 p = cstring ''.'' then node_namehandle (sc_handle x) (drop 1 p)
           else seq (skynet_error (Some context) (cstring ''Can't register global name '' @ p @ cstring '' in C'')) (ret None))"

definition cmd_query :: "nat \<Rightarrow> bytes option \<Rightarrow> bytes option op" where
  "cmd_query context param =
     bind_o (string_of param) (\<lambda>p.
       if take 1 p = cstring ''.''
       then bind_o (node_findname (drop 1 p)) (\<lambda>handle.
              ret (if handle \<noteq> 0 then Some (cstring '':'' @ hex_x handle) else None))
       else ret None)"

text \<open>
  \<open>sscanf\<close> leaves an array for which the input has no word unwritten; the code reads the second one all
  the same.
\<close>

definition cmd_name :: "nat \<Rightarrow> bytes option \<Rightarrow> bytes option op" where
  "cmd_name context param =
     bind_o (string_of param) (\<lambda>p.
       case scan_word p of
         None \<Rightarrow> throw Uninitialised
       | Some (name, rest) \<Rightarrow>
           (case scan_word rest of
              None \<Rightarrow> throw Uninitialised
            | Some (handle, _) \<Rightarrow>
                if take 1 handle \<noteq> cstring '':'' then ret None
                else
                  (let handle_id = strtoul16 (drop 1 handle) in
                   if handle_id = 0 then ret None
                   else if take 1 name = cstring ''.'' then node_namehandle handle_id (drop 1 name)
                   else seq (skynet_error (Some context) (cstring ''Can't set global name '' @ name @ cstring '' in C'')) (ret None))))"

definition cmd_exit :: "nat \<Rightarrow> bytes option \<Rightarrow> bytes option op" where
  "cmd_exit context param = seq (handle_exit context 0) (ret None)"

definition tohandle :: "nat \<Rightarrow> bytes \<Rightarrow> u32 op" where
  "tohandle context param =
     (if take 1 param = cstring '':'' then ret (strtoul16 (drop 1 param))
      else if take 1 param = cstring ''.'' then node_findname (drop 1 param)
      else seq (skynet_error (Some context) (cstring ''Can't convert '' @ param @ cstring '' to handle'')) (ret 0))"

definition cmd_kill :: "nat \<Rightarrow> bytes option \<Rightarrow> bytes option op" where
  "cmd_kill context param =
     bind_o (string_of param) (\<lambda>p.
     bind_o (tohandle context p) (\<lambda>handle.
       if handle \<noteq> 0 then seq (handle_exit context handle) (ret None) else ret None))"

definition cmd_launch :: "runner \<Rightarrow> services \<Rightarrow> nat \<Rightarrow> bytes option \<Rightarrow> bytes option op" where
  "cmd_launch run S context param =
     bind_o (string_of param) (\<lambda>p.
       (let (md, rest) = strsep (cstring '' '' @ [9, 13, 10]) p;
            args = (case rest of None \<Rightarrow> None | Some r \<Rightarrow> Some (fst (strsep [13, 10] r)))
        in bind_o (context_new run S md args) (\<lambda>inst.
             case inst of
               None \<Rightarrow> ret None
             | Some c \<Rightarrow> bind_o (get_ctx c) (\<lambda>x. ret (Some (id_to_hex (sc_handle x)))))))"

definition cmd_getenv :: "nat \<Rightarrow> bytes option \<Rightarrow> bytes option op" where
  "cmd_getenv context param = bind_o (string_of param) (\<lambda>key. gets (\<lambda>nd. nd_env nd key))"

definition setenv :: "bytes \<Rightarrow> bytes \<Rightarrow> unit op" where
  "setenv key val =
     bind_o (gets (\<lambda>nd. nd_env nd key)) (\<lambda>old.
       if old \<noteq> None then throw Assert_failed
       else modify (\<lambda>nd. nd\<lparr>nd_env := (nd_env nd)(key \<mapsto> val)\<rparr>))"

definition cmd_setenv :: "nat \<Rightarrow> bytes option \<Rightarrow> bytes option op" where
  "cmd_setenv context param =
     bind_o (string_of param) (\<lambda>p.
       (let key = takeWhile (\<lambda>c. c \<noteq> 32) p in
        if length key = length p then ret None
        else seq (setenv key (drop (length key + 1) p)) (ret None)))"

definition cmd_starttime :: "nat \<Rightarrow> bytes option \<Rightarrow> bytes option op" where
  "cmd_starttime context param = gets (\<lambda>nd. Some (dec_u (t_starttime (nd_timer nd))))"

definition cmd_endless :: "nat \<Rightarrow> bytes option \<Rightarrow> bytes option op" where
  "cmd_endless context param =
     bind_o (get_ctx context) (\<lambda>x.
       if sc_endless x then seq (set_ctx context (x\<lparr>sc_endless := False\<rparr>)) (ret (Some (cstring ''1''))) else ret None)"

definition cmd_abort :: "nat \<Rightarrow> bytes option \<Rightarrow> bytes option op" where
  "cmd_abort context param = seq handle_retireall (ret None)"

definition cmd_monitor :: "nat \<Rightarrow> bytes option \<Rightarrow> bytes option op" where
  "cmd_monitor context param =
     (if param = None \<or> param = Some []
      then bind_o (gets nd_monitor_exit) (\<lambda>m. ret (if m \<noteq> 0 then Some (cstring '':'' @ hex_x m) else None))
      else
        bind_o (string_of param) (\<lambda>p.
        bind_o (tohandle context p) (\<lambda>handle.
        seq (modify (\<lambda>nd. nd\<lparr>nd_monitor_exit := handle\<rparr>)) (ret None))))"

definition queue_length :: "nat \<Rightarrow> nat op" where
  "queue_length q = on_mq (\<lambda>s. bind_r (deref s q) (\<lambda>mq. Inr (mq_length mq, s)))"

definition cmd_mqlen :: "nat \<Rightarrow> bytes option \<Rightarrow> bytes option op" where
  "cmd_mqlen context param =
     bind_o (get_ctx context) (\<lambda>x. bind_o (queue_length (sc_queue x)) (\<lambda>len. ret (Some (dec (int len)))))"

definition log_open :: "services \<Rightarrow> nat \<Rightarrow> u32 \<Rightarrow> nat option op" where
  "log_open S context handle =
     bind_o (gets (\<lambda>nd. nd_env nd (cstring ''logpath''))) (\<lambda>logpath.
       case logpath of
         None \<Rightarrow> ret None
       | Some path \<Rightarrow>
           (let tmp = path @ cstring ''/'' @ hex_08x handle @ cstring ''.log'' in
            case sv_fopen S tmp of
              None \<Rightarrow> seq (skynet_error (Some context) (cstring ''Open log file '' @ tmp @ cstring '' fail'')) (ret None)
            | Some f \<Rightarrow> seq (skynet_error (Some context) (cstring ''Open log file '' @ tmp)) (ret (Some f))))"

definition log_close :: "nat \<Rightarrow> u32 \<Rightarrow> unit op" where
  "log_close context handle = skynet_error (Some context) (cstring ''Close log file :'' @ hex_08x handle)"

definition cmd_logon :: "services \<Rightarrow> nat \<Rightarrow> bytes option \<Rightarrow> bytes option op" where
  "cmd_logon S context param =
     bind_o (string_of param) (\<lambda>p.
     bind_o (tohandle context p) (\<lambda>handle.
       if handle = 0 then ret None
       else
         bind_o (node_grab handle) (\<lambda>ctx.
           case ctx of
             None \<Rightarrow> ret None
           | Some c \<Rightarrow>
               bind_o (get_ctx c) (\<lambda>x.
               seq (if sc_logfile x = None
                    then bind_o (log_open S context handle) (\<lambda>f.
                           if f \<noteq> None
                           then bind_o (get_ctx c) (\<lambda>x. if sc_logfile x = None then set_ctx c (x\<lparr>sc_logfile := f\<rparr>) else ret ())
                           else ret ())
                    else ret ())
              (seq (context_release c) (ret None))))))"

definition cmd_logoff :: "nat \<Rightarrow> bytes option \<Rightarrow> bytes option op" where
  "cmd_logoff context param =
     bind_o (string_of param) (\<lambda>p.
     bind_o (tohandle context p) (\<lambda>handle.
       if handle = 0 then ret None
       else
         bind_o (node_grab handle) (\<lambda>ctx.
           case ctx of
             None \<Rightarrow> ret None
           | Some c \<Rightarrow>
               bind_o (get_ctx c) (\<lambda>x.
               seq (if sc_logfile x \<noteq> None
                    then seq (set_ctx c (x\<lparr>sc_logfile := None\<rparr>)) (log_close context handle)
                    else ret ())
              (seq (context_release c) (ret None))))))"

definition cmd_signal :: "runner \<Rightarrow> services \<Rightarrow> nat \<Rightarrow> bytes option \<Rightarrow> bytes option op" where
  "cmd_signal run S context param =
     bind_o (string_of param) (\<lambda>p.
     bind_o (tohandle context p) (\<lambda>handle.
       if handle = 0 then ret None
       else
         bind_o (node_grab handle) (\<lambda>ctx.
           case ctx of
             None \<Rightarrow> ret None
           | Some c \<Rightarrow>
               (let arg = dropWhile (\<lambda>c. c \<noteq> 32) p; sig = (if arg = [] then 0 else strtol0 arg) in
                bind_o (get_ctx c) (\<lambda>x.
                seq (run (sv_signal S (sc_mod x) (sc_instance x) sig) c)
               (seq (context_release c) (ret None)))))))"

definition cmd_funcs ::
  "runner \<Rightarrow> services \<Rightarrow> (bytes \<times> (nat \<Rightarrow> bytes option \<Rightarrow> bytes option op)) list" where
  "cmd_funcs run S =
     [(cstring ''TIMEOUT'', cmd_timeout), (cstring ''REG'', cmd_reg), (cstring ''QUERY'', cmd_query), (cstring ''NAME'', cmd_name),
      (cstring ''EXIT'', cmd_exit), (cstring ''KILL'', cmd_kill), (cstring ''LAUNCH'', cmd_launch run S), (cstring ''GETENV'', cmd_getenv),
      (cstring ''SETENV'', cmd_setenv), (cstring ''STARTTIME'', cmd_starttime), (cstring ''ENDLESS'', cmd_endless),
      (cstring ''ABORT'', cmd_abort), (cstring ''MONITOR'', cmd_monitor), (cstring ''MQLEN'', cmd_mqlen), (cstring ''LOGON'', cmd_logon S),
      (cstring ''LOGOFF'', cmd_logoff), (cstring ''SIGNAL'', cmd_signal run S)]"

definition skynet_command :: "runner \<Rightarrow> services \<Rightarrow> nat \<Rightarrow> bytes \<Rightarrow> bytes option \<Rightarrow> bytes option op" where
  "skynet_command run S context cmd param =
     (case map_of (cmd_funcs run S) cmd of None \<Rightarrow> ret None | Some f \<Rightarrow> f context param)"

section \<open>Running a program\<close>

definition skynet_callback :: "nat \<Rightarrow> nat \<Rightarrow> nat \<Rightarrow> unit op" where
  "skynet_callback context ud cb = bind_o (get_ctx context) (\<lambda>x. set_ctx context (x\<lparr>sc_cb := Some cb, sc_cb_ud := ud\<rparr>))"

definition exec_request :: "runner \<Rightarrow> services \<Rightarrow> request \<Rightarrow> nat \<Rightarrow> answer op" where
  "exec_request run S a c =
     (case a of
        Send source destination type session data sz \<Rightarrow>
          bind_o (skynet_send (Some c) source destination type session data sz) (\<lambda>r. ret (Num r))
      | Sendname source addr type session data sz \<Rightarrow>
          bind_o (skynet_sendname (Some c) source addr type session data sz) (\<lambda>r. ret (Num r))
      | Command cmd param \<Rightarrow> bind_o (skynet_command run S c cmd param) (\<lambda>r. ret (Text r))
      | Queryname name \<Rightarrow> bind_o (queryname c name) (\<lambda>r. ret (Num r))
      | Isremote handle \<Rightarrow> bind_o (isremote handle) (\<lambda>(r, h). ret (Num (if r then h else 0)))
      | Callback ud cb \<Rightarrow> seq (skynet_callback c ud cb) (ret Unit)
      | Error text \<Rightarrow> seq (skynet_error (Some c) text) (ret Unit)
      | Harbor_start \<Rightarrow> seq (harbor_start c) (ret Unit)
      | Malloc bs \<Rightarrow> bind_o (heap_alloc (Bytes bs)) (\<lambda>a. ret (Address a))
      | Load a \<Rightarrow> bind_o (heap_load a) (\<lambda>b. ret (Memory b))
      | Store a bs \<Rightarrow> seq (heap_store a (Bytes bs)) (ret Unit)
      | Free p \<Rightarrow> seq (heap_free p) (ret Unit))"

text \<open>
  The fuel bounds how deep services launch or signal services from within their initialisation and
  their signal handlers; a program needs one unit, and one more for each level.
\<close>

primrec exec :: "services \<Rightarrow> nat \<Rightarrow> request \<Rightarrow> nat \<Rightarrow> answer op" where
  "exec S 0 = (\<lambda>a c. throw Diverges)"
| "exec S (Suc n) = exec_request (\<lambda>p. run_program p (exec S n)) S"

section \<open>Dispatching messages\<close>

definition ctx_dispatch_message :: "runner \<Rightarrow> services \<Rightarrow> nat \<Rightarrow> skynet_message \<Rightarrow> unit op" where
  "ctx_dispatch_message run S c msg =
     bind_o (get_ctx c) (\<lambda>x.
       if \<not> sc_init x then throw Assert_failed
       else
         (case sc_cb x of
            None \<Rightarrow> throw Bad_pointer
          | Some cb \<Rightarrow>
              (let type = ucast (drop_bit MESSAGE_TYPE_SHIFT (msg_sz msg)) :: u32;
                   sz = msg_sz msg AND MESSAGE_TYPE_MASK
               in bind_o (run (sv_callback S cb (sc_cb_ud x)
                    \<lparr>dl_type = type, dl_session = msg_session msg, dl_source = msg_source msg,
                     dl_data = msg_data msg, dl_sz = sz\<rparr>) c) (\<lambda>r.
                  if r = 0 then heap_free (msg_data msg) else ret ()))))"

partial_function (option) dispatchall_loop :: "runner \<Rightarrow> services \<Rightarrow> nat \<Rightarrow> nat \<Rightarrow> node \<Rightarrow> (unit \<times> node) res option" where
  "dispatchall_loop run S c q nd =
     (case on_mq (mq_pop_at q) nd of
        Inl e \<Rightarrow> Some (Inl e)
      | Inr (None, nd) \<Rightarrow> Some (Inr ((), nd))
      | Inr (Some msg, nd) \<Rightarrow>
          (case ctx_dispatch_message run S c msg nd of
             Inl e \<Rightarrow> Some (Inl e)
           | Inr (_, nd) \<Rightarrow> dispatchall_loop run S c q nd))"

definition context_dispatchall :: "runner \<Rightarrow> services \<Rightarrow> nat \<Rightarrow> unit op" where
  "context_dispatchall run S c =
     bind_o (get_ctx c) (\<lambda>x. \<lambda>nd. case dispatchall_loop run S c (sc_queue x) nd of None \<Rightarrow> Inl Diverges | Some r \<Rightarrow> r)"

definition monitor_trigger :: "nat \<Rightarrow> u32 \<Rightarrow> u32 \<Rightarrow> unit op" where
  "monitor_trigger w source destination =
     modify (\<lambda>nd. nd\<lparr>nd_monitor := (nd_monitor nd)(w :=
       (nd_monitor nd w)\<lparr>sm_source := source, sm_destination := destination, sm_version := sm_version (nd_monitor nd w) + 1\<rparr>)\<rparr>)"

definition monitor_check :: "nat \<Rightarrow> unit op" where
  "monitor_check w =
     bind_o (gets (\<lambda>nd. nd_monitor nd w)) (\<lambda>sm.
       if sm_version sm = sm_check_version sm
       then
         (if sm_destination sm \<noteq> 0
          then seq (context_endless (sm_destination sm))
                   (skynet_error None (cstring ''A message from [ :'' @ hex_08x (sm_source sm) @ cstring '' ] to [ :'' @
                      hex_08x (sm_destination sm) @ cstring '' ] maybe in an endless loop (version = '' @
                      dec (sint (sm_version sm)) @ cstring '')''))
          else ret ())
       else modify (\<lambda>nd. nd\<lparr>nd_monitor := (nd_monitor nd)(w := sm\<lparr>sm_check_version := sm_version sm\<rparr>)\<rparr>))"

definition queue_overload :: "nat \<Rightarrow> nat op" where
  "queue_overload q = on_mq (\<lambda>s. bind_r (deref s q) (\<lambda>mq. let (n, mq) = take_overload mq in Inr (n, set_queue q mq s)))"

text \<open>One message of the slice of worker \<open>w\<close>: the second half of the body of the loop.\<close>

definition serve :: "runner \<Rightarrow> services \<Rightarrow> nat \<Rightarrow> nat \<Rightarrow> u32 \<Rightarrow> nat \<Rightarrow> skynet_message \<Rightarrow> unit op" where
  "serve run S w q handle c msg =
     bind_o (queue_overload q) (\<lambda>overload.
     seq (if overload \<noteq> 0
          then skynet_error (Some c) (cstring ''May overload, message queue length = '' @ dec (int overload))
          else ret ())
    (seq (monitor_trigger w (msg_source msg) handle)
    (bind_o (get_ctx c) (\<lambda>x.
     seq (if sc_cb x = None then heap_free (msg_data msg) else ctx_dispatch_message run S c msg)
         (monitor_trigger w 0 0)))))"

text \<open>The rounds of the loop after the first; the result tells whether the queue ran empty.\<close>

fun serve_more :: "runner \<Rightarrow> services \<Rightarrow> nat \<Rightarrow> nat \<Rightarrow> u32 \<Rightarrow> nat \<Rightarrow> nat \<Rightarrow> bool op" where
  "serve_more run S w q handle c 0 = ret False"
| "serve_more run S w q handle c (Suc n) =
     bind_o (on_mq (mq_pop_at q)) (\<lambda>m.
       case m of
         None \<Rightarrow> ret True
       | Some msg \<Rightarrow> seq (serve run S w q handle c msg) (serve_more run S w q handle c n))"

definition serve_slice :: "runner \<Rightarrow> services \<Rightarrow> nat \<Rightarrow> nat \<Rightarrow> u32 \<Rightarrow> nat \<Rightarrow> int \<Rightarrow> bool op" where
  "serve_slice run S w q handle c weight =
     bind_o (on_mq (mq_pop_at q)) (\<lambda>m.
       case m of
         None \<Rightarrow> ret True
       | Some msg \<Rightarrow>
           bind_o (if 0 \<le> weight then bind_o (queue_length q) (\<lambda>len. ret (len div 2 ^ nat weight)) else ret 1) (\<lambda>n.
           seq (serve run S w q handle c msg) (serve_more run S w q handle c (n - 1))))"

text \<open>\<open>skynet_context_message_dispatch\<close> by the worker \<open>w\<close>, which holds \<open>q\<close> (or nothing).\<close>

definition dispatch_queue :: "runner \<Rightarrow> services \<Rightarrow> nat \<Rightarrow> nat \<Rightarrow> int \<Rightarrow> nat option op" where
  "dispatch_queue run S w q weight =
     bind_o (on_mq (\<lambda>s. bind_r (deref s q) (\<lambda>mq. Inr (mq_handle mq, s)))) (\<lambda>handle.
     bind_o (node_grab handle) (\<lambda>ctx.
       case ctx of
         None \<Rightarrow> seq (node_mq_release q handle) (on_mq globalmq_pop)
       | Some c \<Rightarrow>
           bind_o (serve_slice run S w q handle c weight) (\<lambda>empty.
             if empty
             then seq (context_release c) (on_mq globalmq_pop)
             else
               bind_o (get_ctx c) (\<lambda>x.
                 if q \<noteq> sc_queue x then throw Assert_failed
                 else
                   bind_o (on_mq globalmq_pop) (\<lambda>nq.
                   seq (if nq \<noteq> None then do_mq (globalmq_push q) else ret ())
                  (seq (context_release c)
                       (ret (if nq \<noteq> None then nq else Some q))))))))"

definition message_dispatch :: "runner \<Rightarrow> services \<Rightarrow> nat \<Rightarrow> nat option \<Rightarrow> int \<Rightarrow> nat option op" where
  "message_dispatch run S w q weight =
     (case q of
        Some q \<Rightarrow> dispatch_queue run S w q weight
      | None \<Rightarrow>
          bind_o (on_mq globalmq_pop) (\<lambda>q.
            case q of None \<Rightarrow> ret None | Some q \<Rightarrow> dispatch_queue run S w q weight))"

section \<open>Timer\<close>

fun push_all_to :: "(u32 \<times> skynet_message) list \<Rightarrow> unit op" where
  "push_all_to [] = ret ()"
| "push_all_to ((handle, message) # ms) = seq (context_push handle message) (push_all_to ms)"

text \<open>\<open>skynet_updatetime\<close> with the messages of the timers that are due.\<close>

definition node_updatetime :: "u64 \<Rightarrow> unit op" where
  "node_updatetime cp =
     (\<lambda>nd. case updatetime cp (nd_timer nd) of
        None \<Rightarrow> Inl Diverges
      | Some (wrong, nss, T) \<Rightarrow>
          seq (if wrong
               then skynet_error None (cstring ''time diff error: change from '' @ dec (sint cp) @ cstring '' to '' @
                      dec (sint (t_current_point (nd_timer nd))))
               else ret ())
              (push_all_to (concat (map dispatch_list nss))) (nd\<lparr>nd_timer := T\<rparr>))"

end
