(* ===== verification/Node.thy ===== *)
theory Node
  imports Service
begin

text \<open>
  The invariant of a node, kept by every operation of the runtime whatever the programs of the services
  do: the table of handles and the names are well formed, the queues obey the scheduling protocol of
  \<open>Mq\<close>, every context is referenced and counts its references, and no operation uses a context or a queue
  that was freed. The proofs are triples \<open>safe P m Q\<close>: from a node with \<open>P\<close> the operation \<open>m\<close> either gives
  a result and a node with \<open>Q\<close>, or an error other than an access to freed memory.
\<close>

section \<open>Triples\<close>

abbreviation safe :: "(node \<Rightarrow> bool) \<Rightarrow> 'a op \<Rightarrow> ('a \<Rightarrow> node \<Rightarrow> bool) \<Rightarrow> bool" where
  "safe \<equiv> triple (- {Out_of_bounds})"

lemma safeI: "(\<And>nd. P nd \<Longrightarrow> case m nd of Inl e \<Rightarrow> e \<noteq> Out_of_bounds | Inr (x, nd') \<Rightarrow> Q x nd') \<Longrightarrow> safe P m Q"
  unfolding triple_def Compl_iff singleton_iff by blast

lemma safe_error: "safe P m Q \<Longrightarrow> P nd \<Longrightarrow> m nd \<noteq> Inl Out_of_bounds"
  by (auto dest: triple_error)

lemma safe_throw: "e \<noteq> Out_of_bounds \<Longrightarrow> safe P (throw e) Q"
  by (simp add: triple_throw)

lemmas safeD = tripleD [where E = "- {Out_of_bounds}"]
lemmas safe_bind = triple_bind [where E = "- {Out_of_bounds}"]
lemmas safe_seq = triple_seq [where E = "- {Out_of_bounds}"]
lemmas safe_seq' = triple_seq' [where E = "- {Out_of_bounds}"]
lemmas safe_ret = triple_ret [where E = "- {Out_of_bounds}"]
lemmas safe_ret_same = triple_ret_same [where E = "- {Out_of_bounds}"]
lemmas safe_gets = triple_gets [where E = "- {Out_of_bounds}"]
lemmas safe_modify = triple_modify [where E = "- {Out_of_bounds}"]
lemmas safe_pre = triple_pre [where E = "- {Out_of_bounds}"]
lemmas safe_post = triple_post [where E = "- {Out_of_bounds}"]
lemmas safe_if = triple_if [where E = "- {Out_of_bounds}"]
lemmas safe_option = triple_option [where E = "- {Out_of_bounds}"]
lemmas safe_pure = triple_pure [where E = "- {Out_of_bounds}"]

section \<open>The invariant of a node\<close>

text \<open>The handle and the release mark of each queue.\<close>

definition queue_ids :: "scheduler \<Rightarrow> nat \<Rightarrow> (u32 \<times> bool) option" where
  "queue_ids s a = map_option (\<lambda>q. (mq_handle q, mq_release q)) (queues s a)"

text \<open>
  Contexts: \<open>G c\<close> is the number of references to \<open>c\<close> that running operations hold. A context counts
  these, one for its entry in the table of handles and one for being the harbor; it has a queue of its
  own, which carries its handle and is not marked as released.
\<close>

definition counted :: "(nat \<Rightarrow> nat) \<Rightarrow> node \<Rightarrow> nat \<Rightarrow> int" where
  "counted G nd c = of_bool (c \<in> registered (nd_handles nd)) + of_bool (nd_remote nd = Some c) + int (G c)"

definition context_ok :: "(nat \<Rightarrow> nat) \<Rightarrow> node \<Rightarrow> nat \<Rightarrow> skynet_context \<Rightarrow> bool" where
  "context_ok G nd c x =
     (c < nd_next nd \<and> queue_ids (nd_mq nd) (sc_queue x) = Some (sc_handle x, False) \<and> 0 < sc_ref x \<and>
      counted G nd c \<le> sc_ref x)"

definition contexts_ok :: "(nat \<Rightarrow> nat) \<Rightarrow> node \<Rightarrow> bool" where
  "contexts_ok G nd =
     ((\<forall>c x. nd_ctx nd c = Some x \<longrightarrow> context_ok G nd c x) \<and>
      (\<forall>c d x y. nd_ctx nd c = Some x \<longrightarrow> nd_ctx nd d = Some y \<longrightarrow> sc_queue x = sc_queue y \<longrightarrow> c = d) \<and>
      registered (nd_handles nd) \<union> set_option (nd_remote nd) \<union> {c. 0 < G c} \<subseteq> dom (nd_ctx nd))"

definition node_ok :: "(nat \<Rightarrow> nat) \<Rightarrow> nat set \<Rightarrow> node \<Rightarrow> bool" where
  "node_ok G H nd =
     ((\<exists>k. table_ok k (hof nd) (nd_handles nd)) \<and> names_ok (nd_handles nd) \<and>
      (\<exists>as. sched_inv False (nd_mq nd) H as) \<and> contexts_ok G nd \<and>
      (\<forall>a. queues (nd_mq nd) a \<noteq> None \<longrightarrow> a < nd_next nd) \<and> (\<forall>a. nd_heap nd a \<noteq> None \<longrightarrow> a < nd_next nd))"

lemma table_ok_cong:
  assumes "table_ok k f s" "\<And>c. c \<in> registered s \<Longrightarrow> g c = f c"
  shows "table_ok k g s"
proof -
  have "f c = g c" if "i < 2 ^ k" "hs_slot s ! i = Some c" for i c
    using that assms slot_registered [of i s c] by (simp add: table_ok_def)
  then show ?thesis using assms(1) unfolding table_ok_def by metis
qed

lemma ids_live:
  assumes "queue_ids s = queue_ids s'"
  shows "queues s a = None \<longleftrightarrow> queues s' a = None"
  using fun_cong [OF assms, of a] by (cases "queues s a"; cases "queues s' a") (simp_all add: queue_ids_def)

lemma ids_set: "queues s a = Some q \<Longrightarrow> mq_handle q' = mq_handle q \<Longrightarrow> mq_release q' = mq_release q \<Longrightarrow>
    queue_ids (set_queue a q' s) = queue_ids s"
  by (auto simp: queue_ids_def set_queue_def)

lemma ids_globalmq_push: "globalmq_push a s = Inr s' \<Longrightarrow> queue_ids s' = queue_ids s"
  by (auto simp: globalmq_push_def deref_def bind_r_Inr_iff queue_ids_def set_queue_def split: if_splits option.splits)

lemma ids_globalmq_pop: "globalmq_pop s = Inr (r, s') \<Longrightarrow> queue_ids s' = queue_ids s"
  by (auto simp: globalmq_pop_def deref_def bind_r_Inr_iff queue_ids_def set_queue_def split: if_splits option.splits)

lemma mq_store_fields: "mq_handle (mq_store m q) = mq_handle q" "mq_release (mq_store m q) = mq_release q"
  by (simp_all add: mq_store_def expand_queue_def Let_def)

lemma ids_push:
  assumes "mq_push_at a m s = Inr s'"
  shows "queue_ids s' = queue_ids s"
proof -
  obtain q where q: "queues s a = Some q" using assms by (auto simp: mq_push_at_def deref_def split: option.splits)
  have "s' = set_queue a (mq_store m q) s \<or>
      globalmq_push a (set_queue a ((mq_store m q)\<lparr>mq_in_global := True\<rparr>) s) = Inr s'"
    using assms q by (auto simp: mq_push_at_def deref_def Let_def split: if_splits)
  then show ?thesis
    using ids_set [OF q] by (auto simp: mq_store_fields dest: ids_globalmq_push)
qed

lemma mq_pop_fields: "mq_pop q = Some (r, q') \<Longrightarrow> mq_handle q' = mq_handle q \<and> mq_release q' = mq_release q"
  by (auto simp: mq_pop_def Let_def split: if_splits option.splits)

lemma ids_pop:
  assumes "mq_pop_at a s = Inr (r, s')"
  shows "queue_ids s' = queue_ids s"
proof -
  obtain q where q: "queues s a = Some q" using assms by (auto simp: mq_pop_at_def deref_def split: option.splits)
  then obtain q' where "mq_pop q = Some (r, q')" "s' = set_queue a q' s"
    using assms by (auto simp: mq_pop_at_def deref_def split: option.splits)
  then show ?thesis using ids_set [OF q] mq_pop_fields by blast
qed

lemma ids_other: "b \<noteq> a \<Longrightarrow> queue_ids (set_queue a q s) b = queue_ids s b"
  by (simp add: queue_ids_def set_queue_def)

lemma ids_mark:
  assumes "mq_mark_release a s = Inr s'" "b \<noteq> a"
  shows "queue_ids s' b = queue_ids s b"
proof -
  obtain q where q: "queues s a = Some q" using assms(1) by (auto simp: mq_mark_release_def deref_def split: option.splits)
  have "s' = set_queue a (q\<lparr>mq_release := True\<rparr>) s \<or> globalmq_push a (set_queue a (q\<lparr>mq_release := True\<rparr>) s) = Inr s'"
    using assms(1) q by (auto simp: mq_mark_release_def deref_def Let_def split: if_splits)
  then show ?thesis using ids_other [OF assms(2)] by (auto dest: ids_globalmq_push)
qed

lemma ids_mark_live:
  "mq_mark_release a s = Inr s' \<Longrightarrow> queues s' b \<noteq> None \<longleftrightarrow> queues s b \<noteq> None"
proof (cases "b = a")
  case False
  then show "mq_mark_release a s = Inr s' \<Longrightarrow> queues s' b \<noteq> None \<longleftrightarrow> queues s b \<noteq> None"
    using ids_mark [of a s s' b] by (cases "queues s b"; cases "queues s' b") (simp_all add: queue_ids_def)
next
  case True
  assume m: "mq_mark_release a s = Inr s'"
  then obtain q where q: "queues s a = Some q" by (auto simp: mq_mark_release_def deref_def split: option.splits)
  have "s' = set_queue a (q\<lparr>mq_release := True\<rparr>) s \<or> globalmq_push a (set_queue a (q\<lparr>mq_release := True\<rparr>) s) = Inr s'"
    using m q by (auto simp: mq_mark_release_def deref_def Let_def split: if_splits)
  then have "queues s' a \<noteq> None"
    by (auto simp: set_queue_def dest!: ids_globalmq_push ids_live [where a = a])
  then show "queues s' b \<noteq> None \<longleftrightarrow> queues s b \<noteq> None" using True q by simp
qed

lemma ids_release:
  assumes "mq_release_at a s = Inr (r, s')" "queues s a = Some q"
  shows "if mq_release q then s' = s\<lparr>queues := (queues s)(a := None)\<rparr> else queue_ids s' = queue_ids s"
proof (cases "mq_release q")
  case True
  then have "drop_queue a s = Inr (r, s')" using assms by (simp add: mq_release_at_def deref_def)
  then show ?thesis using True assms(2) by (auto simp: drop_queue_def deref_def split: option.splits if_splits prod.splits)
next
  case False
  then obtain s1 where "globalmq_push a s = Inr s1" "s' = s1"
    using assms by (auto simp: mq_release_at_def deref_def bind_r_Inr_iff)
  then show ?thesis using False ids_globalmq_push by simp
qed

lemma hof_cong: "nd_ctx nd' = nd_ctx nd \<Longrightarrow> hof nd' = hof nd"
  by (simp add: hof_def fun_eq_iff)

text \<open>What an operation on the queues keeps.\<close>

lemma contexts_ok_cong:
  assumes "contexts_ok G nd" "nd_ctx nd' = nd_ctx nd" "queue_ids (nd_mq nd') = queue_ids (nd_mq nd)"
    "registered (nd_handles nd') = registered (nd_handles nd)" "nd_remote nd' = nd_remote nd" "nd_next nd \<le> nd_next nd'"
  shows "contexts_ok G nd'"
proof -
  have "counted G nd' c = counted G nd c" for c using assms by (simp add: counted_def)
  then have "context_ok G nd' c x" if "context_ok G nd c x" for c x
    using that assms(3,6) by (simp add: context_ok_def)
  then show ?thesis using assms(1) unfolding contexts_ok_def assms(2,4,5) by blast
qed

lemma node_ok_mq:
  assumes "node_ok G H nd" "sched_inv False s H' as" "queue_ids s = queue_ids (nd_mq nd)"
  shows "node_ok G H' (nd\<lparr>nd_mq := s\<rparr>)"
proof -
  have "contexts_ok G (nd\<lparr>nd_mq := s\<rparr>)"
    by (rule contexts_ok_cong [of G nd]) (use assms in \<open>simp_all add: node_ok_def\<close>)
  moreover have "hof (nd\<lparr>nd_mq := s\<rparr>) = hof nd" by (rule hof_cong) simp
  ultimately show ?thesis
    using assms(1,2) ids_live [OF assms(3)] by (auto simp: node_ok_def)
qed

lemma node_ok_queue:
  assumes "node_ok G H nd" "nd_ctx nd c = Some x"
  obtains q where "queues (nd_mq nd) (sc_queue x) = Some q" "mq_handle q = sc_handle x" "\<not> mq_release q"
  using assms by (force simp: node_ok_def contexts_ok_def context_ok_def queue_ids_def)

lemma safe_get_ctx:
  "safe (\<lambda>nd. P nd \<and> nd_ctx nd c \<noteq> None) (get_ctx c) (\<lambda>x nd. P nd \<and> nd_ctx nd c = Some x)"
  by (auto simp: triple_def get_ctx_def split: option.splits)

text \<open>A context that a running operation holds is there.\<close>

lemma held_ctx: "node_ok G H nd \<Longrightarrow> 0 < G c \<Longrightarrow> nd_ctx nd c \<noteq> None"
  by (force simp: node_ok_def contexts_ok_def)

lemma safe_get_held: "0 < G c \<Longrightarrow> safe (node_ok G H) (get_ctx c) (\<lambda>x nd. node_ok G H nd \<and> nd_ctx nd c = Some x)"
  by (rule safe_pre [OF safe_get_ctx]) (auto dest: held_ctx)

text \<open>A change of a context that keeps its handle, its queue and its count.\<close>

lemma node_ok_set_ctx:
  assumes "node_ok G H nd" "nd_ctx nd c = Some x" "sc_handle y = sc_handle x" "sc_queue y = sc_queue x"
    "0 < sc_ref y" "counted G' nd c \<le> sc_ref y" "\<And>d. d \<noteq> c \<Longrightarrow> G' d = G d"
  shows "node_ok G' H (nd\<lparr>nd_ctx := (nd_ctx nd)(c \<mapsto> y)\<rparr>)"
proof -
  let ?nd = "nd\<lparr>nd_ctx := (nd_ctx nd)(c \<mapsto> y)\<rparr>"
  have h: "hof ?nd = hof nd"
    using assms(2,3) by (auto simp: hof_def fun_eq_iff)
  have old: "contexts_ok G nd" using assms(1) by (simp add: node_ok_def)
  have count: "counted G' ?nd d = (if d = c then counted G' nd c else counted G nd d)" for d
    using assms(7) by (simp add: counted_def)
  have "contexts_ok G' ?nd"
    unfolding contexts_ok_def
  proof (intro conjI allI impI)
    fix d z assume z: "nd_ctx ?nd d = Some z"
    have x: "context_ok G nd c x" using old assms(2) by (simp add: contexts_ok_def)
    show "context_ok G' ?nd d z"
    proof (cases "d = c")
      case True
      then have "z = y" using z by simp
      then show ?thesis using x assms(3-6) count [of c] True by (simp add: context_ok_def)
    next
      case False
      then have "context_ok G nd d z" using z old by (simp add: contexts_ok_def)
      then show ?thesis using False by (simp add: context_ok_def count)
    qed
  next
    fix d e z w
    assume "nd_ctx ?nd d = Some z" "nd_ctx ?nd e = Some w" "sc_queue z = sc_queue w"
    then show "d = e" using old assms(2,4) by (simp add: contexts_ok_def split: if_splits)
  next
    have "{d. 0 < G' d} \<subseteq> insert c {d. 0 < G d}" using assms(7) by force
    then show "registered (nd_handles ?nd) \<union> set_option (nd_remote ?nd) \<union> {c. 0 < G' c} \<subseteq> dom (nd_ctx ?nd)"
      using old by (auto simp: contexts_ok_def)
  qed
  then show ?thesis using assms(1) h by (simp add: node_ok_def)
qed

lemma safe_mq_op:
  assumes "\<And>nd as. node_ok G H nd \<Longrightarrow> P nd \<Longrightarrow> sched_inv False (nd_mq nd) H as \<Longrightarrow>
      \<exists>x s as'. f (nd_mq nd) = Inr (x, s) \<and> sched_inv False s (H' x) as' \<and> queue_ids s = queue_ids (nd_mq nd)"
  shows "safe (\<lambda>nd. node_ok G H nd \<and> P nd) (on_mq f) (\<lambda>x. node_ok G (H' x))"
proof (rule safeI)
  fix nd assume nd: "node_ok G H nd \<and> P nd"
  then obtain as where "sched_inv False (nd_mq nd) H as" by (auto simp: node_ok_def)
  then obtain x s as' where "f (nd_mq nd) = Inr (x, s)" "sched_inv False s (H' x) as'" "queue_ids s = queue_ids (nd_mq nd)"
    using assms nd by blast
  then show "case on_mq f nd of Inl e \<Rightarrow> e \<noteq> Out_of_bounds | Inr (x, nd') \<Rightarrow> node_ok G (H' x) nd'"
    using nd node_ok_mq [of G H nd s "H' x" as'] by (simp add: on_mq_def)
qed

lemma safe_push:
  "safe (\<lambda>nd. node_ok G H nd \<and> nd_ctx nd c = Some x) (do_mq (mq_push_at (sc_queue x) m)) (\<lambda>_. node_ok G H)"
  unfolding do_mq_def
proof (rule safe_mq_op)
  fix nd as assume a: "node_ok G H nd" "nd_ctx nd c = Some x" "sched_inv False (nd_mq nd) H as"
  obtain q where "queues (nd_mq nd) (sc_queue x) = Some q" "\<not> mq_release q" using node_ok_queue [OF a(1,2)] .
  with a(3) obtain s' as' where "mq_push_at (sc_queue x) m (nd_mq nd) = Inr s'" "sched_inv False s' H as'"
    using send_spec by blast
  then show "\<exists>u s as'. bind_r (mq_push_at (sc_queue x) m (nd_mq nd)) (\<lambda>s. Inr ((), s)) = Inr (u, s) \<and>
      sched_inv False s H as' \<and> queue_ids s = queue_ids (nd_mq nd)"
    using ids_push by auto
qed

section \<open>Triples of the operations\<close>

named_theorems node_simps

lemma hof_updates [node_simps]:
  "hof (nd\<lparr>nd_total := t\<rparr>) = hof nd"
  "hof (nd\<lparr>nd_monitor_exit := m\<rparr>) = hof nd"
  "hof (nd\<lparr>nd_harbor := hb\<rparr>) = hof nd"
  "hof (nd\<lparr>nd_logger := l\<rparr>) = hof nd"
  "hof (nd\<lparr>nd_timer := tm\<rparr>) = hof nd"
  "hof (nd\<lparr>nd_env := ev\<rparr>) = hof nd"
  "hof (nd\<lparr>nd_monitor := mo\<rparr>) = hof nd"
  "hof (nd\<lparr>nd_release := re\<rparr>) = hof nd"
  "hof (nd\<lparr>nd_heap := h\<rparr>) = hof nd"
  "hof (nd\<lparr>nd_next := n\<rparr>) = hof nd"
  "hof (nd\<lparr>nd_mq := s\<rparr>) = hof nd"
  "hof (nd\<lparr>nd_handles := hs\<rparr>) = hof nd"
  "hof (nd\<lparr>nd_remote := r\<rparr>) = hof nd"
  by (simp_all add: hof_def fun_eq_iff)

lemma counted_updates [node_simps]:
  "counted G (nd\<lparr>nd_total := t\<rparr>) c = counted G nd c"
  "counted G (nd\<lparr>nd_monitor_exit := m\<rparr>) c = counted G nd c"
  "counted G (nd\<lparr>nd_harbor := hb\<rparr>) c = counted G nd c"
  "counted G (nd\<lparr>nd_logger := l\<rparr>) c = counted G nd c"
  "counted G (nd\<lparr>nd_timer := tm\<rparr>) c = counted G nd c"
  "counted G (nd\<lparr>nd_env := ev\<rparr>) c = counted G nd c"
  "counted G (nd\<lparr>nd_monitor := mo\<rparr>) c = counted G nd c"
  "counted G (nd\<lparr>nd_release := re\<rparr>) c = counted G nd c"
  "counted G (nd\<lparr>nd_heap := h\<rparr>) c = counted G nd c"
  "counted G (nd\<lparr>nd_next := n\<rparr>) c = counted G nd c"
  "counted G (nd\<lparr>nd_mq := s\<rparr>) c = counted G nd c"
  "counted G (nd\<lparr>nd_ctx := x\<rparr>) c = counted G nd c"
  by (simp_all add: counted_def)

lemma counted_0: "counted G nd c = 0 \<longleftrightarrow> c \<notin> registered (nd_handles nd) \<and> nd_remote nd \<noteq> Some c \<and> G c = 0"
  by (auto simp: counted_def of_bool_def)

lemma counted_nonneg: "0 \<le> counted G nd c"
  by (simp add: counted_def)

lemma counted_Suc: "counted (G(c := Suc (G c))) nd c = counted G nd c + 1"
  by (simp add: counted_def)

lemma node_ok_irrelevant [node_simps]:
  "node_ok G H (nd\<lparr>nd_total := t\<rparr>) = node_ok G H nd"
  "node_ok G H (nd\<lparr>nd_monitor_exit := m\<rparr>) = node_ok G H nd"
  "node_ok G H (nd\<lparr>nd_harbor := hb\<rparr>) = node_ok G H nd"
  "node_ok G H (nd\<lparr>nd_logger := l\<rparr>) = node_ok G H nd"
  "node_ok G H (nd\<lparr>nd_timer := tm\<rparr>) = node_ok G H nd"
  "node_ok G H (nd\<lparr>nd_env := ev\<rparr>) = node_ok G H nd"
  "node_ok G H (nd\<lparr>nd_monitor := mo\<rparr>) = node_ok G H nd"
  "node_ok G H (nd\<lparr>nd_release := re\<rparr>) = node_ok G H nd"
  by (simp_all add: node_ok_def contexts_ok_def context_ok_def node_simps)

lemma node_ok_heap:
  "node_ok G H nd \<Longrightarrow> (\<And>a. h a \<noteq> None \<Longrightarrow> a < nd_next nd) \<Longrightarrow> node_ok G H (nd\<lparr>nd_heap := h\<rparr>)"
  by (simp add: node_ok_def contexts_ok_def context_ok_def node_simps)

lemma node_ok_next:
  assumes "node_ok G H nd" "nd_next nd \<le> n"
  shows "node_ok G H (nd\<lparr>nd_next := n\<rparr>)"
proof -
  have "contexts_ok G (nd\<lparr>nd_next := n\<rparr>)"
    by (rule contexts_ok_cong [of G nd]) (use assms in \<open>simp_all add: node_ok_def\<close>)
  then show ?thesis using assms unfolding node_ok_def by (auto simp: node_simps intro: less_le_trans)
qed

text \<open>Operations that change the memory only.\<close>

lemma safe_heap_alloc: "safe (node_ok G H) (heap_alloc b) (\<lambda>_. node_ok G H)"
proof (rule safeI)
  fix nd assume nd: "node_ok G H nd"
  then have "node_ok G H (nd\<lparr>nd_next := nd_next nd + 1\<rparr>)" by (rule node_ok_next) simp
  then have "node_ok G H (nd\<lparr>nd_next := nd_next nd + 1, nd_heap := (nd_heap nd)(nd_next nd \<mapsto> b)\<rparr>)"
    by (rule node_ok_heap) (use nd in \<open>auto simp: node_ok_def less_Suc_eq split: if_splits\<close>)
  moreover have "nd\<lparr>nd_next := nd_next nd + 1, nd_heap := (nd_heap nd)(nd_next nd \<mapsto> b)\<rparr> =
      nd\<lparr>nd_heap := (nd_heap nd)(nd_next nd \<mapsto> b), nd_next := nd_next nd + 1\<rparr>" by simp
  ultimately have "node_ok G H (nd\<lparr>nd_heap := (nd_heap nd)(nd_next nd \<mapsto> b), nd_next := nd_next nd + 1\<rparr>)"
    by metis
  then show "case heap_alloc b nd of Inl e \<Rightarrow> e \<noteq> Out_of_bounds | Inr (x, nd') \<Rightarrow> node_ok G H nd'"
    by (simp add: heap_alloc_def)
qed

lemma node_ok_free: "node_ok G H nd \<Longrightarrow> node_ok G H (nd\<lparr>nd_heap := (nd_heap nd)(a := None)\<rparr>)"
  by (rule node_ok_heap) (auto simp: node_ok_def split: if_splits)

lemma safe_heap_free: "safe (node_ok G H) (heap_free p) (\<lambda>_. node_ok G H)"
  by (auto simp: triple_def heap_free_def intro: node_ok_free split: option.splits)

lemma safe_heap_load: "safe P (heap_load a) (\<lambda>_. P)"
  by (auto simp: triple_def heap_load_def split: option.splits)

lemma safe_heap_store: "safe (node_ok G H) (heap_store a b) (\<lambda>_. node_ok G H)"
proof (rule safeI)
  fix nd assume nd: "node_ok G H nd"
  show "case heap_store a b nd of Inl e \<Rightarrow> e \<noteq> Out_of_bounds | Inr (x, nd') \<Rightarrow> node_ok G H nd'"
  proof (cases "nd_heap nd a")
    case None
    then show ?thesis by (simp add: heap_store_def)
  next
    case (Some b')
    have "node_ok G H (nd\<lparr>nd_heap := (nd_heap nd)(a \<mapsto> b)\<rparr>)"
      by (rule node_ok_heap [OF nd]) (use nd Some in \<open>auto simp: node_ok_def split: if_splits\<close>)
    then show ?thesis using Some by (simp add: heap_store_def)
  qed
qed

lemma safe_heap_bytes: "safe P (heap_bytes a sz) (\<lambda>_. P)"
  unfolding heap_bytes_def
  by (rule safe_bind [OF safe_heap_load]) (auto intro!: safe_if safe_ret safe_throw split: block.split)

section \<open>References\<close>

lemma safe_grab:
  "safe (\<lambda>nd. node_ok G H nd \<and> nd_ctx nd c \<noteq> None) (context_grab c) (\<lambda>_. node_ok (G(c := Suc (G c))) H)"
proof (rule safeI)
  fix nd assume nd: "node_ok G H nd \<and> nd_ctx nd c \<noteq> None"
  then obtain x where x: "nd_ctx nd c = Some x" by auto
  then have "context_ok G nd c x" using nd by (simp add: node_ok_def contexts_ok_def)
  then have "node_ok (G(c := Suc (G c))) H (nd\<lparr>nd_ctx := (nd_ctx nd)(c \<mapsto> x\<lparr>sc_ref := sc_ref x + 1\<rparr>)\<rparr>)"
    by (intro node_ok_set_ctx [OF conjunct1 [OF nd] x]) (simp_all add: context_ok_def counted_def)
  then show "case context_grab c nd of Inl e \<Rightarrow> e \<noteq> Out_of_bounds | Inr (u, nd') \<Rightarrow> node_ok (G(c := Suc (G c))) H nd'"
    using x by (simp add: context_grab_def bind_o_def get_ctx_def set_ctx_def modify_def)
qed

text \<open>The last reference to a context goes.\<close>

lemma node_ok_delete:
  assumes "node_ok G' H nd" "nd_ctx nd c = Some x" "counted G nd c = 0" "\<And>d. d \<noteq> c \<Longrightarrow> G' d = G d"
    "sched_inv False s H as" "\<And>b. b \<noteq> sc_queue x \<Longrightarrow> queue_ids s b = queue_ids (nd_mq nd) b"
    "\<And>b. queues s b \<noteq> None \<longleftrightarrow> queues (nd_mq nd) b \<noteq> None"
  shows "node_ok G H (nd\<lparr>nd_mq := s, nd_ctx := (nd_ctx nd)(c := None)\<rparr>)"
proof -
  let ?nd = "nd\<lparr>nd_mq := s, nd_ctx := (nd_ctx nd)(c := None)\<rparr>"
  have old: "contexts_ok G' nd" using assms(1) by (simp add: node_ok_def)
  have z: "c \<notin> registered (nd_handles nd)" "nd_remote nd \<noteq> Some c" "G c = 0"
    using assms(3) by (simp_all add: counted_0)
  have count: "counted G ?nd d = counted G' nd d" if "d \<noteq> c" for d
    using assms(4) [OF that] by (simp add: counted_def)
  have "contexts_ok G ?nd"
    unfolding contexts_ok_def
  proof (intro conjI allI impI)
    fix d y assume y: "nd_ctx ?nd d = Some y"
    then have d: "d \<noteq> c" "nd_ctx nd d = Some y" by (auto split: if_splits)
    have "context_ok G' nd d y" using old d by (simp add: contexts_ok_def)
    moreover have "sc_queue y \<noteq> sc_queue x" using old d assms(2) unfolding contexts_ok_def by blast
    ultimately show "context_ok G ?nd d y" using assms(6) count [OF d(1)] by (simp add: context_ok_def)
  next
    fix d e y w assume "nd_ctx ?nd d = Some y" "nd_ctx ?nd e = Some w" "sc_queue y = sc_queue w"
    then show "d = e" using old by (simp add: contexts_ok_def split: if_splits)
  next
    have "{d. 0 < G d} \<subseteq> {d. 0 < G' d} - {c}" 
    proof
      fix d assume "d \<in> {d. 0 < G d}"
      then show "d \<in> {d. 0 < G' d} - {c}" using z(3) assms(4) [of d] by (cases "d = c") auto
    qed
    then show "registered (nd_handles ?nd) \<union> set_option (nd_remote ?nd) \<union> {c. 0 < G c} \<subseteq> dom (nd_ctx ?nd)"
      using old z by (auto simp: contexts_ok_def)
  qed
  moreover have "\<exists>k. table_ok k (hof ?nd) (nd_handles ?nd)"
  proof -
    obtain k where "table_ok k (hof nd) (nd_handles nd)" using assms(1) by (auto simp: node_ok_def)
    then have "table_ok k (hof ?nd) (nd_handles nd)" by (rule table_ok_cong) (use z in \<open>auto simp: hof_def\<close>)
    then show ?thesis by auto
  qed
  ultimately show ?thesis using assms(1,5,7) unfolding node_ok_def by auto
qed

text \<open>Releasing an instance frees memory only, or a block twice.\<close>

lemma free_blocks_run:
  "free_blocks as nd = Inl Bad_pointer \<or>
   (\<exists>h. free_blocks as nd = Inr ((), nd\<lparr>nd_heap := h\<rparr>) \<and> (\<forall>a. h a \<noteq> None \<longrightarrow> nd_heap nd a \<noteq> None))"
proof (induction "as" arbitrary: nd)
  case Nil
  show ?case by (intro disjI2 exI [of _ "nd_heap nd"]) (simp add: ret_def)
next
  case (Cons a as)
  show ?case
  proof (cases "nd_heap nd a")
    case None
    then show ?thesis by (simp add: heap_free_def op_defs)
  next
    case (Some b)
    let ?nd = "nd\<lparr>nd_heap := (nd_heap nd)(a := None)\<rparr>"
    have r: "free_blocks (a # as) nd = free_blocks as ?nd" using Some by (simp add: heap_free_def op_defs)
    from Cons.IH [of ?nd] show ?thesis
    proof (elim disjE exE conjE)
      fix h assume h: "free_blocks as ?nd = Inr ((), ?nd\<lparr>nd_heap := h\<rparr>)" "\<forall>a'. h a' \<noteq> None \<longrightarrow> nd_heap ?nd a' \<noteq> None"
      have "nd_heap nd a' \<noteq> None" if "h a' \<noteq> None" for a'
        using h(2) that by (cases "a' = a") fastforce+
      then show ?thesis unfolding r using h(1) by (intro disjI2 exI [of _ h]) simp
    qed (unfold r, simp)
  qed
qed

lemma instance_release_run:
  "instance_release md inst nd = Inl Bad_pointer \<or>
   (\<exists>h. instance_release md inst nd = Inr ((), nd\<lparr>nd_heap := h\<rparr>) \<and> (\<forall>a. h a \<noteq> None \<longrightarrow> nd_heap nd a \<noteq> None))"
  unfolding instance_release_def bind_gets by (rule free_blocks_run)

lemma safe_release: "safe (node_ok (G(c := Suc (G c))) H) (context_release c) (\<lambda>_. node_ok G H)"
proof (rule safeI)
  fix nd assume nd: "node_ok (G(c := Suc (G c))) H nd"
  have "nd_ctx nd c \<noteq> None" using held_ctx [OF nd] by simp
  then obtain x where x: "nd_ctx nd c = Some x" by auto
  have ok: "context_ok (G(c := Suc (G c))) nd c x" using nd x by (simp add: node_ok_def contexts_ok_def)
  let ?x = "x\<lparr>sc_ref := sc_ref x - 1\<rparr>"
  let ?nd = "nd\<lparr>nd_ctx := (nd_ctx nd)(c \<mapsto> ?x)\<rparr>"
  show "case context_release c nd of Inl e \<Rightarrow> e \<noteq> Out_of_bounds | Inr (u, nd') \<Rightarrow> node_ok G H nd'"
  proof (cases "sc_ref x = 1")
    case False
    then have "node_ok G H ?nd"
      using ok by (intro node_ok_set_ctx [OF nd x]) (simp_all add: context_ok_def counted_def)
    then show ?thesis
      using x False by (simp add: context_release_def op_defs get_ctx_def set_ctx_def Let_def)
  next
    case True
    have z: "counted G nd c = 0" using ok True counted_nonneg [of G nd c] by (simp add: context_ok_def counted_Suc)
    obtain q where q: "queues (nd_mq nd) (sc_queue x) = Some q" "\<not> mq_release q" using node_ok_queue [OF nd x] .
    obtain as where "sched_inv False (nd_mq nd) H as" using nd by (auto simp: node_ok_def)
    then obtain s as' where s: "mq_mark_release (sc_queue x) (nd_mq nd) = Inr s" "sched_inv False s H as'"
      using delete_spec [OF _ q] by blast
    consider (bad) "instance_release (sc_mod x) (sc_instance x) ?nd = Inl Bad_pointer"
      | (freed) h where "instance_release (sc_mod x) (sc_instance x) ?nd = Inr ((), ?nd\<lparr>nd_heap := h\<rparr>)"
          "\<And>a. h a \<noteq> None \<Longrightarrow> nd_heap nd a \<noteq> None"
      using instance_release_run [of "sc_mod x" "sc_instance x" ?nd] by auto
    then show ?thesis
    proof cases
      case bad
      then show ?thesis
        using x True by (simp add: context_release_def op_defs get_ctx_def set_ctx_def Let_def delete_context_def)
    next
    case (freed h)
    let ?h = h
    have "node_ok G H (nd\<lparr>nd_mq := s, nd_ctx := (nd_ctx nd)(c := None)\<rparr>)"
      by (rule node_ok_delete [OF nd x z _ s(2)]) (use ids_mark [OF s(1)] ids_mark_live [OF s(1)] in simp_all)
    then have "node_ok G H ((nd\<lparr>nd_mq := s, nd_ctx := (nd_ctx nd)(c := None)\<rparr>)\<lparr>nd_heap := ?h\<rparr>)"
      by (rule node_ok_heap) (use nd freed(2) in \<open>simp add: node_ok_def\<close>)
    moreover have "nd\<lparr>nd_heap := ?h, nd_mq := s, nd_ctx := (nd_ctx nd)(c := None), nd_total := t\<rparr> =
        nd\<lparr>nd_mq := s, nd_ctx := (nd_ctx nd)(c := None), nd_heap := ?h, nd_total := t\<rparr>" for t by simp
    ultimately have "node_ok G H (nd\<lparr>nd_heap := ?h, nd_mq := s, nd_ctx := (nd_ctx nd)(c := None), nd_total := t\<rparr>)" for t
      by (simp only: node_ok_irrelevant)
    then show ?thesis
      using x True s(1) freed(1)
      by (simp add: context_release_def op_defs get_ctx_def set_ctx_def Let_def delete_context_def context_dec_def)
    qed
  qed
qed

section \<open>Grabbing, pushing, releasing\<close>

definition grabbed :: "(nat \<Rightarrow> nat) \<Rightarrow> nat option \<Rightarrow> nat \<Rightarrow> nat" where
  "grabbed G r = (case r of None \<Rightarrow> G | Some c \<Rightarrow> G(c := Suc (G c)))"

lemma grabbed_simps [simp]: "grabbed G None = G" "grabbed G (Some c) = G(c := Suc (G c))"
  by (simp_all add: grabbed_def)

lemma grab_live:
  assumes "node_ok G H nd" "handle_grab (hof nd) handle (nd_handles nd) = Some c"
  shows "nd_ctx nd c \<noteq> None"
proof -
  obtain k where "table_ok k (hof nd) (nd_handles nd)" using assms(1) by (auto simp: node_ok_def)
  then have "c \<in> registered (nd_handles nd)" using assms(2) grab_iff by blast
  then show ?thesis using assms(1) by (auto simp: node_ok_def contexts_ok_def)
qed

lemma safe_node_grab: "safe (node_ok G H) (node_grab handle) (\<lambda>r. node_ok (grabbed G r) H)"
  unfolding node_grab_def
proof (rule safe_bind)
  show "safe (node_ok G H) (gets (\<lambda>nd. handle_grab (hof nd) handle (nd_handles nd)))
      (\<lambda>r nd. node_ok G H nd \<and> (\<forall>c. r = Some c \<longrightarrow> nd_ctx nd c \<noteq> None))"
    by (rule safe_gets) (use grab_live in blast)
  fix r
  show "safe (\<lambda>nd. node_ok G H nd \<and> (\<forall>c. r = Some c \<longrightarrow> nd_ctx nd c \<noteq> None))
      (case r of None \<Rightarrow> ret None | Some c \<Rightarrow> seq (context_grab c) (ret (Some c))) (\<lambda>r. node_ok (grabbed G r) H)"
  proof (cases r)
    case None
    then show ?thesis by (simp add: safe_ret)
  next
    case (Some c)
    have "safe (\<lambda>nd. node_ok G H nd \<and> nd_ctx nd c \<noteq> None) (seq (context_grab c) (ret (Some c)))
        (\<lambda>r. node_ok (grabbed G r) H)"
      by (rule safe_seq' [OF safe_grab]) (rule safe_ret, simp only: grabbed_simps)
    then show ?thesis unfolding Some by (auto elim!: safe_pre)
  qed
qed

lemma safe_set_ctx:
  assumes "sc_handle y = sc_handle x" "sc_queue y = sc_queue x" "sc_ref y = sc_ref x"
  shows "safe (\<lambda>nd. node_ok G H nd \<and> nd_ctx nd c = Some x) (set_ctx c y) (\<lambda>_. node_ok G H)"
  unfolding set_ctx_def
proof (rule safe_modify)
  fix nd assume nd: "node_ok G H nd \<and> nd_ctx nd c = Some x"
  then have "context_ok G nd c x" by (simp add: node_ok_def contexts_ok_def)
  then show "node_ok G H (nd\<lparr>nd_ctx := (nd_ctx nd)(c \<mapsto> y)\<rparr>)"
    using assms by (intro node_ok_set_ctx [OF conjunct1 [OF nd] conjunct2 [OF nd]]) (simp_all add: context_ok_def)
qed

lemma safe_update_ctx:
  assumes "0 < G c" "\<And>x. sc_handle (f x) = sc_handle x \<and> sc_queue (f x) = sc_queue x \<and> sc_ref (f x) = sc_ref x"
  shows "safe (node_ok G H) (bind_o (get_ctx c) (\<lambda>x. set_ctx c (f x))) (\<lambda>_. node_ok G H)"
  by (rule safe_bind [OF safe_get_held [where G = G and c = c, OF assms(1)]]) (rule safe_set_ctx; simp add: assms(2))

lemma safe_release_seq: "safe (node_ok G H) k Q \<Longrightarrow> safe (node_ok (G(c := Suc (G c))) H) (seq (context_release c) k) Q"
  by (rule safe_seq' [OF safe_release])

lemma safe_context_push: "safe (node_ok G H) (context_push handle message) (\<lambda>_. node_ok G H)"
  unfolding context_push_def
proof (rule safe_bind [OF safe_node_grab])
  fix r
  show "safe (node_ok (grabbed G r) H)
      (case r of None \<Rightarrow> ret (- 1)
       | Some c \<Rightarrow> bind_o (get_ctx c) (\<lambda>x. seq (do_mq (mq_push_at (sc_queue x) message)) (seq (context_release c) (ret 0))))
      (\<lambda>_. node_ok G H)"
  proof (cases r)
    case None
    then show ?thesis by (simp add: safe_ret)
  next
    case (Some c)
    have "safe (node_ok (G(c := Suc (G c))) H)
        (bind_o (get_ctx c) (\<lambda>x. seq (do_mq (mq_push_at (sc_queue x) message)) (seq (context_release c) (ret 0))))
        (\<lambda>_. node_ok G H)"
      by (rule safe_bind [OF safe_get_held]) (auto intro!: safe_seq' [OF safe_push] safe_release_seq safe_ret)
    then show ?thesis using Some by simp
  qed
qed

lemma safe_newsession:
  assumes "0 < G c"
  shows "safe (node_ok G H) (context_newsession c) (\<lambda>_. node_ok G H)"
  unfolding context_newsession_def Let_def
  by (rule safe_bind [OF safe_get_held [where G = G and c = c, OF assms]])
     (intro safe_if safe_seq' [OF safe_set_ctx] safe_ret; simp)

lemma safe_context_endless: "safe (node_ok G H) (context_endless handle) (\<lambda>_. node_ok G H)"
  unfolding context_endless_def
proof (rule safe_bind [OF safe_node_grab])
  fix r
  have "safe (node_ok (G(c := Suc (G c))) H)
      (bind_o (get_ctx c) (\<lambda>x. seq (set_ctx c (x\<lparr>sc_endless := True\<rparr>)) (seq (context_release c) (ret ()))))
      (\<lambda>_. node_ok G H)" for c
    by (rule safe_bind [OF safe_get_held]) (auto intro!: safe_seq' [OF safe_set_ctx] safe_release_seq safe_ret)
  then show "safe (node_ok (grabbed G r) H)
      (case r of None \<Rightarrow> ret ()
       | Some c \<Rightarrow> bind_o (get_ctx c) (\<lambda>x. seq (set_ctx c (x\<lparr>sc_endless := True\<rparr>)) (seq (context_release c) (ret ()))))
      (\<lambda>_. node_ok G H)"
    by (cases r) (simp_all add: safe_ret)
qed

section \<open>Sending\<close>

text \<open>The ctx that a function is given: NULL, or one that the caller holds.\<close>

definition holds :: "(nat \<Rightarrow> nat) \<Rightarrow> nat option \<Rightarrow> bool" where
  "holds G ctx = (\<forall>c. ctx = Some c \<longrightarrow> 0 < G c)"

lemma holds_simps [simp]: "holds G None" "holds G (Some c) \<longleftrightarrow> 0 < G c"
  by (simp_all add: holds_def)

lemma safe_error_logger: "safe (node_ok G H) error_logger (\<lambda>_. node_ok G H)"
  unfolding error_logger_def
  by (intro safe_bind [where R = "\<lambda>_. node_ok G H"] safe_gets safe_if safe_seq' safe_modify safe_ret)
     (simp_all add: node_simps)

lemma safe_skynet_error:
  assumes "holds G ctx"
  shows "safe (node_ok G H) (skynet_error ctx text) (\<lambda>_. node_ok G H)"
proof -
  have "safe (node_ok G H) (case ctx of None \<Rightarrow> ret 0 | Some c \<Rightarrow> bind_o (get_ctx c) (\<lambda>x. ret (sc_handle x)))
      (\<lambda>_. node_ok G H)"
    using assms by (cases ctx) (auto intro!: safe_ret safe_bind [OF safe_get_held])
  then show ?thesis
    unfolding skynet_error_def
    by (intro safe_bind [OF safe_error_logger] safe_if safe_ret safe_bind [OF safe_heap_alloc] safe_seq' [OF safe_context_push])
       (auto intro!: safe_bind safe_seq' [OF safe_context_push] safe_ret)
qed

lemma safe_context_send:
  "safe (\<lambda>nd. node_ok G H nd \<and> nd_ctx nd c \<noteq> None) (context_send c msg sz source type session) (\<lambda>_. node_ok G H)"
  unfolding context_send_def by (rule safe_bind [OF safe_get_ctx]) (rule safe_push)

lemma safe_harbor_send: "safe (node_ok G H) (harbor_send rmsg source session) (\<lambda>_. node_ok G H)"
proof -
  have remote: "safe (node_ok G H) (gets nd_remote) (\<lambda>r nd. node_ok G H nd \<and> (\<forall>c. r = Some c \<longrightarrow> nd_ctx nd c \<noteq> None))"
    by (rule safe_gets) (auto simp: node_ok_def contexts_ok_def)
  have send: "safe (\<lambda>nd. node_ok G H nd \<and> (\<forall>c. r = Some c \<longrightarrow> nd_ctx nd c \<noteq> None))
      (case r of None \<Rightarrow> throw Assert_failed
       | Some c \<Rightarrow> if t = PTYPE_SYSTEM \<or> t = PTYPE_HARBOR then throw Assert_failed
                   else context_send c msg sz source t session) (\<lambda>_. node_ok G H)" for r t msg sz
    by (cases r) (auto intro!: safe_throw safe_pre [OF safe_context_send])
  show ?thesis
    unfolding harbor_send_def Let_def
    by (rule safe_bind [OF safe_heap_load])
       (auto intro!: safe_throw safe_seq' [OF safe_heap_store] safe_bind [OF remote] send split: block.split)
qed

lemma safe_isremote: "safe P (message_isremote handle) (\<lambda>_. P)"
  unfolding message_isremote_def Let_def
  by (rule safe_bind [where R = "\<lambda>_. P"]) (auto intro!: safe_gets safe_if safe_throw safe_ret)

text \<open>Without a context, the session and the source must be given.\<close>

definition given :: "nat option \<Rightarrow> u32 \<Rightarrow> u32 \<Rightarrow> bool" where
  "given ctx type source = (ctx = None \<longrightarrow> type AND PTYPE_TAG_ALLOCSESSION = 0 \<and> source \<noteq> 0)"

lemma safe_filter_args:
  assumes "holds G ctx" "given ctx type source"
  shows "safe (node_ok G H) (filter_args ctx type session data sz) (\<lambda>_. node_ok G H)"
proof -
  have "safe (node_ok G H) (filter_session ctx type session) (\<lambda>_. node_ok G H)"
    unfolding filter_session_def using assms
    by (cases ctx) (auto simp: given_def intro!: safe_throw safe_ret safe_newsession)
  moreover have "safe (node_ok G H) (filter_payload type data sz) (\<lambda>_. node_ok G H)"
    unfolding filter_payload_def
    by (cases data) (auto intro!: safe_ret safe_bind [OF safe_heap_bytes] safe_bind [OF safe_heap_alloc])
  ultimately show ?thesis
    unfolding filter_args_def by (intro safe_bind [where R = "\<lambda>_. node_ok G H"] safe_ret) simp_all
qed

lemma safe_own_handle:
  assumes "holds G ctx" "given ctx type source"
  shows "safe (node_ok G H) (own_handle ctx source) (\<lambda>_. node_ok G H)"
  unfolding own_handle_def using assms
  by (cases ctx) (auto simp: given_def intro!: safe_ret safe_bind [OF safe_get_held [where G = G]])

lemma safe_send:
  assumes "holds G ctx" "given ctx type source"
  shows "safe (node_ok G H) (skynet_send ctx source destination type session data sz) (\<lambda>_. node_ok G H)"
proof -
  have free: "safe (node_ok G H) (if b then heap_free data else ret ()) (\<lambda>_. node_ok G H)" for b data
    by (auto intro: safe_heap_free safe_ret)
  have local: "safe (node_ok G H) (bind_o (context_push destination m)
      (\<lambda>r. if r \<noteq> 0 then seq (heap_free data) (ret (- 1)) else ret session)) (\<lambda>_. node_ok G H)" for m data session
    by (rule safe_bind [OF safe_context_push]) (intro safe_if safe_seq' [OF safe_heap_free] safe_ret)
  have remote: "safe (node_ok G H) (bind_o (heap_alloc b) (\<lambda>rmsg. seq (harbor_send rmsg source session) (ret session)))
      (\<lambda>_. node_ok G H)" for b source session
    by (rule safe_bind [OF safe_heap_alloc]) (intro safe_seq' [OF safe_harbor_send] safe_ret)
  show ?thesis
    unfolding skynet_send_def
    by (intro safe_if safe_seq' [OF safe_skynet_error [OF assms(1)]] safe_seq' [OF free] safe_ret
        safe_bind [OF safe_filter_args [OF assms]])
      (auto intro!: safe_bind [OF safe_own_handle [OF assms]] safe_if safe_ret safe_bind [OF safe_isremote] remote local)
qed

lemma safe_sendname:
  assumes "holds G ctx" "given ctx type source"
  shows "safe (node_ok G H) (skynet_sendname ctx source addr type session data sz) (\<lambda>_. node_ok G H)"
proof -
  have g: "given ctx type source'" if "ctx = None \<longrightarrow> source' \<noteq> 0" for source'
    using assms(2) that by (auto simp: given_def)
  have own: "safe (node_ok G H) (own_handle ctx source) (\<lambda>s nd. (ctx = None \<longrightarrow> s \<noteq> 0) \<and> node_ok G H nd)"
    using assms unfolding own_handle_def
    by (cases ctx) (auto simp: given_def intro!: safe_ret safe_bind [OF safe_get_held [where G = G]])
  have free: "safe (node_ok G H) (if b then heap_free data else ret ()) (\<lambda>_. node_ok G H)" for b
    by (auto intro: safe_heap_free safe_ret)
  have remote: "safe (node_ok G H) (bind_o (heap_alloc b) (\<lambda>rmsg. seq (harbor_send rmsg source session) (ret session)))
      (\<lambda>_. node_ok G H)" for b source session
    by (rule safe_bind [OF safe_heap_alloc]) (intro safe_seq' [OF safe_harbor_send] safe_ret)
  show ?thesis
    unfolding skynet_sendname_def
    by (rule safe_bind [OF own], rule safe_pure)
      (intro safe_if safe_send [OF assms(1) g] safe_bind [where R = "\<lambda>_. node_ok G H"] safe_gets safe_seq' [OF free]
        safe_ret safe_filter_args [OF assms(1) g] remote; auto intro: remote split: prod.splits)
qed

lemma safe_run: "safe P m Q \<Longrightarrow> P nd \<Longrightarrow> case m nd of Inl e \<Rightarrow> e \<noteq> Out_of_bounds | Inr (x, nd') \<Rightarrow> Q x nd'"
  unfolding triple_def Compl_iff singleton_iff by blast

section \<open>Retiring services\<close>

lemma node_ok_retired:
  assumes nd: "node_ok G H nd" and grab: "handle_grab (hof nd) handle (nd_handles nd) = Some c"
    and rh: "handle_retire (hof nd) handle (nd_handles nd) = (r, hs)"
  shows "r = Some c" "node_ok (G(c := Suc (G c))) H (nd\<lparr>nd_handles := hs\<rparr>)"
    "registered hs = registered (nd_handles nd) - {c}" "length (hs_slot hs) = length (hs_slot (nd_handles nd))"
proof -
  obtain k where t: "table_ok k (hof nd) (nd_handles nd)" using nd by (auto simp: node_ok_def)
  have n: "names_ok (nd_handles nd)" using nd by (simp add: node_ok_def)
  show r: "r = Some c" and reg: "registered hs = registered (nd_handles nd) - {c}"
    using retire_spec [OF t n rh] grab by simp_all
  have hs: "table_ok k (hof nd) hs" "names_ok hs" using retire_spec [OF t n rh] grab by simp_all
  show "length (hs_slot hs) = length (hs_slot (nd_handles nd))" using hs(1) t by (simp add: table_ok_def)
  let ?nd = "nd\<lparr>nd_handles := hs\<rparr>" and ?G = "G(c := Suc (G c))"
  have c: "c \<in> registered (nd_handles nd)" using grab grab_iff [OF t] by blast
  have old: "contexts_ok G nd" using nd by (simp add: node_ok_def)
  have count: "counted ?G ?nd d = counted G nd d" for d
    using c reg by (simp add: counted_def)
  have "contexts_ok ?G ?nd"
    unfolding contexts_ok_def
  proof (intro conjI allI impI)
    fix d x assume "nd_ctx ?nd d = Some x"
    then have "context_ok G nd d x" using old by (simp add: contexts_ok_def)
    then show "context_ok ?G ?nd d x" by (simp add: context_ok_def count)
  next
    fix d e x y assume "nd_ctx ?nd d = Some x" "nd_ctx ?nd e = Some y" "sc_queue x = sc_queue y"
    then show "d = e" using old by (simp add: contexts_ok_def)
  next
    have "{d. 0 < ?G d} \<subseteq> insert c {d. 0 < G d}" by auto
    then show "registered (nd_handles ?nd) \<union> set_option (nd_remote ?nd) \<union> {d. 0 < ?G d} \<subseteq> dom (nd_ctx ?nd)"
      using old c reg by (auto simp: contexts_ok_def)
  qed
  then show "node_ok ?G H ?nd" using nd hs by (auto simp: node_ok_def node_simps)
qed

lemma node_ok_not_retired:
  assumes "node_ok G H nd" "handle_grab (hof nd) handle (nd_handles nd) = None"
  shows "node_retire handle nd = Inr (False, nd)"
proof -
  obtain r hs where rh: "handle_retire (hof nd) handle (nd_handles nd) = (r, hs)" by fastforce
  obtain k where "table_ok k (hof nd) (nd_handles nd)" "names_ok (nd_handles nd)" using assms(1) by (auto simp: node_ok_def)
  then have "r = None" "nd\<lparr>nd_handles := hs\<rparr> = nd" using retire_spec [OF _ _ rh] assms(2) by fastforce+
  then show ?thesis using rh by (simp add: node_retire_def op_defs)
qed

lemma node_retire_some:
  assumes "handle_retire (hof nd) handle (nd_handles nd) = (Some c, hs)"
  shows "node_retire handle nd = seq (context_release c) (ret True) (nd\<lparr>nd_handles := hs\<rparr>)"
  using assms by (simp add: node_retire_def bind_o_def seq_def [of "modify _"] gets_def modify_def)

lemma safe_node_retire: "safe (node_ok G H) (node_retire handle) (\<lambda>_. node_ok G H)"
proof (rule safeI)
  fix nd assume nd: "node_ok G H nd"
  obtain r hs where rh: "handle_retire (hof nd) handle (nd_handles nd) = (r, hs)" by fastforce
  show "case node_retire handle nd of Inl e \<Rightarrow> e \<noteq> Out_of_bounds | Inr (u, nd') \<Rightarrow> node_ok G H nd'"
  proof (cases "handle_grab (hof nd) handle (nd_handles nd)")
    case None
    then show ?thesis using node_ok_not_retired nd by simp
  next
    case (Some c)
    note r = node_ok_retired [OF nd Some rh]
    have "safe (node_ok (G(c := Suc (G c))) H) (seq (context_release c) (ret True)) (\<lambda>_. node_ok G H)"
      by (rule safe_release_seq) (rule safe_ret)
    note run = safe_run [where P = "node_ok (G(c := Suc (G c))) H", OF this r(2)]
    show ?thesis using run node_retire_some rh r(1) by simp
  qed
qed

lemma safe_retire_pass: "safe (node_ok G H) (retire_pass n is) (\<lambda>_. node_ok G H)"
proof (induction n "is" rule: retire_pass.induct)
  case (1 n)
  then show ?case by (simp add: safe_ret)
next
  case (2 n i "is")
  show ?case
    unfolding retire_pass.simps
    by (rule safe_bind [where R = "\<lambda>_. node_ok G H"], rule safe_gets, assumption)
      (intro safe_if safe_bind [OF safe_node_retire] 2; assumption)
qed

lemma retireall_ok:
  "retireall nd = Some r \<Longrightarrow> node_ok G H nd \<longrightarrow> (case r of Inl e \<Rightarrow> e \<noteq> Out_of_bounds | Inr (u, nd') \<Rightarrow> node_ok G H nd')"
proof (rule retireall.raw_induct [where P = "\<lambda>nd r. node_ok G H nd \<longrightarrow>
    (case r of Inl e \<Rightarrow> e \<noteq> Out_of_bounds | Inr (u, nd') \<Rightarrow> node_ok G H nd')", rotated])
  fix loop nd r
  assume IH: "\<And>nd r. loop nd = Some r \<Longrightarrow> node_ok G H nd \<longrightarrow>
      (case r of Inl e \<Rightarrow> e \<noteq> Out_of_bounds | Inr (u, nd') \<Rightarrow> node_ok G H nd')"
    and body: "(case retire_pass 0 [0..<length (hs_slot (nd_handles nd))] nd of
        Inl e \<Rightarrow> Some (Inl e)
      | Inr (n, nd) \<Rightarrow> if n = 0 then Some (Inr ((), nd)) else loop nd) = Some r"
  show "node_ok G H nd \<longrightarrow> (case r of Inl e \<Rightarrow> e \<noteq> Out_of_bounds | Inr (u, nd') \<Rightarrow> node_ok G H nd')"
  proof
    assume nd: "node_ok G H nd"
    show "case r of Inl e \<Rightarrow> e \<noteq> Out_of_bounds | Inr (u, nd') \<Rightarrow> node_ok G H nd'"
    proof (cases "retire_pass 0 [0..<length (hs_slot (nd_handles nd))] nd")
      case (Inl e)
      then show ?thesis using safe_run [OF safe_retire_pass nd, of 0 "[0..<length (hs_slot (nd_handles nd))]"] body by auto
    next
      case (Inr p)
      obtain n nd' where p: "p = (n, nd')" by fastforce
      then have "node_ok G H nd'"
        using safe_run [OF safe_retire_pass nd, of 0 "[0..<length (hs_slot (nd_handles nd))]"] Inr by simp
      then show ?thesis using body Inr p IH [of nd' r] by (auto split: if_splits)
    qed
  qed
qed

lemma safe_retireall: "safe (node_ok G H) handle_retireall (\<lambda>_. node_ok G H)"
  by (rule safeI) (auto simp: handle_retireall_def dest: retireall_ok split: option.splits)

section \<open>Dropping a queue\<close>

lemma given_error: "handle \<noteq> 0 \<Longrightarrow> given None PTYPE_ERROR handle"
  by (simp add: given_def PTYPE_ERROR_def PTYPE_TAG_ALLOCSESSION_def)

lemma safe_drop_message: "safe (node_ok G H) (drop_message handle msg) (\<lambda>_. node_ok G H)"
  unfolding drop_message_def
  by (intro safe_seq' [OF safe_heap_free] safe_if safe_throw safe_seq' [OF safe_send] safe_ret given_error) simp_all

lemma safe_drop_messages: "safe (node_ok G H) (drop_messages handle ms) (\<lambda>_. node_ok G H)"
  by (induction handle ms rule: drop_messages.induct)
     (auto intro: safe_ret safe_seq' [OF safe_drop_message])

lemma node_ok_freed:
  assumes "node_ok G H nd" "sched_inv False s H' as" "queues (nd_mq nd) q = Some mq" "mq_release mq"
    "s = (nd_mq nd)\<lparr>queues := (queues (nd_mq nd))(q := None)\<rparr>"
  shows "node_ok G H' (nd\<lparr>nd_mq := s\<rparr>)"
proof -
  let ?nd = "nd\<lparr>nd_mq := s\<rparr>"
  have old: "contexts_ok G nd" using assms(1) by (simp add: node_ok_def)
  have "queue_ids (nd_mq nd) q = Some (mq_handle mq, True)" using assms(3,4) by (simp add: queue_ids_def)
  moreover have "queue_ids s b = queue_ids (nd_mq nd) b" if "b \<noteq> q" for b
    using that assms(5) by (simp add: queue_ids_def)
  ultimately have "queue_ids s b = queue_ids (nd_mq nd) b" if "queue_ids (nd_mq nd) b = Some (h, False)" for b h
    using that by (cases "b = q") auto
  then have "context_ok G ?nd d x" if "context_ok G nd d x" for d x
    using that by (simp add: context_ok_def node_simps)
  then have "contexts_ok G ?nd" using old by (auto simp: contexts_ok_def)
  then show ?thesis using assms(1,2,5) by (auto simp: node_ok_def node_simps)
qed

lemma safe_mq_release:
  assumes "q \<in> H"
  shows "safe (node_ok G H) (on_mq (mq_release_at q)) (\<lambda>_. node_ok G (H - {q}))"
proof (rule safeI)
  fix nd assume nd: "node_ok G H nd"
  then obtain as where i: "sched_inv False (nd_mq nd) H as" by (auto simp: node_ok_def)
  then obtain mq where mq: "queues (nd_mq nd) q = Some mq" using assms by (auto simp: sched_inv_def)
  obtain s where s: "mq_release_at q (nd_mq nd) = Inr (if mq_release mq then messages mq else [], s)"
    "if mq_release mq then queues s q = None \<and> sched_inv False s (H - {q}) as
     else sched_inv False s (H - {q}) (as @ [q])"
    using release_spec [OF i assms mq] by blast
  note ids = ids_release [OF s(1) mq]
  have "node_ok G (H - {q}) (nd\<lparr>nd_mq := s\<rparr>)"
  proof (cases "mq_release mq")
    case True
    then show ?thesis using node_ok_freed [OF nd _ mq True] s(2) ids by simp
  next
    case False
    then show ?thesis using node_ok_mq [OF nd] s(2) ids by simp
  qed
  then show "case on_mq (mq_release_at q) nd of Inl e \<Rightarrow> e \<noteq> Out_of_bounds | Inr (u, nd') \<Rightarrow> node_ok G (H - {q}) nd'"
    using s(1) by (simp add: on_mq_def)
qed

lemma safe_node_mq_release:
  "q \<in> H \<Longrightarrow> safe (node_ok G H) (node_mq_release q handle) (\<lambda>_. node_ok G (H - {q}))"
  unfolding node_mq_release_def by (rule safe_bind [OF safe_mq_release]) (simp_all add: safe_drop_messages)

lemma safe_queryname: "0 < G c \<Longrightarrow> safe (node_ok G H) (queryname c name) (\<lambda>_. node_ok G H)"
  unfolding queryname_def
  by (intro safe_if safe_ret safe_gets safe_seq' [OF safe_skynet_error]) simp_all

section \<open>The global queue\<close>

lemma safe_globalmq_push:
  assumes "q \<in> H"
  shows "safe (node_ok G H) (do_mq (globalmq_push q)) (\<lambda>_. node_ok G (H - {q}))"
proof -
  have "safe (\<lambda>nd. node_ok G H nd \<and> True) (on_mq (\<lambda>s. bind_r (globalmq_push q s) (\<lambda>s. Inr ((), s)))) (\<lambda>_. node_ok G (H - {q}))"
  proof (rule safe_mq_op)
    fix nd as assume "sched_inv False (nd_mq nd) H as"
    then obtain s where "globalmq_push q (nd_mq nd) = Inr s" "sched_inv False s (H - {q}) (as @ [q])"
      using put_back_spec [OF _ assms] by blast
    then show "\<exists>u s as'. bind_r (globalmq_push q (nd_mq nd)) (\<lambda>s. Inr ((), s)) = Inr (u, s) \<and>
        sched_inv False s (H - {q}) as' \<and> queue_ids s = queue_ids (nd_mq nd)"
      using ids_globalmq_push by auto
  qed
  then show ?thesis by (simp add: do_mq_def)
qed

text \<open>The queue that a pop gives is not held by anyone else.\<close>

lemma safe_globalmq_pop:
  "safe (node_ok G H) (on_mq globalmq_pop) (\<lambda>r nd. node_ok G (H \<union> set_option r) nd \<and> set_option r \<inter> H = {})"
proof (rule safeI)
  fix nd assume nd: "node_ok G H nd"
  then obtain as where i: "sched_inv False (nd_mq nd) H as" by (auto simp: node_ok_def)
  show "case on_mq globalmq_pop nd of Inl e \<Rightarrow> e \<noteq> Out_of_bounds
      | Inr (r, nd') \<Rightarrow> node_ok G (H \<union> set_option r) nd' \<and> set_option r \<inter> H = {}"
  proof (cases as)
    case Nil
    then have "globalmq_pop (nd_mq nd) = Inr (None, nd_mq nd)" using take_spec [OF i] by simp
    moreover have "nd\<lparr>nd_mq := nd_mq nd\<rparr> = nd" by simp
    ultimately show ?thesis using nd by (simp add: on_mq_def)
  next
    case (Cons a as')
    then obtain s where s: "globalmq_pop (nd_mq nd) = Inr (Some a, s)" "sched_inv False s (insert a H) as'"
      using take_spec [OF i] by auto
    have "a \<notin> H" using i Cons by (auto simp: sched_inv_def)
    then show ?thesis using s node_ok_mq [OF nd s(2) ids_globalmq_pop [OF s(1)]] by (simp add: on_mq_def)
  qed
qed

text \<open>A pop of a queue that is held: an empty queue is let go.\<close>

lemma safe_mq_pop:
  assumes "q \<in> H"
  shows "safe (node_ok G H) (on_mq (mq_pop_at q)) (\<lambda>r. node_ok G (if r = None then H - {q} else H))"
proof (rule safeI)
  fix nd assume nd: "node_ok G H nd"
  then obtain as where i: "sched_inv False (nd_mq nd) H as" by (auto simp: node_ok_def)
  then obtain mq where mq: "queues (nd_mq nd) q = Some mq" using assms by (auto simp: sched_inv_def)
  obtain r s where s: "mq_pop_at q (nd_mq nd) = Inr (r, s)" "sched_inv False s (if r = None then H - {q} else H) as"
    using pop_spec [OF i assms mq] by (cases "messages mq") auto
  show "case on_mq (mq_pop_at q) nd of Inl e \<Rightarrow> e \<noteq> Out_of_bounds
      | Inr (r, nd') \<Rightarrow> node_ok G (if r = None then H - {q} else H) nd'"
    using s node_ok_mq [OF nd s(2) ids_pop [OF s(1)]] by (simp add: on_mq_def)
qed

section \<open>What a push and a log entry do\<close>

text \<open>A push changes the queues only: the reference that it takes it gives back.\<close>

lemma context_push_none:
  "handle_grab (hof nd) handle (nd_handles nd) = None \<Longrightarrow> context_push handle m nd = Inr (- 1, nd)"
  by (simp add: context_push_def node_grab_def op_defs)

lemma context_push_some:
  assumes "node_ok G H nd" "handle_grab (hof nd) handle (nd_handles nd) = Some c"
  shows "\<exists>x s as. nd_ctx nd c = Some x \<and> mq_push_at (sc_queue x) m (nd_mq nd) = Inr s \<and>
    sched_inv False s H as \<and> context_push handle m nd = Inr (0, nd\<lparr>nd_mq := s\<rparr>)"
proof -
  obtain x where x: "nd_ctx nd c = Some x" using grab_live [OF assms] by auto
  obtain q where q: "queues (nd_mq nd) (sc_queue x) = Some q" "\<not> mq_release q" using node_ok_queue [OF assms(1) x] .
  obtain as where "sched_inv False (nd_mq nd) H as" using assms(1) by (auto simp: node_ok_def)
  then obtain s as' where s: "mq_push_at (sc_queue x) m (nd_mq nd) = Inr s" "sched_inv False s H as'"
    using send_spec [OF _ q] by blast
  have "0 < sc_ref x" using assms(1) x by (simp add: node_ok_def contexts_ok_def context_ok_def)
  moreover have "(nd_ctx nd)(c \<mapsto> x) = nd_ctx nd" using x by (rule fun_upd_idem)
  moreover have "nd\<lparr>nd_ctx := nd_ctx nd, nd_mq := s\<rparr> = nd\<lparr>nd_mq := s\<rparr>" by simp
  ultimately have "context_push handle m nd = Inr (0, nd\<lparr>nd_mq := s\<rparr>)"
    using assms(2) x s(1)
    by (simp add: context_push_def node_grab_def context_grab_def context_release_def op_defs get_ctx_def set_ctx_def Let_def)
  then show ?thesis using x s by blast
qed

lemma skynet_error_spec:
  assumes "node_ok G H nd" "\<And>c. ctx = Some c \<Longrightarrow> nd_ctx nd c \<noteq> None"
  shows "\<exists>nd'. skynet_error ctx t nd = Inr ((), nd') \<and> node_ok G H nd' \<and> nd_ctx nd' = nd_ctx nd"
proof -
  obtain logger nd1 where l: "error_logger nd = Inr (logger, nd1)" "nd_ctx nd1 = nd_ctx nd" "node_ok G H nd1"
    using assms(1) by (cases "nd_logger nd = 0") (auto simp: error_logger_def op_defs node_simps)
  show ?thesis
  proof (cases "logger = 0")
    case True
    then show ?thesis using l by (auto simp: skynet_error_def op_defs)
  next
    case False
    obtain a nd2 where a: "heap_alloc (Bytes (error_data t)) nd1 = Inr (a, nd2)" "nd_ctx nd2 = nd_ctx nd1"
      by (simp add: heap_alloc_def)
    have nd2: "node_ok G H nd2" using safe_run [OF safe_heap_alloc l(3), of "Bytes (error_data t)"] a(1) by simp
    obtain src where src: "(case ctx of None \<Rightarrow> ret 0 | Some c \<Rightarrow> bind_o (get_ctx c) (\<lambda>x. ret (sc_handle x))) nd2 = Inr (src, nd2)"
      using assms(2) a(2) l(2) by (cases ctx) (auto simp: op_defs get_ctx_def)
    let ?m = "\<lparr>msg_source = src, msg_session = 0, msg_data = Some a,
        msg_sz = of_nat (length t) OR push_bit MESSAGE_TYPE_SHIFT (ucast PTYPE_TEXT)\<rparr>"
    have "\<exists>r nd3. context_push logger ?m nd2 = Inr (r, nd3) \<and> nd_ctx nd3 = nd_ctx nd2 \<and> node_ok G H nd3"
    proof (cases "handle_grab (hof nd2) logger (nd_handles nd2)")
      case None
      then show ?thesis using nd2 context_push_none by blast
    next
      case (Some c)
      then obtain x s where "context_push logger ?m nd2 = Inr (0, nd2\<lparr>nd_mq := s\<rparr>)"
        using context_push_some [OF nd2 Some] by blast
      then show ?thesis using safe_run [OF safe_context_push nd2, of logger ?m] by auto
    qed
    then show ?thesis using False l a src by (auto simp: skynet_error_def bind_o_def seq_def ret_def)
  qed
qed

lemma safe_skynet_error_keeps:
  "safe (\<lambda>nd. node_ok G H nd \<and> nd_ctx nd c \<noteq> None) (skynet_error (Some c) t) (\<lambda>_ nd. node_ok G H nd \<and> nd_ctx nd c \<noteq> None)"
proof (rule safeI)
  fix nd assume nd: "node_ok G H nd \<and> nd_ctx nd c \<noteq> None"
  obtain nd' where "skynet_error (Some c) t nd = Inr ((), nd')" "node_ok G H nd'" "nd_ctx nd' = nd_ctx nd"
    using skynet_error_spec [of G H nd "Some c" t] nd by auto
  then show "case skynet_error (Some c) t nd of Inl e \<Rightarrow> e \<noteq> Out_of_bounds
      | Inr (u, nd') \<Rightarrow> node_ok G H nd' \<and> nd_ctx nd' c \<noteq> None"
    using nd by simp
qed

lemma safe_release_keeps:
  "safe (node_ok (G(c := Suc (G c))) H) (context_release c) (\<lambda>r nd. node_ok G H nd \<and> (\<forall>d. r = Some d \<longrightarrow> nd_ctx nd d \<noteq> None))"
proof (rule safeI)
  fix nd assume nd: "node_ok (G(c := Suc (G c))) H nd"
  have "nd_ctx nd c \<noteq> None" using held_ctx [OF nd] by simp
  then obtain x where x: "nd_ctx nd c = Some x" by auto
  have "\<forall>d. r = Some d \<longrightarrow> nd_ctx nd' d \<noteq> None" if "context_release c nd = Inr (r, nd')" for r nd'
    using that x
    by (auto simp: context_release_def op_defs get_ctx_def set_ctx_def Let_def bind_r_Inr_iff split: if_splits)
  then show "case context_release c nd of Inl e \<Rightarrow> e \<noteq> Out_of_bounds
      | Inr (r, nd') \<Rightarrow> node_ok G H nd' \<and> (\<forall>d. r = Some d \<longrightarrow> nd_ctx nd' d \<noteq> None)"
    using safe_run [OF safe_release nd] by (auto split: sum.splits)
qed

lemma safe_on_mq_ctx:
  assumes "safe P (on_mq f) Q"
  shows "safe (\<lambda>nd. P nd \<and> C (nd_ctx nd)) (on_mq f) (\<lambda>x nd. Q x nd \<and> C (nd_ctx nd))"
proof (rule safeI)
  fix nd assume "P nd \<and> C (nd_ctx nd)"
  then show "case on_mq f nd of Inl e \<Rightarrow> e \<noteq> Out_of_bounds | Inr (x, nd') \<Rightarrow> Q x nd' \<and> C (nd_ctx nd')"
    using safe_run [OF assms, of nd] by (auto simp: on_mq_def bind_r_def split: sum.splits prod.splits)
qed

section \<open>Creating a service\<close>

lemma register_full:
  assumes "table_ok k f s" "\<not> (k < 24 \<or> find_slot s 0 (length (hs_slot s)) \<noteq> None)"
  shows "handle_register f ctx s = Some (Inl Assert_failed)"
proof -
  have "k = 24" "length (hs_slot s) = 2 ^ k" using assms by (auto simp: table_ok_def)
  moreover have "find_slot s 0 (length (hs_slot s)) = None" using assms(2) by blast
  ultimately show ?thesis by (subst handle_register.simps) (simp add: HANDLE_MASK_def)
qed

lemma safe_create:
  "safe (node_ok G H) (context_create md inst)
     (\<lambda>c nd. node_ok (G(c := Suc (G c))) (insert (sc_queue (the (nd_ctx nd c))) H) nd \<and> sc_queue (the (nd_ctx nd c)) \<notin> H)"
proof (rule safeI)
  fix nd assume nd: "node_ok G H nd"
  define c where "c = nd_next nd"
  define nd1 where "nd1 = nd\<lparr>nd_next := nd_next nd + 1, nd_ctx := (nd_ctx nd)(c \<mapsto> new_context md inst)\<rparr>"
  obtain k where t: "table_ok k (hof nd) (nd_handles nd)" using nd by (auto simp: node_ok_def)
  have old: "contexts_ok G nd" using nd by (simp add: node_ok_def)
  have new: "nd_ctx nd c = None"
  proof (cases "nd_ctx nd c")
    case (Some x)
    then have "context_ok G nd c x" using old by (simp add: contexts_ok_def)
    then show ?thesis by (simp add: context_ok_def c_def)
  qed
  then have fresh: "c \<notin> registered (nd_handles nd)" "nd_remote nd \<noteq> Some c" "G c = 0"
    using old by (auto simp: contexts_ok_def)
  have hof1: "hof nd1 d = hof nd d" if "d \<in> registered (nd_handles nd)" for d
    using that fresh(1) by (auto simp: hof_def nd1_def)
  have t1: "table_ok k (hof nd1) (nd_handles nd)" by (rule table_ok_cong [OF t hof1])
  show "case context_create md inst nd of Inl e \<Rightarrow> e \<noteq> Out_of_bounds
      | Inr (c, nd') \<Rightarrow> node_ok (G(c := Suc (G c))) (insert (sc_queue (the (nd_ctx nd' c))) H) nd' \<and>
          sc_queue (the (nd_ctx nd' c)) \<notin> H"
  proof (cases "k < 24 \<or> find_slot (nd_handles nd) 0 (length (hs_slot (nd_handles nd))) \<noteq> None")
    case False
    have "handle_register (hof nd1) c (nd_handles nd) = Some (Inl Assert_failed)" using register_full [OF t1 False] .
    then show ?thesis
      by (simp add: context_create_def fresh_def node_register_def op_defs set_ctx_def c_def nd1_def)
  next
    case True
    obtain h hs k' where r: "handle_register (hof nd1) c (nd_handles nd) = Some (Inr (h, hs))"
      "table_ok k' ((hof nd1)(c := h)) hs" "registered hs = insert c (registered (nd_handles nd))"
      "hs_name hs = hs_name (nd_handles nd)" "hs_name_count hs = hs_name_count (nd_handles nd)"
      using register_spec [OF t1 fresh(1) True] by blast
    define q where "q = nd_next nd + 1"
    define x where "x = (new_context md inst)\<lparr>sc_handle := h, sc_queue := q\<rparr>"
    obtain as where i: "sched_inv False (nd_mq nd) H as" using nd by (auto simp: node_ok_def)
    have qn: "queues (nd_mq nd) q = None" using nd by (force simp: node_ok_def q_def)
    let ?s = "set_queue q (mq_create h) (nd_mq nd)"
    have i': "sched_inv False ?s (insert q H) as" by (rule create_spec [OF i qn])
    have qH: "q \<notin> H" using i qn by (auto simp: sched_inv_def)
    define nd2 where "nd2 = nd\<lparr>nd_ctx := (nd_ctx nd)(c \<mapsto> x), nd_handles := hs, nd_mq := ?s, nd_next := nd_next nd + 2,
        nd_total := nd_total nd + 1\<rparr>"
    have create: "context_create md inst nd = Inr (c, nd2)"
      using r(1) by (simp add: context_create_def fresh_def node_register_def op_defs set_ctx_def context_inc_def
          nd1_def c_def q_def x_def nd2_def)
    let ?G = "G(c := Suc (G c))"
    have ids: "queue_ids ?s b = (if b = q then Some (h, False) else queue_ids (nd_mq nd) b)" for b
      by (simp add: queue_ids_def set_queue_def mq_create_def)
    have idq: "queue_ids (nd_mq nd) q = None" using qn by (simp add: queue_ids_def)
    have count: "counted ?G nd2 d = (if d = c then 2 else counted G nd d)" for d
      using fresh r(3) by (simp add: counted_def nd2_def)
    have "contexts_ok ?G nd2"
      unfolding contexts_ok_def
    proof (intro conjI allI impI)
      fix d y assume y: "nd_ctx nd2 d = Some y"
      show "context_ok ?G nd2 d y"
      proof (cases "d = c")
        case True
        then have "y = x" using y by (simp add: nd2_def)
        then show ?thesis using True
          by (simp add: context_ok_def count) (simp add: nd2_def ids x_def new_context_def c_def)
      next
        case False
        then have d: "context_ok G nd d y" using y old by (simp add: contexts_ok_def nd2_def)
        then have "sc_queue y \<noteq> q" using idq by (auto simp: context_ok_def)
        then show ?thesis using d False by (simp add: context_ok_def count) (simp add: nd2_def ids)
      qed
    next
      fix d e y z assume a: "nd_ctx nd2 d = Some y" "nd_ctx nd2 e = Some z" "sc_queue y = sc_queue z"
      have ne: "sc_queue w \<noteq> q" if "nd_ctx nd b = Some w" for b w
      proof -
        have "context_ok G nd b w" using old that by (simp add: contexts_ok_def)
        then show ?thesis using idq by (auto simp: context_ok_def)
      qed
      have xq: "sc_queue x = q" by (simp add: x_def)
      show "d = e"
      proof (cases "d = c \<or> e = c")
        case True
        then show ?thesis using a ne xq by (auto simp: nd2_def split: if_splits)
      next
        case False
        then show ?thesis using a old by (simp add: nd2_def contexts_ok_def)
      qed
    next
      have "{d. 0 < ?G d} \<subseteq> insert c {d. 0 < G d}" by auto
      then show "registered (nd_handles nd2) \<union> set_option (nd_remote nd2) \<union> {d. 0 < ?G d} \<subseteq> dom (nd_ctx nd2)"
        using old r(3) by (auto simp: nd2_def contexts_ok_def)
    qed
    moreover have "hof nd2 = (hof nd1)(c := h)" by (auto simp: hof_def nd2_def nd1_def x_def fun_eq_iff)
    moreover have "names_ok (nd_handles nd2)" using nd r(4,5) by (simp add: node_ok_def names_ok_def names_def nd2_def)
    moreover have "\<forall>a. queues (nd_mq nd2) a \<noteq> None \<longrightarrow> a < nd_next nd2"
      using nd by (auto simp: node_ok_def nd2_def set_queue_def q_def less_SucI)
    moreover have "\<forall>a. nd_heap nd2 a \<noteq> None \<longrightarrow> a < nd_next nd2"
      using nd by (auto simp: node_ok_def nd2_def less_SucI)
    ultimately have "node_ok ?G (insert q H) nd2"
      using r(2) i' unfolding node_ok_def by (auto simp: nd2_def)
    moreover have "sc_queue (the (nd_ctx nd2 c)) = q" by (simp add: nd2_def x_def)
    ultimately show ?thesis using create qH by simp
  qed
qed

section \<open>Launching, commands and programs\<close>

definition runner_ok :: "runner \<Rightarrow> bool" where
  "runner_ok run = (\<forall>p c G H. 0 < G c \<longrightarrow> safe (node_ok G H) (run p c) (\<lambda>_. node_ok G H))"

lemma runner_okD: "runner_ok run \<Longrightarrow> 0 < G c \<Longrightarrow> safe (node_ok G H) (run p c) (\<lambda>_. node_ok G H)"
  by (simp add: runner_ok_def)

definition there :: "nat option \<Rightarrow> node \<Rightarrow> bool" where
  "there r nd = (\<forall>c. r = Some c \<longrightarrow> nd_ctx nd c \<noteq> None)"

lemma safe_set_init:
  "safe (\<lambda>nd. node_ok G H nd \<and> nd_ctx nd c \<noteq> None) (bind_o (get_ctx c) (\<lambda>x. set_ctx c (x\<lparr>sc_init := True\<rparr>)))
     (\<lambda>_ nd. node_ok G H nd \<and> nd_ctx nd c \<noteq> None)"
proof (rule safeI)
  fix nd assume nd: "node_ok G H nd \<and> nd_ctx nd c \<noteq> None"
  then obtain x where x: "nd_ctx nd c = Some x" by auto
  have "safe (\<lambda>nd. node_ok G H nd \<and> nd_ctx nd c = Some x) (set_ctx c (x\<lparr>sc_init := True\<rparr>)) (\<lambda>_. node_ok G H)"
    by (rule safe_set_ctx) simp_all
  then have "node_ok G H (nd\<lparr>nd_ctx := (nd_ctx nd)(c \<mapsto> x\<lparr>sc_init := True\<rparr>)\<rparr>)"
    using nd x by (simp add: triple_def set_ctx_def modify_def)
  then show "case bind_o (get_ctx c) (\<lambda>x. set_ctx c (x\<lparr>sc_init := True\<rparr>)) nd of Inl e \<Rightarrow> e \<noteq> Out_of_bounds
      | Inr (u, nd') \<Rightarrow> node_ok G H nd' \<and> nd_ctx nd' c \<noteq> None"
    using x by (simp add: op_defs get_ctx_def set_ctx_def)
qed

text \<open>The end of \<open>skynet_context_new\<close> when the initialisation has succeeded, and when it has not.\<close>

lemma safe_launched:
  assumes "q \<notin> H"
  shows "safe (node_ok (G(c := Suc (G c))) (insert q H))
    (bind_o (context_release c) (\<lambda>rt.
       seq (case rt of None \<Rightarrow> ret () | Some c \<Rightarrow> bind_o (get_ctx c) (\<lambda>x. set_ctx c (x\<lparr>sc_init := True\<rparr>)))
      (seq (do_mq (globalmq_push q))
      (seq (case rt of None \<Rightarrow> ret () | Some c \<Rightarrow> skynet_error (Some c) (f c)) (ret rt)))))
    (\<lambda>rt nd. node_ok G H nd \<and> there rt nd)"
proof (rule safe_bind [OF safe_release_keeps])
  fix rt :: "nat option"
  have H: "insert q H - {q} = H" using assms by simp
  have push: "safe (\<lambda>nd. node_ok G (insert q H) nd \<and> C (nd_ctx nd)) (do_mq (globalmq_push q)) (\<lambda>_ nd. node_ok G H nd \<and> C (nd_ctx nd))" for C
    using safe_on_mq_ctx [OF safe_globalmq_push [where q = q and H = "insert q H" and G = G, unfolded do_mq_def H]]
    unfolding do_mq_def by simp
  show "safe (\<lambda>nd. node_ok G (insert q H) nd \<and> (\<forall>d. rt = Some d \<longrightarrow> nd_ctx nd d \<noteq> None))
      (seq (case rt of None \<Rightarrow> ret () | Some c \<Rightarrow> bind_o (get_ctx c) (\<lambda>x. set_ctx c (x\<lparr>sc_init := True\<rparr>)))
        (seq (do_mq (globalmq_push q)) (seq (case rt of None \<Rightarrow> ret () | Some c \<Rightarrow> skynet_error (Some c) (f c)) (ret rt))))
      (\<lambda>rt nd. node_ok G H nd \<and> there rt nd)"
  proof (cases rt)
    case None
    have "safe (\<lambda>nd. node_ok G (insert q H) nd \<and> True) (seq (ret ()) (seq (do_mq (globalmq_push q)) (seq (ret ()) (ret None))))
        (\<lambda>rt nd. node_ok G H nd \<and> there rt nd)"
      by (rule safe_seq', rule safe_ret, assumption, rule safe_seq' [OF push [where C = "\<lambda>_. True"]], rule safe_seq', rule safe_ret, assumption, rule safe_ret)
         (simp add: there_def)
    then show ?thesis using None by simp
  next
    case (Some d)
    have "safe (\<lambda>nd. node_ok G (insert q H) nd \<and> nd_ctx nd d \<noteq> None)
        (seq (bind_o (get_ctx d) (\<lambda>x. set_ctx d (x\<lparr>sc_init := True\<rparr>)))
        (seq (do_mq (globalmq_push q)) (seq (skynet_error (Some d) (f d)) (ret (Some d)))))
        (\<lambda>rt nd. node_ok G H nd \<and> there rt nd)"
      by (rule safe_seq' [OF safe_set_init], rule safe_seq' [OF push [where C = "\<lambda>m. m d \<noteq> None"]],
          rule safe_seq' [OF safe_skynet_error_keeps], rule safe_ret) (simp add: there_def)
    then show ?thesis using Some by simp
  qed
qed

lemma safe_failed:
  assumes "q \<notin> H"
  shows "safe (node_ok (G(c := Suc (G c))) (insert q H))
    (seq (skynet_error (Some c) t) (seq (context_release c) (seq (node_retire h) (seq (node_mq_release q h) (ret None)))))
    (\<lambda>rt nd. node_ok G H nd \<and> there rt nd)"
proof -
  have "safe (node_ok G (insert q H)) (node_mq_release q h) (\<lambda>_. node_ok G (insert q H - {q}))"
    by (rule safe_node_mq_release) simp
  moreover have "insert q H - {q} = H" using assms by simp
  ultimately have drop: "safe (node_ok G (insert q H)) (node_mq_release q h) (\<lambda>_. node_ok G H)" by simp
  show ?thesis
    by (rule safe_seq' [OF safe_skynet_error], simp, rule safe_release_seq, rule safe_seq' [OF safe_node_retire],
        rule safe_seq' [OF drop], rule safe_ret) (simp add: there_def)
qed

lemma safe_context_new:
  assumes "runner_ok run"
  shows "safe (node_ok G H) (context_new run S name param) (\<lambda>rt nd. node_ok G H nd \<and> there rt nd)"
proof -
  have none: "safe (node_ok G H) (ret None) (\<lambda>rt nd. node_ok G H nd \<and> there rt nd)"
    by (rule safe_ret) (simp add: there_def)
  have inst: "safe (node_ok G H) (instance_create S md) (\<lambda>_. node_ok G H)" for md
    unfolding instance_create_def by (cases "sv_create S md") (auto intro!: safe_ret safe_bind [OF safe_heap_alloc])
  have got: "safe (\<lambda>nd. node_ok (G(c := Suc (G c))) (insert (sc_queue (the (nd_ctx nd c))) H) nd \<and> sc_queue (the (nd_ctx nd c)) \<notin> H)
      (get_ctx c) (\<lambda>x nd. sc_queue x \<notin> H \<and> node_ok (G(c := Suc (G c))) (insert (sc_queue x) H) nd)" for c
    by (rule safeI) (auto simp: get_ctx_def dest: held_ctx split: option.splits)
  show ?thesis
    unfolding context_new_def Let_def
    by (rule safe_option, rule none, rule safe_bind [OF inst], rule safe_option, rule none,
        rule safe_bind [OF safe_create], rule safe_bind [OF got], rule safe_pure,
        rule safe_bind [OF runner_okD [OF assms]], simp, intro safe_if safe_launched safe_failed)
qed

lemma safe_namehandle: "safe (node_ok G H) (node_namehandle h name) (\<lambda>_. node_ok G H)"
proof (rule safeI)
  fix nd assume nd: "node_ok G H nd"
  then have n: "names_ok (nd_handles nd)" by (simp add: node_ok_def)
  note spec = namehandle_spec [OF n, where name = name and h = h]
  have keep: "node_ok G H (nd\<lparr>nd_handles := hs\<rparr>)"
    if "names_ok hs" "hs_slot hs = hs_slot (nd_handles nd)" "hs_harbor hs = hs_harbor (nd_handles nd)" for hs
  proof -
    have r: "registered hs = registered (nd_handles nd)" using that(2) by (simp add: registered_def)
    have "contexts_ok G (nd\<lparr>nd_handles := hs\<rparr>)"
      by (rule contexts_ok_cong [of G nd]) (use nd r in \<open>simp_all add: node_ok_def\<close>)
    moreover have "table_ok k f hs = table_ok k f (nd_handles nd)" for k f
      using that by (simp add: table_ok_def)
    ultimately show ?thesis using nd that(1) by (simp add: node_ok_def node_simps)
  qed
  show "case node_namehandle h name nd of Inl e \<Rightarrow> e \<noteq> Out_of_bounds | Inr (u, nd') \<Rightarrow> node_ok G H nd'"
    using spec nd keep by (auto simp: node_namehandle_def split: option.splits if_splits)
qed

lemma safe_string_of: "safe P (string_of p) (\<lambda>_. P)"
  unfolding string_of_def by (cases p) (auto intro: safe_throw safe_ret)

lemma safe_findname: "safe P (node_findname name) (\<lambda>_. P)"
  unfolding node_findname_def by (rule safe_gets)

lemma safe_tohandle: "0 < G c \<Longrightarrow> safe (node_ok G H) (tohandle c p) (\<lambda>_. node_ok G H)"
  unfolding tohandle_def
  by (intro safe_if safe_ret safe_findname safe_seq' [OF safe_skynet_error]) simp_all

lemma safe_get: "0 < G c \<Longrightarrow> safe (node_ok G H) (get_ctx c) (\<lambda>_. node_ok G H)"
  by (rule safe_post [OF safe_get_held]) simp_all

lemma safe_handle_exit:
  assumes "0 < G c"
  shows "safe (node_ok G H) (handle_exit c h) (\<lambda>_. node_ok G H)"
proof -
  have report: "safe (node_ok G H) (if m \<noteq> 0 then seq (skynet_send (Some c) h m PTYPE_CLIENT 0 None 0) (ret ()) else ret ())
      (\<lambda>_. node_ok G H)" for m h
    by (intro safe_if safe_seq' [OF safe_send] safe_ret) (simp_all add: assms given_def)
  show ?thesis
    unfolding handle_exit_def Let_def
    by (rule safe_bind [OF safe_get [where G = G and c = c, OF assms]], rule safe_seq' [OF safe_skynet_error], simp add: assms,
        rule safe_bind [where R = "\<lambda>_. node_ok G H"], rule safe_gets, assumption, rule safe_seq' [OF report],
        rule safe_seq' [OF safe_node_retire], rule safe_ret)
qed

lemma safe_timeout: "safe (node_ok G H) (skynet_timeout h t session) (\<lambda>_. node_ok G H)"
proof -
  have push: "safe (node_ok G H) (bind_o (context_push h m) (\<lambda>r. ret (if r \<noteq> 0 then - 1 else session))) (\<lambda>_. node_ok G H)" for m
    by (rule safe_bind [OF safe_context_push]) (rule safe_ret)
  have set: "safe (node_ok G H) (modify (\<lambda>nd. nd\<lparr>nd_timer := T\<rparr>)) (\<lambda>_. node_ok G H)" for T
    by (rule safe_modify) (simp add: node_simps)
  show ?thesis
    unfolding skynet_timeout_def
    by (rule safe_bind [where R = "\<lambda>_. node_ok G H"], rule safe_gets, assumption)
       (auto intro!: safe_seq' [OF set] push safe_ret split: option.splits prod.splits)
qed

section \<open>The commands\<close>

named_theorems cmd

lemma safe_cmds [cmd]:
  assumes "0 < G c"
  shows "safe (node_ok G H) (cmd_timeout c p) (\<lambda>_. node_ok G H)"
    "safe (node_ok G H) (cmd_reg c p) (\<lambda>_. node_ok G H)"
    "safe (node_ok G H) (cmd_query c p) (\<lambda>_. node_ok G H)"
    "safe (node_ok G H) (cmd_exit c p) (\<lambda>_. node_ok G H)"
    "safe (node_ok G H) (cmd_kill c p) (\<lambda>_. node_ok G H)"
    "safe (node_ok G H) (cmd_getenv c p) (\<lambda>_. node_ok G H)"
    "safe (node_ok G H) (cmd_starttime c p) (\<lambda>_. node_ok G H)"
    "safe (node_ok G H) (cmd_abort c p) (\<lambda>_. node_ok G H)"
proof -
  note get = safe_get [where G = G and c = c, OF assms]
  have err: "safe (node_ok G H) (skynet_error (Some c) t) (\<lambda>_. node_ok G H)" for t
    by (rule safe_skynet_error) (simp add: assms)
  show "safe (node_ok G H) (cmd_timeout c p) (\<lambda>_. node_ok G H)"
    unfolding cmd_timeout_def
    by (rule safe_bind [OF safe_string_of], rule safe_bind [OF safe_newsession [where G = G and c = c, OF assms]], rule safe_bind [OF get],
        rule safe_seq' [OF safe_timeout], rule safe_ret)
  show "safe (node_ok G H) (cmd_reg c p) (\<lambda>_. node_ok G H)"
    unfolding cmd_reg_def
    by (rule safe_bind [OF get]) (intro safe_option safe_if safe_ret safe_namehandle safe_seq' [OF err])
  show "safe (node_ok G H) (cmd_query c p) (\<lambda>_. node_ok G H)"
    unfolding cmd_query_def
    by (rule safe_bind [OF safe_string_of]) (intro safe_if safe_bind [OF safe_findname] safe_ret)
  show "safe (node_ok G H) (cmd_exit c p) (\<lambda>_. node_ok G H)"
    unfolding cmd_exit_def by (rule safe_seq' [OF safe_handle_exit [where G = G and c = c, OF assms]]) (rule safe_ret)
  show "safe (node_ok G H) (cmd_kill c p) (\<lambda>_. node_ok G H)"
    unfolding cmd_kill_def
    by (rule safe_bind [OF safe_string_of], rule safe_bind [OF safe_tohandle [where G = G and c = c, OF assms]])
       (intro safe_if safe_seq' [OF safe_handle_exit [where G = G and c = c, OF assms]] safe_ret)
  show "safe (node_ok G H) (cmd_getenv c p) (\<lambda>_. node_ok G H)"
    unfolding cmd_getenv_def by (rule safe_bind [OF safe_string_of]) (rule safe_gets)
  show "safe (node_ok G H) (cmd_starttime c p) (\<lambda>_. node_ok G H)"
    unfolding cmd_starttime_def by (rule safe_gets)
  show "safe (node_ok G H) (cmd_abort c p) (\<lambda>_. node_ok G H)"
    unfolding cmd_abort_def by (rule safe_seq' [OF safe_retireall]) (rule safe_ret)
qed

lemma safe_modify_irrelevant:
  "safe (node_ok G H) (modify (\<lambda>nd. nd\<lparr>nd_monitor_exit := h\<rparr>)) (\<lambda>_. node_ok G H)"
  "safe (node_ok G H) (modify (\<lambda>nd. nd\<lparr>nd_env := f nd\<rparr>)) (\<lambda>_. node_ok G H)"
  "safe (node_ok G H) (modify (\<lambda>nd. nd\<lparr>nd_monitor := g nd\<rparr>)) (\<lambda>_. node_ok G H)"
  by (rule safe_modify, simp add: node_simps)+

text \<open>A context that is released after some work on it.\<close>

lemma safe_with_grabbed:
  assumes "\<And>c. safe (node_ok (G(c := Suc (G c))) H) (k c) (\<lambda>_. node_ok (G(c := Suc (G c))) H)"
  shows "safe (node_ok G H)
    (bind_o (node_grab h) (\<lambda>r. case r of None \<Rightarrow> ret None | Some c \<Rightarrow> seq (k c) (seq (context_release c) (ret None))))
    (\<lambda>_. node_ok G H)"
proof (rule safe_bind [OF safe_node_grab])
  fix r
  have "safe (node_ok (G(c := Suc (G c))) H) (seq (k c) (seq (context_release c) (ret None))) (\<lambda>_. node_ok G H)" for c
    by (rule safe_seq' [OF assms], rule safe_release_seq, rule safe_ret)
  then show "safe (node_ok (grabbed G r) H) (case r of None \<Rightarrow> ret None | Some c \<Rightarrow> seq (k c) (seq (context_release c) (ret None)))
      (\<lambda>_. node_ok G H)"
    by (cases r) (simp_all add: safe_ret)
qed

lemma bind_seq: "bind_o m (\<lambda>x. seq (f x) k) = seq (bind_o m f) k"
  by (auto simp: op_defs fun_eq_iff bind_r_def split: sum.splits prod.splits)

lemma safe_log:
  assumes "0 < G c" "0 < G d"
  shows "safe (node_ok G H) (bind_o (get_ctx d) (\<lambda>x.
      if sc_logfile x = None
      then bind_o (log_open S c h) (\<lambda>f. if f \<noteq> None
        then bind_o (get_ctx d) (\<lambda>x. if sc_logfile x = None then set_ctx d (x\<lparr>sc_logfile := f\<rparr>) else ret ()) else ret ())
      else ret ())) (\<lambda>_. node_ok G H)"
    "safe (node_ok G H) (bind_o (get_ctx d) (\<lambda>x.
      if sc_logfile x \<noteq> None then seq (set_ctx d (x\<lparr>sc_logfile := None\<rparr>)) (log_close c h) else ret ())) (\<lambda>_. node_ok G H)"
proof -
  have err: "safe (node_ok G H) (skynet_error (Some c) t) (\<lambda>_. node_ok G H)" for t
    by (rule safe_skynet_error) (simp add: assms(1))
  have op: "safe (node_ok G H) (log_open S c h) (\<lambda>_. node_ok G H)"
    unfolding log_open_def Let_def
    by (rule safe_bind [where R = "\<lambda>_. node_ok G H"], rule safe_gets, assumption) (intro safe_option safe_seq' [OF err] safe_ret)
  have set: "safe (\<lambda>nd. node_ok G H nd \<and> nd_ctx nd d = Some x) (if sc_logfile x = None then set_ctx d (x\<lparr>sc_logfile := f\<rparr>) else ret ())
      (\<lambda>_. node_ok G H)" for x f
    by (intro safe_if safe_set_ctx safe_ret) simp_all
  show "safe (node_ok G H) (bind_o (get_ctx d) (\<lambda>x.
      if sc_logfile x = None
      then bind_o (log_open S c h) (\<lambda>f. if f \<noteq> None
        then bind_o (get_ctx d) (\<lambda>x. if sc_logfile x = None then set_ctx d (x\<lparr>sc_logfile := f\<rparr>) else ret ()) else ret ())
      else ret ())) (\<lambda>_. node_ok G H)"
    by (rule safe_bind [OF safe_get [where G = G and c = d, OF assms(2)]])
       (intro safe_if safe_bind [OF op] safe_ret safe_bind [OF safe_get_held [where G = G and c = d, OF assms(2)]] set)
  show "safe (node_ok G H) (bind_o (get_ctx d) (\<lambda>x.
      if sc_logfile x \<noteq> None then seq (set_ctx d (x\<lparr>sc_logfile := None\<rparr>)) (log_close c h) else ret ())) (\<lambda>_. node_ok G H)"
    by (rule safe_bind [OF safe_get_held [where G = G and c = d, OF assms(2)]])
       (intro safe_if safe_seq' [OF safe_set_ctx] safe_ret; simp add: log_close_def err)
qed

lemma safe_cmds_2 [cmd]:
  assumes "0 < G c"
  shows "safe (node_ok G H) (cmd_name c p) (\<lambda>_. node_ok G H)"
    "safe (node_ok G H) (cmd_setenv c p) (\<lambda>_. node_ok G H)"
    "safe (node_ok G H) (cmd_endless c p) (\<lambda>_. node_ok G H)"
    "safe (node_ok G H) (cmd_monitor c p) (\<lambda>_. node_ok G H)"
    "safe (node_ok G H) (cmd_mqlen c p) (\<lambda>_. node_ok G H)"
    "safe (node_ok G H) (cmd_logon S c p) (\<lambda>_. node_ok G H)"
    "safe (node_ok G H) (cmd_logoff c p) (\<lambda>_. node_ok G H)"
proof -
  note get = safe_get_held [where G = G and c = c, OF assms] and to = safe_tohandle [where G = G and c = c, OF assms]
  have err: "safe (node_ok G H) (skynet_error (Some c) t) (\<lambda>_. node_ok G H)" for t
    by (rule safe_skynet_error) (simp add: assms)
  show "safe (node_ok G H) (cmd_name c p) (\<lambda>_. node_ok G H)"
    unfolding cmd_name_def Let_def
    by (rule safe_bind [OF safe_string_of])
       (auto intro!: safe_throw safe_ret safe_namehandle safe_seq' [OF err] split: option.splits)
  have "safe (node_ok G H) (setenv key v) (\<lambda>_. node_ok G H)" for key v
    unfolding setenv_def
    by (rule safe_bind [where R = "\<lambda>_. node_ok G H"], rule safe_gets, assumption)
       (intro safe_if safe_throw safe_modify_irrelevant; simp)
  then show "safe (node_ok G H) (cmd_setenv c p) (\<lambda>_. node_ok G H)"
    unfolding cmd_setenv_def Let_def
    by (intro safe_bind [OF safe_string_of] safe_if safe_ret safe_seq')
  show "safe (node_ok G H) (cmd_endless c p) (\<lambda>_. node_ok G H)"
    unfolding cmd_endless_def
    by (rule safe_bind [OF get]) (intro safe_if safe_seq' [OF safe_set_ctx] safe_ret; simp)
  show "safe (node_ok G H) (cmd_monitor c p) (\<lambda>_. node_ok G H)"
    unfolding cmd_monitor_def
    by (intro safe_if safe_bind [OF safe_string_of] safe_bind [OF to] safe_seq' [OF safe_modify_irrelevant(1)] safe_ret
        safe_bind [where R = "\<lambda>_. node_ok G H"] safe_gets)
  have len: "safe (\<lambda>nd. node_ok G H nd \<and> nd_ctx nd c = Some x) (queue_length (sc_queue x)) (\<lambda>_. node_ok G H)" for x
  proof (rule safeI)
    fix nd assume nd: "node_ok G H nd \<and> nd_ctx nd c = Some x"
    then obtain q where "queues (nd_mq nd) (sc_queue x) = Some q" using node_ok_queue by blast
    moreover have "nd\<lparr>nd_mq := nd_mq nd\<rparr> = nd" by simp
    ultimately show "case queue_length (sc_queue x) nd of Inl e \<Rightarrow> e \<noteq> Out_of_bounds | Inr (n, nd') \<Rightarrow> node_ok G H nd'"
      using nd by (simp add: queue_length_def on_mq_def deref_def)
  qed
  show "safe (node_ok G H) (cmd_mqlen c p) (\<lambda>_. node_ok G H)"
    unfolding cmd_mqlen_def by (rule safe_bind [OF get], rule safe_bind [OF len], rule safe_ret)
  show "safe (node_ok G H) (cmd_logon S c p) (\<lambda>_. node_ok G H)"
    unfolding cmd_logon_def bind_seq
    by (rule safe_bind [OF safe_string_of], rule safe_bind [OF to], rule safe_if, rule safe_ret, assumption,
        rule safe_with_grabbed, rule safe_log(1)) (use assms in simp_all)
  show "safe (node_ok G H) (cmd_logoff c p) (\<lambda>_. node_ok G H)"
    unfolding cmd_logoff_def bind_seq
    by (rule safe_bind [OF safe_string_of], rule safe_bind [OF to], rule safe_if, rule safe_ret, assumption,
        rule safe_with_grabbed, rule safe_log(2)) (use assms in simp_all)
qed

lemma safe_cmd_launch:
  assumes "runner_ok run"
  shows "safe (node_ok G H) (cmd_launch run S c p) (\<lambda>_. node_ok G H)"
proof -
  have got: "safe (\<lambda>nd. node_ok G H nd \<and> there inst nd)
      (case inst of None \<Rightarrow> ret None | Some c \<Rightarrow> bind_o (get_ctx c) (\<lambda>x. ret (Some (id_to_hex (sc_handle x)))))
      (\<lambda>_. node_ok G H)" for inst
  proof (cases inst)
    case None
    then show ?thesis by (auto intro: safe_ret)
  next
    case (Some d)
    have "safe (\<lambda>nd. node_ok G H nd \<and> nd_ctx nd d \<noteq> None) (bind_o (get_ctx d) (\<lambda>x. ret (Some (id_to_hex (sc_handle x)))))
        (\<lambda>_. node_ok G H)"
      by (rule safe_bind [OF safe_get_ctx]) (auto intro: safe_ret)
    then show ?thesis unfolding Some by (auto simp: there_def elim!: safe_pre)
  qed
  show ?thesis
    unfolding cmd_launch_def Let_def
    by (rule safe_bind [OF safe_string_of])
       (simp add: case_prod_unfold safe_bind [OF safe_context_new [OF assms] got])
qed

lemma safe_cmd_signal:
  assumes "runner_ok run" "0 < G c"
  shows "safe (node_ok G H) (cmd_signal run S c p) (\<lambda>_. node_ok G H)"
proof -
  have work: "safe (node_ok (G(d := Suc (G d))) H)
      (bind_o (get_ctx d) (\<lambda>x. run (sv_signal S (sc_mod x) (sc_instance x) sig) d)) (\<lambda>_. node_ok (G(d := Suc (G d))) H)" for d sig
    by (rule safe_bind [OF safe_get]) (simp_all add: runner_okD [OF assms(1)])
  have "safe (node_ok G H) (bind_o (node_grab h) (\<lambda>r. case r of None \<Rightarrow> ret None
      | Some d \<Rightarrow> seq (bind_o (get_ctx d) (\<lambda>x. run (sv_signal S (sc_mod x) (sc_instance x) sig) d)) (seq (context_release d) (ret None))))
      (\<lambda>_. node_ok G H)" for h sig
  proof (rule safe_bind [OF safe_node_grab])
    fix r
    have "safe (node_ok (G(d := Suc (G d))) H) (seq (bind_o (get_ctx d) (\<lambda>x. run (sv_signal S (sc_mod x) (sc_instance x) sig) d))
        (seq (context_release d) (ret None))) (\<lambda>_. node_ok G H)" for d
      by (rule safe_seq' [OF work], rule safe_release_seq, rule safe_ret)
    then show "safe (node_ok (grabbed G r) H) (case r of None \<Rightarrow> ret None
      | Some d \<Rightarrow> seq (bind_o (get_ctx d) (\<lambda>x. run (sv_signal S (sc_mod x) (sc_instance x) sig) d)) (seq (context_release d) (ret None)))
      (\<lambda>_. node_ok G H)"
      by (cases r) (simp_all add: safe_ret)
  qed
  then show ?thesis
    unfolding cmd_signal_def Let_def bind_seq
    by (rule_tac safe_bind [OF safe_string_of], rule_tac safe_bind [OF safe_tohandle [where G = G and c = c, OF assms(2)]])
       (rule safe_if, rule safe_ret)
qed

lemma safe_command:
  assumes "runner_ok run" "0 < G c"
  shows "safe (node_ok G H) (skynet_command run S c name p) (\<lambda>_. node_ok G H)"
proof -
  have "safe (node_ok G H) (f c p) (\<lambda>_. node_ok G H)" if "(name, f) \<in> set (cmd_funcs run S)" for f
    using that assms
    by (auto simp: cmd_funcs_def intro: safe_cmds safe_cmds_2 safe_cmd_launch safe_cmd_signal)
  then show ?thesis
    unfolding skynet_command_def by (auto intro: safe_ret dest: map_of_SomeD split: option.splits)
qed

lemma safe_harbor_start:
  assumes "0 < G c"
  shows "safe (node_ok G H) (harbor_start c) (\<lambda>_. node_ok G H)"
proof (rule safeI)
  fix nd assume nd: "node_ok G H nd"
  have "nd_ctx nd c \<noteq> None" by (rule held_ctx [OF nd assms])
  then obtain x where x: "nd_ctx nd c = Some x" by auto
  let ?y = "x\<lparr>sc_ref := sc_ref x + 1\<rparr>" and ?G = "G(c := Suc (G c))"
  let ?nd1 = "nd\<lparr>nd_ctx := (nd_ctx nd)(c \<mapsto> ?y)\<rparr>"
  let ?nd2 = "?nd1\<lparr>nd_total := nd_total nd - 1, nd_remote := Some c\<rparr>"
  have "context_ok G nd c x" using nd x by (simp add: node_ok_def contexts_ok_def)
  then have nd1: "node_ok ?G H ?nd1"
    by (intro node_ok_set_ctx [OF nd x]) (simp_all add: context_ok_def counted_def)
  have old: "contexts_ok ?G ?nd1" using nd1 by (simp add: node_ok_def)
  have le: "counted G ?nd2 d \<le> counted ?G ?nd1 d" for d
    by (simp add: counted_def)
  have "contexts_ok G ?nd2"
    unfolding contexts_ok_def
  proof (intro conjI allI impI)
    fix d z assume "nd_ctx ?nd2 d = Some z"
    then have "nd_ctx ?nd1 d = Some z" by simp
    then have "context_ok ?G ?nd1 d z" using old unfolding contexts_ok_def by blast
    then show "context_ok G ?nd2 d z" using le [of d] unfolding context_ok_def by simp
  next
    fix d e y z assume a: "nd_ctx ?nd2 d = Some y" "nd_ctx ?nd2 e = Some z" "sc_queue y = sc_queue z"
    then have "nd_ctx ?nd1 d = Some y" "nd_ctx ?nd1 e = Some z" by simp_all
    then show "d = e" using old a(3) unfolding contexts_ok_def by blast
  next
    have "{d. 0 < G d} \<subseteq> {d. 0 < ?G d}" by auto
    moreover have "registered (nd_handles ?nd1) \<union> {d. 0 < ?G d} \<subseteq> dom (nd_ctx ?nd1)"
      using old unfolding contexts_ok_def by blast
    ultimately show "registered (nd_handles ?nd2) \<union> set_option (nd_remote ?nd2) \<union> {d. 0 < G d} \<subseteq> dom (nd_ctx ?nd2)"
      by auto
  qed
  then have "node_ok G H ?nd2" using nd1 by (simp add: node_ok_def node_simps)
  then show "case harbor_start c nd of Inl e \<Rightarrow> e \<noteq> Out_of_bounds | Inr (u, nd') \<Rightarrow> node_ok G H nd'"
    using x by (simp add: harbor_start_def context_reserve_def context_grab_def context_dec_def op_defs get_ctx_def set_ctx_def)
qed

lemma safe_exec_request:
  assumes "runner_ok run" "0 < G c"
  shows "safe (node_ok G H) (exec_request run S a c) (\<lambda>_. node_ok G H)"
proof -
  have h: "holds G (Some c)" "given (Some c) t s" for t s using assms(2) by (simp_all add: given_def)
  have cb: "safe (node_ok G H) (skynet_callback c ud f) (\<lambda>_. node_ok G H)" for ud f
    unfolding skynet_callback_def
    by (rule safe_update_ctx [where G = G and c = c and f = "\<lambda>x. x\<lparr>sc_cb := Some f, sc_cb_ud := ud\<rparr>", OF assms(2)]) simp
  have remote: "safe (node_ok G H) (isremote d) (\<lambda>_. node_ok G H)" for d
    unfolding isremote_def by (rule safe_bind [OF safe_isremote]) (rule safe_ret)
  show ?thesis
  proof (cases a)
    case (Send source destination type session data sz)
    then show ?thesis by (simp add: exec_request_def) (intro safe_bind [OF safe_send [OF h]] safe_ret)
  next
    case (Sendname source addr type session data sz)
    then show ?thesis by (simp add: exec_request_def) (intro safe_bind [OF safe_sendname [OF h]] safe_ret)
  next
    case (Command name p)
    then show ?thesis by (simp add: exec_request_def) (intro safe_bind [OF safe_command [where G = G and c = c, OF assms]] safe_ret)
  next
    case (Queryname name)
    then show ?thesis by (simp add: exec_request_def) (intro safe_bind [OF safe_queryname [where G = G and c = c, OF assms(2)]] safe_ret)
  next
    case (Isremote d)
    then show ?thesis by (simp add: exec_request_def case_prod_unfold) (intro safe_bind [OF remote] safe_ret)
  next
    case (Callback ud f)
    then show ?thesis by (simp add: exec_request_def) (intro safe_seq' [OF cb] safe_ret)
  next
    case (Error t)
    then show ?thesis by (simp add: exec_request_def) (intro safe_seq' [OF safe_skynet_error [OF h(1)]] safe_ret)
  next
    case Harbor_start
    then show ?thesis by (simp add: exec_request_def) (intro safe_seq' [OF safe_harbor_start [where G = G and c = c, OF assms(2)]] safe_ret)
  next
    case (Malloc bs)
    then show ?thesis by (simp add: exec_request_def) (intro safe_bind [OF safe_heap_alloc] safe_ret)
  next
    case (Load p)
    then show ?thesis by (simp add: exec_request_def) (intro safe_bind [OF safe_heap_load] safe_ret)
  next
    case (Store p bs)
    then show ?thesis by (simp add: exec_request_def) (intro safe_seq' [OF safe_heap_store] safe_ret)
  next
    case (Free p)
    then show ?thesis by (simp add: exec_request_def) (intro safe_seq' [OF safe_heap_free] safe_ret)
  qed
qed

lemma safe_run_program:
  assumes "\<And>a c G H. 0 < G c \<Longrightarrow> safe (node_ok G H) (exe a c) (\<lambda>_. node_ok G H)"
  shows "runner_ok (\<lambda>p. run_program p exe)"
proof -
  have "0 < G c \<Longrightarrow> safe (node_ok G H) (run_program p exe c) (\<lambda>_. node_ok G H)" for p c G H
  proof (induction p)
    case (Return r)
    then show ?case by (simp add: safe_ret)
  next
    case (Call a k)
    show ?case
      unfolding run_program.simps by (rule safe_bind [OF assms]) (use Call in auto)
  qed
  then show ?thesis by (simp add: runner_ok_def)
qed

lemma safe_exec: "0 < G c \<Longrightarrow> safe (node_ok G H) (exec S n a c) (\<lambda>_. node_ok G H)"
proof (induction n arbitrary: a c G H)
  case 0
  then show ?case by (simp add: safe_throw)
next
  case (Suc n)
  have "runner_ok (\<lambda>p. run_program p (exec S n))" by (rule safe_run_program) (rule Suc.IH)
  then show ?case using Suc.prems by (simp add: safe_exec_request)
qed

lemma exec_ok: "runner_ok (\<lambda>p. run_program p (exec S n))"
  by (rule safe_run_program) (rule safe_exec)

section \<open>Dispatching\<close>

lemma safe_read_queue:
  assumes "q \<in> H"
  shows "safe (node_ok G H) (on_mq (\<lambda>s. bind_r (deref s q) (\<lambda>mq. Inr (f mq, s)))) (\<lambda>_. node_ok G H)"
proof (rule safeI)
  fix nd assume nd: "node_ok G H nd"
  then obtain mq where "queues (nd_mq nd) q = Some mq" using assms by (auto simp: node_ok_def sched_inv_def)
  moreover have "nd\<lparr>nd_mq := nd_mq nd\<rparr> = nd" by simp
  ultimately show "case on_mq (\<lambda>s. bind_r (deref s q) (\<lambda>mq. Inr (f mq, s))) nd of
      Inl e \<Rightarrow> e \<noteq> Out_of_bounds | Inr (x, nd') \<Rightarrow> node_ok G H nd'"
    using nd by (simp add: on_mq_def deref_def)
qed

lemma safe_queue_overload:
  assumes "q \<in> H"
  shows "safe (node_ok G H) (queue_overload q) (\<lambda>_. node_ok G H)"
proof (rule safeI)
  fix nd assume nd: "node_ok G H nd"
  then obtain as where i: "sched_inv False (nd_mq nd) H as" by (auto simp: node_ok_def)
  then obtain mq where mq: "queues (nd_mq nd) q = Some mq" using assms by (auto simp: sched_inv_def)
  obtain n mq' where t: "take_overload mq = (n, mq')" by fastforce
  then have mq': "mq_next mq' = mq_next mq" "mq_handle mq' = mq_handle mq" "mq_release mq' = mq_release mq"
      "queue_inv False b mq' = queue_inv False b mq" for b
    by (auto simp: take_overload_def queue_inv_def mq_ok_def messages_def split: if_splits)
  have "queue_inv False (q \<in> set as \<union> H) mq'" using i mq mq'(4) by (simp add: sched_inv_def)
  then have i': "sched_inv False (set_queue q mq' (nd_mq nd)) H as"
    by (intro sched_inv_set [OF i mq mq'(1)]) (use i in \<open>auto simp: sched_inv_def\<close>)
  have "node_ok G H (nd\<lparr>nd_mq := set_queue q mq' (nd_mq nd)\<rparr>)"
    by (rule node_ok_mq [OF nd i' ids_set [OF mq mq'(2,3)]])
  then show "case queue_overload q nd of Inl e \<Rightarrow> e \<noteq> Out_of_bounds | Inr (x, nd') \<Rightarrow> node_ok G H nd'"
    using mq t by (simp add: queue_overload_def on_mq_def deref_def)
qed

lemma safe_trigger: "safe (node_ok G H) (monitor_trigger w s d) (\<lambda>_. node_ok G H)"
  unfolding monitor_trigger_def by (rule safe_modify) (simp add: node_simps)

lemma safe_dispatch_message:
  assumes "runner_ok run" "0 < G c"
  shows "safe (node_ok G H) (ctx_dispatch_message run S c msg) (\<lambda>_. node_ok G H)"
proof -
  have call: "safe (node_ok G H) (bind_o (run p c) (\<lambda>r. if r = 0 then heap_free (msg_data msg) else ret ())) (\<lambda>_. node_ok G H)" for p
    by (rule safe_bind [OF runner_okD [where G = G and c = c, OF assms]]) (intro safe_if safe_heap_free safe_ret)
  show ?thesis
    unfolding ctx_dispatch_message_def Let_def
    by (rule safe_bind [OF safe_get [where G = G and c = c, OF assms(2)]]) (auto intro: safe_throw call split: option.splits)
qed

lemma safe_serve:
  assumes "runner_ok run" "0 < G c" "q \<in> H"
  shows "safe (node_ok G H) (serve run S w q h c msg) (\<lambda>_. node_ok G H)"
proof -
  have log: "safe (node_ok G H) (if n \<noteq> 0 then skynet_error (Some c) t else ret ()) (\<lambda>_. node_ok G H)" for n :: nat and t
    by (intro safe_if safe_skynet_error safe_ret) (simp_all add: assms(2))
  have msg: "safe (node_ok G H) (if sc_cb x = None then heap_free (msg_data msg) else ctx_dispatch_message run S c msg)
      (\<lambda>_. node_ok G H)" for x
    by (intro safe_if safe_heap_free safe_dispatch_message assms)
  show ?thesis
    unfolding serve_def
    by (rule safe_bind [OF safe_queue_overload [OF assms(3)]], rule safe_seq' [OF log], rule safe_seq' [OF safe_trigger],
        rule safe_bind [OF safe_get [where G = G and c = c, OF assms(2)]], rule safe_seq' [OF msg], rule safe_trigger)
qed

lemma safe_serve_more:
  assumes "runner_ok run" "0 < G c" "q \<in> H"
  shows "safe (node_ok G H) (serve_more run S w q h c n) (\<lambda>empty. node_ok G (if empty then H - {q} else H))"
proof (induction n)
  case 0
  then show ?case by (simp add: safe_ret)
next
  case (Suc n)
  have "safe (node_ok G (if m = None then H - {q} else H))
      (case m of None \<Rightarrow> ret True | Some msg \<Rightarrow> seq (serve run S w q h c msg) (serve_more run S w q h c n))
      (\<lambda>empty. node_ok G (if empty then H - {q} else H))" for m
    by (cases m) (auto intro: safe_ret safe_seq' [OF safe_serve [where G = G and c = c, OF assms]] Suc)
  then show ?case by (simp only: serve_more.simps) (rule safe_bind [OF safe_mq_pop [OF assms(3)]])
qed

lemma safe_serve_slice:
  assumes "runner_ok run" "0 < G c" "q \<in> H"
  shows "safe (node_ok G H) (serve_slice run S w q h c weight) (\<lambda>empty. node_ok G (if empty then H - {q} else H))"
proof -
  have len: "safe (node_ok G H) (if 0 \<le> weight then bind_o (queue_length q) (\<lambda>len. ret (len div 2 ^ nat weight)) else ret 1)
      (\<lambda>_. node_ok G H)"
    unfolding queue_length_def
    by (intro safe_if safe_bind [OF safe_read_queue [OF assms(3)]] safe_ret)
  have "safe (node_ok G (if m = None then H - {q} else H))
      (case m of None \<Rightarrow> ret True | Some msg \<Rightarrow>
         bind_o (if 0 \<le> weight then bind_o (queue_length q) (\<lambda>len. ret (len div 2 ^ nat weight)) else ret 1)
           (\<lambda>n. seq (serve run S w q h c msg) (serve_more run S w q h c (n - 1))))
      (\<lambda>empty. node_ok G (if empty then H - {q} else H))" for m
  proof (cases m)
    case None
    then show ?thesis by (simp add: safe_ret)
  next
    case (Some msg)
    have "safe (node_ok G H)
       (bind_o (if 0 \<le> weight then bind_o (queue_length q) (\<lambda>len. ret (len div 2 ^ nat weight)) else ret 1)
           (\<lambda>n. seq (serve run S w q h c msg) (serve_more run S w q h c (n - 1))))
       (\<lambda>empty. node_ok G (if empty then H - {q} else H))"
      by (rule safe_bind [OF len], rule safe_seq' [OF safe_serve [where G = G and c = c, OF assms]],
          rule safe_serve_more [where G = G and c = c, OF assms])
    then show ?thesis unfolding Some option.simps by simp
  qed
  then show ?thesis unfolding serve_slice_def by (rule safe_bind [OF safe_mq_pop [OF assms(3)]])
qed

lemma safe_dispatch_queue:
  assumes "runner_ok run" "q \<notin> H"
  shows "safe (node_ok G (insert q H)) (dispatch_queue run S w q weight)
    (\<lambda>r nd. node_ok G (H \<union> set_option r) nd \<and> set_option r \<inter> H = {})"
proof -
  have H: "insert q H - {q} = H" using assms(2) by simp
  let ?post = "\<lambda>r nd. node_ok G (H \<union> set_option r) nd \<and> set_option r \<inter> H = {}"
  have drop: "safe (node_ok G (insert q H)) (seq (node_mq_release q h) (on_mq globalmq_pop)) ?post" for h
    by (rule safe_seq' [OF safe_node_mq_release]) (simp_all only: insertI1 H safe_globalmq_pop)
  have finished: "safe (node_ok (G(c := Suc (G c))) H) (seq (context_release c) (on_mq globalmq_pop)) ?post" for c
    by (rule safe_release_seq [OF safe_globalmq_pop])
  have switch: "safe (node_ok (G(c := Suc (G c))) (insert q H))
      (bind_o (on_mq globalmq_pop) (\<lambda>nq. seq (if nq \<noteq> None then do_mq (globalmq_push q) else ret ())
         (seq (context_release c) (ret (if nq \<noteq> None then nq else Some q))))) ?post" for c
  proof (rule safe_bind [OF safe_globalmq_pop])
    fix nq :: "nat option"
    let ?G = "G(c := Suc (G c))"
    show "safe (\<lambda>nd. node_ok ?G (insert q H \<union> set_option nq) nd \<and> set_option nq \<inter> insert q H = {})
        (seq (if nq \<noteq> None then do_mq (globalmq_push q) else ret ()) (seq (context_release c) (ret (if nq \<noteq> None then nq else Some q)))) ?post"
    proof (cases nq)
      case None
      have "safe (node_ok ?G (insert q H)) (seq (ret ()) (seq (context_release c) (ret (Some q)))) ?post"
        by (rule safe_seq', rule safe_ret, assumption, rule safe_release_seq, rule safe_ret) (use assms(2) in simp)
      then show ?thesis using None by simp
    next
      case (Some b)
      have "safe (node_ok ?G (insert b (insert q H))) (seq (do_mq (globalmq_push q)) (seq (context_release c) (ret (Some b)))) ?post"
        if b: "b \<notin> insert q H"
      proof -
        have eq: "insert b (insert q H) - {q} = insert b H" using b assms(2) by auto
        show ?thesis
          by (rule safe_seq' [OF safe_globalmq_push [where q = q]], simp, unfold eq, rule safe_release_seq, rule safe_ret)
             (use b in simp)
      qed
      then show ?thesis using Some by (cases "b \<in> insert q H") (auto simp: triple_def insert_commute)
    qed
  qed
  have slice: "safe (node_ok (G(c := Suc (G c))) (insert q H))
      (bind_o (serve_slice run S w q h c weight) (\<lambda>empty.
         if empty then seq (context_release c) (on_mq globalmq_pop)
         else bind_o (get_ctx c) (\<lambda>x. if q \<noteq> sc_queue x then throw Assert_failed
           else bind_o (on_mq globalmq_pop) (\<lambda>nq. seq (if nq \<noteq> None then do_mq (globalmq_push q) else ret ())
             (seq (context_release c) (ret (if nq \<noteq> None then nq else Some q))))))) ?post" for h c
  proof (rule safe_bind [OF safe_serve_slice [OF assms(1)]])
    fix empty
    let ?G = "G(c := Suc (G c))"
    have run_on: "safe (node_ok ?G (insert q H)) (bind_o (get_ctx c) (\<lambda>x. if q \<noteq> sc_queue x then throw Assert_failed
           else bind_o (on_mq globalmq_pop) (\<lambda>nq. seq (if nq \<noteq> None then do_mq (globalmq_push q) else ret ())
             (seq (context_release c) (ret (if nq \<noteq> None then nq else Some q)))))) ?post"
      by (rule safe_bind [OF safe_get], simp, intro safe_if safe_throw switch, simp)
    show "safe (node_ok ?G (if empty then insert q H - {q} else insert q H))
       (if empty then seq (context_release c) (on_mq globalmq_pop)
         else bind_o (get_ctx c) (\<lambda>x. if q \<noteq> sc_queue x then throw Assert_failed
           else bind_o (on_mq globalmq_pop) (\<lambda>nq. seq (if nq \<noteq> None then do_mq (globalmq_push q) else ret ())
             (seq (context_release c) (ret (if nq \<noteq> None then nq else Some q)))))) ?post"
      unfolding H using finished run_on by (cases empty) simp_all
  qed simp_all
  have "safe (node_ok (grabbed G r) (insert q H))
      (case r of None \<Rightarrow> seq (node_mq_release q h) (on_mq globalmq_pop)
       | Some c \<Rightarrow> bind_o (serve_slice run S w q h c weight) (\<lambda>empty.
         if empty then seq (context_release c) (on_mq globalmq_pop)
         else bind_o (get_ctx c) (\<lambda>x. if q \<noteq> sc_queue x then throw Assert_failed
           else bind_o (on_mq globalmq_pop) (\<lambda>nq. seq (if nq \<noteq> None then do_mq (globalmq_push q) else ret ())
             (seq (context_release c) (ret (if nq \<noteq> None then nq else Some q))))))) ?post" for r h
    using drop slice by (cases r) simp_all
  then show ?thesis
    unfolding dispatch_queue_def
    by (intro safe_bind [OF safe_read_queue] safe_bind [OF safe_node_grab]) simp_all
qed

lemma safe_message_dispatch:
  assumes "runner_ok run" "set_option q \<inter> H = {}"
  shows "safe (node_ok G (H \<union> set_option q)) (message_dispatch run S w q weight)
    (\<lambda>r nd. node_ok G (H \<union> set_option r) nd \<and> set_option r \<inter> H = {})"
proof (cases q)
  case (Some a)
  then show ?thesis using safe_dispatch_queue [OF assms(1), of a H G S w weight] assms(2) by (simp add: message_dispatch_def)
next
  case None
  have "safe (\<lambda>nd. node_ok G (H \<union> set_option r) nd \<and> set_option r \<inter> H = {})
      (case r of None \<Rightarrow> ret None | Some a \<Rightarrow> dispatch_queue run S w a weight)
      (\<lambda>r nd. node_ok G (H \<union> set_option r) nd \<and> set_option r \<inter> H = {})" for r
  proof (cases r)
    case None
    then show ?thesis by (auto intro: safe_ret)
  next
    case (Some a)
    then show ?thesis
      using safe_dispatch_queue [OF assms(1), of a H G S w weight] by (cases "a \<in> H") (auto simp: triple_def)
  qed
  then show ?thesis using None by (simp add: message_dispatch_def safe_bind [OF safe_globalmq_pop])
qed

section \<open>The node and its threads\<close>

lemma safe_push_all: "safe (node_ok G H) (push_all_to ms) (\<lambda>_. node_ok G H)"
  by (induction ms rule: push_all_to.induct) (auto intro: safe_ret safe_seq' [OF safe_context_push])

lemma safe_updatetime: "safe (node_ok G H) (node_updatetime cp) (\<lambda>_. node_ok G H)"
proof (rule safeI)
  fix nd assume nd: "node_ok G H nd"
  show "case node_updatetime cp nd of Inl e \<Rightarrow> e \<noteq> Out_of_bounds | Inr (u, nd') \<Rightarrow> node_ok G H nd'"
  proof (cases "updatetime cp (nd_timer nd)")
    case None
    then show ?thesis by (simp add: node_updatetime_def)
  next
    case (Some r)
    obtain wrong nss T where r: "r = (wrong, nss, T)" by (cases r)
    have "safe (node_ok G H) (seq (if wrong then skynet_error None t else ret ()) (push_all_to ms)) (\<lambda>_. node_ok G H)" for t ms
      by (rule safe_seq' [where R = "node_ok G H"], intro safe_if safe_skynet_error safe_ret; simp add: safe_push_all)
    from safe_run [OF this] have "case seq (if wrong then skynet_error None t else ret ()) (push_all_to ms) (nd\<lparr>nd_timer := T\<rparr>) of
        Inl e \<Rightarrow> e \<noteq> Out_of_bounds | Inr (u, nd') \<Rightarrow> node_ok G H nd'" for t ms
      using nd by (simp only: node_simps)
    then show ?thesis unfolding node_updatetime_def Some r option.simps prod.case .
  qed
qed

lemma safe_monitor_check: "safe (node_ok G H) (monitor_check w) (\<lambda>_. node_ok G H)"
  unfolding monitor_check_def
  by (rule safe_bind [where R = "\<lambda>_. node_ok G H"], rule safe_gets, assumption)
     (intro safe_if safe_seq' [OF safe_context_endless] safe_skynet_error safe_ret safe_modify_irrelevant; simp)

text \<open>
  The whole node while it runs; every step is atomic, also a whole slice of a worker and the launch of a
  service, so that races inside of a step are not covered. \<open>hold w\<close> is the queue that the worker thread \<open>w\<close> holds between two calls
  of \<open>skynet_context_message_dispatch\<close>. The steps are the calls that the threads of \<open>skynet_start.c\<close> make:
  a slice of a worker, a tick of the timer thread, a message of the socket thread, a check of the
  monitor thread, and the launch of a service by the main thread. \<open>n\<close> is the fuel of the programs.
\<close>

inductive node_step :: "services \<Rightarrow> nat \<Rightarrow> node \<times> (nat \<Rightarrow> nat option) \<Rightarrow> node \<times> (nat \<Rightarrow> nat option) \<Rightarrow> bool"
  for S :: services and n :: nat where
  worker: "message_dispatch (\<lambda>p. run_program p (exec S n)) S w (hold w) weight nd = Inr (q, nd') \<Longrightarrow>
    node_step S n (nd, hold) (nd', hold(w := q))"
| timer: "node_updatetime cp nd = Inr ((), nd') \<Longrightarrow> node_step S n (nd, hold) (nd', hold)"
| socket: "bind_o (heap_alloc (Bytes bs)) (\<lambda>a. context_push handle (m\<lparr>msg_data := Some a\<rparr>)) nd = Inr (r, nd') \<Longrightarrow>
    node_step S n (nd, hold) (nd', hold)"
| monitor: "monitor_check w nd = Inr ((), nd') \<Longrightarrow> node_step S n (nd, hold) (nd', hold)"
| launch: "context_new (\<lambda>p. run_program p (exec S n)) S name param nd = Inr (r, nd') \<Longrightarrow>
    node_step S n (nd, hold) (nd', hold)"

text \<open>The node after the initialisations of \<open>skynet_start\<close>, with the number \<open>harbor\<close> and no module loaded.\<close>

definition node_init :: "u32 \<Rightarrow> node" where
  "node_init harbor =
     \<lparr>nd_ctx = (\<lambda>_. None), nd_total = 0, nd_mq = mq_init, nd_handles = handle_init harbor, nd_monitor_exit = 0,
      nd_remote = None, nd_harbor = push_bit HANDLE_REMOTE_SHIFT harbor, nd_logger = 0, nd_timer = timer_create_timer,
      nd_env = (\<lambda>_. None), nd_monitor = (\<lambda>_. \<lparr>sm_version = 0, sm_check_version = 0, sm_source = 0, sm_destination = 0\<rparr>),
      nd_heap = (\<lambda>_. None), nd_next = 0, nd_release = (\<lambda>_ _ _. [])\<rparr>"

inductive node_reachable :: "services \<Rightarrow> nat \<Rightarrow> u32 \<Rightarrow> node \<times> (nat \<Rightarrow> nat option) \<Rightarrow> bool"
  for S :: services and n :: nat and harbor :: u32 where
  start: "node_reachable S n harbor ((node_init harbor)\<lparr>nd_release := sv_release S\<rparr>, \<lambda>_. None)"
| go: "node_reachable S n harbor w \<Longrightarrow> node_step S n w w' \<Longrightarrow> node_reachable S n harbor w'"

inductive_cases node_stepE: "node_step S n (nd, hold) w'"

definition holding :: "(nat \<Rightarrow> nat option) \<Rightarrow> nat set" where
  "holding hold = {q. \<exists>w. hold w = Some q}"

definition one_holder :: "(nat \<Rightarrow> nat option) \<Rightarrow> bool" where
  "one_holder hold = (\<forall>v w q. hold v = Some q \<longrightarrow> hold w = Some q \<longrightarrow> v = w)"

definition others :: "(nat \<Rightarrow> nat option) \<Rightarrow> nat \<Rightarrow> nat set" where
  "others hold w = {q. \<exists>v. v \<noteq> w \<and> hold v = Some q}"

lemma holding_split: "holding hold = others hold w \<union> set_option (hold w)"
  by (auto simp: holding_def others_def)

lemma others_disjoint: "one_holder hold \<Longrightarrow> set_option (hold w) \<inter> others hold w = {}"
  by (auto simp: one_holder_def others_def)

lemma others_upd: "others (hold(w := q)) w = others hold w"
  by (auto simp: others_def)

lemma one_holder_upd: "one_holder hold \<Longrightarrow> set_option q \<inter> others hold w = {} \<Longrightarrow> one_holder (hold(w := q))"
  unfolding one_holder_def others_def by (simp split: if_splits) blast

lemma handle_init_harbor: "push_bit HANDLE_REMOTE_SHIFT (harbor AND 0xff) AND HANDLE_MASK = 0"
proof -
  have m: "HANDLE_MASK = mask 24" by (simp add: HANDLE_MASK_def mask_eq_exp_minus_1)
  have "\<not> bit (push_bit HANDLE_REMOTE_SHIFT x AND HANDLE_MASK) k" for x :: u32 and k
    unfolding m HANDLE_REMOTE_SHIFT_def bit_and_iff bit_push_bit_iff bit_mask_iff by auto
  then show ?thesis by (intro bit_word_eqI) (simp only: bit_0_eq bot_apply bot_bool_def simp_thms)
qed

lemma node_init_ok: "node_ok (\<lambda>_. 0) {} (node_init harbor)"
proof -
  have "table_ok 2 (hof (node_init harbor)) (handle_init harbor)"
    using handle_init_harbor [of harbor] by (simp add: table_ok_def handle_init_def DEFAULT_SLOT_SIZE_def)
  moreover have "registered (handle_init harbor) = {}"
    by (simp add: registered_def handle_init_def DEFAULT_SLOT_SIZE_def)
  moreover have "names_ok (handle_init harbor)" by (simp add: names_ok_def names_def handle_init_def)
  moreover have "sched_inv False mq_init {} []" by (simp add: sched_inv_def global_ok_def mq_init_def)
  ultimately show ?thesis
    by (auto simp: node_ok_def contexts_ok_def node_init_def mq_init_def)
qed

lemma node_step_ok:
  assumes "node_step S n (nd, hold) (nd', hold')" "one_holder hold" "node_ok (\<lambda>_. 0) (holding hold) nd"
  shows "one_holder hold' \<and> node_ok (\<lambda>_. 0) (holding hold') nd'"
  using assms(1)
proof (cases rule: node_step.cases)
  case (worker w weight q)
  note d = others_disjoint [OF assms(2), of w]
  have "node_ok (\<lambda>_. 0) (others hold w \<union> set_option (hold w)) nd" using assms(3) by (simp add: holding_split [of hold w])
  from safe_run [OF safe_message_dispatch [OF exec_ok d] this, of S n S w weight] worker
  have "node_ok (\<lambda>_. 0) (others hold w \<union> set_option q) nd'" "set_option q \<inter> others hold w = {}" by simp_all
  then show ?thesis
    using worker one_holder_upd [OF assms(2)] by (simp add: holding_split [of "hold(w := q)" w] others_upd)
next
  case (timer cp)
  then show ?thesis using safe_run [OF safe_updatetime assms(3), of cp] assms(2) by simp
next
  case (socket bs handle m r)
  have "safe (node_ok G H) (bind_o (heap_alloc (Bytes bs)) (\<lambda>a. context_push handle (m\<lparr>msg_data := Some a\<rparr>))) (\<lambda>_. node_ok G H)" for G H
    by (rule safe_bind [OF safe_heap_alloc]) (rule safe_context_push)
  from safe_run [OF this assms(3)] show ?thesis using socket assms(2) by simp
next
  case (monitor w)
  then show ?thesis using safe_run [OF safe_monitor_check assms(3), of w] assms(2) by simp
next
  case (launch name param r)
  then show ?thesis using safe_run [OF safe_context_new [OF exec_ok] assms(3), of S n S name param] assms(2) by simp
qed

lemma node_reachable_ok:
  assumes "node_reachable S n harbor w"
  shows "one_holder (snd w) \<and> node_ok (\<lambda>_. 0) (holding (snd w)) (fst w)"
  using assms
proof (induction rule: node_reachable.induct)
  case start
  show ?case using node_init_ok by (simp add: one_holder_def holding_def node_simps)
next
  case (go w w')
  then show ?case using node_step_ok by (cases w; cases w') auto
qed

end
