(* ===== verification/Runtime.thy ===== *)
theory Runtime
  imports Node
begin

text \<open>
  What the runtime of a node guarantees: messages reach the inbox of the service they are sent to and
  are delivered with the type, size and data they were sent with, nothing leaks on the error paths but
  where the properties say so, session numbers are positive and do not repeat, timers wake the service
  that asked for them.
\<close>

section \<open>Sending and dispatching\<close>



text \<open>The messages that wait for a service.\<close>

definition inbox :: "node \<Rightarrow> nat \<Rightarrow> skynet_message list" where
  "inbox nd c = (case nd_ctx nd c of None \<Rightarrow> []
     | Some x \<Rightarrow> (case queues (nd_mq nd) (sc_queue x) of None \<Rightarrow> [] | Some q \<Rightarrow> messages q))"

text \<open>A handle of this node.\<close>

definition here :: "node \<Rightarrow> u32 \<Rightarrow> bool" where
  "here nd handle = (nd_harbor nd \<noteq> - 1 \<and> (handle AND NOT HANDLE_MASK = nd_harbor nd \<or> handle AND NOT HANDLE_MASK = 0))"

lemma message_isremote_here: "here nd handle \<Longrightarrow> message_isremote handle nd = Inr (False, nd)"
  by (auto simp: message_isremote_def here_def op_defs)


text \<open>The type in the high byte of a size.\<close>

definition typed :: "u64 \<Rightarrow> u32 \<Rightarrow> u64" where
  "typed sz type = sz OR push_bit MESSAGE_TYPE_SHIFT (ucast (type AND 0xff))"




text \<open>What \<open>_filter_args\<close> makes of the data: a copy with a final 0, or the data itself.\<close>

lemma filter_args_copy:
  assumes "type AND PTYPE_TAG_DONTCOPY = 0" "type AND PTYPE_TAG_ALLOCSESSION = 0"
    "nd_heap nd a = Some (Bytes bs)" "unat sz \<le> length bs"
  shows "filter_args ctx type session (Some a) sz nd =
    Inr ((session, Some (nd_next nd), typed sz type),
         nd\<lparr>nd_heap := (nd_heap nd)(nd_next nd \<mapsto> Bytes (take (unat sz) bs @ [0])), nd_next := nd_next nd + 1\<rparr>)"
  using assms
  by (simp add: filter_args_def filter_session_def filter_payload_def heap_bytes_def heap_load_def heap_alloc_def op_defs typed_def)

lemma filter_args_own:
  assumes "type AND PTYPE_TAG_DONTCOPY \<noteq> 0" "type AND PTYPE_TAG_ALLOCSESSION = 0"
  shows "filter_args ctx type session data sz nd = Inr ((session, data, typed sz type), nd)"
  using assms by (cases data) (simp_all add: filter_args_def filter_session_def filter_payload_def op_defs typed_def)

lemma node_ok_alloc:
  assumes "node_ok G H nd"
  shows "node_ok G H (nd\<lparr>nd_heap := (nd_heap nd)(nd_next nd \<mapsto> b), nd_next := nd_next nd + 1\<rparr>)"
  using safe_run [OF safe_heap_alloc assms, of b] by (simp add: heap_alloc_def)

lemma heap_fresh: "node_ok G H nd \<Longrightarrow> nd_heap nd (nd_next nd) = None"
  by (force simp: node_ok_def)

lemma own_handle_given: "source \<noteq> 0 \<Longrightarrow> own_handle ctx source nd = Inr (source, nd)"
  by (simp add: own_handle_def ret_def)

lemma inbox_cong: "nd_ctx nd' = nd_ctx nd \<Longrightarrow> nd_mq nd' = nd_mq nd \<Longrightarrow> inbox nd' = inbox nd"
  by (simp add: inbox_def fun_eq_iff split: option.split)

lemma inbox_updates [node_simps]:
  "inbox (nd\<lparr>nd_heap := h\<rparr>) = inbox nd" "inbox (nd\<lparr>nd_next := n\<rparr>) = inbox nd"
  by (rule inbox_cong; simp)+

lemma here_alloc:
  "here (nd\<lparr>nd_heap := h, nd_next := n\<rparr>) d = here nd d" "hof (nd\<lparr>nd_heap := h, nd_next := n\<rparr>) = hof nd"
  "inbox (nd\<lparr>nd_heap := h, nd_next := n\<rparr>) = inbox nd"
  by (simp_all add: here_def node_simps)

text \<open>The part of \<open>skynet_send\<close> behind \<open>_filter_args\<close>, for a destination on this node.\<close>

lemma send_local:
  assumes "sz AND MESSAGE_TYPE_MASK = sz" "source \<noteq> 0" "destination \<noteq> 0"
    "filter_args ctx type session data sz nd = Inr ((session', data', sz'), nd1)" "here nd1 destination"
  shows "skynet_send ctx source destination type session data sz nd =
    bind_o (context_push destination \<lparr>msg_source = source, msg_session = session', msg_data = data', msg_sz = sz'\<rparr>)
      (\<lambda>r. if r \<noteq> 0 then seq (heap_free data') (ret (- 1)) else ret session') nd1"
  using assms by (simp add: skynet_send_def bind_o_def own_handle_given message_isremote_here)

















section \<open>Properties\<close>


text \<open>
  A message for a handle of the node that no service has is refused with -1 and leaves no trace: the
  copy that was made is freed, and data that the sender gave away is freed for it. No inbox changes.
\<close>
theorem send_to_nobody:
  assumes "node_ok G H nd" "handle_grab (hof nd) destination (nd_handles nd) = None" "here nd destination"
    "destination \<noteq> 0" "source \<noteq> 0" "type AND PTYPE_TAG_ALLOCSESSION = 0"
    "sz AND MESSAGE_TYPE_MASK = sz" "nd_heap nd a = Some (Bytes bs)" "unat sz \<le> length bs"
  shows "\<exists>nd'. skynet_send ctx source destination type session (Some a) sz nd = Inr (- 1, nd') \<and>
    inbox nd' = inbox nd \<and> nd_ctx nd' = nd_ctx nd \<and>
    nd_heap nd' = (if type AND PTYPE_TAG_DONTCOPY = 0 then nd_heap nd else (nd_heap nd)(a := None))"
proof (cases "type AND PTYPE_TAG_DONTCOPY = 0")
  case True
  let ?nd = "nd\<lparr>nd_heap := (nd_heap nd)(nd_next nd \<mapsto> Bytes (take (unat sz) bs @ [0])), nd_next := nd_next nd + 1\<rparr>"
  have none: "handle_grab (hof ?nd) destination (nd_handles ?nd) = None" using assms(2) by (simp add: here_alloc)
  have "(nd_heap nd)(nd_next nd := None) = nd_heap nd" using heap_fresh [OF assms(1)] by (rule fun_upd_idem)
  then have "skynet_send ctx source destination type session (Some a) sz nd =
      Inr (- 1, ?nd\<lparr>nd_heap := nd_heap nd\<rparr>)"
    using send_local [OF assms(7,5,4) filter_args_copy [where ctx = ctx, OF True assms(6,8,9)]] assms(3)
      context_push_none [OF none]
    by (simp add: here_alloc bind_o_def seq_def ret_def heap_free_def)
  then show ?thesis using True by (simp add: node_simps)
next
  case False
  have "skynet_send ctx source destination type session (Some a) sz nd =
      Inr (- 1, nd\<lparr>nd_heap := (nd_heap nd)(a := None)\<rparr>)"
    using send_local [OF assms(7,5,4) filter_args_own [where ctx = ctx, OF False assms(6)] assms(3)] assms(8)
      context_push_none [OF assms(2)]
    by (simp add: bind_o_def seq_def ret_def heap_free_def)
  then show ?thesis using False by (simp add: node_simps)
qed

text \<open>
  C40: What a service sends to the destination 0 is lost and never freed: \<open>skynet_send\<close> copies the data
  before it looks at the destination, then returns the session; the copy is in no inbox and its address
  is known to nobody. Data that the sender gave away stays allocated as well.
\<close>
theorem send_to_zero_leaks:
  assumes "node_ok G H nd" "source \<noteq> 0" "type AND PTYPE_TAG_ALLOCSESSION = 0"
    "sz AND MESSAGE_TYPE_MASK = sz" "nd_heap nd a = Some (Bytes bs)" "unat sz \<le> length bs"
  shows "\<exists>nd'. skynet_send ctx source 0 type session (Some a) sz nd = Inr (session, nd') \<and>
    inbox nd' = inbox nd \<and> nd_heap nd (nd_next nd) = None \<and>
    nd_heap nd' = (if type AND PTYPE_TAG_DONTCOPY = 0
      then (nd_heap nd)(nd_next nd \<mapsto> Bytes (take (unat sz) bs @ [0])) else nd_heap nd)"
proof (cases "type AND PTYPE_TAG_DONTCOPY = 0")
  case True
  show ?thesis
    using filter_args_copy [where ctx = ctx, OF True assms(3,5,6), of session] assms(2,4) True heap_fresh [OF assms(1)]
    by (simp add: skynet_send_def bind_o_def own_handle_given ret_def here_alloc)
next
  case False
  show ?thesis
    using filter_args_own [where ctx = ctx and nd = nd and data = "Some a" and sz = sz and session = session, OF False assms(3)]
      assms(2,4) False heap_fresh [OF assms(1)]
    by (simp add: skynet_send_def bind_o_def own_handle_given ret_def)
qed

section \<open>A concrete node\<close>

text \<open>A node with one service, which runs, and with three bytes of data.\<close>

definition one_service :: node where
  "one_service = (node_init 1)
     \<lparr>nd_ctx := [0 \<mapsto> (new_context 0 0)\<lparr>sc_handle := 0x01000001, sc_queue := 1\<rparr>], nd_total := 1,
      nd_mq := set_queue 1 (mq_create 0x01000001) mq_init,
      nd_handles := (handle_init 1)\<lparr>hs_index := 2, hs_slot := [None, Some 0, None, None]\<rparr>, nd_next := 2\<rparr>"

definition one_message :: node where
  "one_message = one_service\<lparr>nd_heap := [2 \<mapsto> Bytes [1, 2, 3]], nd_next := 3\<rparr>"

lemma one_service_created: "context_create 0 0 (node_init 1) = Inr (0, one_service)"
proof -
  have slot: "slot_of 4 1 = 1" "slot_of (Suc (Suc (Suc (Suc 0)))) 1 = 1" by (simp_all add: slot_of_def)
  have find: "find_slot (handle_init 1) 0 (length (hs_slot (handle_init 1))) = Some (1, 1)"
    by (simp add: handle_init_def DEFAULT_SLOT_SIZE_def HANDLE_MASK_def slot numeral_eq_Suc Let_def)
  have "handle_register f 0 (handle_init 1) =
      Some (Inr (0x01000001, (handle_init 1)\<lparr>hs_index := 2, hs_slot := [None, Some 0, None, None]\<rparr>))" for f
    unfolding register_unfold [OF find]
    by (simp add: handle_init_def HANDLE_REMOTE_SHIFT_def DEFAULT_SLOT_SIZE_def numeral_eq_Suc)
  then show ?thesis
    by (simp add: context_create_def fresh_def node_register_def op_defs set_ctx_def context_inc_def one_service_def
        node_init_def fun_upd_def fun_eq_iff)
qed

abbreviation held_once :: "nat \<Rightarrow> nat" where
  "held_once \<equiv> (\<lambda>_. 0)(0 := Suc 0)"

lemma one_service_ok: "node_ok held_once {1} one_service"
  using safe_run [OF safe_create node_init_ok, of 0 0 1] unfolding one_service_created
  by (simp add: one_service_def)

lemma one_message_ok: "node_ok held_once {1} one_message"
proof -
  have "one_message = one_service\<lparr>nd_heap := (nd_heap one_service)(nd_next one_service \<mapsto> Bytes [1, 2, 3]),
      nd_next := nd_next one_service + 1\<rparr>"
    by (simp add: one_message_def one_service_def node_init_def)
  then show ?thesis using node_ok_alloc [OF one_service_ok] by metis
qed

lemma three_bytes: "(3 :: u64) AND MESSAGE_TYPE_MASK = 3" "unat (3 :: u64) \<le> length [1 :: byte, 2, 3]"
  by (simp_all add: MESSAGE_TYPE_MASK_def mask_eq_exp_minus_1)

lemma one_message_facts:
  "handle_grab (hof one_message) 0x01000001 (nd_handles one_message) = Some 0"
  "handle_grab (hof one_message) 0x01000002 (nd_handles one_message) = None"
  "here one_message 0x01000001" "here one_message 0x01000002"
  "nd_heap one_message 2 = Some (Bytes [1, 2, 3])"
proof -
  have s: "slot_of (Suc (Suc (Suc (Suc 0)))) 0x01000001 = 1" "slot_of (Suc (Suc (Suc (Suc 0)))) 0x01000002 = 2"
    by (simp_all add: slot_of_def)
  have h: "nd_handles one_message = (handle_init 1)\<lparr>hs_index := 2, hs_slot := [None, Some 0, None, None]\<rparr>"
    "hof one_message 0 = 0x01000001"
    by (simp_all add: one_message_def one_service_def hof_def)
  show "handle_grab (hof one_message) 0x01000001 (nd_handles one_message) = Some 0"
    "handle_grab (hof one_message) 0x01000002 (nd_handles one_message) = None"
    using s h(2) by (simp_all add: handle_grab_def h(1))
  show "here one_message 0x01000001" "here one_message 0x01000002"
    by (simp_all add: here_def one_message_def one_service_def node_init_def HANDLE_MASK_def HANDLE_REMOTE_SHIFT_def)
  show "nd_heap one_message 2 = Some (Bytes [1, 2, 3])" by (simp add: one_message_def)
qed






theorem send_to_nobody_witness:
  "\<exists>nd'. skynet_send (Some 0) 7 0x01000002 0x1000a 5 (Some 2) 3 one_message = Inr (- 1, nd') \<and>
    inbox nd' = inbox one_message \<and> nd_ctx nd' = nd_ctx one_message \<and>
    nd_heap nd' = (if 0x1000a AND PTYPE_TAG_DONTCOPY = 0 then nd_heap one_message else (nd_heap one_message)(2 := None))"
  by (rule send_to_nobody [OF one_message_ok one_message_facts(2,4)])
     (simp_all only: one_message_facts three_bytes, simp_all add: PTYPE_TAG_ALLOCSESSION_def)

theorem send_to_zero_leaks_witness:
  "\<exists>nd'. skynet_send (Some 0) 7 0 10 5 (Some 2) 3 one_message = Inr (5, nd') \<and>
    inbox nd' = inbox one_message \<and> nd_heap one_message (nd_next one_message) = None \<and>
    nd_heap nd' = (if 10 AND PTYPE_TAG_DONTCOPY = 0
      then (nd_heap one_message)(nd_next one_message \<mapsto> Bytes (take (unat (3 :: u64)) [1, 2, 3] @ [0])) else nd_heap one_message)"
  by (rule send_to_zero_leaks [OF one_message_ok])
     (simp_all only: one_message_facts three_bytes, simp_all add: PTYPE_TAG_ALLOCSESSION_def)



section \<open>Memory safety\<close>




section \<open>Sessions\<close>

text \<open>\<open>k\<close> calls of \<open>skynet_context_newsession\<close>.\<close>

fun newsessions :: "nat \<Rightarrow> nat \<Rightarrow> u32 list op" where
  "newsessions c 0 = ret []"
| "newsessions c (Suc k) = bind_o (context_newsession c) (\<lambda>s. bind_o (newsessions c k) (\<lambda>ss. ret (s # ss)))"

lemma sint_positive: "0 < sint (w :: u32) \<longleftrightarrow> 0 < unat w \<and> unat w < 2 ^ 31"
proof
  assume p: "0 < sint w"
  then have "unat w < 2 ^ (LENGTH(32) - 1)" by (intro unat_sint_nonneg) simp
  moreover have "0 < unat w" using p by (cases "w = 0") (simp_all add: unat_gt_0)
  ultimately show "0 < unat w \<and> unat w < 2 ^ 31" by simp
next
  assume "0 < unat w \<and> unat w < 2 ^ 31"
  moreover from this have "sint w = int (unat w)" by (intro sint_small) simp
  ultimately show "0 < sint w" by (simp only: of_nat_0_less_iff)
qed

lemma unat_inc: "unat (w :: u32) < 2 ^ 32 - 1 \<Longrightarrow> unat (w + 1) = unat w + 1"
  by (simp add: unat_word_ariths)

lemma newsession_spec:
  assumes "nd_ctx nd c = Some x" "unat (sc_session_id x) < 2 ^ 31"
  shows "\<exists>s. context_newsession c nd = Inr (s, nd\<lparr>nd_ctx := (nd_ctx nd)(c \<mapsto> x\<lparr>sc_session_id := s\<rparr>)\<rparr>) \<and>
    unat s = unat (sc_session_id x) mod (2 ^ 31 - 1) + 1"
proof (cases "unat (sc_session_id x) = 2 ^ 31 - 1")
  case True
  have "unat (sc_session_id x + 1) = unat (sc_session_id x) + 1" using True by (intro unat_inc) simp
  then have "\<not> 0 < sint (sc_session_id x + 1)" using True by (simp add: sint_positive)
  then show ?thesis using assms(1) True
    by (simp add: context_newsession_def op_defs get_ctx_def set_ctx_def Let_def not_less)
next
  case False
  then have l: "unat (sc_session_id x) < 2 ^ 31 - 1" using assms(2) by simp
  have u: "unat (sc_session_id x + 1) = unat (sc_session_id x) + 1" using l by (intro unat_inc) simp
  then have "0 < sint (sc_session_id x + 1)" using l by (simp add: sint_positive)
  then show ?thesis using assms(1) u l
    by (simp add: context_newsession_def op_defs get_ctx_def set_ctx_def Let_def not_le)
qed

lemma newsessions_spec:
  assumes "nd_ctx nd c = Some x" "unat (sc_session_id x) < 2 ^ 31"
  shows "\<exists>ss nd'. newsessions c k nd = Inr (ss, nd') \<and> length ss = k \<and>
    (\<forall>i < k. unat (ss ! i) = (unat (sc_session_id x) + i) mod (2 ^ 31 - 1) + 1)"
  using assms
proof (induction k arbitrary: nd x)
  case 0
  then show ?case by (simp add: ret_def)
next
  case (Suc k)
  let ?M = "2 ^ 31 - 1 :: nat"
  obtain s where s: "context_newsession c nd = Inr (s, nd\<lparr>nd_ctx := (nd_ctx nd)(c \<mapsto> x\<lparr>sc_session_id := s\<rparr>)\<rparr>)"
    "unat s = unat (sc_session_id x) mod ?M + 1"
    using newsession_spec [OF Suc.prems] by blast
  let ?nd = "nd\<lparr>nd_ctx := (nd_ctx nd)(c \<mapsto> x\<lparr>sc_session_id := s\<rparr>)\<rparr>" and ?x = "x\<lparr>sc_session_id := s\<rparr>"
  have "unat (sc_session_id x) mod ?M < ?M" by (rule mod_less_divisor) simp
  then have "unat (sc_session_id ?x) < 2 ^ 31" using s(2) by simp
  then obtain ss nd' where r: "newsessions c k ?nd = Inr (ss, nd')" "length ss = k"
    "\<forall>i < k. unat (ss ! i) = (unat s + i) mod ?M + 1"
    using Suc.IH [of ?nd ?x] by auto
  have "unat ((s # ss) ! i) = (unat (sc_session_id x) + i) mod ?M + 1" if "i < Suc k" for i
  proof (cases i)
    case 0
    then show ?thesis using s(2) by simp
  next
    case (Suc j)
    then have "unat ((s # ss) ! i) = (unat (sc_session_id x) mod ?M + 1 + j) mod ?M + 1" using r(3) s(2) that by simp
    also have "(unat (sc_session_id x) mod ?M + 1 + j) mod ?M = (unat (sc_session_id x) + (1 + j)) mod ?M"
      by (metis add.assoc mod_add_left_eq)
    finally show ?thesis using Suc by simp
  qed
  then show ?case using s(1) r(1,2) by (intro exI [of _ "s # ss"]) (simp add: bind_o_def ret_def)
qed

text \<open>
  C19: Session numbers are positive, and a service whose number has wrapped around goes on with 1: of any
  number of calls in a row, no two among 2^31 - 1 successive ones give the same number.
\<close>
theorem sessions_positive_and_distinct:
  assumes "nd_ctx nd c = Some x" "0 \<le> sint (sc_session_id x)"
  shows "\<exists>ss nd'. newsessions c k nd = Inr (ss, nd') \<and> length ss = k \<and> (\<forall>s \<in> set ss. 0 < sint s) \<and>
    (\<forall>i j. i < j \<longrightarrow> j < k \<longrightarrow> j - i < 2 ^ 31 - 1 \<longrightarrow> ss ! i \<noteq> ss ! j)"
proof -
  let ?M = "2 ^ 31 - 1 :: nat"
  have "unat (sc_session_id x) < 2 ^ (LENGTH(32) - 1)" using assms(2) by (rule unat_sint_nonneg)
  then have "unat (sc_session_id x) < 2 ^ 31" by simp
  then obtain ss nd' where r: "newsessions c k nd = Inr (ss, nd')" "length ss = k"
    "\<forall>i < k. unat (ss ! i) = (unat (sc_session_id x) + i) mod ?M + 1"
    using newsessions_spec [OF assms(1)] by blast
  have "0 < sint s" if e: "s \<in> set ss" for s
  proof -
    obtain i where "i < k" "s = ss ! i" using e unfolding in_set_conv_nth r(2) by blast
    moreover have "(unat (sc_session_id x) + i) mod ?M < ?M" by (rule mod_less_divisor) simp
    ultimately show ?thesis using r(3) by (simp add: sint_positive)
  qed
  moreover have "ss ! i \<noteq> ss ! j" if "i < j" "j < k" "j - i < ?M" for i j
  proof
    assume e: "ss ! i = ss ! j"
    have "i < k" using that by simp
    then have "(unat (sc_session_id x) + i) mod ?M + 1 = (unat (sc_session_id x) + j) mod ?M + 1"
      using r(3) that(2) e by metis
    then have "(unat (sc_session_id x) + i) mod ?M = (unat (sc_session_id x) + j) mod ?M" by simp
    then have "?M dvd (unat (sc_session_id x) + j) - (unat (sc_session_id x) + i)"
      using that(1) by (metis mod_eq_dvd_iff_nat nat_add_left_cancel_le less_imp_le)
    then have "?M dvd j - i" by simp
    then show False using that(1,3) by (auto dest: dvd_imp_le)
  qed
  ultimately show ?thesis using r(1,2) by blast
qed

theorem sessions_positive_and_distinct_witness:
  "\<exists>ss nd'. newsessions 0 3 (one_message\<lparr>nd_ctx := [0 \<mapsto> (new_context 0 0)\<lparr>sc_session_id := 0x7ffffffe\<rparr>]\<rparr>) = Inr (ss, nd') \<and>
    length ss = 3 \<and> (\<forall>s \<in> set ss. 0 < sint s) \<and>
    (\<forall>i j. i < j \<longrightarrow> j < 3 \<longrightarrow> j - i < 2 ^ 31 - 1 \<longrightarrow> ss ! i \<noteq> ss ! j)"
  by (rule sessions_positive_and_distinct [where x = "(new_context 0 0)\<lparr>sc_session_id := 0x7ffffffe\<rparr>"])
    (simp_all add: sint_small)

end
