(* ===== verification/Socket.thy ===== *)
theory Socket
  imports Effects Cstring
begin

text \<open>
  The socket layer: \<open>src/3rd/skynet/skynet-src/socket_server.c\<close>. Worker threads put requests into a pipe,
  the socket thread takes them out, waits for events of the kernel and reads, writes and closes sockets.

  The kernel is a parameter: a record of functions from the system calls made so far, the current one
  last, to the answer of the current one. So every behaviour of a network is some \<open>kernel\<close>, and what the
  server did is the list of its calls. The requests in the pipe are values here, and the lists of pending
  writes are HOL lists without the tail pointer of the code; \<open>Socket_low\<close> has both in the form of the code,
  with their assertions, and shows that they behave like these. The memory is a store of objects, a pointer
  into one is its address with an offset.
\<close>

section \<open>Constants and data\<close>

definition SOCKET_DATA :: int where "SOCKET_DATA = 0"
definition SOCKET_CLOSE :: int where "SOCKET_CLOSE = 1"
definition SOCKET_OPEN :: int where "SOCKET_OPEN = 2"
definition SOCKET_ACCEPT :: int where "SOCKET_ACCEPT = 3"
definition SOCKET_ERROR :: int where "SOCKET_ERROR = 4"
definition SOCKET_EXIT :: int where "SOCKET_EXIT = 5"
definition SOCKET_UDP :: int where "SOCKET_UDP = 6"

datatype socket_type =
    SOCKET_TYPE_INVALID
  | SOCKET_TYPE_RESERVE
  | SOCKET_TYPE_PLISTEN
  | SOCKET_TYPE_LISTEN
  | SOCKET_TYPE_CONNECTING
  | SOCKET_TYPE_CONNECTED
  | SOCKET_TYPE_HALFCLOSE
  | SOCKET_TYPE_PACCEPT
  | SOCKET_TYPE_BIND

datatype protocol = PROTOCOL_TCP | PROTOCOL_UDP | PROTOCOL_UDPv6

datatype priority = PRIORITY_HIGH | PRIORITY_LOW

definition MAX_SOCKET :: nat where "MAX_SOCKET = 2 ^ 16"
definition MIN_READ_BUFFER :: int where "MIN_READ_BUFFER = 64"
definition UDP_ADDRESS_SIZE :: nat where "UDP_ADDRESS_SIZE = 19"

definition HASH_ID :: "u32 \<Rightarrow> nat" where
  "HASH_ID sid = unat sid mod MAX_SOCKET"

text \<open>The bytes that stand for the protocols in front of an address.\<close>

definition protocol_byte :: "protocol \<Rightarrow> byte" where
  "protocol_byte p = (case p of PROTOCOL_TCP \<Rightarrow> 0 | PROTOCOL_UDP \<Rightarrow> 1 | PROTOCOL_UDPv6 \<Rightarrow> 2)"

record write_buffer =
  wb_buffer :: nat
  wb_ptr :: "nat \<times> nat"
  wb_sz :: int
  wb_userobject :: bool
  wb_udp_address :: bytes

text \<open>The union \<open>p\<close>: the size of the next read of a TCP socket, the peer of a UDP socket.\<close>

datatype socket_param = Read_size int | Udp_address bytes

record socket =
  sk_opaque :: u64
  sk_high :: "write_buffer list"
  sk_low :: "write_buffer list"
  sk_wb_size :: int
  sk_fd :: int
  sk_id :: u32
  sk_protocol :: protocol
  sk_type :: socket_type
  sk_p :: socket_param

text \<open>The requests, with the letters under which they are sent.\<close>

datatype ctrl_request =
    Start_socket u32 u64              \<comment> \<open>S\<close>
  | Bind_socket u32 int u64           \<comment> \<open>B\<close>
  | Listen_socket u32 int u64         \<comment> \<open>L\<close>
  | Close_socket u32 bool u64         \<comment> \<open>K\<close>
  | Open_socket u32 int u64 bytes     \<comment> \<open>O\<close>
  | Exit_server                       \<comment> \<open>X\<close>
  | Send_high u32 nat int             \<comment> \<open>D\<close>
  | Send_low u32 nat int              \<comment> \<open>P\<close>
  | Send_udp u32 nat int bytes        \<comment> \<open>A\<close>
  | Set_opt u32 int int               \<comment> \<open>T\<close>
  | Create_udp u32 int int u64        \<comment> \<open>U\<close>
  | Set_udp u32 bytes                 \<comment> \<open>C\<close>

record sp_event =
  ev_s :: "nat option"
  ev_read :: bool
  ev_write :: bool

text \<open>What a message for a service carries: nothing, a text, or an object on the heap.\<close>

datatype result_data = No_data | Text_data bytes | Heap_data nat

record socket_result =
  sr_id :: u32
  sr_opaque :: u64
  sr_ud :: int
  sr_data :: result_data

section \<open>The kernel\<close>

datatype errno = EINTR | EAGAIN | EWOULDBLOCK | EMFILE | ENFILE | EINPROGRESS | EMSGSIZE | Errno nat

datatype family = AF_INET | AF_INET6 | AF_OTHER nat

text \<open>The family, the two bytes of the port and the bytes of the address.\<close>

record sockaddr =
  sa_family :: family
  sa_port :: bytes
  sa_addr :: bytes

datatype syscall =
    Sys_write int bytes
  | Sys_sendto int bytes "sockaddr option"
  | Sys_read int int
  | Sys_recvfrom int
  | Sys_accept int
  | Sys_close int
  | Sys_add int nat
  | Sys_del int
  | Sys_poll_write int bool
  | Sys_wait
  | Sys_select
  | Sys_socket_error int
  | Sys_getpeername int
  | Sys_setsockopt int int int
  | Sys_keepalive int
  | Sys_nonblocking int
  | Sys_getaddrinfo bytes int
  | Sys_socket family
  | Sys_connect int sockaddr
  | Sys_reuseaddr int
  | Sys_bind int sockaddr
  | Sys_listen int int

record kernel =
  k_write :: "syscall list \<Rightarrow> errno + nat"
  k_sendto :: "syscall list \<Rightarrow> errno + nat"
  k_read :: "syscall list \<Rightarrow> errno + bytes"
  k_recvfrom :: "syscall list \<Rightarrow> errno + bytes \<times> sockaddr"
  k_accept :: "syscall list \<Rightarrow> errno + int \<times> sockaddr"
  k_add :: "syscall list \<Rightarrow> errno option"
  k_wait :: "syscall list \<Rightarrow> sp_event list"
  k_select :: "syscall list \<Rightarrow> bool"
  k_socket_error :: "syscall list \<Rightarrow> errno option"
  k_getpeername :: "syscall list \<Rightarrow> sockaddr option"
  k_getaddrinfo :: "syscall list \<Rightarrow> bytes + sockaddr list"
  k_socket :: "syscall list \<Rightarrow> errno + int"
  k_connect :: "syscall list \<Rightarrow> errno option"
  k_reuseaddr :: "syscall list \<Rightarrow> bool"
  k_bind :: "syscall list \<Rightarrow> bool"
  k_listen :: "syscall list \<Rightarrow> bool"
  k_strerror :: "errno \<Rightarrow> bytes"
  k_ntop :: "sockaddr \<Rightarrow> bytes option"

section \<open>The server\<close>

text \<open>How user objects are read, measured and freed.\<close>

record socket_object_interface =
  soi_buffer :: "nat \<Rightarrow> nat"
  soi_size :: "nat \<Rightarrow> int"
  soi_free :: "nat \<Rightarrow> (nat \<Rightarrow> bytes option) \<Rightarrow> (nat \<Rightarrow> bytes option)"

text \<open>
  The events from \<open>ev[0]\<close> to \<open>ev[event_n - 1]\<close> are a list. The fields behind \<open>ss_event_index\<close> are the pipe,
  the memory with its next free address, and the system calls made.
\<close>

record socket_server =
  ss_checkctrl :: bool
  ss_alloc_id :: u32
  ss_soi :: "socket_object_interface option"
  ss_slot :: "nat \<Rightarrow> socket"
  ss_ev :: "sp_event list"
  ss_event_index :: nat
  ss_pipe :: "ctrl_request list"
  ss_mem :: "nat \<Rightarrow> bytes option"
  ss_next :: nat
  ss_calls :: "syscall list"

type_synonym 'a sop = "(socket_server, 'a) act"

definition empty_socket :: socket where
  "empty_socket =
     \<lparr>sk_opaque = 0, sk_high = [], sk_low = [], sk_wb_size = 0, sk_fd = 0, sk_id = 0,
      sk_protocol = PROTOCOL_TCP, sk_type = SOCKET_TYPE_INVALID, sk_p = Read_size 0\<rparr>"

definition socket_server_create :: socket_server where
  "socket_server_create =
     \<lparr>ss_checkctrl = True, ss_alloc_id = 0, ss_soi = None, ss_slot = (\<lambda>_. empty_socket), ss_ev = [],
      ss_event_index = 0, ss_pipe = [], ss_mem = Map.empty, ss_next = 0, ss_calls = []\<rparr>"

text \<open>One system call: its history, which the kernel's answer depends on.\<close>

definition sys :: "syscall \<Rightarrow> syscall list sop" where
  "sys c ss = Inr (ss_calls ss @ [c], ss\<lparr>ss_calls := ss_calls ss @ [c]\<rparr>)"

definition sys_do :: "syscall \<Rightarrow> unit sop" where
  "sys_do c = seq (sys c) (ret ())"

definition get_slot :: "nat \<Rightarrow> socket sop" where
  "get_slot i = gets (\<lambda>ss. ss_slot ss i)"

definition upd_slot :: "nat \<Rightarrow> (socket \<Rightarrow> socket) \<Rightarrow> unit sop" where
  "upd_slot i f = modify (\<lambda>ss. ss\<lparr>ss_slot := (ss_slot ss)(i := f (ss_slot ss i))\<rparr>)"

definition set_type :: "nat \<Rightarrow> socket_type \<Rightarrow> unit sop" where
  "set_type i t = upd_slot i (\<lambda>s. s\<lparr>sk_type := t\<rparr>)"

definition so_malloc :: "bytes \<Rightarrow> nat sop" where
  "so_malloc b ss = Inr (ss_next ss, ss\<lparr>ss_mem := (ss_mem ss)(ss_next ss \<mapsto> b), ss_next := ss_next ss + 1\<rparr>)"

definition so_free :: "nat \<Rightarrow> unit sop" where
  "so_free a ss = (if ss_mem ss a = None then Inl Bad_pointer else Inr ((), ss\<lparr>ss_mem := (ss_mem ss)(a := None)\<rparr>))"

text \<open>The \<open>n\<close> bytes at a pointer; as a \<open>size_t\<close>, a negative \<open>n\<close> is beyond any object.\<close>

definition so_load :: "nat \<times> nat \<Rightarrow> int \<Rightarrow> bytes sop" where
  "so_load p n ss =
     (case ss_mem ss (fst p) of
        None \<Rightarrow> Inl Bad_pointer
      | Some b \<Rightarrow> if n < 0 then Inl Out_of_bounds else bind_r (mem_read b (snd p) (nat n)) (\<lambda>d. Inr (d, ss)))"

section \<open>Objects to send\<close>

record send_object =
  so_buffer :: nat
  so_sz :: int
  so_user :: bool

text \<open>Without a registered interface its functions are null pointers.\<close>

definition send_object_init :: "nat \<Rightarrow> int \<Rightarrow> send_object sop" where
  "send_object_init object sz =
     (if sz < 0
      then bind_o (gets ss_soi) (\<lambda>soi.
             case soi of
               None \<Rightarrow> throw Bad_pointer
             | Some f \<Rightarrow> ret \<lparr>so_buffer = soi_buffer f object, so_sz = soi_size f object, so_user = True\<rparr>)
      else ret \<lparr>so_buffer = object, so_sz = sz, so_user = False\<rparr>)"

definition free_object :: "bool \<Rightarrow> nat \<Rightarrow> unit sop" where
  "free_object user buffer =
     (if user
      then bind_o (gets ss_soi) (\<lambda>soi.
             case soi of
               None \<Rightarrow> throw Bad_pointer
             | Some f \<Rightarrow> modify (\<lambda>ss. ss\<lparr>ss_mem := soi_free f buffer (ss_mem ss)\<rparr>))
      else so_free buffer)"

definition write_buffer_free :: "write_buffer \<Rightarrow> unit sop" where
  "write_buffer_free wb = free_object (wb_userobject wb) (wb_buffer wb)"

definition free_buffer :: "nat \<Rightarrow> int \<Rightarrow> unit sop" where
  "free_buffer buffer sz = bind_o (send_object_init buffer sz) (\<lambda>so. free_object (so_user so) buffer)"

section \<open>Slots\<close>

definition inc_alloc_id :: "u32 sop" where
  "inc_alloc_id =
     seq (modify (\<lambda>ss. ss\<lparr>ss_alloc_id := ss_alloc_id ss + 1\<rparr>))
    (bind_o (gets ss_alloc_id) (\<lambda>sid.
       if sint sid < 0
       then seq (modify (\<lambda>ss. ss\<lparr>ss_alloc_id := ss_alloc_id ss AND 0x7fffffff\<rparr>)) (gets ss_alloc_id)
       else ret sid))"

text \<open>The slot is taken by a compare and swap, which succeeds since the operation is atomic here.\<close>

primrec reserve_loop :: "nat \<Rightarrow> u32 sop" where
  "reserve_loop 0 = ret (- 1)"
| "reserve_loop (Suc n) =
     bind_o inc_alloc_id (\<lambda>sid.
     bind_o (get_slot (HASH_ID sid)) (\<lambda>s.
       if sk_type s = SOCKET_TYPE_INVALID
       then seq (upd_slot (HASH_ID sid) (\<lambda>s. s\<lparr>sk_type := SOCKET_TYPE_RESERVE, sk_id := sid, sk_fd := - 1\<rparr>)) (ret sid)
       else reserve_loop n))"

definition reserve_id :: "u32 sop" where
  "reserve_id = reserve_loop MAX_SOCKET"

primrec free_wb_list :: "write_buffer list \<Rightarrow> unit sop" where
  "free_wb_list [] = ret ()"
| "free_wb_list (wb # rest) = seq (write_buffer_free wb) (free_wb_list rest)"

definition force_close :: "nat \<Rightarrow> socket_result sop" where
  "force_close i =
     bind_o (get_slot i) (\<lambda>s.
       let result = \<lparr>sr_id = sk_id s, sr_opaque = sk_opaque s, sr_ud = 0, sr_data = No_data\<rparr> in
       if sk_type s = SOCKET_TYPE_INVALID then ret result
       else
         seq (check (sk_type s \<noteq> SOCKET_TYPE_RESERVE))
        (seq (free_wb_list (sk_high s))
        (seq (upd_slot i (\<lambda>s. s\<lparr>sk_high := []\<rparr>))
        (seq (free_wb_list (sk_low s))
        (seq (upd_slot i (\<lambda>s. s\<lparr>sk_low := []\<rparr>))
        (seq (if sk_type s \<noteq> SOCKET_TYPE_PACCEPT \<and> sk_type s \<noteq> SOCKET_TYPE_PLISTEN then sys_do (Sys_del (sk_fd s)) else ret ())
        (seq (if sk_type s \<noteq> SOCKET_TYPE_BIND then sys_do (Sys_close (sk_fd s)) else ret ())
        (seq (set_type i SOCKET_TYPE_INVALID)
             (ret result)))))))))"

text \<open>All slots; the memory of the server itself and the pipe are given back as well.\<close>

primrec release_loop :: "nat list \<Rightarrow> unit sop" where
  "release_loop [] = ret ()"
| "release_loop (i # is) =
     bind_o (get_slot i) (\<lambda>s.
       if sk_type s \<noteq> SOCKET_TYPE_RESERVE then seq (force_close i) (release_loop is) else release_loop is)"

definition socket_server_release :: "unit sop" where
  "socket_server_release = release_loop [0..<MAX_SOCKET]"

definition check_wb_list :: "write_buffer list \<Rightarrow> unit sop" where
  "check_wb_list list = check (list = [])"

definition new_fd :: "kernel \<Rightarrow> u32 \<Rightarrow> int \<Rightarrow> protocol \<Rightarrow> u64 \<Rightarrow> bool \<Rightarrow> nat option sop" where
  "new_fd K sid fd protocol opaque add =
     (let i = HASH_ID sid in
      bind_o (get_slot i) (\<lambda>s.
      seq (check (sk_type s = SOCKET_TYPE_RESERVE))
     (bind_o (if add then bind_o (sys (Sys_add fd i)) (\<lambda>h. ret (k_add K h \<noteq> None)) else ret False) (\<lambda>failed.
        if failed then seq (set_type i SOCKET_TYPE_INVALID) (ret None)
        else
          seq (upd_slot i (\<lambda>s. s\<lparr>sk_id := sid, sk_fd := fd, sk_protocol := protocol,
                                sk_p := Read_size MIN_READ_BUFFER, sk_opaque := opaque, sk_wb_size := 0\<rparr>))
         (seq (check_wb_list (sk_high s))
         (seq (check_wb_list (sk_low s))
              (ret (Some i))))))))"

section \<open>Connecting\<close>

text \<open>
  The addresses of a host, one after the other: the descriptor and whether it is connected at once, or the
  last error.
\<close>

primrec connect_loop :: "kernel \<Rightarrow> errno \<Rightarrow> sockaddr list \<Rightarrow> (errno + int \<times> sockaddr \<times> bool) sop" where
  "connect_loop K e [] = ret (Inl e)"
| "connect_loop K e (ai # rest) =
     bind_o (sys (Sys_socket (sa_family ai))) (\<lambda>h.
       case k_socket K h of
         Inl e \<Rightarrow> connect_loop K e rest
       | Inr sock \<Rightarrow>
           seq (sys_do (Sys_keepalive sock))
          (seq (sys_do (Sys_nonblocking sock))
          (bind_o (sys (Sys_connect sock ai)) (\<lambda>h.
             case k_connect K h of
               None \<Rightarrow> ret (Inr (sock, ai, True))
             | Some e \<Rightarrow>
                 if e \<noteq> EINPROGRESS then seq (sys_do (Sys_close sock)) (connect_loop K e rest)
                 else ret (Inr (sock, ai, False))))))"

type_synonym report = "(int \<times> socket_result) option"

definition ntop_data :: "kernel \<Rightarrow> sockaddr \<Rightarrow> result_data" where
  "ntop_data K a = (case k_ntop K a of None \<Rightarrow> No_data | Some t \<Rightarrow> Text_data t)"

definition limit_reached :: result_data where
  "limit_reached = Text_data (cstring ''reach skynet socket number limit'')"

definition open_socket :: "kernel \<Rightarrow> u32 \<Rightarrow> int \<Rightarrow> u64 \<Rightarrow> bytes \<Rightarrow> report sop" where
  "open_socket K sid port opaque host =
     (let result = \<lparr>sr_id = sid, sr_opaque = opaque, sr_ud = 0, sr_data = No_data\<rparr>;
          failed = (\<lambda>d. seq (set_type (HASH_ID sid) SOCKET_TYPE_INVALID) (ret (Some (SOCKET_ERROR, result\<lparr>sr_data := d\<rparr>)))) in
      bind_o (sys (Sys_getaddrinfo host port)) (\<lambda>h.
        case k_getaddrinfo K h of
          Inl error \<Rightarrow> failed (Text_data error)
        | Inr ai_list \<Rightarrow>
            bind_o (connect_loop K (Errno 0) ai_list) (\<lambda>r.
              case r of
                Inl e \<Rightarrow> failed (Text_data (k_strerror K e))
              | Inr (sock, ai, connected) \<Rightarrow>
                  bind_o (new_fd K sid sock PROTOCOL_TCP opaque True) (\<lambda>ns.
                    case ns of
                      None \<Rightarrow> seq (sys_do (Sys_close sock)) (failed limit_reached)
                    | Some i \<Rightarrow>
                        if connected
                        then seq (set_type i SOCKET_TYPE_CONNECTED) (ret (Some (SOCKET_OPEN, result\<lparr>sr_data := ntop_data K ai\<rparr>)))
                        else
                          seq (set_type i SOCKET_TYPE_CONNECTING)
                         (seq (sys_do (Sys_poll_write sock True))
                              (ret None))))))"

section \<open>Writing\<close>

definition AGAIN_WOULDBLOCK :: "errno \<Rightarrow> bool" where
  "AGAIN_WOULDBLOCK e = (e = EAGAIN \<or> e = EWOULDBLOCK)"

text \<open>\<open>write\<close> until it is not interrupted.\<close>

partial_function (option) write_retry ::
  "kernel \<Rightarrow> int \<Rightarrow> bytes \<Rightarrow> socket_server \<Rightarrow> ((errno + nat) \<times> socket_server) option" where
  "write_retry K fd data ss =
     (let h = ss_calls ss @ [Sys_write fd data]; ss = ss\<lparr>ss_calls := h\<rparr> in
      case k_write K h of
        Inl e \<Rightarrow> if e = EINTR then write_retry K fd data ss else Some (Inl e, ss)
      | Inr n \<Rightarrow> Some (Inr n, ss))"

definition write_again :: "kernel \<Rightarrow> int \<Rightarrow> bytes \<Rightarrow> (errno + nat) sop" where
  "write_again K fd data ss = (case write_retry K fd data ss of None \<Rightarrow> Inl Diverges | Some r \<Rightarrow> Inr r)"

text \<open>A list of pending writes, by its priority.\<close>

definition wb_list :: "priority \<Rightarrow> socket \<Rightarrow> write_buffer list" where
  "wb_list p s = (case p of PRIORITY_HIGH \<Rightarrow> sk_high s | PRIORITY_LOW \<Rightarrow> sk_low s)"

definition set_wb_list :: "priority \<Rightarrow> write_buffer list \<Rightarrow> socket \<Rightarrow> socket" where
  "set_wb_list p l s = (case p of PRIORITY_HIGH \<Rightarrow> s\<lparr>sk_high := l\<rparr> | PRIORITY_LOW \<Rightarrow> s\<lparr>sk_low := l\<rparr>)"

definition advance :: "nat \<Rightarrow> write_buffer \<Rightarrow> write_buffer" where
  "advance n wb = wb\<lparr>wb_ptr := (fst (wb_ptr wb), snd (wb_ptr wb) + n), wb_sz := wb_sz wb - int n\<rparr>"

primrec send_list_tcp :: "kernel \<Rightarrow> nat \<Rightarrow> priority \<Rightarrow> write_buffer list \<Rightarrow> report sop" where
  "send_list_tcp K i p [] = ret None"
| "send_list_tcp K i p (tmp # rest) =
     bind_o (get_slot i) (\<lambda>s.
     bind_o (so_load (wb_ptr tmp) (wb_sz tmp)) (\<lambda>data.
     bind_o (write_again K (sk_fd s) data) (\<lambda>r.
       case r of
         Inl e \<Rightarrow>
           if AGAIN_WOULDBLOCK e then ret None
           else bind_o (force_close i) (\<lambda>result. ret (Some (SOCKET_CLOSE, result)))
       | Inr n \<Rightarrow>
           seq (upd_slot i (\<lambda>s. s\<lparr>sk_wb_size := sk_wb_size s - int n\<rparr>))
               (if int n \<noteq> wb_sz tmp
                then seq (upd_slot i (set_wb_list p (advance n tmp # rest))) (ret None)
                else
                  seq (upd_slot i (set_wb_list p rest))
                 (seq (write_buffer_free tmp)
                      (send_list_tcp K i p rest))))))"

text \<open>A UDP address: a byte for the protocol, two for the port, and 4 or 16 for the address.\<close>

definition udp_socket_address :: "socket \<Rightarrow> bytes \<Rightarrow> sockaddr option" where
  "udp_socket_address s udp_address =
     (if udp_address ! 0 \<noteq> protocol_byte (sk_protocol s) then None
      else case sk_protocol s of
        PROTOCOL_UDP \<Rightarrow> Some \<lparr>sa_family = AF_INET, sa_port = take 2 (drop 1 udp_address), sa_addr = take 4 (drop 3 udp_address)\<rparr>
      | PROTOCOL_UDPv6 \<Rightarrow> Some \<lparr>sa_family = AF_INET6, sa_port = take 2 (drop 1 udp_address), sa_addr = take 16 (drop 3 udp_address)\<rparr>
      | PROTOCOL_TCP \<Rightarrow> None)"

primrec send_list_udp :: "kernel \<Rightarrow> nat \<Rightarrow> priority \<Rightarrow> write_buffer list \<Rightarrow> report sop" where
  "send_list_udp K i p [] = ret None"
| "send_list_udp K i p (tmp # rest) =
     bind_o (get_slot i) (\<lambda>s.
     bind_o (so_load (wb_ptr tmp) (wb_sz tmp)) (\<lambda>data.
     bind_o (sys (Sys_sendto (sk_fd s) data (udp_socket_address s (wb_udp_address tmp)))) (\<lambda>h.
       case k_sendto K h of
         Inl e \<Rightarrow> ret None
       | Inr n \<Rightarrow>
           seq (upd_slot i (\<lambda>s. s\<lparr>sk_wb_size := sk_wb_size s - wb_sz tmp\<rparr>))
          (seq (upd_slot i (set_wb_list p rest))
          (seq (write_buffer_free tmp)
               (send_list_udp K i p rest))))))"

definition send_list :: "kernel \<Rightarrow> nat \<Rightarrow> priority \<Rightarrow> report sop" where
  "send_list K i p =
     bind_o (get_slot i) (\<lambda>s.
       if sk_protocol s = PROTOCOL_TCP then send_list_tcp K i p (wb_list p s) else send_list_udp K i p (wb_list p s))"

definition list_uncomplete :: "write_buffer list \<Rightarrow> bool" where
  "list_uncomplete l = (case l of [] \<Rightarrow> False | wb # _ \<Rightarrow> wb_ptr wb \<noteq> (wb_buffer wb, 0))"

definition raise_uncomplete :: "nat \<Rightarrow> unit sop" where
  "raise_uncomplete i =
     bind_o (get_slot i) (\<lambda>s.
       case sk_low s of
         [] \<Rightarrow> throw Out_of_bounds
       | tmp # rest \<Rightarrow>
           seq (upd_slot i (\<lambda>s. s\<lparr>sk_low := rest\<rparr>))
          (seq (check (sk_high s = []))
               (upd_slot i (\<lambda>s. s\<lparr>sk_high := [tmp]\<rparr>))))"

definition closed :: "report \<Rightarrow> bool" where
  "closed r = (case r of None \<Rightarrow> False | Some (t, _) \<Rightarrow> t = SOCKET_CLOSE)"

definition send_buffer :: "kernel \<Rightarrow> nat \<Rightarrow> report sop" where
  "send_buffer K i =
     bind_o (get_slot i) (\<lambda>s.
     seq (check (\<not> list_uncomplete (sk_low s)))
    (bind_o (send_list K i PRIORITY_HIGH) (\<lambda>r.
       if closed r then ret r
       else
         bind_o (get_slot i) (\<lambda>s.
           if sk_high s \<noteq> [] then ret None
           else if sk_low s \<noteq> []
           then
             bind_o (send_list K i PRIORITY_LOW) (\<lambda>r.
               if closed r then ret r
               else
                 bind_o (get_slot i) (\<lambda>s.
                   seq (if list_uncomplete (sk_low s) then raise_uncomplete i else ret ()) (ret None)))
           else
             seq (sys_do (Sys_poll_write (sk_fd s) False))
                 (if sk_type s = SOCKET_TYPE_HALFCLOSE
                  then bind_o (force_close i) (\<lambda>result. ret (Some (SOCKET_CLOSE, result)))
                  else ret None)))))"

text \<open>A new node at the end of a list; the address is that of a UDP package.\<close>

definition append_node :: "nat \<Rightarrow> priority \<Rightarrow> nat \<Rightarrow> int \<Rightarrow> nat \<Rightarrow> bytes \<Rightarrow> write_buffer sop" where
  "append_node i p buffer sz n address =
     bind_o (send_object_init buffer sz) (\<lambda>so.
       let buf = \<lparr>wb_buffer = buffer, wb_ptr = (so_buffer so, n), wb_sz = so_sz so - int n,
                  wb_userobject = so_user so, wb_udp_address = address\<rparr> in
       seq (upd_slot i (\<lambda>s. set_wb_list p (wb_list p s @ [buf]) s)) (ret buf))"

definition add_wb_size :: "nat \<Rightarrow> write_buffer \<Rightarrow> unit sop" where
  "add_wb_size i buf = upd_slot i (\<lambda>s. s\<lparr>sk_wb_size := sk_wb_size s + wb_sz buf\<rparr>)"

definition append_sendbuffer_udp :: "nat \<Rightarrow> priority \<Rightarrow> nat \<Rightarrow> int \<Rightarrow> bytes \<Rightarrow> unit sop" where
  "append_sendbuffer_udp i p buffer sz address =
     bind_o (append_node i p buffer sz 0 address) (add_wb_size i)"

definition append_sendbuffer :: "nat \<Rightarrow> nat \<Rightarrow> int \<Rightarrow> nat \<Rightarrow> unit sop" where
  "append_sendbuffer i buffer sz n = bind_o (append_node i PRIORITY_HIGH buffer sz n []) (add_wb_size i)"

definition append_sendbuffer_low :: "nat \<Rightarrow> nat \<Rightarrow> int \<Rightarrow> unit sop" where
  "append_sendbuffer_low i buffer sz = bind_o (append_node i PRIORITY_LOW buffer sz 0 []) (add_wb_size i)"

definition send_buffer_empty :: "socket \<Rightarrow> bool" where
  "send_buffer_empty s = (sk_high s = [] \<and> sk_low s = [])"

definition socket_address :: "socket \<Rightarrow> bytes sop" where
  "socket_address s = (case sk_p s of Udp_address a \<Rightarrow> ret a | Read_size _ \<Rightarrow> throw Uninitialised)"

definition send_socket :: "kernel \<Rightarrow> u32 \<Rightarrow> nat \<Rightarrow> int \<Rightarrow> priority \<Rightarrow> bytes option \<Rightarrow> report sop" where
  "send_socket K sid buffer sz priority udp_address =
     (let i = HASH_ID sid in
      bind_o (get_slot i) (\<lambda>s.
      bind_o (send_object_init buffer sz) (\<lambda>so.
        let address = (case udp_address of None \<Rightarrow> socket_address s | Some a \<Rightarrow> ret a) in
        if sk_type s = SOCKET_TYPE_INVALID \<or> sk_id s \<noteq> sid \<or> sk_type s = SOCKET_TYPE_HALFCLOSE \<or>
           sk_type s = SOCKET_TYPE_PACCEPT
        then seq (free_object (so_user so) buffer) (ret None)
        else if sk_type s = SOCKET_TYPE_PLISTEN \<or> sk_type s = SOCKET_TYPE_LISTEN
        then seq (free_object (so_user so) buffer) (ret None)
        else if send_buffer_empty s \<and> sk_type s = SOCKET_TYPE_CONNECTED
        then
          bind_o (so_load (so_buffer so, 0) (so_sz so)) (\<lambda>data.
            if sk_protocol s = PROTOCOL_TCP
            then
              bind_o (sys (Sys_write (sk_fd s) data)) (\<lambda>h.
                let written = (case k_write K h of
                       Inl e \<Rightarrow> if e = EINTR \<or> AGAIN_WOULDBLOCK e then Some 0 else None
                     | Inr n \<Rightarrow> Some n) in
                case written of
                  None \<Rightarrow>
                    bind_o (force_close i) (\<lambda>result.
                    seq (free_object (so_user so) buffer)
                        (ret (Some (SOCKET_CLOSE, result))))
                | Some n \<Rightarrow>
                    if int n = so_sz so then seq (free_object (so_user so) buffer) (ret None)
                    else
                      seq (append_sendbuffer i buffer sz n)
                     (seq (sys_do (Sys_poll_write (sk_fd s) True))
                          (ret None)))
            else
              bind_o address (\<lambda>a.
              bind_o (sys (Sys_sendto (sk_fd s) data (udp_socket_address s a))) (\<lambda>h.
                if k_sendto K h = Inr (nat (so_sz so)) then seq (free_object (so_user so) buffer) (ret None)
                else
                  seq (append_sendbuffer_udp i priority buffer sz a)
                 (seq (sys_do (Sys_poll_write (sk_fd s) True))
                      (ret None)))))
        else
          if sk_protocol s = PROTOCOL_TCP
          then
            if priority = PRIORITY_LOW then seq (append_sendbuffer_low i buffer sz) (ret None)
            else seq (append_sendbuffer i buffer sz 0) (ret None)
          else bind_o address (\<lambda>a. seq (append_sendbuffer_udp i priority buffer sz a) (ret None)))))"

section \<open>Requests\<close>

definition listen_socket :: "kernel \<Rightarrow> u32 \<Rightarrow> int \<Rightarrow> u64 \<Rightarrow> report sop" where
  "listen_socket K sid listen_fd opaque =
     bind_o (new_fd K sid listen_fd PROTOCOL_TCP opaque False) (\<lambda>ns.
       case ns of
         None \<Rightarrow>
           seq (sys_do (Sys_close listen_fd))
          (seq (set_type (HASH_ID sid) SOCKET_TYPE_INVALID)
               (ret (Some (SOCKET_ERROR, \<lparr>sr_id = sid, sr_opaque = opaque, sr_ud = 0, sr_data = limit_reached\<rparr>))))
       | Some i \<Rightarrow> seq (set_type i SOCKET_TYPE_PLISTEN) (ret None))"

definition close_socket :: "kernel \<Rightarrow> u32 \<Rightarrow> bool \<Rightarrow> u64 \<Rightarrow> report sop" where
  "close_socket K sid shutdown opaque =
     (let i = HASH_ID sid in
      bind_o (get_slot i) (\<lambda>s.
        if sk_type s = SOCKET_TYPE_INVALID \<or> sk_id s \<noteq> sid
        then ret (Some (SOCKET_CLOSE, \<lparr>sr_id = sid, sr_opaque = opaque, sr_ud = 0, sr_data = No_data\<rparr>))
        else
          bind_o (if send_buffer_empty s then ret None else send_buffer K i) (\<lambda>r.
            if r \<noteq> None then ret r
            else
              bind_o (get_slot i) (\<lambda>s.
                if shutdown \<or> send_buffer_empty s
                then bind_o (force_close i) (\<lambda>result. ret (Some (SOCKET_CLOSE, result\<lparr>sr_id := sid, sr_opaque := opaque\<rparr>)))
                else seq (set_type i SOCKET_TYPE_HALFCLOSE) (ret None)))))"

definition bind_socket :: "kernel \<Rightarrow> u32 \<Rightarrow> int \<Rightarrow> u64 \<Rightarrow> report sop" where
  "bind_socket K sid fd opaque =
     (let result = \<lparr>sr_id = sid, sr_opaque = opaque, sr_ud = 0, sr_data = No_data\<rparr> in
      bind_o (new_fd K sid fd PROTOCOL_TCP opaque True) (\<lambda>ns.
        case ns of
          None \<Rightarrow> ret (Some (SOCKET_ERROR, result\<lparr>sr_data := limit_reached\<rparr>))
        | Some i \<Rightarrow>
            seq (sys_do (Sys_nonblocking fd))
           (seq (set_type i SOCKET_TYPE_BIND)
                (ret (Some (SOCKET_OPEN, result\<lparr>sr_data := Text_data (cstring ''binding'')\<rparr>))))))"

definition start_socket :: "kernel \<Rightarrow> u32 \<Rightarrow> u64 \<Rightarrow> report sop" where
  "start_socket K sid opaque =
     (let i = HASH_ID sid; result = \<lparr>sr_id = sid, sr_opaque = opaque, sr_ud = 0, sr_data = No_data\<rparr> in
      bind_o (get_slot i) (\<lambda>s.
        if sk_type s = SOCKET_TYPE_INVALID \<or> sk_id s \<noteq> sid
        then ret (Some (SOCKET_ERROR, result\<lparr>sr_data := Text_data (cstring ''invalid socket'')\<rparr>))
        else if sk_type s = SOCKET_TYPE_PACCEPT \<or> sk_type s = SOCKET_TYPE_PLISTEN
        then
          bind_o (sys (Sys_add (sk_fd s) i)) (\<lambda>h.
            case k_add K h of
              Some e \<Rightarrow>
                bind_o (force_close i) (\<lambda>result. ret (Some (SOCKET_ERROR, result\<lparr>sr_data := Text_data (k_strerror K e)\<rparr>)))
            | None \<Rightarrow>
                seq (set_type i (if sk_type s = SOCKET_TYPE_PACCEPT then SOCKET_TYPE_CONNECTED else SOCKET_TYPE_LISTEN))
               (seq (upd_slot i (\<lambda>s. s\<lparr>sk_opaque := opaque\<rparr>))
                    (ret (Some (SOCKET_OPEN, result\<lparr>sr_data := Text_data (cstring ''start'')\<rparr>)))))
        else if sk_type s = SOCKET_TYPE_CONNECTED
        then seq (upd_slot i (\<lambda>s. s\<lparr>sk_opaque := opaque\<rparr>))
                 (ret (Some (SOCKET_OPEN, result\<lparr>sr_data := Text_data (cstring ''transfer'')\<rparr>)))
        else ret None))"

definition setopt_socket :: "u32 \<Rightarrow> int \<Rightarrow> int \<Rightarrow> unit sop" where
  "setopt_socket sid what v =
     bind_o (get_slot (HASH_ID sid)) (\<lambda>s.
       if sk_type s = SOCKET_TYPE_INVALID \<or> sk_id s \<noteq> sid then ret ()
       else sys_do (Sys_setsockopt (sk_fd s) what v))"

text \<open>The value of \<open>AF_INET6\<close>.\<close>

definition FAMILY_INET :: int where "FAMILY_INET = 2"
definition FAMILY_INET6 :: int where "FAMILY_INET6 = 10"

definition add_udp_socket :: "kernel \<Rightarrow> u32 \<Rightarrow> int \<Rightarrow> int \<Rightarrow> u64 \<Rightarrow> unit sop" where
  "add_udp_socket K sid fd family opaque =
     bind_o (new_fd K sid fd (if family = FAMILY_INET6 then PROTOCOL_UDPv6 else PROTOCOL_UDP) opaque True) (\<lambda>ns.
       case ns of
         None \<Rightarrow> seq (sys_do (Sys_close fd)) (set_type (HASH_ID sid) SOCKET_TYPE_INVALID)
       | Some i \<Rightarrow>
           upd_slot i (\<lambda>s. s\<lparr>sk_type := SOCKET_TYPE_CONNECTED, sk_p := Udp_address (replicate UDP_ADDRESS_SIZE 0)\<rparr>))"

definition set_udp_address :: "u32 \<Rightarrow> bytes \<Rightarrow> report sop" where
  "set_udp_address sid address =
     (let i = HASH_ID sid in
      bind_o (get_slot i) (\<lambda>s.
        if sk_type s = SOCKET_TYPE_INVALID \<or> sk_id s \<noteq> sid then ret None
        else if address ! 0 \<noteq> protocol_byte (sk_protocol s)
        then ret (Some (SOCKET_ERROR, \<lparr>sr_id = sk_id s, sr_opaque = sk_opaque s, sr_ud = 0,
                                       sr_data = Text_data (cstring ''protocol mismatch'')\<rparr>))
        else
          bind_o (socket_address s) (\<lambda>old.
            let n = (if address ! 0 = protocol_byte PROTOCOL_UDP then 1 + 2 + 4 else 1 + 2 + 16) in
            seq (upd_slot i (\<lambda>s. s\<lparr>sk_p := Udp_address (take n address @ drop n old)\<rparr>)) (ret None))))"

definition has_cmd :: "kernel \<Rightarrow> bool sop" where
  "has_cmd K = bind_o (sys Sys_select) (\<lambda>h. gets (\<lambda>ss. ss_pipe ss \<noteq> [] \<and> k_select K h))"

definition ctrl_dispatch :: "kernel \<Rightarrow> ctrl_request \<Rightarrow> report sop" where
  "ctrl_dispatch K request =
     (case request of
        Start_socket sid opaque \<Rightarrow> start_socket K sid opaque
      | Bind_socket sid fd opaque \<Rightarrow> bind_socket K sid fd opaque
      | Listen_socket sid fd opaque \<Rightarrow> listen_socket K sid fd opaque
      | Close_socket sid shutdown opaque \<Rightarrow> close_socket K sid shutdown opaque
      | Open_socket sid port opaque host \<Rightarrow> open_socket K sid port opaque host
      | Exit_server \<Rightarrow> ret (Some (SOCKET_EXIT, \<lparr>sr_id = 0, sr_opaque = 0, sr_ud = 0, sr_data = No_data\<rparr>))
      | Send_high sid buffer sz \<Rightarrow> send_socket K sid buffer sz PRIORITY_HIGH None
      | Send_low sid buffer sz \<Rightarrow> send_socket K sid buffer sz PRIORITY_LOW None
      | Send_udp sid buffer sz address \<Rightarrow> send_socket K sid buffer sz PRIORITY_HIGH (Some address)
      | Set_udp sid address \<Rightarrow> set_udp_address sid address
      | Set_opt sid what v \<Rightarrow> seq (setopt_socket sid what v) (ret None)
      | Create_udp sid fd family opaque \<Rightarrow> seq (add_udp_socket K sid fd family opaque) (ret None))"

definition ctrl_cmd :: "kernel \<Rightarrow> report sop" where
  "ctrl_cmd K =
     bind_o (gets ss_pipe) (\<lambda>pipe.
       case pipe of
         [] \<Rightarrow> throw Diverges
       | request # rest \<Rightarrow> seq (modify (\<lambda>ss. ss\<lparr>ss_pipe := rest\<rparr>)) (ctrl_dispatch K request))"

section \<open>Events\<close>

definition forward_message_tcp :: "kernel \<Rightarrow> nat \<Rightarrow> report sop" where
  "forward_message_tcp K i =
     bind_o (get_slot i) (\<lambda>s.
       case sk_p s of
         Udp_address _ \<Rightarrow> throw Uninitialised
       | Read_size sz \<Rightarrow>
           bind_o (sys (Sys_read (sk_fd s) sz)) (\<lambda>h.
             case k_read K h of
               Inl e \<Rightarrow>
                 if e = EINTR \<or> AGAIN_WOULDBLOCK e then ret None
                 else bind_o (force_close i) (\<lambda>result. ret (Some (SOCKET_ERROR, result\<lparr>sr_data := Text_data (k_strerror K e)\<rparr>)))
             | Inr data \<Rightarrow>
                 if sz < int (length data) then throw Out_of_bounds
                 else if data = [] then bind_o (force_close i) (\<lambda>result. ret (Some (SOCKET_CLOSE, result)))
                 else if sk_type s = SOCKET_TYPE_HALFCLOSE then ret None
                 else
                   seq (if int (length data) = sz then upd_slot i (\<lambda>s. s\<lparr>sk_p := Read_size (sz * 2)\<rparr>)
                        else if MIN_READ_BUFFER < sz \<and> int (length data) * 2 < sz
                        then upd_slot i (\<lambda>s. s\<lparr>sk_p := Read_size (sz div 2)\<rparr>)
                        else ret ())
                  (bind_o (so_malloc (data @ replicate (nat sz - length data) 0)) (\<lambda>buffer.
                   ret (Some (SOCKET_DATA, \<lparr>sr_id = sk_id s, sr_opaque = sk_opaque s, sr_ud = int (length data),
                                            sr_data = Heap_data buffer\<rparr>))))))"

definition gen_udp_address :: "protocol \<Rightarrow> sockaddr \<Rightarrow> bytes" where
  "gen_udp_address protocol sa = protocol_byte protocol # sa_port sa @ sa_addr sa"

definition MAX_UDP_PACKAGE :: nat where "MAX_UDP_PACKAGE = 65535"

definition forward_message_udp :: "kernel \<Rightarrow> nat \<Rightarrow> report sop" where
  "forward_message_udp K i =
     bind_o (get_slot i) (\<lambda>s.
     bind_o (sys (Sys_recvfrom (sk_fd s))) (\<lambda>h.
       case k_recvfrom K h of
         Inl e \<Rightarrow>
           if e = EINTR \<or> AGAIN_WOULDBLOCK e then ret None
           else bind_o (force_close i) (\<lambda>result. ret (Some (SOCKET_ERROR, result\<lparr>sr_data := Text_data (k_strerror K e)\<rparr>)))
       | Inr (data, sa) \<Rightarrow>
           if MAX_UDP_PACKAGE < length data then throw Out_of_bounds
           else
             (let protocol = (if sa_family sa = AF_INET then PROTOCOL_UDP else PROTOCOL_UDPv6) in
              if sk_protocol s \<noteq> protocol then ret None
              else
                bind_o (so_malloc (data @ gen_udp_address protocol sa)) (\<lambda>buffer.
                ret (Some (SOCKET_UDP, \<lparr>sr_id = sk_id s, sr_opaque = sk_opaque s, sr_ud = int (length data),
                                        sr_data = Heap_data buffer\<rparr>))))))"

definition report_connect :: "kernel \<Rightarrow> nat \<Rightarrow> report sop" where
  "report_connect K i =
     bind_o (get_slot i) (\<lambda>s.
     bind_o (sys (Sys_socket_error (sk_fd s))) (\<lambda>h.
       case k_socket_error K h of
         Some e \<Rightarrow>
           bind_o (force_close i) (\<lambda>result. ret (Some (SOCKET_ERROR, result\<lparr>sr_data := Text_data (k_strerror K e)\<rparr>)))
       | None \<Rightarrow>
           seq (set_type i SOCKET_TYPE_CONNECTED)
          (seq (if send_buffer_empty s then sys_do (Sys_poll_write (sk_fd s) False) else ret ())
          (bind_o (sys (Sys_getpeername (sk_fd s))) (\<lambda>h.
             let peer = (case k_getpeername K h of None \<Rightarrow> No_data | Some a \<Rightarrow> ntop_data K a) in
             ret (Some (SOCKET_OPEN, \<lparr>sr_id = sk_id s, sr_opaque = sk_opaque s, sr_ud = 0, sr_data = peer\<rparr>)))))))"

text \<open>The text \<open>address:port\<close> of a peer, cut to the size of \<open>ss->buffer\<close>.\<close>

definition MAX_INFO :: nat where "MAX_INFO = 128"

definition accept_name :: "kernel \<Rightarrow> sockaddr \<Rightarrow> result_data" where
  "accept_name K u =
     (case k_ntop K u of
        None \<Rightarrow> No_data
      | Some t \<Rightarrow> Text_data (take (MAX_INFO - 1) (t @ cstring '':'' @ dec (uint (of_be (sa_port u) :: u16)))))"

text \<open>\<open>report_accept\<close>: an event to report, or nothing; the result -1 is the report \<open>SOCKET_ERROR\<close>.\<close>

definition report_accept :: "kernel \<Rightarrow> nat \<Rightarrow> report sop" where
  "report_accept K i =
     bind_o (get_slot i) (\<lambda>s.
     bind_o (sys (Sys_accept (sk_fd s))) (\<lambda>h.
       case k_accept K h of
         Inl e \<Rightarrow>
           if e = EMFILE \<or> e = ENFILE
           then ret (Some (SOCKET_ERROR, \<lparr>sr_id = sk_id s, sr_opaque = sk_opaque s, sr_ud = 0,
                                          sr_data = Text_data (k_strerror K e)\<rparr>))
           else ret None
       | Inr (client_fd, u) \<Rightarrow>
           bind_o reserve_id (\<lambda>sid.
             if sint sid < 0 then seq (sys_do (Sys_close client_fd)) (ret None)
             else
               seq (sys_do (Sys_keepalive client_fd))
              (seq (sys_do (Sys_nonblocking client_fd))
              (bind_o (new_fd K sid client_fd PROTOCOL_TCP (sk_opaque s) False) (\<lambda>ns.
                 case ns of
                   None \<Rightarrow> seq (sys_do (Sys_close client_fd)) (ret None)
                 | Some j \<Rightarrow>
                     seq (set_type j SOCKET_TYPE_PACCEPT)
                         (ret (Some (SOCKET_ACCEPT, \<lparr>sr_id = sk_id s, sr_opaque = sk_opaque s, sr_ud = sint sid,
                                                     sr_data = accept_name K u\<rparr>)))))))))"

text \<open>An event that is left in the array must not lead to a socket that was closed.\<close>

primrec clear_events :: "(nat \<Rightarrow> socket) \<Rightarrow> u32 \<Rightarrow> sp_event list \<Rightarrow> sp_event list" where
  "clear_events slot sid [] = []"
| "clear_events slot sid (e # es) =
     (case ev_s e of
        None \<Rightarrow> e # clear_events slot sid es
      | Some i \<Rightarrow>
          if sk_type (slot i) = SOCKET_TYPE_INVALID \<and> sk_id (slot i) = sid then e\<lparr>ev_s := None\<rparr> # es
          else e # clear_events slot sid es)"

definition clear_closed_event :: "socket_result \<Rightarrow> int \<Rightarrow> unit sop" where
  "clear_closed_event result type =
     (if type = SOCKET_CLOSE \<or> type = SOCKET_ERROR
      then modify (\<lambda>ss. ss\<lparr>ss_ev := take (ss_event_index ss) (ss_ev ss) @
                            clear_events (ss_slot ss) (sr_id result) (drop (ss_event_index ss) (ss_ev ss))\<rparr>)
      else ret ())"

text \<open>
  One round of the loop of \<open>socket_server_poll\<close>. \<open>Continue\<close> goes on, \<open>Return\<close> leaves the loop with the
  type, the message and whether \<open>more\<close> is still set. The three parts are the request, the wait for
  events, and the event.
\<close>

datatype poll_outcome = Continue bool | Return int "socket_result option" bool

definition poll_ctrl :: "kernel \<Rightarrow> (bool \<times> report) sop" where
  "poll_ctrl K =
     bind_o (gets ss_checkctrl) (\<lambda>checkctrl.
       if checkctrl
       then bind_o (has_cmd K) (\<lambda>cmd.
              if cmd
              then bind_o (ctrl_cmd K) (\<lambda>r.
                     case r of
                       None \<Rightarrow> ret (True, None)
                     | Some (type, result) \<Rightarrow> seq (clear_closed_event result type) (ret (True, Some (type, result))))
              else seq (modify (\<lambda>ss. ss\<lparr>ss_checkctrl := False\<rparr>)) (ret (False, None)))
       else ret (False, None))"

text \<open>\<open>epoll_wait\<close> is called when no event is left; then a failure or no event ends the round.\<close>

definition poll_wait :: "kernel \<Rightarrow> (bool \<times> bool) sop" where
  "poll_wait K =
     bind_o (gets (\<lambda>ss. ss_event_index ss = length (ss_ev ss))) (\<lambda>empty.
       if empty
       then
         bind_o (sys Sys_wait) (\<lambda>h.
           let es = k_wait K h in
           seq (modify (\<lambda>ss. ss\<lparr>ss_ev := es, ss_checkctrl := True, ss_event_index := 0\<rparr>)) (ret (True, es \<noteq> [])))
       else ret (False, True))"

definition upd_event :: "(nat \<Rightarrow> nat) \<Rightarrow> (sp_event \<Rightarrow> sp_event) \<Rightarrow> unit sop" where
  "upd_event f g =
     modify (\<lambda>ss. let j = ss_event_index ss - 1 in
       ss\<lparr>ss_ev := (ss_ev ss)[j := g (ss_ev ss ! j)], ss_event_index := f (ss_event_index ss)\<rparr>)"

definition poll_read :: "kernel \<Rightarrow> sp_event \<Rightarrow> nat \<Rightarrow> socket \<Rightarrow> report sop" where
  "poll_read K e i s =
     bind_o (if sk_protocol s = PROTOCOL_TCP then forward_message_tcp K i else forward_message_udp K i) (\<lambda>r.
       if sk_protocol s \<noteq> PROTOCOL_TCP \<and> map_option fst r = Some SOCKET_UDP
       then seq (upd_event (\<lambda>n. n - 1) (\<lambda>e. e)) (ret r)
       else
         seq (if ev_write e \<and> map_option fst r \<noteq> Some SOCKET_CLOSE \<and> map_option fst r \<noteq> Some SOCKET_ERROR
              then upd_event (\<lambda>n. n - 1) (\<lambda>e. e\<lparr>ev_read := False\<rparr>) else ret ())
             (ret r))"

definition poll_event :: "kernel \<Rightarrow> report sop" where
  "poll_event K =
     bind_o (gets (\<lambda>ss. ss_ev ss ! ss_event_index ss)) (\<lambda>e.
     seq (modify (\<lambda>ss. ss\<lparr>ss_event_index := ss_event_index ss + 1\<rparr>))
         (case ev_s e of
            None \<Rightarrow> ret None
          | Some i \<Rightarrow>
              bind_o (get_slot i) (\<lambda>s.
                case sk_type s of
                  SOCKET_TYPE_CONNECTING \<Rightarrow> report_connect K i
                | SOCKET_TYPE_LISTEN \<Rightarrow> report_accept K i
                | SOCKET_TYPE_INVALID \<Rightarrow> ret None
                | _ \<Rightarrow>
                    if ev_read e then poll_read K e i s
                    else if ev_write e then send_buffer K i
                    else ret None)))"

definition poll_round :: "kernel \<Rightarrow> bool \<Rightarrow> poll_outcome sop" where
  "poll_round K go =
     bind_o (poll_ctrl K) (\<lambda>(cmd, r).
       if cmd
       then ret (case r of None \<Rightarrow> Continue go | Some (type, result) \<Rightarrow> Return type (Some result) go)
       else
         bind_o (poll_wait K) (\<lambda>(waited, ok).
           let go = (go \<and> \<not> waited) in
           if \<not> ok then ret (Return (- 1) None go)
           else
             bind_o (poll_event K) (\<lambda>r.
               ret (case r of None \<Rightarrow> Continue go | Some (type, result) \<Rightarrow> Return type (Some result) go))))"

partial_function (option) socket_server_poll ::
  "kernel \<Rightarrow> bool \<Rightarrow> socket_server \<Rightarrow> ((int \<times> socket_result option \<times> bool) \<times> socket_server) res option" where
  "socket_server_poll K go ss =
     (case poll_round K go ss of
        Inl e \<Rightarrow> Some (Inl e)
      | Inr (Continue go, ss) \<Rightarrow> socket_server_poll K go ss
      | Inr (Return type result go, ss) \<Rightarrow> Some (Inr ((type, result, go), ss)))"

section \<open>Calls of the services\<close>

definition send_request :: "ctrl_request \<Rightarrow> unit sop" where
  "send_request request = modify (\<lambda>ss. ss\<lparr>ss_pipe := ss_pipe ss @ [request]\<rparr>)"

text \<open>The size of \<open>struct request_open\<close>, with one byte of the host and the padding.\<close>

definition SIZEOF_REQUEST_OPEN :: nat where "SIZEOF_REQUEST_OPEN = 24"

definition socket_server_connect :: "u64 \<Rightarrow> bytes \<Rightarrow> int \<Rightarrow> u32 sop" where
  "socket_server_connect opaque addr port =
     (if 256 \<le> length addr + SIZEOF_REQUEST_OPEN then ret (- 1)
      else
        bind_o reserve_id (\<lambda>sid.
          if sint sid < 0 then ret (- 1)
          else seq (send_request (Open_socket sid port opaque addr)) (ret sid)))"

text \<open>A send on an id, by a request for each of the priorities; -1, or the bytes that wait already.\<close>

definition send_checked :: "u32 \<Rightarrow> nat \<Rightarrow> int \<Rightarrow> ctrl_request \<Rightarrow> int sop" where
  "send_checked sid buffer sz request =
     bind_o (get_slot (HASH_ID sid)) (\<lambda>s.
       if sk_id s \<noteq> sid \<or> sk_type s = SOCKET_TYPE_INVALID
       then seq (free_buffer buffer sz) (ret (- 1))
       else seq (send_request request) (ret (sk_wb_size s)))"

definition socket_server_send :: "u32 \<Rightarrow> nat \<Rightarrow> int \<Rightarrow> int sop" where
  "socket_server_send sid buffer sz = send_checked sid buffer sz (Send_high sid buffer sz)"

definition socket_server_send_lowpriority :: "u32 \<Rightarrow> nat \<Rightarrow> int \<Rightarrow> unit sop" where
  "socket_server_send_lowpriority sid buffer sz =
     seq (send_checked sid buffer sz (Send_low sid buffer sz)) (ret ())"

definition socket_server_exit :: "unit sop" where
  "socket_server_exit = send_request Exit_server"

definition socket_server_close :: "u64 \<Rightarrow> u32 \<Rightarrow> unit sop" where
  "socket_server_close opaque sid = send_request (Close_socket sid False opaque)"

definition socket_server_shutdown :: "u64 \<Rightarrow> u32 \<Rightarrow> unit sop" where
  "socket_server_shutdown opaque sid = send_request (Close_socket sid True opaque)"

text \<open>Binding an address: the descriptor and the family of the address, or nothing.\<close>

definition do_bind :: "kernel \<Rightarrow> bytes \<Rightarrow> int \<Rightarrow> (int \<times> family) option sop" where
  "do_bind K host port =
     bind_o (sys (Sys_getaddrinfo (if host = [] then cstring ''0.0.0.0'' else host) port)) (\<lambda>h.
       case k_getaddrinfo K h of
         Inl _ \<Rightarrow> ret None
       | Inr [] \<Rightarrow> throw Out_of_bounds
       | Inr (ai # _) \<Rightarrow>
           bind_o (sys (Sys_socket (sa_family ai))) (\<lambda>h.
             case k_socket K h of
               Inl _ \<Rightarrow> ret None
             | Inr fd \<Rightarrow>
                 bind_o (sys (Sys_reuseaddr fd)) (\<lambda>h.
                   if \<not> k_reuseaddr K h then seq (sys_do (Sys_close fd)) (ret None)
                   else
                     bind_o (sys (Sys_bind fd ai)) (\<lambda>h.
                       if \<not> k_bind K h then seq (sys_do (Sys_close fd)) (ret None)
                       else ret (Some (fd, sa_family ai))))))"

definition do_listen :: "kernel \<Rightarrow> bytes \<Rightarrow> int \<Rightarrow> int \<Rightarrow> int option sop" where
  "do_listen K host port backlog =
     bind_o (do_bind K host port) (\<lambda>r.
       case r of
         None \<Rightarrow> ret None
       | Some (listen_fd, _) \<Rightarrow>
           bind_o (sys (Sys_listen listen_fd backlog)) (\<lambda>h.
             if \<not> k_listen K h then seq (sys_do (Sys_close listen_fd)) (ret None) else ret (Some listen_fd)))"

definition socket_server_listen :: "kernel \<Rightarrow> u64 \<Rightarrow> bytes \<Rightarrow> int \<Rightarrow> int \<Rightarrow> u32 sop" where
  "socket_server_listen K opaque addr port backlog =
     bind_o (do_listen K addr port backlog) (\<lambda>r.
       case r of
         None \<Rightarrow> ret (- 1)
       | Some fd \<Rightarrow>
           bind_o reserve_id (\<lambda>sid.
             if sint sid < 0 then seq (sys_do (Sys_close fd)) (ret sid)
             else seq (send_request (Listen_socket sid fd opaque)) (ret sid)))"

definition socket_server_bind :: "u64 \<Rightarrow> int \<Rightarrow> u32 sop" where
  "socket_server_bind opaque fd =
     bind_o reserve_id (\<lambda>sid.
       if sint sid < 0 then ret (- 1) else seq (send_request (Bind_socket sid fd opaque)) (ret sid))"

definition socket_server_start :: "u64 \<Rightarrow> u32 \<Rightarrow> unit sop" where
  "socket_server_start opaque sid = send_request (Start_socket sid opaque)"

definition TCP_NODELAY :: int where "TCP_NODELAY = 1"

definition socket_server_nodelay :: "u32 \<Rightarrow> unit sop" where
  "socket_server_nodelay sid = send_request (Set_opt sid TCP_NODELAY 1)"

definition socket_server_userobject :: "socket_object_interface \<Rightarrow> unit sop" where
  "socket_server_userobject f = modify (\<lambda>ss. ss\<lparr>ss_soi := Some f\<rparr>)"

definition family_number :: "family \<Rightarrow> int" where
  "family_number f = (case f of AF_INET \<Rightarrow> FAMILY_INET | AF_INET6 \<Rightarrow> FAMILY_INET6 | AF_OTHER n \<Rightarrow> int n)"

definition socket_server_udp :: "kernel \<Rightarrow> u64 \<Rightarrow> bytes option \<Rightarrow> int \<Rightarrow> u32 sop" where
  "socket_server_udp K opaque addr port =
     bind_o (if port \<noteq> 0 \<or> addr \<noteq> None then do_bind K (case addr of None \<Rightarrow> [] | Some a \<Rightarrow> a) port
             else bind_o (sys (Sys_socket AF_INET)) (\<lambda>h.
                    case k_socket K h of Inl _ \<Rightarrow> ret None | Inr fd \<Rightarrow> ret (Some (fd, AF_INET)))) (\<lambda>r.
       case r of
         None \<Rightarrow> ret (- 1)
       | Some (fd, family) \<Rightarrow>
           seq (sys_do (Sys_nonblocking fd))
          (bind_o reserve_id (\<lambda>sid.
             if sint sid < 0 then seq (sys_do (Sys_close fd)) (ret (- 1))
             else seq (send_request (Create_udp sid fd (family_number family) opaque)) (ret sid))))"

text \<open>The part of a UDP address that is in use; the request carries it in a field of 19 bytes.\<close>

definition udp_address_size :: "bytes \<Rightarrow> nat option" where
  "udp_address_size address =
     (if address ! 0 = protocol_byte PROTOCOL_UDP then Some (1 + 2 + 4)
      else if address ! 0 = protocol_byte PROTOCOL_UDPv6 then Some (1 + 2 + 16) else None)"

definition udp_field :: "bytes \<Rightarrow> bytes" where
  "udp_field a = a @ replicate (UDP_ADDRESS_SIZE - length a) 0"

definition socket_server_udp_send :: "u32 \<Rightarrow> bytes \<Rightarrow> nat \<Rightarrow> int \<Rightarrow> int sop" where
  "socket_server_udp_send sid addr buffer sz =
     bind_o (get_slot (HASH_ID sid)) (\<lambda>s.
       if sk_id s \<noteq> sid \<or> sk_type s = SOCKET_TYPE_INVALID
       then seq (free_buffer buffer sz) (ret (- 1))
       else
         (case udp_address_size addr of
            None \<Rightarrow> seq (free_buffer buffer sz) (ret (- 1))
          | Some n \<Rightarrow> seq (send_request (Send_udp sid buffer sz (udp_field (take n addr)))) (ret (sk_wb_size s))))"

definition socket_server_udp_connect :: "kernel \<Rightarrow> u32 \<Rightarrow> bytes \<Rightarrow> int \<Rightarrow> int sop" where
  "socket_server_udp_connect K sid addr port =
     bind_o (sys (Sys_getaddrinfo addr port)) (\<lambda>h.
       case k_getaddrinfo K h of
         Inl _ \<Rightarrow> ret (- 1)
       | Inr [] \<Rightarrow> throw Out_of_bounds
       | Inr (ai # _) \<Rightarrow>
           (case sa_family ai of
              AF_INET \<Rightarrow> seq (send_request (Set_udp sid (udp_field (gen_udp_address PROTOCOL_UDP ai)))) (ret 0)
            | AF_INET6 \<Rightarrow> seq (send_request (Set_udp sid (udp_field (gen_udp_address PROTOCOL_UDPv6 ai)))) (ret 0)
            | AF_OTHER _ \<Rightarrow> ret (- 1)))"

text \<open>The address behind the data of a UDP message.\<close>

definition socket_server_udp_address :: "bytes \<Rightarrow> nat \<Rightarrow> bytes option res" where
  "socket_server_udp_address data ud =
     bind_r (mem_read data ud 1) (\<lambda>type.
       case udp_address_size type of
         None \<Rightarrow> Inr None
       | Some n \<Rightarrow> bind_r (mem_read data ud n) (\<lambda>a. Inr (Some a)))"

end
