(* ===== verification/Socket_ok.thy ===== *)
theory Socket_ok
  imports Socket "HOL-Library.Multiset"
begin

text \<open>
  The invariant of the socket server and its preservation by every operation: no assertion of the server
  fails, no object is used after it was freed or freed twice, and no socket is handled in a state in which
  it is not watched, whatever the network does.
\<close>

section \<open>The invariant\<close>

text \<open>What a wait can report: the sockets that were added to the poll and not removed.\<close>

fun watch_call :: "kernel \<Rightarrow> syscall list \<Rightarrow> syscall \<Rightarrow> (int \<Rightarrow> nat option) \<Rightarrow> (int \<Rightarrow> nat option)" where
  "watch_call K h (Sys_add fd i) w = (if k_add K (h @ [Sys_add fd i]) = None then w(fd \<mapsto> i) else w)"
| "watch_call K h (Sys_del fd) w = w(fd := None)"
| "watch_call K h c w = w"

fun watch_from :: "kernel \<Rightarrow> syscall list \<Rightarrow> (int \<Rightarrow> nat option) \<Rightarrow> syscall list \<Rightarrow> (int \<Rightarrow> nat option)" where
  "watch_from K h w [] = w"
| "watch_from K h w (c # cs) = watch_from K (h @ [c]) (watch_call K h c w) cs"

definition watch :: "kernel \<Rightarrow> syscall list \<Rightarrow> (int \<Rightarrow> nat option)" where
  "watch K = watch_from K [] Map.empty"

lemma watch_from_snoc: "watch_from K h w (cs @ [c]) = watch_call K (h @ cs) c (watch_from K h w cs)"
  by (induction cs arbitrary: h w) simp_all

lemma watch_snoc: "watch K (h @ [c]) = watch_call K h c (watch K h)"
  using watch_from_snoc [of K "[]" Map.empty h c] by (simp add: watch_def)

text \<open>
  The documented behaviour of the kernel that the server relies on: \<open>write\<close> and \<open>read\<close> move at most the
  bytes asked for, a \<open>write\<close> is not interrupted for ever, \<open>epoll_ctl\<close> refuses a descriptor that is already watched, and \<open>epoll_wait\<close> reports
  watched sockets only, each at most once.
\<close>

definition kernel_ok :: "kernel \<Rightarrow> bool" where
  "kernel_ok K =
     ((\<forall>h fd d n. k_write K (h @ [Sys_write fd d]) = Inr n \<longrightarrow> n \<le> length d) \<and>
      (\<forall>h fd d. \<exists>k. k_write K (h @ replicate (Suc k) (Sys_write fd d)) \<noteq> Inl EINTR) \<and>
      (\<forall>h fd sz d. k_read K (h @ [Sys_read fd sz]) = Inr d \<longrightarrow> int (length d) \<le> sz) \<and>
      (\<forall>h d a. k_recvfrom K h = Inr (d, a) \<longrightarrow> length d \<le> MAX_UDP_PACKAGE) \<and>
      (\<forall>h. k_getaddrinfo K h \<noteq> Inr []) \<and>
      (\<forall>h fd i. k_add K (h @ [Sys_add fd i]) = None \<longrightarrow> watch K h fd = None) \<and>
      (\<forall>h. distinct (List.map_filter ev_s (k_wait K h)) \<and>
           set (List.map_filter ev_s (k_wait K h)) \<subseteq> ran (watch K h)))"

text \<open>The buffers of a socket, of a request, and of all requests in the pipe.\<close>

definition wbs :: "socket \<Rightarrow> write_buffer list" where
  "wbs s = sk_high s @ sk_low s"

fun request_bufs :: "ctrl_request \<Rightarrow> nat list" where
  "request_bufs (Send_high sid b sz) = [b]"
| "request_bufs (Send_low sid b sz) = [b]"
| "request_bufs (Send_udp sid b sz a) = [b]"
| "request_bufs r = []"

definition piped :: "ctrl_request list \<Rightarrow> nat list" where
  "piped rs = concat (map request_bufs rs)"

text \<open>A pending write points into its allocated object.\<close>

definition wb_ok :: "(nat \<Rightarrow> bytes option) \<Rightarrow> write_buffer \<Rightarrow> bool" where
  "wb_ok mem wb =
     (\<not> wb_userobject wb \<and> fst (wb_ptr wb) = wb_buffer wb \<and> 0 \<le> wb_sz wb \<and>
      (\<exists>b. mem (wb_buffer wb) = Some b \<and> snd (wb_ptr wb) + nat (wb_sz wb) \<le> length b))"

fun request_ok :: "(nat \<Rightarrow> bytes option) \<Rightarrow> ctrl_request \<Rightarrow> bool" where
  "request_ok mem (Set_udp sid a) = (a ! 0 \<noteq> protocol_byte PROTOCOL_TCP)"
| "request_ok mem (Send_high sid b sz) = (0 \<le> sz \<and> (\<exists>bs. mem b = Some bs \<and> nat sz \<le> length bs))"
| "request_ok mem (Send_low sid b sz) = (0 \<le> sz \<and> (\<exists>bs. mem b = Some bs \<and> nat sz \<le> length bs))"
| "request_ok mem (Send_udp sid b sz a) = (0 \<le> sz \<and> (\<exists>bs. mem b = Some bs \<and> nat sz \<le> length bs))"
| "request_ok mem r = True"

text \<open>
  Memory: \<open>own i\<close> are the pending writes that slot \<open>i\<close> owns. Every buffer has one owner: one pending write
  of one socket or one request in the pipe.
\<close>

definition mem_inv :: "(nat \<Rightarrow> write_buffer list) \<Rightarrow> socket_server \<Rightarrow> bool" where
  "mem_inv own ss =
     (ss_soi ss = None \<and> (\<forall>a. ss_mem ss a \<noteq> None \<longrightarrow> a < ss_next ss) \<and>
      (\<forall>i. \<forall>wb \<in> set (own i). wb_ok (ss_mem ss) wb) \<and>
      (\<forall>r \<in> set (ss_pipe ss). request_ok (ss_mem ss) r) \<and>
      (\<forall>i. distinct (map wb_buffer (own i) @ piped (ss_pipe ss))) \<and>
      (\<forall>i j. i \<noteq> j \<longrightarrow> wb_buffer ` set (own i) \<inter> wb_buffer ` set (own j) = {}))"

text \<open>The socket that a request is for, and the requests that open a reserved socket.\<close>

fun target :: "ctrl_request \<Rightarrow> u32" where
  "target (Start_socket sid opaque) = sid"
| "target (Bind_socket sid fd opaque) = sid"
| "target (Listen_socket sid fd opaque) = sid"
| "target (Close_socket sid shutdown opaque) = sid"
| "target (Open_socket sid port opaque host) = sid"
| "target Exit_server = 0"
| "target (Send_high sid b sz) = sid"
| "target (Send_low sid b sz) = sid"
| "target (Send_udp sid b sz a) = sid"
| "target (Set_opt sid what v) = sid"
| "target (Create_udp sid fd family opaque) = sid"
| "target (Set_udp sid a) = sid"

fun opener :: "ctrl_request \<Rightarrow> bool" where
  "opener (Bind_socket sid fd opaque) = True"
| "opener (Listen_socket sid fd opaque) = True"
| "opener (Open_socket sid port opaque host) = True"
| "opener (Create_udp sid fd family opaque) = True"
| "opener r = False"

definition openers :: "ctrl_request list \<Rightarrow> u32 list" where
  "openers rs = map target (filter opener rs)"

text \<open>No request comes before the one that opens its socket.\<close>

fun in_order :: "ctrl_request list \<Rightarrow> bool" where
  "in_order [] = True"
| "in_order (r # rs) = ((opener r \<or> target r \<notin> set (openers rs)) \<and> in_order rs)"

text \<open>
  Control: ids are given out in ascending order; a slot is reserved exactly while the request that opens
  it is in the pipe, or while it is in the list \<open>R\<close> of ids that the running operation has reserved.
\<close>

definition ctl_inv :: "u32 list \<Rightarrow> socket_server \<Rightarrow> bool" where
  "ctl_inv R ss =
     (unat (ss_alloc_id ss) < 2 ^ 31 \<and>
      (\<forall>r \<in> set (ss_pipe ss). unat (target r) \<le> unat (ss_alloc_id ss)) \<and>
      (\<forall>i. sk_type (ss_slot ss i) \<noteq> SOCKET_TYPE_INVALID \<longrightarrow>
         HASH_ID (sk_id (ss_slot ss i)) = i \<and> unat (sk_id (ss_slot ss i)) \<le> unat (ss_alloc_id ss)) \<and>
      (\<forall>i. sk_type (ss_slot ss i) = SOCKET_TYPE_RESERVE \<longrightarrow> sk_id (ss_slot ss i) \<in> set (R @ openers (ss_pipe ss))) \<and>
      (\<forall>sid \<in> set (R @ openers (ss_pipe ss)).
         sk_type (ss_slot ss (HASH_ID sid)) = SOCKET_TYPE_RESERVE \<and> sk_id (ss_slot ss (HASH_ID sid)) = sid) \<and>
      distinct (R @ openers (ss_pipe ss)) \<and> in_order (ss_pipe ss))"

text \<open>
  Events: the kernel watches exactly the descriptors \<open>reg\<close>, which are those of the sockets in a registered
  state, and an event that is still to be handled is for one of them or for a socket in \<open>X\<close>, and for none in \<open>N\<close>.
\<close>

definition registered_type :: "socket_type \<Rightarrow> bool" where
  "registered_type t = (t \<in> {SOCKET_TYPE_LISTEN, SOCKET_TYPE_CONNECTING, SOCKET_TYPE_CONNECTED, SOCKET_TYPE_HALFCLOSE, SOCKET_TYPE_BIND})"

definition watched_fd :: "socket \<Rightarrow> int option" where
  "watched_fd s = (if registered_type (sk_type s) then Some (sk_fd s) else None)"

definition ev_inv :: "kernel \<Rightarrow> nat set \<Rightarrow> nat set \<Rightarrow> (nat \<Rightarrow> int option) \<Rightarrow> socket_server \<Rightarrow> bool" where
  "ev_inv K N X reg ss =
     (distinct (List.map_filter ev_s (ss_ev ss)) \<and> ss_event_index ss \<le> length (ss_ev ss) \<and>
      (\<forall>e \<in> set (drop (ss_event_index ss) (ss_ev ss)). \<forall>i. ev_s e = Some i \<longrightarrow>
         i \<notin> N \<and> (i \<in> X \<or> registered_type (sk_type (ss_slot ss i)))) \<and>
      (\<forall>fd i. watch K (ss_calls ss) fd = Some i \<longleftrightarrow> reg i = Some fd))"

text \<open>A socket in itself: what waits, the variant of the union, and the head of the low list.\<close>

definition read_size_ok :: "int \<Rightarrow> bool" where
  "read_size_ok n = (\<exists>k. n = MIN_READ_BUFFER * 2 ^ k)"

lemma read_size_min [simp]: "read_size_ok MIN_READ_BUFFER"
  unfolding read_size_ok_def by (rule exI [of _ 0]) simp

definition param_ok :: "socket \<Rightarrow> bool" where
  "param_ok s =
     (case sk_p s of Read_size n \<Rightarrow> sk_protocol s = PROTOCOL_TCP \<and> read_size_ok n | Udp_address a \<Rightarrow> sk_protocol s \<noteq> PROTOCOL_TCP)"

definition total_sz :: "write_buffer list \<Rightarrow> int" where
  "total_sz l = sum_list (map wb_sz l)"

definition slot_ok :: "socket \<Rightarrow> bool" where
  "slot_ok s =
     (if sk_type s = SOCKET_TYPE_INVALID \<or> sk_type s = SOCKET_TYPE_RESERVE then wbs s = []
      else
        param_ok s \<and> sk_wb_size s = total_sz (wbs s) \<and> (\<forall>wb \<in> set (sk_low s). wb_ptr wb = (wb_buffer wb, 0)) \<and>
        (sk_type s \<in> {SOCKET_TYPE_PLISTEN, SOCKET_TYPE_LISTEN, SOCKET_TYPE_PACCEPT} \<longrightarrow> wbs s = []))"

definition base ::
  "kernel \<Rightarrow> nat set \<Rightarrow> u32 list \<Rightarrow> nat set \<Rightarrow> (nat \<Rightarrow> write_buffer list) \<Rightarrow> (nat \<Rightarrow> int option) \<Rightarrow> socket_server \<Rightarrow> bool" where
  "base K N R X own reg ss = (mem_inv own ss \<and> ctl_inv R ss \<and> ev_inv K N X reg ss)"

definition server_ok :: "kernel \<Rightarrow> nat set \<Rightarrow> u32 list \<Rightarrow> nat set \<Rightarrow> socket_server \<Rightarrow> bool" where
  "server_ok K N R X ss = (base K N R X (\<lambda>j. wbs (ss_slot ss j)) (\<lambda>j. watched_fd (ss_slot ss j)) ss \<and> (\<forall>j. slot_ok (ss_slot ss j)))"

text \<open>
  The same with the operation at work on slot \<open>i\<close>, which holds \<open>s\<close> and, whatever its lists are, owns the
  writes \<open>l\<close> and is watched as \<open>w\<close>.
\<close>

definition at_slot ::
  "kernel \<Rightarrow> nat set \<Rightarrow> u32 list \<Rightarrow> nat set \<Rightarrow> nat \<Rightarrow> write_buffer list \<Rightarrow> int option \<Rightarrow> socket \<Rightarrow> socket_server \<Rightarrow> bool" where
  "at_slot K N R X i l w s ss =
     (base K N R X ((\<lambda>j. wbs (ss_slot ss j))(i := l)) ((\<lambda>j. watched_fd (ss_slot ss j))(i := w)) ss \<and> ss_slot ss i = s \<and> (\<forall>j. j \<noteq> i \<longrightarrow> slot_ok (ss_slot ss j)))"

lemma server_at:
  "server_ok K N R X ss \<Longrightarrow> at_slot K N R X i (wbs (ss_slot ss i)) (watched_fd (ss_slot ss i)) (ss_slot ss i) ss"
  by (simp add: server_ok_def at_slot_def fun_upd_idem)

lemma at_server:
  assumes "at_slot K N R X i l w s ss" "l = wbs s" "w = watched_fd s" "slot_ok s"
  shows "server_ok K N R X ss"
proof -
  have "ss_slot ss i = s" using assms(1) by (simp add: at_slot_def)
  then have "(\<lambda>j. wbs (ss_slot ss j))(i := l) = (\<lambda>j. wbs (ss_slot ss j))"
    "(\<lambda>j. watched_fd (ss_slot ss j))(i := w) = (\<lambda>j. watched_fd (ss_slot ss j))" using assms(2,3) by auto
  then show ?thesis using assms(1,4) unfolding server_ok_def at_slot_def by metis
qed

section \<open>Steps on one slot\<close>

abbreviation sound :: "(socket_server \<Rightarrow> bool) \<Rightarrow> 'a sop \<Rightarrow> ('a \<Rightarrow> socket_server \<Rightarrow> bool) \<Rightarrow> bool" where
  "sound \<equiv> triple {}"

lemma at_get: "sound (at_slot K N R X i l w s) (get_slot i) (\<lambda>x ss. x = s \<and> at_slot K N R X i l w s ss)"
  unfolding get_slot_def by (rule triple_gets) (simp add: at_slot_def)

lemma sound_get: "(sound (at_slot K N R X i l w s) (k s) Q) \<Longrightarrow> sound (at_slot K N R X i l w s) (bind_o (get_slot i) k) Q"
  by (rule triple_bind [OF at_get], rule triple_pure) simp

lemma mem_inv_wb: "mem_inv own ss \<Longrightarrow> wb \<in> set (own i) \<Longrightarrow> wb_ok (ss_mem ss) wb"
  by (simp add: mem_inv_def)

lemma mem_inv_distinct: "mem_inv own ss \<Longrightarrow> distinct (map wb_buffer (own i) @ piped (ss_pipe ss))"
  unfolding mem_inv_def by blast

lemma at_wb: "at_slot K N R X i l w s ss \<Longrightarrow> wb \<in> set l \<Longrightarrow> wb_ok (ss_mem ss) wb"
  using mem_inv_wb [of "(\<lambda>j. wbs (ss_slot ss j))(i := l)" ss wb i] by (simp add: at_slot_def base_def)

lemma at_change:
  assumes "at_slot K N R X i l w s ss" "sk_type s' = sk_type s" "sk_id s' = sk_id s"
  shows "at_slot K N R X i l w s' (ss\<lparr>ss_slot := (ss_slot ss)(i := s')\<rparr>)"
proof -
  let ?ss = "ss\<lparr>ss_slot := (ss_slot ss)(i := s')\<rparr>"
  have t: "sk_type (ss_slot ?ss j) = sk_type (ss_slot ss j)" "sk_id (ss_slot ?ss j) = sk_id (ss_slot ss j)" for j
    using assms by (simp_all add: at_slot_def)
  have own: "(\<lambda>j. wbs (ss_slot ?ss j))(i := l) = (\<lambda>j. wbs (ss_slot ss j))(i := l)"
    "(\<lambda>j. watched_fd (ss_slot ?ss j))(i := w) = (\<lambda>j. watched_fd (ss_slot ss j))(i := w)" by auto
  have "mem_inv ((\<lambda>j. wbs (ss_slot ?ss j))(i := l)) ?ss"
    using assms(1) unfolding own by (simp add: at_slot_def base_def mem_inv_def)
  moreover have "ctl_inv R ?ss" using assms(1) unfolding ctl_inv_def t by (simp add: at_slot_def base_def ctl_inv_def)
  moreover have "ev_inv K N X ((\<lambda>j. watched_fd (ss_slot ?ss j))(i := w)) ?ss" unfolding own using assms(1) unfolding ev_inv_def t by (simp add: at_slot_def base_def ev_inv_def)
  ultimately show ?thesis using assms(1) by (simp add: at_slot_def base_def)
qed

lemma at_upd:
  assumes "sk_type (f s) = sk_type s" "sk_id (f s) = sk_id s"
  shows "sound (at_slot K N R X i l w s) (upd_slot i f) (\<lambda>_. at_slot K N R X i l w (f s))"
  unfolding upd_slot_def
proof (rule triple_modify)
  fix ss assume a: "at_slot K N R X i l w s ss"
  then have "ss_slot ss i = s" by (simp add: at_slot_def)
  then show "at_slot K N R X i l w (f s) (ss\<lparr>ss_slot := (ss_slot ss)(i := f (ss_slot ss i))\<rparr>)"
    using at_change [OF a assms] by simp
qed

lemma at_owns:
  assumes "at_slot K N R X i l w s ss" "mset (map wb_buffer l') = mset (map wb_buffer l)"
    "\<And>mem. \<forall>wb \<in> set l. wb_ok mem wb \<Longrightarrow> \<forall>wb \<in> set l'. wb_ok mem wb"
  shows "at_slot K N R X i l' w s ss"
proof -
  let ?o = "(\<lambda>j. wbs (ss_slot ss j))(i := l)" and ?o' = "(\<lambda>j. wbs (ss_slot ss j))(i := l')"
  have m: "mem_inv ?o ss" using assms(1) by (simp add: at_slot_def base_def)
  have s: "wb_buffer ` set l' = wb_buffer ` set l"
    using assms(2) by (metis list.set_map set_mset_mset)
  have img: "wb_buffer ` set (?o' j) = wb_buffer ` set (?o j)" for j using s by simp
  have "\<forall>wb \<in> set l'. wb_ok (ss_mem ss) wb"
    using m by (intro assms(3)) (auto simp: mem_inv_def dest: spec [where x = i])
  then have ok: "\<forall>wb \<in> set (?o' j). wb_ok (ss_mem ss) wb" for j
    using m unfolding mem_inv_def by (cases "j = i") (auto dest: spec [where x = j])
  have ld: "distinct (map wb_buffer l @ piped (ss_pipe ss))"
    using mem_inv_distinct [OF m, of i] by simp
  have "mset (map wb_buffer l' @ piped (ss_pipe ss)) = mset (map wb_buffer l @ piped (ss_pipe ss))"
    using assms(2) by simp
  then have ld': "distinct (map wb_buffer l' @ piped (ss_pipe ss))" using ld mset_eq_imp_distinct_iff by blast
  have d: "distinct (map wb_buffer (?o' j) @ piped (ss_pipe ss))" for j
  proof (cases "j = i")
    case False
    have "distinct (map wb_buffer (?o j) @ piped (ss_pipe ss))" using m unfolding mem_inv_def by blast
    then show ?thesis using False by simp
  qed (use ld' in simp)
  have "mem_inv ?o' ss" using m ok d unfolding mem_inv_def img by blast
  then show ?thesis using assms(1) by (simp add: at_slot_def base_def)
qed

lemma mem_inv_frees:
  assumes m: "mem_inv own ss" and l: "own i = wb # l"
  shows "mem_inv (own(i := l)) (ss\<lparr>ss_mem := (ss_mem ss)(wb_buffer wb := None)\<rparr>)"
proof -
  let ?b = "wb_buffer wb"
  have out: "?b \<notin> wb_buffer ` set ((own(i := l)) j)" for j
  proof (cases "j = i")
    case True
    have "distinct (map wb_buffer (own i) @ piped (ss_pipe ss))" using m unfolding mem_inv_def by blast
    then show ?thesis using True l by auto
  next
    case False
    have "wb_buffer ` set (own i) \<inter> wb_buffer ` set (own j) = {}" using m False unfolding mem_inv_def by metis
    then show ?thesis using False l by auto
  qed
  have pout: "?b \<notin> set (piped (ss_pipe ss))"
  proof -
    have "distinct (map wb_buffer (own i) @ piped (ss_pipe ss))" using m unfolding mem_inv_def by blast
    then show ?thesis using l by simp
  qed
  have w: "wb_ok ((ss_mem ss)(?b := None)) x" if "x \<in> set ((own(i := l)) j)" for x j
  proof -
    have "x \<in> set (own j)" using that l by (auto split: if_splits)
    then have "wb_ok (ss_mem ss) x" using m unfolding mem_inv_def by blast
    moreover have "wb_buffer x \<noteq> ?b" using out [of j] that by (metis image_eqI)
    ultimately show ?thesis by (simp add: wb_ok_def)
  qed
  have r: "request_ok ((ss_mem ss)(?b := None)) x" if x: "x \<in> set (ss_pipe ss)" for x
  proof -
    have "request_ok (ss_mem ss) x" using m x unfolding mem_inv_def by blast
    moreover have "?b \<notin> set (request_bufs x)" using pout x unfolding piped_def by auto
    ultimately show ?thesis by (cases x) auto
  qed
  have d: "distinct (map wb_buffer ((own(i := l)) j) @ piped (ss_pipe ss))" for j
  proof -
    have "distinct (map wb_buffer (own j) @ piped (ss_pipe ss))" using m unfolding mem_inv_def by blast
    then show ?thesis using l by (cases "j = i") simp_all
  qed
  have dj: "wb_buffer ` set ((own(i := l)) j) \<inter> wb_buffer ` set ((own(i := l)) k) = {}" if "j \<noteq> k" for j k
  proof -
    have "wb_buffer ` set (own j) \<inter> wb_buffer ` set (own k) = {}" using m that unfolding mem_inv_def by blast
    moreover have "set ((own(i := l)) j) \<subseteq> set (own j)" "set ((own(i := l)) k) \<subseteq> set (own k)" using l by auto
    ultimately show ?thesis by blast
  qed
  have "\<forall>a. ((ss_mem ss)(?b := None)) a \<noteq> None \<longrightarrow> a < ss_next ss" "ss_soi ss = None"
    using m by (auto simp: mem_inv_def)
  then show ?thesis using w r d dj unfolding mem_inv_def by simp
qed

lemma at_free:
  "sound (at_slot K N R X i (wb # l) w s) (write_buffer_free wb) (\<lambda>_. at_slot K N R X i l w s)"
proof (rule tripleI)
  fix ss assume a: "at_slot K N R X i (wb # l) w s ss"
  let ?o = "(\<lambda>j. wbs (ss_slot ss j))(i := wb # l)"
  have m: "mem_inv ?o ss" using a by (simp add: at_slot_def base_def)
  then have ok: "wb_ok (ss_mem ss) wb" by (auto simp: mem_inv_def dest: spec [where x = i])
  have "mem_inv (?o(i := l)) (ss\<lparr>ss_mem := (ss_mem ss)(wb_buffer wb := None)\<rparr>)"
    using mem_inv_frees [OF m, of i wb l] by simp
  then have "at_slot K N R X i l w s (ss\<lparr>ss_mem := (ss_mem ss)(wb_buffer wb := None)\<rparr>)"
    using a by (simp add: at_slot_def base_def ctl_inv_def ev_inv_def)
  then show "case write_buffer_free wb ss of Inl e \<Rightarrow> e \<in> {} | Inr (x, ss') \<Rightarrow> at_slot K N R X i l w s ss'"
    using ok by (auto simp: write_buffer_free_def free_object_def so_free_def wb_ok_def)
qed

lemma at_free_object:
  "wb_userobject wb = False \<Longrightarrow> wb_buffer wb = b \<Longrightarrow>
    sound (at_slot K N R X i (wb # l) w s) (free_object False b) (\<lambda>_. at_slot K N R X i l w s)"
  using at_free [of K N R X i wb l w s] by (simp add: write_buffer_free_def)

lemma at_free_list:
  "sound (at_slot K N R X i (l @ l') w s) (free_wb_list l) (\<lambda>_. at_slot K N R X i l' w s)"
proof (induction l)
  case Nil
  then show ?case by (simp add: triple_ret)
next
  case (Cons wb l)
  then show ?case by (simp add: triple_seq' [OF at_free])
qed

text \<open>A system call that does not change what is watched.\<close>

definition quiet :: "syscall \<Rightarrow> bool" where
  "quiet c = (case c of Sys_add _ _ \<Rightarrow> False | Sys_del _ \<Rightarrow> False | _ \<Rightarrow> True)"

lemma watch_quiet: "quiet c \<Longrightarrow> watch K (h @ [c]) = watch K h"
  by (cases c) (simp_all add: watch_snoc quiet_def)

lemma quiet_simps [simp]:
  "quiet (Sys_write fd d)" "quiet (Sys_sendto fd d a)" "quiet (Sys_read fd sz)" "quiet (Sys_recvfrom fd)" "quiet (Sys_accept fd)"
  "quiet (Sys_close fd)" "quiet (Sys_poll_write fd b)" "quiet Sys_wait" "quiet Sys_select" "quiet (Sys_socket_error fd)"
  "quiet (Sys_getpeername fd)" "quiet (Sys_setsockopt fd w v)" "quiet (Sys_keepalive fd)" "quiet (Sys_nonblocking fd)"
  "quiet (Sys_getaddrinfo h p)" "quiet (Sys_socket f)" "quiet (Sys_connect fd sa)" "quiet (Sys_reuseaddr fd)"
  "quiet (Sys_bind fd sa)" "quiet (Sys_listen fd n)"
  by (simp_all add: quiet_def)

lemma base_calls: "watch K cs = watch K (ss_calls ss) \<Longrightarrow> base K N R X own reg (ss\<lparr>ss_calls := cs\<rparr>) = base K N R X own reg ss"
  by (simp add: base_def mem_inv_def ctl_inv_def ev_inv_def)

lemma at_calls: "watch K cs = watch K (ss_calls ss) \<Longrightarrow> at_slot K N R X i l w s (ss\<lparr>ss_calls := cs\<rparr>) = at_slot K N R X i l w s ss"
  by (simp add: at_slot_def base_calls)

lemma server_calls: "watch K cs = watch K (ss_calls ss) \<Longrightarrow> server_ok K N R X (ss\<lparr>ss_calls := cs\<rparr>) = server_ok K N R X ss"
  by (simp add: server_ok_def base_calls)

lemma at_sys: "quiet c \<Longrightarrow> sound (at_slot K N R X i l w s) (sys c) (\<lambda>h ss. (\<exists>h'. h = h' @ [c]) \<and> at_slot K N R X i l w s ss)"
  by (rule tripleI) (simp add: sys_def at_calls watch_quiet)

lemma at_sys_do: "quiet c \<Longrightarrow> sound (at_slot K N R X i l w s) (sys_do c) (\<lambda>_. at_slot K N R X i l w s)"
  unfolding sys_do_def seq_def by (rule triple_bind [OF at_sys], assumption) (rule triple_ret, simp)

lemma server_sys: "quiet c \<Longrightarrow> sound (server_ok K N R X) (sys c) (\<lambda>h ss. (\<exists>h'. h = h' @ [c]) \<and> server_ok K N R X ss)"
  by (rule tripleI) (simp add: sys_def server_calls watch_quiet)

lemma server_sys_do: "quiet c \<Longrightarrow> sound (server_ok K N R X) (sys_do c) (\<lambda>_. server_ok K N R X)"
  unfolding sys_do_def seq_def by (rule triple_bind [OF server_sys], assumption) (rule triple_ret, simp)

lemma at_load:
  assumes "wb \<in> set l"
  shows "sound (at_slot K N R X i l w s) (so_load (wb_ptr wb) (wb_sz wb)) (\<lambda>d ss. length d = nat (wb_sz wb) \<and> at_slot K N R X i l w s ss)"
proof (rule tripleI)
  fix ss assume a: "at_slot K N R X i l w s ss"
  then have "wb_ok (ss_mem ss) wb" using assms at_wb by blast
  then show "case so_load (wb_ptr wb) (wb_sz wb) ss of Inl e \<Rightarrow> e \<in> {}
      | Inr (d, ss) \<Rightarrow> length d = nat (wb_sz wb) \<and> at_slot K N R X i l w s ss"
    using a by (auto simp: so_load_def wb_ok_def mem_read_def)
qed

section \<open>Steps that open, watch and close\<close>

lemma kernel_ok_write: "kernel_ok K \<Longrightarrow> k_write K (h @ [Sys_write fd d]) = Inr n \<Longrightarrow> n \<le> length d"
  unfolding kernel_ok_def by blast

lemma kernel_ok_read: "kernel_ok K \<Longrightarrow> k_read K (h @ [Sys_read fd sz]) = Inr d \<Longrightarrow> int (length d) \<le> sz"
  unfolding kernel_ok_def by blast

lemma kernel_ok_recvfrom: "kernel_ok K \<Longrightarrow> k_recvfrom K h = Inr (d, a) \<Longrightarrow> length d \<le> MAX_UDP_PACKAGE"
  unfolding kernel_ok_def by blast

lemma kernel_ok_addrinfo: "kernel_ok K \<Longrightarrow> k_getaddrinfo K h \<noteq> Inr []"
  unfolding kernel_ok_def by blast

lemma kernel_ok_add: "kernel_ok K \<Longrightarrow> k_add K (h @ [Sys_add fd i]) = None \<Longrightarrow> watch K h fd = None"
  unfolding kernel_ok_def by blast

lemma kernel_ok_wait: "kernel_ok K \<Longrightarrow> distinct (List.map_filter ev_s (k_wait K h)) \<and>
    set (List.map_filter ev_s (k_wait K h)) \<subseteq> ran (watch K h)"
  unfolding kernel_ok_def by blast

lemma ev_mono: "ev_inv K N X reg ss \<Longrightarrow> X \<subseteq> Y \<Longrightarrow> ev_inv K N Y reg ss"
  unfolding ev_inv_def by blast

lemma server_mono: "server_ok K N R X ss \<Longrightarrow> X \<subseteq> Y \<Longrightarrow> server_ok K N R Y ss"
  unfolding server_ok_def base_def using ev_mono by blast

lemma ctl_live:
  assumes c: "ctl_inv R ss" "sk_type (ss_slot ss i) \<noteq> SOCKET_TYPE_RESERVE" "sk_type s' \<noteq> SOCKET_TYPE_RESERVE"
    and live: "sk_type s' \<noteq> SOCKET_TYPE_INVALID \<longrightarrow> sk_id s' = sk_id (ss_slot ss i) \<and> sk_type (ss_slot ss i) \<noteq> SOCKET_TYPE_INVALID"
  shows "ctl_inv R (ss\<lparr>ss_slot := (ss_slot ss)(i := s')\<rparr>)"
proof -
  let ?sl = "(ss_slot ss)(i := s')"
  have old: "\<forall>j. sk_type (ss_slot ss j) \<noteq> SOCKET_TYPE_INVALID \<longrightarrow>
      HASH_ID (sk_id (ss_slot ss j)) = j \<and> unat (sk_id (ss_slot ss j)) \<le> unat (ss_alloc_id ss)"
    "\<forall>j. sk_type (ss_slot ss j) = SOCKET_TYPE_RESERVE \<longrightarrow> sk_id (ss_slot ss j) \<in> set (R @ openers (ss_pipe ss))"
    "\<forall>sid \<in> set (R @ openers (ss_pipe ss)).
       sk_type (ss_slot ss (HASH_ID sid)) = SOCKET_TYPE_RESERVE \<and> sk_id (ss_slot ss (HASH_ID sid)) = sid"
    using c(1) unfolding ctl_inv_def by blast+
  have "HASH_ID (sk_id (?sl j)) = j \<and> unat (sk_id (?sl j)) \<le> unat (ss_alloc_id ss)"
    if "sk_type (?sl j) \<noteq> SOCKET_TYPE_INVALID" for j using that live old(1) by (cases "j = i") auto
  moreover have "sk_id (?sl j) \<in> set (R @ openers (ss_pipe ss))" if "sk_type (?sl j) = SOCKET_TYPE_RESERVE" for j
    using that c(3) old(2) by (cases "j = i") auto
  moreover have "sk_type (?sl (HASH_ID sid)) = SOCKET_TYPE_RESERVE \<and> sk_id (?sl (HASH_ID sid)) = sid"
    if "sid \<in> set (R @ openers (ss_pipe ss))" for sid
    using bspec [OF old(3) that] c(2) by (cases "HASH_ID sid = i") auto
  ultimately show ?thesis using c(1) unfolding ctl_inv_def by simp
qed

lemma ctl_open:
  assumes c: "ctl_inv (sid # R) ss" and i: "i = HASH_ID sid"
    and s': "sk_type s' \<noteq> SOCKET_TYPE_RESERVE" "sk_type s' \<noteq> SOCKET_TYPE_INVALID \<longrightarrow> sk_id s' = sid"
  shows "ctl_inv R (ss\<lparr>ss_slot := (ss_slot ss)(i := s')\<rparr>)"
proof -
  let ?sl = "(ss_slot ss)(i := s')"
  have old: "\<forall>j. sk_type (ss_slot ss j) \<noteq> SOCKET_TYPE_INVALID \<longrightarrow>
      HASH_ID (sk_id (ss_slot ss j)) = j \<and> unat (sk_id (ss_slot ss j)) \<le> unat (ss_alloc_id ss)"
    "\<forall>j. sk_type (ss_slot ss j) = SOCKET_TYPE_RESERVE \<longrightarrow> sk_id (ss_slot ss j) \<in> set (sid # R @ openers (ss_pipe ss))"
    "\<forall>sid \<in> set (sid # R @ openers (ss_pipe ss)).
       sk_type (ss_slot ss (HASH_ID sid)) = SOCKET_TYPE_RESERVE \<and> sk_id (ss_slot ss (HASH_ID sid)) = sid"
    "distinct (sid # R @ openers (ss_pipe ss))"
    using c unfolding ctl_inv_def by (simp_all del: set_append)
  have si: "sk_type (ss_slot ss i) = SOCKET_TYPE_RESERVE" "sk_id (ss_slot ss i) = sid" using old(3) i by auto
  have "HASH_ID (sk_id (?sl j)) = j \<and> unat (sk_id (?sl j)) \<le> unat (ss_alloc_id ss)"
    if "sk_type (?sl j) \<noteq> SOCKET_TYPE_INVALID" for j using that s'(2) spec [OF old(1), of j] si i by (cases "j = i") auto
  moreover have "sk_id (?sl j) \<in> set (R @ openers (ss_pipe ss))" if r: "sk_type (?sl j) = SOCKET_TYPE_RESERVE" for j
  proof -
    have j: "j \<noteq> i" using r s'(1) by auto
    then have t: "sk_type (ss_slot ss j) = SOCKET_TYPE_RESERVE" using r by simp
    then have "HASH_ID (sk_id (ss_slot ss j)) = j" using old(1) by auto
    then have "sk_id (ss_slot ss j) \<noteq> sid" using j i by auto
    then show ?thesis using old(2) t j by auto
  qed
  moreover have "sk_type (?sl (HASH_ID x)) = SOCKET_TYPE_RESERVE \<and> sk_id (?sl (HASH_ID x)) = x"
    if x: "x \<in> set (R @ openers (ss_pipe ss))" for x
  proof -
    have o: "sk_type (ss_slot ss (HASH_ID x)) = SOCKET_TYPE_RESERVE" "sk_id (ss_slot ss (HASH_ID x)) = x"
      using x old(3) by auto
    have "x \<noteq> sid" using x old(4) by auto
    then have "HASH_ID x \<noteq> i" using o si by auto
    then show ?thesis using o by simp
  qed
  ultimately show ?thesis using c unfolding ctl_inv_def by simp
qed

lemma ev_slot:
  assumes "ev_inv K N X reg ss" "i \<in> Y \<or> (registered_type (sk_type (ss_slot ss i)) \<longrightarrow> registered_type (sk_type s'))" "X \<subseteq> Y"
  shows "ev_inv K N Y reg (ss\<lparr>ss_slot := (ss_slot ss)(i := s')\<rparr>)"
proof -
  have "j \<notin> N \<and> (j \<in> Y \<or> registered_type (sk_type (((ss_slot ss)(i := s')) j)))"
    if "e \<in> set (drop (ss_event_index ss) (ss_ev ss))" "ev_s e = Some j" for e j
  proof -
    have "j \<notin> N \<and> (j \<in> X \<or> registered_type (sk_type (ss_slot ss j)))" using assms(1) that unfolding ev_inv_def by blast
    then show ?thesis using assms(2,3) by (cases "j = i") auto
  qed
  then show ?thesis using assms(1) unfolding ev_inv_def by simp
qed

lemma at_slot_change:
  assumes a: "at_slot K N R X i l w s ss" and c: "ctl_inv R' (ss\<lparr>ss_slot := (ss_slot ss)(i := s')\<rparr>)"
    and e: "i \<in> Y \<or> (registered_type (sk_type s) \<longrightarrow> registered_type (sk_type s'))" "X \<subseteq> Y"
  shows "at_slot K N R' Y i l w s' (ss\<lparr>ss_slot := (ss_slot ss)(i := s')\<rparr>)"
proof -
  let ?ss = "ss\<lparr>ss_slot := (ss_slot ss)(i := s')\<rparr>"
  have own: "(\<lambda>j. wbs (ss_slot ?ss j))(i := l) = (\<lambda>j. wbs (ss_slot ss j))(i := l)"
    "(\<lambda>j. watched_fd (ss_slot ?ss j))(i := w) = (\<lambda>j. watched_fd (ss_slot ss j))(i := w)" by auto
  have s: "ss_slot ss i = s" using a by (simp add: at_slot_def)
  have "mem_inv ((\<lambda>j. wbs (ss_slot ?ss j))(i := l)) ?ss"
    using a unfolding own by (simp add: at_slot_def base_def mem_inv_def)
  moreover have "ev_inv K N Y ((\<lambda>j. watched_fd (ss_slot ?ss j))(i := w)) ?ss"
    unfolding own using a e s by (intro ev_slot [where X = X]) (simp_all add: at_slot_def base_def)
  ultimately show ?thesis using a c by (simp add: at_slot_def base_def)
qed

lemma at_type:
  assumes "sk_type s \<noteq> SOCKET_TYPE_INVALID" "sk_type s \<noteq> SOCKET_TYPE_RESERVE" "t \<noteq> SOCKET_TYPE_INVALID" "t \<noteq> SOCKET_TYPE_RESERVE"
    "registered_type (sk_type s) \<longrightarrow> registered_type t"
  shows "sound (at_slot K N R X i l w s) (set_type i t) (\<lambda>_. at_slot K N R X i l w (s\<lparr>sk_type := t\<rparr>))"
  unfolding set_type_def upd_slot_def
proof (rule triple_modify)
  fix ss assume a: "at_slot K N R X i l w s ss"
  then have s: "ss_slot ss i = s" by (simp add: at_slot_def)
  have "ctl_inv R (ss\<lparr>ss_slot := (ss_slot ss)(i := s\<lparr>sk_type := t\<rparr>)\<rparr>)"
    using a s assms by (intro ctl_live) (simp_all add: at_slot_def base_def)
  then show "at_slot K N R X i l w (s\<lparr>sk_type := t\<rparr>)
      (ss\<lparr>ss_slot := (ss_slot ss)(i := (ss_slot ss i)\<lparr>sk_type := t\<rparr>)\<rparr>)"
    using at_slot_change [OF a] assms(5) s by simp
qed

lemma at_invalid:
  assumes "sk_type s \<noteq> SOCKET_TYPE_RESERVE"
  shows "sound (at_slot K N R X i l w s) (set_type i SOCKET_TYPE_INVALID)
    (\<lambda>_. at_slot K N R (insert i X) i l w (s\<lparr>sk_type := SOCKET_TYPE_INVALID\<rparr>))"
  unfolding set_type_def upd_slot_def
proof (rule triple_modify)
  fix ss assume a: "at_slot K N R X i l w s ss"
  then have s: "ss_slot ss i = s" by (simp add: at_slot_def)
  have "ctl_inv R (ss\<lparr>ss_slot := (ss_slot ss)(i := s\<lparr>sk_type := SOCKET_TYPE_INVALID\<rparr>)\<rparr>)"
    using a s assms by (intro ctl_live) (simp_all add: at_slot_def base_def)
  then have "at_slot K N R (insert i X) i l w (s\<lparr>sk_type := SOCKET_TYPE_INVALID\<rparr>)
      (ss\<lparr>ss_slot := (ss_slot ss)(i := s\<lparr>sk_type := SOCKET_TYPE_INVALID\<rparr>)\<rparr>)"
    by (rule at_slot_change [OF a]) auto
  then show "at_slot K N R (insert i X) i l w (s\<lparr>sk_type := SOCKET_TYPE_INVALID\<rparr>)
      (ss\<lparr>ss_slot := (ss_slot ss)(i := (ss_slot ss i)\<lparr>sk_type := SOCKET_TYPE_INVALID\<rparr>)\<rparr>)"
    using s by simp
qed

text \<open>The end of opening a socket: a reserved slot gets its state, or is given back.\<close>

lemma at_open:
  assumes "i = HASH_ID sid" "sk_id s = sid" "sk_type s = SOCKET_TYPE_RESERVE" "sk_type (f s) \<noteq> SOCKET_TYPE_RESERVE"
    "sk_id (f s) = sid"
  shows "sound (at_slot K N (sid # R) X i l w s) (upd_slot i f) (\<lambda>_. at_slot K N R X i l w (f s))"
  unfolding upd_slot_def
proof (rule triple_modify)
  fix ss assume a: "at_slot K N (sid # R) X i l w s ss"
  then have s: "ss_slot ss i = s" by (simp add: at_slot_def)
  have "ctl_inv (sid # R) ss" using a by (simp add: at_slot_def base_def)
  then have "ctl_inv R (ss\<lparr>ss_slot := (ss_slot ss)(i := f s)\<rparr>)"
    by (rule ctl_open [OF _ assms(1,4)]) (use assms in simp)
  then have "at_slot K N R X i l w (f s) (ss\<lparr>ss_slot := (ss_slot ss)(i := f s)\<rparr>)"
    by (rule at_slot_change [OF a]) (use assms(3) in \<open>simp_all add: registered_type_def\<close>)
  then show "at_slot K N R X i l w (f s) (ss\<lparr>ss_slot := (ss_slot ss)(i := f (ss_slot ss i))\<rparr>)" using s by simp
qed

lemma at_del: "sound (at_slot K N R X i l (Some fd) s) (sys_do (Sys_del fd)) (\<lambda>_. at_slot K N R X i l None s)"
proof (rule tripleI)
  fix ss assume a: "at_slot K N R X i l (Some fd) s ss"
  let ?reg = "(\<lambda>j. watched_fd (ss_slot ss j))(i := Some fd)"
  have w: "watch K (ss_calls ss) x = Some j \<longleftrightarrow> ?reg j = Some x" for x j
    using a unfolding at_slot_def base_def ev_inv_def by blast
  have "watch K (ss_calls ss @ [Sys_del fd]) x = Some j \<longleftrightarrow> (?reg(i := None)) j = Some x" for x j
    using w [of x j] w [of fd i] by (auto simp: watch_snoc)
  then have "at_slot K N R X i l None s (ss\<lparr>ss_calls := ss_calls ss @ [Sys_del fd]\<rparr>)"
    using a by (simp add: at_slot_def base_def mem_inv_def ctl_inv_def ev_inv_def)
  then show "case sys_do (Sys_del fd) ss of Inl e \<Rightarrow> e \<in> {} | Inr (x, ss') \<Rightarrow> at_slot K N R X i l None s ss'"
    by (simp add: sys_do_def sys_def act_defs)
qed

lemma at_add:
  assumes "kernel_ok K"
  shows "sound (at_slot K N R X i l None s) (sys (Sys_add fd i))
    (\<lambda>h ss. at_slot K N R X i l (if k_add K h = None then Some fd else None) s ss)"
proof (rule tripleI)
  fix ss assume a: "at_slot K N R X i l None s ss"
  let ?h = "ss_calls ss @ [Sys_add fd i]" and ?reg = "(\<lambda>j. watched_fd (ss_slot ss j))(i := None)"
  let ?w = "if k_add K ?h = None then Some fd else None"
  have w: "watch K (ss_calls ss) x = Some j \<longleftrightarrow> ?reg j = Some x" for x j
    using a unfolding at_slot_def base_def ev_inv_def by blast
  have "k_add K ?h = None \<Longrightarrow> watch K (ss_calls ss) fd = None" using kernel_ok_add [OF assms] .
  then have "watch K ?h x = Some j \<longleftrightarrow> (?reg(i := ?w)) j = Some x" for x j
    using w [of x j] w [of fd j] by (auto simp: watch_snoc)
  then have "at_slot K N R X i l ?w s (ss\<lparr>ss_calls := ?h\<rparr>)"
    using a by (simp add: at_slot_def base_def mem_inv_def ctl_inv_def ev_inv_def)
  then show "case sys (Sys_add fd i) ss of Inl e \<Rightarrow> e \<in> {}
      | Inr (h, ss') \<Rightarrow> at_slot K N R X i l (if k_add K h = None then Some fd else None) s ss'"
    by (simp add: sys_def)
qed

text \<open>Closing a socket frees what it owns and stops watching it.\<close>

definition closed_socket :: "socket \<Rightarrow> socket" where
  "closed_socket s = s\<lparr>sk_high := [], sk_low := [], sk_type := SOCKET_TYPE_INVALID\<rparr>"

lemma at_force_close_rest:
  assumes live: "sk_type s \<noteq> SOCKET_TYPE_INVALID" "sk_type s \<noteq> SOCKET_TYPE_RESERVE"
  shows "sound (at_slot K N R X i (wbs s @ l) (watched_fd s) s) (force_close i)
    (\<lambda>r ss. r = \<lparr>sr_id = sk_id s, sr_opaque = sk_opaque s, sr_ud = 0, sr_data = No_data\<rparr> \<and>
       at_slot K N R (insert i X) i l None (closed_socket s) ss)"
proof -
  have del: "sound (at_slot K N R X i l (watched_fd s) s')
      (if sk_type s \<noteq> SOCKET_TYPE_PACCEPT \<and> sk_type s \<noteq> SOCKET_TYPE_PLISTEN then sys_do (Sys_del (sk_fd s)) else ret ())
      (\<lambda>_. at_slot K N R X i l None s')" for s'
    using live at_del [of K N R X i l "sk_fd s" s']
    by (cases "sk_type s") (auto simp: watched_fd_def registered_type_def intro: triple_ret)
  have high: "sound (at_slot K N R X i (sk_low s @ l) w s) (upd_slot i (\<lambda>s. s\<lparr>sk_high := []\<rparr>))
      (\<lambda>_. at_slot K N R X i (sk_low s @ l) w (s\<lparr>sk_high := []\<rparr>))" for w
    by (rule at_upd) simp_all
  have low: "sound (at_slot K N R X i l w (s\<lparr>sk_high := []\<rparr>)) (upd_slot i (\<lambda>s. s\<lparr>sk_low := []\<rparr>))
      (\<lambda>_. at_slot K N R X i l w (s\<lparr>sk_high := [], sk_low := []\<rparr>))" for w
    using at_upd [of "\<lambda>s. s\<lparr>sk_low := []\<rparr>" "s\<lparr>sk_high := []\<rparr>"] by simp
  have inv: "sound (at_slot K N R X i l None (s\<lparr>sk_high := [], sk_low := []\<rparr>)) (set_type i SOCKET_TYPE_INVALID)
      (\<lambda>_. at_slot K N R (insert i X) i l None (closed_socket s))"
    using at_invalid [of "s\<lparr>sk_high := [], sk_low := []\<rparr>"] live by (simp add: closed_socket_def)
  have cls: "sound (at_slot K N R X i l None s') (if sk_type s \<noteq> SOCKET_TYPE_BIND then sys_do (Sys_close (sk_fd s)) else ret ())
      (\<lambda>_. at_slot K N R X i l None s')" for s'
    by (intro triple_if at_sys_do triple_ret) simp_all
  note lo = at_free_list [of K N R X i "sk_low s" l]
  have "sound (at_slot K N R X i (sk_high s @ sk_low s @ l) (watched_fd s) s)
      (seq (free_wb_list (sk_high s)) (seq (upd_slot i (\<lambda>s. s\<lparr>sk_high := []\<rparr>))
       (seq (free_wb_list (sk_low s)) (seq (upd_slot i (\<lambda>s. s\<lparr>sk_low := []\<rparr>))
       (seq (if sk_type s \<noteq> SOCKET_TYPE_PACCEPT \<and> sk_type s \<noteq> SOCKET_TYPE_PLISTEN then sys_do (Sys_del (sk_fd s)) else ret ())
       (seq (if sk_type s \<noteq> SOCKET_TYPE_BIND then sys_do (Sys_close (sk_fd s)) else ret ())
       (seq (set_type i SOCKET_TYPE_INVALID)
            (ret \<lparr>sr_id = sk_id s, sr_opaque = sk_opaque s, sr_ud = 0, sr_data = No_data\<rparr>))))))))
      (\<lambda>r ss. r = \<lparr>sr_id = sk_id s, sr_opaque = sk_opaque s, sr_ud = 0, sr_data = No_data\<rparr> \<and>
         at_slot K N R (insert i X) i l None (closed_socket s) ss)"
    by (intro triple_seq' [OF at_free_list] triple_seq' [OF high] triple_seq' [OF lo] triple_seq' [OF low] triple_seq' [OF del]
        triple_seq' [OF cls] triple_seq' [OF inv] triple_ret) simp
  then show ?thesis
    unfolding force_close_def Let_def wbs_def append_assoc by (intro sound_get) (simp add: live check_True)
qed

lemmas at_force_close = at_force_close_rest [where l = "[]", unfolded append_Nil2]

section \<open>Reports\<close>

text \<open>
  The socket \<open>i\<close> at work, when the report announces it as closed: an event for it may still be in the array,
  and \<open>clear_closed_event\<close> takes it out.
\<close>

definition closing :: "int \<Rightarrow> bool" where
  "closing t = (t = SOCKET_CLOSE \<or> t = SOCKET_ERROR)"

definition exempt :: "nat \<Rightarrow> report \<Rightarrow> socket_server \<Rightarrow> nat set" where
  "exempt i r ss =
     (case r of
        None \<Rightarrow> {}
      | Some (t, res) \<Rightarrow>
          {j. j = i \<and> closing t \<and> sk_type (ss_slot ss i) = SOCKET_TYPE_INVALID \<and> sk_id (ss_slot ss i) = sr_id res})"

definition reported :: "kernel \<Rightarrow> nat set \<Rightarrow> u32 list \<Rightarrow> nat \<Rightarrow> report \<Rightarrow> socket_server \<Rightarrow> bool" where
  "reported K N R i r ss = server_ok K N R (exempt i r ss) ss"

lemma server_reported: "server_ok K N R {} ss \<Longrightarrow> reported K N R i r ss"
  unfolding reported_def by (erule server_mono) simp

lemma reported_None [simp]: "reported K N R i None ss = server_ok K N R {} ss"
  by (simp add: reported_def exempt_def)

lemma slot_ok_closed [simp]: "slot_ok (closed_socket s)"
  unfolding slot_ok_def closed_socket_def wbs_def by simp

lemma closed_server: "at_slot K N R X i [] None (closed_socket s) ss \<Longrightarrow> server_ok K N R X ss"
  by (erule at_server; simp?) (simp_all add: closed_socket_def wbs_def watched_fd_def registered_type_def)

text \<open>A socket in use.\<close>

definition live :: "nat \<Rightarrow> socket \<Rightarrow> bool" where
  "live i s = (sk_type s \<noteq> SOCKET_TYPE_INVALID \<and> sk_type s \<noteq> SOCKET_TYPE_RESERVE \<and> HASH_ID (sk_id s) = i)"

lemma at_close_report:
  assumes "live i s" "closing t" "\<And>r. sr_id r = sk_id s \<Longrightarrow> sr_id (f r) = sk_id s"
  shows "sound (at_slot K N R {} i (wbs s) (watched_fd s) s) (bind_o (force_close i) (\<lambda>result. ret (Some (t, f result))))
    (reported K N R i)"
proof (rule triple_bind [OF at_force_close])
  show "sk_type s \<noteq> SOCKET_TYPE_INVALID" "sk_type s \<noteq> SOCKET_TYPE_RESERVE" using assms(1) by (simp_all add: live_def)
next
  fix r :: socket_result
  let ?r0 = "\<lparr>sr_id = sk_id s, sr_opaque = sk_opaque s, sr_ud = 0, sr_data = No_data\<rparr>"
  show "sound (\<lambda>ss. r = ?r0 \<and> at_slot K N R (insert i {}) i [] None (closed_socket s) ss) (ret (Some (t, f r))) (reported K N R i)"
  proof (rule triple_ret)
    fix ss assume a: "r = ?r0 \<and> at_slot K N R (insert i {}) i [] None (closed_socket s) ss"
    then have "server_ok K N R {i} ss" using closed_server by auto
    moreover have "ss_slot ss i = closed_socket s" using a by (simp add: at_slot_def)
    then have "{i} \<subseteq> exempt i (Some (t, f r)) ss"
      using assms a by (simp add: exempt_def closed_socket_def live_def)
    ultimately show "reported K N R i (Some (t, f r)) ss" unfolding reported_def by (rule server_mono)
  qed
qed

lemma at_close:
  assumes "live i s" "closing t"
  shows "sound (at_slot K N R {} i (wbs s) (watched_fd s) s) (bind_o (force_close i) (\<lambda>result. ret (Some (t, result))))
    (reported K N R i)"
  using at_close_report [OF assms, of "\<lambda>r. r"] by simp

section \<open>Sending what waits\<close>

text \<open>
  What sending a list does to the socket: the other list stays, the list loses writes at its head, of what is
  left only the head can have changed, and the sum of the sizes is kept up to date.
\<close>

definition frame_of :: "socket \<Rightarrow> socket \<Rightarrow> bool" where
  "frame_of s s' =
     (sk_type s' = sk_type s \<and> sk_id s' = sk_id s \<and> sk_fd s' = sk_fd s \<and> sk_opaque s' = sk_opaque s \<and>
      sk_protocol s' = sk_protocol s \<and> sk_p s' = sk_p s)"

definition other :: "priority \<Rightarrow> priority" where
  "other p = (case p of PRIORITY_HIGH \<Rightarrow> PRIORITY_LOW | PRIORITY_LOW \<Rightarrow> PRIORITY_HIGH)"

definition progress :: "priority \<Rightarrow> socket \<Rightarrow> socket \<Rightarrow> bool" where
  "progress p s s' =
     (frame_of s s' \<and> wb_list (other p) s' = wb_list (other p) s \<and>
      set (tl (wb_list p s')) \<subseteq> set (wb_list p s) \<and>
      sk_wb_size s' - total_sz (wbs s') = sk_wb_size s - total_sz (wbs s))"

lemma set_list_simps [simp]:
  "sk_type (set_wb_list p l s) = sk_type s" "sk_id (set_wb_list p l s) = sk_id s" "sk_fd (set_wb_list p l s) = sk_fd s"
  "sk_opaque (set_wb_list p l s) = sk_opaque s" "sk_protocol (set_wb_list p l s) = sk_protocol s" "sk_p (set_wb_list p l s) = sk_p s"
  "sk_wb_size (set_wb_list p l s) = sk_wb_size s" "wb_list p (set_wb_list p l s) = l"
  "wb_list (other p) (set_wb_list p l s) = wb_list (other p) s" "watched_fd (set_wb_list p l s) = watched_fd s"
  "set_wb_list p l (set_wb_list p l' s) = set_wb_list p l s"
  by (cases p; simp add: set_wb_list_def wb_list_def other_def watched_fd_def)+

lemma set_list_size [simp]: "set_wb_list p l (s\<lparr>sk_wb_size := n\<rparr>) = (set_wb_list p l s)\<lparr>sk_wb_size := n\<rparr>"
  by (cases p) (simp_all add: set_wb_list_def)

lemma wb_list_size [simp]: "wb_list p (s\<lparr>sk_wb_size := n\<rparr>) = wb_list p s" "wbs (s\<lparr>sk_wb_size := n\<rparr>) = wbs s"
  "watched_fd (s\<lparr>sk_wb_size := n\<rparr>) = watched_fd s" "wbs (s\<lparr>sk_fd := fd\<rparr>) = wbs s" "wbs (s\<lparr>sk_type := t\<rparr>) = wbs s"
  "wbs (s\<lparr>sk_opaque := q\<rparr>) = wbs s" "wbs (s\<lparr>sk_p := pp\<rparr>) = wbs s" "wbs (s\<lparr>sk_protocol := pr\<rparr>) = wbs s" "wbs (s\<lparr>sk_id := sid\<rparr>) = wbs s"
  by (cases p; simp add: wb_list_def wbs_def watched_fd_def)+

lemma wbs_split: "mset (wbs s) = mset (wb_list p s) + mset (wb_list (other p) s)"
  by (cases p) (simp_all add: wbs_def wb_list_def other_def)

lemma set_wbs: "set (wbs s) = set (wb_list p s) \<union> set (wb_list (other p) s)"
  by (cases p) (auto simp: wbs_def wb_list_def other_def)

lemma total_split: "total_sz (wbs s) = total_sz (wb_list p s) + total_sz (wb_list (other p) s)"
  by (cases p) (simp_all add: wbs_def wb_list_def other_def total_sz_def)

lemma total_simps [simp]: "total_sz [] = 0" "total_sz (wb # l) = wb_sz wb + total_sz l" "total_sz (l @ l') = total_sz l + total_sz l'"
  by (simp_all add: total_sz_def)

lemma advance_simps [simp]: "wb_buffer (advance n wb) = wb_buffer wb" "wb_sz (advance n wb) = wb_sz wb - int n"
  by (simp_all add: advance_def)

lemma wb_ok_advance: "wb_ok mem wb \<Longrightarrow> int n \<le> wb_sz wb \<Longrightarrow> wb_ok mem (advance n wb)"
  by (auto simp: wb_ok_def advance_def)

definition list_outcome :: "kernel \<Rightarrow> nat set \<Rightarrow> u32 list \<Rightarrow> nat \<Rightarrow> priority \<Rightarrow> socket \<Rightarrow> report \<Rightarrow> socket_server \<Rightarrow> bool" where
  "list_outcome K N R i p s r ss =
     (case r of
        None \<Rightarrow> \<exists>s'. progress p s s' \<and> at_slot K N R {} i (wbs s') (watched_fd s') s' ss
      | Some (t, res) \<Rightarrow> t = SOCKET_CLOSE \<and> reported K N R i r ss)"

text \<open>A write that is repeated while it is interrupted.\<close>

definition retried :: "kernel \<Rightarrow> syscall \<Rightarrow> syscall list \<Rightarrow> errno + nat \<Rightarrow> syscall list \<Rightarrow> bool" where
  "retried K c h r h' =
     (\<exists>k. h' = h @ replicate (Suc k) c \<and> (\<forall>j < k. k_write K (h @ replicate (Suc j) c) = Inl EINTR) \<and>
          k_write K h' = r \<and> r \<noteq> Inl EINTR)"

lemma retried_step:
  assumes "k_write K (h @ [c]) = Inl EINTR" "retried K c (h @ [c]) r h'"
  shows "retried K c h r h'"
proof -
  obtain k where k: "h' = (h @ [c]) @ replicate (Suc k) c" "\<forall>j < k. k_write K ((h @ [c]) @ replicate (Suc j) c) = Inl EINTR"
    "k_write K h' = r" "r \<noteq> Inl EINTR" using assms(2) unfolding retried_def by blast
  have "k_write K (h @ replicate (Suc j) c) = Inl EINTR" if "j < Suc k" for j
    using that assms(1) k(2) by (cases j) simp_all
  moreover have "h' = h @ replicate (Suc (Suc k)) c" using k(1) by simp
  ultimately show ?thesis unfolding retried_def using k(3,4) by blast
qed

lemma write_retry_spec:
  "write_retry K fd d ss = Some (r, ss') \<Longrightarrow>
     \<exists>h. ss' = ss\<lparr>ss_calls := h\<rparr> \<and> retried K (Sys_write fd d) (ss_calls ss) r h"
proof -
  have "\<exists>h. snd p = ss\<lparr>ss_calls := h\<rparr> \<and> retried K (Sys_write fd d) (ss_calls ss) (fst p) h"
    if "write_retry K fd d ss = Some p" for p
    using that
  proof (rule write_retry.raw_induct [where P = "\<lambda>K fd d ss p. \<exists>h. snd p = ss\<lparr>ss_calls := h\<rparr> \<and>
      retried K (Sys_write fd d) (ss_calls ss) (fst p) h", rotated])
    fix wr K fd d ss p
    let ?c = "Sys_write fd d" and ?h = "ss_calls ss @ [Sys_write fd d]"
    assume IH: "\<And>K fd d ss p. wr K fd d ss = Some p \<Longrightarrow>
        \<exists>h. snd p = ss\<lparr>ss_calls := h\<rparr> \<and> retried K (Sys_write fd d) (ss_calls ss) (fst p) h"
      and body: "(let h = ?h; ss = ss\<lparr>ss_calls := h\<rparr> in
        case k_write K h of Inl e \<Rightarrow> if e = EINTR then wr K fd d ss else Some (Inl e, ss) | Inr n \<Rightarrow> Some (Inr n, ss)) = Some p"
    show "\<exists>h. snd p = ss\<lparr>ss_calls := h\<rparr> \<and> retried K ?c (ss_calls ss) (fst p) h"
    proof (cases "k_write K ?h = Inl EINTR")
      case True
      then have "wr K fd d (ss\<lparr>ss_calls := ?h\<rparr>) = Some p" using body by simp
      from IH [OF this] show ?thesis using retried_step [OF True] by auto
    next
      case False
      then have "p = (k_write K ?h, ss\<lparr>ss_calls := ?h\<rparr>)"
        using body by (cases "k_write K ?h") (auto split: if_splits)
      moreover have "retried K ?c (ss_calls ss) (k_write K ?h) ?h"
        unfolding retried_def using False by (intro exI [of _ 0]) simp
      ultimately show ?thesis by auto
    qed
  qed
  then show "write_retry K fd d ss = Some (r, ss') \<Longrightarrow>
     \<exists>h. ss' = ss\<lparr>ss_calls := h\<rparr> \<and> retried K (Sys_write fd d) (ss_calls ss) r h" by fastforce
qed

lemma write_retry_returns:
  assumes "k_write K (ss_calls ss @ replicate (Suc k) (Sys_write fd d)) \<noteq> Inl EINTR"
  shows "write_retry K fd d ss \<noteq> None"
  using assms
proof (induction k arbitrary: ss)
  case 0
  then show ?case by (subst write_retry.simps) (auto simp: Let_def split: sum.splits)
next
  case (Suc k)
  let ?ss = "ss\<lparr>ss_calls := ss_calls ss @ [Sys_write fd d]\<rparr>"
  have "write_retry K fd d ?ss \<noteq> None" by (rule Suc.IH) (use Suc.prems in simp)
  then show ?case by (subst write_retry.simps) (auto simp: Let_def split: sum.splits)
qed

lemma kernel_ok_interrupt: "kernel_ok K \<Longrightarrow> \<exists>k. k_write K (h @ replicate (Suc k) (Sys_write fd d)) \<noteq> Inl EINTR"
  unfolding kernel_ok_def by blast

lemma retried_watch: "retried K (Sys_write fd d) h r h' \<Longrightarrow> watch K h' = watch K h"
proof -
  have "watch K (h @ replicate n (Sys_write fd d)) = watch K h" for n
    by (induction n) (simp_all add: watch_quiet replicate_append_same flip: append_assoc replicate_append_same)
  then show "retried K (Sys_write fd d) h r h' \<Longrightarrow> watch K h' = watch K h" unfolding retried_def by blast
qed

lemma retried_le: "kernel_ok K \<Longrightarrow> retried K (Sys_write fd d) h (Inr n) h' \<Longrightarrow> n \<le> length d"
  unfolding retried_def by (metis kernel_ok_write replicate_Suc replicate_append_same append_assoc)

lemma at_write_again:
  assumes "kernel_ok K"
  shows "sound (at_slot K N R X i l w s) (write_again K fd d)
    (\<lambda>r ss. (\<forall>n. r = Inr n \<longrightarrow> n \<le> length d) \<and> at_slot K N R X i l w s ss)"
proof (rule tripleI)
  fix ss assume a: "at_slot K N R X i l w s ss"
  show "case write_again K fd d ss of Inl e \<Rightarrow> e \<in> {}
      | Inr (r, ss') \<Rightarrow> (\<forall>n. r = Inr n \<longrightarrow> n \<le> length d) \<and> at_slot K N R X i l w s ss'"
  proof (cases "write_retry K fd d ss")
    case None
    then show ?thesis using kernel_ok_interrupt [OF assms] write_retry_returns by metis
  next
    case (Some p)
    obtain r ss' where p: "p = (r, ss')" by fastforce
    obtain h where h: "ss' = ss\<lparr>ss_calls := h\<rparr>" "retried K (Sys_write fd d) (ss_calls ss) r h"
      using write_retry_spec [of K fd d ss r ss'] Some p by blast
    have "at_slot K N R X i l w s ss'" using a retried_watch [OF h(2)] h(1) by (simp add: at_calls)
    moreover have "\<forall>n. r = Inr n \<longrightarrow> n \<le> length d" using retried_le [OF assms] h(2) by blast
    ultimately show ?thesis using Some p by (simp add: write_again_def)
  qed
qed

lemma set_tl: "x \<in> set (tl l) \<Longrightarrow> x \<in> set l"
  by (cases l) auto

lemma progress_refl: "progress p s s"
  by (auto simp: progress_def frame_of_def dest: set_tl)

lemma progress_trans: "progress p s s' \<Longrightarrow> set (wb_list p s') \<subseteq> set (wb_list p s) \<Longrightarrow> progress p s' s'' \<Longrightarrow> progress p s s''"
  unfolding progress_def frame_of_def by auto

lemma list_outcome_trans:
  "progress p s s' \<Longrightarrow> set (wb_list p s') \<subseteq> set (wb_list p s) \<Longrightarrow> list_outcome K N R i p s' r ss \<Longrightarrow> list_outcome K N R i p s r ss"
  unfolding list_outcome_def by (cases r) (auto dest: progress_trans)

lemma live_frame: "live i s \<Longrightarrow> sk_type s' = sk_type s \<Longrightarrow> sk_id s' = sk_id s \<Longrightarrow> live i s'"
  by (simp add: live_def)

text \<open>The first write of a list goes: it is sent, or a part of it.\<close>

lemma at_part_sent:
  assumes "wb_list p s = tmp # rest" "int n \<le> wb_sz tmp"
  shows "sound (at_slot K N R X i (wbs s) w (s\<lparr>sk_wb_size := m\<rparr>)) (upd_slot i (set_wb_list p (advance n tmp # rest)))
    (\<lambda>_. at_slot K N R X i (wbs (set_wb_list p (advance n tmp # rest) s)) w ((set_wb_list p (advance n tmp # rest) s)\<lparr>sk_wb_size := m\<rparr>))"
proof (rule triple_post [OF at_upd])
  let ?s = "set_wb_list p (advance n tmp # rest) s"
  fix ss assume "at_slot K N R X i (wbs s) w (set_wb_list p (advance n tmp # rest) (s\<lparr>sk_wb_size := m\<rparr>)) ss"
  then have a: "at_slot K N R X i (wbs s) w (?s\<lparr>sk_wb_size := m\<rparr>) ss" by simp
  show "at_slot K N R X i (wbs ?s) w (?s\<lparr>sk_wb_size := m\<rparr>) ss"
  proof (rule at_owns [OF a])
    show "mset (map wb_buffer (wbs ?s)) = mset (map wb_buffer (wbs s))"
      using assms(1) by (simp add: wbs_split [of _ p])
    show "\<forall>wb \<in> set (wbs ?s). wb_ok mem wb" if "\<forall>wb \<in> set (wbs s). wb_ok mem wb" for mem
      using that assms by (auto simp: set_wbs [of _ p] intro: wb_ok_advance)
  qed
qed simp_all

lemma at_sent:
  assumes "wb_list p s = tmp # rest"
  shows "sound (at_slot K N R X i (wbs s) w (s\<lparr>sk_wb_size := m\<rparr>)) (upd_slot i (set_wb_list p rest))
    (\<lambda>_. at_slot K N R X i (tmp # wbs (set_wb_list p rest s)) w ((set_wb_list p rest s)\<lparr>sk_wb_size := m\<rparr>))"
proof (rule triple_post [OF at_upd])
  let ?s = "set_wb_list p rest s"
  fix ss assume "at_slot K N R X i (wbs s) w (set_wb_list p rest (s\<lparr>sk_wb_size := m\<rparr>)) ss"
  then have a: "at_slot K N R X i (wbs s) w (?s\<lparr>sk_wb_size := m\<rparr>) ss" by simp
  show "at_slot K N R X i (tmp # wbs ?s) w (?s\<lparr>sk_wb_size := m\<rparr>) ss"
  proof (rule at_owns [OF a])
    show "mset (map wb_buffer (tmp # wbs ?s)) = mset (map wb_buffer (wbs s))"
      using assms by (simp add: wbs_split [of _ p])
    show "\<forall>wb \<in> set (tmp # wbs ?s). wb_ok mem wb" if "\<forall>wb \<in> set (wbs s). wb_ok mem wb" for mem
      using that assms by (auto simp: set_wbs [of _ p])
  qed
qed simp_all

lemma at_wb_size:
  "sound (at_slot K N R X i l w s) (upd_slot i (\<lambda>s. s\<lparr>sk_wb_size := sk_wb_size s - n\<rparr>))
     (\<lambda>_. at_slot K N R X i l w (s\<lparr>sk_wb_size := sk_wb_size s - n\<rparr>))"
  by (rule at_upd) simp_all

lemma outcome_None: "progress p s s' \<Longrightarrow> at_slot K N R {} i (wbs s') (watched_fd s') s' ss \<Longrightarrow> list_outcome K N R i p s None ss"
  by (auto simp: list_outcome_def)

lemma outcome_close:
  assumes "live i s"
  shows "sound (at_slot K N R {} i (wbs s) (watched_fd s) s) (bind_o (force_close i) (\<lambda>result. ret (Some (SOCKET_CLOSE, result))))
    (list_outcome K N R i p s)"
proof -
  have "sound (at_slot K N R {} i (wbs s) (watched_fd s) s) (bind_o (force_close i) (\<lambda>result. ret (Some (SOCKET_CLOSE, result))))
    (\<lambda>r ss. (\<exists>res. r = Some (SOCKET_CLOSE, res)) \<and> reported K N R i r ss)"
  proof (rule triple_conj)
    show "sound (at_slot K N R {} i (wbs s) (watched_fd s) s) (bind_o (force_close i) (\<lambda>result. ret (Some (SOCKET_CLOSE, result))))
      (reported K N R i)" by (rule at_close [OF assms]) (simp add: closing_def)
    have l: "sk_type s \<noteq> SOCKET_TYPE_INVALID" "sk_type s \<noteq> SOCKET_TYPE_RESERVE" using assms by (simp_all add: live_def)
    show "sound (at_slot K N R {} i (wbs s) (watched_fd s) s) (bind_o (force_close i) (\<lambda>result. ret (Some (SOCKET_CLOSE, result))))
      (\<lambda>r ss. \<exists>res. r = Some (SOCKET_CLOSE, res))"
      by (rule triple_bind [OF at_force_close [OF l]]) (auto intro: triple_ret)
  qed
  then show ?thesis by (rule triple_post) (auto simp: list_outcome_def)
qed

lemma at_send_tcp:
  assumes "kernel_ok K" "live i s" "wb_list p s = l"
  shows "sound (at_slot K N R {} i (wbs s) (watched_fd s) s) (send_list_tcp K i p l) (list_outcome K N R i p s)"
  using assms(2,3)
proof (induction l arbitrary: s)
  case Nil
  then show ?case by (auto intro!: triple_ret outcome_None progress_refl)
next
  case (Cons tmp rest)
  let ?at = "at_slot K N R {} i (wbs s) (watched_fd s)"
  have mem: "tmp \<in> set (wbs s)" using Cons.prems(2) by (simp add: set_wbs [of _ p])
  have total: "total_sz (wbs s) = wb_sz tmp + total_sz rest + total_sz (wb_list (other p) s)"
    using Cons.prems(2) by (simp add: total_split [of _ p])
  have part: "sound (?at (s\<lparr>sk_wb_size := sk_wb_size s - int n\<rparr>))
      (seq (upd_slot i (set_wb_list p (advance n tmp # rest))) (ret None)) (list_outcome K N R i p s)" if n: "int n \<le> wb_sz tmp" for n
  proof (rule triple_seq' [OF at_part_sent [OF Cons.prems(2) n]], rule triple_ret, rule outcome_None)
    let ?s = "(set_wb_list p (advance n tmp # rest) s)\<lparr>sk_wb_size := sk_wb_size s - int n\<rparr>"
    show "progress p s ?s" using Cons.prems(2) total by (auto simp: progress_def frame_of_def total_split [of _ p])
    fix ss assume "at_slot K N R {} i (wbs (set_wb_list p (advance n tmp # rest) s)) (watched_fd s) ?s ss"
    then show "at_slot K N R {} i (wbs ?s) (watched_fd ?s) ?s ss" by simp
  qed
  have full: "sound (?at (s\<lparr>sk_wb_size := sk_wb_size s - wb_sz tmp\<rparr>))
      (seq (upd_slot i (set_wb_list p rest)) (seq (write_buffer_free tmp) (send_list_tcp K i p rest))) (list_outcome K N R i p s)"
  proof (rule triple_seq' [OF at_sent [OF Cons.prems(2)]], rule triple_seq' [OF at_free])
    let ?s = "(set_wb_list p rest s)\<lparr>sk_wb_size := sk_wb_size s - wb_sz tmp\<rparr>"
    have "sound (at_slot K N R {} i (wbs ?s) (watched_fd ?s) ?s) (send_list_tcp K i p rest) (list_outcome K N R i p ?s)"
      by (rule Cons.IH) (use Cons.prems in \<open>simp_all add: live_frame [of i s]\<close>)
    then have "sound (at_slot K N R {} i (wbs ?s) (watched_fd ?s) ?s) (send_list_tcp K i p rest) (list_outcome K N R i p s)"
      by (rule triple_post, elim list_outcome_trans [rotated 2])
        (use Cons.prems(2) total in \<open>auto simp: progress_def frame_of_def total_split [of _ p] dest: set_tl\<close>)
    then show "sound (at_slot K N R {} i (wbs (set_wb_list p rest s)) (watched_fd s) ?s) (send_list_tcp K i p rest)
        (list_outcome K N R i p s)" by simp
  qed
  have wr: "sound (\<lambda>ss. (\<forall>n. r = Inr n \<longrightarrow> n \<le> length data) \<and> ?at s ss)
      (case r of
         Inl e \<Rightarrow>
           if AGAIN_WOULDBLOCK e then ret None
           else bind_o (force_close i) (\<lambda>result. ret (Some (SOCKET_CLOSE, result)))
       | Inr n \<Rightarrow>
           seq (upd_slot i (\<lambda>s. s\<lparr>sk_wb_size := sk_wb_size s - int n\<rparr>))
               (if int n \<noteq> wb_sz tmp
                then seq (upd_slot i (set_wb_list p (advance n tmp # rest))) (ret None)
                else
                  seq (upd_slot i (set_wb_list p rest))
                 (seq (write_buffer_free tmp)
                      (send_list_tcp K i p rest))))
      (list_outcome K N R i p s)" if d: "length data = nat (wb_sz tmp)" "0 \<le> wb_sz tmp" for r and data :: bytes
  proof (rule triple_pure)
    assume n: "\<forall>n. r = Inr n \<longrightarrow> n \<le> length data"
    show "sound (?at s) (case r of
         Inl e \<Rightarrow> if AGAIN_WOULDBLOCK e then ret None else bind_o (force_close i) (\<lambda>result. ret (Some (SOCKET_CLOSE, result)))
       | Inr n \<Rightarrow>
           seq (upd_slot i (\<lambda>s. s\<lparr>sk_wb_size := sk_wb_size s - int n\<rparr>))
               (if int n \<noteq> wb_sz tmp then seq (upd_slot i (set_wb_list p (advance n tmp # rest))) (ret None)
                else seq (upd_slot i (set_wb_list p rest)) (seq (write_buffer_free tmp) (send_list_tcp K i p rest))))
      (list_outcome K N R i p s)"
    proof (cases r)
      case (Inl e)
      then show ?thesis
        using outcome_close [OF Cons.prems(1)] by (auto intro!: triple_ret outcome_None progress_refl)
    next
      case (Inr m)
      have m: "int m \<le> wb_sz tmp" using n Inr d by auto
      show ?thesis
        unfolding Inr sum.case
        by (rule triple_seq' [OF at_wb_size], rule triple_if, rule part [OF m]) (use full in simp)
    qed
  qed
  have pos: "sound (?at s) m Q" if "0 \<le> wb_sz tmp \<Longrightarrow> sound (?at s) m Q" for m :: "report sop" and Q
  proof (rule tripleI)
    fix ss assume a: "?at s ss"
    then have "0 \<le> wb_sz tmp" using at_wb [OF a mem] by (simp add: wb_ok_def)
    from triple_run [OF that [OF this] a] show "case m ss of Inl e \<Rightarrow> e \<in> {} | Inr (x, ss') \<Rightarrow> Q x ss'" .
  qed
  show ?case
    unfolding send_list_tcp.simps
    by (rule pos, rule sound_get, rule triple_bind [OF at_load [OF mem]], rule triple_pure,
        rule triple_bind [OF at_write_again [OF assms(1)]], rule wr)
qed

lemma at_send_udp:
  assumes "live i s" "wb_list p s = l"
  shows "sound (at_slot K N R {} i (wbs s) (watched_fd s) s) (send_list_udp K i p l) (list_outcome K N R i p s)"
  using assms
proof (induction l arbitrary: s)
  case Nil
  then show ?case by (auto intro!: triple_ret outcome_None progress_refl)
next
  case (Cons tmp rest)
  let ?at = "at_slot K N R {} i (wbs s) (watched_fd s)"
  have mem: "tmp \<in> set (wbs s)" using Cons.prems(2) by (simp add: set_wbs [of _ p])
  have total: "total_sz (wbs s) = wb_sz tmp + total_sz rest + total_sz (wb_list (other p) s)"
    using Cons.prems(2) by (simp add: total_split [of _ p])
  have full: "sound (?at (s\<lparr>sk_wb_size := sk_wb_size s - wb_sz tmp\<rparr>))
      (seq (upd_slot i (set_wb_list p rest)) (seq (write_buffer_free tmp) (send_list_udp K i p rest))) (list_outcome K N R i p s)"
  proof (rule triple_seq' [OF at_sent [OF Cons.prems(2)]], rule triple_seq' [OF at_free])
    let ?s = "(set_wb_list p rest s)\<lparr>sk_wb_size := sk_wb_size s - wb_sz tmp\<rparr>"
    have "sound (at_slot K N R {} i (wbs ?s) (watched_fd ?s) ?s) (send_list_udp K i p rest) (list_outcome K N R i p ?s)"
      by (rule Cons.IH) (use Cons.prems in \<open>simp_all add: live_frame [of i s]\<close>)
    then have "sound (at_slot K N R {} i (wbs ?s) (watched_fd ?s) ?s) (send_list_udp K i p rest) (list_outcome K N R i p s)"
      by (rule triple_post, elim list_outcome_trans [rotated 2])
        (use Cons.prems(2) total in \<open>auto simp: progress_def frame_of_def total_split [of _ p] dest: set_tl\<close>)
    then show "sound (at_slot K N R {} i (wbs (set_wb_list p rest s)) (watched_fd s) ?s) (send_list_udp K i p rest)
        (list_outcome K N R i p s)" by simp
  qed
  have sent: "sound (\<lambda>ss. (\<exists>h'. h = h' @ [c]) \<and> ?at s ss)
      (case k_sendto K h of
         Inl e \<Rightarrow> ret None
       | Inr n \<Rightarrow>
           seq (upd_slot i (\<lambda>s. s\<lparr>sk_wb_size := sk_wb_size s - wb_sz tmp\<rparr>))
          (seq (upd_slot i (set_wb_list p rest)) (seq (write_buffer_free tmp) (send_list_udp K i p rest))))
      (list_outcome K N R i p s)" for h c
  proof (rule triple_pure, cases "k_sendto K h")
    case (Inl e)
    then show "sound (?at s) (case k_sendto K h of Inl e \<Rightarrow> ret None
        | Inr n \<Rightarrow> seq (upd_slot i (\<lambda>s. s\<lparr>sk_wb_size := sk_wb_size s - wb_sz tmp\<rparr>))
            (seq (upd_slot i (set_wb_list p rest)) (seq (write_buffer_free tmp) (send_list_udp K i p rest))))
        (list_outcome K N R i p s)"
      by (auto intro!: triple_ret outcome_None progress_refl)
  next
    case (Inr n)
    show "sound (?at s) (case k_sendto K h of Inl e \<Rightarrow> ret None
        | Inr n \<Rightarrow> seq (upd_slot i (\<lambda>s. s\<lparr>sk_wb_size := sk_wb_size s - wb_sz tmp\<rparr>))
            (seq (upd_slot i (set_wb_list p rest)) (seq (write_buffer_free tmp) (send_list_udp K i p rest))))
        (list_outcome K N R i p s)"
      unfolding Inr sum.case by (rule triple_seq' [OF at_wb_size full])
  qed
  show ?case
    unfolding send_list_udp.simps
    by (rule sound_get, rule triple_bind [OF at_load [OF mem]], rule triple_pure, rule triple_bind [OF at_sys], simp, rule sent)
qed

lemma at_send_list:
  assumes "kernel_ok K" "live i s"
  shows "sound (at_slot K N R {} i (wbs s) (watched_fd s) s) (send_list K i p) (list_outcome K N R i p s)"
  unfolding send_list_def
  by (rule sound_get, rule triple_if, rule at_send_tcp [OF assms refl], rule at_send_udp [OF assms(2) refl])

text \<open>The states in which a socket can have writes that wait.\<close>

definition sending :: "nat \<Rightarrow> socket \<Rightarrow> bool" where
  "sending i s =
     (HASH_ID (sk_id s) = i \<and>
      sk_type s \<in> {SOCKET_TYPE_CONNECTING, SOCKET_TYPE_CONNECTED, SOCKET_TYPE_HALFCLOSE, SOCKET_TYPE_BIND})"

lemma sending_live: "sending i s \<Longrightarrow> live i s"
  by (auto simp: sending_def live_def)

lemma sending_frame: "sending i s \<Longrightarrow> frame_of s s' \<Longrightarrow> sending i s'"
  by (simp add: sending_def frame_of_def)

lemma slot_ok_sending:
  "sending i s \<Longrightarrow> slot_ok s \<longleftrightarrow>
     param_ok s \<and> sk_wb_size s = total_sz (wbs s) \<and> (\<forall>wb \<in> set (sk_low s). wb_ptr wb = (wb_buffer wb, 0))"
  by (auto simp: sending_def slot_ok_def)

lemma param_frame: "frame_of s s' \<Longrightarrow> param_ok s' = param_ok s"
  unfolding frame_of_def param_ok_def by (auto split: socket_param.splits)

lemma list_of_prio [simp]: "wb_list PRIORITY_HIGH s = sk_high s" "wb_list PRIORITY_LOW s = sk_low s"
  "other PRIORITY_HIGH = PRIORITY_LOW" "other PRIORITY_LOW = PRIORITY_HIGH"
  by (simp_all add: wb_list_def other_def)

lemma progress_high_ok:
  "sending i s \<Longrightarrow> slot_ok s \<Longrightarrow> progress PRIORITY_HIGH s s' \<Longrightarrow> sending i s' \<and> slot_ok s'"
  using sending_frame [of i s s'] param_frame [of s s'] by (simp add: slot_ok_sending progress_def)

lemma progress_low_ok:
  assumes "sending i s" "slot_ok s" "progress PRIORITY_LOW s s'" "\<not> list_uncomplete (sk_low s')"
  shows "sending i s' \<and> slot_ok s'"
proof -
  have "wb_ptr wb = (wb_buffer wb, 0)" if "wb \<in> set (sk_low s')" for wb
  proof (cases "sk_low s'")
    case Nil
    then show ?thesis using that by simp
  next
    case (Cons x rest)
    have "set rest \<subseteq> set (sk_low s)" using assms(3) Cons by (simp add: progress_def)
    moreover have "wb_ptr x = (wb_buffer x, 0)" using assms(4) Cons by (simp add: list_uncomplete_def)
    ultimately show ?thesis using that Cons assms(1,2) by (auto simp: slot_ok_sending)
  qed
  then show ?thesis
    using assms sending_frame [of i s s'] param_frame [of s s'] by (simp add: slot_ok_sending progress_def)
qed

lemma complete_low: "slot_ok s \<Longrightarrow> \<not> list_uncomplete (sk_low s)"
  by (auto simp: slot_ok_def list_uncomplete_def wbs_def split: if_splits list.splits)

lemma at_raise:
  assumes s: "sending i s" "slot_ok s" and p: "progress PRIORITY_LOW s s'" "sk_high s' = []" "list_uncomplete (sk_low s')"
  shows "sound (at_slot K N R X i (wbs s') (watched_fd s') s') (raise_uncomplete i) (\<lambda>_. server_ok K N R X)"
proof -
  obtain tmp rest where low: "sk_low s' = tmp # rest" using p(3) by (auto simp: list_uncomplete_def split: list.splits)
  let ?s = "s'\<lparr>sk_low := rest, sk_high := [tmp]\<rparr>"
  have "set rest \<subseteq> set (sk_low s)" using p(1) low by (simp add: progress_def)
  moreover have f: "frame_of s' ?s" by (simp add: frame_of_def)
  moreover have "sending i s'" using sending_frame [OF s(1)] p(1) by (simp add: progress_def)
  then have "sending i ?s" using f by (rule sending_frame)
  moreover have "param_ok ?s" using param_frame [of s s'] param_frame [OF f] s p(1) by (simp add: progress_def slot_ok_sending)
  ultimately have ok: "slot_ok ?s"
    using s p low by (auto simp: slot_ok_sending [OF s(1)] slot_ok_sending [of i ?s] progress_def wbs_def)
  have own: "wbs s' = wbs ?s" "watched_fd s' = watched_fd ?s" using low p(2) by (simp_all add: wbs_def watched_fd_def)
  let ?at = "at_slot K N R X i (wbs s') (watched_fd s')"
  have c: "sound (?at (s'\<lparr>sk_low := rest\<rparr>)) (check (sk_high s' = [])) (\<lambda>_. ?at (s'\<lparr>sk_low := rest\<rparr>))"
    by (rule triple_check) (use p(2) in simp)
  have u: "sound (?at (s'\<lparr>sk_low := rest\<rparr>)) (upd_slot i (\<lambda>s. s\<lparr>sk_high := [tmp]\<rparr>)) (\<lambda>_. server_ok K N R X)"
    by (rule triple_post [OF at_upd]) (use ok own in \<open>auto intro: at_server\<close>)
  have "sound (?at s')
      (seq (upd_slot i (\<lambda>s. s\<lparr>sk_low := rest\<rparr>)) (seq (check (sk_high s' = [])) (upd_slot i (\<lambda>s. s\<lparr>sk_high := [tmp]\<rparr>))))
      (\<lambda>_. server_ok K N R X)"
    by (rule triple_seq' [OF _ triple_seq' [OF c u]]) (rule at_upd, simp_all)
  then show ?thesis unfolding raise_uncomplete_def by (intro sound_get) (simp add: low)
qed

lemma at_send_buffer:
  assumes "kernel_ok K" "sending i s" "slot_ok s"
  shows "sound (at_slot K N R {} i (wbs s) (watched_fd s) s) (send_buffer K i) (reported K N R i)"
proof -
  have low: "sound (list_outcome K N R i PRIORITY_LOW s1 r)
      (if closed r then ret r
       else bind_o (get_slot i) (\<lambda>s. seq (if list_uncomplete (sk_low s) then raise_uncomplete i else ret ()) (ret None)))
      (reported K N R i)" if s1: "sending i s1" "slot_ok s1" "sk_high s1 = []" for s1 r
  proof (cases r)
    case None
    have "sound (\<lambda>ss. progress PRIORITY_LOW s1 s2 \<and> at_slot K N R {} i (wbs s2) (watched_fd s2) s2 ss)
      (bind_o (get_slot i) (\<lambda>s. seq (if list_uncomplete (sk_low s) then raise_uncomplete i else ret ()) (ret None)))
      (reported K N R i)" for s2
    proof (rule triple_pure, rule sound_get)
      assume p: "progress PRIORITY_LOW s1 s2"
      have h: "sk_high s2 = []" using p s1(3) by (simp add: progress_def)
      have "sound (at_slot K N R {} i (wbs s2) (watched_fd s2) s2)
          (if list_uncomplete (sk_low s2) then raise_uncomplete i else ret ()) (\<lambda>_. server_ok K N R {})"
      proof (rule triple_if)
        assume "list_uncomplete (sk_low s2)"
        from at_raise [OF s1(1,2) p h this] show "sound (at_slot K N R {} i (wbs s2) (watched_fd s2) s2) (raise_uncomplete i)
            (\<lambda>_. server_ok K N R {})" .
      next
        assume "\<not> list_uncomplete (sk_low s2)"
        then have "slot_ok s2" using progress_low_ok [OF s1(1,2) p] by simp
        then show "sound (at_slot K N R {} i (wbs s2) (watched_fd s2) s2) (ret ()) (\<lambda>_. server_ok K N R {})"
          by (intro triple_ret) (auto intro: at_server)
      qed
      then show "sound (at_slot K N R {} i (wbs s2) (watched_fd s2) s2)
          (seq (if list_uncomplete (sk_low s2) then raise_uncomplete i else ret ()) (ret None)) (reported K N R i)"
        by (rule triple_seq') (rule triple_ret, simp)
    qed
    then show ?thesis unfolding None list_outcome_def closed_def option.case by (simp add: triple_ex)
  next
    case (Some x)
    then show ?thesis by (cases x) (auto simp: list_outcome_def closed_def triple_def ret_def)
  qed
  have idle: "sound (at_slot K N R {} i (wbs s1) (watched_fd s1) s1)
      (seq (sys_do (Sys_poll_write (sk_fd s1) False))
           (if sk_type s1 = SOCKET_TYPE_HALFCLOSE
            then bind_o (force_close i) (\<lambda>result. ret (Some (SOCKET_CLOSE, result)))
            else ret None)) (reported K N R i)" if s1: "sending i s1" "slot_ok s1" for s1
    by (rule triple_seq' [OF at_sys_do], simp, rule triple_if, rule at_close [OF sending_live [OF s1(1)]], simp add: closing_def,
        rule triple_ret) (use s1 in \<open>auto intro: at_server\<close>)
  have high: "sound (list_outcome K N R i PRIORITY_HIGH s r)
      (if closed r then ret r
       else
         bind_o (get_slot i) (\<lambda>s.
           if sk_high s \<noteq> [] then ret None
           else if sk_low s \<noteq> []
           then
             bind_o (send_list K i PRIORITY_LOW) (\<lambda>r.
               if closed r then ret r
               else
                 bind_o (get_slot i) (\<lambda>s.
                   seq (if list_uncomplete (sk_low s) then raise_uncomplete i else ret ()) (ret None)))
           else
             seq (sys_do (Sys_poll_write (sk_fd s) False))
                 (if sk_type s = SOCKET_TYPE_HALFCLOSE
                  then bind_o (force_close i) (\<lambda>result. ret (Some (SOCKET_CLOSE, result)))
                  else ret None)))
      (reported K N R i)" for r
  proof (cases r)
    case None
    have "sound (\<lambda>ss. progress PRIORITY_HIGH s s1 \<and> at_slot K N R {} i (wbs s1) (watched_fd s1) s1 ss)
      (bind_o (get_slot i) (\<lambda>s.
           if sk_high s \<noteq> [] then ret None
           else if sk_low s \<noteq> []
           then
             bind_o (send_list K i PRIORITY_LOW) (\<lambda>r.
               if closed r then ret r
               else
                 bind_o (get_slot i) (\<lambda>s.
                   seq (if list_uncomplete (sk_low s) then raise_uncomplete i else ret ()) (ret None)))
           else
             seq (sys_do (Sys_poll_write (sk_fd s) False))
                 (if sk_type s = SOCKET_TYPE_HALFCLOSE
                  then bind_o (force_close i) (\<lambda>result. ret (Some (SOCKET_CLOSE, result)))
                  else ret None))) (reported K N R i)" for s1
    proof (rule triple_pure, rule sound_get)
      assume "progress PRIORITY_HIGH s s1"
      then have s1: "sending i s1" "slot_ok s1" using progress_high_ok [OF assms(2,3)] by simp_all
      have fin: "sound (at_slot K N R {} i (wbs s1) (watched_fd s1) s1) (ret None) (reported K N R i)"
        by (rule triple_ret) (use s1 in \<open>auto intro: at_server\<close>)
      show "sound (at_slot K N R {} i (wbs s1) (watched_fd s1) s1)
          (if sk_high s1 \<noteq> [] then ret None
           else if sk_low s1 \<noteq> []
           then
             bind_o (send_list K i PRIORITY_LOW) (\<lambda>r.
               if closed r then ret r
               else
                 bind_o (get_slot i) (\<lambda>s.
                   seq (if list_uncomplete (sk_low s) then raise_uncomplete i else ret ()) (ret None)))
           else
             seq (sys_do (Sys_poll_write (sk_fd s1) False))
                 (if sk_type s1 = SOCKET_TYPE_HALFCLOSE
                  then bind_o (force_close i) (\<lambda>result. ret (Some (SOCKET_CLOSE, result)))
                  else ret None)) (reported K N R i)"
        by (intro triple_if fin idle [OF s1] triple_bind [OF at_send_list [OF assms(1) sending_live [OF s1(1)]]] low [OF s1])
          simp
    qed
    then show ?thesis unfolding None list_outcome_def closed_def option.case by (simp add: triple_ex)
  next
    case (Some x)
    then show ?thesis by (cases x) (auto simp: list_outcome_def closed_def triple_def ret_def)
  qed
  show ?thesis
    unfolding send_buffer_def
    by (rule sound_get)
      (simp only: complete_low [OF assms(3)] not_False_eq_True check_True,
        rule triple_bind [OF at_send_list [OF assms(1) sending_live [OF assms(2)]]], rule high)
qed

section \<open>Sending a package\<close>

lemma plain_object: "0 \<le> sz \<Longrightarrow> send_object_init b sz = ret \<lparr>so_buffer = b, so_sz = sz, so_user = False\<rparr>"
  by (simp add: send_object_init_def)

lemma bind_ret [simp]: "bind_o (ret x) k = k x"
  by (simp add: bind_o_def ret_def fun_eq_iff)

lemma bind_seq_ret: "bind_o (seq m (ret x)) k = seq m (k x)"
  by (simp add: act_defs fun_eq_iff bind_r_def split: sum.splits)

text \<open>The write that a package in the hand of the server stands for, and a list with a new write at its end.\<close>

definition package :: "nat \<Rightarrow> int \<Rightarrow> bytes \<Rightarrow> write_buffer" where
  "package b sz a = \<lparr>wb_buffer = b, wb_ptr = (b, 0), wb_sz = sz, wb_userobject = False, wb_udp_address = a\<rparr>"

definition appended :: "priority \<Rightarrow> write_buffer \<Rightarrow> socket \<Rightarrow> socket" where
  "appended p wb s = (set_wb_list p (wb_list p s @ [wb]) s)\<lparr>sk_wb_size := sk_wb_size s + wb_sz wb\<rparr>"

lemma package_simps [simp]: "wb_buffer (package b sz a) = b" "wb_sz (package b sz a) = sz" "wb_ptr (package b sz a) = (b, 0)"
  "wb_userobject (package b sz a) = False"
  by (simp_all add: package_def)

lemma appended_simps [simp]:
  "sk_type (appended p wb s) = sk_type s" "sk_id (appended p wb s) = sk_id s" "sk_fd (appended p wb s) = sk_fd s"
  "watched_fd (appended p wb s) = watched_fd s" "frame_of s (appended p wb s)"
  by (simp_all add: appended_def watched_fd_def frame_of_def)

lemma appended_ok:
  assumes "sending i s" "slot_ok s" "p = PRIORITY_LOW \<longrightarrow> wb_ptr wb = (wb_buffer wb, 0)"
  shows "slot_ok (appended p wb s)"
proof -
  have "sending i (appended p wb s)" using assms(1) by (simp add: sending_def)
  moreover have "param_ok (appended p wb s)" using param_frame [of s "appended p wb s"] assms(1,2) by (simp add: slot_ok_sending)
  moreover have "total_sz (wbs (appended p wb s)) = sk_wb_size (appended p wb s)"
    using assms(1,2) by (simp add: slot_ok_sending appended_def total_split [of _ p])
  moreover have "wb_ptr x = (wb_buffer x, 0)" if "x \<in> set (sk_low (appended p wb s))" for x
    using that assms by (cases p) (auto simp: appended_def set_wb_list_def slot_ok_sending)
  ultimately show ?thesis by (simp add: slot_ok_sending)
qed

lemma at_append:
  assumes sz: "0 \<le> sz" "int n \<le> sz" and s: "sending i s" "slot_ok s" "p = PRIORITY_LOW \<longrightarrow> n = 0"
  shows "sound (at_slot K N R X i (wbs s @ [package b sz a']) (watched_fd s) s)
    (bind_o (append_node i p b sz n a) (add_wb_size i)) (\<lambda>_. server_ok K N R X)"
proof -
  let ?wb = "(package b (sz - int n) a)\<lparr>wb_ptr := (b, n)\<rparr>"
  have buf: "\<lparr>wb_buffer = b, wb_ptr = (b, n), wb_sz = sz - int n, wb_userobject = False, wb_udp_address = a\<rparr> = ?wb"
    by (simp add: package_def)
  let ?s1 = "set_wb_list p (wb_list p s @ [?wb]) s" and ?s = "appended p ?wb s"
  have own: "mset (wbs ?s) = add_mset ?wb (mset (wbs s))" "set (wbs ?s) = insert ?wb (set (wbs s))"
    by (simp_all add: wbs_split [of _ p] set_wbs [of _ p] appended_def)
  have "sound (at_slot K N R X i (wbs s @ [package b sz a']) (watched_fd s) s)
      (upd_slot i (\<lambda>s. set_wb_list p (wb_list p s @ [?wb]) s))
      (\<lambda>_. at_slot K N R X i (wbs s @ [package b sz a']) (watched_fd s) ?s1)"
    by (rule at_upd) simp_all
  moreover have "sound (at_slot K N R X i (wbs s @ [package b sz a']) (watched_fd s) ?s1) (add_wb_size i ?wb) (\<lambda>_. server_ok K N R X)"
    unfolding add_wb_size_def
  proof (rule triple_post [OF at_upd])
    fix ss assume "at_slot K N R X i (wbs s @ [package b sz a']) (watched_fd s) (?s1\<lparr>sk_wb_size := sk_wb_size ?s1 + wb_sz ?wb\<rparr>) ss"
    then have "at_slot K N R X i (wbs s @ [package b sz a']) (watched_fd s) ?s ss" by (simp add: appended_def)
    then have "at_slot K N R X i (wbs ?s) (watched_fd s) ?s ss"
      by (rule at_owns) (use own sz in \<open>auto simp: wb_ok_def\<close>)
    then show "server_ok K N R X ss" by (rule at_server) (use s in \<open>simp_all add: appended_ok\<close>)
  qed simp_all
  ultimately show ?thesis
    unfolding append_node_def plain_object [OF sz(1)] bind_ret Let_def
    by (simp add: buf bind_seq_ret) (rule triple_seq')
qed

lemma at_discard:
  assumes "slot_ok s"
  shows "sound (at_slot K N R {} i (wbs s @ [package b sz a]) (watched_fd s) s) (seq (free_object False b) (ret None)) (reported K N R i)"
proof -
  have "sound (at_slot K N R {} i (wbs s @ [package b sz a]) (watched_fd s) s) (free_object False b) (\<lambda>_. server_ok K N R {})"
  proof (rule triple_pre, rule triple_post [OF at_free_object])
    fix ss assume "at_slot K N R {} i (wbs s @ [package b sz a]) (watched_fd s) s ss"
    then show "at_slot K N R {} i (package b sz a # wbs s) (watched_fd s) s ss" by (rule at_owns) auto
  qed (use assms in \<open>auto intro: at_server\<close>)
  then show ?thesis by (rule triple_seq') (rule triple_ret, simp)
qed

lemma at_close_discard:
  assumes "live i s"
  shows "sound (at_slot K N R {} i (wbs s @ [package b sz a]) (watched_fd s) s)
    (bind_o (force_close i) (\<lambda>result. seq (free_object False b) (ret (Some (SOCKET_CLOSE, result))))) (reported K N R i)"
proof (rule triple_bind [OF at_force_close_rest])
  show "sk_type s \<noteq> SOCKET_TYPE_INVALID" "sk_type s \<noteq> SOCKET_TYPE_RESERVE" using assms(1) by (simp_all add: live_def)
next
  fix r :: socket_result
  let ?r0 = "\<lparr>sr_id = sk_id s, sr_opaque = sk_opaque s, sr_ud = 0, sr_data = No_data\<rparr>"
  show "sound (\<lambda>ss. r = ?r0 \<and> at_slot K N R (insert i {}) i [package b sz a] None (closed_socket s) ss)
      (seq (free_object False b) (ret (Some (SOCKET_CLOSE, r)))) (reported K N R i)"
  proof (rule triple_pure, rule triple_seq' [OF at_free_object], simp, simp, rule triple_ret)
    fix ss assume r: "r = ?r0" and a: "at_slot K N R (insert i {}) i [] None (closed_socket s) ss"
    then have "server_ok K N R {i} ss" using closed_server by auto
    moreover have "ss_slot ss i = closed_socket s" using a by (simp add: at_slot_def)
    then have "{i} \<subseteq> exempt i (Some (SOCKET_CLOSE, r)) ss"
      using assms r by (simp add: exempt_def closed_socket_def live_def closing_def)
    ultimately show "reported K N R i (Some (SOCKET_CLOSE, r)) ss" unfolding reported_def by (rule server_mono)
  qed
qed

text \<open>What the control invariant says of the slot of a request.\<close>

definition slot_for :: "u32 \<Rightarrow> socket \<Rightarrow> bool" where
  "slot_for sid s =
     ((sk_type s \<noteq> SOCKET_TYPE_INVALID \<longrightarrow> HASH_ID (sk_id s) = HASH_ID sid) \<and>
      (sk_type s = SOCKET_TYPE_RESERVE \<longrightarrow> sk_id s \<noteq> sid))"

lemma at_send_socket:
  assumes K: "kernel_ok K" and s: "slot_ok s" "slot_for sid s" and sz: "0 \<le> sz" and i: "i = HASH_ID sid"
  shows "sound (at_slot K N R {} i (wbs s @ [package b sz a0]) (watched_fd s) s) (send_socket K sid b sz p address) (reported K N R i)"
proof -
  let ?at = "at_slot K N R {} i (wbs s @ [package b sz a0]) (watched_fd s) s"
  let ?address = "case address of None \<Rightarrow> socket_address s | Some a \<Rightarrow> ret a"
  have fin: "sound ?at (seq (free_object False b) (ret None)) (reported K N R i)" by (rule at_discard [OF s(1)])
  have app: "sound ?at (seq (bind_o (append_node i q b sz n a) (add_wb_size i)) (ret None)) (reported K N R i)"
    if "sending i s" "int n \<le> sz" "q = PRIORITY_LOW \<longrightarrow> n = 0" for q n a
    by (rule triple_seq' [OF at_append [OF sz that(2,1) s(1) that(3)]], rule triple_ret, simp)
  have app_poll: "sound ?at (seq (bind_o (append_node i q b sz n a) (add_wb_size i)) (seq (sys_do (Sys_poll_write fd True)) (ret None)))
      (reported K N R i)" if "sending i s" "int n \<le> sz" "q = PRIORITY_LOW \<longrightarrow> n = 0" for q n a fd
    by (rule triple_seq' [OF at_append [OF sz that(2,1) s(1) that(3)]], rule triple_seq' [OF server_sys_do], simp, rule triple_ret, simp)
  have get_address: "sound ?at (bind_o ?address k) (reported K N R i)"
    if snd: "sending i s" "sk_protocol s \<noteq> PROTOCOL_TCP" "\<And>a. sound ?at (k a) (reported K N R i)" for k
  proof -
    obtain a where "sk_p s = Udp_address a" using snd(1,2) s(1) by (auto simp: slot_ok_sending param_ok_def split: socket_param.splits)
    then show ?thesis using snd(3) by (cases address) (simp_all add: socket_address_def)
  qed
  have written: "sound ?at
      (case written of
         None \<Rightarrow> bind_o (force_close i) (\<lambda>result. seq (free_object False b) (ret (Some (SOCKET_CLOSE, result))))
       | Some n \<Rightarrow>
           if int n = sz then seq (free_object False b) (ret None)
           else seq (append_sendbuffer i b sz n) (seq (sys_do (Sys_poll_write (sk_fd s) True)) (ret None))) (reported K N R i)"
    if "sending i s" "\<forall>n. written = Some n \<longrightarrow> int n \<le> sz" for written
    using at_close_discard [OF sending_live [OF that(1)]] fin app_poll [OF that(1)] that(2)
    by (cases written) (simp_all add: append_sendbuffer_def)
  have tcp: "sound ?at
      (bind_o (so_load (b, 0) sz) (\<lambda>data. bind_o (sys (Sys_write (sk_fd s) data)) (\<lambda>h.
         let written = (case k_write K h of Inl e \<Rightarrow> if e = EINTR \<or> AGAIN_WOULDBLOCK e then Some 0 else None | Inr n \<Rightarrow> Some n) in
         case written of
           None \<Rightarrow> bind_o (force_close i) (\<lambda>result. seq (free_object False b) (ret (Some (SOCKET_CLOSE, result))))
         | Some n \<Rightarrow>
             if int n = sz then seq (free_object False b) (ret None)
             else seq (append_sendbuffer i b sz n) (seq (sys_do (Sys_poll_write (sk_fd s) True)) (ret None))))) (reported K N R i)"
    if snd: "sending i s"
  proof (rule triple_bind)
    show "sound ?at (so_load (b, 0) sz) (\<lambda>d ss. length d = nat sz \<and> ?at ss)"
      using at_load [of "package b sz a0" "wbs s @ [package b sz a0]"] by simp
    fix data :: bytes
    show "sound (\<lambda>ss. length data = nat sz \<and> ?at ss) (bind_o (sys (Sys_write (sk_fd s) data)) (\<lambda>h.
         let written = (case k_write K h of Inl e \<Rightarrow> if e = EINTR \<or> AGAIN_WOULDBLOCK e then Some 0 else None | Inr n \<Rightarrow> Some n) in
         case written of
           None \<Rightarrow> bind_o (force_close i) (\<lambda>result. seq (free_object False b) (ret (Some (SOCKET_CLOSE, result))))
         | Some n \<Rightarrow>
             if int n = sz then seq (free_object False b) (ret None)
             else seq (append_sendbuffer i b sz n) (seq (sys_do (Sys_poll_write (sk_fd s) True)) (ret None)))) (reported K N R i)"
    proof (rule triple_pure, rule triple_bind [OF at_sys], simp, rule triple_pure)
      fix h assume d: "length data = nat sz" and "\<exists>h'. h = h' @ [Sys_write (sk_fd s) data]"
      then have "\<forall>n. k_write K h = Inr n \<longrightarrow> int n \<le> sz" using kernel_ok_write [OF K] sz by fastforce
      then have w: "\<forall>n. (case k_write K h of Inl e \<Rightarrow> if e = EINTR \<or> AGAIN_WOULDBLOCK e then Some 0 else None | Inr n \<Rightarrow> Some n) = Some n \<longrightarrow> int n \<le> sz"
        using sz by (auto split: sum.splits)
      show "sound ?at (let written = (case k_write K h of Inl e \<Rightarrow> if e = EINTR \<or> AGAIN_WOULDBLOCK e then Some 0 else None | Inr n \<Rightarrow> Some n) in
         case written of
           None \<Rightarrow> bind_o (force_close i) (\<lambda>result. seq (free_object False b) (ret (Some (SOCKET_CLOSE, result))))
         | Some n \<Rightarrow>
             if int n = sz then seq (free_object False b) (ret None)
             else seq (append_sendbuffer i b sz n) (seq (sys_do (Sys_poll_write (sk_fd s) True)) (ret None))) (reported K N R i)"
        unfolding Let_def by (rule written [OF snd w])
    qed
  qed
  have udp: "sound ?at
      (bind_o (so_load (b, 0) sz) (\<lambda>data. bind_o ?address (\<lambda>a.
         bind_o (sys (Sys_sendto (sk_fd s) data (udp_socket_address s a))) (\<lambda>h.
           if k_sendto K h = Inr (nat sz) then seq (free_object False b) (ret None)
           else seq (append_sendbuffer_udp i p b sz a) (seq (sys_do (Sys_poll_write (sk_fd s) True)) (ret None)))))) (reported K N R i)"
    if snd: "sending i s" "sk_protocol s \<noteq> PROTOCOL_TCP"
  proof (rule triple_bind)
    show "sound ?at (so_load (b, 0) sz) (\<lambda>d ss. length d = nat sz \<and> ?at ss)"
      using at_load [of "package b sz a0" "wbs s @ [package b sz a0]"] by simp
    fix data :: bytes
    show "sound (\<lambda>ss. length data = nat sz \<and> ?at ss) (bind_o ?address (\<lambda>a.
         bind_o (sys (Sys_sendto (sk_fd s) data (udp_socket_address s a))) (\<lambda>h.
           if k_sendto K h = Inr (nat sz) then seq (free_object False b) (ret None)
           else seq (append_sendbuffer_udp i p b sz a) (seq (sys_do (Sys_poll_write (sk_fd s) True)) (ret None))))) (reported K N R i)"
      unfolding append_sendbuffer_udp_def
      by (rule triple_pure, rule get_address [OF snd], rule triple_bind [OF at_sys], simp, rule triple_pure,
          rule triple_if, rule fin, rule app_poll [OF snd(1)]) (use sz in simp_all)
  qed
  have sends: "sending i s" if "\<not> (sk_type s = SOCKET_TYPE_INVALID \<or> sk_id s \<noteq> sid \<or> sk_type s = SOCKET_TYPE_HALFCLOSE \<or> sk_type s = SOCKET_TYPE_PACCEPT)"
    "\<not> (sk_type s = SOCKET_TYPE_PLISTEN \<or> sk_type s = SOCKET_TYPE_LISTEN)"
    using that s(2) i by (cases "sk_type s") (auto simp: sending_def slot_for_def)
  have queue: "sound ?at (if sk_protocol s = PROTOCOL_TCP
          then if p = PRIORITY_LOW then seq (append_sendbuffer_low i b sz) (ret None) else seq (append_sendbuffer i b sz 0) (ret None)
          else bind_o ?address (\<lambda>a. seq (append_sendbuffer_udp i p b sz a) (ret None))) (reported K N R i)" if snd: "sending i s"
    unfolding append_sendbuffer_def append_sendbuffer_low_def append_sendbuffer_udp_def
    by (intro triple_if app [OF snd] get_address [OF snd]) (use sz in simp_all)
  show ?thesis
    unfolding send_socket_def Let_def i [symmetric] plain_object [OF sz]
    apply (rule sound_get)
    apply (simp only: bind_ret send_object.simps)
    apply (rule triple_if, rule fin)
    apply (rule triple_if, rule fin)
    apply (drule (1) sends)
    apply (rule triple_if)
     apply (cases "sk_protocol s = PROTOCOL_TCP")
      apply (simp only: if_True simp_thms)
      apply (erule tcp [unfolded Let_def])
     apply (simp only: if_False simp_thms)
     apply (erule (1) udp)
    apply (erule queue)
    done
qed

section \<open>Requests\<close>

lemma server_ctl: "server_ok K N R X ss \<Longrightarrow> ctl_inv R ss"
  by (simp add: server_ok_def base_def)

lemma server_slot_ok: "server_ok K N R X ss \<Longrightarrow> slot_ok (ss_slot ss i)"
  by (simp add: server_ok_def)

lemma ctl_reserved:
  "ctl_inv (sid # R) ss \<Longrightarrow> sk_type (ss_slot ss (HASH_ID sid)) = SOCKET_TYPE_RESERVE \<and> sk_id (ss_slot ss (HASH_ID sid)) = sid"
  by (simp add: ctl_inv_def)

lemma ctl_hash: "ctl_inv R ss \<Longrightarrow> sk_type (ss_slot ss i) \<noteq> SOCKET_TYPE_INVALID \<Longrightarrow> HASH_ID (sk_id (ss_slot ss i)) = i"
  unfolding ctl_inv_def by blast

text \<open>To reason about an operation on one slot, fix what the slot holds.\<close>

lemma sound_reserved:
  assumes "\<And>s. sk_type s = SOCKET_TYPE_RESERVE \<Longrightarrow> sk_id s = sid \<Longrightarrow> wbs s = [] \<Longrightarrow>
    sound (at_slot K N (sid # R) X (HASH_ID sid) [] None s) m Q"
  shows "sound (server_ok K N (sid # R) X) m Q"
proof (rule tripleI)
  fix ss assume ok: "server_ok K N (sid # R) X ss"
  let ?s = "ss_slot ss (HASH_ID sid)"
  have s: "sk_type ?s = SOCKET_TYPE_RESERVE" "sk_id ?s = sid" using ctl_reserved [OF server_ctl [OF ok]] by simp_all
  then have e: "wbs ?s = []" "watched_fd ?s = None"
    using server_slot_ok [OF ok, of "HASH_ID sid"] by (simp_all add: slot_ok_def watched_fd_def registered_type_def)
  have "at_slot K N (sid # R) X (HASH_ID sid) [] None ?s ss" using server_at [OF ok, of "HASH_ID sid"] e by simp
  from triple_run [OF assms [OF s e(1)] this] show "case m ss of Inl e \<Rightarrow> e \<in> {} | Inr (x, ss') \<Rightarrow> Q x ss'" .
qed

definition not_reserved :: "u32 \<Rightarrow> socket_server \<Rightarrow> bool" where
  "not_reserved sid ss = (sk_type (ss_slot ss (HASH_ID sid)) = SOCKET_TYPE_RESERVE \<longrightarrow> sk_id (ss_slot ss (HASH_ID sid)) \<noteq> sid)"

lemma sound_target:
  assumes "\<And>s. slot_ok s \<Longrightarrow> slot_for sid s \<Longrightarrow> sound (at_slot K N R X (HASH_ID sid) (wbs s) (watched_fd s) s) m Q"
  shows "sound (\<lambda>ss. server_ok K N R X ss \<and> not_reserved sid ss) m Q"
proof (rule tripleI)
  fix ss assume ok: "server_ok K N R X ss \<and> not_reserved sid ss"
  then have "slot_for sid (ss_slot ss (HASH_ID sid))"
    using ctl_hash [of R ss "HASH_ID sid"] server_ctl by (auto simp: slot_for_def not_reserved_def)
  with triple_run [OF assms] ok show "case m ss of Inl e \<Rightarrow> e \<in> {} | Inr (x, ss') \<Rightarrow> Q x ss'"
    using server_at server_slot_ok by metis
qed

lemma live_slot: "slot_for sid s \<Longrightarrow> sk_type s \<noteq> SOCKET_TYPE_INVALID \<Longrightarrow> sk_id s = sid \<Longrightarrow> live (HASH_ID sid) s"
  by (auto simp: slot_for_def live_def)

lemma at_server_ret: "slot_ok s \<Longrightarrow> sound (at_slot K N R {} i (wbs s) (watched_fd s) s) (ret r) (reported K N R j)"
  by (rule triple_ret) (auto intro: server_reported at_server)

text \<open>Giving a slot back that was never watched.\<close>

lemma at_give_up:
  assumes "sk_type s \<noteq> SOCKET_TYPE_RESERVE" "\<not> registered_type (sk_type s)"
  shows "sound (at_slot K N R X i l w s) (set_type i SOCKET_TYPE_INVALID)
    (\<lambda>_. at_slot K N R X i l w (s\<lparr>sk_type := SOCKET_TYPE_INVALID\<rparr>))"
  unfolding set_type_def upd_slot_def
proof (rule triple_modify)
  fix ss assume a: "at_slot K N R X i l w s ss"
  then have s: "ss_slot ss i = s" by (simp add: at_slot_def)
  have "ctl_inv R (ss\<lparr>ss_slot := (ss_slot ss)(i := s\<lparr>sk_type := SOCKET_TYPE_INVALID\<rparr>)\<rparr>)"
    using a s assms by (intro ctl_live) (simp_all add: at_slot_def base_def)
  then have "at_slot K N R X i l w (s\<lparr>sk_type := SOCKET_TYPE_INVALID\<rparr>)
      (ss\<lparr>ss_slot := (ss_slot ss)(i := s\<lparr>sk_type := SOCKET_TYPE_INVALID\<rparr>)\<rparr>)"
    by (rule at_slot_change [OF a]) (use assms in auto)
  then show "at_slot K N R X i l w (s\<lparr>sk_type := SOCKET_TYPE_INVALID\<rparr>)
      (ss\<lparr>ss_slot := (ss_slot ss)(i := (ss_slot ss i)\<lparr>sk_type := SOCKET_TYPE_INVALID\<rparr>)\<rparr>)" using s by simp
qed

text \<open>A reserved slot that is given back.\<close>

definition free_slot :: "socket \<Rightarrow> bool" where
  "free_slot s = (sk_type s = SOCKET_TYPE_INVALID \<and> wbs s = [])"

lemma free_slot_server: "at_slot K N R X i [] None s ss \<Longrightarrow> free_slot s \<Longrightarrow> server_ok K N R X ss"
  by (erule at_server) (auto simp: free_slot_def slot_ok_def watched_fd_def registered_type_def)

lemma at_unreserve:
  assumes "i = HASH_ID sid" "sk_type s = SOCKET_TYPE_RESERVE" "sk_id s = sid" "wbs s = []"
  shows "sound (at_slot K N (sid # R) X i l w s) (set_type i SOCKET_TYPE_INVALID)
    (\<lambda>_ ss. \<exists>s'. free_slot s' \<and> at_slot K N R X i l w s' ss)"
  unfolding set_type_def
proof (rule triple_post [OF at_open [OF assms(1,3,2)]])
  fix ss assume "at_slot K N R X i l w (s\<lparr>sk_type := SOCKET_TYPE_INVALID\<rparr>) ss"
  moreover have "free_slot (s\<lparr>sk_type := SOCKET_TYPE_INVALID\<rparr>)" using assms by (simp add: free_slot_def)
  ultimately show "\<exists>s'. free_slot s' \<and> at_slot K N R X i l w s' ss" by blast
qed (use assms in simp_all)

lemma at_free_again: "free_slot s \<Longrightarrow> sound (at_slot K N R X i [] None s) (set_type i SOCKET_TYPE_INVALID) (\<lambda>_. server_ok K N R X)"
  by (rule triple_post [OF at_give_up]) (auto simp: free_slot_def registered_type_def intro: free_slot_server)

text \<open>A slot that is being opened: its fields are set, its state is still \<open>SOCKET_TYPE_RESERVE\<close>.\<close>

definition being_opened :: "u32 \<Rightarrow> int \<Rightarrow> protocol \<Rightarrow> socket \<Rightarrow> bool" where
  "being_opened sid fd pr s =
     (sk_type s = SOCKET_TYPE_RESERVE \<and> sk_id s = sid \<and> sk_fd s = fd \<and> sk_protocol s = pr \<and>
      sk_p s = Read_size MIN_READ_BUFFER \<and> sk_wb_size s = 0 \<and> wbs s = [])"

lemma at_new_fd:
  assumes "kernel_ok K"
  shows "sound (server_ok K N (sid # R) X) (new_fd K sid fd pr opaque add)
    (\<lambda>r ss. case r of
       None \<Rightarrow> add \<and> (\<exists>s. free_slot s \<and> at_slot K N R X (HASH_ID sid) [] None s ss)
     | Some i \<Rightarrow> i = HASH_ID sid \<and>
         (\<exists>s. being_opened sid fd pr s \<and> at_slot K N (sid # R) X i [] (if add then Some fd else None) s ss))"
    (is "sound _ _ ?Q")
proof (rule sound_reserved)
  fix s assume s: "sk_type s = SOCKET_TYPE_RESERVE" "sk_id s = sid" "wbs s = []"
  let ?i = "HASH_ID sid"
  let ?s = "s\<lparr>sk_id := sid, sk_fd := fd, sk_protocol := pr, sk_p := Read_size MIN_READ_BUFFER, sk_opaque := opaque, sk_wb_size := 0\<rparr>"
  have add: "sound (at_slot K N (sid # R) X ?i [] None s)
      (if add then bind_o (sys (Sys_add fd ?i)) (\<lambda>h. ret (k_add K h \<noteq> None)) else ret False)
      (\<lambda>failed. \<lambda>ss. (failed \<longrightarrow> add) \<and> at_slot K N (sid # R) X ?i [] (if add \<and> \<not> failed then Some fd else None) s ss)"
  proof (rule triple_if)
    assume "add"
    then show "sound (at_slot K N (sid # R) X ?i [] None s) (bind_o (sys (Sys_add fd ?i)) (\<lambda>h. ret (k_add K h \<noteq> None)))
      (\<lambda>failed. \<lambda>ss. (failed \<longrightarrow> add) \<and> at_slot K N (sid # R) X ?i [] (if add \<and> \<not> failed then Some fd else None) s ss)"
      by (intro triple_bind [OF at_add [OF assms]] triple_ret) auto
  qed (auto intro: triple_ret)
  have fill: "sound (at_slot K N (sid # R) X ?i [] w s)
      (seq (upd_slot ?i (\<lambda>s. s\<lparr>sk_id := sid, sk_fd := fd, sk_protocol := pr, sk_p := Read_size MIN_READ_BUFFER, sk_opaque := opaque,
          sk_wb_size := 0\<rparr>)) (seq (check_wb_list (sk_high s)) (seq (check_wb_list (sk_low s)) (ret (Some ?i)))))
      (\<lambda>r ss. r = Some ?i \<and> at_slot K N (sid # R) X ?i [] w ?s ss)" for w
    unfolding check_wb_list_def
    by (rule triple_seq' [OF at_upd], use s in simp, use s in simp)
      (use s in \<open>simp add: wbs_def check_True, intro triple_ret, simp\<close>)
  have "being_opened sid fd pr ?s" using s by (simp add: being_opened_def)
  then have fill': "sound (\<lambda>ss. (failed \<longrightarrow> add) \<and> at_slot K N (sid # R) X ?i [] (if add \<and> \<not> failed then Some fd else None) s ss)
      (if failed then seq (set_type ?i SOCKET_TYPE_INVALID) (ret None)
       else seq (upd_slot ?i (\<lambda>s. s\<lparr>sk_id := sid, sk_fd := fd, sk_protocol := pr, sk_p := Read_size MIN_READ_BUFFER, sk_opaque := opaque,
          sk_wb_size := 0\<rparr>)) (seq (check_wb_list (sk_high s)) (seq (check_wb_list (sk_low s)) (ret (Some ?i))))) ?Q" for failed
    using triple_seq' [OF at_unreserve [OF refl s] triple_ret, of K N R X "[]" None _ None] 
    by (cases failed) (auto intro!: triple_pure triple_post [OF fill] triple_seq' [OF at_unreserve [OF refl s]] triple_ret)
  show "sound (at_slot K N (sid # R) X ?i [] None s) (new_fd K sid fd pr opaque add) ?Q"
    unfolding new_fd_def Let_def
    by (rule sound_get) (simp only: s eqTrueI [OF refl] check_True, rule triple_bind [OF add], rule fill')
qed

text \<open>The last step of opening: the slot gets its state.\<close>

lemma at_opened:
  assumes "being_opened sid fd pr s" "t \<noteq> SOCKET_TYPE_INVALID" "t \<noteq> SOCKET_TYPE_RESERVE" "i = HASH_ID sid"
    "w = (if registered_type t then Some fd else None)" "pr = PROTOCOL_TCP"
  shows "sound (at_slot K N (sid # R) X i [] w s) (set_type i t) (\<lambda>_. server_ok K N R X)"
  unfolding set_type_def
proof (rule triple_post [OF at_open])
  fix ss assume "at_slot K N R X i [] w (s\<lparr>sk_type := t\<rparr>) ss"
  then show "server_ok K N R X ss"
    by (rule at_server)
      (use assms in \<open>auto simp: being_opened_def watched_fd_def slot_ok_def param_ok_def wbs_def\<close>)
qed (use assms in \<open>simp_all add: being_opened_def\<close>)

lemma at_listen_socket:
  assumes "kernel_ok K"
  shows "sound (server_ok K N (sid # R) {}) (listen_socket K sid fd opaque) (reported K N R (HASH_ID sid))"
  unfolding listen_socket_def
proof (rule triple_bind [OF at_new_fd [OF assms]])
  fix r
  show "sound (\<lambda>ss. case r of None \<Rightarrow> False \<and> (\<exists>s. free_slot s \<and> at_slot K N R {} (HASH_ID sid) [] None s ss)
     | Some i \<Rightarrow> i = HASH_ID sid \<and>
         (\<exists>s. being_opened sid fd PROTOCOL_TCP s \<and> at_slot K N (sid # R) {} i [] (if False then Some fd else None) s ss))
    (case r of None \<Rightarrow>
           seq (sys_do (Sys_close fd))
          (seq (set_type (HASH_ID sid) SOCKET_TYPE_INVALID)
               (ret (Some (SOCKET_ERROR, \<lparr>sr_id = sid, sr_opaque = opaque, sr_ud = 0, sr_data = limit_reached\<rparr>))))
       | Some i \<Rightarrow> seq (set_type i SOCKET_TYPE_PLISTEN) (ret None)) (reported K N R (HASH_ID sid))"
  proof (cases r)
    case None
    then show ?thesis by (simp add: triple_def)
  next
    case (Some i)
    then show ?thesis
      by simp (intro triple_pure triple_ex triple_seq' [OF at_opened [where sid = sid and fd = fd and pr = PROTOCOL_TCP]] triple_ret;
          simp add: registered_type_def)
  qed
qed

lemma at_bind_socket:
  assumes "kernel_ok K"
  shows "sound (server_ok K N (sid # R) {}) (bind_socket K sid fd opaque) (reported K N R (HASH_ID sid))"
  unfolding bind_socket_def Let_def
proof (rule triple_bind [OF at_new_fd [OF assms]])
  fix r
  let ?res = "\<lparr>sr_id = sid, sr_opaque = opaque, sr_ud = 0, sr_data = No_data\<rparr>"
  show "sound (\<lambda>ss. case r of None \<Rightarrow> True \<and> (\<exists>s. free_slot s \<and> at_slot K N R {} (HASH_ID sid) [] None s ss)
     | Some i \<Rightarrow> i = HASH_ID sid \<and>
         (\<exists>s. being_opened sid fd PROTOCOL_TCP s \<and> at_slot K N (sid # R) {} i [] (if True then Some fd else None) s ss))
    (case r of None \<Rightarrow> ret (Some (SOCKET_ERROR, ?res\<lparr>sr_data := limit_reached\<rparr>))
       | Some i \<Rightarrow> seq (sys_do (Sys_nonblocking fd)) (seq (set_type i SOCKET_TYPE_BIND)
                (ret (Some (SOCKET_OPEN, ?res\<lparr>sr_data := Text_data (cstring ''binding'')\<rparr>))))) (reported K N R (HASH_ID sid))"
  proof (cases r)
    case None
    then show ?thesis by simp (intro triple_ex triple_pure triple_ret server_reported, erule free_slot_server)
  next
    case (Some i)
    then show ?thesis
      by simp (intro triple_pure triple_ex triple_seq' [OF at_sys_do]
          triple_seq' [OF at_opened [where sid = sid and fd = fd and pr = PROTOCOL_TCP]] triple_ret server_reported;
          simp add: registered_type_def)
  qed
qed

lemma at_add_udp:
  assumes "kernel_ok K"
  shows "sound (server_ok K N (sid # R) {}) (add_udp_socket K sid fd family opaque) (\<lambda>_. server_ok K N R {})"
  unfolding add_udp_socket_def
proof (rule triple_bind [OF at_new_fd [OF assms]])
  fix r
  let ?pr = "if family = FAMILY_INET6 then PROTOCOL_UDPv6 else PROTOCOL_UDP"
  let ?f = "\<lambda>s :: socket. s\<lparr>sk_type := SOCKET_TYPE_CONNECTED, sk_p := Udp_address (replicate UDP_ADDRESS_SIZE 0)\<rparr>"
  have opened: "sound (at_slot K N (sid # R) {} (HASH_ID sid) [] (Some fd) s) (upd_slot (HASH_ID sid) ?f) (\<lambda>_. server_ok K N R {})"
    if s: "being_opened sid fd ?pr s" for s
  proof (rule triple_post [OF at_open])
    fix ss assume "at_slot K N R {} (HASH_ID sid) [] (Some fd) (?f s) ss"
    then show "server_ok K N R {} ss"
      by (rule at_server) (use s in \<open>auto simp: being_opened_def watched_fd_def slot_ok_def param_ok_def wbs_def registered_type_def\<close>)
  qed (use s in \<open>simp_all add: being_opened_def\<close>)
  show "sound (\<lambda>ss. case r of None \<Rightarrow> True \<and> (\<exists>s. free_slot s \<and> at_slot K N R {} (HASH_ID sid) [] None s ss)
     | Some i \<Rightarrow> i = HASH_ID sid \<and>
         (\<exists>s. being_opened sid fd ?pr s \<and> at_slot K N (sid # R) {} i [] (if True then Some fd else None) s ss))
    (case r of None \<Rightarrow> seq (sys_do (Sys_close fd)) (set_type (HASH_ID sid) SOCKET_TYPE_INVALID) | Some i \<Rightarrow> upd_slot i ?f)
    (\<lambda>_. server_ok K N R {})"
  proof (cases r)
    case None
    then show ?thesis
      by simp (intro triple_ex triple_pure triple_seq' [OF at_sys_do]; simp add: at_free_again)
  next
    case (Some i)
    show ?thesis unfolding Some option.case if_True by (intro triple_pure triple_ex) (use opened in simp)
  qed
qed

lemma server_connect_loop: "sound (server_ok K N R X) (connect_loop K e ai) (\<lambda>_. server_ok K N R X)"
proof (induction ai arbitrary: e)
  case Nil
  then show ?case by (simp add: triple_ret)
next
  case (Cons a ai)
  have conn: "sound (\<lambda>ss. (\<exists>h'. h = h' @ [c]) \<and> server_ok K N R X ss)
      (case k_connect K h of None \<Rightarrow> ret (Inr (sock, a, True))
       | Some e \<Rightarrow> if e \<noteq> EINPROGRESS then seq (sys_do (Sys_close sock)) (connect_loop K e ai) else ret (Inr (sock, a, False)))
      (\<lambda>_. server_ok K N R X)" for h c sock
    by (rule triple_pure, cases "k_connect K h") (auto intro!: triple_ret triple_seq' [OF server_sys_do] Cons.IH)
  have "sound (\<lambda>ss. (\<exists>h'. h = h' @ [c]) \<and> server_ok K N R X ss)
      (case k_socket K h of Inl e \<Rightarrow> connect_loop K e ai
       | Inr sock \<Rightarrow> seq (sys_do (Sys_keepalive sock)) (seq (sys_do (Sys_nonblocking sock)) (bind_o (sys (Sys_connect sock a)) (\<lambda>h.
             case k_connect K h of None \<Rightarrow> ret (Inr (sock, a, True))
             | Some e \<Rightarrow> if e \<noteq> EINPROGRESS then seq (sys_do (Sys_close sock)) (connect_loop K e ai) else ret (Inr (sock, a, False))))))
      (\<lambda>_. server_ok K N R X)" for h c
    by (rule triple_pure, cases "k_socket K h")
      (auto intro!: Cons.IH triple_seq' [OF server_sys_do] triple_bind [OF server_sys] conn)
  then show ?case unfolding connect_loop.simps by (intro triple_bind [OF server_sys]) simp_all
qed

lemma server_unreserve:
  "sound (server_ok K N (sid # R) X) (set_type (HASH_ID sid) SOCKET_TYPE_INVALID) (\<lambda>_. server_ok K N R X)"
  by (rule sound_reserved, rule triple_post [OF at_unreserve]) (auto intro: free_slot_server)

lemma at_open_socket:
  assumes "kernel_ok K"
  shows "sound (server_ok K N (sid # R) {}) (open_socket K sid port opaque host) (reported K N R (HASH_ID sid))"
proof -
  let ?res = "\<lparr>sr_id = sid, sr_opaque = opaque, sr_ud = 0, sr_data = No_data\<rparr>"
  let ?failed = "\<lambda>d. seq (set_type (HASH_ID sid) SOCKET_TYPE_INVALID) (ret (Some (SOCKET_ERROR, ?res\<lparr>sr_data := d\<rparr>)))"
  have failed: "sound (server_ok K N (sid # R) {}) (?failed d) (reported K N R (HASH_ID sid))" for d
    by (rule triple_seq' [OF server_unreserve triple_ret]) (rule server_reported)
  have fin: "sound (\<lambda>ss. case r of None \<Rightarrow> True \<and> (\<exists>s. free_slot s \<and> at_slot K N R {} (HASH_ID sid) [] None s ss)
     | Some i \<Rightarrow> i = HASH_ID sid \<and>
         (\<exists>s. being_opened sid sock PROTOCOL_TCP s \<and> at_slot K N (sid # R) {} i [] (if True then Some sock else None) s ss))
      (case r of None \<Rightarrow> seq (sys_do (Sys_close sock)) (?failed limit_reached)
       | Some i \<Rightarrow>
           if connected then seq (set_type i SOCKET_TYPE_CONNECTED) (ret (Some (SOCKET_OPEN, ?res\<lparr>sr_data := ntop_data K ai\<rparr>)))
           else seq (set_type i SOCKET_TYPE_CONNECTING) (seq (sys_do (Sys_poll_write sock True)) (ret None)))
      (reported K N R (HASH_ID sid))" for r sock connected ai
  proof (cases r)
    case None
    have "sound (at_slot K N R {} (HASH_ID sid) [] None s) (seq (sys_do (Sys_close sock)) (?failed limit_reached)) (reported K N R (HASH_ID sid))"
      if "free_slot s" for s
      by (intro triple_seq' [OF at_sys_do] triple_seq' [OF at_free_again [OF that]] triple_ret server_reported) simp_all
    then show ?thesis unfolding None option.case by (intro triple_pure triple_ex)
  next
    case (Some i)
    have "sound (at_slot K N (sid # R) {} (HASH_ID sid) [] (Some sock) s)
        (if connected then seq (set_type (HASH_ID sid) SOCKET_TYPE_CONNECTED) (ret (Some (SOCKET_OPEN, ?res\<lparr>sr_data := ntop_data K ai\<rparr>)))
         else seq (set_type (HASH_ID sid) SOCKET_TYPE_CONNECTING) (seq (sys_do (Sys_poll_write sock True)) (ret None)))
        (reported K N R (HASH_ID sid))" if s: "being_opened sid sock PROTOCOL_TCP s" for s
      by (intro triple_if triple_seq' [OF at_opened [OF s]] triple_seq' [OF server_sys_do] triple_ret server_reported)
        (simp_all add: registered_type_def)
    then show ?thesis unfolding Some option.case if_True by (intro triple_pure triple_ex, hypsubst)
  qed
  have conn: "sound (server_ok K N (sid # R) {})
      (case r of Inl e \<Rightarrow> ?failed (Text_data (k_strerror K e))
       | Inr (sock, ai, connected) \<Rightarrow> bind_o (new_fd K sid sock PROTOCOL_TCP opaque True) (\<lambda>ns.
           case ns of None \<Rightarrow> seq (sys_do (Sys_close sock)) (?failed limit_reached)
           | Some i \<Rightarrow>
               if connected then seq (set_type i SOCKET_TYPE_CONNECTED) (ret (Some (SOCKET_OPEN, ?res\<lparr>sr_data := ntop_data K ai\<rparr>)))
               else seq (set_type i SOCKET_TYPE_CONNECTING) (seq (sys_do (Sys_poll_write sock True)) (ret None))))
      (reported K N R (HASH_ID sid))" for r
  proof (cases r)
    case (Inl e)
    show ?thesis unfolding Inl sum.case by (rule failed)
  next
    case (Inr x)
    obtain sock ai connected where x: "x = (sock, ai, connected)" by (cases x)
    show ?thesis unfolding Inr x sum.case prod.case by (rule triple_bind [OF at_new_fd [OF assms] fin])
  qed
  have info: "sound (\<lambda>ss. (\<exists>h'. h = h' @ [c]) \<and> server_ok K N (sid # R) {} ss)
      (case k_getaddrinfo K h of Inl error \<Rightarrow> ?failed (Text_data error)
       | Inr ai_list \<Rightarrow> bind_o (connect_loop K (Errno 0) ai_list) (\<lambda>r. case r of Inl e \<Rightarrow> ?failed (Text_data (k_strerror K e))
       | Inr (sock, ai, connected) \<Rightarrow> bind_o (new_fd K sid sock PROTOCOL_TCP opaque True) (\<lambda>ns.
           case ns of None \<Rightarrow> seq (sys_do (Sys_close sock)) (?failed limit_reached)
           | Some i \<Rightarrow>
               if connected then seq (set_type i SOCKET_TYPE_CONNECTED) (ret (Some (SOCKET_OPEN, ?res\<lparr>sr_data := ntop_data K ai\<rparr>)))
               else seq (set_type i SOCKET_TYPE_CONNECTING) (seq (sys_do (Sys_poll_write sock True)) (ret None)))))
      (reported K N R (HASH_ID sid))" for h c
    by (rule triple_pure, cases "k_getaddrinfo K h")
      (simp_all only: sum.case failed triple_bind [OF server_connect_loop conn])
  show ?thesis
    unfolding open_socket_def Let_def by (rule triple_bind [OF server_sys _ ]) (simp, rule info)
qed

text \<open>Sending what waits leaves the socket what it is, unless it reports the end of it.\<close>

definition kept :: "nat \<Rightarrow> socket \<Rightarrow> socket_server \<Rightarrow> bool" where
  "kept i s ss = frame_of s (ss_slot ss i)"

abbreviation keeps :: "nat \<Rightarrow> socket \<Rightarrow> 'a sop \<Rightarrow> bool" where
  "keeps i s m \<equiv> triple UNIV (kept i s) m (\<lambda>_. kept i s)"

lemma keeps_get: "keeps i s (get_slot j)"
  unfolding get_slot_def by (rule triple_gets)

lemma keeps_upd: "(\<And>x. frame_of x (f x)) \<Longrightarrow> keeps i s (upd_slot i f)"
  unfolding upd_slot_def by (rule triple_modify) (auto simp: kept_def frame_of_def)

lemma keeps_sys: "keeps i s (sys c)"
  by (rule tripleI) (simp add: sys_def kept_def)

lemma keeps_sys_do: "keeps i s (sys_do c)"
  unfolding sys_do_def by (rule triple_seq' [OF keeps_sys]) (rule triple_ret)

lemma keeps_load: "keeps i s (so_load p n)"
  by (rule tripleI) (auto simp: so_load_def bind_r_def split: option.splits sum.splits)

lemma keeps_write: "keeps i s (write_again K fd d)"
  by (rule tripleI) (auto simp: write_again_def kept_def dest: write_retry_spec split: option.splits)

lemma keeps_free: "keeps i s (write_buffer_free wb)"
  by (rule tripleI) (auto simp: write_buffer_free_def free_object_def so_free_def act_defs kept_def split: option.splits)

lemma keeps_check: "keeps i s (check b)"
  by (simp add: check_def triple_ret triple_throw)

lemma close_closes: "triple UNIV P (bind_o (force_close i) (\<lambda>result. ret (Some (SOCKET_CLOSE, result)))) (\<lambda>r ss. \<not> closed r \<longrightarrow> Q r ss)"
  by (rule triple_bind [where R = "\<lambda>_ _. True"]) (auto simp: triple_def ret_def closed_def split: sum.splits)

lemmas keeps_intros = triple_bind [OF keeps_get] triple_bind [OF keeps_load] triple_bind [OF keeps_write] triple_bind [OF keeps_sys]
  triple_seq' [OF keeps_upd] triple_seq' [OF keeps_free] triple_seq' [OF keeps_check] triple_seq' [OF keeps_sys_do]
  triple_if triple_ret close_closes

lemma frame_simps [simp]: "frame_of x (x\<lparr>sk_wb_size := n\<rparr>)" "frame_of x (set_wb_list p l x)" "frame_of x (x\<lparr>sk_low := l\<rparr>)"
  "frame_of x (x\<lparr>sk_high := l\<rparr>)"
  by (simp_all add: frame_of_def)

lemma keeps_tcp: "triple UNIV (kept i s) (send_list_tcp K i p l) (\<lambda>r ss. \<not> closed r \<longrightarrow> r = None \<and> kept i s ss)"
proof (induction l)
  case Nil
  then show ?case by (simp add: triple_ret)
next
  case (Cons tmp rest)
  show ?case
    unfolding send_list_tcp.simps
    by (intro keeps_intros) (rule sum.induct; simp only: sum.case; intro keeps_intros Cons.IH; simp)
qed

lemma keeps_udp: "triple UNIV (kept i s) (send_list_udp K i p l) (\<lambda>r ss. \<not> closed r \<longrightarrow> r = None \<and> kept i s ss)"
proof (induction l)
  case Nil
  then show ?case by (simp add: triple_ret)
next
  case (Cons tmp rest)
  have "triple UNIV (kept i s) (case k_sendto K h of Inl e \<Rightarrow> ret None
       | Inr n \<Rightarrow> seq (upd_slot i (\<lambda>s. s\<lparr>sk_wb_size := sk_wb_size s - wb_sz tmp\<rparr>))
          (seq (upd_slot i (set_wb_list p rest)) (seq (write_buffer_free tmp) (send_list_udp K i p rest))))
       (\<lambda>r ss. \<not> closed r \<longrightarrow> r = None \<and> kept i s ss)" for h
    by (cases "k_sendto K h"; simp only: sum.case; intro keeps_intros Cons.IH; simp)
  then show ?case unfolding send_list_udp.simps by (intro keeps_intros)
qed

lemma keeps_list: "triple UNIV (kept i s) (send_list K i p) (\<lambda>r ss. \<not> closed r \<longrightarrow> r = None \<and> kept i s ss)"
  unfolding send_list_def by (intro keeps_intros keeps_tcp keeps_udp)

lemma keeps_raise: "keeps i s (raise_uncomplete i)"
proof -
  have "keeps i s (case l of [] \<Rightarrow> throw Out_of_bounds
       | tmp # rest \<Rightarrow> seq (upd_slot i (\<lambda>s. s\<lparr>sk_low := rest\<rparr>)) (seq (check b) (upd_slot i (\<lambda>s. s\<lparr>sk_high := [tmp]\<rparr>))))" for l b
    by (cases l) (auto intro!: keeps_intros keeps_upd triple_throw)
  then show ?thesis unfolding raise_uncomplete_def by (intro keeps_intros)
qed

lemma after_list:
  assumes "triple UNIV (kept i s) k (\<lambda>r ss. \<not> closed r \<longrightarrow> r = None \<and> kept i s ss)"
  shows "triple UNIV (kept i s) (bind_o (send_list K i p) (\<lambda>r. if closed r then ret r else k))
    (\<lambda>r ss. \<not> closed r \<longrightarrow> r = None \<and> kept i s ss)"
proof (rule triple_bind [OF keeps_list])
  fix r
  show "triple UNIV (\<lambda>ss. \<not> closed r \<longrightarrow> r = None \<and> kept i s ss) (if closed r then ret r else k)
      (\<lambda>r ss. \<not> closed r \<longrightarrow> r = None \<and> kept i s ss)"
    by (rule triple_if) (use assms in \<open>auto intro!: triple_ret triple_pure\<close>)
qed

lemma keeps_send_buffer: "triple UNIV (kept i s) (send_buffer K i) (\<lambda>r ss. \<not> closed r \<longrightarrow> r = None \<and> kept i s ss)"
proof -
  show ?thesis
    unfolding send_buffer_def
    by (intro keeps_intros after_list triple_seq' [where R = "kept i s" and k = "ret None"]) (simp_all add: keeps_raise)
qed

lemma param_ok_upd [simp]: "param_ok (s\<lparr>sk_type := t\<rparr>) = param_ok s" "param_ok (s\<lparr>sk_opaque := q\<rparr>) = param_ok s"
  unfolding param_ok_def by (auto split: socket_param.splits)

lemma sending_nonempty: "slot_ok s \<Longrightarrow> live i s \<Longrightarrow> wbs s \<noteq> [] \<Longrightarrow> sending i s"
  by (cases "sk_type s") (auto simp: slot_ok_def live_def sending_def)

lemma send_buffer_empty_wbs: "send_buffer_empty s \<longleftrightarrow> wbs s = []"
  by (simp add: send_buffer_empty_def wbs_def)

text \<open>The second half of closing: nothing waits any more, or the socket is half closed until it is sent.\<close>

lemma at_close_rest:
  assumes s: "slot_ok s" "live i s" "sk_id s = sid"
  shows "sound (at_slot K N R {} i (wbs s) (watched_fd s) s)
    (if shutdown \<or> send_buffer_empty s
     then bind_o (force_close i) (\<lambda>result. ret (Some (SOCKET_CLOSE, result\<lparr>sr_id := sid, sr_opaque := opaque\<rparr>)))
     else seq (set_type i SOCKET_TYPE_HALFCLOSE) (ret None)) (reported K N R i)"
proof (rule triple_if)
  show "sound (at_slot K N R {} i (wbs s) (watched_fd s) s)
      (bind_o (force_close i) (\<lambda>result. ret (Some (SOCKET_CLOSE, result\<lparr>sr_id := sid, sr_opaque := opaque\<rparr>)))) (reported K N R i)"
    by (rule at_close_report [OF s(2)]) (use s(3) in \<open>simp_all add: closing_def\<close>)
next
  assume "\<not> (shutdown \<or> send_buffer_empty s)"
  then have snd: "sending i s" using sending_nonempty [OF s(1,2)] by (simp add: send_buffer_empty_wbs)
  have "sound (at_slot K N R {} i (wbs s) (watched_fd s) s) (set_type i SOCKET_TYPE_HALFCLOSE)
      (\<lambda>_. at_slot K N R {} i (wbs s) (watched_fd s) (s\<lparr>sk_type := SOCKET_TYPE_HALFCLOSE\<rparr>))"
    by (rule at_type) (use snd in \<open>auto simp: sending_def registered_type_def\<close>)
  moreover have "server_ok K N R {} ss" if "at_slot K N R {} i (wbs s) (watched_fd s) (s\<lparr>sk_type := SOCKET_TYPE_HALFCLOSE\<rparr>) ss" for ss
    by (rule at_server [OF that])
      (use s(1) snd in \<open>auto simp: watched_fd_def sending_def registered_type_def slot_ok_def\<close>)
  ultimately show "sound (at_slot K N R {} i (wbs s) (watched_fd s) s)
      (seq (set_type i SOCKET_TYPE_HALFCLOSE) (ret None)) (reported K N R i)"
    by (intro triple_seq' [where R = "server_ok K N R {}"] triple_ret) (rule triple_post, assumption, assumption, rule server_reported)
qed

lemma triple_weaken: "triple E P m Q \<Longrightarrow> triple UNIV P m Q"
  by (auto simp: triple_def split: sum.splits)

lemma triple_and: "triple E P m Q \<Longrightarrow> triple UNIV P' m Q' \<Longrightarrow> triple E (\<lambda>s. P s \<and> P' s) m (\<lambda>x s. Q x s \<and> Q' x s)"
  unfolding triple_def by (fastforce split: sum.splits)

lemma at_kept: "at_slot K N R X i l w s ss \<Longrightarrow> kept i s ss"
  by (simp add: at_slot_def kept_def frame_of_def)

lemma sound_kept:
  assumes "\<And>s'. slot_ok s' \<Longrightarrow> frame_of s s' \<Longrightarrow> sound (at_slot K N R X i (wbs s') (watched_fd s') s') m Q"
  shows "sound (\<lambda>ss. server_ok K N R X ss \<and> kept i s ss) m Q"
proof (rule tripleI)
  fix ss assume "server_ok K N R X ss \<and> kept i s ss"
  then have "at_slot K N R X i (wbs (ss_slot ss i)) (watched_fd (ss_slot ss i)) (ss_slot ss i) ss" "slot_ok (ss_slot ss i)"
    "frame_of s (ss_slot ss i)" using server_at server_slot_ok by (auto simp: kept_def)
  then show "case m ss of Inl e \<Rightarrow> e \<in> {} | Inr (x, ss') \<Rightarrow> Q x ss'" using triple_run [OF assms] by blast
qed

lemma at_close_socket:
  assumes "kernel_ok K"
  shows "sound (\<lambda>ss. server_ok K N R {} ss \<and> not_reserved sid ss) (close_socket K sid shutdown opaque) (reported K N R (HASH_ID sid))"
proof (rule sound_target)
  fix s assume s: "slot_ok s" "slot_for sid s"
  let ?i = "HASH_ID sid"
  let ?at = "at_slot K N R {} ?i (wbs s) (watched_fd s) s"
  let ?rest = "\<lambda>s. if shutdown \<or> send_buffer_empty s
     then bind_o (force_close ?i) (\<lambda>result. ret (Some (SOCKET_CLOSE, result\<lparr>sr_id := sid, sr_opaque := opaque\<rparr>)))
     else seq (set_type ?i SOCKET_TYPE_HALFCLOSE) (ret None)"
  have sent: "sound ?at (bind_o (if send_buffer_empty s then ret None else send_buffer K ?i)
      (\<lambda>r. if r \<noteq> None then ret r else bind_o (get_slot ?i) ?rest)) (reported K N R ?i)"
    if l: "live ?i s" "sk_id s = sid"
  proof (cases "send_buffer_empty s")
    case True
    then show ?thesis using at_close_rest [OF s(1) l] by (simp add: sound_get)
  next
    case False
    then have snd: "sending ?i s" using sending_nonempty [OF s(1) l(1)] by (simp add: send_buffer_empty_wbs)
    have "sound (\<lambda>ss. ?at ss \<and> kept ?i s ss) (send_buffer K ?i)
        (\<lambda>r ss. reported K N R ?i r ss \<and> (\<not> closed r \<longrightarrow> r = None \<and> kept ?i s ss))"
      by (rule triple_and [OF at_send_buffer [OF assms snd s(1)] keeps_send_buffer])
    then have "sound ?at (send_buffer K ?i) (\<lambda>r ss. reported K N R ?i r ss \<and> (\<not> closed r \<longrightarrow> r = None \<and> kept ?i s ss))"
      by (rule triple_pre) (use at_kept in blast)
    then have "sound ?at (bind_o (send_buffer K ?i) (\<lambda>r. if r \<noteq> None then ret r else bind_o (get_slot ?i) ?rest)) (reported K N R ?i)"
    proof (rule triple_bind)
      fix r
      have "sound (\<lambda>ss. server_ok K N R {} ss \<and> kept ?i s ss) (bind_o (get_slot ?i) ?rest) (reported K N R ?i)"
      proof (rule sound_kept, rule sound_get)
        fix s' assume s': "slot_ok s'" "frame_of s s'"
        then have "live ?i s'" "sk_id s' = sid" using l by (auto simp: frame_of_def live_def)
        with at_close_rest [OF s'(1)] show "sound (at_slot K N R {} ?i (wbs s') (watched_fd s') s') (?rest s') (reported K N R ?i)" .
      qed
      then show "sound (\<lambda>ss. reported K N R ?i r ss \<and> (\<not> closed r \<longrightarrow> r = None \<and> kept ?i s ss))
          (if r \<noteq> None then ret r else bind_o (get_slot ?i) ?rest) (reported K N R ?i)"
        by (cases r) (auto intro!: triple_ret simp: closed_def)
    qed
    then show ?thesis using False by simp
  qed
  show "sound ?at (close_socket K sid shutdown opaque) (reported K N R ?i)"
    unfolding close_socket_def Let_def
    by (rule sound_get, rule triple_if, rule at_server_ret [OF s(1)], rule sent) (use s live_slot in auto)
qed

lemma at_start_socket:
  assumes "kernel_ok K"
  shows "sound (\<lambda>ss. server_ok K N R {} ss \<and> not_reserved sid ss) (start_socket K sid opaque) (reported K N R (HASH_ID sid))"
proof (rule sound_target)
  fix s assume s: "slot_ok s" "slot_for sid s"
  let ?i = "HASH_ID sid"
  let ?at = "\<lambda>w. at_slot K N R {} ?i (wbs s) w s"
  let ?res = "\<lparr>sr_id = sid, sr_opaque = opaque, sr_ud = 0, sr_data = No_data\<rparr>"
  have own: "sound (at_slot K N R {} ?i (wbs s) w (s\<lparr>sk_type := t\<rparr>)) (seq (upd_slot ?i (\<lambda>s. s\<lparr>sk_opaque := opaque\<rparr>)) (ret r))
      (reported K N R ?i)" if "slot_ok (s\<lparr>sk_type := t, sk_opaque := opaque\<rparr>)" "w = watched_fd (s\<lparr>sk_type := t\<rparr>)" for t w r
  proof (rule triple_seq' [OF at_upd], simp, simp, rule triple_ret, rule server_reported)
    fix ss assume "at_slot K N R {} ?i (wbs s) w (s\<lparr>sk_type := t, sk_opaque := opaque\<rparr>) ss"
    then show "server_ok K N R {} ss" by (rule at_server) (use that in \<open>simp_all add: watched_fd_def\<close>)
  qed
  have start: "sound (?at (watched_fd s)) (bind_o (sys (Sys_add (sk_fd s) ?i)) (\<lambda>h.
       case k_add K h of
         Some e \<Rightarrow> bind_o (force_close ?i) (\<lambda>result. ret (Some (SOCKET_ERROR, result\<lparr>sr_data := Text_data (k_strerror K e)\<rparr>)))
       | None \<Rightarrow> seq (set_type ?i (if sk_type s = SOCKET_TYPE_PACCEPT then SOCKET_TYPE_CONNECTED else SOCKET_TYPE_LISTEN))
           (seq (upd_slot ?i (\<lambda>s. s\<lparr>sk_opaque := opaque\<rparr>)) (ret (Some (SOCKET_OPEN, ?res\<lparr>sr_data := Text_data (cstring ''start'')\<rparr>))))))
      (reported K N R ?i)"
    if t: "sk_type s = SOCKET_TYPE_PACCEPT \<or> sk_type s = SOCKET_TYPE_PLISTEN" and id: "sk_id s = sid"
  proof -
    have w: "watched_fd s = None" using t by (auto simp: watched_fd_def registered_type_def)
    have l: "live ?i s" using live_slot [OF s(2)] t id by auto
    have "sound (?at (if k_add K h = None then Some (sk_fd s) else None)) (case k_add K h of
         Some e \<Rightarrow> bind_o (force_close ?i) (\<lambda>result. ret (Some (SOCKET_ERROR, result\<lparr>sr_data := Text_data (k_strerror K e)\<rparr>)))
       | None \<Rightarrow> seq (set_type ?i (if sk_type s = SOCKET_TYPE_PACCEPT then SOCKET_TYPE_CONNECTED else SOCKET_TYPE_LISTEN))
           (seq (upd_slot ?i (\<lambda>s. s\<lparr>sk_opaque := opaque\<rparr>)) (ret (Some (SOCKET_OPEN, ?res\<lparr>sr_data := Text_data (cstring ''start'')\<rparr>)))))
      (reported K N R ?i)" for h
    proof (cases "k_add K h")
      case None
      let ?t = "if sk_type s = SOCKET_TYPE_PACCEPT then SOCKET_TYPE_CONNECTED else SOCKET_TYPE_LISTEN"
      have "slot_ok (s\<lparr>sk_type := ?t, sk_opaque := opaque\<rparr>)" using s(1) t by (auto simp: slot_ok_def)
      then show ?thesis
        unfolding None option.case eqTrueI [OF refl] if_True using t
        by (intro triple_seq' [OF at_type] own) (auto simp: registered_type_def watched_fd_def)
    next
      case (Some e)
      have "sound (?at None) (bind_o (force_close ?i) (\<lambda>result. ret (Some (SOCKET_ERROR, result\<lparr>sr_data := Text_data (k_strerror K e)\<rparr>))))
          (reported K N R ?i)"
        using at_close_report [OF l, where t = SOCKET_ERROR and f = "\<lambda>r. r\<lparr>sr_data := Text_data (k_strerror K e)\<rparr>"] w
        by (simp add: closing_def)
      then show ?thesis using Some by simp
    qed
    then show ?thesis unfolding w by (rule triple_bind [OF at_add [OF assms]])
  qed
  have transfer: "sound (?at (watched_fd s)) (seq (upd_slot ?i (\<lambda>s. s\<lparr>sk_opaque := opaque\<rparr>)) (ret r)) (reported K N R ?i)"
    if "sk_type s = SOCKET_TYPE_CONNECTED" for r
  proof -
    have same: "s\<lparr>sk_type := SOCKET_TYPE_CONNECTED\<rparr> = s" using that by simp
    then have "slot_ok (s\<lparr>sk_type := SOCKET_TYPE_CONNECTED, sk_opaque := opaque\<rparr>)" using s(1) that by (simp add: slot_ok_def)
    from own [OF this, of "watched_fd s"] show ?thesis unfolding same by simp
  qed
  show "sound (?at (watched_fd s)) (start_socket K sid opaque) (reported K N R ?i)"
    unfolding start_socket_def Let_def
    by (rule sound_get, rule triple_if, rule at_server_ret [OF s(1)], rule triple_if, rule start, assumption, blast,
        rule triple_if, erule transfer, rule at_server_ret [OF s(1)])
qed

lemma server_setopt: "sound (server_ok K N R X) (setopt_socket sid what v) (\<lambda>_. server_ok K N R X)"
  unfolding setopt_socket_def get_slot_def
  by (rule triple_bind [OF triple_gets [where Q = "\<lambda>_. server_ok K N R X"]], assumption) (intro triple_if triple_ret server_sys_do; simp)

lemma at_set_udp:
  assumes "a ! 0 \<noteq> protocol_byte PROTOCOL_TCP"
  shows "sound (\<lambda>ss. server_ok K N R {} ss \<and> not_reserved sid ss) (set_udp_address sid a) (reported K N R (HASH_ID sid))"
proof (rule sound_target)
  fix s assume s: "slot_ok s" "slot_for sid s"
  let ?i = "HASH_ID sid"
  let ?at = "at_slot K N R {} ?i (wbs s) (watched_fd s)"
  have upd: "sound (?at s) (bind_o (socket_address s) (\<lambda>old.
      let n = (if a ! 0 = protocol_byte PROTOCOL_UDP then 1 + 2 + 4 else 1 + 2 + 16) in
      seq (upd_slot ?i (\<lambda>s. s\<lparr>sk_p := Udp_address (take n a @ drop n old)\<rparr>)) (ret None))) (reported K N R ?i)"
    if t: "\<not> (sk_type s = SOCKET_TYPE_INVALID \<or> sk_id s \<noteq> sid)" "\<not> a ! 0 \<noteq> protocol_byte (sk_protocol s)"
  proof -
    have l: "live ?i s" using live_slot [OF s(2)] t(1) by simp
    have udp: "sk_protocol s \<noteq> PROTOCOL_TCP" using t(2) assms by auto
    have p: "param_ok s" using s(1) l by (auto simp: slot_ok_def live_def)
    then obtain old where old: "sk_p s = Udp_address old" using udp by (auto simp: param_ok_def split: socket_param.splits)
    have "slot_ok (s\<lparr>sk_p := Udp_address x\<rparr>)" for x using s(1) udp by (auto simp: slot_ok_def param_ok_def)
    then have "sound (?at s) (seq (upd_slot ?i (\<lambda>s. s\<lparr>sk_p := Udp_address x\<rparr>)) (ret None)) (reported K N R ?i)" for x
      by (intro triple_seq' [OF at_upd] triple_ret) (auto elim!: at_server simp: watched_fd_def)
    then show ?thesis by (simp add: socket_address_def old Let_def)
  qed
  show "sound (?at s) (set_udp_address sid a) (reported K N R ?i)"
    unfolding set_udp_address_def Let_def
    by (rule sound_get, rule triple_if, rule at_server_ret [OF s(1)], rule triple_if, rule at_server_ret [OF s(1)],
        rule upd [unfolded Let_def])
qed

text \<open>Taking the first request out of the pipe.\<close>

lemma mem_inv_pipe:
  assumes "mem_inv own ss" "ss_pipe ss = r # rest" "request_bufs r = []"
  shows "mem_inv own (ss\<lparr>ss_pipe := rest\<rparr>)"
  using assms by (simp add: mem_inv_def piped_def)

lemma in_order_tl: "in_order (r # rs) \<Longrightarrow> in_order rs"
  by simp

lemma pop_ctl:
  assumes "ctl_inv [] ss" "ss_pipe ss = r # rest"
  shows "ctl_inv (if opener r then [target r] else []) (ss\<lparr>ss_pipe := rest\<rparr>)" "\<not> opener r \<Longrightarrow> not_reserved (target r) ss"
proof -
  show "ctl_inv (if opener r then [target r] else []) (ss\<lparr>ss_pipe := rest\<rparr>)"
    using assms by (cases "opener r") (simp_all add: ctl_inv_def openers_def)
  assume r: "\<not> opener r"
  then have "target r \<notin> set (openers rest)" using assms by (simp add: ctl_inv_def)
  then have "target r \<notin> set (openers (ss_pipe ss))" using r assms(2) by (simp add: openers_def)
  then show "not_reserved (target r) ss" using assms(1) unfolding not_reserved_def ctl_inv_def by auto
qed

lemma server_pop:
  assumes "server_ok K N [] X ss" "ss_pipe ss = r # rest" "request_bufs r = []"
  shows "server_ok K N (if opener r then [target r] else []) X (ss\<lparr>ss_pipe := rest\<rparr>)"
  using assms pop_ctl(1) [of ss r rest] mem_inv_pipe [of "\<lambda>j. wbs (ss_slot ss j)" ss r rest]
  by (simp add: server_ok_def base_def ev_inv_def)

text \<open>A package leaves the pipe for the hand of the operation on its socket.\<close>

lemma mem_inv_take:
  assumes m: "mem_inv own ss" and p: "ss_pipe ss = r # rest" "request_bufs r = [b]" and ok: "wb_ok (ss_mem ss) (package b sz a)"
  shows "mem_inv (own(i := own i @ [package b sz a])) (ss\<lparr>ss_pipe := rest\<rparr>)"
proof -
  let ?own = "own(i := own i @ [package b sz a])"
  have piped: "piped (ss_pipe ss) = b # piped rest" using p by (simp add: piped_def)
  have d: "distinct (map wb_buffer (own j) @ b # piped rest)" for j
    using mem_inv_distinct [OF m, of j] by (simp add: piped)
  then have nb: "b \<notin> wb_buffer ` set (own j)" for j by (auto dest: spec [where x = j])
  have "wb_ok (ss_mem ss) wb" if "wb \<in> set (?own j)" for wb j
    using that ok mem_inv_wb [OF m] by (auto split: if_splits)
  moreover have "distinct (map wb_buffer (?own j) @ piped rest)" for j using d [of j] by auto
  moreover have "wb_buffer ` set (?own j) \<inter> wb_buffer ` set (?own k) = {}" if "j \<noteq> k" for j k
  proof -
    have "wb_buffer ` set (own j) \<inter> wb_buffer ` set (own k) = {}" using m that unfolding mem_inv_def by blast
    then show ?thesis using nb [of j] nb [of k] that by auto
  qed
  moreover have "ss_soi ss = None" "\<forall>a. ss_mem ss a \<noteq> None \<longrightarrow> a < ss_next ss" "\<forall>x \<in> set rest. request_ok (ss_mem ss) x"
    using m p(1) by (simp_all add: mem_inv_def)
  ultimately show ?thesis unfolding mem_inv_def by simp
qed

lemma server_take:
  assumes s: "server_ok K N [] X ss" and p: "ss_pipe ss = r # rest" "request_bufs r = [b]" "\<not> opener r"
    and ok: "0 \<le> sz" "\<exists>bs. ss_mem ss b = Some bs \<and> nat sz \<le> length bs"
  shows "at_slot K N [] X i (wbs (ss_slot ss i) @ [package b sz a]) (watched_fd (ss_slot ss i)) (ss_slot ss i) (ss\<lparr>ss_pipe := rest\<rparr>)"
proof -
  have "wb_ok (ss_mem ss) (package b sz a)" using ok by (simp add: wb_ok_def)
  with s p have "mem_inv ((\<lambda>j. wbs (ss_slot ss j))(i := wbs (ss_slot ss i) @ [package b sz a])) (ss\<lparr>ss_pipe := rest\<rparr>)"
    by (intro mem_inv_take) (simp_all add: server_ok_def base_def)
  then show ?thesis
    using s pop_ctl(1) [of ss r rest] p by (simp add: at_slot_def server_ok_def base_def ev_inv_def fun_upd_idem)
qed

lemma not_reserved_pipe [simp]: "not_reserved sid (ss\<lparr>ss_pipe := rest\<rparr>) = not_reserved sid ss"
  by (simp add: not_reserved_def)

text \<open>Every request keeps the invariant and fails no assertion.\<close>

definition handled :: "kernel \<Rightarrow> report sop \<Rightarrow> u32 \<Rightarrow> socket_server \<Rightarrow> bool" where
  "handled K m sid ss = (case m ss of Inl e \<Rightarrow> e \<in> {} | Inr (r, ss') \<Rightarrow> reported K {} [] (HASH_ID sid) r ss')"

lemma handledI: "sound P m (reported K {} [] (HASH_ID sid)) \<Longrightarrow> P ss \<Longrightarrow> handled K m sid ss"
  unfolding handled_def by (rule triple_run)

lemma handled_send:
  assumes K: "kernel_ok K" and s: "server_ok K {} [] {} ss" and p: "ss_pipe ss = r # rest" "request_bufs r = [b]" "\<not> opener r"
    and ok: "0 \<le> sz" "\<exists>bs. ss_mem ss b = Some bs \<and> nat sz \<le> length bs"
  shows "handled K (send_socket K (target r) b sz q address) (target r) (ss\<lparr>ss_pipe := rest\<rparr>)"
proof -
  let ?i = "HASH_ID (target r)"
  let ?s = "ss_slot ss ?i"
  have "not_reserved (target r) ss" using pop_ctl(2) [OF server_ctl [OF s] p(1,3)] .
  then have sf: "slot_for (target r) ?s"
    using ctl_hash [OF server_ctl [OF s], of ?i] by (auto simp: slot_for_def not_reserved_def)
  show ?thesis
    by (rule handledI [OF at_send_socket [OF K server_slot_ok [OF s] sf ok(1) refl] server_take [OF s p ok]])
qed

lemma ctrl_dispatch_ok:
  assumes K: "kernel_ok K" and s: "server_ok K {} [] {} ss" and p: "ss_pipe ss = r # rest"
  shows "handled K (ctrl_dispatch K r) (target r) (ss\<lparr>ss_pipe := rest\<rparr>)"
proof -
  let ?ss = "ss\<lparr>ss_pipe := rest\<rparr>"
  have ok: "request_ok (ss_mem ss) r" using s p by (simp add: server_ok_def base_def mem_inv_def)
  have opened: "server_ok K {} [target r] {} ?ss" if "opener r" "request_bufs r = []"
    using server_pop [OF s p that(2)] that(1) by simp
  have plain: "server_ok K {} [] {} ?ss \<and> not_reserved (target r) ?ss" if "\<not> opener r" "request_bufs r = []"
    using server_pop [OF s p that(2)] pop_ctl(2) [OF server_ctl [OF s] p] that by simp
  show ?thesis
  proof (cases r)
    case (Start_socket sid opaque)
    then show ?thesis using handledI [OF at_start_socket [OF K]] plain by (simp add: ctrl_dispatch_def)
  next
    case (Bind_socket sid fd opaque)
    then show ?thesis using handledI [OF at_bind_socket [OF K]] opened by (simp add: ctrl_dispatch_def)
  next
    case (Listen_socket sid fd opaque)
    then show ?thesis using handledI [OF at_listen_socket [OF K]] opened by (simp add: ctrl_dispatch_def)
  next
    case (Close_socket sid shutdown opaque)
    then show ?thesis using handledI [OF at_close_socket [OF K]] plain by (simp add: ctrl_dispatch_def)
  next
    case (Open_socket sid port opaque host)
    then show ?thesis using handledI [OF at_open_socket [OF K]] opened by (simp add: ctrl_dispatch_def)
  next
    case Exit_server
    then show ?thesis using plain by (simp add: ctrl_dispatch_def handled_def ret_def server_reported)
  next
    case (Send_high sid b sz)
    then show ?thesis using handled_send [OF K s p, of b sz PRIORITY_HIGH None] ok by (simp add: ctrl_dispatch_def)
  next
    case (Send_low sid b sz)
    then show ?thesis using handled_send [OF K s p, of b sz PRIORITY_LOW None] ok by (simp add: ctrl_dispatch_def)
  next
    case (Send_udp sid b sz a)
    then show ?thesis using handled_send [OF K s p, of b sz PRIORITY_HIGH "Some a"] ok by (simp add: ctrl_dispatch_def)
  next
    case (Set_opt sid what v)
    have "sound (server_ok K {} [] {}) (seq (setopt_socket sid what v) (ret None)) (reported K {} [] (HASH_ID sid))"
      by (rule triple_seq' [OF server_setopt triple_ret]) simp
    then show ?thesis using handledI plain Set_opt by (simp add: ctrl_dispatch_def)
  next
    case (Create_udp sid fd family opaque)
    have "sound (server_ok K {} [sid] {}) (seq (add_udp_socket K sid fd family opaque) (ret None)) (reported K {} [] (HASH_ID sid))"
      by (rule triple_seq' [OF at_add_udp [OF K] triple_ret]) simp
    then show ?thesis using handledI opened Create_udp by (simp add: ctrl_dispatch_def)
  next
    case (Set_udp sid a)
    then show ?thesis using handledI [OF at_set_udp] plain ok by (simp add: ctrl_dispatch_def)
  qed
qed

end
