(* ===== verification/Socket_poll.thy ===== *)
theory Socket_poll
  imports Socket_ok
begin

text \<open>
  The loop of the socket thread: reservation of ids, events, and one round of the poll; all of them keep the
  invariant of the theory \<open>Socket_ok\<close>.
\<close>

section \<open>Identifiers\<close>

lemma word_add_small: "unat (a :: u32) + k < 2 ^ 31 \<Longrightarrow> unat (a + of_nat k) = unat a + k"
  by (simp add: unat_word_ariths unat_of_nat)

lemma inc_alloc:
  assumes "unat (ss_alloc_id ss) + 1 < 2 ^ 31"
  shows "inc_alloc_id ss = Inr (ss_alloc_id ss + 1, ss\<lparr>ss_alloc_id := ss_alloc_id ss + 1\<rparr>)"
proof -
  have u: "unat (ss_alloc_id ss + 1) = unat (ss_alloc_id ss) + 1"
    using word_add_small [of "ss_alloc_id ss" 1] assms by simp
  then have "sint (ss_alloc_id ss + 1) = int (unat (ss_alloc_id ss + 1))" using assms by (intro sint_small) simp
  then show ?thesis by (simp add: inc_alloc_id_def act_defs bind_r_def)
qed

definition reserved_as :: "u32 \<Rightarrow> socket \<Rightarrow> socket" where
  "reserved_as sid s = s\<lparr>sk_type := SOCKET_TYPE_RESERVE, sk_id := sid, sk_fd := - 1\<rparr>"

definition with_reserved :: "u32 \<Rightarrow> socket_server \<Rightarrow> socket_server" where
  "with_reserved sid ss =
     ss\<lparr>ss_alloc_id := sid, ss_slot := (ss_slot ss)(HASH_ID sid := reserved_as sid (ss_slot ss (HASH_ID sid)))\<rparr>"

abbreviation slot_type :: "socket_server \<Rightarrow> u32 \<Rightarrow> socket_type" where
  "slot_type ss sid \<equiv> sk_type (ss_slot ss (HASH_ID sid))"

text \<open>The search takes the next id whose slot is free.\<close>

lemma reserve_loop_cases:
  assumes "unat (ss_alloc_id ss) + n < 2 ^ 31"
  shows "(\<exists>k \<in> {1..n}. slot_type ss (ss_alloc_id ss + of_nat k) = SOCKET_TYPE_INVALID \<and>
            (\<forall>j \<in> {1..<k}. slot_type ss (ss_alloc_id ss + of_nat j) \<noteq> SOCKET_TYPE_INVALID) \<and>
            reserve_loop n ss = Inr (ss_alloc_id ss + of_nat k, with_reserved (ss_alloc_id ss + of_nat k) ss)) \<or>
         (\<forall>k \<in> {1..n}. slot_type ss (ss_alloc_id ss + of_nat k) \<noteq> SOCKET_TYPE_INVALID) \<and>
         reserve_loop n ss = Inr (- 1, ss\<lparr>ss_alloc_id := ss_alloc_id ss + of_nat n\<rparr>)"
  using assms
proof (induction n arbitrary: ss)
  case 0
  then show ?case by (simp add: ret_def)
next
  case (Suc n)
  let ?a = "ss_alloc_id ss"
  let ?ss = "ss\<lparr>ss_alloc_id := ?a + 1\<rparr>"
  have u: "unat (?a + 1) = unat ?a + 1" using word_add_small [of ?a 1] Suc.prems by simp
  have inc: "inc_alloc_id ss = Inr (?a + 1, ?ss)" by (rule inc_alloc) (use Suc.prems in simp)
  show ?case
  proof (cases "slot_type ss (?a + 1) = SOCKET_TYPE_INVALID")
    case True
    then have "reserve_loop (Suc n) ss = Inr (?a + 1, with_reserved (?a + 1) ss)"
      by (simp add: bind_o_def bind_r_def inc get_slot_def gets_def seq_def upd_slot_def modify_def ret_def with_reserved_def
          reserved_as_def)
    then show ?thesis using True by (intro disjI1 bexI [of _ 1]) simp_all
  next
    case False
    then have step: "reserve_loop (Suc n) ss = reserve_loop n ?ss"
      by (simp add: bind_o_def bind_r_def inc get_slot_def gets_def)
    have sh: "?a + 1 + of_nat k = ?a + of_nat (Suc k)" for k by simp
    have t: "slot_type ?ss sid = slot_type ss sid" "with_reserved sid ?ss = with_reserved sid ss" for sid
      by (simp_all add: with_reserved_def)
    have b: "P 1 \<Longrightarrow> \<forall>k \<in> {1..m}. P (Suc k) \<Longrightarrow> \<forall>k \<in> {1..Suc m}. P k" for P and m :: nat
      by (metis Suc_le_mono Suc_pred atLeastAtMost_iff le_zero_eq not_gr_zero not_less_eq_eq One_nat_def)
    have "unat (ss_alloc_id ?ss) + n < 2 ^ 31" using u Suc.prems by simp
    from Suc.IH [OF this] show ?thesis
    proof (elim disjE bexE conjE)
      fix k assume k: "k \<in> {1..n}" "slot_type ?ss (ss_alloc_id ?ss + of_nat k) = SOCKET_TYPE_INVALID"
        "\<forall>j \<in> {1..<k}. slot_type ?ss (ss_alloc_id ?ss + of_nat j) \<noteq> SOCKET_TYPE_INVALID"
        "reserve_loop n ?ss = Inr (ss_alloc_id ?ss + of_nat k, with_reserved (ss_alloc_id ?ss + of_nat k) ?ss)"
      have "slot_type ss (?a + of_nat j) \<noteq> SOCKET_TYPE_INVALID" if j: "j \<in> {1..<Suc k}" for j
      proof (cases "j = 1")
        case True
        then show ?thesis using False by simp
      next
        case False
        then obtain m where m: "j = Suc m" "m \<in> {1..<k}" using j by (cases j) auto
        then show ?thesis using k(3) by (auto simp: add.assoc dest: bspec [where x = m])
      qed
      then show ?thesis
        using k(1,2,4) unfolding step t sh by (intro disjI1 bexI [of _ "Suc k"]) (auto simp: t add.assoc)
    next
      assume n: "\<forall>k \<in> {1..n}. slot_type ?ss (ss_alloc_id ?ss + of_nat k) \<noteq> SOCKET_TYPE_INVALID"
        "reserve_loop n ?ss = Inr (- 1, ?ss\<lparr>ss_alloc_id := ss_alloc_id ?ss + of_nat n\<rparr>)"
      have "\<forall>k \<in> {1..Suc n}. slot_type ss (?a + of_nat k) \<noteq> SOCKET_TYPE_INVALID"
        by (rule b) (use False n(1) in \<open>simp_all add: add.assoc\<close>)
      then show ?thesis using n(2) unfolding step by (simp add: add.assoc)
    qed
  qed
qed

lemma reserve_loop_fresh:
  assumes "unat (ss_alloc_id ss) + n < 2 ^ 31" "reserve_loop n ss = Inr (sid, ss')" "\<not> sint sid < 0"
  shows "unat (ss_alloc_id ss) < unat sid \<and> unat sid < 2 ^ 31 \<and> slot_type ss sid = SOCKET_TYPE_INVALID \<and> ss' = with_reserved sid ss"
proof -
  have m1: "sint (- 1 :: u32) < 0" by simp
  from reserve_loop_cases [OF assms(1)] show ?thesis
  proof (elim disjE bexE conjE)
    fix k assume k: "k \<in> {1..n}" "slot_type ss (ss_alloc_id ss + of_nat k) = SOCKET_TYPE_INVALID"
      "reserve_loop n ss = Inr (ss_alloc_id ss + of_nat k, with_reserved (ss_alloc_id ss + of_nat k) ss)"
    then have "unat (ss_alloc_id ss + of_nat k) = unat (ss_alloc_id ss) + k" using assms(1) by (intro word_add_small) simp
    then show ?thesis using k assms by auto
  next
    assume "reserve_loop n ss = Inr (- 1, ss\<lparr>ss_alloc_id := ss_alloc_id ss + of_nat n\<rparr>)"
    then show ?thesis using assms(2,3) m1 by simp
  qed
qed

lemma reserve_loop_full:
  assumes "unat (ss_alloc_id ss) + n < 2 ^ 31" "reserve_loop n ss = Inr (sid, ss')" "sint sid < 0"
  shows "sid = - 1 \<and> ss' = ss\<lparr>ss_alloc_id := ss_alloc_id ss + of_nat n\<rparr> \<and>
    (\<forall>k \<in> {1..n}. slot_type ss (ss_alloc_id ss + of_nat k) \<noteq> SOCKET_TYPE_INVALID)"
  using reserve_loop_cases [OF assms(1)]
proof (elim disjE bexE conjE)
  fix k assume k: "k \<in> {1..n}" "reserve_loop n ss = Inr (ss_alloc_id ss + of_nat k, with_reserved (ss_alloc_id ss + of_nat k) ss)"
  then have "unat (ss_alloc_id ss + of_nat k) = unat (ss_alloc_id ss) + k" using assms(1) by (intro word_add_small) simp
  then have "sint (ss_alloc_id ss + of_nat k) = int (unat (ss_alloc_id ss) + k)"
    using k(1) assms(1) by (subst sint_small) simp_all
  then have "\<not> sint (ss_alloc_id ss + of_nat k) < 0" by linarith
  then show ?thesis using k(2) assms(2,3) by simp
qed (use assms in simp_all)

lemma reserve_loop_returns: "unat (ss_alloc_id ss) + n < 2 ^ 31 \<Longrightarrow> \<exists>sid ss'. reserve_loop n ss = Inr (sid, ss')"
  using reserve_loop_cases [of ss n] by blast

text \<open>Reserving keeps the invariant.\<close>

lemma ctl_alloc: "ctl_inv R ss \<Longrightarrow> unat a < 2 ^ 31 \<Longrightarrow> unat (ss_alloc_id ss) \<le> unat a \<Longrightarrow> ctl_inv R (ss\<lparr>ss_alloc_id := a\<rparr>)"
  unfolding ctl_inv_def by (auto intro: order_trans)

lemma ctl_reserve:
  assumes c: "ctl_inv R ss" and n: "unat (ss_alloc_id ss) < unat sid" "unat sid < 2 ^ 31" "slot_type ss sid = SOCKET_TYPE_INVALID"
  shows "ctl_inv (sid # R) (with_reserved sid ss)"
proof -
  let ?ids = "R @ openers (ss_pipe ss)"
  have old: "\<forall>r \<in> set (ss_pipe ss). unat (target r) \<le> unat (ss_alloc_id ss)"
    "\<forall>i. sk_type (ss_slot ss i) \<noteq> SOCKET_TYPE_INVALID \<longrightarrow>
         HASH_ID (sk_id (ss_slot ss i)) = i \<and> unat (sk_id (ss_slot ss i)) \<le> unat (ss_alloc_id ss)"
    "\<forall>i. sk_type (ss_slot ss i) = SOCKET_TYPE_RESERVE \<longrightarrow> sk_id (ss_slot ss i) \<in> set ?ids"
    "\<forall>x \<in> set ?ids. slot_type ss x = SOCKET_TYPE_RESERVE \<and> sk_id (ss_slot ss (HASH_ID x)) = x"
    "distinct ?ids" "in_order (ss_pipe ss)"
    using c unfolding ctl_inv_def by blast+
  have le: "unat x \<le> unat (ss_alloc_id ss) \<and> HASH_ID x \<noteq> HASH_ID sid" if "x \<in> set ?ids" for x
    using bspec [OF old(4) that] spec [OF old(2), of "HASH_ID x"] n(3) by auto
  then have new: "sid \<notin> set ?ids" using n(1) by (meson leD)
  let ?ss = "with_reserved sid ss"
  have "HASH_ID (sk_id (ss_slot ?ss i)) = i \<and> unat (sk_id (ss_slot ?ss i)) \<le> unat sid"
    if "sk_type (ss_slot ?ss i) \<noteq> SOCKET_TYPE_INVALID" for i
    using that spec [OF old(2), of i] n(1) by (cases "i = HASH_ID sid") (auto simp: with_reserved_def reserved_as_def)
  moreover have "sk_id (ss_slot ?ss i) \<in> set (sid # ?ids)" if "sk_type (ss_slot ?ss i) = SOCKET_TYPE_RESERVE" for i
    using that spec [OF old(3), of i] by (cases "i = HASH_ID sid") (auto simp: with_reserved_def reserved_as_def)
  moreover have "slot_type ?ss x = SOCKET_TYPE_RESERVE \<and> sk_id (ss_slot ?ss (HASH_ID x)) = x" if x: "x \<in> set (sid # ?ids)" for x
  proof (cases "x = sid")
    case False
    then have "x \<in> set ?ids" using x by simp
    then show ?thesis using le [of x] bspec [OF old(4), of x] by (simp add: with_reserved_def)
  qed (simp add: with_reserved_def reserved_as_def)
  moreover have "\<forall>r \<in> set (ss_pipe ss). unat (target r) \<le> unat sid" using old(1) n(1) by force
  ultimately show ?thesis
    unfolding ctl_inv_def using n(2) old(5,6) new by (simp add: with_reserved_def)
qed

lemma server_alloc:
  "server_ok K N R X ss \<Longrightarrow> unat a < 2 ^ 31 \<Longrightarrow> unat (ss_alloc_id ss) \<le> unat a \<Longrightarrow> server_ok K N R X (ss\<lparr>ss_alloc_id := a\<rparr>)"
  by (simp add: server_ok_def base_def ctl_alloc mem_inv_def ev_inv_def)

lemma server_reserve:
  assumes s: "server_ok K N R X ss" and n: "unat (ss_alloc_id ss) < unat sid" "unat sid < 2 ^ 31" "slot_type ss sid = SOCKET_TYPE_INVALID"
  shows "server_ok K N (sid # R) X (with_reserved sid ss)"
proof -
  let ?i = "HASH_ID sid" and ?ss = "with_reserved sid ss"
  have own: "wbs (ss_slot ?ss j) = wbs (ss_slot ss j)" "watched_fd (ss_slot ?ss j) = watched_fd (ss_slot ss j)" for j
    using n(3) by (auto simp: with_reserved_def reserved_as_def watched_fd_def registered_type_def wbs_def)
  have reg: "registered_type (sk_type (ss_slot ?ss j)) = registered_type (sk_type (ss_slot ss j))" for j
    using n(3) by (auto simp: with_reserved_def reserved_as_def registered_type_def)
  have "mem_inv (\<lambda>j. wbs (ss_slot ?ss j)) ?ss" using s unfolding own by (simp add: server_ok_def base_def mem_inv_def with_reserved_def)
  moreover have "ctl_inv (sid # R) ?ss" using ctl_reserve [OF server_ctl [OF s] n] .
  moreover have "ev_inv K N X (\<lambda>j. watched_fd (ss_slot ?ss j)) ?ss"
    using s unfolding own ev_inv_def reg by (simp add: server_ok_def base_def ev_inv_def with_reserved_def)
  moreover have "slot_ok (ss_slot ?ss j)" for j
    using server_slot_ok [OF s, of j] n(3) by (auto simp: with_reserved_def reserved_as_def slot_ok_def wbs_def)
  ultimately show ?thesis by (simp add: server_ok_def base_def)
qed

definition ids_left :: "socket_server \<Rightarrow> bool" where
  "ids_left ss = (unat (ss_alloc_id ss) + MAX_SOCKET < 2 ^ 31)"

lemma server_reserve_id:
  "sound (\<lambda>ss. server_ok K N R X ss \<and> ids_left ss) reserve_id
     (\<lambda>sid ss. server_ok K N (if sint sid < 0 then R else sid # R) X ss)"
proof (rule tripleI)
  fix ss assume a: "server_ok K N R X ss \<and> ids_left ss"
  then have l: "unat (ss_alloc_id ss) + MAX_SOCKET < 2 ^ 31" by (simp add: ids_left_def)
  obtain sid ss' where r: "reserve_loop MAX_SOCKET ss = Inr (sid, ss')" using reserve_loop_returns [OF l] by blast
  have "server_ok K N (if sint sid < 0 then R else sid # R) X ss'"
  proof (cases "sint sid < 0")
    case True
    then show ?thesis
      using reserve_loop_full [OF l r True] a word_add_small [OF l] l by (auto intro!: server_alloc)
  next
    case False
    then show ?thesis using reserve_loop_fresh [OF l r False] a by (auto intro: server_reserve)
  qed
  then show "case reserve_id ss of Inl e \<Rightarrow> e \<in> {}
      | Inr (sid, ss') \<Rightarrow> server_ok K N (if sint sid < 0 then R else sid # R) X ss'"
    by (simp add: reserve_id_def r)
qed

section \<open>Events of closed sockets\<close>

lemma filter_ev [simp]: "List.map_filter ev_s (es @ es') = List.map_filter ev_s es @ List.map_filter ev_s es'"
  by (simp add: List.map_filter_def)

lemma filter_ev_set: "e \<in> set es \<Longrightarrow> ev_s e = Some i \<Longrightarrow> i \<in> set (List.map_filter ev_s es)"
  by (force simp: List.map_filter_def)

lemma filter_ev_Cons [simp]:
  "List.map_filter ev_s (e # es) = (case ev_s e of None \<Rightarrow> List.map_filter ev_s es | Some i \<Rightarrow> i # List.map_filter ev_s es)"
  by (simp add: List.map_filter_simps)

lemma clear_events_distinct:
  "distinct (xs @ List.map_filter ev_s es) \<Longrightarrow> distinct (xs @ List.map_filter ev_s (clear_events sl sid es))"
proof (induction es arbitrary: xs)
  case (Cons e es)
  show ?case
  proof (cases "ev_s e")
    case (Some i)
    then show ?thesis using Cons.IH [of "xs @ [i]"] Cons.prems by auto
  next
    case None
    then show ?thesis using Cons.IH [of xs] Cons.prems by simp
  qed
qed simp

lemma clear_events_length [simp]: "length (clear_events sl sid es) = length es"
  by (induction es) (auto split: option.splits)

lemma clear_events_sub: "e \<in> set (clear_events sl sid es) \<Longrightarrow> ev_s e \<noteq> None \<Longrightarrow> e \<in> set es"
  by (induction es) (auto split: option.splits if_splits)

lemma clear_events_gone:
  assumes "e \<in> set (clear_events sl sid es)" "distinct (List.map_filter ev_s es)"
    "\<And>x j. x \<in> set es \<Longrightarrow> ev_s x = Some j \<Longrightarrow> sk_type (sl j) = SOCKET_TYPE_INVALID \<Longrightarrow> j = i"
    "sk_type (sl i) = SOCKET_TYPE_INVALID" "sk_id (sl i) = sid"
  shows "ev_s e \<noteq> Some i"
  using assms
proof (induction es)
  case (Cons x es)
  show ?case
  proof (cases "ev_s x")
    case None
    then show ?thesis using Cons by auto
  next
    case (Some j)
    show ?thesis
    proof (cases "j = i")
      case True
      then have "i \<notin> set (List.map_filter ev_s es)" using Cons.prems(2) Some by simp
      then show ?thesis using Cons.prems(1,4,5) Some True filter_ev_set by auto
    next
      case False
      then have "sk_type (sl j) \<noteq> SOCKET_TYPE_INVALID" using Cons.prems(3) [of x j] Some by auto
      then show ?thesis using Cons Some False by auto
    qed
  qed
qed simp

lemma ev_only:
  "ev_inv K N X reg ss \<Longrightarrow> e \<in> set (drop (ss_event_index ss) (ss_ev ss)) \<Longrightarrow> ev_s e = Some j \<Longrightarrow>
     j \<notin> N \<and> (j \<in> X \<or> registered_type (sk_type (ss_slot ss j)))"
  unfolding ev_inv_def by blast

lemma invalid_not_registered: "registered_type t \<Longrightarrow> t \<noteq> SOCKET_TYPE_INVALID"
  by (auto simp: registered_type_def)

lemma clear_closed_ok:
  "sound (reported K {} [] i (Some (t, res))) (clear_closed_event res t) (\<lambda>_. server_ok K {} [] {})"
proof (rule tripleI)
  fix ss assume r: "reported K {} [] i (Some (t, res)) ss"
  show "case clear_closed_event res t ss of Inl e \<Rightarrow> e \<in> {} | Inr (x, ss') \<Rightarrow> server_ok K {} [] {} ss'"
  proof (cases "closing t")
    case False
    then show ?thesis
      using r by (auto simp: clear_closed_event_def closing_def reported_def exempt_def ret_def)
  next
    case True
    let ?es = "drop (ss_event_index ss) (ss_ev ss)" and ?sl = "ss_slot ss"
    let ?ev = "take (ss_event_index ss) (ss_ev ss) @ clear_events ?sl (sr_id res) ?es"
    let ?X = "exempt i (Some (t, res)) ss" and ?reg = "\<lambda>j. watched_fd (ss_slot ss j)"
    have ok: "server_ok K {} [] ?X ss" using r by (simp add: reported_def)
    then have e: "ev_inv K {} ?X ?reg ss" by (simp add: server_ok_def base_def)
    then have d: "distinct (List.map_filter ev_s (take (ss_event_index ss) (ss_ev ss) @ ?es))"
      "ss_event_index ss \<le> length (ss_ev ss)" unfolding ev_inv_def append_take_drop_id by blast+
    have d': "distinct (List.map_filter ev_s ?ev)" 
      using d(1) unfolding filter_ev by (rule clear_events_distinct)
    have des: "distinct (List.map_filter ev_s ?es)" using d(1) unfolding filter_ev distinct_append by blast
    have live: "registered_type (sk_type (?sl j))" if x: "x \<in> set (clear_events ?sl (sr_id res) ?es)" "ev_s x = Some j" for x j
    proof (rule ccontr)
      assume n: "\<not> registered_type (sk_type (?sl j))"
      have only: "j' = i" if "x' \<in> set ?es" "ev_s x' = Some j'" "sk_type (?sl j') = SOCKET_TYPE_INVALID" for x' j'
        using ev_only [OF e that(1,2)] that(3) by (auto simp: exempt_def registered_type_def)
      have "x \<in> set ?es" using clear_events_sub [OF x(1)] x(2) by simp
      then have "j \<in> ?X" using ev_only [OF e _ x(2)] n by blast
      then have j: "j = i" "sk_type (?sl i) = SOCKET_TYPE_INVALID" "sk_id (?sl i) = sr_id res" by (simp_all add: exempt_def)
      from clear_events_gone [OF x(1) des only j(2,3)] show False using x(2) j(1) by simp
    qed
    have drop: "drop (ss_event_index ss) ?ev = clear_events ?sl (sr_id res) ?es" using d(2) by simp
    have "ev_inv K {} {} ?reg (ss\<lparr>ss_ev := ?ev\<rparr>)"
      using e d' d(2) live unfolding ev_inv_def by (simp add: drop)
    then have "server_ok K {} [] {} (ss\<lparr>ss_ev := ?ev\<rparr>)"
      using ok by (simp add: server_ok_def base_def mem_inv_def ctl_inv_def)
    then show ?thesis using True by (auto simp: clear_closed_event_def closing_def modify_def)
  qed
qed

section \<open>Requests and waits\<close>

lemma server_pipe: "server_ok K N R X ss \<Longrightarrow> server_ok K N R X (ss\<lparr>ss_checkctrl := b\<rparr>)"
  by (simp add: server_ok_def base_def mem_inv_def ctl_inv_def ev_inv_def)

lemma ctrl_cmd_ok:
  assumes "kernel_ok K"
  shows "sound (\<lambda>ss. server_ok K {} [] {} ss \<and> ss_pipe ss \<noteq> []) (ctrl_cmd K) (\<lambda>r ss. \<exists>i. reported K {} [] i r ss)"
proof (rule tripleI)
  fix ss assume a: "server_ok K {} [] {} ss \<and> ss_pipe ss \<noteq> []"
  then obtain r rest where p: "ss_pipe ss = r # rest" by (cases "ss_pipe ss") auto
  have "handled K (ctrl_dispatch K r) (target r) (ss\<lparr>ss_pipe := rest\<rparr>)"
    using ctrl_dispatch_ok [OF assms _ p] a by simp
  then show "case ctrl_cmd K ss of Inl e \<Rightarrow> e \<in> {} | Inr (r, ss') \<Rightarrow> \<exists>i. reported K {} [] i r ss'"
    by (auto simp: handled_def ctrl_cmd_def bind_o_def gets_def bind_r_def seq_def modify_def p split: sum.splits)
qed

lemma has_cmd_ok: "sound (server_ok K N R X) (has_cmd K) (\<lambda>cmd ss. server_ok K N R X ss \<and> (cmd \<longrightarrow> ss_pipe ss \<noteq> []))"
  unfolding has_cmd_def
  by (rule triple_bind [OF server_sys], simp, rule triple_pure, rule triple_gets) simp

lemma poll_ctrl_ok:
  assumes "kernel_ok K"
  shows "sound (server_ok K {} [] {}) (poll_ctrl K) (\<lambda>_. server_ok K {} [] {})"
proof -
  have cmd: "sound (\<lambda>ss. \<exists>i. reported K {} [] i r ss)
      (case r of None \<Rightarrow> ret (True, None)
       | Some (type, result) \<Rightarrow> seq (clear_closed_event result type) (ret (True, Some (type, result))))
      (\<lambda>_. server_ok K {} [] {})" for r
    by (rule triple_ex, cases r) (auto intro!: triple_ret triple_seq' [OF clear_closed_ok])
  have yes: "sound (\<lambda>ss. server_ok K {} [] {} ss \<and> ss_pipe ss \<noteq> []) (bind_o (ctrl_cmd K) (\<lambda>r. case r of None \<Rightarrow> ret (True, None)
       | Some (type, result) \<Rightarrow> seq (clear_closed_event result type) (ret (True, Some (type, result)))))
      (\<lambda>_. server_ok K {} [] {})" by (rule triple_bind [OF ctrl_cmd_ok [OF assms] cmd])
  have no: "sound (server_ok K {} [] {}) (seq (modify (\<lambda>ss. ss\<lparr>ss_checkctrl := False\<rparr>)) (ret (False, None))) (\<lambda>_. server_ok K {} [] {})"
    by (rule triple_seq' [OF triple_modify triple_ret_same]) (rule server_pipe)
  have both: "sound (\<lambda>ss. server_ok K {} [] {} ss \<and> (cmd \<longrightarrow> ss_pipe ss \<noteq> []))
      (if cmd then bind_o (ctrl_cmd K) (\<lambda>r. case r of None \<Rightarrow> ret (True, None)
         | Some (type, result) \<Rightarrow> seq (clear_closed_event result type) (ret (True, Some (type, result))))
       else seq (modify (\<lambda>ss. ss\<lparr>ss_checkctrl := False\<rparr>)) (ret (False, None))) (\<lambda>_. server_ok K {} [] {})" for cmd
    by (rule triple_if) (auto intro: triple_pre [OF yes] triple_pre [OF no])
  show ?thesis
    unfolding poll_ctrl_def
    by (rule triple_bind [OF triple_gets [where Q = "\<lambda>_. server_ok K {} [] {}"]], assumption)
      (intro triple_if triple_bind [OF has_cmd_ok] both triple_ret)
qed

lemma poll_wait_ok:
  assumes "kernel_ok K"
  shows "sound (server_ok K {} [] {}) (poll_wait K)
    (\<lambda>r ss. server_ok K {} [] {} ss \<and> (snd r \<longrightarrow> ss_event_index ss < length (ss_ev ss)))"
proof (rule tripleI)
  fix ss assume ok: "server_ok K {} [] {} ss"
  let ?h = "ss_calls ss @ [Sys_wait]"
  let ?es = "k_wait K ?h"
  let ?ss = "ss\<lparr>ss_calls := ?h, ss_ev := ?es, ss_checkctrl := True, ss_event_index := 0\<rparr>"
  have e: "ev_inv K {} {} (\<lambda>j. watched_fd (ss_slot ss j)) ss" using ok by (simp add: server_ok_def base_def)
  have w: "watch K ?h = watch K (ss_calls ss)" by (rule watch_quiet) simp
  have "registered_type (sk_type (ss_slot ss i))" if "x \<in> set ?es" "ev_s x = Some i" for x i
  proof -
    have "i \<in> ran (watch K (ss_calls ss))" using filter_ev_set [OF that] kernel_ok_wait [OF assms, of ?h] w by auto
    then obtain fd where "watch K (ss_calls ss) fd = Some i" by (auto simp: ran_def)
    then have "watched_fd (ss_slot ss i) = Some fd" using e unfolding ev_inv_def by blast
    then show ?thesis by (simp add: watched_fd_def split: if_splits)
  qed
  then have "ev_inv K {} {} (\<lambda>j. watched_fd (ss_slot ss j)) ?ss"
    using e kernel_ok_wait [OF assms, of ?h] w unfolding ev_inv_def by simp
  then have new: "server_ok K {} [] {} ?ss" using ok by (simp add: server_ok_def base_def mem_inv_def ctl_inv_def)
  have idx: "ss_event_index ss \<le> length (ss_ev ss)" using e unfolding ev_inv_def by blast
  show "case poll_wait K ss of Inl e \<Rightarrow> e \<in> {}
      | Inr (r, ss') \<Rightarrow> server_ok K {} [] {} ss' \<and> (snd r \<longrightarrow> ss_event_index ss' < length (ss_ev ss'))"
    using new ok idx by (auto simp: poll_wait_def bind_o_def bind_r_def gets_def sys_def seq_def modify_def ret_def Let_def)
qed

section \<open>Events\<close>

lemma at_malloc: "sound (at_slot K N R X i l w s) (so_malloc b) (\<lambda>_. at_slot K N R X i l w s)"
proof (rule tripleI)
  fix ss assume a: "at_slot K N R X i l w s ss"
  let ?mem = "(ss_mem ss)(ss_next ss \<mapsto> b)"
  let ?ss = "ss\<lparr>ss_mem := ?mem, ss_next := ss_next ss + 1\<rparr>"
  let ?own = "(\<lambda>j. wbs (ss_slot ss j))(i := l)"
  have m: "mem_inv ?own ss" using a by (simp add: at_slot_def base_def)
  then have fresh: "ss_mem ss (ss_next ss) = None" unfolding mem_inv_def by blast
  have wb: "wb_ok ?mem x" if "wb_ok (ss_mem ss) x" for x using that fresh by (auto simp: wb_ok_def)
  have rq: "request_ok ?mem r" if "request_ok (ss_mem ss) r" for r using that fresh by (cases r) auto
  have "a < ss_next ss + 1" if "?mem a \<noteq> None" for a
    using m that unfolding mem_inv_def by (cases "a = ss_next ss") (auto simp: less_Suc_eq)
  then have "mem_inv ?own ?ss" using m wb rq unfolding mem_inv_def by simp
  then have "at_slot K N R X i l w s ?ss" using a by (simp add: at_slot_def base_def ctl_inv_def ev_inv_def)
  then show "case so_malloc b ss of Inl e \<Rightarrow> e \<in> {} | Inr (x, ss') \<Rightarrow> at_slot K N R X i l w s ss'"
    by (simp add: so_malloc_def)
qed

lemma read_size_grow: "read_size_ok n \<Longrightarrow> read_size_ok (n * 2)"
  by (auto simp: read_size_ok_def intro: exI [of _ "Suc _"])

lemma read_size_shrink: "read_size_ok n \<Longrightarrow> MIN_READ_BUFFER < n \<Longrightarrow> read_size_ok (n div 2)"
  unfolding read_size_ok_def
proof (elim exE)
  fix k assume k: "n = MIN_READ_BUFFER * 2 ^ k" "MIN_READ_BUFFER < n"
  then obtain j where "k = Suc j" by (cases k) auto
  then show "\<exists>k. n div 2 = MIN_READ_BUFFER * 2 ^ k" using k(1) by auto
qed

lemma closing_simps [simp]: "closing SOCKET_CLOSE" "closing SOCKET_ERROR" "\<not> closing SOCKET_DATA" "\<not> closing SOCKET_UDP"
  "\<not> closing SOCKET_OPEN" "\<not> closing SOCKET_ACCEPT"
  by (simp_all add: closing_def SOCKET_CLOSE_def SOCKET_ERROR_def SOCKET_DATA_def SOCKET_UDP_def SOCKET_OPEN_def SOCKET_ACCEPT_def)

lemma close_error:
  "live i s \<Longrightarrow> sound (at_slot K N R {} i (wbs s) (watched_fd s) s)
     (bind_o (force_close i) (\<lambda>result. ret (Some (SOCKET_ERROR, result\<lparr>sr_data := d\<rparr>)))) (reported K N R i)"
  by (rule at_close_report) simp_all

lemma at_forward_tcp:
  assumes K: "kernel_ok K" and s: "slot_ok s" "live i s" "sk_protocol s = PROTOCOL_TCP"
  shows "sound (at_slot K N R {} i (wbs s) (watched_fd s) s) (forward_message_tcp K i) (reported K N R i)"
proof -
  let ?at = "at_slot K N R {} i (wbs s) (watched_fd s)"
  have param: "param_ok s" using s by (auto simp: slot_ok_def live_def)
  then obtain sz where sz: "sk_p s = Read_size sz" "read_size_ok sz"
    using s(3) by (auto simp: param_ok_def split: socket_param.splits)
  have set_sz: "sound (?at s) (upd_slot i (\<lambda>s. s\<lparr>sk_p := Read_size m\<rparr>)) (\<lambda>_ ss. \<exists>s'. slot_ok s' \<and> wbs s' = wbs s \<and> watched_fd s' = watched_fd s \<and> ?at s' ss)"
    if "read_size_ok m" for m
  proof (rule triple_post [OF at_upd])
    fix ss assume "?at (s\<lparr>sk_p := Read_size m\<rparr>) ss"
    moreover have "slot_ok (s\<lparr>sk_p := Read_size m\<rparr>)" using s that by (auto simp: slot_ok_def param_ok_def)
    ultimately show "\<exists>s'. slot_ok s' \<and> wbs s' = wbs s \<and> watched_fd s' = watched_fd s \<and> ?at s' ss"
      by (intro exI [of _ "s\<lparr>sk_p := Read_size m\<rparr>"]) (simp add: watched_fd_def)
  qed simp_all
  have resize: "sound (?at s)
      (if int (length data) = sz then upd_slot i (\<lambda>s. s\<lparr>sk_p := Read_size (sz * 2)\<rparr>)
       else if MIN_READ_BUFFER < sz \<and> int (length data) * 2 < sz then upd_slot i (\<lambda>s. s\<lparr>sk_p := Read_size (sz div 2)\<rparr>) else ret ())
      (\<lambda>_ ss. \<exists>s'. slot_ok s' \<and> wbs s' = wbs s \<and> watched_fd s' = watched_fd s \<and> ?at s' ss)" for data :: bytes
    using s(1) by (intro triple_if set_sz read_size_grow [OF sz(2)] read_size_shrink [OF sz(2)]) (auto intro: triple_ret)
  have deliver: "sound (\<lambda>ss. \<exists>s'. slot_ok s' \<and> wbs s' = wbs s \<and> watched_fd s' = watched_fd s \<and> ?at s' ss)
      (bind_o (so_malloc b) (\<lambda>buffer. ret (Some (SOCKET_DATA, r buffer)))) (reported K N R i)" for b r
    by (intro triple_ex triple_pure triple_bind [OF at_malloc] triple_ret server_reported) (auto elim: at_server)
  have got: "sound (?at s)
      (if sz < int (length data) then throw Out_of_bounds
       else if data = [] then bind_o (force_close i) (\<lambda>result. ret (Some (SOCKET_CLOSE, result)))
       else if sk_type s = SOCKET_TYPE_HALFCLOSE then ret None
       else seq (if int (length data) = sz then upd_slot i (\<lambda>s. s\<lparr>sk_p := Read_size (sz * 2)\<rparr>)
              else if MIN_READ_BUFFER < sz \<and> int (length data) * 2 < sz then upd_slot i (\<lambda>s. s\<lparr>sk_p := Read_size (sz div 2)\<rparr>) else ret ())
            (bind_o (so_malloc (data @ replicate (nat sz - length data) 0)) (\<lambda>buffer.
             ret (Some (SOCKET_DATA, r buffer))))) (reported K N R i)" if "\<not> sz < int (length data)" for data :: bytes and r
    using that at_close [OF s(2), of SOCKET_CLOSE]
    by (simp only: if_False) (intro triple_if at_server_ret s triple_seq' [OF resize] deliver; simp)
  show ?thesis
    unfolding forward_message_tcp_def
  proof (rule sound_get, simp only: sz socket_param.case, rule triple_bind [OF at_sys], simp, rule triple_pure)
    fix h assume "\<exists>h'. h = h' @ [Sys_read (sk_fd s) sz]"
    then have le: "\<not> sz < int (length d)" if "k_read K h = Inr d" for d using kernel_ok_read [OF K] that by (auto simp: not_less)
    show "sound (?at s) (case k_read K h of
       Inl e \<Rightarrow> if e = EINTR \<or> AGAIN_WOULDBLOCK e then ret None
         else bind_o (force_close i) (\<lambda>result. ret (Some (SOCKET_ERROR, result\<lparr>sr_data := Text_data (k_strerror K e)\<rparr>)))
     | Inr data \<Rightarrow>
         if sz < int (length data) then throw Out_of_bounds
         else if data = [] then bind_o (force_close i) (\<lambda>result. ret (Some (SOCKET_CLOSE, result)))
         else if sk_type s = SOCKET_TYPE_HALFCLOSE then ret None
         else seq (if int (length data) = sz then upd_slot i (\<lambda>s. s\<lparr>sk_p := Read_size (sz * 2)\<rparr>)
                else if MIN_READ_BUFFER < sz \<and> int (length data) * 2 < sz then upd_slot i (\<lambda>s. s\<lparr>sk_p := Read_size (sz div 2)\<rparr>) else ret ())
              (bind_o (so_malloc (data @ replicate (nat sz - length data) 0)) (\<lambda>buffer.
               ret (Some (SOCKET_DATA, \<lparr>sr_id = sk_id s, sr_opaque = sk_opaque s, sr_ud = int (length data), sr_data = Heap_data buffer\<rparr>)))))
      (reported K N R i)"
    proof (cases "k_read K h")
      case (Inl e)
      then show ?thesis by (simp only: sum.case) (intro triple_if at_server_ret s close_error)
    next
      case (Inr data)
      show ?thesis unfolding Inr sum.case by (rule got [OF le [OF Inr]])
    qed
  qed
qed

lemma at_forward_udp:
  assumes K: "kernel_ok K" and s: "slot_ok s" "live i s"
  shows "sound (at_slot K N R {} i (wbs s) (watched_fd s) s) (forward_message_udp K i) (reported K N R i)"
proof -
  let ?at = "at_slot K N R {} i (wbs s) (watched_fd s)"
  have deliver: "sound (?at s) (bind_o (so_malloc b) (\<lambda>buffer. ret (Some (SOCKET_UDP, r buffer)))) (reported K N R i)" for b r
    by (intro triple_bind [OF at_malloc] triple_ret server_reported) (use s in \<open>auto elim: at_server\<close>)
  show ?thesis
    unfolding forward_message_udp_def Let_def
  proof (rule sound_get, rule triple_bind [OF at_sys], simp, rule triple_pure)
    fix h
    show "sound (?at s) (case k_recvfrom K h of
       Inl e \<Rightarrow> if e = EINTR \<or> AGAIN_WOULDBLOCK e then ret None
         else bind_o (force_close i) (\<lambda>result. ret (Some (SOCKET_ERROR, result\<lparr>sr_data := Text_data (k_strerror K e)\<rparr>)))
     | Inr (data, sa) \<Rightarrow>
         if MAX_UDP_PACKAGE < length data then throw Out_of_bounds
         else if sk_protocol s \<noteq> (if sa_family sa = AF_INET then PROTOCOL_UDP else PROTOCOL_UDPv6) then ret None
         else bind_o (so_malloc (data @ gen_udp_address (if sa_family sa = AF_INET then PROTOCOL_UDP else PROTOCOL_UDPv6) sa)) (\<lambda>buffer.
              ret (Some (SOCKET_UDP, \<lparr>sr_id = sk_id s, sr_opaque = sk_opaque s, sr_ud = int (length data), sr_data = Heap_data buffer\<rparr>))))
      (reported K N R i)"
    proof (cases "k_recvfrom K h")
      case (Inl e)
      then show ?thesis by (simp only: sum.case) (intro triple_if at_server_ret s close_error)
    next
      case (Inr x)
      obtain data sa where x: "x = (data, sa)" by fastforce
      have "\<not> MAX_UDP_PACKAGE < length data" using kernel_ok_recvfrom [OF K] Inr x by (simp add: not_less)
      then show ?thesis unfolding Inr x sum.case prod.case by (simp only: if_False) (intro triple_if at_server_ret s deliver)
    qed
  qed
qed

lemma at_report_connect:
  assumes s: "slot_ok s" "live i s" "sk_type s = SOCKET_TYPE_CONNECTING"
  shows "sound (at_slot K N R {} i (wbs s) (watched_fd s) s) (report_connect K i) (reported K N R i)"
proof -
  let ?at = "at_slot K N R {} i (wbs s) (watched_fd s)"
  let ?s = "s\<lparr>sk_type := SOCKET_TYPE_CONNECTED\<rparr>"
  have ok: "slot_ok ?s" "watched_fd ?s = watched_fd s" using s by (auto simp: slot_ok_def watched_fd_def registered_type_def)
  have con: "sound (?at s) (set_type i SOCKET_TYPE_CONNECTED) (\<lambda>_. ?at ?s)"
    by (rule at_type) (use s in \<open>simp_all add: registered_type_def\<close>)
  have fin: "sound (?at ?s) (ret r) (reported K N R i)" for r
    using ok by (intro triple_ret server_reported) (auto elim: at_server)
  have idle: "sound (?at ?s) (if b then sys_do (Sys_poll_write fd False) else ret ()) (\<lambda>_. ?at ?s)" for b fd
    by (intro triple_if at_sys_do triple_ret) simp_all
  show ?thesis
    unfolding report_connect_def Let_def
  proof (rule sound_get, rule triple_bind [OF at_sys], simp, rule triple_pure)
    fix h
    show "sound (?at s) (case k_socket_error K h of
       Some e \<Rightarrow> bind_o (force_close i) (\<lambda>result. ret (Some (SOCKET_ERROR, result\<lparr>sr_data := Text_data (k_strerror K e)\<rparr>)))
     | None \<Rightarrow> seq (set_type i SOCKET_TYPE_CONNECTED)
        (seq (if send_buffer_empty s then sys_do (Sys_poll_write (sk_fd s) False) else ret ())
        (bind_o (sys (Sys_getpeername (sk_fd s))) (\<lambda>h.
           ret (Some (SOCKET_OPEN, \<lparr>sr_id = sk_id s, sr_opaque = sk_opaque s, sr_ud = 0,
             sr_data = case k_getpeername K h of None \<Rightarrow> No_data | Some a \<Rightarrow> ntop_data K a\<rparr>)))))) (reported K N R i)"
      by (intro triple_option triple_seq' [OF con] triple_seq' [OF idle] triple_bind [OF at_sys] triple_pure fin close_error [OF s(2)])
        simp
  qed
qed

lemma sound_ids:
  "triple E (\<lambda>ss. P ss \<and> ids_left ss) m Q \<Longrightarrow> triple E (\<lambda>ss. ids_left ss \<and> P ss) m Q"
  by (erule triple_pre) simp

lemma at_report_accept:
  assumes K: "kernel_ok K" and s: "slot_ok s"
  shows "sound (\<lambda>ss. at_slot K N R {} i (wbs s) (watched_fd s) s ss \<and> ids_left ss) (report_accept K i) (reported K N R i)"
proof -
  let ?at = "at_slot K N R {} i (wbs s) (watched_fd s) s"
  have fin: "sound (server_ok K N R {}) (ret r) (reported K N R i)" for r by (rule triple_ret) (rule server_reported)
  have new: "sound (server_ok K N (sid # R) {}) (seq (sys_do (Sys_keepalive fd)) (seq (sys_do (Sys_nonblocking fd))
      (bind_o (new_fd K sid fd PROTOCOL_TCP opaque False) (\<lambda>ns.
         case ns of None \<Rightarrow> seq (sys_do (Sys_close fd)) (ret None)
         | Some j \<Rightarrow> seq (set_type j SOCKET_TYPE_PACCEPT) (ret r))))) (reported K N R i)" for sid fd opaque r
  proof (rule triple_seq' [OF server_sys_do], simp, rule triple_seq' [OF server_sys_do], simp, rule triple_bind [OF at_new_fd [OF K]])
    fix ns
    show "sound (\<lambda>ss. case ns of None \<Rightarrow> False \<and> (\<exists>s. free_slot s \<and> at_slot K N R {} (HASH_ID sid) [] None s ss)
       | Some i \<Rightarrow> i = HASH_ID sid \<and>
           (\<exists>s. being_opened sid fd PROTOCOL_TCP s \<and> at_slot K N (sid # R) {} i [] (if False then Some fd else None) s ss))
      (case ns of None \<Rightarrow> seq (sys_do (Sys_close fd)) (ret None) | Some j \<Rightarrow> seq (set_type j SOCKET_TYPE_PACCEPT) (ret r)) (reported K N R i)"
    proof (cases ns)
      case (Some j)
      then show ?thesis
        by simp (intro triple_pure triple_ex triple_seq' [OF at_opened [where sid = sid and fd = fd and pr = PROTOCOL_TCP]] fin;
            simp add: registered_type_def)
    qed (simp add: triple_def)
  qed
  have reserved: "sound (\<lambda>ss. server_ok K N R {} ss \<and> ids_left ss) (bind_o reserve_id (\<lambda>sid.
      if sint sid < 0 then seq (sys_do (Sys_close fd)) (ret None)
      else seq (sys_do (Sys_keepalive fd)) (seq (sys_do (Sys_nonblocking fd))
        (bind_o (new_fd K sid fd PROTOCOL_TCP (sk_opaque s) False) (\<lambda>ns.
           case ns of None \<Rightarrow> seq (sys_do (Sys_close fd)) (ret None)
           | Some j \<Rightarrow> seq (set_type j SOCKET_TYPE_PACCEPT) (ret (r sid))))))) (reported K N R i)" for fd r
  proof (rule triple_bind [OF server_reserve_id])
    fix sid
    show "sound (server_ok K N (if sint sid < 0 then R else sid # R) {})
      (if sint sid < 0 then seq (sys_do (Sys_close fd)) (ret None)
       else seq (sys_do (Sys_keepalive fd)) (seq (sys_do (Sys_nonblocking fd))
        (bind_o (new_fd K sid fd PROTOCOL_TCP (sk_opaque s) False) (\<lambda>ns.
           case ns of None \<Rightarrow> seq (sys_do (Sys_close fd)) (ret None)
           | Some j \<Rightarrow> seq (set_type j SOCKET_TYPE_PACCEPT) (ret (r sid)))))) (reported K N R i)"
      by (cases "sint sid < 0"; simp only: if_True if_False; intro new triple_seq' [OF server_sys_do] fin; simp)
  qed
  have acc: "sound (\<lambda>ss. ?at ss \<and> ids_left ss) (sys (Sys_accept fd)) (\<lambda>h ss. server_ok K N R {} ss \<and> ids_left ss)" for fd
    by (rule tripleI) (auto simp: sys_def at_calls watch_quiet ids_left_def intro: at_server [OF _ refl refl s])
  have get: "sound (\<lambda>ss. ?at ss \<and> ids_left ss) (get_slot i) (\<lambda>x ss. x = s \<and> ?at ss \<and> ids_left ss)"
    by (rule tripleI) (simp add: get_slot_def gets_def at_slot_def)
  show ?thesis
    unfolding report_accept_def
  proof (rule triple_bind [OF get], rule triple_pure, hypsubst, rule triple_bind [OF acc])
    fix h
    have pre: "sound (\<lambda>ss. server_ok K N R {} ss \<and> ids_left ss) (ret r) (reported K N R i)" for r
      by (rule triple_pre [OF fin]) simp
    show "sound (\<lambda>ss. server_ok K N R {} ss \<and> ids_left ss) (case k_accept K h of
         Inl e \<Rightarrow> if e = EMFILE \<or> e = ENFILE
           then ret (Some (SOCKET_ERROR, \<lparr>sr_id = sk_id s, sr_opaque = sk_opaque s, sr_ud = 0, sr_data = Text_data (k_strerror K e)\<rparr>))
           else ret None
       | Inr (client_fd, u) \<Rightarrow>
           bind_o reserve_id (\<lambda>sid.
             if sint sid < 0 then seq (sys_do (Sys_close client_fd)) (ret None)
             else
               seq (sys_do (Sys_keepalive client_fd))
              (seq (sys_do (Sys_nonblocking client_fd))
              (bind_o (new_fd K sid client_fd PROTOCOL_TCP (sk_opaque s) False) (\<lambda>ns.
                 case ns of
                   None \<Rightarrow> seq (sys_do (Sys_close client_fd)) (ret None)
                 | Some j \<Rightarrow>
                     seq (set_type j SOCKET_TYPE_PACCEPT)
                         (ret (Some (SOCKET_ACCEPT, \<lparr>sr_id = sk_id s, sr_opaque = sk_opaque s, sr_ud = sint sid,
                                                     sr_data = accept_name K u\<rparr>)))))))) (reported K N R i)"
    proof (cases "k_accept K h")
      case (Inl e)
      then show ?thesis by (simp only: sum.case) (intro triple_if pre)
    next
      case (Inr x)
      obtain fd u where x: "x = (fd, u)" by fastforce
      show ?thesis unfolding Inr x sum.case prod.case by (rule reserved)
    qed
  qed
qed

text \<open>
  An event that was taken: the array still holds it in front of the index, and no other event is for its
  socket.
\<close>

definition taken :: "nat \<Rightarrow> socket_type \<Rightarrow> sp_event list \<Rightarrow> nat \<Rightarrow> socket_server \<Rightarrow> bool" where
  "taken i t ev n ss = (sk_type (ss_slot ss i) = t \<and> ss_ev ss = ev \<and> ss_event_index ss = Suc n)"

definition ends :: "report \<Rightarrow> bool" where
  "ends r = (case r of None \<Rightarrow> False | Some (t, _) \<Rightarrow> closing t)"

lemma reported_done: "reported K {i} [] i r ss \<Longrightarrow> server_ok K {} [] {} ss"
  unfolding reported_def server_ok_def base_def ev_inv_def exempt_def by (auto split: option.splits)

lemma taken_force_close: "triple UNIV P (bind_o (force_close i) (\<lambda>result. ret (Some (SOCKET_ERROR, f result))))
    (\<lambda>r ss. \<not> ends r \<longrightarrow> Q ss)"
  by (rule triple_bind [where R = "\<lambda>_ _. True"]) (auto simp: triple_def ret_def ends_def split: sum.splits)

lemma taken_force_close': "triple UNIV P (bind_o (force_close i) (\<lambda>result. ret (Some (SOCKET_CLOSE, f result))))
    (\<lambda>r ss. \<not> ends r \<longrightarrow> Q ss)"
  by (rule triple_bind [where R = "\<lambda>_ _. True"]) (auto simp: triple_def ret_def ends_def split: sum.splits)

lemma taken_get: "triple UNIV (taken i t ev n) (get_slot j) (\<lambda>_. taken i t ev n)"
  unfolding get_slot_def by (rule triple_gets)

lemma taken_sys: "triple UNIV (taken i t ev n) (sys c) (\<lambda>_. taken i t ev n)"
  by (rule tripleI) (simp add: sys_def taken_def)

lemma taken_malloc: "triple UNIV (taken i t ev n) (so_malloc b) (\<lambda>_. taken i t ev n)"
  by (rule tripleI) (simp add: so_malloc_def taken_def)

lemma taken_param: "triple UNIV (taken i t ev n) (upd_slot j (\<lambda>s. s\<lparr>sk_p := x\<rparr>)) (\<lambda>_. taken i t ev n)"
  unfolding upd_slot_def by (rule triple_modify) (auto simp: taken_def)

lemma taken_ret: "triple UNIV (taken i t ev n) (ret r) (\<lambda>r ss. \<not> ends r \<longrightarrow> taken i t ev n ss)"
  by (rule triple_ret) simp

lemma taken_tcp: "triple UNIV (taken i t ev n) (forward_message_tcp K i) (\<lambda>r ss. \<not> ends r \<longrightarrow> taken i t ev n ss)"
  unfolding forward_message_tcp_def
proof (rule triple_bind [OF taken_get])
  fix s
  have resize: "triple UNIV (taken i t ev n)
      (if int (length data) = sz then upd_slot i (\<lambda>s. s\<lparr>sk_p := Read_size (sz * 2)\<rparr>)
       else if MIN_READ_BUFFER < sz \<and> int (length data) * 2 < sz then upd_slot i (\<lambda>s. s\<lparr>sk_p := Read_size (sz div 2)\<rparr>) else ret ())
      (\<lambda>_. taken i t ev n)" for data :: bytes and sz
    by (intro triple_if taken_param triple_ret)
  have "triple UNIV (taken i t ev n) (case k_read K h of
       Inl e \<Rightarrow> if e = EINTR \<or> AGAIN_WOULDBLOCK e then ret None
         else bind_o (force_close i) (\<lambda>result. ret (Some (SOCKET_ERROR, result\<lparr>sr_data := Text_data (k_strerror K e)\<rparr>)))
     | Inr data \<Rightarrow>
         if sz < int (length data) then throw Out_of_bounds
         else if data = [] then bind_o (force_close i) (\<lambda>result. ret (Some (SOCKET_CLOSE, result)))
         else if sk_type s = SOCKET_TYPE_HALFCLOSE then ret None
         else seq (if int (length data) = sz then upd_slot i (\<lambda>s. s\<lparr>sk_p := Read_size (sz * 2)\<rparr>)
                else if MIN_READ_BUFFER < sz \<and> int (length data) * 2 < sz then upd_slot i (\<lambda>s. s\<lparr>sk_p := Read_size (sz div 2)\<rparr>) else ret ())
              (bind_o (so_malloc (data @ replicate (nat sz - length data) 0)) (\<lambda>buffer.
               ret (Some (SOCKET_DATA, \<lparr>sr_id = sk_id s, sr_opaque = sk_opaque s, sr_ud = int (length data), sr_data = Heap_data buffer\<rparr>)))))
      (\<lambda>r ss. \<not> ends r \<longrightarrow> taken i t ev n ss)" for h sz
    by (cases "k_read K h"; simp only: sum.case; intro triple_if taken_ret taken_force_close taken_force_close' triple_throw
        triple_seq' [OF resize] triple_bind [OF taken_malloc] UNIV_I)
  then show "triple UNIV (taken i t ev n) (case sk_p s of Udp_address _ \<Rightarrow> throw Uninitialised
     | Read_size sz \<Rightarrow> bind_o (sys (Sys_read (sk_fd s) sz)) (\<lambda>h. case k_read K h of
       Inl e \<Rightarrow> if e = EINTR \<or> AGAIN_WOULDBLOCK e then ret None
         else bind_o (force_close i) (\<lambda>result. ret (Some (SOCKET_ERROR, result\<lparr>sr_data := Text_data (k_strerror K e)\<rparr>)))
     | Inr data \<Rightarrow>
         if sz < int (length data) then throw Out_of_bounds
         else if data = [] then bind_o (force_close i) (\<lambda>result. ret (Some (SOCKET_CLOSE, result)))
         else if sk_type s = SOCKET_TYPE_HALFCLOSE then ret None
         else seq (if int (length data) = sz then upd_slot i (\<lambda>s. s\<lparr>sk_p := Read_size (sz * 2)\<rparr>)
                else if MIN_READ_BUFFER < sz \<and> int (length data) * 2 < sz then upd_slot i (\<lambda>s. s\<lparr>sk_p := Read_size (sz div 2)\<rparr>) else ret ())
              (bind_o (so_malloc (data @ replicate (nat sz - length data) 0)) (\<lambda>buffer.
               ret (Some (SOCKET_DATA, \<lparr>sr_id = sk_id s, sr_opaque = sk_opaque s, sr_ud = int (length data), sr_data = Heap_data buffer\<rparr>))))))
      (\<lambda>r ss. \<not> ends r \<longrightarrow> taken i t ev n ss)"
    by (cases "sk_p s"; simp only: socket_param.case; intro triple_bind [OF taken_sys] triple_throw UNIV_I)
qed

lemma taken_udp: "triple UNIV (taken i t ev n) (forward_message_udp K i) (\<lambda>r ss. \<not> ends r \<longrightarrow> taken i t ev n ss)"
  unfolding forward_message_udp_def Let_def
proof (rule triple_bind [OF taken_get], rule triple_bind [OF taken_sys])
  fix s h
  show "triple UNIV (taken i t ev n) (case k_recvfrom K h of
       Inl e \<Rightarrow> if e = EINTR \<or> AGAIN_WOULDBLOCK e then ret None
         else bind_o (force_close i) (\<lambda>result. ret (Some (SOCKET_ERROR, result\<lparr>sr_data := Text_data (k_strerror K e)\<rparr>)))
     | Inr (data, sa) \<Rightarrow>
         if MAX_UDP_PACKAGE < length data then throw Out_of_bounds
         else if sk_protocol s \<noteq> (if sa_family sa = AF_INET then PROTOCOL_UDP else PROTOCOL_UDPv6) then ret None
         else bind_o (so_malloc (data @ gen_udp_address (if sa_family sa = AF_INET then PROTOCOL_UDP else PROTOCOL_UDPv6) sa)) (\<lambda>buffer.
              ret (Some (SOCKET_UDP, \<lparr>sr_id = sk_id s, sr_opaque = sk_opaque s, sr_ud = int (length data), sr_data = Heap_data buffer\<rparr>))))
      (\<lambda>r ss. \<not> ends r \<longrightarrow> taken i t ev n ss)"
    by (cases "k_recvfrom K h"; simp only: sum.case prod.case split: prod.splits;
        intro allI impI triple_if taken_ret taken_force_close triple_throw triple_bind [OF taken_malloc] UNIV_I)
qed

text \<open>An event that is given back.\<close>

lemma untake:
  assumes e: "n < length ev" "ev ! n = e" "ev_s e = Some i" "registered_type t" and g: "ev_s (g e) = Some i"
  shows "sound (\<lambda>ss. server_ok K {i} [] {} ss \<and> taken i t ev n ss) (upd_event (\<lambda>n. n - 1) g) (\<lambda>_. server_ok K {} [] {})"
proof (rule tripleI, elim conjE)
  fix ss assume s: "server_ok K {i} [] {} ss" "taken i t ev n ss"
  let ?reg = "\<lambda>j. watched_fd (ss_slot ss j)"
  let ?ss = "ss\<lparr>ss_ev := ev[n := g e], ss_event_index := n\<rparr>"
  have i: "ev_inv K {i} {} ?reg ss" using s(1) by (simp add: server_ok_def base_def)
  have t: "ss_ev ss = ev" "ss_event_index ss = Suc n" "sk_type (ss_slot ss i) = t" using s(2) by (simp_all add: taken_def)
  have "List.map_filter ev_s (ev[n := g e]) = List.map_filter ev_s (take n ev @ e # drop (Suc n) ev)"
    using e g by (subst upd_conv_take_nth_drop) simp_all
  also have "take n ev @ e # drop (Suc n) ev = ev" using e(1,2) id_take_nth_drop [of n ev] by simp
  finally have f: "List.map_filter ev_s (ev[n := g e]) = List.map_filter ev_s ev" .
  have d: "drop n (ev[n := g e]) = g e # drop (Suc n) ev" using e(1) by (simp add: upd_conv_take_nth_drop)
  have "ev_inv K {} {} ?reg ?ss" using i t e g unfolding ev_inv_def by (auto simp: f d)
  then have "server_ok K {} [] {} ?ss" using s(1) by (simp add: server_ok_def base_def mem_inv_def ctl_inv_def)
  then show "case upd_event (\<lambda>n. n - 1) g ss of Inl e \<Rightarrow> e \<in> {} | Inr (x, ss') \<Rightarrow> server_ok K {} [] {} ss'"
    using t e by (auto simp: upd_event_def modify_def Let_def)
qed

lemma server_unmark: "server_ok K {i} [] {} ss \<Longrightarrow> server_ok K {} [] {} ss"
  using reported_done [of K i None ss] by simp

lemma poll_read_ok:
  assumes K: "kernel_ok K" and s: "slot_ok s" "live i s" "registered_type (sk_type s)"
    and e: "n < length ev" "ev ! n = e" "ev_s e = Some i"
  shows "sound (\<lambda>ss. at_slot K {i} [] {} i (wbs s) (watched_fd s) s ss \<and> taken i (sk_type s) ev n ss) (poll_read K e i s)
    (\<lambda>_. server_ok K {} [] {})"
proof -
  let ?pre = "\<lambda>ss. at_slot K {i} [] {} i (wbs s) (watched_fd s) s ss \<and> taken i (sk_type s) ev n ss"
  have fwd: "sound ?pre (if sk_protocol s = PROTOCOL_TCP then forward_message_tcp K i else forward_message_udp K i)
      (\<lambda>r ss. reported K {i} [] i r ss \<and> (\<not> ends r \<longrightarrow> taken i (sk_type s) ev n ss))"
    by (intro triple_if triple_and [OF at_forward_tcp taken_tcp] triple_and [OF at_forward_udp taken_udp] K s)
  have un: "sound (\<lambda>ss. reported K {i} [] i r ss \<and> (\<not> ends r \<longrightarrow> taken i (sk_type s) ev n ss)) (upd_event (\<lambda>n. n - 1) g)
      (\<lambda>_. server_ok K {} [] {})" if "ev_s (g e) = Some i" "\<not> ends r" for g r
    by (rule triple_pre [OF untake [where g = g, OF e s(3) that(1)]]) (use that(2) reported_done in \<open>auto simp: reported_def exempt_def ends_def split: option.splits\<close>)
  have stop: "sound (\<lambda>ss. reported K {i} [] i r ss \<and> (\<not> ends r \<longrightarrow> taken i (sk_type s) ev n ss)) (ret ()) (\<lambda>_. server_ok K {} [] {})" for r
    by (rule triple_ret) (auto dest: reported_done)
  have udp: "\<not> ends r" if "map_option fst r = Some SOCKET_UDP" for r :: report
    using that by (cases r) (auto simp: ends_def)
  have open_r: "\<not> ends r" if "map_option fst r \<noteq> Some SOCKET_CLOSE" "map_option fst r \<noteq> Some SOCKET_ERROR" for r :: report
    using that by (cases r) (auto simp: ends_def closing_def)
  show ?thesis
    unfolding poll_read_def
  proof (rule triple_bind [OF fwd], rule triple_if)
    fix r :: report
    assume "sk_protocol s \<noteq> PROTOCOL_TCP \<and> map_option fst r = Some SOCKET_UDP"
    then show "sound (\<lambda>ss. reported K {i} [] i r ss \<and> (\<not> ends r \<longrightarrow> taken i (sk_type s) ev n ss))
        (seq (upd_event (\<lambda>n. n - 1) (\<lambda>e. e)) (ret r)) (\<lambda>_. server_ok K {} [] {})"
      by (intro triple_seq' [OF un] triple_ret udp) (simp_all add: e)
  next
    fix r :: report
    show "sound (\<lambda>ss. reported K {i} [] i r ss \<and> (\<not> ends r \<longrightarrow> taken i (sk_type s) ev n ss))
        (seq (if ev_write e \<and> map_option fst r \<noteq> Some SOCKET_CLOSE \<and> map_option fst r \<noteq> Some SOCKET_ERROR
              then upd_event (\<lambda>n. n - 1) (\<lambda>e. e\<lparr>ev_read := False\<rparr>) else ret ()) (ret r)) (\<lambda>_. server_ok K {} [] {})"
      by (rule triple_seq' [OF triple_if triple_ret_same], rule un, simp add: e, rule open_r, simp, simp, rule stop)
  qed
qed

lemma registered_sending: "registered_type (sk_type s) \<Longrightarrow> live i s \<Longrightarrow> sk_type s \<noteq> SOCKET_TYPE_LISTEN \<Longrightarrow> sending i s"
  by (auto simp: registered_type_def live_def sending_def)

lemma reported_triple: "sound P m (reported K {i} [] i) \<Longrightarrow> sound P m (\<lambda>_. server_ok K {} [] {})"
  by (erule triple_post) (rule reported_done)

text \<open>What is left of an event after it was taken.\<close>

lemma take_event:
  assumes s: "server_ok K {} [] {} ss" and e: "ss_event_index ss < length (ss_ev ss)" "ss_ev ss ! ss_event_index ss = e"
  shows "server_ok K {} [] {} (ss\<lparr>ss_event_index := ss_event_index ss + 1\<rparr>)"
    "ev_s e = Some i \<Longrightarrow> server_ok K {i} [] {} (ss\<lparr>ss_event_index := ss_event_index ss + 1\<rparr>) \<and> registered_type (sk_type (ss_slot ss i))"
proof -
  let ?reg = "\<lambda>j. watched_fd (ss_slot ss j)" and ?n = "ss_event_index ss"
  let ?ss = "ss\<lparr>ss_event_index := ?n + 1\<rparr>"
  have i: "ev_inv K {} {} ?reg ss" using s by (simp add: server_ok_def base_def)
  have d: "drop ?n (ss_ev ss) = e # drop (?n + 1) (ss_ev ss)" using Cons_nth_drop_Suc [OF e(1)] e(2) by simp
  have sub: "set (drop (?n + 1) (ss_ev ss)) \<subseteq> set (drop ?n (ss_ev ss))" unfolding d by auto
  have "ev_inv K {} {} ?reg ?ss" using i e(1) sub unfolding ev_inv_def by auto
  then show "server_ok K {} [] {} ?ss" using s by (simp add: server_ok_def base_def mem_inv_def ctl_inv_def)
  assume ei: "ev_s e = Some i"
  have reg: "registered_type (sk_type (ss_slot ss i))" using ev_only [OF i, of e i] d ei by auto
  have "List.map_filter ev_s (take ?n (ss_ev ss) @ e # drop (?n + 1) (ss_ev ss)) = List.map_filter ev_s (ss_ev ss)"
    using d append_take_drop_id [of ?n "ss_ev ss"] by simp
  then have "distinct (List.map_filter ev_s (take ?n (ss_ev ss)) @ i # List.map_filter ev_s (drop (?n + 1) (ss_ev ss)))"
    using i ei unfolding ev_inv_def by simp
  then have "i \<notin> set (List.map_filter ev_s (drop (?n + 1) (ss_ev ss)))" by simp
  then have "ev_inv K {i} {} ?reg ?ss" using i e(1) sub filter_ev_set unfolding ev_inv_def by fastforce
  then show "server_ok K {i} [] {} ?ss \<and> registered_type (sk_type (ss_slot ss i))"
    using s reg by (simp add: server_ok_def base_def mem_inv_def ctl_inv_def)
qed

lemma poll_event_ok:
  assumes K: "kernel_ok K"
  shows "sound (\<lambda>ss. server_ok K {} [] {} ss \<and> ids_left ss \<and> ss_event_index ss < length (ss_ev ss)) (poll_event K)
    (\<lambda>_. server_ok K {} [] {})"
proof (rule tripleI, elim conjE)
  fix ss assume s: "server_ok K {} [] {} ss" "ids_left ss" "ss_event_index ss < length (ss_ev ss)"
  define n e ev where "n = ss_event_index ss" and "e = ss_ev ss ! n" and "ev = ss_ev ss"
  let ?ss = "ss\<lparr>ss_event_index := n + 1\<rparr>"
  have take: "server_ok K {} [] {} ?ss" using take_event(1) [OF s(1,3) refl] by (simp add: n_def)
  have run: "poll_event K ss =
      (case ev_s e of
         None \<Rightarrow> ret None
       | Some i \<Rightarrow>
           bind_o (get_slot i) (\<lambda>s.
             case sk_type s of
               SOCKET_TYPE_CONNECTING \<Rightarrow> report_connect K i
             | SOCKET_TYPE_LISTEN \<Rightarrow> report_accept K i
             | SOCKET_TYPE_INVALID \<Rightarrow> ret None
             | _ \<Rightarrow> if ev_read e then poll_read K e i s else if ev_write e then send_buffer K i else ret None)) ?ss"
    by (simp only: poll_event_def bind_gets seq_modify n_def e_def)
  show "case poll_event K ss of Inl e \<Rightarrow> e \<in> {} | Inr (x, ss') \<Rightarrow> server_ok K {} [] {} ss'"
  proof (cases "ev_s e")
    case None
    then show ?thesis using take by (simp add: run ret_def)
  next
    case (Some i)
    let ?s = "ss_slot ss i"
    have ok: "server_ok K {i} [] {} ?ss" and reg: "registered_type (sk_type ?s)"
      using take_event(2) [OF s(1,3) refl, of i] Some by (simp_all add: n_def e_def)
    have so: "slot_ok ?s" using server_slot_ok [OF s(1)] .
    have l: "live i ?s" using ctl_hash [OF server_ctl [OF s(1)], of i] reg by (auto simp: live_def registered_type_def)
    have at: "at_slot K {i} [] {} i (wbs ?s) (watched_fd ?s) ?s ?ss" using server_at [OF ok, of i] by simp
    have tk: "taken i (sk_type ?s) ev n ?ss" by (simp add: taken_def ev_def)
    have ids: "ids_left ?ss" using s(2) by (simp add: ids_left_def)
    have ne: "n < length ev" "ev ! n = e" using s(3) by (simp_all add: n_def e_def ev_def)
    let ?at = "at_slot K {i} [] {} i (wbs ?s) (watched_fd ?s) ?s"
    have rest: "sound (\<lambda>ss. ?at ss \<and> taken i (sk_type ?s) ev n ss)
        (if ev_read e then poll_read K e i ?s else if ev_write e then send_buffer K i else ret None) (\<lambda>_. server_ok K {} [] {})"
      if snd: "sending i ?s"
    proof (intro triple_if poll_read_ok [OF K so l reg ne Some])
      show "sound (\<lambda>ss. ?at ss \<and> taken i (sk_type ?s) ev n ss) (send_buffer K i) (\<lambda>_. server_ok K {} [] {})"
        by (rule triple_pre [OF reported_triple [OF at_send_buffer [OF K snd so]]]) simp
      show "sound (\<lambda>ss. ?at ss \<and> taken i (sk_type ?s) ev n ss) (ret None) (\<lambda>_. server_ok K {} [] {})"
        by (rule triple_ret) (auto dest: at_server [OF _ refl refl so] intro: server_unmark)
    qed
    have "sound (\<lambda>ss. ?at ss \<and> taken i (sk_type ?s) ev n ss \<and> ids_left ss)
        (case sk_type ?s of
           SOCKET_TYPE_CONNECTING \<Rightarrow> report_connect K i
         | SOCKET_TYPE_LISTEN \<Rightarrow> report_accept K i
         | SOCKET_TYPE_INVALID \<Rightarrow> ret None
         | _ \<Rightarrow> if ev_read e then poll_read K e i ?s else if ev_write e then send_buffer K i else ret None)
        (\<lambda>_. server_ok K {} [] {})"
    proof (cases "sk_type ?s = SOCKET_TYPE_CONNECTING \<or> sk_type ?s = SOCKET_TYPE_LISTEN")
      case True
      then show ?thesis
        using triple_pre [OF reported_triple [OF at_report_connect [OF so l, where K = K and N = "{i}" and R = "[]"]],
            of "\<lambda>ss. ?at ss \<and> taken i (sk_type ?s) ev n ss \<and> ids_left ss"]
          triple_pre [OF reported_triple [OF at_report_accept [OF K so, where N = "{i}" and R = "[]"]],
            of "\<lambda>ss. ?at ss \<and> taken i (sk_type ?s) ev n ss \<and> ids_left ss"] by auto
    next
      case False
      then have "sending i ?s" using registered_sending [OF reg l] by simp
      then show ?thesis
        using triple_pre [OF rest, of "\<lambda>ss. ?at ss \<and> taken i (sk_type ?s) ev n ss \<and> ids_left ss"] False reg
        by (cases "sk_type ?s") (auto simp: registered_type_def)
    qed
    from triple_run [OF this, of ?ss] at tk ids show ?thesis
      unfolding run Some option.case bind_o_def get_slot_def gets_def by (simp add: bind_r_def)
  qed
qed

lemma has_cmd_ids: "triple UNIV ids_left (has_cmd K) (\<lambda>_. ids_left)"
  by (rule tripleI) (simp add: has_cmd_def bind_o_def bind_r_def sys_def gets_def ids_left_def)

lemma poll_ctrl_ids: "triple UNIV ids_left (poll_ctrl K) (\<lambda>r ss. fst r \<or> ids_left ss)"
proof -
  have cmd: "triple UNIV P (case r of None \<Rightarrow> ret (True, None)
       | Some (type, result) \<Rightarrow> seq (clear_closed_event result type) (ret (True, Some (type, result)))) (\<lambda>r ss. fst r \<or> ids_left ss)" for r P
    by (cases r) (auto simp: triple_def clear_closed_event_def seq_def bind_o_def bind_r_def modify_def ret_def)
  have any: "triple UNIV P m (\<lambda>_ _. True)" for P and m :: "'a sop" by (auto simp: triple_def split: sum.splits)
  show ?thesis
    unfolding poll_ctrl_def
    by (rule triple_bind [OF triple_gets [where Q = "\<lambda>_. ids_left"]], assumption)
      (intro triple_if triple_bind [OF has_cmd_ids] triple_bind [OF any cmd] triple_seq' [OF triple_modify [where Q = "\<lambda>_. ids_left"]]
        triple_ret; simp add: ids_left_def)
qed

lemma poll_wait_ids: "triple UNIV ids_left (poll_wait K) (\<lambda>_. ids_left)"
  by (rule tripleI) (auto simp: poll_wait_def bind_o_def bind_r_def sys_def gets_def ids_left_def seq_def modify_def ret_def Let_def)

lemma poll_round_ok:
  assumes K: "kernel_ok K"
  shows "sound (\<lambda>ss. server_ok K {} [] {} ss \<and> ids_left ss) (poll_round K go) (\<lambda>_. server_ok K {} [] {})"
  unfolding poll_round_def
proof (rule triple_bind [OF triple_and [OF poll_ctrl_ok [OF K] poll_ctrl_ids]])
  fix x :: "bool \<times> report"
  obtain cmd r where x: "x = (cmd, r)" by fastforce
  have fin: "sound (\<lambda>ss. server_ok K {} [] {} ss) (ret y) (\<lambda>_. server_ok K {} [] {})" for y :: poll_outcome by (rule triple_ret)
  have event: "sound (\<lambda>ss. (server_ok K {} [] {} ss \<and> (snd w \<longrightarrow> ss_event_index ss < length (ss_ev ss))) \<and> ids_left ss)
      (case w of (waited, ok) \<Rightarrow> let go = (go \<and> \<not> waited) in
         if \<not> ok then ret (Return (- 1) None go)
         else bind_o (poll_event K) (\<lambda>r. ret (case r of None \<Rightarrow> Continue go | Some (type, result) \<Rightarrow> Return type (Some result) go)))
      (\<lambda>_. server_ok K {} [] {})" for w
  proof -
    obtain waited ok where w: "w = (waited, ok)" by fastforce
    have "sound (\<lambda>ss. (server_ok K {} [] {} ss \<and> ss_event_index ss < length (ss_ev ss)) \<and> ids_left ss)
        (bind_o (poll_event K) (\<lambda>r. ret (f r))) (\<lambda>_. server_ok K {} [] {})" for f :: "report \<Rightarrow> poll_outcome"
      by (rule triple_pre [OF triple_bind [OF poll_event_ok [OF K] triple_ret]]) auto
    then show ?thesis unfolding w Let_def by (cases ok) (auto intro: triple_ret)
  qed
  show "sound (\<lambda>ss. server_ok K {} [] {} ss \<and> (fst x \<or> ids_left ss)) (case x of (cmd, r) \<Rightarrow>
       if cmd then ret (case r of None \<Rightarrow> Continue go | Some (type, result) \<Rightarrow> Return type (Some result) go)
       else bind_o (poll_wait K) (\<lambda>(waited, ok). let go = (go \<and> \<not> waited) in
         if \<not> ok then ret (Return (- 1) None go)
         else bind_o (poll_event K) (\<lambda>r. ret (case r of None \<Rightarrow> Continue go | Some (type, result) \<Rightarrow> Return type (Some result) go))))
      (\<lambda>_. server_ok K {} [] {})"
    unfolding x prod.case
    by (cases cmd) (auto intro!: triple_ret triple_bind [OF triple_and [OF poll_wait_ok [OF K] poll_wait_ids] event])
qed

end
