(* ===== verification/Socket_safe.thy ===== *)
theory Socket_safe
  imports Socket_poll
begin

text \<open>
  The socket server as a whole: the calls of the services, the rounds of the socket thread, and the states
  they can reach in any order. No call fails or hangs in a reachable state.
\<close>

section \<open>Requests in the pipe\<close>

definition owned :: "socket_server \<Rightarrow> nat set" where
  "owned ss = set (piped (ss_pipe ss)) \<union> (\<Union>i. wb_buffer ` set (wbs (ss_slot ss i)))"

lemma piped_snoc [simp]: "piped (rs @ [r]) = piped rs @ request_bufs r"
  by (simp add: piped_def)

lemma openers_snoc [simp]: "openers (rs @ [r]) = openers rs @ (if opener r then [target r] else [])"
  by (simp add: openers_def)

lemma in_order_snoc: "in_order rs \<Longrightarrow> (opener r \<Longrightarrow> \<forall>x \<in> set rs. target x \<noteq> target r) \<Longrightarrow> in_order (rs @ [r])"
proof (induction rs)
  case Nil
  then show ?case by (simp add: openers_def)
qed auto

lemma mem_inv_push:
  assumes m: "mem_inv (\<lambda>j. wbs (ss_slot ss j)) ss" and r: "request_ok (ss_mem ss) r" "set (request_bufs r) \<inter> owned ss = {}"
  shows "mem_inv (\<lambda>j. wbs (ss_slot ss j)) (ss\<lparr>ss_pipe := ss_pipe ss @ [r]\<rparr>)"
proof -
  have "distinct (request_bufs r)" by (cases r) simp_all
  then have "distinct (map wb_buffer (wbs (ss_slot ss i)) @ piped (ss_pipe ss) @ request_bufs r)" for i
    using mem_inv_distinct [OF m, of i] r(2) by (auto simp: owned_def)
  then show ?thesis using m r(1) unfolding mem_inv_def by simp
qed

lemma push_plain:
  assumes s: "server_ok K N R X ss" and r: "request_ok (ss_mem ss) r" "set (request_bufs r) \<inter> owned ss = {}"
    "\<not> opener r" "unat (target r) \<le> unat (ss_alloc_id ss)"
  shows "server_ok K N R X (ss\<lparr>ss_pipe := ss_pipe ss @ [r]\<rparr>)"
  using s r mem_inv_push [OF _ r(1,2)] in_order_snoc [of "ss_pipe ss" r]
  by (simp add: server_ok_def base_def ev_inv_def ctl_inv_def)

text \<open>The request that opens a reserved id; no request for that id is in the pipe yet.\<close>

definition unused :: "u32 \<Rightarrow> socket_server \<Rightarrow> bool" where
  "unused sid ss = (\<forall>x \<in> set (ss_pipe ss). target x \<noteq> sid)"

lemma push_opener:
  assumes s: "server_ok K N (target r # R) X ss" and r: "request_bufs r = []" "request_ok (ss_mem ss) r" "opener r" "unused (target r) ss"
  shows "server_ok K N R X (ss\<lparr>ss_pipe := ss_pipe ss @ [r]\<rparr>)"
proof -
  have c: "ctl_inv (target r # R) ss" using server_ctl [OF s] .
  have le: "unat (target r) \<le> unat (ss_alloc_id ss)"
    using c ctl_reserved [OF c] unfolding ctl_inv_def by (metis socket_type.distinct(1))
  have "mem_inv (\<lambda>j. wbs (ss_slot ss j)) (ss\<lparr>ss_pipe := ss_pipe ss @ [r]\<rparr>)"
    using s r by (intro mem_inv_push) (simp_all add: server_ok_def base_def)
  moreover have "ctl_inv R (ss\<lparr>ss_pipe := ss_pipe ss @ [r]\<rparr>)"
    using c le r in_order_snoc [of "ss_pipe ss" r] unfolding ctl_inv_def unused_def by simp
  ultimately show ?thesis using s by (simp add: server_ok_def base_def ev_inv_def)
qed

lemma reserve_then:
  assumes s: "server_ok K {} [] {} ss" "ids_left ss"
    and fail: "\<And>sid ss'. sint sid < 0 \<Longrightarrow> server_ok K {} [] {} ss' \<Longrightarrow> Q (k sid ss')"
    and go: "\<And>sid ss'. \<not> sint sid < 0 \<Longrightarrow> server_ok K {} [sid] {} ss' \<Longrightarrow> unused sid ss' \<Longrightarrow> Q (k sid ss')"
  shows "Q (bind_o reserve_id k ss)"
proof -
  have l: "unat (ss_alloc_id ss) + MAX_SOCKET < 2 ^ 31" using s(2) by (simp add: ids_left_def)
  obtain sid ss' where r: "reserve_loop MAX_SOCKET ss = Inr (sid, ss')" using reserve_loop_returns [OF l] by blast
  have run: "bind_o reserve_id k ss = k sid ss'" by (simp add: bind_o_def reserve_id_def r bind_r_def)
  have ok: "server_ok K {} (if sint sid < 0 then [] else [sid]) {} ss'"
    using triple_run [OF server_reserve_id, of K "{}" "[]" "{}" ss] s by (simp add: reserve_id_def r)
  show ?thesis
  proof (cases "sint sid < 0")
    case True
    then show ?thesis using fail ok run by simp
  next
    case False
    have "unat (target x) \<le> unat (ss_alloc_id ss)" if "x \<in> set (ss_pipe ss)" for x
      using server_ctl [OF s(1)] that unfolding ctl_inv_def by blast
    then have "unused sid ss'" using reserve_loop_fresh [OF l r False] by (force simp: unused_def with_reserved_def)
    then show ?thesis using go ok run False by simp
  qed
qed

section \<open>Memory\<close>

lemma wb_ok_free: "wb_ok mem wb \<Longrightarrow> wb_buffer wb \<noteq> b \<Longrightarrow> wb_ok (mem(b := None)) wb"
  by (simp add: wb_ok_def)

lemma request_ok_free: "request_ok mem r \<Longrightarrow> b \<notin> set (request_bufs r) \<Longrightarrow> request_ok (mem(b := None)) r"
  by (cases r) simp_all

lemma server_free:
  assumes s: "server_ok K N R X ss" and b: "b \<notin> owned ss"
  shows "server_ok K N R X (ss\<lparr>ss_mem := (ss_mem ss)(b := None)\<rparr>)"
proof -
  let ?own = "\<lambda>j. wbs (ss_slot ss j)"
  have m: "mem_inv ?own ss" using s by (simp add: server_ok_def base_def)
  have "wb_ok ((ss_mem ss)(b := None)) x" if "x \<in> set (?own j)" for x j
    using that b by (intro wb_ok_free mem_inv_wb [OF m, where i = j]) (auto simp: owned_def)
  moreover have "request_ok ((ss_mem ss)(b := None)) r" if "r \<in> set (ss_pipe ss)" for r
    using that b m by (intro request_ok_free) (auto simp: owned_def piped_def mem_inv_def)
  ultimately have "mem_inv ?own (ss\<lparr>ss_mem := (ss_mem ss)(b := None)\<rparr>)" using m unfolding mem_inv_def by simp
  then show ?thesis using s by (simp add: server_ok_def base_def ctl_inv_def ev_inv_def)
qed

lemma server_malloc: "sound (server_ok K N R X) (so_malloc b) (\<lambda>_. server_ok K N R X)"
proof (rule tripleI)
  fix ss assume s: "server_ok K N R X ss"
  from triple_run [OF at_malloc server_at [OF s, of 0], of b] server_slot_ok [OF s, of 0]
  show "case so_malloc b ss of Inl e \<Rightarrow> e \<in> {} | Inr (x, ss') \<Rightarrow> server_ok K N R X ss'"
    by (auto split: sum.splits elim: at_server)
qed

section \<open>Calls\<close>

text \<open>
  What happens to the server: a round of the socket thread, a call of a service, or a service that takes or
  gives back memory of its own. The names are those of the functions behind \<open>socket_server_\<close>.
\<close>

datatype call =
    Call_poll
  | Call_connect u64 bytes int
  | Call_listen u64 bytes int int
  | Call_bind u64 int
  | Call_udp u64 "bytes option" int
  | Call_send u32 nat int
  | Call_send_lowpriority u32 nat int
  | Call_udp_send u32 bytes nat int
  | Call_udp_connect u32 bytes int
  | Call_close u64 u32
  | Call_shutdown u64 u32
  | Call_start u64 u32
  | Call_nodelay u32
  | Call_exit
  | Call_malloc bytes
  | Call_free nat

definition run_call :: "kernel \<Rightarrow> call \<Rightarrow> unit sop" where
  "run_call K c =
     (case c of
        Call_poll \<Rightarrow> seq (poll_round K True) (ret ())
      | Call_connect opaque addr port \<Rightarrow> seq (socket_server_connect opaque addr port) (ret ())
      | Call_listen opaque addr port backlog \<Rightarrow> seq (socket_server_listen K opaque addr port backlog) (ret ())
      | Call_bind opaque fd \<Rightarrow> seq (socket_server_bind opaque fd) (ret ())
      | Call_udp opaque addr port \<Rightarrow> seq (socket_server_udp K opaque addr port) (ret ())
      | Call_send sid b sz \<Rightarrow> seq (socket_server_send sid b sz) (ret ())
      | Call_send_lowpriority sid b sz \<Rightarrow> socket_server_send_lowpriority sid b sz
      | Call_udp_send sid addr b sz \<Rightarrow> seq (socket_server_udp_send sid addr b sz) (ret ())
      | Call_udp_connect sid addr port \<Rightarrow> seq (socket_server_udp_connect K sid addr port) (ret ())
      | Call_close opaque sid \<Rightarrow> socket_server_close opaque sid
      | Call_shutdown opaque sid \<Rightarrow> socket_server_shutdown opaque sid
      | Call_start opaque sid \<Rightarrow> socket_server_start opaque sid
      | Call_nodelay sid \<Rightarrow> socket_server_nodelay sid
      | Call_exit \<Rightarrow> socket_server_exit
      | Call_malloc b \<Rightarrow> seq (so_malloc b) (ret ())
      | Call_free b \<Rightarrow> so_free b)"

text \<open>
  What the callers keep to: a buffer that is given away holds the bytes announced and is not given away
  already, memory is not freed that was given away, and an id was given out before it is used.
\<close>

definition may_give :: "socket_server \<Rightarrow> nat \<Rightarrow> int \<Rightarrow> bool" where
  "may_give ss b sz = (0 \<le> sz \<and> b \<notin> owned ss \<and> (\<exists>bs. ss_mem ss b = Some bs \<and> nat sz \<le> length bs))"

definition given_out :: "socket_server \<Rightarrow> u32 \<Rightarrow> bool" where
  "given_out ss sid = (unat sid \<le> unat (ss_alloc_id ss))"

definition allowed :: "socket_server \<Rightarrow> call \<Rightarrow> bool" where
  "allowed ss c =
     (case c of
        Call_send sid b sz \<Rightarrow> may_give ss b sz
      | Call_send_lowpriority sid b sz \<Rightarrow> may_give ss b sz
      | Call_udp_send sid addr b sz \<Rightarrow> may_give ss b sz
      | Call_udp_connect sid addr port \<Rightarrow> given_out ss sid
      | Call_close opaque sid \<Rightarrow> given_out ss sid
      | Call_shutdown opaque sid \<Rightarrow> given_out ss sid
      | Call_start opaque sid \<Rightarrow> given_out ss sid
      | Call_nodelay sid \<Rightarrow> given_out ss sid
      | Call_free b \<Rightarrow> ss_mem ss b \<noteq> None \<and> b \<notin> owned ss
      | _ \<Rightarrow> True)"

inductive server_reachable :: "kernel \<Rightarrow> socket_server \<Rightarrow> bool" for K where
  start: "server_reachable K socket_server_create"
| step: "server_reachable K ss \<Longrightarrow> ids_left ss \<Longrightarrow> allowed ss c \<Longrightarrow> run_call K c ss = Inr ((), ss') \<Longrightarrow> server_reachable K ss'"

text \<open>An operation returns, in a state with the invariant.\<close>

definition fine :: "kernel \<Rightarrow> ('a \<times> socket_server) res \<Rightarrow> bool" where
  "fine K r = (case r of Inl e \<Rightarrow> False | Inr (x, ss) \<Rightarrow> server_ok K {} [] {} ss)"

lemma fine_sound: "sound P m (\<lambda>_. server_ok K {} [] {}) \<Longrightarrow> P ss \<Longrightarrow> fine K (m ss)"
  by (auto simp: fine_def triple_def split: sum.splits)

lemma fine_ret [simp]: "fine K (ret x ss) = server_ok K {} [] {} ss"
  by (simp add: fine_def ret_def)

lemma fine_seq: "fine K (m ss) \<Longrightarrow> fine K (seq m (ret x) ss)"
  by (auto simp: fine_def seq_def bind_o_def bind_r_def ret_def split: sum.splits)

lemma fine_push: "server_ok K {} [] {} (ss\<lparr>ss_pipe := ss_pipe ss @ [r]\<rparr>) \<Longrightarrow> fine K (send_request r ss)"
  by (simp add: send_request_def modify_def fine_def)

lemma fine_push_ret: "server_ok K {} [] {} (ss\<lparr>ss_pipe := ss_pipe ss @ [r]\<rparr>) \<Longrightarrow> fine K (seq (send_request r) (ret x) ss)"
  by (rule fine_seq) (rule fine_push)

lemma fine_free:
  assumes "server_ok K {} [] {} ss" "may_give ss b sz"
  shows "fine K (seq (free_buffer b sz) (ret x) ss)"
  using assms server_free [OF assms(1)]
  by (auto simp: may_give_def free_buffer_def plain_object free_object_def so_free_def fine_def seq_def bind_o_def bind_r_def ret_def)

lemma fine_checked:
  assumes s: "server_ok K {} [] {} ss" and b: "may_give ss b sz"
    and r: "request_ok (ss_mem ss) r" "request_bufs r = [b]" "\<not> opener r" "target r = sid"
  shows "fine K (send_checked sid b sz r ss)"
proof (cases "sk_id (ss_slot ss (HASH_ID sid)) \<noteq> sid \<or> slot_type ss sid = SOCKET_TYPE_INVALID")
  case True
  then show ?thesis
    using fine_free [OF s b] by (auto simp: send_checked_def get_slot_def bind_gets)
next
  case False
  have "unat sid \<le> unat (ss_alloc_id ss)" using server_ctl [OF s] False unfolding ctl_inv_def by metis
  then have "server_ok K {} [] {} (ss\<lparr>ss_pipe := ss_pipe ss @ [r]\<rparr>)"
    using b r by (intro push_plain s) (simp_all add: may_give_def)
  from fine_push_ret [OF this] show ?thesis using False by (simp add: send_checked_def get_slot_def bind_gets)
qed

section \<open>Every call keeps the invariant\<close>

lemma create_ok: "server_ok K {} [] {} socket_server_create"
  by (simp add: socket_server_create_def server_ok_def base_def mem_inv_def ctl_inv_def ev_inv_def empty_socket_def wbs_def
      openers_def piped_def watched_fd_def registered_type_def slot_ok_def watch_def List.map_filter_def)

definition ready :: "kernel \<Rightarrow> socket_server \<Rightarrow> bool" where
  "ready K ss = (server_ok K {} [] {} ss \<and> ids_left ss)"

lemma ready_sys: "quiet c \<Longrightarrow> sound (ready K) (sys c) (\<lambda>_. ready K)"
  by (rule tripleI) (simp add: ready_def sys_def server_calls watch_quiet ids_left_def)

lemma ready_sys_do: "quiet c \<Longrightarrow> sound (ready K) (sys_do c) (\<lambda>_. ready K)"
  unfolding sys_do_def by (rule triple_seq' [OF ready_sys triple_ret_same])

lemma ready_bind:
  assumes "kernel_ok K"
  shows "sound (ready K) (do_bind K host port) (\<lambda>_. ready K)"
proof -
  have none: "sound (ready K) (seq (sys_do (Sys_close fd)) (ret None)) (\<lambda>_. ready K)" for fd
    by (rule triple_seq' [OF ready_sys_do triple_ret_same]) simp
  have made: "sound (ready K) (case r of Inl _ \<Rightarrow> ret None
       | Inr fd \<Rightarrow> bind_o (sys (Sys_reuseaddr fd)) (\<lambda>h.
           if \<not> k_reuseaddr K h then seq (sys_do (Sys_close fd)) (ret None)
           else bind_o (sys (Sys_bind fd ai)) (\<lambda>h.
             if \<not> k_bind K h then seq (sys_do (Sys_close fd)) (ret None) else ret (Some (fd, sa_family ai))))) (\<lambda>_. ready K)"
    for r :: "errno + int" and ai
    by (cases r; simp only: sum.case; intro triple_bind [OF ready_sys] triple_if none triple_ret; simp)
  have found: "sound (ready K) (case r of Inl _ \<Rightarrow> ret None | Inr [] \<Rightarrow> throw Out_of_bounds
       | Inr (ai # _) \<Rightarrow> bind_o (sys (Sys_socket (sa_family ai))) (\<lambda>h. case k_socket K h of Inl _ \<Rightarrow> ret None
         | Inr fd \<Rightarrow> bind_o (sys (Sys_reuseaddr fd)) (\<lambda>h.
             if \<not> k_reuseaddr K h then seq (sys_do (Sys_close fd)) (ret None)
             else bind_o (sys (Sys_bind fd ai)) (\<lambda>h.
               if \<not> k_bind K h then seq (sys_do (Sys_close fd)) (ret None) else ret (Some (fd, sa_family ai)))))) (\<lambda>_. ready K)"
    if "r \<noteq> Inr []" for r :: "bytes + sockaddr list"
    using that by (cases r rule: sum.exhaust; cases "projr r") (auto intro!: triple_ret triple_bind [OF ready_sys made])
  show ?thesis
    unfolding do_bind_def by (rule triple_bind [OF ready_sys]) (simp, rule found, rule kernel_ok_addrinfo [OF assms])
qed

lemma ready_listen:
  assumes "kernel_ok K"
  shows "sound (ready K) (do_listen K host port backlog) (\<lambda>_. ready K)"
proof -
  have "sound (ready K) (case r of None \<Rightarrow> ret None | Some (fd, _) \<Rightarrow> bind_o (sys (Sys_listen fd backlog)) (\<lambda>h.
      if \<not> k_listen K h then seq (sys_do (Sys_close fd)) (ret None) else ret (Some fd))) (\<lambda>_. ready K)" for r :: "(int \<times> family) option"
    by (cases r) (auto intro!: triple_ret triple_bind [OF ready_sys] triple_seq' [OF ready_sys_do])
  then show ?thesis unfolding do_listen_def by (rule triple_bind [OF ready_bind [OF assms]])
qed

lemma ready_fine: "sound (ready K) m (\<lambda>_. ready K) \<Longrightarrow> (\<And>x ss'. ready K ss' \<Longrightarrow> fine K (k x ss')) \<Longrightarrow> ready K ss \<Longrightarrow> fine K (bind_o m k ss)"
  unfolding triple_def bind_o_def by (fastforce simp: bind_r_def split: sum.splits)

lemma fine_opener:
  assumes "server_ok K {} [sid] {} ss" "unused sid ss" "target r = sid" "opener r" "request_bufs r = []" "request_ok (ss_mem ss) r"
  shows "fine K (seq (send_request r) (ret x) ss)"
  using push_opener [of K "{}" r "[]" "{}" ss] assms by (intro fine_push_ret) simp

lemma fine_reserve:
  assumes "ready K ss" "\<And>sid ss'. server_ok K {} [] {} ss' \<Longrightarrow> fine K (f sid ss')"
    "\<And>sid. target (r sid) = sid" "\<And>sid. opener (r sid)" "\<And>sid. request_bufs (r sid) = []" "\<And>sid mem. request_ok mem (r sid)"
  shows "fine K (bind_o reserve_id (\<lambda>sid. if sint sid < 0 then f sid else seq (send_request (r sid)) (ret sid)) ss)"
proof (rule reserve_then)
  show "server_ok K {} [] {} ss" "ids_left ss" using assms(1) by (simp_all add: ready_def)
qed (auto intro!: fine_opener assms(2-))

lemma fine_close: "server_ok K {} [] {} ss \<Longrightarrow> fine K (seq (sys_do (Sys_close fd)) (ret x) ss)"
  by (rule fine_seq) (rule fine_sound [OF server_sys_do], simp)

lemma connect_fine: "ready K ss \<Longrightarrow> fine K (socket_server_connect opaque addr port ss)"
  unfolding socket_server_connect_def using fine_reserve [where f = "\<lambda>_. ret (- 1)"] by (simp add: ready_def)

lemma bind_fine: "ready K ss \<Longrightarrow> fine K (socket_server_bind opaque fd ss)"
  unfolding socket_server_bind_def using fine_reserve [where f = "\<lambda>_. ret (- 1)"] by (simp add: ready_def)

lemma listen_fine:
  assumes "kernel_ok K" "ready K ss"
  shows "fine K (socket_server_listen K opaque addr port backlog ss)"
  unfolding socket_server_listen_def
proof (rule ready_fine [OF ready_listen [OF assms(1)] _ assms(2)])
  fix r ss' assume "ready K ss'"
  then show "fine K ((case r of None \<Rightarrow> ret (- 1) | Some fd \<Rightarrow> bind_o reserve_id (\<lambda>sid.
      if sint sid < 0 then seq (sys_do (Sys_close fd)) (ret sid)
      else seq (send_request (Listen_socket sid fd opaque)) (ret sid))) ss')"
    using fine_reserve [where f = "\<lambda>sid. seq (sys_do (Sys_close fd)) (ret sid)" and r = "\<lambda>sid. Listen_socket sid fd opaque" for fd]
    by (cases r) (simp_all add: ready_def fine_close)
qed

lemma udp_fine:
  assumes "kernel_ok K" "ready K ss"
  shows "fine K (socket_server_udp K opaque addr port ss)"
  unfolding socket_server_udp_def
proof (rule ready_fine [OF _ _ assms(2)])
  have "sound (ready K) (case r of Inl _ \<Rightarrow> ret None | Inr fd \<Rightarrow> ret (Some (fd, AF_INET))) (\<lambda>_. ready K)" for r :: "errno + int"
    by (cases r) (auto intro: triple_ret)
  then show "sound (ready K) (if port \<noteq> 0 \<or> addr \<noteq> None then do_bind K (case addr of None \<Rightarrow> [] | Some a \<Rightarrow> a) port
             else bind_o (sys (Sys_socket AF_INET)) (\<lambda>h.
                    case k_socket K h of Inl _ \<Rightarrow> ret None | Inr fd \<Rightarrow> ret (Some (fd, AF_INET)))) (\<lambda>_. ready K)"
    by (intro triple_if ready_bind [OF assms(1)] triple_bind [OF ready_sys]) simp
next
  fix r ss' assume a: "ready K ss'"
  have "fine K (seq (sys_do (Sys_nonblocking fd)) (bind_o reserve_id (\<lambda>sid.
      if sint sid < 0 then seq (sys_do (Sys_close fd)) (ret (- 1))
      else seq (send_request (Create_udp sid fd (family_number family) opaque)) (ret sid))) ss')" for fd family
    unfolding seq_def [of "sys_do _"]
  proof (rule ready_fine [OF ready_sys_do _ a])
    fix ss'' assume "ready K ss''"
    then show "fine K (bind_o reserve_id (\<lambda>sid. if sint sid < 0 then bind_o (sys_do (Sys_close fd)) (\<lambda>_. ret (- 1))
      else seq (send_request (Create_udp sid fd (family_number family) opaque)) (ret sid)) ss'')"
      by (rule fine_reserve) (simp_all add: fine_close seq_def [symmetric])
  qed simp
  then show "fine K ((case r of None \<Rightarrow> ret (- 1) | Some (fd, family) \<Rightarrow> seq (sys_do (Sys_nonblocking fd)) (bind_o reserve_id (\<lambda>sid.
      if sint sid < 0 then seq (sys_do (Sys_close fd)) (ret (- 1))
      else seq (send_request (Create_udp sid fd (family_number family) opaque)) (ret sid)))) ss')"
    using a by (cases r) (auto simp: ready_def)
qed

lemma udp_send_fine:
  assumes s: "server_ok K {} [] {} ss" and b: "may_give ss b sz"
  shows "fine K (socket_server_udp_send sid addr b sz ss)"
proof (cases "udp_address_size addr")
  case None
  then show ?thesis by (simp add: socket_server_udp_send_def get_slot_def bind_gets fine_free [OF s b])
next
  case (Some n)
  have "socket_server_udp_send sid addr b sz = send_checked sid b sz (Send_udp sid b sz (udp_field (take n addr)))"
    unfolding socket_server_udp_send_def send_checked_def Some option.case by (rule refl)
  then show ?thesis using fine_checked [OF s b, of "Send_udp sid b sz (udp_field (take n addr))"] b by (simp add: may_give_def)
qed

lemma udp_connect_fine:
  assumes "kernel_ok K" "ready K ss" "given_out ss sid"
  shows "fine K (socket_server_udp_connect K sid addr port ss)"
proof -
  let ?h = "ss_calls ss @ [Sys_getaddrinfo addr port]"
  let ?ss = "ss\<lparr>ss_calls := ?h\<rparr>"
  have ok: "server_ok K {} [] {} ?ss" using assms(2) by (simp add: ready_def server_calls watch_quiet)
  have push: "server_ok K {} [] {} (?ss\<lparr>ss_pipe := ss_pipe ?ss @ [Set_udp sid (udp_field (gen_udp_address pr ai))]\<rparr>)"
    if "pr \<noteq> PROTOCOL_TCP" for pr ai
    by (rule push_plain [OF ok])
      (use assms(3) that in \<open>auto simp: given_out_def udp_field_def gen_udp_address_def protocol_byte_def split: protocol.splits\<close>)
  show ?thesis
  proof (cases "k_getaddrinfo K ?h")
    case (Inl e)
    then show ?thesis using ok by (simp add: socket_server_udp_connect_def bind_o_def sys_def bind_r_def)
  next
    case (Inr l)
    then obtain ai rest where l: "l = ai # rest" using kernel_ok_addrinfo [OF assms(1), of ?h] by (cases l) auto
    show ?thesis
      using ok Inr l
      by (cases "sa_family ai")
        (auto simp: socket_server_udp_connect_def bind_o_def [of "sys _"] sys_def bind_r_def intro!: fine_push_ret [OF push])
  qed
qed

lemma plain_fine:
  "ready K ss \<Longrightarrow> request_bufs r = [] \<Longrightarrow> \<not> opener r \<Longrightarrow> request_ok (ss_mem ss) r \<Longrightarrow> given_out ss (target r) \<Longrightarrow> fine K (send_request r ss)"
  by (rule fine_push, rule push_plain) (auto simp: ready_def given_out_def)

lemma run_call_fine:
  assumes K: "kernel_ok K" and s: "ready K ss" and a: "allowed ss c"
  shows "fine K (run_call K c ss)"
proof -
  have ok: "server_ok K {} [] {} ss" using s by (simp add: ready_def)
  have send: "fine K (send_checked sid b sz r ss)" if "may_give ss b sz" "r = Send_high sid b sz \<or> r = Send_low sid b sz" for sid b sz r
    using that by (intro fine_checked ok) (auto simp: may_give_def)
  show ?thesis
  proof (cases c)
    case Call_poll
    have "fine K (poll_round K True ss)" by (rule fine_sound [OF poll_round_ok [OF K]]) (use s in \<open>simp add: ready_def\<close>)
    then show ?thesis using fine_seq Call_poll by (simp add: run_call_def)
  next
    case (Call_malloc b)
    have "fine K (so_malloc b ss)" by (rule fine_sound [OF server_malloc ok])
    then show ?thesis using fine_seq Call_malloc by (simp add: run_call_def)
  next
    case (Call_free b)
    then show ?thesis using server_free [OF ok] a by (auto simp: run_call_def allowed_def so_free_def fine_def)
  qed (use s a in \<open>auto simp: run_call_def allowed_def socket_server_send_def socket_server_send_lowpriority_def socket_server_close_def
      socket_server_shutdown_def socket_server_start_def socket_server_nodelay_def socket_server_exit_def given_out_def
      intro!: fine_seq connect_fine bind_fine listen_fine udp_fine udp_send_fine udp_connect_fine send plain_fine K ok\<close>)
qed

lemma reachable_ok: "kernel_ok K \<Longrightarrow> server_reachable K ss \<Longrightarrow> server_ok K {} [] {} ss"
proof (rotate_tac, induction rule: server_reachable.induct)
  case start
  then show ?case by (simp add: create_ok)
next
  case (step ss c ss')
  then have "fine K (run_call K c ss)" by (intro run_call_fine) (simp_all add: ready_def)
  then show ?case using step by (simp add: fine_def)
qed

section \<open>A concrete network\<close>

text \<open>
  A kernel for the examples: every write takes up to two bytes, every connection succeeds, there is one host,
  nothing comes in, and one descriptor is watched.
\<close>

fun is_add :: "syscall \<Rightarrow> bool" where
  "is_add (Sys_add fd i) = True"
| "is_add c = False"

fun write_some :: "syscall \<Rightarrow> nat" where
  "write_some (Sys_write fd d) = min 2 (length d)"
| "write_some c = 0"

definition plain_kernel :: kernel where
  "plain_kernel =
     \<lparr>k_write = (\<lambda>h. Inr (write_some (last h))), k_sendto = (\<lambda>_. Inl EAGAIN), k_read = (\<lambda>_. Inl EAGAIN),
      k_recvfrom = (\<lambda>_. Inl EAGAIN), k_accept = (\<lambda>_. Inl EAGAIN),
      k_add = (\<lambda>h. if length (filter is_add h) = 1 then None else Some (Errno 17)), k_wait = (\<lambda>_. []), k_select = (\<lambda>_. True),
      k_socket_error = (\<lambda>_. None), k_getpeername = (\<lambda>_. None),
      k_getaddrinfo = (\<lambda>_. Inr [\<lparr>sa_family = AF_INET, sa_port = [0, 80], sa_addr = [127, 0, 0, 1]\<rparr>]), k_socket = (\<lambda>_. Inr 5),
      k_connect = (\<lambda>_. None), k_reuseaddr = (\<lambda>_. True), k_bind = (\<lambda>_. True), k_listen = (\<lambda>_. True), k_strerror = (\<lambda>_. []),
      k_ntop = (\<lambda>_. None)\<rparr>"

lemma watch_no_add: "filter is_add cs = [] \<Longrightarrow> watch_from K h Map.empty cs = Map.empty"
proof (induction cs arbitrary: h)
  case (Cons c cs)
  then have "watch_call K h c Map.empty = Map.empty" by (cases c) auto
  then show ?case using Cons by (auto split: if_splits)
qed simp

lemma plain_kernel_ok: "kernel_ok plain_kernel"
  unfolding kernel_ok_def
  by (intro conjI allI impI) (auto simp: plain_kernel_def watch_def watch_no_add List.map_filter_def split: if_splits)

lemma reserve_next:
  assumes "unat (ss_alloc_id ss) + 1 < 2 ^ 31" "slot_type ss (ss_alloc_id ss + 1) = SOCKET_TYPE_INVALID"
  shows "reserve_id ss = Inr (ss_alloc_id ss + 1, with_reserved (ss_alloc_id ss + 1) ss)"
proof -
  obtain n where n: "MAX_SOCKET = Suc n" by (rule that [of 65535]) (simp add: MAX_SOCKET_def)
  show ?thesis
    unfolding reserve_id_def n reserve_loop.simps using assms inc_alloc [OF assms(1)]
    by (simp add: bind_o_def bind_r_def get_slot_def gets_def seq_def upd_slot_def modify_def ret_def
        with_reserved_def reserved_as_def)
qed

text \<open>A server with one connection requested.\<close>

definition connecting_server :: socket_server where
  "connecting_server = (with_reserved 1 socket_server_create)\<lparr>ss_pipe := [Open_socket 1 80 7 (cstring ''host'')]\<rparr>"

lemma ids_left_create: "ids_left socket_server_create"
  by (simp add: ids_left_def socket_server_create_def MAX_SOCKET_def)

lemma connecting_reachable: "server_reachable plain_kernel connecting_server"
proof (rule server_reachable.step [OF server_reachable.start ids_left_create])
  show "allowed socket_server_create (Call_connect 7 (cstring ''host'') 80)" by (simp add: allowed_def)
  have "reserve_id socket_server_create = Inr (1, with_reserved 1 socket_server_create)"
    using reserve_next [of socket_server_create] by (simp add: socket_server_create_def empty_socket_def)
  then show "run_call plain_kernel (Call_connect 7 (cstring ''host'') 80) socket_server_create = Inr ((), connecting_server)"
    by (simp add: run_call_def socket_server_connect_def SIZEOF_REQUEST_OPEN_def cstring_def seq_def bind_o_def bind_r_def
        send_request_def modify_def ret_def connecting_server_def with_reserved_def socket_server_create_def)
qed

section \<open>Properties\<close>

text \<open>
  C3: In every state the server can reach, with any network that keeps to the documented behaviour of the
  kernel (\<open>kernel_ok\<close>), every round of the socket thread and every \<open>allowed\<close> call of a service returns: no
  assertion of the modelled operations fails, no freed or foreign memory is touched, no union member is read
  that was not written, and no loop runs for ever. A call is \<open>allowed\<close> when it gives away only memory the
  caller owns, sends no user object (a negative size) and names an id that was given out before; the ids
  must not be used up. Two groups of assertions lie below this model and have their own theorems in
  \<open>Socket_low\<close>: those on the tail pointers of the write lists and those on the bytes of the request pipe.
\<close>

theorem server_never_fails:
  assumes "kernel_ok K" "server_reachable K ss" "ids_left ss" "allowed ss c"
  shows "\<exists>ss'. run_call K c ss = Inr ((), ss')"
proof -
  have "fine K (run_call K c ss)"
    using assms reachable_ok [OF assms(1,2)] by (intro run_call_fine) (simp_all add: ready_def)
  then show ?thesis by (auto simp: fine_def split: sum.splits)
qed

theorem server_never_fails_witness:
  "\<exists>ss ss'. server_reachable plain_kernel ss \<and> ss_pipe ss \<noteq> [] \<and> run_call plain_kernel Call_poll ss = Inr ((), ss')"
proof -
  have "ids_left connecting_server" "allowed connecting_server Call_poll"
    by (simp_all add: ids_left_def connecting_server_def with_reserved_def MAX_SOCKET_def allowed_def)
  from server_never_fails [OF plain_kernel_ok connecting_reachable this] show ?thesis
    using connecting_reachable by (auto simp: connecting_server_def)
qed

text \<open>
  C13: In every reachable state no buffer is in two places: the buffers of the pending writes of a socket, of
  those of any other socket and of the requests in the pipe are all different. Each of them is still
  allocated, and the object of a pending write has all the bytes that are still to be sent.
\<close>

theorem server_buffers_owned_once:
  assumes "kernel_ok K" "server_reachable K ss" "i \<noteq> j"
  shows "distinct (map wb_buffer (wbs (ss_slot ss i)) @ map wb_buffer (wbs (ss_slot ss j)) @ piped (ss_pipe ss)) \<and>
    (\<forall>wb \<in> set (wbs (ss_slot ss i)). 0 \<le> wb_sz wb \<and>
       (\<exists>b. ss_mem ss (wb_buffer wb) = Some b \<and> snd (wb_ptr wb) + nat (wb_sz wb) \<le> length b)) \<and>
    (\<forall>b \<in> set (piped (ss_pipe ss)). ss_mem ss b \<noteq> None)"
proof -
  have m: "mem_inv (\<lambda>j. wbs (ss_slot ss j)) ss" using reachable_ok [OF assms(1,2)] by (simp add: server_ok_def base_def)
  have d: "wb_buffer ` set (wbs (ss_slot ss i)) \<inter> wb_buffer ` set (wbs (ss_slot ss j)) = {}"
    using m assms(3) unfolding mem_inv_def by blast
  have "ss_mem ss b \<noteq> None" if b: "b \<in> set (piped (ss_pipe ss))" for b
  proof -
    obtain r where r: "r \<in> set (ss_pipe ss)" "b \<in> set (request_bufs r)" using b by (auto simp: piped_def)
    then have "request_ok (ss_mem ss) r" using m unfolding mem_inv_def by blast
    then show ?thesis using r(2) by (cases r) auto
  qed
  moreover have "distinct (map wb_buffer (wbs (ss_slot ss i)) @ map wb_buffer (wbs (ss_slot ss j)) @ piped (ss_pipe ss))"
    using mem_inv_distinct [OF m, of i] mem_inv_distinct [OF m, of j] d by auto
  ultimately show ?thesis using mem_inv_wb [OF m] by (auto simp: wb_ok_def)
qed

text \<open>The server of the example, with a package for the new socket.\<close>

definition sending_server :: socket_server where
  "sending_server =
     connecting_server\<lparr>ss_mem := [0 \<mapsto> [1, 2, 3]], ss_next := 1, ss_pipe := ss_pipe connecting_server @ [Send_high 1 0 3]\<rparr>"

lemma sending_reachable: "server_reachable plain_kernel sending_server"
proof -
  let ?ss = "connecting_server\<lparr>ss_mem := [0 \<mapsto> [1, 2, 3]], ss_next := 1\<rparr>"
  have ids: "ids_left connecting_server" "ids_left ?ss"
    by (simp_all add: ids_left_def connecting_server_def with_reserved_def MAX_SOCKET_def)
  have "server_reachable plain_kernel ?ss"
    by (rule server_reachable.step [OF connecting_reachable ids(1), of "Call_malloc [1, 2, 3]"])
      (simp_all add: allowed_def run_call_def so_malloc_def seq_def bind_o_def bind_r_def ret_def connecting_server_def
        with_reserved_def socket_server_create_def)
  then show ?thesis
    by (rule server_reachable.step [OF _ ids(2), of _ "Call_send 1 0 3"])
      (auto simp: allowed_def may_give_def owned_def wbs_def piped_def run_call_def socket_server_send_def send_checked_def get_slot_def
        bind_gets seq_def bind_o_def bind_r_def ret_def send_request_def modify_def gets_def sending_server_def connecting_server_def
        with_reserved_def reserved_as_def socket_server_create_def empty_socket_def)
qed

theorem server_buffers_owned_once_witness:
  "\<exists>ss. server_reachable plain_kernel ss \<and> piped (ss_pipe ss) = [0] \<and> ss_mem ss 0 \<noteq> None"
proof -
  have p: "piped (ss_pipe sending_server) = [0]" by (simp add: sending_server_def connecting_server_def piped_def)
  then have "ss_mem sending_server 0 \<noteq> None"
    using server_buffers_owned_once [OF plain_kernel_ok sending_reachable, of 0 1] by simp
  then show ?thesis using sending_reachable p by blast
qed

text \<open>
  C37: The union \<open>p\<close> of a socket in use holds the member that its protocol reads: the size of the next read,
  at least \<open>MIN_READ_BUFFER\<close> and doubled from there, for TCP, and the address of the peer for UDP; its
  \<open>wb_size\<close> is the number of bytes that wait; and the kernel reports events exactly for the sockets in a
  state that handles them, under their slot.
\<close>

theorem socket_union_typed:
  assumes "kernel_ok K" "server_reachable K ss" "s = ss_slot ss i"
    "sk_type s \<noteq> SOCKET_TYPE_INVALID" "sk_type s \<noteq> SOCKET_TYPE_RESERVE"
  shows "(case sk_p s of
            Read_size n \<Rightarrow> sk_protocol s = PROTOCOL_TCP \<and> (\<exists>k. n = MIN_READ_BUFFER * 2 ^ k)
          | Udp_address a \<Rightarrow> sk_protocol s \<noteq> PROTOCOL_TCP) \<and>
    sk_wb_size s = sum_list (map wb_sz (sk_high s @ sk_low s)) \<and>
    (\<forall>fd. watch K (ss_calls ss) fd = Some i \<longleftrightarrow> fd = sk_fd s \<and>
       sk_type s \<in> {SOCKET_TYPE_LISTEN, SOCKET_TYPE_CONNECTING, SOCKET_TYPE_CONNECTED, SOCKET_TYPE_HALFCLOSE, SOCKET_TYPE_BIND})"
proof -
  have ok: "server_ok K {} [] {} ss" using reachable_ok [OF assms(1,2)] .
  have "slot_ok s" using server_slot_ok [OF ok] assms(3) by simp
  then have "param_ok s" "sk_wb_size s = total_sz (wbs s)" using assms(4,5) by (auto simp: slot_ok_def)
  moreover have "watch K (ss_calls ss) fd = Some i \<longleftrightarrow> watched_fd s = Some fd" for fd
    using ok assms(3) unfolding server_ok_def base_def ev_inv_def by blast
  ultimately show ?thesis
    by (auto simp: param_ok_def read_size_ok_def total_sz_def wbs_def watched_fd_def registered_type_def split: socket_param.splits)
qed

text \<open>Running the example: a round opens the socket.\<close>

lemmas socket_run = run_call_def poll_round_def poll_ctrl_def has_cmd_def ctrl_cmd_def ctrl_dispatch_def clear_closed_event_def
  act_defs bind_r_def sys_def sys_do_def get_slot_def upd_slot_def set_type_def Let_def

lemmas socket_example = plain_kernel_def connecting_server_def with_reserved_def reserved_as_def socket_server_create_def
  empty_socket_def open_socket_def new_fd_def check_wb_list_def ntop_data_def SOCKET_OPEN_def SOCKET_CLOSE_def SOCKET_ERROR_def

lemma HASH_ID_1: "HASH_ID 1 = 1"
  by (simp add: HASH_ID_def MAX_SOCKET_def)

definition open_server :: socket_server where
  "open_server = (case run_call plain_kernel Call_poll connecting_server of Inr (_, ss) \<Rightarrow> ss)"

lemma open_server:
  "run_call plain_kernel Call_poll connecting_server = Inr ((), open_server)" "ids_left open_server"
  "ss_slot open_server 1 = empty_socket\<lparr>sk_type := SOCKET_TYPE_CONNECTED, sk_id := 1, sk_fd := 5, sk_opaque := 7, sk_p := Read_size 64\<rparr>"
  unfolding open_server_def
  by (simp_all add: socket_run socket_example HASH_ID_1 ids_left_def MAX_SOCKET_def MIN_READ_BUFFER_def)

lemma open_reachable: "server_reachable plain_kernel open_server"
  by (rule server_reachable.step [OF connecting_reachable _ _ open_server(1)])
    (simp_all add: ids_left_def connecting_server_def with_reserved_def MAX_SOCKET_def allowed_def)

theorem socket_union_typed_witness:
  "watch plain_kernel (ss_calls open_server) 5 = Some 1 \<and> server_reachable plain_kernel open_server"
  using socket_union_typed [OF plain_kernel_ok open_reachable refl, of 1] open_server(3) open_reachable
  by (auto simp: empty_socket_def)

text \<open>
  C38: \<open>reserve_id\<close> gives out the next id whose slot is free, larger than every id given out before, and
  reserves the slot; it gives -1 only when all slots are taken, after it looked at every one.
\<close>

theorem reserve_id_finds_free_slot:
  assumes "ids_left ss"
  shows "\<exists>sid ss'. reserve_id ss = Inr (sid, ss') \<and>
    (if \<exists>i < MAX_SOCKET. sk_type (ss_slot ss i) = SOCKET_TYPE_INVALID
     then unat (ss_alloc_id ss) < unat sid \<and> unat sid \<le> unat (ss_alloc_id ss) + MAX_SOCKET \<and> 0 < sint sid \<and>
       sk_type (ss_slot ss (HASH_ID sid)) = SOCKET_TYPE_INVALID \<and>
       (\<forall>x. unat (ss_alloc_id ss) < unat x \<and> unat x < unat sid \<longrightarrow> sk_type (ss_slot ss (HASH_ID x)) \<noteq> SOCKET_TYPE_INVALID) \<and>
       ss_slot ss' = (ss_slot ss)(HASH_ID sid :=
         (ss_slot ss (HASH_ID sid))\<lparr>sk_type := SOCKET_TYPE_RESERVE, sk_id := sid, sk_fd := - 1\<rparr>)
     else sid = - 1 \<and> ss_slot ss' = ss_slot ss)"
proof -
  let ?a = "ss_alloc_id ss"
  have l: "unat ?a + MAX_SOCKET < 2 ^ 31" using assms by (simp add: ids_left_def)
  have pos: "0 < MAX_SOCKET" by (simp add: MAX_SOCKET_def)
  have u: "unat (?a + of_nat k) = unat ?a + k" if "k \<le> MAX_SOCKET" for k using that l by (intro word_add_small) simp
  have slot: "\<exists>k \<in> {1..MAX_SOCKET}. HASH_ID (?a + of_nat k) = i" if i: "i < MAX_SOCKET" for i
  proof -
    define r where "r = unat ?a mod MAX_SOCKET"
    define k where "k = (if r < i then i - r else i + MAX_SOCKET - r)"
    have m: "r < MAX_SOCKET" using pos by (simp add: r_def)
    then have k: "1 \<le> k" "k \<le> MAX_SOCKET" "r + k = i \<or> r + k = i + MAX_SOCKET" using i unfolding k_def by (auto split: if_splits)
    have "(unat ?a + k) mod MAX_SOCKET = (r + k) mod MAX_SOCKET" by (simp add: mod_add_left_eq r_def)
    also have "\<dots> = i" using i k(3) by auto
    finally show ?thesis using k u [OF k(2)] by (intro bexI [of _ k]) (simp_all add: HASH_ID_def)
  qed
  from reserve_loop_cases [OF l] show ?thesis
  proof (elim disjE bexE conjE)
    fix k assume k: "k \<in> {1..MAX_SOCKET}" "slot_type ss (?a + of_nat k) = SOCKET_TYPE_INVALID"
      "\<forall>j \<in> {1..<k}. slot_type ss (?a + of_nat j) \<noteq> SOCKET_TYPE_INVALID"
      "reserve_loop MAX_SOCKET ss = Inr (?a + of_nat k, with_reserved (?a + of_nat k) ss)"
    have h: "HASH_ID (?a + of_nat k) < MAX_SOCKET" using pos by (simp add: HASH_ID_def)
    have uk: "unat (?a + of_nat k) = unat ?a + k" using u k(1) by simp
    have "sk_type (ss_slot ss (HASH_ID x)) \<noteq> SOCKET_TYPE_INVALID" if x: "unat ?a < unat x" "unat x < unat (?a + of_nat k)" for x
    proof -
      let ?j = "unat x - unat ?a"
      have j: "?j \<in> {1..<k}" using x uk by auto
      then have "x = ?a + of_nat ?j" using x k(1) u [of ?j] by (intro unsigned_word_eqI [where ?'a = nat]) simp
      then show ?thesis using k(3) j by metis
    qed
    moreover have "sint (?a + of_nat k) = int (unat ?a + k)" using uk l k(1) by (subst sint_small) simp_all
    then have "0 < sint (?a + of_nat k)" using k(1) by (simp del: of_nat_add)
    moreover have "\<exists>i < MAX_SOCKET. sk_type (ss_slot ss i) = SOCKET_TYPE_INVALID" using h k(2) by blast
    ultimately show ?thesis
      using k(1,2) uk unfolding reserve_id_def k(4)
      by (intro exI [of _ "?a + of_nat k"] exI [of _ "with_reserved (?a + of_nat k) ss"]) (simp add: with_reserved_def reserved_as_def)
  next
    assume n: "\<forall>k \<in> {1..MAX_SOCKET}. slot_type ss (?a + of_nat k) \<noteq> SOCKET_TYPE_INVALID"
      "reserve_loop MAX_SOCKET ss = Inr (- 1, ss\<lparr>ss_alloc_id := ?a + of_nat MAX_SOCKET\<rparr>)"
    then have "\<not> (\<exists>i < MAX_SOCKET. sk_type (ss_slot ss i) = SOCKET_TYPE_INVALID)" using slot by metis
    then show ?thesis using n(2) by (simp add: reserve_id_def)
  qed
qed

theorem reserve_id_finds_free_slot_witness:
  "\<exists>sid ss'. reserve_id open_server = Inr (sid, ss') \<and> unat (ss_alloc_id open_server) < unat sid"
proof -
  have "sk_type (ss_slot open_server 2) = SOCKET_TYPE_INVALID"
    unfolding open_server_def by (simp add: socket_run socket_example HASH_ID_1)
  then have "\<exists>i < MAX_SOCKET. sk_type (ss_slot open_server i) = SOCKET_TYPE_INVALID"
    by (intro exI [of _ 2]) (simp add: MAX_SOCKET_def)
  then show ?thesis using reserve_id_finds_free_slot [OF open_server(2)] by auto
qed

text \<open>
  C39: An id must not be used before it was given out: closing the id 1 on a new server, before it is given
  to a connection, makes the socket thread abort on the assertion of \<open>force_close\<close>.
\<close>

theorem close_of_future_id_aborts:
  assumes "k_select K [Sys_select]"
  shows "seq (socket_server_close 7 1) (seq (socket_server_connect 7 (cstring ''host'') 80) (poll_round K True)) socket_server_create
    = Inl Assert_failed"
proof -
  have "reserve_id (socket_server_create\<lparr>ss_pipe := [Close_socket 1 False 7]\<rparr>) =
      Inr (1, with_reserved 1 (socket_server_create\<lparr>ss_pipe := [Close_socket 1 False 7]\<rparr>))"
    using reserve_next [of "socket_server_create\<lparr>ss_pipe := [Close_socket 1 False 7]\<rparr>"]
    by (simp add: socket_server_create_def empty_socket_def)
  then show ?thesis
    using assms
    by (simp add: socket_server_close_def socket_server_connect_def SIZEOF_REQUEST_OPEN_def cstring_def send_request_def socket_run
        socket_server_create_def empty_socket_def with_reserved_def reserved_as_def close_socket_def send_buffer_empty_def
        force_close_def HASH_ID_1)
qed

theorem close_of_future_id_aborts_witness:
  "seq (socket_server_close 7 1) (seq (socket_server_connect 7 (cstring ''host'') 80) (poll_round plain_kernel True)) socket_server_create
    = Inl Assert_failed"
  by (rule close_of_future_id_aborts) (simp add: plain_kernel_def)

end
