(* ===== verification/Socket_stream.thy ===== *)
theory Socket_stream
  imports Socket_safe
begin

text \<open>
  The byte stream of a connection: what \<open>send_socket\<close> and \<open>send_buffer\<close> do to a TCP socket refines a
  contract on the bytes sent and the packages that wait.
\<close>

section \<open>The contract of a connection\<close>

text \<open>
  What a TCP socket promises: the bytes handed to the kernel, the bytes that go out next, and the packages of
  low priority that have not been begun. Bytes of the high stream are sent in order; a package of low
  priority is begun when nothing else is left, and then it is part of the high stream, so that no other
  package comes into the middle of it.
\<close>

record stream =
  st_sent :: bytes
  st_high :: bytes
  st_low :: "bytes list"

inductive transmit :: "stream \<Rightarrow> stream \<Rightarrow> bool" where
  send: "transmit \<lparr>st_sent = out, st_high = x @ y, st_low = low\<rparr> \<lparr>st_sent = out @ x, st_high = y, st_low = low\<rparr>"
| begins: "transmit \<lparr>st_sent = out, st_high = [], st_low = d # low\<rparr> \<lparr>st_sent = out, st_high = d, st_low = low\<rparr>"

inductive_cases transmitE: "transmit s s'"

definition push :: "priority \<Rightarrow> bytes \<Rightarrow> stream \<Rightarrow> stream" where
  "push p d st = (case p of PRIORITY_HIGH \<Rightarrow> st\<lparr>st_high := st_high st @ d\<rparr> | PRIORITY_LOW \<Rightarrow> st\<lparr>st_low := st_low st @ [d]\<rparr>)"

text \<open>Nothing is lost, doubled or put in another order.\<close>

definition whole_stream :: "stream \<Rightarrow> bytes" where
  "whole_stream st = st_sent st @ st_high st @ concat (st_low st)"

lemma transmit_whole: "transmit s s' \<Longrightarrow> whole_stream s' = whole_stream s"
  by (induction rule: transmit.induct) (simp_all add: whole_stream_def)

lemma transmits_whole: "transmit\<^sup>*\<^sup>* s s' \<Longrightarrow> whole_stream s' = whole_stream s"
  by (induction rule: rtranclp_induct) (simp_all add: transmit_whole)

lemma transmits_send: "transmit\<^sup>*\<^sup>* \<lparr>st_sent = out, st_high = x @ y, st_low = low\<rparr> \<lparr>st_sent = out @ x, st_high = y, st_low = low\<rparr>"
  by (rule r_into_rtranclp) (rule transmit.send)

lemma transmits_begins: "transmit\<^sup>*\<^sup>* \<lparr>st_sent = out, st_high = [], st_low = d # low\<rparr> \<lparr>st_sent = out, st_high = d, st_low = low\<rparr>"
  by (rule r_into_rtranclp) (rule transmit.begins)

section \<open>The stream of a socket\<close>

fun taken_by :: "kernel \<Rightarrow> syscall list \<Rightarrow> syscall \<Rightarrow> int \<Rightarrow> bytes" where
  "taken_by K h (Sys_write fd d) x =
     (if fd = x then (case k_write K (h @ [Sys_write fd d]) of Inl _ \<Rightarrow> [] | Inr n \<Rightarrow> take n d) else [])"
| "taken_by K h c x = []"

fun sent_from :: "kernel \<Rightarrow> syscall list \<Rightarrow> syscall list \<Rightarrow> int \<Rightarrow> bytes" where
  "sent_from K h [] x = []"
| "sent_from K h (c # cs) x = taken_by K h c x @ sent_from K (h @ [c]) cs x"

text \<open>The bytes that the kernel took for a descriptor, over the whole history.\<close>

definition sent :: "kernel \<Rightarrow> syscall list \<Rightarrow> int \<Rightarrow> bytes" where
  "sent K = sent_from K []"

definition pending_bytes :: "(nat \<Rightarrow> bytes option) \<Rightarrow> write_buffer \<Rightarrow> bytes" where
  "pending_bytes mem wb = take (nat (wb_sz wb)) (drop (snd (wb_ptr wb)) (the (mem (fst (wb_ptr wb)))))"

definition stream_of :: "kernel \<Rightarrow> nat \<Rightarrow> socket_server \<Rightarrow> stream" where
  "stream_of K i ss =
     \<lparr>st_sent = sent K (ss_calls ss) (sk_fd (ss_slot ss i)),
      st_high = concat (map (pending_bytes (ss_mem ss)) (sk_high (ss_slot ss i))),
      st_low = map (pending_bytes (ss_mem ss)) (sk_low (ss_slot ss i))\<rparr>"

lemma sent_from_append: "sent_from K h (cs @ cs') x = sent_from K h cs x @ sent_from K (h @ cs) cs' x"
  by (induction cs arbitrary: h) simp_all

lemma sent_snoc: "sent K (h @ [c]) x = sent K h x @ taken_by K h c x"
  by (simp add: sent_def sent_from_append)

lemma sent_retried:
  assumes "retried K (Sys_write fd d) h r h'"
  shows "sent K h' fd = sent K h fd @ (case r of Inl _ \<Rightarrow> [] | Inr n \<Rightarrow> take n d)"
proof -
  let ?c = "Sys_write fd d"
  obtain k where k: "h' = h @ replicate (Suc k) ?c" "\<forall>j < k. k_write K (h @ replicate (Suc j) ?c) = Inl EINTR" "k_write K h' = r"
    using assms unfolding retried_def by blast
  have "sent K (h @ replicate n ?c) fd = sent K h fd" if "n \<le> k" for n
    using that
  proof (induction n)
    case (Suc n)
    have "h @ replicate (Suc n) ?c = (h @ replicate n ?c) @ [?c]" by (simp add: replicate_append_same)
    moreover have "taken_by K (h @ replicate n ?c) ?c fd = []"
      using k(2) Suc.prems by (simp add: replicate_append_same Suc_le_eq)
    ultimately show ?case using Suc.IH Suc.prems by (metis Suc_leD append_Nil2 sent_snoc)
  qed simp
  moreover have "h' = (h @ replicate k ?c) @ [?c]" using k(1) by (simp add: replicate_append_same)
  moreover have "taken_by K (h @ replicate k ?c) ?c fd = (case r of Inl _ \<Rightarrow> [] | Inr n \<Rightarrow> take n d)"
    using k(1,3) by (simp add: replicate_append_same)
  ultimately show ?thesis by (metis order_refl sent_snoc)
qed

lemma sent_other: "(\<forall>fd d. c \<noteq> Sys_write fd d) \<Longrightarrow> sent K (h @ [c]) x = sent K h x"
  by (cases c) (simp_all add: sent_snoc)

text \<open>Part of a list of packages goes out; the flag says whether the first one that is left was begun.\<close>

inductive drain :: "bytes list \<Rightarrow> bytes \<Rightarrow> bytes list \<Rightarrow> bool \<Rightarrow> bool" where
  none: "drain l [] l False"
| part: "drain ((x @ y) # l) x (y # l) True"
| whole: "drain l x l' b \<Longrightarrow> drain (d # l) (d @ x) l' b"

lemma drain_concat: "drain l x l' b \<Longrightarrow> concat l = x @ concat l'"
  by (induction rule: drain.induct) simp_all

lemma drain_begun: "drain l x l' True \<Longrightarrow> l' \<noteq> []"
  by (induction l x l' True rule: drain.induct) simp_all

lemma drain_high:
  "drain l x l' b \<Longrightarrow> transmit\<^sup>*\<^sup>* \<lparr>st_sent = out, st_high = concat l, st_low = low\<rparr> \<lparr>st_sent = out @ x, st_high = concat l', st_low = low\<rparr>"
  using drain_concat [of l x l' b] transmits_send by simp

lemma drain_low:
  "drain l x l' b \<Longrightarrow> transmit\<^sup>*\<^sup>* \<lparr>st_sent = out, st_high = [], st_low = l\<rparr>
     \<lparr>st_sent = out @ x, st_high = (if b then hd l' else []), st_low = (if b then tl l' else l')\<rparr>"
proof (induction arbitrary: out rule: drain.induct)
  case (part x y l)
  show ?case using rtranclp_trans [OF transmits_begins transmits_send] by simp
next
  case (whole l x l' b d)
  have "transmit\<^sup>*\<^sup>* \<lparr>st_sent = out, st_high = [], st_low = d # l\<rparr> \<lparr>st_sent = out @ d, st_high = [], st_low = l\<rparr>"
    using rtranclp_trans [OF transmits_begins [of out d l] transmits_send [of out d "[]" l, unfolded append_Nil2]] .
  from rtranclp_trans [OF this whole.IH [of "out @ d"]] show ?case by simp
qed simp

section \<open>Sending refines the contract\<close>

lemma load_bytes: "wb_ok (ss_mem ss) wb \<Longrightarrow> so_load (wb_ptr wb) (wb_sz wb) ss = Inr (pending_bytes (ss_mem ss) wb, ss)"
  by (auto simp: wb_ok_def so_load_def mem_read_def pending_bytes_def)

lemma pending_length: "wb_ok mem wb \<Longrightarrow> length (pending_bytes mem wb) = nat (wb_sz wb)"
  by (auto simp: wb_ok_def pending_bytes_def)

lemma pending_advance: "int n \<le> wb_sz wb \<Longrightarrow> pending_bytes mem (advance n wb) = drop n (pending_bytes mem wb)"
  by (simp add: pending_bytes_def advance_def drop_take add.commute nat_diff_distrib)

lemma advance_0: "advance 0 wb = wb"
  by (simp add: advance_def)

text \<open>The writes of a socket, with their bytes.\<close>

definition holds :: "kernel \<Rightarrow> nat \<Rightarrow> priority \<Rightarrow> socket \<Rightarrow> bytes \<Rightarrow> bytes list \<Rightarrow> bytes list \<Rightarrow> socket_server \<Rightarrow> bool" where
  "holds K i p s out l l' ss =
     (ss_slot ss i = s \<and> sent K (ss_calls ss) (sk_fd s) = out \<and>
      (\<forall>wb \<in> set (wbs s). wb_ok (ss_mem ss) wb) \<and> distinct (map wb_buffer (wbs s)) \<and>
      map (pending_bytes (ss_mem ss)) (wb_list p s) = l \<and> map (pending_bytes (ss_mem ss)) (wb_list (other p) s) = l')"

abbreviation keeps_sent :: "kernel \<Rightarrow> int \<Rightarrow> bytes \<Rightarrow> 'a sop \<Rightarrow> bool" where
  "keeps_sent K fd out m \<equiv>
     triple UNIV (\<lambda>ss. sent K (ss_calls ss) fd = out) m (\<lambda>_ ss. sent K (ss_calls ss) fd = out)"

lemma sent_sys_do: "\<forall>fd d. c \<noteq> Sys_write fd d \<Longrightarrow> keeps_sent K fd out (sys_do c)"
  by (rule tripleI) (simp add: sys_do_def sys_def act_defs bind_r_def sent_other)

lemma sent_free: "keeps_sent K fd out (write_buffer_free wb)"
  by (rule tripleI) (auto simp: write_buffer_free_def free_object_def so_free_def act_defs bind_r_def split: option.splits)

lemma sent_free_list: "keeps_sent K fd out (free_wb_list l)"
  by (induction l) (auto intro: triple_ret triple_seq' [OF sent_free])

lemma sent_get: "keeps_sent K fd out (get_slot i)"
  unfolding get_slot_def by (rule triple_gets)

lemma sent_upd: "keeps_sent K fd out (upd_slot i f)"
  unfolding upd_slot_def by (rule triple_modify) simp

lemma sent_check: "keeps_sent K fd out (check b)"
  by (simp add: check_def triple_ret triple_throw)

lemma sent_force_close: "keeps_sent K fd out (force_close i)"
  unfolding force_close_def set_type_def Let_def
  by (rule triple_bind [OF sent_get], intro triple_if triple_ret triple_seq' [OF sent_check] triple_seq' [OF sent_free_list]
      triple_seq' [OF sent_upd] triple_seq' [where R = "\<lambda>ss. sent K (ss_calls ss) fd = out"] sent_sys_do) simp_all

lemma write_again_sent:
  assumes "write_again K fd d ss = Inr (r, ss')"
  shows "\<exists>h. ss' = ss\<lparr>ss_calls := h\<rparr> \<and> retried K (Sys_write fd d) (ss_calls ss) r h"
  using assms write_retry_spec [of K fd d ss r ss'] by (auto simp: write_again_def split: option.splits)

lemma holds_part:
  assumes h: "holds K i p s out bl ol ss" and l: "wb_list p s = tmp # rest" and n: "int n \<le> wb_sz tmp"
    and d: "d = pending_bytes (ss_mem ss) tmp" and calls: "sent K h (sk_fd s) = out @ take n d"
  shows "holds K i p ((set_wb_list p (advance n tmp # rest) s)\<lparr>sk_wb_size := m\<rparr>) (out @ take n d) (drop n d # tl bl) ol
    (ss\<lparr>ss_calls := h, ss_slot := (ss_slot ss)(i := (set_wb_list p (advance n tmp # rest) s)\<lparr>sk_wb_size := m\<rparr>)\<rparr>)"
proof -
  have w: "distinct (map wb_buffer (wbs s))" "\<forall>wb \<in> set (wbs s). wb_ok (ss_mem ss) wb" using h by (simp_all add: holds_def)
  let ?s = "set_wb_list p (advance n tmp # rest) s"
  have "mset (map wb_buffer (wbs ?s)) = mset (map wb_buffer (wbs s))" using l by (simp add: wbs_split [of _ p])
  then have "distinct (map wb_buffer (wbs ?s))" using w(1) mset_eq_imp_distinct_iff by blast
  moreover have "\<forall>wb \<in> set (wbs ?s). wb_ok (ss_mem ss) wb" using w(2) l n by (auto simp: set_wbs [of _ p] wb_ok_advance)
  ultimately show ?thesis using h l calls d n by (auto simp: holds_def pending_advance)
qed

lemma pending_free: "wb_ok mem wb \<Longrightarrow> wb_buffer wb \<noteq> b \<Longrightarrow> pending_bytes (mem(b := None)) wb = pending_bytes mem wb"
  by (simp add: pending_bytes_def wb_ok_def)

lemma holds_whole:
  assumes h: "holds K i p s out bl ol ss" and l: "wb_list p s = tmp # rest" and calls: "sent K h (sk_fd s) = out'"
  shows "holds K i p ((set_wb_list p rest s)\<lparr>sk_wb_size := m\<rparr>) out' (tl bl) ol
    (ss\<lparr>ss_calls := h, ss_slot := (ss_slot ss)(i := (set_wb_list p rest s)\<lparr>sk_wb_size := m\<rparr>),
       ss_mem := (ss_mem ss)(wb_buffer tmp := None)\<rparr>)"
proof -
  have w: "distinct (map wb_buffer (wbs s))" "\<forall>wb \<in> set (wbs s). wb_ok (ss_mem ss) wb" using h by (simp_all add: holds_def)
  let ?s = "set_wb_list p rest s"
  have "mset (map wb_buffer (tmp # wbs ?s)) = mset (map wb_buffer (wbs s))" using l by (simp add: wbs_split [of _ p])
  then have d: "distinct (map wb_buffer (tmp # wbs ?s))" using w(1) mset_eq_imp_distinct_iff by blast
  have sub: "set (wbs ?s) \<subseteq> set (wbs s)" using l by (auto simp: set_wbs [of _ p])
  have ne: "wb_buffer wb \<noteq> wb_buffer tmp" if "wb \<in> set (wbs ?s)" for wb using d that by (auto simp: image_iff)
  have ok: "wb_ok ((ss_mem ss)(wb_buffer tmp := None)) wb" if "wb \<in> set (wbs ?s)" for wb
    using that w(2) sub ne by (auto intro: wb_ok_free)
  have pend: "pending_bytes ((ss_mem ss)(wb_buffer tmp := None)) wb = pending_bytes (ss_mem ss) wb" if "wb \<in> set (wbs ?s)" for wb
    using that w(2) sub ne by (auto intro: pending_free)
  have "map (pending_bytes ((ss_mem ss)(wb_buffer tmp := None))) rest = map (pending_bytes (ss_mem ss)) rest"
    "map (pending_bytes ((ss_mem ss)(wb_buffer tmp := None))) (wb_list (other p) s) = map (pending_bytes (ss_mem ss)) (wb_list (other p) s)"
    using pend by (auto simp: set_wbs [of _ p])
  then show ?thesis using h l calls ok d by (auto simp: holds_def)
qed

text \<open>How a list of packages was sent: nothing is left out, and what is left is as it was but for the first one.\<close>

definition left_over :: "priority \<Rightarrow> socket \<Rightarrow> bool \<Rightarrow> socket \<Rightarrow> bool" where
  "left_over p s b s' =
     (frame_of s s' \<and> wb_list (other p) s' = wb_list (other p) s \<and> set (tl (wb_list p s')) \<subseteq> set (wb_list p s) \<and>
      (if b then list_uncomplete (wb_list p s') else set (wb_list p s') \<subseteq> set (wb_list p s)))"

lemma left_over_trans:
  assumes "left_over p s1 b s'" "frame_of s s1" "wb_list (other p) s1 = wb_list (other p) s" "set (wb_list p s1) \<subseteq> set (wb_list p s)"
  shows "left_over p s b s'"
proof -
  have "frame_of s s'" using assms(1,2) by (simp add: left_over_def frame_of_def)
  then show ?thesis using assms unfolding left_over_def by (cases b; simp; blast)
qed

text \<open>A write that failed for good, and a kernel that takes at least one byte whenever there is one.\<close>

definition write_failed :: "kernel \<Rightarrow> bool" where
  "write_failed K = (\<exists>h fd d e. k_write K (h @ [Sys_write fd d]) = Inl e \<and> e \<noteq> EINTR \<and> \<not> AGAIN_WOULDBLOCK e)"

definition eager :: "kernel \<Rightarrow> bool" where
  "eager K = (\<forall>h fd d. \<exists>n. k_write K (h @ [Sys_write fd d]) = Inr n \<and> (d \<noteq> [] \<longrightarrow> 0 < n))"

definition moved :: "kernel \<Rightarrow> bytes list \<Rightarrow> bytes \<Rightarrow> bytes list \<Rightarrow> bool" where
  "moved K l x m = (eager K \<longrightarrow> l \<noteq> [] \<longrightarrow> x \<noteq> [] \<or> length m < length l)"

lemma retried_last: "retried K c h r h' \<Longrightarrow> \<exists>h1. r = k_write K (h1 @ [c]) \<and> r \<noteq> Inl EINTR"
  unfolding retried_def by (metis replicate_Suc replicate_append_same append_assoc)

lemma drain_length: "drain l x m b \<Longrightarrow> length m \<le> length l"
  by (induction rule: drain.induct) simp_all

definition list_sent :: "kernel \<Rightarrow> nat \<Rightarrow> priority \<Rightarrow> socket \<Rightarrow> bytes \<Rightarrow> bytes list \<Rightarrow> bytes list \<Rightarrow> report \<Rightarrow> socket_server \<Rightarrow> bool" where
  "list_sent K i p s out l l' r ss =
     (\<exists>x m b. drain l x m b \<and> moved K l x m \<and> sent K (ss_calls ss) (sk_fd s) = out @ x \<and> (closed r \<longrightarrow> write_failed K) \<and>
        (\<not> closed r \<longrightarrow> r = None \<and>
          (\<exists>s'. holds K i p s' (out @ x) m l' ss \<and> left_over p s b s')))"

lemma frame_refl: "frame_of s s"
  by (simp add: frame_of_def)

lemma list_sent_now: "holds K i p s out l l' ss \<Longrightarrow> \<not> eager K \<or> l = [] \<Longrightarrow> list_sent K i p s out l l' None ss"
  unfolding list_sent_def
  by (rule exI [of _ "[]"], rule exI [of _ l], rule exI [of _ False])
    (auto simp: holds_def closed_def left_over_def frame_refl moved_def intro: drain.none dest: set_tl)

lemma list_sent_closed:
  assumes "holds K i p s out l l' ss" "write_failed K" "bind_o (force_close i) (\<lambda>result. ret (Some (SOCKET_CLOSE, result))) ss = Inr (r, ss')"
  shows "list_sent K i p s out l l' r ss'"
proof -
  obtain res ss1 where f: "force_close i ss = Inr (res, ss1)" "r = Some (SOCKET_CLOSE, res)" "ss' = ss1"
    using assms(3) by (auto simp: bind_o_def bind_r_def ret_def split: sum.splits)
  have "\<not> eager K" using assms(2) unfolding eager_def write_failed_def by (metis Inl_Inr_False)
  have "sent K (ss_calls ss') (sk_fd s) = out" using tripleD [OF sent_force_close _ f(1)] assms(1) f(3) by (simp add: holds_def)
  then show ?thesis
    unfolding list_sent_def using f(2) assms(2) \<open>\<not> eager K\<close>
    by (intro exI [of _ "[]"] exI [of _ l] exI [of _ False]) (simp add: closed_def drain.none moved_def)
qed

lemma list_sent_whole:
  assumes "list_sent K i p s1 (out @ d) l l' r ss" "frame_of s s1" "wb_list (other p) s1 = wb_list (other p) s"
    "set (wb_list p s1) \<subseteq> set (wb_list p s)"
  shows "list_sent K i p s out (d # l) l' r ss"
proof -
  obtain x m b where x: "drain l x m b" "sent K (ss_calls ss) (sk_fd s1) = (out @ d) @ x" "closed r \<longrightarrow> write_failed K"
    and c: "\<not> closed r \<longrightarrow> r = None \<and> (\<exists>s'. holds K i p s' ((out @ d) @ x) m l' ss \<and> left_over p s1 b s')"
    using assms(1) unfolding list_sent_def by blast
  have "sk_fd s1 = sk_fd s" using assms(2) by (simp add: frame_of_def)
  then have "sent K (ss_calls ss) (sk_fd s) = out @ d @ x" using x(2) by simp
  moreover have "drain (d # l) (d @ x) m b" using x(1) by (rule drain.whole)
  moreover have "\<not> closed r \<longrightarrow> r = None \<and> (\<exists>s'. holds K i p s' (out @ d @ x) m l' ss \<and> left_over p s b s')"
    using c left_over_trans [OF _ assms(2-4)] by auto
  moreover have "moved K (d # l) (d @ x) m" using drain_length [OF x(1)] by (simp add: moved_def)
  ultimately show ?thesis unfolding list_sent_def using x(3) by blast
qed

lemma bind_Inr: "m ss = Inr (x, ss') \<Longrightarrow> bind_o m k ss = k x ss'"
  by (simp add: bind_o_def bind_r_def)

lemma bind_get: "bind_o (get_slot i) k ss = k (ss_slot ss i) ss"
  by (simp add: get_slot_def bind_gets)

lemma send_tcp_sent:
  assumes K: "kernel_ok K"
  shows "holds K i p s out bl ol ss \<Longrightarrow> wb_list p s = l \<Longrightarrow> send_list_tcp K i p l ss = Inr (r, ss') \<Longrightarrow> list_sent K i p s out bl ol r ss'"
proof (induction l arbitrary: s out bl ss)
  case Nil
  then have "bl = []" by (auto simp: holds_def)
  then show ?case using list_sent_now [OF Nil.prems(1)] Nil.prems(3) by (simp add: ret_def)
next
  case (Cons tmp rest)
  have si: "ss_slot ss i = s" and wok: "wb_ok (ss_mem ss) tmp"
    using Cons.prems(1,2) by (auto simp: holds_def set_wbs [of _ p])
  define data where "data = pending_bytes (ss_mem ss) tmp"
  have len: "length data = nat (wb_sz tmp)" "0 \<le> wb_sz tmp"
    using pending_length [OF wok] wok by (simp_all add: data_def wb_ok_def)
  have bl: "bl = data # tl bl" using Cons.prems(1,2) by (auto simp: holds_def data_def)
  have fd: "out = sent K (ss_calls ss) (sk_fd s)" using Cons.prems(1) by (simp add: holds_def)
  let ?k = "\<lambda>r. case r of
         Inl e \<Rightarrow>
           if AGAIN_WOULDBLOCK e then ret None
           else bind_o (force_close i) (\<lambda>result. ret (Some (SOCKET_CLOSE, result)))
       | Inr n \<Rightarrow>
           seq (upd_slot i (\<lambda>s. s\<lparr>sk_wb_size := sk_wb_size s - int n\<rparr>))
               (if int n \<noteq> wb_sz tmp
                then seq (upd_slot i (set_wb_list p (advance n tmp # rest))) (ret None)
                else
                  seq (upd_slot i (set_wb_list p rest))
                 (seq (write_buffer_free tmp)
                      (send_list_tcp K i p rest)))"
  have run: "bind_o (write_again K (sk_fd s) data) ?k ss = Inr (r, ss')"
    using Cons.prems(3) unfolding send_list_tcp.simps bind_get si bind_Inr [where m = "so_load (wb_ptr tmp) (wb_sz tmp)", OF load_bytes [OF wok]] data_def .
  obtain wr ss1 where w: "write_again K (sk_fd s) data ss = Inr (wr, ss1)" "?k wr ss1 = Inr (r, ss')"
    using run by (auto simp: bind_o_def bind_r_def split: sum.splits)
  have sent_some: "\<exists>n. wr = Inr n \<and> (data \<noteq> [] \<longrightarrow> 0 < n)" if "eager K"
    using w(1) write_again_sent retried_last that unfolding eager_def by metis
  obtain h where h: "ss1 = ss\<lparr>ss_calls := h\<rparr>" "retried K (Sys_write (sk_fd s) data) (ss_calls ss) wr h"
    using write_again_sent [OF w(1)] by blast
  have sh: "sent K h (sk_fd s) = out @ (case wr of Inl _ \<Rightarrow> [] | Inr n \<Rightarrow> take n data)"
    using sent_retried [OF h(2)] fd by simp
  show ?case
  proof (cases wr)
    case (Inl e)
    have h1: "holds K i p s out bl ol ss1" using Cons.prems(1) sh Inl h(1) by (simp add: holds_def)
    show ?thesis
    proof (cases "AGAIN_WOULDBLOCK e")
      case True
      then show ?thesis using w(2) Inl list_sent_now [OF h1] sent_some by (auto simp: ret_def)
    next
      case False
      then have "write_failed K"
        using retried_last [OF h(2)] Inl unfolding write_failed_def by (metis Inl_inject)
      then show ?thesis using w(2) Inl False by (simp add: list_sent_closed [OF h1])
    qed
  next
    case (Inr n)
    have n: "n \<le> length data" "int n \<le> wb_sz tmp" using retried_le [OF K h(2) [unfolded Inr]] len by auto
    show ?thesis
    proof (cases "int n = wb_sz tmp")
      case False
      let ?s = "(set_wb_list p (advance n tmp # rest) s)\<lparr>sk_wb_size := sk_wb_size s - int n\<rparr>"
      have r: "r = None" "ss' = ss\<lparr>ss_calls := h, ss_slot := (ss_slot ss)(i := ?s)\<rparr>"
        using w(2) False si by (simp_all add: Inr h(1) seq_modify upd_slot_def ret_def)
      have hp: "holds K i p ?s (out @ take n data) (drop n data # tl bl) ol ss'"
        unfolding r(2) by (rule holds_part [OF Cons.prems(1,2) n(2) data_def]) (use sh Inr in simp)
      have fr: "frame_of s ?s" by (simp add: frame_of_def)
      have s: "sent K (ss_calls ss') (sk_fd s) = out @ take n data" using sh Inr r(2) by simp
      show ?thesis
      proof (cases "n = 0")
        case True
        then have "drop n data # tl bl = bl" using bl by simp
        moreover have "\<not> eager K" using sent_some Inr True False len \<open>int n \<noteq> wb_sz tmp\<close> by auto
        ultimately show ?thesis
          unfolding list_sent_def using hp fr s r(1) True Cons.prems(2)
          by (intro exI [of _ "[]"] exI [of _ bl] exI [of _ False]) (auto simp: drain.none advance_0 left_over_def closed_def moved_def)
      next
        case False
        have "snd (wb_ptr (advance n tmp)) \<noteq> 0" using False by (simp add: advance_def)
        then have u: "list_uncomplete (wb_list p ?s)" by (auto simp: list_uncomplete_def prod_eq_iff)
        have "drain bl (take n data) (drop n data # tl bl) True"
          by (subst bl, subst (1) append_take_drop_id [of n data, symmetric]) (rule drain.part)
        moreover have "moved K bl (take n data) (drop n data # tl bl)" using False n(1) by (auto simp: moved_def)
        ultimately show ?thesis
          unfolding list_sent_def using hp fr s r(1) u Cons.prems(2)
          by (intro exI [of _ "take n data"] exI [of _ "drop n data # tl bl"] exI [of _ True]) (auto simp: left_over_def closed_def)
      qed
    next
      case True
      let ?s = "(set_wb_list p rest s)\<lparr>sk_wb_size := sk_wb_size s - int n\<rparr>"
      let ?ss = "ss\<lparr>ss_calls := h, ss_slot := (ss_slot ss)(i := ?s), ss_mem := (ss_mem ss)(wb_buffer tmp := None)\<rparr>"
      have "n = length data" using True len by simp
      then have hw: "holds K i p ?s (out @ data) (tl bl) ol ?ss"
        using sh Inr by (intro holds_whole [OF Cons.prems(1,2)]) simp
      have "ss_mem ss (wb_buffer tmp) \<noteq> None" "\<not> wb_userobject tmp" using wok by (auto simp: wb_ok_def)
      then have "send_list_tcp K i p rest ?ss = Inr (r, ss')"
        using w(2) True si
        by (auto simp: Inr h(1) seq_modify upd_slot_def seq_def [of "so_free _"] bind_o_def write_buffer_free_def
            free_object_def so_free_def bind_r_def)
      from Cons.IH [OF hw _ this] have "list_sent K i p ?s (out @ data) (tl bl) ol r ss'" by simp
      then have "list_sent K i p s out (data # tl bl) ol r ss'"
        by (rule list_sent_whole) (use Cons.prems(2) in \<open>auto simp: frame_of_def\<close>)
      then show ?thesis using bl by simp
    qed
  qed
qed

text \<open>How much is left to do for a socket: the writes that wait, and their bytes.\<close>

definition load :: "nat \<Rightarrow> socket_server \<Rightarrow> nat" where
  "load i ss =
     (let l = map (pending_bytes (ss_mem ss)) (wbs (ss_slot ss i)) in length l + length (concat l))"

lemma holds_load: "holds K i p s out l l' ss \<Longrightarrow> load i ss = length l + length l' + length (concat l) + length (concat l')"
  by (cases p) (auto simp: holds_def load_def wbs_def Let_def)

lemma holds_stream_high: "holds K i PRIORITY_HIGH s out l l' ss \<Longrightarrow> stream_of K i ss = \<lparr>st_sent = out, st_high = concat l, st_low = l'\<rparr>"
  by (simp add: holds_def stream_of_def)

lemma holds_stream_low: "holds K i PRIORITY_LOW s out l l' ss \<Longrightarrow> stream_of K i ss = \<lparr>st_sent = out, st_high = concat l', st_low = l\<rparr>"
  by (simp add: holds_def stream_of_def)

lemma holds_swap: "holds K i PRIORITY_HIGH s out l l' ss \<longleftrightarrow> holds K i PRIORITY_LOW s out l' l ss"
  by (auto simp: holds_def)

text \<open>The outcome of sending what waits, from a stream and with a load.\<close>

definition flowed :: "kernel \<Rightarrow> nat \<Rightarrow> socket \<Rightarrow> stream \<Rightarrow> nat \<Rightarrow> report \<Rightarrow> socket_server \<Rightarrow> bool" where
  "flowed K i s st n r ss =
     (\<exists>st'. transmit\<^sup>*\<^sup>* st st' \<and> st_sent st' = sent K (ss_calls ss) (sk_fd s) \<and>
        (if closed r
         then write_failed K \<or> sk_type s = SOCKET_TYPE_HALFCLOSE \<and> st_high st' = [] \<and> st_low st' = []
         else r = None \<and> st' = stream_of K i ss \<and> frame_of s (ss_slot ss i) \<and> (eager K \<longrightarrow> load i ss < n)))"

lemma flowed_trans:
  assumes "transmit\<^sup>*\<^sup>* st st1" "flowed K i s1 st1 n1 r ss" "frame_of s s1" "n1 \<le> n"
  shows "flowed K i s st n r ss"
proof -
  obtain st' where st': "transmit\<^sup>*\<^sup>* st1 st'" "st_sent st' = sent K (ss_calls ss) (sk_fd s1)"
    "if closed r then write_failed K \<or> sk_type s1 = SOCKET_TYPE_HALFCLOSE \<and> st_high st' = [] \<and> st_low st' = []
     else r = None \<and> st' = stream_of K i ss \<and> frame_of s1 (ss_slot ss i) \<and> (eager K \<longrightarrow> load i ss < n1)"
    using assms(2) unfolding flowed_def by blast
  have "transmit\<^sup>*\<^sup>* st st'" using assms(1) st'(1) by simp
  moreover have "sk_fd s1 = sk_fd s" "sk_type s1 = sk_type s" "frame_of s1 x \<Longrightarrow> frame_of s x" for x
    using assms(3) by (simp_all add: frame_of_def)
  ultimately show ?thesis unfolding flowed_def using st'(2,3) assms(4) by (intro exI [of _ st']) auto
qed

lemma list_sent_cases:
  assumes "list_sent K i p s out l l' r ss"
  obtains (gone) x m b where "drain l x m b" "moved K l x m" "sent K (ss_calls ss) (sk_fd s) = out @ x" "closed r" "write_failed K"
  | (left) x m b s' where "drain l x m b" "moved K l x m" "r = None" "holds K i p s' (out @ x) m l' ss" "left_over p s b s'"
  using assms unfolding list_sent_def by blast

lemma moved_load:
  "drain l x m b \<Longrightarrow> moved K l x m \<Longrightarrow> l \<noteq> [] \<Longrightarrow> eager K \<Longrightarrow> length m + length (concat m) < length l + length (concat l)"
  using drain_length [of l x m b] drain_concat [of l x m b] by (cases x) (auto simp: moved_def)

lemma drain_load: "drain l x m b \<Longrightarrow> length m + length (concat m) \<le> length l + length (concat l)"
  using drain_length [of l x m b] drain_concat [of l x m b] by simp

lemma low_phase:
  assumes K: "kernel_ok K" and h: "holds K i PRIORITY_LOW s out l [] ss" and l: "sk_high s = []" "sk_low s \<noteq> []"
    and c: "\<forall>wb \<in> set (sk_low s). wb_ptr wb = (wb_buffer wb, 0)" and tcp: "sk_protocol s = PROTOCOL_TCP"
    and run: "bind_o (send_list K i PRIORITY_LOW) (\<lambda>r.
               if closed r then ret r
               else bind_o (get_slot i) (\<lambda>s. seq (if list_uncomplete (sk_low s) then raise_uncomplete i else ret ()) (ret None))) ss
             = Inr (r, ss')"
  shows "flowed K i s \<lparr>st_sent = out, st_high = [], st_low = l\<rparr> (length l + length (concat l)) r ss'"
proof -
  have si: "ss_slot ss i = s" using h by (simp add: holds_def)
  have ne: "l \<noteq> []" using h l(2) by (auto simp: holds_def)
  obtain r1 ss1 where r1: "send_list_tcp K i PRIORITY_LOW (sk_low s) ss = Inr (r1, ss1)"
    and rest: "(if closed r1 then ret r1
               else bind_o (get_slot i) (\<lambda>s. seq (if list_uncomplete (sk_low s) then raise_uncomplete i else ret ()) (ret None))) ss1
             = Inr (r, ss')"
    using run tcp si by (auto simp: send_list_def bind_o_def [of "bind_o _ _"] bind_get bind_r_def bind_o_def [of "send_list _ _ _"] split: sum.splits)
  have "list_sent K i PRIORITY_LOW s out l [] r1 ss1" by (rule send_tcp_sent [OF K h _ r1]) simp
  then show ?thesis
  proof (cases rule: list_sent_cases)
    case (gone x m b)
    then have "r = r1" "ss' = ss1" using rest by (simp_all add: ret_def)
    then show ?thesis
      unfolding flowed_def using gone drain_low [OF gone(1), of out]
      by (intro exI [of _ "\<lparr>st_sent = out @ x, st_high = (if b then hd m else []), st_low = (if b then tl m else m)\<rparr>"]) simp
  next
    case (left x m b s')
    have s': "ss_slot ss1 i = s'" "map (pending_bytes (ss_mem ss1)) (sk_low s') = m" using left(4) by (simp_all add: holds_def)
    have hi: "sk_high s' = []" and fr: "frame_of s s'" using left(5) l(1) by (simp_all add: left_over_def)
    have ld: "eager K \<longrightarrow> length m + length (concat m) < length l + length (concat l)"
      using moved_load [OF left(1,2) ne] by blast
    have cl: "\<not> closed None" by (simp add: closed_def)
    show ?thesis
    proof (cases b)
      case True
      then have u: "list_uncomplete (sk_low s')" using left(5) by (simp add: left_over_def)
      then obtain tmp rst where low: "sk_low s' = tmp # rst" by (auto simp: list_uncomplete_def split: list.splits)
      let ?s = "s'\<lparr>sk_low := rst, sk_high := [tmp]\<rparr>"
      have r: "r = None" "ss' = ss1\<lparr>ss_slot := (ss_slot ss1)(i := ?s)\<rparr>"
        using rest u low hi s'(1)
        by (simp_all add: left(3) cl raise_uncomplete_def get_slot_def upd_slot_def act_defs bind_r_def)
      have "stream_of K i ss' = \<lparr>st_sent = out @ x, st_high = hd m, st_low = tl m\<rparr>"
        using left(4) low by (auto simp: r(2) stream_of_def holds_def)
      moreover have "load i ss' = length m + length (concat m)"
        using left(4) low hi by (auto simp: r(2) load_def holds_def wbs_def Let_def)
      moreover have "frame_of s (ss_slot ss' i)" using fr by (simp add: r(2) frame_of_def)
      moreover have "st_sent (stream_of K i ss') = sent K (ss_calls ss') (sk_fd s)"
        using fr by (simp add: stream_of_def r(2) frame_of_def)
      ultimately show ?thesis
        unfolding flowed_def using drain_low [OF left(1), of out] True ld r(1) cl by (intro exI [of _ "stream_of K i ss'"]) simp
    next
      case False
      then have sub: "set (sk_low s') \<subseteq> set (sk_low s)" using left(5) by (simp add: left_over_def)
      then have u: "\<not> list_uncomplete (sk_low s')" using c by (cases "sk_low s'") (auto simp: list_uncomplete_def)
      then have r: "r = None" "ss' = ss1"
        using rest s'(1) by (simp_all add: left(3) cl bind_get seq_def ret_def)
      have "stream_of K i ss' = \<lparr>st_sent = out @ x, st_high = [], st_low = m\<rparr>"
        using holds_stream_low [OF left(4)] r(2) by simp
      moreover have "load i ss' = length m + length (concat m)" using holds_load [OF left(4)] r(2) by simp
      moreover have "st_sent (stream_of K i ss') = sent K (ss_calls ss') (sk_fd s)" "frame_of s (ss_slot ss' i)"
        using fr s'(1) by (simp_all add: stream_of_def r(2) frame_of_def)
      ultimately show ?thesis
        unfolding flowed_def using drain_low [OF left(1), of out] False ld r(1) cl by (intro exI [of _ "stream_of K i ss'"]) simp
    qed
  qed
qed

lemma seq_sys_do: "seq (sys_do c) k ss = k (ss\<lparr>ss_calls := ss_calls ss @ [c]\<rparr>)"
  by (simp add: sys_do_def sys_def act_defs bind_r_def)

lemma closed_None: "closed None = False"
  by (simp add: closed_def)

lemma idle_phase:
  assumes h: "holds K i PRIORITY_HIGH s out [] [] ss"
    and run: "seq (sys_do (Sys_poll_write (sk_fd s) False))
                 (if sk_type s = SOCKET_TYPE_HALFCLOSE
                  then bind_o (force_close i) (\<lambda>result. ret (Some (SOCKET_CLOSE, result)))
                  else ret None) ss = Inr (r, ss')"
  shows "flowed K i s \<lparr>st_sent = out, st_high = [], st_low = []\<rparr> 1 r ss'"
proof -
  let ?ss = "ss\<lparr>ss_calls := ss_calls ss @ [Sys_poll_write (sk_fd s) False]\<rparr>"
  have h1: "holds K i PRIORITY_HIGH s out [] [] ?ss" using h by (simp add: holds_def sent_other)
  have run1: "(if sk_type s = SOCKET_TYPE_HALFCLOSE then bind_o (force_close i) (\<lambda>result. ret (Some (SOCKET_CLOSE, result)))
      else ret None) ?ss = Inr (r, ss')"
    using run unfolding seq_sys_do .
  show ?thesis
  proof (cases "sk_type s = SOCKET_TYPE_HALFCLOSE")
    case True
    then obtain res where f: "force_close i ?ss = Inr (res, ss')" "r = Some (SOCKET_CLOSE, res)"
      using run1 by (auto simp: bind_o_def bind_r_def ret_def split: sum.splits)
    have "sent K (ss_calls ss') (sk_fd s) = out" using tripleD [OF sent_force_close _ f(1)] h1 by (simp add: holds_def)
    then show ?thesis
      unfolding flowed_def using True f(2) by (intro exI [of _ "\<lparr>st_sent = out, st_high = [], st_low = []\<rparr>"]) (simp add: closed_def)
  next
    case False
    then have r: "r = None" "ss' = ?ss" using run1 by (simp_all add: ret_def)
    have "ss_slot ?ss i = s" using h1 by (simp add: holds_def)
    then show ?thesis
      unfolding flowed_def r(2) using holds_stream_high [OF h1] holds_load [OF h1] r(1)
      by (intro exI [of _ "\<lparr>st_sent = out, st_high = [], st_low = []\<rparr>"]) (simp add: closed_def stream_of_def frame_refl)
  qed
qed

lemma send_buffer_flows:
  assumes K: "kernel_ok K" and h: "holds K i PRIORITY_HIGH s out l l' ss"
    and c: "\<forall>wb \<in> set (sk_low s). wb_ptr wb = (wb_buffer wb, 0)" and tcp: "sk_protocol s = PROTOCOL_TCP"
    and run: "send_buffer K i ss = Inr (r, ss')"
  shows "flowed K i s \<lparr>st_sent = out, st_high = concat l, st_low = l'\<rparr> (max 1 (load i ss)) r ss'"
proof -
  have si: "ss_slot ss i = s" using h by (simp add: holds_def)
  have lo: "\<not> list_uncomplete (sk_low s)" using c by (cases "sk_low s") (auto simp: list_uncomplete_def)
  let ?low = "bind_o (send_list K i PRIORITY_LOW) (\<lambda>r.
               if closed r then ret r
               else bind_o (get_slot i) (\<lambda>s. seq (if list_uncomplete (sk_low s) then raise_uncomplete i else ret ()) (ret None)))"
  let ?idle = "\<lambda>s. seq (sys_do (Sys_poll_write (sk_fd s) False))
                 (if sk_type s = SOCKET_TYPE_HALFCLOSE
                  then bind_o (force_close i) (\<lambda>result. ret (Some (SOCKET_CLOSE, result)))
                  else ret None)"
  obtain r1 ss1 where r1: "send_list_tcp K i PRIORITY_HIGH (sk_high s) ss = Inr (r1, ss1)"
    and rest: "(if closed r1 then ret r1
       else bind_o (get_slot i) (\<lambda>s. if sk_high s \<noteq> [] then ret None else if sk_low s \<noteq> [] then ?low else ?idle s)) ss1 = Inr (r, ss')"
    using run tcp si lo
    by (auto simp: send_buffer_def send_list_def bind_o_def [of "bind_o _ _"] bind_get bind_r_def check_True
        bind_o_def [of "send_list _ _ PRIORITY_HIGH"] split: sum.splits)
  have "list_sent K i PRIORITY_HIGH s out l l' r1 ss1" by (rule send_tcp_sent [OF K h _ r1]) simp
  then show ?thesis
  proof (cases rule: list_sent_cases)
    case (gone x m b)
    then have "r = r1" "ss' = ss1" using rest by (simp_all add: ret_def)
    then show ?thesis
      unfolding flowed_def using gone drain_high [OF gone(1), of out l']
      by (intro exI [of _ "\<lparr>st_sent = out @ x, st_high = concat m, st_low = l'\<rparr>"]) simp
  next
    case (left x m b s1)
    have s1: "ss_slot ss1 i = s1" using left(4) by (simp add: holds_def)
    have fr: "frame_of s s1" and lows: "sk_low s1 = sk_low s" using left(5) by (simp_all add: left_over_def)
    have m: "m = [] \<longleftrightarrow> sk_high s1 = []" "l' = [] \<longleftrightarrow> sk_low s1 = []" using left(4) by (auto simp: holds_def)
    have go: "(if sk_high s1 \<noteq> [] then ret None else if sk_low s1 \<noteq> [] then ?low else ?idle s1) ss1 = Inr (r, ss')"
      using rest unfolding left(3) closed_None if_False bind_get s1 .
    have tr: "transmit\<^sup>*\<^sup>* \<lparr>st_sent = out, st_high = concat l, st_low = l'\<rparr> \<lparr>st_sent = out @ x, st_high = concat m, st_low = l'\<rparr>"
      by (rule drain_high [OF left(1)])
    have ld: "load i ss = length l + length l' + length (concat l) + length (concat l')" by (rule holds_load [OF h])
    show ?thesis
    proof (cases "sk_high s1 = []")
      case False
      then have r: "r = None" "ss' = ss1" using go by (simp_all add: ret_def)
      have "l \<noteq> []" using drain_length [OF left(1)] m(1) False by auto
      then have "eager K \<longrightarrow> load i ss1 < load i ss"
        using moved_load [OF left(1,2)] holds_load [OF left(4)] ld by auto
      then show ?thesis
        unfolding flowed_def using tr r holds_stream_high [OF left(4)] s1 fr
        by (intro exI [of _ "\<lparr>st_sent = out @ x, st_high = concat m, st_low = l'\<rparr>"])
          (auto simp: closed_def stream_of_def frame_of_def)
    next
      case high: True
      then have m0: "m = []" using m(1) by simp
      show ?thesis
      proof (cases "sk_low s1 = []")
        case False
        have h2: "holds K i PRIORITY_LOW s1 (out @ x) l' [] ss1" using left(4) m0 holds_swap by simp
        have tcp1: "sk_protocol s1 = PROTOCOL_TCP" using fr tcp by (simp add: frame_of_def)
        have "flowed K i s1 \<lparr>st_sent = out @ x, st_high = [], st_low = l'\<rparr> (length l' + length (concat l')) r ss'"
          by (rule low_phase [OF K h2 high False _ tcp1]) (use c lows go high False in simp_all)
        then show ?thesis by (rule flowed_trans [rotated]) (use tr m0 fr ld in simp_all)
      next
        case True
        then have h2: "holds K i PRIORITY_HIGH s1 (out @ x) [] [] ss1" using left(4) m0 m(2) by simp
        have "flowed K i s1 \<lparr>st_sent = out @ x, st_high = [], st_low = []\<rparr> 1 r ss'"
          by (rule idle_phase [OF h2]) (use go high True in simp)
        then show ?thesis by (rule flowed_trans [rotated]) (use tr m0 m(2) True fr in simp_all)
      qed
    qed
  qed
qed

lemma server_holds:
  assumes "server_ok K N R X ss"
  shows "holds K i p (ss_slot ss i) (sent K (ss_calls ss) (sk_fd (ss_slot ss i)))
    (map (pending_bytes (ss_mem ss)) (wb_list p (ss_slot ss i))) (map (pending_bytes (ss_mem ss)) (wb_list (other p) (ss_slot ss i))) ss"
proof -
  have m: "mem_inv (\<lambda>j. wbs (ss_slot ss j)) ss" using assms by (simp add: server_ok_def base_def)
  then show ?thesis using mem_inv_wb [OF m, where i = i] mem_inv_distinct [OF m, of i] by (simp add: holds_def)
qed

lemma server_low_complete:
  assumes "server_ok K N R X ss"
  shows "\<forall>wb \<in> set (sk_low (ss_slot ss i)). wb_ptr wb = (wb_buffer wb, 0)"
  using server_slot_ok [OF assms, of i] by (auto simp: slot_ok_def wbs_def split: if_splits)

lemma server_send_buffer_flows:
  assumes "kernel_ok K" "server_ok K N R X ss" "sk_protocol (ss_slot ss i) = PROTOCOL_TCP" "send_buffer K i ss = Inr (r, ss')"
  shows "flowed K i (ss_slot ss i) (stream_of K i ss) (max 1 (load i ss)) r ss'"
  using send_buffer_flows [OF assms(1) server_holds [OF assms(2)] server_low_complete [OF assms(2)] assms(3,4)]
  by (simp add: stream_of_def)

section \<open>A package refines a push\<close>

definition open_type :: "socket_type \<Rightarrow> bool" where
  "open_type t = (t \<in> {SOCKET_TYPE_CONNECTING, SOCKET_TYPE_CONNECTED, SOCKET_TYPE_BIND})"

lemma push_empty_send:
  "transmit\<^sup>*\<^sup>* (push p (x @ y) \<lparr>st_sent = out, st_high = [], st_low = []\<rparr>) \<lparr>st_sent = out @ x, st_high = y, st_low = []\<rparr>"
proof (cases p)
  case PRIORITY_HIGH
  then show ?thesis using transmits_send [of out x y "[]"] by (simp add: push_def)
next
  case PRIORITY_LOW
  then show ?thesis
    using rtranclp_trans [OF transmits_begins transmits_send, of out x y "[]"] by (simp add: push_def)
qed

lemma append_run:
  assumes "0 \<le> sz" "ss_slot ss i = s"
  shows "bind_o (append_node i p b sz n a) (add_wb_size i) ss =
    Inr ((), ss\<lparr>ss_slot := (ss_slot ss)(i := appended p ((package b (sz - int n) a)\<lparr>wb_ptr := (b, n)\<rparr>) s)\<rparr>)"
  using assms
  by (simp add: append_node_def plain_object add_wb_size_def act_defs bind_r_def upd_slot_def Let_def package_def appended_def)

lemma appended_lists:
  "sk_high (appended PRIORITY_HIGH wb s) = sk_high s @ [wb]" "sk_low (appended PRIORITY_HIGH wb s) = sk_low s"
  "sk_high (appended PRIORITY_LOW wb s) = sk_high s" "sk_low (appended PRIORITY_LOW wb s) = sk_low s @ [wb]"
  by (simp_all add: appended_def set_wb_list_def)

lemma append_stream:
  assumes "ss_slot ss i = s" "ss_mem ss b = Some bs" "0 \<le> sz" "int n \<le> sz" "stream_of K i ss = st"
  shows "stream_of K i (ss\<lparr>ss_slot := (ss_slot ss)(i := appended p ((package b (sz - int n) a)\<lparr>wb_ptr := (b, n)\<rparr>) s)\<rparr>) =
    push p (drop n (take (nat sz) bs)) st"
proof -
  have "pending_bytes (ss_mem ss) ((package b (sz - int n) a)\<lparr>wb_ptr := (b, n)\<rparr>) = drop n (take (nat sz) bs)"
    using assms(2-4) by (simp add: pending_bytes_def package_def drop_take nat_diff_distrib)
  then show ?thesis
    using assms(1,5) by (cases p) (auto simp: stream_of_def push_def appended_lists)
qed

text \<open>The result of a send: the connection was closed after a failed write, or the stream went on.\<close>

definition pushed :: "kernel \<Rightarrow> nat \<Rightarrow> priority \<Rightarrow> bytes \<Rightarrow> stream \<Rightarrow> report \<Rightarrow> socket_server \<Rightarrow> bool" where
  "pushed K i p d st r ss =
     (if closed r then write_failed K else r = None \<and> transmit\<^sup>*\<^sup>* (push p d st) (stream_of K i ss))"

lemma stream_calls: "\<forall>fd d. c \<noteq> Sys_write fd d \<Longrightarrow> stream_of K i (ss\<lparr>ss_calls := ss_calls ss @ [c]\<rparr>) = stream_of K i ss"
  by (simp add: stream_of_def sent_other)

lemma send_direct:
  assumes K: "kernel_ok K" and s: "ss_slot ss i = s" "wbs s = []" and b: "ss_mem ss b = Some bs" "0 \<le> sz" "nat sz \<le> length bs"
    and run: "bind_o (sys (Sys_write (sk_fd s) (take (nat sz) bs))) (\<lambda>h.
                case (case k_write K h of Inl e \<Rightarrow> if e = EINTR \<or> AGAIN_WOULDBLOCK e then Some 0 else None | Inr n \<Rightarrow> Some n) of
                  None \<Rightarrow> bind_o (force_close i) (\<lambda>result. seq (free_object False b) (ret (Some (SOCKET_CLOSE, result))))
                | Some n \<Rightarrow>
                    if int n = sz then seq (free_object False b) (ret None)
                    else seq (append_sendbuffer i b sz n) (seq (sys_do (Sys_poll_write (sk_fd s) True)) (ret None))) ss = Inr (r, ss')"
  shows "pushed K i p (take (nat sz) bs) (stream_of K i ss) r ss'"
proof -
  let ?d = "take (nat sz) bs"
  let ?h = "ss_calls ss @ [Sys_write (sk_fd s) ?d]"
  let ?ss = "ss\<lparr>ss_calls := ?h\<rparr>"
  let ?out = "sent K (ss_calls ss) (sk_fd s)"
  have e: "sk_high s = []" "sk_low s = []" using s(2) by (simp_all add: wbs_def)
  have st: "stream_of K i ss = \<lparr>st_sent = ?out, st_high = [], st_low = []\<rparr>" using s(1) e by (simp add: stream_of_def)
  have len: "length ?d = nat sz" using b(3) by simp
  have after: "sent K ?h (sk_fd s) = ?out @ (case k_write K ?h of Inl _ \<Rightarrow> [] | Inr n \<Rightarrow> take n ?d)"
    unfolding sent_snoc by simp
  show ?thesis
  proof (cases "\<exists>e. k_write K ?h = Inl e \<and> e \<noteq> EINTR \<and> \<not> AGAIN_WOULDBLOCK e")
    case True
    then have "closed r" using run
      by (auto simp: bind_o_def [of "sys _"] sys_def bind_o_def [of "force_close _"] seq_def bind_o_def [of "free_object _ _"] bind_r_def
          ret_def closed_def split: sum.splits)
    then show ?thesis using True unfolding pushed_def write_failed_def by auto
  next
    case False
    define n where "n = (case k_write K ?h of Inl e \<Rightarrow> 0 | Inr n \<Rightarrow> n)"
    have w: "(case k_write K ?h of Inl e \<Rightarrow> if e = EINTR \<or> AGAIN_WOULDBLOCK e then Some 0 else None | Inr n \<Rightarrow> Some n) = Some n"
      using False by (auto simp: n_def split: sum.splits)
    have n: "int n \<le> sz" "sent K ?h (sk_fd s) = ?out @ take n ?d"
      using kernel_ok_write [OF K] len b(2) after by (fastforce simp: n_def split: sum.splits)+
    have run1: "(if int n = sz then seq (free_object False b) (ret None)
        else seq (append_sendbuffer i b sz n) (seq (sys_do (Sys_poll_write (sk_fd s) True)) (ret None))) ?ss = Inr (r, ss')"
      using run by (simp add: bind_o_def [of "sys _"] sys_def bind_r_def w)
    have tr: "transmit\<^sup>*\<^sup>* (push p ?d (stream_of K i ss)) \<lparr>st_sent = ?out @ take n ?d, st_high = drop n ?d, st_low = []\<rparr>"
      using push_empty_send [of p "take n ?d" "drop n ?d" ?out] unfolding st append_take_drop_id .
    show ?thesis
    proof (cases "int n = sz")
      case True
      then have r: "r = None" "ss' = ?ss\<lparr>ss_mem := (ss_mem ss)(b := None)\<rparr>"
        using run1 b(1) by (simp_all add: free_object_def so_free_def seq_def bind_o_def bind_r_def ret_def)
      have "stream_of K i ss' = \<lparr>st_sent = ?out @ take n ?d, st_high = drop n ?d, st_low = []\<rparr>"
        using s(1) e n(2) True by (simp add: r(2) stream_of_def)
      then show ?thesis using tr r(1) by (simp add: pushed_def closed_None)
    next
      case False
      let ?ss1 = "?ss\<lparr>ss_slot := (ss_slot ?ss)(i := appended PRIORITY_HIGH ((package b (sz - int n) [])\<lparr>wb_ptr := (b, n)\<rparr>) s)\<rparr>"
      have r: "r = None" "ss' = ?ss1\<lparr>ss_calls := ss_calls ?ss1 @ [Sys_poll_write (sk_fd s) True]\<rparr>"
        using run1 False append_run [OF b(2), of ?ss i s PRIORITY_HIGH b n "[]"] s(1)
        by (simp_all add: append_sendbuffer_def seq_def [of "bind_o _ _"] bind_Inr [where m = "bind_o _ _"] seq_sys_do ret_def)
      have "stream_of K i ?ss1 = push PRIORITY_HIGH (drop n ?d) \<lparr>st_sent = ?out @ take n ?d, st_high = [], st_low = []\<rparr>"
        by (rule append_stream) (use s(1) e b n in \<open>simp_all add: stream_of_def\<close>)
      then have "stream_of K i ss' = \<lparr>st_sent = ?out @ take n ?d, st_high = drop n ?d, st_low = []\<rparr>"
        unfolding r(2) by (subst stream_calls) (simp_all add: push_def)
      then show ?thesis using tr r(1) by (simp add: pushed_def closed_None)
    qed
  qed
qed

lemma send_socket_pushed:
  assumes K: "kernel_ok K" and s: "ss_slot ss (HASH_ID sid) = s" "sk_id s = sid" "sk_protocol s = PROTOCOL_TCP" "open_type (sk_type s)"
    and b: "ss_mem ss b = Some bs" "0 \<le> sz" "nat sz \<le> length bs"
    and run: "send_socket K sid b sz p None ss = Inr (r, ss')"
  shows "pushed K (HASH_ID sid) p (take (nat sz) bs) (stream_of K (HASH_ID sid) ss) r ss'"
proof -
  let ?i = "HASH_ID sid"
  have t: "sk_type s \<noteq> SOCKET_TYPE_INVALID" "sk_type s \<noteq> SOCKET_TYPE_HALFCLOSE" "sk_type s \<noteq> SOCKET_TYPE_PACCEPT"
    "sk_type s \<noteq> SOCKET_TYPE_PLISTEN" "sk_type s \<noteq> SOCKET_TYPE_LISTEN" using s(4) by (auto simp: open_type_def)
  have load: "so_load (b, 0) sz ss = Inr (take (nat sz) bs, ss)" using b by (simp add: so_load_def mem_read_def)
  show ?thesis
  proof (cases "send_buffer_empty s \<and> sk_type s = SOCKET_TYPE_CONNECTED")
    case True
    then have e: "wbs s = []" by (simp add: send_buffer_empty_wbs)
    have "bind_o (sys (Sys_write (sk_fd s) (take (nat sz) bs))) (\<lambda>h.
        case (case k_write K h of Inl e \<Rightarrow> if e = EINTR \<or> AGAIN_WOULDBLOCK e then Some 0 else None | Inr n \<Rightarrow> Some n) of
          None \<Rightarrow> bind_o (force_close ?i) (\<lambda>result. seq (free_object False b) (ret (Some (SOCKET_CLOSE, result))))
        | Some n \<Rightarrow>
            if int n = sz then seq (free_object False b) (ret None)
            else seq (append_sendbuffer ?i b sz n) (seq (sys_do (Sys_poll_write (sk_fd s) True)) (ret None))) ss = Inr (r, ss')"
      using run True s(2,3) t
      unfolding send_socket_def Let_def bind_get plain_object [OF b(2)] bind_ret s(1) send_object.simps
      by (simp add: bind_Inr [where m = "so_load (b, 0) sz", OF load])
    then show ?thesis by (rule send_direct [OF K s(1) e b])
  next
    case False
    let ?p = "if p = PRIORITY_LOW then PRIORITY_LOW else PRIORITY_HIGH"
    have p: "?p = p" by (cases p) simp_all
    have "seq (bind_o (append_node ?i ?p b sz 0 []) (add_wb_size ?i)) (ret None) ss = Inr (r, ss')"
      using run False s t
      by (auto simp: send_socket_def Let_def bind_get plain_object [OF b(2)] append_sendbuffer_def append_sendbuffer_low_def
          split: if_splits)
    then have r: "r = None" "ss' = ss\<lparr>ss_slot := (ss_slot ss)(?i := appended p ((package b (sz - int 0) [])\<lparr>wb_ptr := (b, 0)\<rparr>) s)\<rparr>"
      unfolding p using append_run [OF b(2) s(1), of p b 0 "[]"]
      by (simp_all add: seq_def bind_Inr [where m = "bind_o _ _"] ret_def)
    have "stream_of K ?i ss' = push p (drop 0 (take (nat sz) bs)) (stream_of K ?i ss)"
      unfolding r(2) by (rule append_stream [OF s(1) b(1,2) _ refl]) (use b in simp)
    then show ?thesis using r(1) by (simp add: pushed_def closed_None)
  qed
qed

text \<open>
  C11: A package that a service sends on a TCP connection refines the contract of the connection: the socket
  thread appends it to the stream of its priority, and what it hands to the kernel at once is a beginning of
  that stream, whichever part of the package the kernel takes. So the bytes on the wire and the bytes that
  wait are always exactly the packages sent, high priority in order, and no package of low priority is torn
  by another. The connection ends only after a write failed.
\<close>

theorem send_refines_stream:
  assumes "kernel_ok K" "server_reachable K ss" "s = ss_slot ss (HASH_ID sid)" "sk_id s = sid" "sk_protocol s = PROTOCOL_TCP"
    "sk_type s \<in> {SOCKET_TYPE_CONNECTING, SOCKET_TYPE_CONNECTED, SOCKET_TYPE_BIND}"
    "ss_pipe ss = (case p of PRIORITY_HIGH \<Rightarrow> Send_high sid b sz | PRIORITY_LOW \<Rightarrow> Send_low sid b sz) # rest"
  shows "\<exists>r ss'. ctrl_cmd K ss = Inr (r, ss') \<and>
    (if closed r then write_failed K
     else r = None \<and>
       transmit\<^sup>*\<^sup>* (push p (take (nat sz) (the (ss_mem ss b))) (stream_of K (HASH_ID sid) ss)) (stream_of K (HASH_ID sid) ss'))"
proof -
  let ?ss = "ss\<lparr>ss_pipe := rest\<rparr>" and ?q = "case p of PRIORITY_HIGH \<Rightarrow> Send_high sid b sz | PRIORITY_LOW \<Rightarrow> Send_low sid b sz"
  have ok: "server_ok K {} [] {} ss" using reachable_ok [OF assms(1,2)] .
  have "request_ok (ss_mem ss) ?q" using ok assms(7) by (simp add: server_ok_def base_def mem_inv_def)
  then obtain bs where b: "ss_mem ?ss b = Some bs" "0 \<le> sz" "nat sz \<le> length bs" by (cases p) auto
  have cmd: "ctrl_cmd K ss = ctrl_dispatch K ?q ?ss"
    unfolding ctrl_cmd_def bind_gets assms(7) list.case seq_modify by simp
  also have "\<dots> = send_socket K sid b sz p None ?ss" by (cases p) (simp_all add: ctrl_dispatch_def)
  finally have run: "ctrl_cmd K ss = send_socket K sid b sz p None ?ss" .
  have "handled K (ctrl_dispatch K ?q) (target ?q) ?ss" using ctrl_dispatch_ok [OF assms(1) ok assms(7)] .
  then obtain r ss' where r: "ctrl_cmd K ss = Inr (r, ss')" unfolding handled_def cmd [symmetric] by (auto split: sum.splits)
  have "pushed K (HASH_ID sid) p (take (nat sz) bs) (stream_of K (HASH_ID sid) ?ss) r ss'"
    by (rule send_socket_pushed [OF assms(1) _ assms(4,5) _ b]) (use assms(3,6) r run in \<open>simp_all add: open_type_def\<close>)
  moreover have "stream_of K (HASH_ID sid) ?ss = stream_of K (HASH_ID sid) ss" by (simp add: stream_of_def)
  ultimately show ?thesis using r b(1) by (auto simp: pushed_def)
qed

text \<open>
  C10: When a TCP connection becomes writable, the socket thread sends what waits, and this is a run of the
  contract: nothing is lost, doubled or reordered, packages of low priority go only when no byte of high
  priority is left, and one that was begun goes first from then on. A connection that is closed on the way
  was closed after a failed write, or, half closed, after every byte was sent.
\<close>

theorem send_buffer_refines_stream:
  assumes "kernel_ok K" "server_reachable K ss" "sk_protocol (ss_slot ss i) = PROTOCOL_TCP" "send_buffer K i ss = Inr (r, ss')"
  shows "\<exists>st. transmit\<^sup>*\<^sup>* (stream_of K i ss) st \<and> st_sent st = sent K (ss_calls ss') (sk_fd (ss_slot ss i)) \<and>
    (if closed r then write_failed K \<or> sk_type (ss_slot ss i) = SOCKET_TYPE_HALFCLOSE \<and> st_high st = [] \<and> st_low st = []
     else r = None \<and> st = stream_of K i ss')"
proof -
  have "flowed K i (ss_slot ss i) (stream_of K i ss) (max 1 (load i ss)) r ss'"
    by (rule server_send_buffer_flows [OF assms(1) reachable_ok [OF assms(1,2)] assms(3,4)])
  then obtain st where st: "transmit\<^sup>*\<^sup>* (stream_of K i ss) st" "st_sent st = sent K (ss_calls ss') (sk_fd (ss_slot ss i))"
    "if closed r then write_failed K \<or> sk_type (ss_slot ss i) = SOCKET_TYPE_HALFCLOSE \<and> st_high st = [] \<and> st_low st = []
     else r = None \<and> st = stream_of K i ss' \<and> frame_of (ss_slot ss i) (ss_slot ss' i) \<and> (eager K \<longrightarrow> load i ss' < max 1 (load i ss))"
    unfolding flowed_def by blast
  show ?thesis by (intro exI [of _ st]) (use st in \<open>cases "closed r"; simp\<close>)
qed

section \<open>Closing\<close>

text \<open>Write events for a socket, one after the other, until it is closed.\<close>

primrec write_events :: "kernel \<Rightarrow> nat \<Rightarrow> nat \<Rightarrow> report sop" where
  "write_events K i 0 = ret None"
| "write_events K i (Suc n) = bind_o (send_buffer K i) (\<lambda>r. if closed r then ret r else write_events K i n)"

lemma empty_half_close:
  assumes "kernel_ok K" "ss_slot ss i = s" "wbs s = []" "sk_protocol s = PROTOCOL_TCP" "sk_type s = SOCKET_TYPE_HALFCLOSE"
    "send_buffer K i ss = Inr (r, ss')"
  shows "closed r"
proof -
  have "sk_high s = []" "sk_low s = []" using assms(3) by (simp_all add: wbs_def)
  then have "bind_o (force_close i) (\<lambda>result. ret (Some (SOCKET_CLOSE, result)))
      (ss\<lparr>ss_calls := ss_calls ss @ [Sys_poll_write (sk_fd s) False]\<rparr>) = Inr (r, ss')"
    using assms(2,4,5,6)
    by (simp add: send_buffer_def send_list_def bind_get list_uncomplete_def check_True closed_None seq_sys_do bind_o_def [of "bind_o _ _"]
        ret_def bind_r_def)
  then show ?thesis by (auto simp: bind_o_def bind_r_def ret_def closed_def split: sum.splits)
qed

lemma load_0: "load i ss = 0 \<Longrightarrow> wbs (ss_slot ss i) = []"
  by (simp add: load_def Let_def)

lemma eager_no_failure: "eager K \<Longrightarrow> \<not> write_failed K"
  unfolding eager_def write_failed_def by (metis Inl_Inr_False)

lemma write_events_finish:
  assumes K: "kernel_ok K" "eager K"
  shows "server_ok K {} [] {} ss \<Longrightarrow> sk_protocol (ss_slot ss i) = PROTOCOL_TCP \<Longrightarrow> sk_type (ss_slot ss i) = SOCKET_TYPE_HALFCLOSE \<Longrightarrow>
    load i ss < n \<Longrightarrow> \<exists>res ss'. write_events K i n ss = Inr (Some (SOCKET_CLOSE, res), ss') \<and>
      sent K (ss_calls ss') (sk_fd (ss_slot ss i)) = whole_stream (stream_of K i ss)"
proof (induction n arbitrary: ss)
  case (Suc n)
  let ?s = "ss_slot ss i"
  have snd: "sending i ?s" using ctl_hash [OF server_ctl [OF Suc.prems(1)], of i] Suc.prems(3) by (simp add: sending_def)
  have t: "case send_buffer K i ss of Inl e \<Rightarrow> e \<in> {} | Inr (r, ss') \<Rightarrow> reported K {} [] i r ss'"
    by (rule triple_run [OF at_send_buffer [OF K(1) snd server_slot_ok [OF Suc.prems(1)]] server_at [OF Suc.prems(1)]])
  then obtain r ss1 where r: "send_buffer K i ss = Inr (r, ss1)" "reported K {} [] i r ss1" by (auto split: sum.splits)
  have "flowed K i ?s (stream_of K i ss) (max 1 (load i ss)) r ss1"
    by (rule server_send_buffer_flows [OF K(1) Suc.prems(1,2) r(1)])
  then obtain st where st: "transmit\<^sup>*\<^sup>* (stream_of K i ss) st" "st_sent st = sent K (ss_calls ss1) (sk_fd ?s)"
    "if closed r then write_failed K \<or> sk_type ?s = SOCKET_TYPE_HALFCLOSE \<and> st_high st = [] \<and> st_low st = []
     else r = None \<and> st = stream_of K i ss1 \<and> frame_of ?s (ss_slot ss1 i) \<and> (eager K \<longrightarrow> load i ss1 < max 1 (load i ss))"
    unfolding flowed_def by blast
  show ?case
  proof (cases "closed r")
    case True
    then obtain res where res: "r = Some (SOCKET_CLOSE, res)" by (auto simp: closed_def split: option.splits)
    have "st_high st = [] \<and> st_low st = []" using st(3) True eager_no_failure [OF K(2)] by simp
    then have "st_sent st = whole_stream st" by (simp add: whole_stream_def)
    then show ?thesis
      using st(2) transmits_whole [OF st(1)] r(1) True res by (simp add: bind_Inr [where m = "send_buffer K i"] ret_def)
  next
    case False
    then have n: "r = None" "st = stream_of K i ss1" "frame_of ?s (ss_slot ss1 i)" "load i ss1 < max 1 (load i ss)"
      using st(3) K(2) by simp_all
    have "load i ss \<noteq> 0" using load_0 empty_half_close [OF K(1) refl _ Suc.prems(2,3) r(1)] False by blast
    then have "load i ss1 < n" using n(4) Suc.prems(4) by simp
    moreover have "server_ok K {} [] {} ss1" using r(2) n(1) by simp
    moreover have f: "sk_protocol (ss_slot ss1 i) = PROTOCOL_TCP" "sk_type (ss_slot ss1 i) = SOCKET_TYPE_HALFCLOSE"
      "sk_fd (ss_slot ss1 i) = sk_fd ?s"
      using n(3) Suc.prems(2,3) by (simp_all add: frame_of_def)
    ultimately obtain res ss' where "write_events K i n ss1 = Inr (Some (SOCKET_CLOSE, res), ss')"
      "sent K (ss_calls ss') (sk_fd (ss_slot ss1 i)) = whole_stream (stream_of K i ss1)" using Suc.IH by blast
    then show ?thesis
      using r(1) False n(2) transmits_whole [OF st(1)] f(3) by (simp add: bind_Inr [where m = "send_buffer K i"])
  qed
qed simp

text \<open>
  C12: A connection that was closed while data waited is closed in the end, and not before all of it was
  sent: when the peer takes at least one byte per write, as many write events as there are writes and bytes
  waiting, and one more, are enough, and then every byte that waited has gone out, in order.
\<close>

theorem half_close_sends_all:
  assumes "kernel_ok K" "eager K" "server_reachable K ss" "sk_protocol (ss_slot ss i) = PROTOCOL_TCP"
    "sk_type (ss_slot ss i) = SOCKET_TYPE_HALFCLOSE" "load i ss < n"
  shows "\<exists>res ss'. write_events K i n ss = Inr (Some (SOCKET_CLOSE, res), ss') \<and>
    sent K (ss_calls ss') (sk_fd (ss_slot ss i)) = whole_stream (stream_of K i ss)"
  by (rule write_events_finish [OF assms(1,2) reachable_ok [OF assms(1,3)] assms(4-6)])

section \<open>Examples\<close>

text \<open>The open socket of the example with a package of five bytes in the pipe.\<close>

definition package_server :: socket_server where
  "package_server = open_server\<lparr>ss_mem := [0 \<mapsto> [1, 2, 3, 4, 5]], ss_next := 1, ss_pipe := [Send_high 1 0 5]\<rparr>"

lemma open_server_rest: "ss_mem open_server = Map.empty" "ss_next open_server = 0" "ss_pipe open_server = []" "wbs (ss_slot open_server j) = []"
  unfolding open_server_def by (auto simp: socket_run socket_example HASH_ID_1 wbs_def)

lemma package_reachable: "server_reachable plain_kernel package_server"
proof -
  let ?ss = "open_server\<lparr>ss_mem := [0 \<mapsto> [1, 2, 3, 4, 5]], ss_next := 1\<rparr>"
  have ids: "ids_left ?ss" using open_server(2) by (simp add: ids_left_def)
  have "server_reachable plain_kernel ?ss"
    by (rule server_reachable.step [OF open_reachable open_server(2), of "Call_malloc [1, 2, 3, 4, 5]"])
      (simp_all add: allowed_def run_call_def so_malloc_def seq_def bind_o_def bind_r_def ret_def open_server_rest)
  then show ?thesis
    by (rule server_reachable.step [OF _ ids, of _ "Call_send 1 0 5"])
      (use open_server(3) in \<open>auto simp: allowed_def may_give_def owned_def open_server_rest piped_def run_call_def socket_server_send_def
        send_checked_def get_slot_def gets_def HASH_ID_1 empty_socket_def seq_def bind_o_def bind_r_def ret_def send_request_def modify_def
        package_server_def\<close>)
qed

lemma plain_kernel_eager: "eager plain_kernel" "\<not> write_failed plain_kernel"
  by (auto simp: eager_def write_failed_def plain_kernel_def)

lemma package_slot: "ss_slot package_server 1 =
    empty_socket\<lparr>sk_type := SOCKET_TYPE_CONNECTED, sk_id := 1, sk_fd := 5, sk_opaque := 7, sk_p := Read_size 64\<rparr>"
  using open_server(3) by (simp add: package_server_def)

theorem send_refines_stream_witness:
  "\<exists>r ss'. ctrl_cmd plain_kernel package_server = Inr (r, ss') \<and> \<not> closed r \<and>
    transmit\<^sup>*\<^sup>* (push PRIORITY_HIGH [1, 2, 3, 4, 5] (stream_of plain_kernel 1 package_server)) (stream_of plain_kernel 1 ss')"
proof -
  have "ss_mem package_server 0 = Some [1, 2, 3, 4, 5]" "ss_pipe package_server = [Send_high 1 0 5]"
    by (simp_all add: package_server_def)
  then show ?thesis
    using send_refines_stream [OF plain_kernel_ok package_reachable refl, where sid = 1 and p = PRIORITY_HIGH and b = 0 and sz = 5 and rest = "[]"]
      plain_kernel_eager(2) package_slot
    by (auto simp: HASH_ID_1 empty_socket_def split: if_splits)
qed

text \<open>The same server after a round.\<close>

definition waiting_server :: socket_server where
  "waiting_server = (case run_call plain_kernel Call_poll package_server of Inr (_, ss) \<Rightarrow> ss)"

lemma open_server_alloc: "ss_alloc_id open_server = 1"
  unfolding open_server_def by (simp add: socket_run socket_example HASH_ID_1)

lemma open_server_fields: "ss_checkctrl open_server" "ss_event_index open_server = 0" "ss_ev open_server = []" "ss_soi open_server = None"
  unfolding open_server_def by (simp_all add: socket_run socket_example HASH_ID_1)

lemmas send_example = socket_run plain_kernel_def HASH_ID_1 package_server_def open_server_fields open_server_rest empty_socket_def
  send_socket_def send_object_init_def send_buffer_empty_def so_load_def mem_read_def append_sendbuffer_def append_node_def add_wb_size_def
  set_wb_list_def

lemma waiting_server:
  "run_call plain_kernel Call_poll package_server = Inr ((), waiting_server)" "ids_left waiting_server" "given_out waiting_server 1"
  "ss_slot waiting_server 1 = \<lparr>sk_opaque = 7,
    sk_high = [\<lparr>wb_buffer = 0, wb_ptr = (0, 2), wb_sz = 3, wb_userobject = False, wb_udp_address = []\<rparr>],
    sk_low = [], sk_wb_size = 3, sk_fd = 5, sk_id = 1, sk_protocol = PROTOCOL_TCP, sk_type = SOCKET_TYPE_CONNECTED, sk_p = Read_size 64\<rparr>"
  "ss_checkctrl waiting_server" "ss_event_index waiting_server = 0" "ss_ev waiting_server = []" "ss_soi waiting_server = None"
  "ss_mem waiting_server = [0 \<mapsto> [1, 2, 3, 4, 5]]" "ss_pipe waiting_server = []"
  unfolding waiting_server_def using open_server(2,3)
  by (simp_all add: send_example numeral_2_eq_2 ids_left_def given_out_def open_server_alloc)

lemma waiting_reachable: "server_reachable plain_kernel waiting_server"
  by (rule server_reachable.step [OF package_reachable _ _ waiting_server(1)])
    (use open_server(2) in \<open>simp_all add: ids_left_def package_server_def allowed_def\<close>)

text \<open>The call to close the socket, and another round.\<close>

definition half_closed_server :: socket_server where
  "half_closed_server =
     (case run_call plain_kernel Call_poll (waiting_server\<lparr>ss_pipe := [Close_socket 1 False 7]\<rparr>) of Inr (_, ss) \<Rightarrow> ss)"

lemma write_again_plain:
  "write_again plain_kernel fd d ss = Inr (Inr (min 2 (length d)), ss\<lparr>ss_calls := ss_calls ss @ [Sys_write fd d]\<rparr>)"
  unfolding write_again_def by (subst write_retry.simps) (simp add: plain_kernel_def Let_def)

lemma plain_select: "k_select plain_kernel h"
  by (simp add: plain_kernel_def)

lemma half_closed_server:
  "run_call plain_kernel Call_poll (waiting_server\<lparr>ss_pipe := [Close_socket 1 False 7]\<rparr>) = Inr ((), half_closed_server)"
  "ss_slot half_closed_server 1 = \<lparr>sk_opaque = 7,
    sk_high = [\<lparr>wb_buffer = 0, wb_ptr = (0, 4), wb_sz = 1, wb_userobject = False, wb_udp_address = []\<rparr>],
    sk_low = [], sk_wb_size = 1, sk_fd = 5, sk_id = 1, sk_protocol = PROTOCOL_TCP, sk_type = SOCKET_TYPE_HALFCLOSE, sk_p = Read_size 64\<rparr>"
  "ss_mem half_closed_server = [0 \<mapsto> [1, 2, 3, 4, 5]]"
  unfolding half_closed_server_def using waiting_server(4)
  by (simp_all add: run_call_def poll_round_def poll_ctrl_def has_cmd_def ctrl_cmd_def ctrl_dispatch_def act_defs bind_r_def sys_def
    get_slot_def upd_slot_def set_type_def Let_def HASH_ID_1 waiting_server close_socket_def send_buffer_empty_def send_buffer_def
    list_uncomplete_def send_list_def so_load_def mem_read_def write_again_plain advance_def set_wb_list_def closed_def plain_select)

lemma half_closed_reachable: "server_reachable plain_kernel half_closed_server"
proof -
  let ?ss = "waiting_server\<lparr>ss_pipe := [Close_socket 1 False 7]\<rparr>"
  have ids: "ids_left ?ss" using waiting_server(2) by (simp add: ids_left_def)
  have "server_reachable plain_kernel ?ss"
    by (rule server_reachable.step [OF waiting_reachable waiting_server(2), of "Call_close 7 1"])
      (use waiting_server(3,10) in \<open>simp_all add: allowed_def run_call_def socket_server_close_def send_request_def modify_def\<close>)
  then show ?thesis
    by (rule server_reachable.step [OF _ ids _ half_closed_server(1)]) (simp add: allowed_def)
qed

theorem send_buffer_refines_stream_witness:
  "\<exists>r ss'. send_buffer plain_kernel 1 half_closed_server = Inr (r, ss') \<and>
    (\<exists>st. transmit\<^sup>*\<^sup>* (stream_of plain_kernel 1 half_closed_server) st \<and> st_sent st = sent plain_kernel (ss_calls ss') 5)"
proof -
  obtain r ss' where r: "send_buffer plain_kernel 1 half_closed_server = Inr (r, ss')"
    using half_closed_server(2,3)
    by (simp add: send_buffer_def act_defs bind_r_def get_slot_def send_list_def list_uncomplete_def so_load_def mem_read_def
        write_again_plain upd_slot_def set_wb_list_def write_buffer_free_def free_object_def so_free_def closed_def sys_do_def sys_def
        force_close_def set_type_def Let_def)
  show ?thesis
    using send_buffer_refines_stream [OF plain_kernel_ok half_closed_reachable _ r] half_closed_server(2) r by auto
qed

theorem half_close_sends_all_witness:
  "\<exists>res ss'. write_events plain_kernel 1 3 half_closed_server = Inr (Some (SOCKET_CLOSE, res), ss') \<and>
    sent plain_kernel (ss_calls ss') 5 = whole_stream (stream_of plain_kernel 1 half_closed_server)"
proof -
  have "load 1 half_closed_server = 2" using half_closed_server(2,3) by (simp add: load_def wbs_def pending_bytes_def Let_def)
  then show ?thesis
    using half_close_sends_all [OF plain_kernel_ok plain_kernel_eager(1) half_closed_reachable, of 1 3] half_closed_server(2) by simp
qed

section \<open>A user object of low priority\<close>

text \<open>
  A user object that is sent with low priority to a connected socket which still has writes of high
  priority aborts the process: its write starts at the bytes of the object and not at the object itself,
  which \<open>list_uncomplete\<close> takes for a package that was begun, so the next event to write, whatever else was
  waited for before it, fails the assertion at the start of \<open>send_buffer\<close>.
\<close>

theorem low_user_object_aborts:
  assumes s: "ss_slot ss (HASH_ID sid) = s" "sk_id s = sid" "sk_type s = SOCKET_TYPE_CONNECTED" "sk_protocol s = PROTOCOL_TCP"
    and busy: "sk_high s \<noteq> []" "sk_low s = []"
    and object: "sz < 0" "ss_soi ss = Some soi" "soi_buffer soi object \<noteq> object"
  shows "\<exists>ss'. send_socket K sid object sz PRIORITY_LOW None ss = Inr (None, ss') \<and>
    (\<forall>(evs :: sp_event list) n. ev_s (evs ! n) = Some (HASH_ID sid) \<and> ev_write (evs ! n) \<and> \<not> ev_read (evs ! n) \<longrightarrow>
       poll_event K (ss'\<lparr>ss_ev := evs, ss_event_index := n\<rparr>) = Inl Assert_failed)"
proof (intro exI conjI allI impI)
  let ?wb = "\<lparr>wb_buffer = object, wb_ptr = (soi_buffer soi object, 0), wb_sz = soi_size soi object, wb_userobject = True, wb_udp_address = []\<rparr>"
  let ?ss = "ss\<lparr>ss_slot := (ss_slot ss)(HASH_ID sid := appended PRIORITY_LOW ?wb s)\<rparr>"
  show "send_socket K sid object sz PRIORITY_LOW None ss = Inr (None, ?ss)"
    using assms
    by (simp add: send_socket_def Let_def get_slot_def send_object_init_def act_defs bind_r_def append_sendbuffer_low_def append_node_def
        add_wb_size_def upd_slot_def appended_def set_wb_list_def send_buffer_empty_def)
  fix evs :: "sp_event list" and n
  assume "ev_s (evs ! n) = Some (HASH_ID sid) \<and> ev_write (evs ! n) \<and> \<not> ev_read (evs ! n)"
  then show "poll_event K (?ss\<lparr>ss_ev := evs, ss_event_index := n\<rparr>) = Inl Assert_failed"
    using s busy object(3)
    by (simp add: poll_event_def send_buffer_def get_slot_def gets_def appended_lists list_uncomplete_def act_defs bind_r_def)
qed

text \<open>An object of the shape of Lua's: a block with the address of its bytes behind it.\<close>

definition boxed_objects :: socket_object_interface where
  "boxed_objects = \<lparr>soi_buffer = (\<lambda>a. a + 1), soi_size = (\<lambda>_. 4), soi_free = (\<lambda>a m. m(a := None))\<rparr>"

theorem low_user_object_aborts_witness:
  "\<exists>ss'. send_socket plain_kernel 1 0 (- 1) PRIORITY_LOW None (waiting_server\<lparr>ss_soi := Some boxed_objects\<rparr>) = Inr (None, ss') \<and>
     poll_event plain_kernel (ss'\<lparr>ss_ev := [\<lparr>ev_s = Some 1, ev_read = False, ev_write = True\<rparr>], ss_event_index := 0\<rparr>) = Inl Assert_failed"
proof -
  have h: "ss_slot (waiting_server\<lparr>ss_soi := Some boxed_objects\<rparr>) (HASH_ID 1) = ss_slot waiting_server 1" by (simp add: HASH_ID_1)
  obtain ss' where r: "send_socket plain_kernel 1 0 (- 1) PRIORITY_LOW None (waiting_server\<lparr>ss_soi := Some boxed_objects\<rparr>) = Inr (None, ss')"
    and p: "\<forall>(evs :: sp_event list) n. ev_s (evs ! n) = Some (HASH_ID 1) \<and> ev_write (evs ! n) \<and> \<not> ev_read (evs ! n) \<longrightarrow>
       poll_event plain_kernel (ss'\<lparr>ss_ev := evs, ss_event_index := n\<rparr>) = Inl Assert_failed"
    using low_user_object_aborts [where sid = 1 and soi = boxed_objects and sz = "- 1" and object = 0 and K = plain_kernel, OF h]
      waiting_server(4) by (auto simp: boxed_objects_def)
  have "poll_event plain_kernel (ss'\<lparr>ss_ev := [\<lparr>ev_s = Some 1, ev_read = False, ev_write = True\<rparr>], ss_event_index := 0\<rparr>) = Inl Assert_failed"
    using p [rule_format, of "[\<lparr>ev_s = Some 1, ev_read = False, ev_write = True\<rparr>]" 0] by (simp add: HASH_ID_1)
  then show ?thesis using r by blast
qed

end
