(* ===== verification/Socket_low.thy ===== *)
theory Socket_low
  imports Socket
begin

text \<open>
  Two parts of \<open>src/3rd/skynet/skynet-src/socket_server.c\<close> as the C code has them, below what the theory
  \<open>Socket\<close> makes of them: the two lists of pending writes of a socket with their pointers to the head and
  to the tail, of which \<open>Socket\<close> keeps the lists only, and the pipe of requests as bytes, of which it keeps
  the requests. The theorems say that the assertions on the pointers and on the lengths of the transfers
  hold, and that nothing but lists of writes and a queue of requests can be seen from outside.
\<close>

section \<open>Lists of writes with a tail pointer\<close>

text \<open>\<open>struct wb_list\<close>, \<open>next\<close> of every allocated \<open>struct write_buffer\<close>, and the lists of one socket.\<close>

record wb_pointers =
  wl_head :: "nat option"
  wl_tail :: "nat option"

record wb_state =
  ws_next :: "nat \<Rightarrow> nat option option"
  ws_list :: "priority \<Rightarrow> wb_pointers"

type_synonym 'a wop = "(wb_state, 'a) act"

definition load_next :: "nat \<Rightarrow> nat option wop" where
  "load_next a st = (case ws_next st a of None \<Rightarrow> Inl Bad_pointer | Some n \<Rightarrow> Inr (n, st))"

definition store_next :: "nat \<Rightarrow> nat option \<Rightarrow> unit wop" where
  "store_next a n st =
     (if ws_next st a = None then Inl Bad_pointer else Inr ((), st\<lparr>ws_next := (ws_next st)(a \<mapsto> n)\<rparr>))"

definition buffer_free :: "nat \<Rightarrow> unit wop" where
  "buffer_free a st =
     (if ws_next st a = None then Inl Bad_pointer else Inr ((), st\<lparr>ws_next := (ws_next st)(a := None)\<rparr>))"

definition the_list :: "priority \<Rightarrow> wb_pointers wop" where
  "the_list p = gets (\<lambda>st. ws_list st p)"

definition put_list :: "priority \<Rightarrow> wb_pointers \<Rightarrow> unit wop" where
  "put_list p l = modify (\<lambda>st. st\<lparr>ws_list := (ws_list st)(p := l)\<rparr>)"

text \<open>The linking in \<open>append_sendbuffer_\<close>; \<open>buf\<close> is the address that \<open>MALLOC\<close> gave.\<close>

definition link_buffer :: "priority \<Rightarrow> nat \<Rightarrow> unit wop" where
  "link_buffer p buf =
     seq (modify (\<lambda>st. st\<lparr>ws_next := (ws_next st)(buf \<mapsto> None)\<rparr>))
    (bind_o (the_list p) (\<lambda>s.
       if wl_head s = None then put_list p \<lparr>wl_head = Some buf, wl_tail = Some buf\<rparr>
       else
         seq (check (wl_tail s \<noteq> None))
        (case wl_tail s of
           None \<Rightarrow> throw Bad_pointer
         | Some t \<Rightarrow>
             bind_o (load_next t) (\<lambda>n.
             seq (check (n = None))
            (seq (store_next t (Some buf))
                 (put_list p (s\<lparr>wl_tail := Some buf\<rparr>)))))))"

text \<open>
  The loops of \<open>send_list_tcp\<close> and \<open>send_list_udp\<close>: each answer tells whether the kernel took the whole
  first write; at the first that it does not take the function returns at once.
\<close>

fun send_loop :: "priority \<Rightarrow> bool list \<Rightarrow> unit wop" where
  "send_loop p answers =
     bind_o (the_list p) (\<lambda>list.
       case wl_head list of
         None \<Rightarrow> put_list p (list\<lparr>wl_tail := None\<rparr>)
       | Some tmp \<Rightarrow>
           (case answers of
              True # answers \<Rightarrow>
                bind_o (load_next tmp) (\<lambda>n.
                seq (put_list p (list\<lparr>wl_head := n\<rparr>))
               (seq (buffer_free tmp) (send_loop p answers)))
            | _ \<Rightarrow> ret ()))"

declare send_loop.simps [simp del]

definition raise_head :: "unit wop" where
  "raise_head =
     bind_o (the_list PRIORITY_LOW) (\<lambda>low.
       case wl_head low of
         None \<Rightarrow> throw Bad_pointer
       | Some tmp \<Rightarrow>
           bind_o (load_next tmp) (\<lambda>n.
           seq (put_list PRIORITY_LOW \<lparr>wl_head = n, wl_tail = (if n = None then None else wl_tail low)\<rparr>)
          (bind_o (the_list PRIORITY_HIGH) (\<lambda>high.
           seq (check (wl_head high = None))
          (seq (store_next tmp None)
               (put_list PRIORITY_HIGH \<lparr>wl_head = Some tmp, wl_tail = Some tmp\<rparr>))))))"

text \<open>\<open>free_wb_list\<close> and the two calls of \<open>check_wb_list\<close> when the slot is used again.\<close>

partial_function (option) free_loop :: "nat option \<Rightarrow> wb_state \<Rightarrow> (unit \<times> wb_state) res option" where
  "free_loop wb st =
     (case wb of
        None \<Rightarrow> Some (Inr ((), st))
      | Some tmp \<Rightarrow>
          (case bind_o (load_next tmp) (\<lambda>n. seq (buffer_free tmp) (ret n)) st of
             Inl e \<Rightarrow> Some (Inl e)
           | Inr (n, st) \<Rightarrow> free_loop n st))"

definition free_list :: "priority \<Rightarrow> unit wop" where
  "free_list p =
     bind_o (the_list p) (\<lambda>list.
     seq (\<lambda>st. case free_loop (wl_head list) st of None \<Rightarrow> Inl Diverges | Some r \<Rightarrow> r)
         (put_list p \<lparr>wl_head = None, wl_tail = None\<rparr>))"

definition check_list :: "priority \<Rightarrow> unit wop" where
  "check_list p = bind_o (the_list p) (\<lambda>s. seq (check (wl_head s = None)) (check (wl_tail s = None)))"

text \<open>What happens to the lists of a socket, and the same on lists of addresses.\<close>

datatype list_step =
    Append priority nat
  | Send_list priority "bool list"
  | Raise
  | Reuse

definition wb_op :: "list_step \<Rightarrow> unit wop" where
  "wb_op s =
     (case s of
        Append p buf \<Rightarrow> link_buffer p buf
      | Send_list p answers \<Rightarrow> send_loop p answers
      | Raise \<Rightarrow> raise_head
      | Reuse \<Rightarrow> seq (free_list PRIORITY_HIGH) (seq (free_list PRIORITY_LOW)
                   (seq (check_list PRIORITY_HIGH) (check_list PRIORITY_LOW))))"

fun wb_ops :: "list_step list \<Rightarrow> unit wop" where
  "wb_ops [] = ret ()"
| "wb_ops (s # ss) = seq (wb_op s) (wb_ops ss)"

type_synonym two_lists = "priority \<Rightarrow> nat list"

fun spec_step :: "list_step \<Rightarrow> two_lists \<Rightarrow> two_lists" where
  "spec_step (Append p buf) l = l(p := l p @ [buf])"
| "spec_step (Send_list p answers) l = l(p := drop (length (takeWhile id answers)) (l p))"
| "spec_step Raise l = l(PRIORITY_LOW := tl (l PRIORITY_LOW), PRIORITY_HIGH := [hd (l PRIORITY_LOW)])"
| "spec_step Reuse l = (\<lambda>_. [])"

text \<open>
  When the code takes a step: \<open>MALLOC\<close> gives an address that is not in use, and \<open>send_buffer\<close> calls
  \<open>raise_uncomplete\<close> only when the high list is empty and the low one has a write that was begun.
\<close>

fun may_step :: "list_step \<Rightarrow> two_lists \<Rightarrow> bool" where
  "may_step (Append p buf) l = (\<forall>q. buf \<notin> set (l q))"
| "may_step Raise l = (l PRIORITY_HIGH = [] \<and> l PRIORITY_LOW \<noteq> [])"
| "may_step _ l = True"

fun may_run :: "list_step list \<Rightarrow> two_lists \<Rightarrow> bool" where
  "may_run [] l = True"
| "may_run (s # ss) l = (may_step s l \<and> may_run ss (spec_step s l))"

section \<open>The lists behind the pointers\<close>

fun chain :: "(nat \<Rightarrow> nat option option) \<Rightarrow> nat option \<Rightarrow> nat list \<Rightarrow> bool" where
  "chain nx h [] = (h = None)"
| "chain nx h (a # as) = (h = Some a \<and> (case nx a of None \<Rightarrow> False | Some n \<Rightarrow> chain nx n as))"

definition list_rep :: "(nat \<Rightarrow> nat option option) \<Rightarrow> wb_pointers \<Rightarrow> nat list \<Rightarrow> bool" where
  "list_rep nx l as = (chain nx (wl_head l) as \<and> wl_tail l = (if as = [] then None else Some (last as)))"

definition lists_rep :: "wb_state \<Rightarrow> two_lists \<Rightarrow> bool" where
  "lists_rep st l =
     ((\<forall>p. list_rep (ws_next st) (ws_list st p) (l p) \<and> distinct (l p)) \<and>
      set (l PRIORITY_HIGH) \<inter> set (l PRIORITY_LOW) = {})"

lemma chain_update: "a \<notin> set as \<Longrightarrow> chain (nx(a := v)) h as = chain nx h as"
  by (induction as arbitrary: h) (auto split: option.splits)

lemma chain_live: "chain nx h as \<Longrightarrow> a \<in> set as \<Longrightarrow> nx a \<noteq> None"
  by (induction as arbitrary: h) (auto split: option.splits)

lemma chain_snoc:
  "chain nx h as \<Longrightarrow> as \<noteq> [] \<Longrightarrow> distinct as \<Longrightarrow> b \<notin> set as \<Longrightarrow>
   nx (last as) = Some None \<and> chain (nx(last as \<mapsto> Some b, b \<mapsto> None)) h (as @ [b])"
proof (induction as arbitrary: h)
  case (Cons a as)
  then obtain n where n: "h = Some a" "nx a = Some n" "chain nx n as" by (auto split: option.splits)
  show ?case
  proof (cases "as = []")
    case True
    then show ?thesis using n Cons.prems by auto
  next
    case False
    then have "a \<noteq> last as" using Cons.prems(3) last_in_set [of as] by auto
    then show ?thesis using Cons.IH [OF n(3) False] Cons.prems n False by auto
  qed
qed simp

text \<open>The rest of the lists is not touched by a change of one node or of one list.\<close>

lemma list_rep_other: "a \<notin> set as \<Longrightarrow> list_rep (nx(a := v)) l as = list_rep nx l as"
  by (simp add: list_rep_def chain_update)

lemma priority_cases: "(\<forall>q. P q) \<longleftrightarrow> P PRIORITY_HIGH \<and> P PRIORITY_LOW"
  by (metis priority.exhaust)

definition other :: "priority \<Rightarrow> priority" where
  "other p = (case p of PRIORITY_HIGH \<Rightarrow> PRIORITY_LOW | PRIORITY_LOW \<Rightarrow> PRIORITY_HIGH)"

lemma chain_cong: "(\<And>a. a \<in> set as \<Longrightarrow> nx' a = nx a) \<Longrightarrow> chain nx' h as = chain nx h as"
  by (induction as arbitrary: h) (auto split: option.splits)

lemma lists_repD:
  assumes "lists_rep st l"
  shows "chain (ws_next st) (wl_head (ws_list st p)) (l p)" "wl_tail (ws_list st p) = (if l p = [] then None else Some (last (l p)))"
    "distinct (l p)" "a \<in> set (l p) \<Longrightarrow> a \<notin> set (l (other p))"
  using assms by (cases p; auto simp: lists_rep_def list_rep_def other_def)+

lemma lists_repI:
  assumes "lists_rep st l" "list_rep nx' wl' as'" "distinct as'" "\<And>a. a \<in> set as' \<Longrightarrow> a \<notin> set (l (other p))"
    and "\<And>a. a \<in> set (l (other p)) \<Longrightarrow> nx' a = ws_next st a"
  shows "lists_rep (st\<lparr>ws_next := nx', ws_list := (ws_list st)(p := wl')\<rparr>) (l(p := as'))"
proof -
  have "list_rep nx' (ws_list st (other p)) (l (other p))"
    using assms(1) chain_cong [OF assms(5)] by (simp add: lists_rep_def list_rep_def)
  moreover have "distinct (l (other p))" using assms(1) by (simp add: lists_rep_def)
  ultimately show ?thesis
    using assms(2-4) by (cases p) (auto simp: lists_rep_def priority_cases other_def)
qed

lemma link_buffer_run:
  assumes "lists_rep st l" "\<forall>q. buf \<notin> set (l q)"
  shows "\<exists>st'. link_buffer p buf st = Inr ((), st') \<and> lists_rep st' (l(p := l p @ [buf]))"
proof (cases "l p = []")
  case True
  let ?nx = "(ws_next st)(buf \<mapsto> None)" and ?wl = "\<lparr>wl_head = Some buf, wl_tail = Some buf\<rparr>"
  have "wl_head (ws_list st p) = None" using lists_repD(1) [OF assms(1), of p] True by simp
  then have "link_buffer p buf st = Inr ((), st\<lparr>ws_next := ?nx, ws_list := (ws_list st)(p := ?wl)\<rparr>)"
    by (simp add: link_buffer_def the_list_def put_list_def act_defs)
  moreover have "lists_rep (st\<lparr>ws_next := ?nx, ws_list := (ws_list st)(p := ?wl)\<rparr>) (l(p := [buf]))"
    by (rule lists_repI [OF assms(1)]) (use assms(2) in \<open>auto simp: list_rep_def\<close>)
  ultimately show ?thesis using True by simp
next
  case False
  let ?t = "last (l p)"
  have b: "buf \<notin> set (l p)" "buf \<noteq> ?t" using assms(2) False last_in_set [OF False] by metis+
  note d = lists_repD(1-3) [OF assms(1), of p]
  note c = chain_snoc [OF d(1) False d(3) b(1)]
  let ?nx = "(ws_next st)(buf \<mapsto> None, ?t \<mapsto> Some buf)"
  let ?wl = "(ws_list st p)\<lparr>wl_tail := Some buf\<rparr>"
  obtain x where h: "wl_head (ws_list st p) = Some x" using d(1) False by (cases "l p") auto
  have run: "link_buffer p buf st = Inr ((), st\<lparr>ws_next := ?nx, ws_list := (ws_list st)(p := ?wl)\<rparr>)"
    using h d(2) False c b(2)
    by (simp add: link_buffer_def the_list_def put_list_def load_next_def store_next_def act_defs)
  have "list_rep ?nx ?wl (l p @ [buf])"
    using c b(2) by (simp add: list_rep_def fun_upd_twist)
  moreover have "distinct (l p @ [buf])" using d(3) b(1) by simp
  moreover have "a \<notin> set (l (other p))" if "a \<in> set (l p @ [buf])" for a
    using that lists_repD(4) [OF assms(1), where a = a and p = p] assms(2) by auto
  moreover have "?nx a = ws_next st a" if "a \<in> set (l (other p))" for a
    using that lists_repD(4) [OF assms(1), where a = ?t and p = p] last_in_set [OF False] assms(2) by auto
  ultimately have "lists_rep (st\<lparr>ws_next := ?nx, ws_list := (ws_list st)(p := ?wl)\<rparr>) (l(p := l p @ [buf]))"
    by (intro lists_repI [OF assms(1)]) blast+
  then show ?thesis using run by blast
qed

lemma pointers_eta:
  "x\<lparr>wl_head := n, wl_tail := t\<rparr> = \<lparr>wl_head = n, wl_tail = t\<rparr>"
  "x\<lparr>wl_head := n\<rparr> = \<lparr>wl_head = n, wl_tail = wl_tail (x :: wb_pointers)\<rparr>" for x :: wb_pointers
  by (cases x; simp)+

lemma update_order: "st\<lparr>ws_list := a, ws_next := b\<rparr> = st\<lparr>ws_next := b, ws_list := a\<rparr>"
  by simp

lemma pop_rep:
  assumes "lists_rep st l" "l p = a # as"
  shows "\<exists>n. wl_head (ws_list st p) = Some a \<and> ws_next st a = Some n \<and> (n = None \<longleftrightarrow> as = []) \<and>
    chain (ws_next st) n as"
proof -
  obtain n where "wl_head (ws_list st p) = Some a" "ws_next st a = Some n" "chain (ws_next st) n as"
    using lists_repD(1) [OF assms(1), of p] assms(2) by (auto split: option.splits)
  then show ?thesis by (cases as) auto
qed

text \<open>Between two rounds of the loop the tail may still point to the node that was freed last.\<close>

definition half_rep :: "priority \<Rightarrow> wb_state \<Rightarrow> two_lists \<Rightarrow> bool" where
  "half_rep p st l = (\<exists>t. lists_rep (st\<lparr>ws_list := (ws_list st)(p := (ws_list st p)\<lparr>wl_tail := t\<rparr>)\<rparr>) l \<and>
     (l p \<noteq> [] \<longrightarrow> wl_tail (ws_list st p) = t))"

lemma half_rep_full: "half_rep p st l \<Longrightarrow> l p \<noteq> [] \<Longrightarrow> lists_rep st l"
  unfolding half_rep_def by fastforce

lemma half_rep_empty:
  assumes "half_rep p st l" "l p = []"
  shows "wl_head (ws_list st p) = None \<and> lists_rep (st\<lparr>ws_list := (ws_list st)(p := (ws_list st p)\<lparr>wl_tail := None\<rparr>)\<rparr>) l"
proof -
  obtain t where t: "lists_rep (st\<lparr>ws_list := (ws_list st)(p := (ws_list st p)\<lparr>wl_tail := t\<rparr>)\<rparr>) l"
    using assms(1) by (auto simp: half_rep_def)
  have "t = None" "wl_head (ws_list st p) = None"
    using lists_repD(1,2) [OF t, of p] assms(2) by simp_all
  then show ?thesis using t by simp
qed

lemma send_loop_run:
  assumes "half_rep p st l"
  shows "\<exists>st'. send_loop p answers st = Inr ((), st') \<and>
    lists_rep st' (l(p := drop (length (takeWhile id answers)) (l p)))"
  using assms
proof (induction answers arbitrary: st l)
  case Nil
  show ?case
  proof (cases "l p")
    case Nil
    from half_rep_empty [OF Nil.prems this] show ?thesis
      using Nil by (simp add: send_loop.simps the_list_def put_list_def act_defs fun_upd_idem)
  next
    case (Cons a as)
    then have r: "lists_rep st l" using half_rep_full [OF Nil.prems] by simp
    with pop_rep [OF this Cons] show ?thesis
      by (simp add: send_loop.simps [of p "[]"] the_list_def act_defs fun_upd_idem)
  qed
next
  case (Cons x answers)
  show ?case
  proof (cases "l p")
    case Nil
    from half_rep_empty [OF Cons.prems this] show ?thesis
      using Nil by (simp add: send_loop.simps the_list_def put_list_def act_defs fun_upd_idem)
  next
    case (Cons a as)
    then have r: "lists_rep st l" using half_rep_full [OF Cons.prems] by simp
    obtain n where n: "wl_head (ws_list st p) = Some a" "ws_next st a = Some n" "n = None \<longleftrightarrow> as = []"
      "chain (ws_next st) n as"
      using pop_rep [OF r Cons] by blast
    show ?thesis
    proof (cases x)
      case False
      then show ?thesis using n(1) r by (simp add: send_loop.simps [of p "False # _"] the_list_def act_defs fun_upd_idem)
    next
      case True
      let ?nx = "(ws_next st)(a := None)"
      let ?st = "st\<lparr>ws_next := ?nx, ws_list := (ws_list st)(p := (ws_list st p)\<lparr>wl_head := n\<rparr>)\<rparr>"
      have step: "send_loop p (x # answers) st = send_loop p answers ?st"
        using True n(1,2)
        by (simp add: send_loop.simps [of p "True # _"] the_list_def put_list_def load_next_def buffer_free_def act_defs update_order)
      have d: "distinct (a # as)" using lists_repD(3) [OF r, of p] Cons by simp
      let ?t = "if as = [] then None else wl_tail (ws_list st p)"
      have "lists_rep (st\<lparr>ws_next := ?nx, ws_list := (ws_list st)(p := \<lparr>wl_head = n, wl_tail = ?t\<rparr>)\<rparr>) (l(p := as))"
      proof (rule lists_repI [OF r])
        show "list_rep ?nx \<lparr>wl_head = n, wl_tail = ?t\<rparr> as"
          using n(4) d chain_update [of a as "ws_next st" None n] lists_repD(2) [OF r, of p] Cons by (simp add: list_rep_def)
        show "b \<notin> set (l (other p))" if "b \<in> set as" for b using that lists_repD(4) [OF r, where a = b and p = p] Cons by simp
        show "?nx b = ws_next st b" if "b \<in> set (l (other p))" for b using that lists_repD(4) [OF r, where a = a and p = p] Cons by auto
      qed (use d in simp)
      then have "half_rep p ?st (l(p := as))"
        unfolding half_rep_def by (intro exI [of _ ?t]) (cases "as = []"; simp add: pointers_eta)
      from Cons.IH [OF this] obtain st' where "send_loop p answers ?st = Inr ((), st')"
        "lists_rep st' ((l(p := as))(p := drop (length (takeWhile id answers)) ((l(p := as)) p)))" by blast
      then have "send_loop p (x # answers) st = Inr ((), st') \<and>
          lists_rep st' (l(p := drop (length (takeWhile id (x # answers))) (l p)))"
        unfolding fun_upd_upd fun_upd_same step using True Cons by simp
      then show ?thesis by blast
    qed
  qed
qed

lemma lists_half: "lists_rep st l \<Longrightarrow> half_rep p st l"
  unfolding half_rep_def by (intro exI [of _ "wl_tail (ws_list st p)"]) (simp add: fun_upd_idem)

lemma raise_head_run:
  assumes r: "lists_rep st l" and e: "l PRIORITY_HIGH = []" and c: "l PRIORITY_LOW = a # as"
  shows "\<exists>st'. raise_head st = Inr ((), st') \<and> lists_rep st' (l(PRIORITY_LOW := as, PRIORITY_HIGH := [a]))"
proof -
  obtain n where n: "wl_head (ws_list st PRIORITY_LOW) = Some a" "ws_next st a = Some n" "n = None \<longleftrightarrow> as = []"
    "chain (ws_next st) n as"
    using pop_rep [OF r c] by blast
  have d: "distinct (a # as)" using lists_repD(3) [OF r, of PRIORITY_LOW] c by simp
  have h: "wl_head (ws_list st PRIORITY_HIGH) = None" using lists_repD(1) [OF r, of PRIORITY_HIGH] e by simp
  let ?low = "\<lparr>wl_head = n, wl_tail = (if n = None then None else wl_tail (ws_list st PRIORITY_LOW))\<rparr>"
  let ?nx = "(ws_next st)(a \<mapsto> None)"
  let ?st = "st\<lparr>ws_next := ?nx, ws_list := (ws_list st)(PRIORITY_LOW := ?low, PRIORITY_HIGH := \<lparr>wl_head = Some a, wl_tail = Some a\<rparr>)\<rparr>"
  have "raise_head st = Inr ((), ?st)"
    using n(1,2) h
    by (simp add: raise_head_def the_list_def put_list_def load_next_def store_next_def act_defs update_order)
  moreover have "lists_rep ?st (l(PRIORITY_LOW := as, PRIORITY_HIGH := [a]))"
    using n(3,4) d chain_update [of a as "ws_next st" "Some None" n] lists_repD(2) [OF r, of PRIORITY_LOW] c
    by (auto simp: lists_rep_def list_rep_def priority_cases)
  ultimately show ?thesis by blast
qed

lemma free_loop_run:
  assumes "chain (ws_next st) h as" "distinct as"
  shows "free_loop h st = Some (Inr ((), st\<lparr>ws_next := (\<lambda>a. if a \<in> set as then None else ws_next st a)\<rparr>))"
  using assms
proof (induction as arbitrary: h st)
  case Nil
  then show ?case by (simp add: free_loop.simps)
next
  case (Cons a as)
  then obtain n where n: "h = Some a" "ws_next st a = Some n" "chain (ws_next st) n as" by (auto split: option.splits)
  let ?st = "st\<lparr>ws_next := (ws_next st)(a := None)\<rparr>"
  have "chain (ws_next ?st) n as" using n(3) Cons.prems(2) by (simp add: chain_update)
  from Cons.IH [OF this] Cons.prems(2) have "free_loop n ?st =
      Some (Inr ((), ?st\<lparr>ws_next := (\<lambda>b. if b \<in> set as then None else ws_next ?st b)\<rparr>))" by simp
  moreover have "(\<lambda>b. if b \<in> set as then None else ws_next ?st b) =
      (\<lambda>b. if b \<in> set (a # as) then None else ws_next st b)" by auto
  moreover have "free_loop h st = free_loop n ?st"
    using n(1,2) by (simp add: free_loop.simps [of "Some a"] load_next_def buffer_free_def act_defs)
  ultimately show ?case by (simp only: wb_state.update_convs o_def) simp
qed

lemma free_list_run:
  assumes "lists_rep st l"
  shows "\<exists>st'. free_list p st = Inr ((), st') \<and> lists_rep st' (l(p := []))"
proof -
  let ?nx = "\<lambda>a. if a \<in> set (l p) then None else ws_next st a"
  note f = free_loop_run [OF lists_repD(1,3) [OF assms, of p]]
  have "free_list p st = Inr ((), st\<lparr>ws_next := ?nx, ws_list := (ws_list st)(p := \<lparr>wl_head = None, wl_tail = None\<rparr>)\<rparr>)"
    by (simp add: free_list_def the_list_def put_list_def f act_defs)
  moreover have "lists_rep (st\<lparr>ws_next := ?nx, ws_list := (ws_list st)(p := \<lparr>wl_head = None, wl_tail = None\<rparr>)\<rparr>) (l(p := []))"
  proof (rule lists_repI [OF assms])
    show "?nx a = ws_next st a" if "a \<in> set (l (other p))" for a
      using that lists_repD(4) [OF assms, where a = a and p = p] by auto
  qed (simp_all add: list_rep_def)
  ultimately show ?thesis by blast
qed

lemma wb_op_run:
  assumes "lists_rep st l" "may_step s l"
  shows "\<exists>st'. wb_op s st = Inr ((), st') \<and> lists_rep st' (spec_step s l)"
proof (cases s)
  case (Append p buf)
  then show ?thesis using link_buffer_run [OF assms(1), of buf p] assms(2) by (simp add: wb_op_def)
next
  case (Send_list p answers)
  then show ?thesis using send_loop_run [OF lists_half [OF assms(1)], of p answers] by (simp add: wb_op_def)
next
  case Raise
  then obtain a as where "l PRIORITY_HIGH = []" "l PRIORITY_LOW = a # as"
    using assms(2) by (cases "l PRIORITY_LOW") auto
  then show ?thesis using raise_head_run [OF assms(1)] Raise by (simp add: wb_op_def)
next
  case Reuse
  obtain st1 where 1: "free_list PRIORITY_HIGH st = Inr ((), st1)" "lists_rep st1 (l(PRIORITY_HIGH := []))"
    using free_list_run [OF assms(1)] by blast
  obtain st2 where 2: "free_list PRIORITY_LOW st1 = Inr ((), st2)" "lists_rep st2 (l(PRIORITY_HIGH := [], PRIORITY_LOW := []))"
    using free_list_run [OF 1(2)] by blast
  have e: "l(PRIORITY_HIGH := [], PRIORITY_LOW := []) = (\<lambda>_. [])"
  proof
    fix p show "(l(PRIORITY_HIGH := [], PRIORITY_LOW := [])) p = []" by (cases p) auto
  qed
  have "check_list p st2 = Inr ((), st2)" for p
    using lists_repD(1,2) [OF 2(2) [unfolded e], of p] by (simp add: check_list_def the_list_def act_defs)
  then show ?thesis using Reuse 1(1) 2 e by (simp add: wb_op_def act_defs)
qed

lemma wb_ops_run:
  assumes "lists_rep st l" "may_run ss l"
  shows "\<exists>st'. wb_ops ss st = Inr ((), st') \<and> lists_rep st' (fold spec_step ss l)"
  using assms
proof (induction ss arbitrary: st l)
  case Nil
  then show ?case by (simp add: ret_def)
next
  case (Cons s ss)
  obtain st1 where "wb_op s st = Inr ((), st1)" "lists_rep st1 (spec_step s l)"
    using wb_op_run [OF Cons.prems(1)] Cons.prems(2) by auto
  with Cons.IH [of st1 "spec_step s l"] Cons.prems(2) show ?case by (simp add: seq_def bind_o_def)
qed

definition no_writes :: wb_state where
  "no_writes = \<lparr>ws_next = (\<lambda>_. None), ws_list = (\<lambda>_. \<lparr>wl_head = None, wl_tail = None\<rparr>)\<rparr>"

lemma no_writes_rep: "lists_rep no_writes (\<lambda>_. [])"
  by (simp add: lists_rep_def list_rep_def no_writes_def)

section \<open>The pipe of requests\<close>

text \<open>
  A request in the pipe: the byte of its type, the length of its body in a byte, the body. The kernel
  answers the \<open>t\<close>-th transfer on the pipe with an error or the number of bytes moved, which may depend on
  the number asked for and on the number there is. A state is the number of transfers so far and the
  bytes in the pipe.
\<close>

record pipe_kernel =
  pk_write :: "nat \<Rightarrow> nat \<Rightarrow> errno + nat"
  pk_read :: "nat \<Rightarrow> nat \<Rightarrow> nat \<Rightarrow> errno + nat"

type_synonym pipe = "nat \<times> bytes"

definition request_bytes :: "byte \<Rightarrow> bytes \<Rightarrow> bytes" where
  "request_bytes type body = [type, of_nat (length body)] @ body"

text \<open>\<open>send_request\<close> writes again after every error.\<close>

partial_function (option) write_pipe :: "pipe_kernel \<Rightarrow> bytes \<Rightarrow> pipe \<Rightarrow> (unit \<times> pipe) res option" where
  "write_pipe K data st =
     (case st of (t, pipe) \<Rightarrow>
       (case pk_write K t (length data) of
          Inl e \<Rightarrow> write_pipe K data (t + 1, pipe)
        | Inr n \<Rightarrow>
            if n \<noteq> length data then Some (Inl Assert_failed) else Some (Inr ((), (t + 1, pipe @ data)))))"

definition send_packet :: "pipe_kernel \<Rightarrow> byte \<Rightarrow> bytes \<Rightarrow> pipe \<Rightarrow> (unit \<times> pipe) res option" where
  "send_packet K type body st = write_pipe K (request_bytes type body) st"

text \<open>
  \<open>block_readpipe\<close>; after an error other than \<open>EINTR\<close> it returns with its buffer unset, which the caller
  reads all the same.
\<close>

partial_function (option) block_readpipe :: "pipe_kernel \<Rightarrow> nat \<Rightarrow> pipe \<Rightarrow> (bytes \<times> pipe) res option" where
  "block_readpipe K sz st =
     (case st of (t, pipe) \<Rightarrow>
       (case pk_read K t sz (length pipe) of
          Inl e \<Rightarrow> if e = EINTR then block_readpipe K sz (t + 1, pipe) else Some (Inl Uninitialised)
        | Inr n \<Rightarrow>
            if n \<noteq> sz then Some (Inl Assert_failed) else Some (Inr (take n pipe, (t + 1, drop n pipe)))))"

text \<open>The beginning of \<open>ctrl_cmd\<close>: the type and the body of the next request.\<close>

definition read_packet :: "pipe_kernel \<Rightarrow> pipe \<Rightarrow> ((byte \<times> bytes) \<times> pipe) res option" where
  "read_packet K st =
     (case block_readpipe K 2 st of
        None \<Rightarrow> None
      | Some (Inl e) \<Rightarrow> Some (Inl e)
      | Some (Inr (header, st)) \<Rightarrow>
          (case block_readpipe K (unat (header ! 1)) st of
             None \<Rightarrow> None
           | Some (Inl e) \<Rightarrow> Some (Inl e)
           | Some (Inr (body, st)) \<Rightarrow> Some (Inr ((header ! 0, body), st))))"

text \<open>
  Calls of the services and of the socket thread on the pipe: \<open>Some\<close> sends a request, \<open>None\<close> takes one out
  if \<open>has_cmd\<close> finds the pipe readable.
\<close>

fun pipe_run :: "pipe_kernel \<Rightarrow> (byte \<times> bytes) option list \<Rightarrow> pipe \<Rightarrow> ((byte \<times> bytes) list \<times> pipe) res option" where
  "pipe_run K [] st = Some (Inr ([], st))"
| "pipe_run K (Some (type, body) # ops) st =
     (case send_packet K type body st of
        None \<Rightarrow> None
      | Some (Inl e) \<Rightarrow> Some (Inl e)
      | Some (Inr (_, st)) \<Rightarrow> pipe_run K ops st)"
| "pipe_run K (None # ops) st =
     (if snd st = [] then pipe_run K ops st
      else
        (case read_packet K st of
           None \<Rightarrow> None
         | Some (Inl e) \<Rightarrow> Some (Inl e)
         | Some (Inr (p, st)) \<Rightarrow>
             (case pipe_run K ops st of
                None \<Rightarrow> None
              | Some (Inl e) \<Rightarrow> Some (Inl e)
              | Some (Inr (ps, st)) \<Rightarrow> Some (Inr (p # ps, st)))))"

text \<open>A queue of requests, with what was taken out and what is left.\<close>

fun queue_run :: "(byte \<times> bytes) option list \<Rightarrow> (byte \<times> bytes) list \<Rightarrow> (byte \<times> bytes) list \<times> (byte \<times> bytes) list" where
  "queue_run [] ps = ([], ps)"
| "queue_run (Some p # ops) ps = queue_run ops (ps @ [p])"
| "queue_run (None # ops) [] = queue_run ops []"
| "queue_run (None # ops) (p # ps) = (let (out, rest) = queue_run ops ps in (p # out, rest))"

text \<open>
  What POSIX says of a pipe: a write of at most 512 bytes is all or nothing, a read gives what is there up
  to what was asked for, a read of the own pipe fails only when it is interrupted; and no transfer fails
  for ever.
\<close>

definition pipe_ok :: "pipe_kernel \<Rightarrow> bool" where
  "pipe_ok K =
     ((\<forall>t len n. len \<le> 512 \<longrightarrow> pk_write K t len = Inr n \<longrightarrow> n = len) \<and>
      (\<forall>t len. \<exists>k. \<forall>e. pk_write K (t + k) len \<noteq> Inl e) \<and>
      (\<forall>t sz len n. pk_read K t sz len = Inr n \<longrightarrow> n = min sz len) \<and>
      (\<forall>t sz len e. pk_read K t sz len = Inl e \<longrightarrow> e = EINTR) \<and>
      (\<forall>t sz len. \<exists>k. \<forall>e. pk_read K (t + k) sz len \<noteq> Inl e))"

lemma pipe_okD:
  assumes "pipe_ok K"
  shows "len \<le> 512 \<Longrightarrow> pk_write K t len = Inr n \<Longrightarrow> n = len"
    "\<exists>k. \<forall>e. pk_write K (t + k) len \<noteq> Inl e"
    "pk_read K t sz len = Inr n \<Longrightarrow> sz \<le> len \<Longrightarrow> n = sz"
    "pk_read K t sz len = Inl e \<Longrightarrow> e = EINTR"
    "\<exists>k. \<forall>e. pk_read K (t + k) sz len \<noteq> Inl e"
proof -
  have k: "\<And>t len n. len \<le> 512 \<Longrightarrow> pk_write K t len = Inr n \<Longrightarrow> n = len"
    "\<And>t len. \<exists>k. \<forall>e. pk_write K (t + k) len \<noteq> Inl e"
    "\<And>t sz len n. pk_read K t sz len = Inr n \<Longrightarrow> n = min sz len"
    "\<And>t sz len e. pk_read K t sz len = Inl e \<Longrightarrow> e = EINTR"
    "\<And>t sz len. \<exists>k. \<forall>e. pk_read K (t + k) sz len \<noteq> Inl e"
    using assms unfolding pipe_ok_def by blast+
  show "len \<le> 512 \<Longrightarrow> pk_write K t len = Inr n \<Longrightarrow> n = len" by (rule k(1))
  show "\<exists>k. \<forall>e. pk_write K (t + k) len \<noteq> Inl e" by (rule k(2))
  show "pk_read K t sz len = Inr n \<Longrightarrow> sz \<le> len \<Longrightarrow> n = sz" using k(3) [of t sz len n] by simp
  show "pk_read K t sz len = Inl e \<Longrightarrow> e = EINTR" by (rule k(4))
  show "\<exists>k. \<forall>e. pk_read K (t + k) sz len \<noteq> Inl e" by (rule k(5))
qed

lemma write_pipe_run:
  assumes "pipe_ok K" "length data \<le> 512"
  shows "\<exists>t'. write_pipe K data (t, pipe) = Some (Inr ((), (t', pipe @ data)))"
proof -
  obtain k where "\<forall>e. pk_write K (t + k) (length data) \<noteq> Inl e" using pipe_okD(2) [OF assms(1)] by blast
  then show ?thesis
  proof (induction k arbitrary: t)
    case 0
    then obtain n where "pk_write K t (length data) = Inr n" by (cases "pk_write K t (length data)") auto
    moreover from this have "n = length data" using pipe_okD(1) [OF assms(1,2)] by blast
    ultimately show ?case by (simp add: write_pipe.simps)
  next
    case (Suc k)
    then obtain t' where "write_pipe K data (t + 1, pipe) = Some (Inr ((), (t', pipe @ data)))" by force
    moreover have "n = length data" if "pk_write K t (length data) = Inr n" for n
      using pipe_okD(1) [OF assms] that by blast
    ultimately show ?case
      by (cases "pk_write K t (length data)") (auto simp: write_pipe.simps [of K data "(t, pipe)"])
  qed
qed

lemma block_readpipe_run:
  assumes "pipe_ok K" "sz \<le> length pipe"
  shows "\<exists>t'. block_readpipe K sz (t, pipe) = Some (Inr (take sz pipe, (t', drop sz pipe)))"
proof -
  have n: "n = sz" if "pk_read K t sz (length pipe) = Inr n" for t n
    using pipe_okD(3) [OF assms(1) that assms(2)] .
  have e: "e = EINTR" if "pk_read K t sz (length pipe) = Inl e" for t e
    using pipe_okD(4) [OF assms(1) that] .
  obtain k where "\<forall>e. pk_read K (t + k) sz (length pipe) \<noteq> Inl e" using pipe_okD(5) [OF assms(1)] by blast
  then show ?thesis
  proof (induction k arbitrary: t)
    case 0
    then obtain n where "pk_read K t sz (length pipe) = Inr n" by (cases "pk_read K t sz (length pipe)") auto
    then show ?case using n [of t] by (simp add: block_readpipe.simps)
  next
    case (Suc k)
    then obtain t' where "block_readpipe K sz (t + 1, pipe) = Some (Inr (take sz pipe, (t', drop sz pipe)))" by force
    then show ?case
      using n [of t] e [of t]
      by (cases "pk_read K t sz (length pipe)") (auto simp: block_readpipe.simps [of K sz "(t, pipe)"])
  qed
qed

lemma read_packet_run:
  assumes "pipe_ok K" "length body < 256"
  shows "\<exists>t'. read_packet K (t, request_bytes type body @ rest) = Some (Inr ((type, body), (t', rest)))"
proof -
  let ?len = "of_nat (length body) :: byte"
  have len: "unat ?len = length body" using assms(2) by (simp add: unat_of_nat)
  obtain t1 where 1: "block_readpipe K 2 (t, request_bytes type body @ rest) = Some (Inr ([type, ?len], (t1, body @ rest)))"
    using block_readpipe_run [OF assms(1), of 2 "request_bytes type body @ rest" t]
    by (auto simp: request_bytes_def numeral_2_eq_2)
  obtain t2 where "block_readpipe K (length body) (t1, body @ rest) = Some (Inr (body, (t2, rest)))"
    using block_readpipe_run [OF assms(1), of "length body" "body @ rest" t1] by auto
  then show ?thesis using 1 len by (simp add: read_packet_def)
qed

abbreviation packets :: "(byte \<times> bytes) list \<Rightarrow> bytes" where
  "packets ps \<equiv> concat (map (\<lambda>(type, body). request_bytes type body) ps)"

lemma pipe_run_queue:
  assumes "pipe_ok K" "\<forall>(type, body) \<in> set ps. length body < 256"
    "\<forall>type body. Some (type, body) \<in> set ops \<longrightarrow> length body < 256"
  shows "\<exists>t'. pipe_run K ops (t, packets ps) = Some (Inr (fst (queue_run ops ps), (t', packets (snd (queue_run ops ps)))))"
  using assms(2,3)
proof (induction ops arbitrary: t ps)
  case Nil
  then show ?case by simp
next
  case (Cons oper ops)
  show ?case
  proof (cases oper)
    case (Some p)
    obtain type body where p: "p = (type, body)" by (cases p) auto
    then have b: "length body < 256" using Cons.prems(2) Some by auto
    then have "length (request_bytes type body) \<le> 512" by (simp add: request_bytes_def)
    then obtain t' where "send_packet K type body (t, packets ps) = Some (Inr ((), (t', packets (ps @ [p]))))"
      using write_pipe_run [OF assms(1), of "request_bytes type body" t "packets ps"] p by (auto simp: send_packet_def)
    moreover have "\<forall>(type, body) \<in> set (ps @ [p]). length body < 256" using Cons.prems(1) b p by auto
    ultimately show ?thesis using Cons.IH [of "ps @ [p]" t'] Cons.prems(2) Some p by simp
  next
    case None
    show ?thesis
    proof (cases ps)
      case Nil
      then show ?thesis using Cons.IH [of "[]" t] Cons.prems None by simp
    next
      case (Cons p ps')
      obtain type body where p: "p = (type, body)" by (cases p) auto
      then have b: "length body < 256" using Cons.prems(1) Cons by auto
      have ne: "packets (p # ps') \<noteq> []" by (simp add: p request_bytes_def)
      obtain t' where r: "read_packet K (t, packets ps) = Some (Inr (p, (t', packets ps')))"
        using read_packet_run [OF assms(1) b, of t type "packets ps'"] Cons p by auto
      obtain t'' where "pipe_run K ops (t', packets ps') =
          Some (Inr (fst (queue_run ops ps'), (t'', packets (snd (queue_run ops ps')))))"
        using Cons.IH [of ps' t'] Cons.prems Cons by auto
      then have "pipe_run K (None # ops) (t, packets ps) =
          Some (Inr (p # fst (queue_run ops ps'), (t'', packets (snd (queue_run ops ps')))))"
        using r ne unfolding Cons by (simp only: pipe_run.simps snd_conv if_False) simp
      then show ?thesis using None Cons by (simp add: case_prod_unfold Let_def)
    qed
  qed
qed

section \<open>Properties\<close>

text \<open>
  C35: The lists of pending writes are lists: whatever sequence of appends, partly successful sends, raises
  and closes with a new use of the slot the code performs on the two linked lists of a socket, none of
  the assertions on the pointers fails (\<open>tail != NULL\<close>, \<open>tail->next == NULL\<close>, the empty high list in
  \<open>raise_uncomplete\<close>, \<open>check_wb_list\<close>), no freed node is used, every walk ends, and the nodes behind the
  heads are those of the two lists on which the theory \<open>Socket\<close> works.
\<close>
theorem write_lists_refine:
  assumes "may_run ss (\<lambda>_. [])"
  shows "\<exists>st'. wb_ops ss no_writes = Inr ((), st') \<and> lists_rep st' (fold spec_step ss (\<lambda>_. []))"
  by (rule wb_ops_run [OF no_writes_rep assms])

theorem write_lists_refine_witness:
  "\<exists>st'. wb_ops [Append PRIORITY_HIGH 1, Append PRIORITY_LOW 2, Append PRIORITY_LOW 3, Send_list PRIORITY_HIGH [True],
      Send_list PRIORITY_LOW [False], Raise, Append PRIORITY_HIGH 1, Send_list PRIORITY_HIGH [True, False], Reuse,
      Append PRIORITY_LOW 2] no_writes = Inr ((), st') \<and>
    lists_rep st' (fold spec_step [Append PRIORITY_HIGH 1, Append PRIORITY_LOW 2, Append PRIORITY_LOW 3,
      Send_list PRIORITY_HIGH [True], Send_list PRIORITY_LOW [False], Raise, Append PRIORITY_HIGH 1,
      Send_list PRIORITY_HIGH [True, False], Reuse, Append PRIORITY_LOW 2] (\<lambda>_. []))"
  by (rule write_lists_refine) simp

text \<open>
  C36: The pipe of requests is a queue: however often the kernel interrupts the transfers, and however
  sends and receipts are mixed, every \<open>send_request\<close> and every \<open>ctrl_cmd\<close> returns with its assertion on the
  number of bytes fulfilled, and the socket thread gets the requests, type and body, in the order in which
  they were sent. The bodies are shorter than 256 bytes, and the kernel does what POSIX says of pipes.
\<close>
theorem pipe_is_a_queue:
  assumes "pipe_ok K" "\<forall>type body. Some (type, body) \<in> set ops \<longrightarrow> length body < 256"
  shows "\<exists>t'. pipe_run K ops (0, []) =
    Some (Inr (fst (queue_run ops []), (t', packets (snd (queue_run ops [])))))"
  using pipe_run_queue [OF assms(1), of "[]" ops 0] assms(2) by simp

text \<open>A kernel that interrupts every other transfer.\<close>

definition busy_kernel :: pipe_kernel where
  "busy_kernel =
     \<lparr>pk_write = (\<lambda>t len. if even t then Inl EINTR else Inr len),
      pk_read = (\<lambda>t sz len. if even t then Inl EINTR else Inr (min sz len))\<rparr>"

theorem pipe_is_a_queue_witness:
  "\<exists>t'. pipe_run busy_kernel [Some (75, [1, 2]), Some (88, []), None, Some (68, [3]), None] (0, []) =
    Some (Inr (fst (queue_run [Some (75, [1, 2]), Some (88, []), None, Some (68, [3]), None] []),
      (t', packets (snd (queue_run [Some (75, [1, 2]), Some (88, []), None, Some (68, [3]), None] [])))))"
proof (rule pipe_is_a_queue)
  have "\<exists>k. odd (t + k)" for t :: nat
  proof (cases "even t")
    case True
    then have "odd (t + 1)" by simp
    then show ?thesis by blast
  next
    case False
    then have "odd (t + 0)" by simp
    then show ?thesis by blast
  qed
  then show "pipe_ok busy_kernel" by (auto simp: pipe_ok_def busy_kernel_def split: if_splits)
qed auto

end
