(* ===== verification/Spec2Isabelle.thy ===== *)
theory Spec2Isabelle
  imports Cluster_agent Gateserver Mq Handle Timer_wheel Gate Seri Crypt Runtime Socket_stream Socket_low
begin

text \<open>
  Verification of testcluster, a cluster of skynet nodes: services, each with its own message queue, run on
  the worker threads of a node (the C runtime in \<open>src/3rd/skynet\<close>, with the project's own C in
  \<open>src/cpp\<close>), the nodes talk to each other over framed TCP connections, and Lua code (\<open>src/lua\<close>) decides
  what a service does with a message. The development models the C code that carries the messages.

  \<^bold>\<open>How a message travels, and which theory models what\<close>

  \<^item> \<open>Prelude\<close>: errors (\<open>err\<close>, \<open>res\<close>), bounds-checked reads and writes of C objects, machine integers and
    their byte layouts, the length-prefixed frame.
  \<^item> \<open>Ring\<close>: rings of messages, and the contract \<open>fifo\<close> that both queues of the program fulfil.
  \<^item> \<open>Seri\<close> (\<open>lualib-src/lua-seri.c\<close>): a service packs the Lua values of a message into bytes, the receiver
    unpacks them. \<open>luaseri_pack\<close> writes into a chain of blocks (\<open>wb_push\<close>), \<open>luaseri_unpack\<close> reads with
    \<open>rb_read\<close>.
  \<^item> \<open>Beecluster\<close> (\<open>cpp/beecluster/lua-beecluster.c\<close>): requests, pushes and responses between nodes become
    frames (\<open>packrequest\<close>, \<open>lpackresponse\<close>), and frames become their parts again (\<open>lunpackrequest\<close>,
    \<open>lunpackresponse\<close>, \<open>lappend\<close>, \<open>lconcat\<close>); a message of 32 kB or more travels in parts.
  \<^item> \<open>Netpack\<close> (\<open>lualib-src/lua-netpack.c\<close>): the receiving gate cuts the byte streams of its connections
    into packages (\<open>filter_data\<close>), keeps the incomplete ones in a hash table and the complete ones in a ring.
  \<^item> \<open>Gateserver\<close> (\<open>lualib/snax/gateserver.lua\<close>): the gate in Lua over it, with its table of connections.
    It hands the packages of open connections to the handler of the user, a parameter that may open and
    close clients, and drops the others.
  \<^item> \<open>Cluster_agent\<close> (\<open>lua/BeeCluster/bee_clusteragent.lua\<close>): an agent collects the parts of a request and
    dispatches it.
  \<^item> \<open>Databuffer\<close> and \<open>Gate\<close> (\<open>service-src/databuffer.h\<close>, \<open>hashid.h\<close>, \<open>service_gate.c\<close>): the gate written
    in C, with its buffer of received chunks and its table of socket ids.
  \<^item> \<open>Mq\<close> (\<open>skynet-src/skynet_mq.c\<close>): the queue of a service, the global queue from which the workers take
    a queue to work on, and the protocol between senders, workers and the retirement of a service as a
    step relation.
  \<^item> \<open>Handle\<close> (\<open>skynet-src/skynet_handle.c\<close>): handles and names of services.
  \<^item> \<open>Timer_wheel\<close> (\<open>skynet-src/skynet_timer.c\<close>): timeouts.
  \<^item> \<open>Des\<close> and \<open>Crypt\<close> (\<open>lualib-src/lua-crypt.c\<close>): the cipher, the exchange of a secret, the keyed hash and
    the text encodings of the login.
  \<^item> \<open>Cstring\<close>: the parts of \<open>string.h\<close>, \<open>stdlib.h\<close> and \<open>stdio.h\<close> that the runtime uses to read and
    write its text commands.
  \<^item> \<open>Server\<close> (\<open>skynet-src/skynet_server.c\<close>, \<open>skynet_harbor.c\<close>, \<open>skynet_error.c\<close>): the contexts of the
    services with their reference counts, sending by handle and by name, session numbers, the release of a
    service (with the blocks that the module's own release function frees, a parameter), over one record \<open>node\<close> of the whole node: contexts, queues, handles, timers and the heap of
    message payloads. Its operations are functions of type \<open>'a op\<close>, from a node to an error or a result and
    the new node.
  \<^item> \<open>Service\<close> (\<open>skynet_server.c\<close>, \<open>skynet_monitor.c\<close>, \<open>skynet_timer.c\<close>): the text commands, the launch of a
    service, the dispatch of messages by a worker. What a service does with a message is a \<open>program\<close>: a tree
    of calls into the runtime, a parameter of the model.
  \<^item> \<open>Node\<close>: the invariant \<open>node_ok\<close> of a node. The context of a service stays allocated exactly as long as
    its reference count says, and its queue is scheduled at most once. Triples \<open>safe P m Q\<close>, one per operation,
    show that each operation keeps it when it returns and uses no freed or foreign context or queue
    (\<open>Out_of_bounds\<close>); other errors they do not exclude. \<open>node_step\<close> is the step relation of a node with any
    number of workers. Its steps are a whole slice of a worker (\<open>skynet_context_message_dispatch\<close>), a tick of
    the timer and a launch: finer interleavings are in the step relation of \<open>Mq\<close> only.
  \<^item> \<open>Runtime\<close>: the properties of the whole node.
  \<^item> \<open>Effects\<close>: operations on a state that may fail (\<open>act\<close>), and the triples with which \<open>Node\<close> and the
    socket theories reason about them.
  \<^item> \<open>Socket\<close> (\<open>skynet-src/socket_server.c\<close>): the socket server. The record \<open>socket_server\<close> has the table of
    sockets, the array of events, the pipe of requests, the heap and the list of all system calls made; the
    kernel is a parameter, a record of functions from that list to the answer of its last call.
  \<^item> \<open>Socket_ok\<close>, \<open>Socket_poll\<close>, \<open>Socket_safe\<close>: the invariant \<open>server_ok\<close> of the server (each buffer has one
    owner, a slot is reserved exactly while the request that opens it is under way, the kernel watches
    exactly the sockets in a state that handles events, and no event for a closed socket is left), its
    preservation by each request, each event and each call of a service, the states \<open>server_reachable\<close> by
    any interleaving of them, and the properties. What the proofs rely on of the kernel is \<open>kernel_ok\<close>.
  \<^item> \<open>Socket_low\<close>: what \<open>Socket\<close> abstracts from, in the form of the code: the linked lists of pending writes with
    their tail pointers and assertions, and the pipe of requests as bytes with the loops that try again.
    Its two theorems are that the lists behave like lists and the pipe like a queue.
  \<^item> \<open>Socket_stream\<close>: the contract of a TCP connection, a stream of bytes with two priorities and the step
    relation \<open>transmit\<close>, and the refinement: what \<open>send_socket\<close> and \<open>send_buffer\<close> do with the lists of writes
    is a run of it (\<open>stream_of\<close> is the abstraction, \<open>sent\<close> what the kernel took).

  \<^bold>\<open>State and operations\<close>

  A C struct is a record with the fields of the struct, a C function is a definition of its name (with a
  suffix or prefix where the name is taken) that returns the new state. A pointer to a buffer is the list of
  the bytes of the object, so that a read or write outside of it is the error \<open>Out_of_bounds\<close>; a Lua error
  is \<open>Lua_error\<close>, a failed assertion \<open>Assert_failed\<close>. A theorem that a function returns \<open>Inr _\<close>
  therefore also says that it touches no memory but its own. Fixed-width integers are words. Spin locks are
  the atomicity of the operations they protect.

  \<^bold>\<open>What the lemmas show\<close>

  Each component has an invariant or a specification on lists and maps, one lemma per operation that the
  operation implements it, and the properties, which are numbered C1 and on in the order of the manifest.
  The interfaces are locales: \<open>fifo\<close> (\<open>Ring\<close>) is interpreted by the ring of packages and by the queue of
  messages, \<open>directory\<close> (\<open>Handle\<close>) by the table of names.

  \<^bold>\<open>Bounds and fuel\<close>

  Loops are structural recursions or functions with a measure. The unpacker of \<open>Seri\<close> recurses over a fuel of
  four units per byte of input and four more, and \<open>unpack_reads\<close> shows that it never runs out; the loop that
  doubles the overload mark and the walks along chains of the socket id table are option-valued, and their
  lemmas show the result for every reachable state. \<open>pow_mod_p\<close> does not return for the exponent 0 and gives
  \<open>Diverges\<close> there; both callers exclude it. The program of a service is an inductive datatype, so one
  message leads to finitely many calls; \<open>exec\<close> recurses over a fuel, which bounds how deep services may
  launch services from within their initialisation (the C stack does the same), and running out of it is the
  error \<open>Diverges\<close>, which no theorem excludes silently: it is named wherever it can occur. A \<open>write\<close> that the
  socket server repeats while it is interrupted is option-valued, and returns since \<open>kernel_ok\<close> excludes
  that it is interrupted for ever; the loop of \<open>socket_server_poll\<close> is option-valued, and the theorems are
  about its rounds (\<open>poll_round\<close>). Socket ids are 31 bits wide and start again when they are used up; the
  theorems of the socket server hold until then (\<open>ids_left\<close>). The size of a read is an integer without
  bound: the \<open>int\<close> of the code would overflow only after one read of 2^30 bytes. The capacity of the queue
  of a service and the size of a receive buffer (\<open>databuffer\<close>) are natural numbers, where the code has an
  \<open>int\<close> that would overflow beyond 2^30 messages or 2^31 bytes; the index computed by \<open>hashid_insert\<close> is kept
  at its 32 bits.

  \<^bold>\<open>Not modelled\<close>

  The bindings of the socket server (\<open>skynet_socket.c\<close>, \<open>lua-socket.c\<close>, \<open>lua-clientsocket.c\<close>) and the system
  calls behind it, races of the worker threads with the socket thread inside one of its operations, the
  threads and the Lua virtual machine (its stack limit and the C stack as well, which the recursion of
  \<open>unpack_table\<close> can exhaust), races inside the launch of a service, dynamic loading, logging,
  the other Lua libraries (bson, mongo, mysql, sproto, sharedata, stm, profile, debugchannel, multicast),
  the harbor service, the C++ services of \<open>src/cpp/common\<close>, \<open>log\<close> and \<open>shop\<close>, the Lua services but for the
  two fragments above, and all generated and third-party code (protobuf, jemalloc, Lua, lpeg, md5).
  The file \<open>3rd/skynet/lualib-src/lua-cluster.c\<close> is a second copy of \<open>lua-beecluster.c\<close>.
\<close>

end
